(* ===== verification/MxPrelude.thy ===== *)
theory MxPrelude
  imports Main "HOL-Library.Word" "HOL-Library.Monad_Syntax"
begin

section \<open>Prelude: machine types, arrays and pointer chains\<close>

text \<open>
  What the component theories of MxTasking share: the names of the machine integer types,
  array access that fails outside the array (a C++ read or write past the end is undefined
  behaviour, here the value None), block copies as the library's memmove does them, the
  least index of a sorted array whose key is not below a search key (std::lower_bound),
  null-terminated chains of linked items, and the contract of a step relation with its invariant.
\<close>

unbundle bit_operations_syntax

named_theorems mx_defs \<open>definitions of operations that are unfolded together\<close>
named_theorems array_simps \<open>reads and writes of arrays\<close>
named_theorems chain_simps \<open>rewriting of chains of linked items\<close>

type_synonym u8 = "8 word"
type_synonym u16 = "16 word"
type_synonym u32 = "32 word"
type_synonym u64 = "64 word"
type_synonym addr = nat

text \<open>A value that fits into a narrower bit field survives the store and the load.\<close>

lemma ucast_bit_field:
  assumes "unat (w :: 'a::len word) < 2 ^ LENGTH('b::len)"
  shows "(ucast (ucast w :: 'b word) :: 'a word) = w"
proof (rule unsigned_word_eqI)
  show "unat (ucast (ucast w :: 'b word) :: 'a word) = unat w"
    using assms by (simp add: unsigned_ucast_eq unsigned_take_bit_eq take_bit_nat_eq_self_iff)
qed

lemma and_mask_nat: "(n :: nat) AND (2 ^ k - 1) = n mod 2 ^ k"
  by (metis mask_eq_exp_minus_1 take_bit_eq_mask take_bit_eq_mod)

lemma and_mask_nats:
  "(n :: nat) AND 63 = n mod 64" "n AND 127 = n mod 128" "n AND 255 = n mod 256"
  "n AND 511 = n mod 512" "n AND 1023 = n mod 1024" "n AND 7 = n mod 8"
  using and_mask_nat [of n 6] and_mask_nat [of n 7] and_mask_nat [of n 8]
    and_mask_nat [of n 9] and_mask_nat [of n 10] and_mask_nat [of n 3] by simp_all

subsection \<open>Arrays of fixed length\<close>

definition arr_get :: "'a list \<Rightarrow> nat \<Rightarrow> 'a option" where
  "arr_get xs i = (if i < length xs then Some (xs ! i) else None)"

definition arr_set :: "'a list \<Rightarrow> nat \<Rightarrow> 'a \<Rightarrow> 'a list option" where
  "arr_set xs i v = (if i < length xs then Some (xs[i := v]) else None)"

text \<open>
  Copying \<open>count\<close> cells from position \<open>src\<close> of one array to position \<open>dst\<close> of another (the
  same one for memmove, whose result does not depend on the overlap).
\<close>

definition arr_copy :: "'a list \<Rightarrow> nat \<Rightarrow> 'a list \<Rightarrow> nat \<Rightarrow> nat \<Rightarrow> 'a list option" where
  "arr_copy from src to dst count =
     (if src + count \<le> length from \<and> dst + count \<le> length to
      then Some (take dst to @ take count (drop src from) @ drop (dst + count) to)
      else None)"

lemma arr_get_Some [array_simps]: "arr_get xs i = Some v \<longleftrightarrow> i < length xs \<and> v = xs ! i"
  by (auto simp: arr_get_def)

lemma arr_get_None [array_simps]: "arr_get xs i = None \<longleftrightarrow> length xs \<le> i"
  by (simp add: arr_get_def not_less)

lemma arr_set_Some [array_simps]:
  "arr_set xs i v = Some ys \<longleftrightarrow> i < length xs \<and> ys = xs[i := v]"
  by (auto simp: arr_set_def)

lemma arr_set_length: "arr_set xs i v = Some ys \<Longrightarrow> length ys = length xs"
  by (simp add: array_simps)

lemma arr_copy_length: "arr_copy from src to dst count = Some ys \<Longrightarrow> length ys = length to"
  by (auto simp: arr_copy_def split: if_splits)

text \<open>
  The two writes that open a gap in an array: shift the tail one cell to the right and put
  the new value into the gap. The first \<open>n + 1\<close> cells are the old ones with the value
  inserted; the cells behind keep their content.
\<close>

lemma arr_shift_insert:
  assumes "i \<le> n" "n < length xs"
  shows "\<exists>ys. arr_copy xs i xs (i + 1) (n - i) = Some ys \<and> length ys = length xs \<and>
           take (Suc n) (ys[i := v]) = take i xs @ v # drop i (take n xs) \<and>
           drop (Suc n) (ys[i := v]) = drop (Suc n) xs"
proof -
  let ?ys = "take (i + 1) xs @ take (n - i) (drop i xs) @ drop (i + 1 + (n - i)) xs"
  have copy: "arr_copy xs i xs (i + 1) (n - i) = Some ?ys"
    using assms by (simp add: arr_copy_def)
  have len: "length ?ys = length xs" using assms by simp
  have "(take (i + 1) xs)[i := v] = take i xs @ [v]"
    using assms by (simp add: take_Suc_conv_app_nth list_update_append)
  then have upd: "?ys[i := v] = take i xs @ v # take (n - i) (drop i xs) @ drop (Suc n) xs"
    using assms by (subst list_update_append1) auto
  have mid: "take (n - i) (drop i xs) = drop i (take n xs)"
    by (simp add: drop_take)
  have l: "length (take i xs @ v # drop i (take n xs)) = Suc n"
    using assms by simp
  have app: "?ys[i := v] = (take i xs @ v # drop i (take n xs)) @ drop (Suc n) xs"
    using upd mid by simp
  have "take (Suc n) (?ys[i := v]) = take i xs @ v # drop i (take n xs)"
    unfolding app using l by (metis append_eq_conv_conj)
  moreover have "drop (Suc n) (?ys[i := v]) = drop (Suc n) xs"
    unfolding app using l by (metis append_eq_conv_conj)
  ultimately show ?thesis using copy len by blast
qed

subsection \<open>Least index not below a key\<close>

text \<open>
  std::lower_bound on a sorted range: the number of leading elements below the key. The
  library searches by bisection; on a sorted range the result is this index.
\<close>

fun lower_bound :: "'k::linorder list \<Rightarrow> 'k \<Rightarrow> nat" where
  "lower_bound [] k = 0"
| "lower_bound (x # xs) k = (if x < k then Suc (lower_bound xs k) else 0)"

lemma lower_bound_le: "lower_bound xs k \<le> length xs"
  by (induction xs) auto

lemma lower_bound_takeWhile: "lower_bound xs k = length (takeWhile (\<lambda>x. x < k) xs)"
  by (induction xs) auto

lemma lower_bound_below: "i < lower_bound xs k \<Longrightarrow> xs ! i < k"
  by (metis (no_types, lifting) lower_bound_takeWhile nth_mem set_takeWhileD takeWhile_nth)

lemma lower_bound_at: "lower_bound xs k < length xs \<Longrightarrow> k \<le> xs ! lower_bound xs k"
  by (metis lower_bound_takeWhile nth_length_takeWhile not_less)

lemma lower_bound_above:
  assumes "sorted xs" "lower_bound xs k \<le> i" "i < length xs"
  shows "k \<le> xs ! i"
proof -
  have "xs ! lower_bound xs k \<le> xs ! i"
    using assms by (simp add: sorted_iff_nth_mono)
  then show ?thesis using lower_bound_at [of xs k] assms by force
qed

lemma lower_bound_unique:
  assumes "sorted xs" "n \<le> length xs" "\<And>i. i < n \<Longrightarrow> xs ! i < k"
    "\<And>i. n \<le> i \<Longrightarrow> i < length xs \<Longrightarrow> k \<le> xs ! i"
  shows "lower_bound xs k = n"
proof (rule linorder_cases [of "lower_bound xs k" n])
  assume "lower_bound xs k < n"
  then show ?thesis
    using assms lower_bound_at [of xs k] by force
next
  assume "n < lower_bound xs k"
  then show ?thesis
    using assms(4) [of n] lower_bound_below [of n xs k] lower_bound_le [of xs k] by force
qed simp

lemma sorted_insert_at_lower_bound:
  assumes "sorted_wrt (<) xs" "k \<notin> set xs"
  shows "sorted_wrt (<) (take (lower_bound xs k) xs @ k # drop (lower_bound xs k) xs)"
  using assms
proof (induction xs)
  case (Cons x xs)
  show ?case
  proof (cases "x < k")
    case True
    with Cons show ?thesis by (auto dest: in_set_takeD in_set_dropD)
  next
    case False
    with Cons.prems have "k < x" by auto
    with Cons.prems False show ?thesis by auto
  qed
qed simp

lemma lower_bound_hit:
  assumes "sorted_wrt (<) xs"
  shows "(lower_bound xs k < length xs \<and> xs ! lower_bound xs k = k) \<longleftrightarrow> k \<in> set xs"
  using assms
proof (induction xs)
  case (Cons x xs)
  then show ?case by (cases "x < k") auto
qed simp

subsection \<open>Chains of linked items\<close>

text \<open>
  The \<open>_next\<close> fields of all items of one kind form a store: an item is mapped to its
  successor, \<open>None\<close> is the null pointer. \<open>chain h p xs r\<close> says that following the store
  from \<open>p\<close> visits the items \<open>xs\<close> and ends in \<open>r\<close>.
\<close>

type_synonym 'a links = "'a \<Rightarrow> 'a option"

fun chain :: "'a links \<Rightarrow> 'a option \<Rightarrow> 'a list \<Rightarrow> 'a option \<Rightarrow> bool" where
  "chain h p [] r = (p = r)"
| "chain h p (x # xs) r = (p = Some x \<and> chain h (h x) xs r)"

lemma chain_append [chain_simps]:
  "chain h p (xs @ ys) r \<longleftrightarrow> (\<exists>m. chain h p xs m \<and> chain h m ys r)"
  by (induction xs arbitrary: p) auto

lemma chain_cong: "(\<And>x. x \<in> set xs \<Longrightarrow> h' x = h x) \<Longrightarrow> chain h' p xs r = chain h p xs r"
  by (induction xs arbitrary: p) auto

lemma chain_upd_other [chain_simps]: "a \<notin> set xs \<Longrightarrow> chain (h(a := v)) p xs r = chain h p xs r"
  by (rule chain_cong) auto

lemma chain_start: "chain h p xs None \<Longrightarrow> p = (if xs = [] then None else Some (hd xs))"
  by (cases xs) auto

lemma chain_unique: "chain h p xs None \<Longrightarrow> chain h p ys None \<Longrightarrow> xs = ys"
proof (induction xs arbitrary: p ys)
  case Nil
  then show ?case by (cases ys) auto
next
  case (Cons x xs)
  then show ?case by (cases ys) auto
qed

lemma chain_snoc:
  assumes "chain h p xs None" "xs \<noteq> []" "x \<notin> set xs" "distinct xs"
  shows "chain (h(x := None, last xs := Some x)) p (xs @ [x]) None"
proof -
  obtain zs z where xs: "xs = zs @ [z]" using assms(2) by (cases xs rule: rev_exhaust) auto
  with assms have "chain h p zs (Some z)" by (auto simp: chain_append)
  moreover have "z \<notin> set zs" "x \<notin> set zs" "x \<noteq> z" using assms xs by auto
  ultimately show ?thesis by (auto simp: xs chain_simps)
qed

subsection \<open>Interleavings\<close>

text \<open>
  Concurrent components are step relations: a step is one access of one thread to a shared variable. The
  invariant of such a system holds initially and is kept by every step; then it holds in every
  reachable state. The components give start, step and invariant.
\<close>

locale step_system =
  fixes start :: "'s \<Rightarrow> bool" and step :: "'s \<Rightarrow> 's \<Rightarrow> bool" and inv :: "'s \<Rightarrow> bool"
  assumes start_inv: "start s \<Longrightarrow> inv s"
    and step_inv: "step s s' \<Longrightarrow> inv s \<Longrightarrow> inv s'"
begin

lemma steps_inv: "step\<^sup>*\<^sup>* s s' \<Longrightarrow> inv s \<Longrightarrow> inv s'"
  by (induction rule: rtranclp_induct) (auto dest: step_inv)

lemma reachable_inv: "start s \<Longrightarrow> step\<^sup>*\<^sup>* s s' \<Longrightarrow> inv s'"
  by (blast intro: start_inv steps_inv)

end

end
