(* ===== verification/LinkedQueues.thy ===== *)
theory LinkedQueues
  imports MxPrelude
begin

section \<open>The intrusive task queues\<close>

text \<open>
  mx/util/queue.h (Queue, one thread) and mx/util/mpsc_queue.h (MPSCQueue, called from one
  thread at a time here; the interleaved producers are in theory MpscConcurrent). Both
  queues link their items through the items' own next pointers, so an operation changes
  the shared link store as well as the queue. The locale \<open>linked_source\<close> is what a client
  that drains a queue relies on (TaskBuffer::fill is a template over the queue type);
  both queues are interpretations.
\<close>

subsection \<open>Queue\<close>

record 'a spsc_queue =
  q_head :: "'a option"
  q_tail :: "'a option"

definition queue_new :: "'a spsc_queue" where
  "queue_new = \<lparr>q_head = None, q_tail = None\<rparr>"

definition queue_push_back :: "'a \<Rightarrow> 'a links \<Rightarrow> 'a spsc_queue \<Rightarrow> 'a links \<times> 'a spsc_queue" where
  "queue_push_back item h q =
     (let h1 = h(item := None) in
      case q_tail q of
        Some t \<Rightarrow> (h1(t := Some item), q\<lparr>q_tail := Some item\<rparr>)
      | None \<Rightarrow> (h1, q\<lparr>q_head := Some item, q_tail := Some item\<rparr>))"

definition queue_empty :: "'a links \<Rightarrow> 'a spsc_queue \<Rightarrow> bool" where
  "queue_empty h q = (q_head q = None)"

definition queue_begin :: "'a spsc_queue \<Rightarrow> 'a option" where
  "queue_begin q = q_head q"

definition queue_end :: "'a spsc_queue \<Rightarrow> 'a option" where
  "queue_end q = q_tail q"

definition queue_pop_front ::
  "'a links \<Rightarrow> 'a spsc_queue \<Rightarrow> 'a option \<times> 'a links \<times> 'a spsc_queue" where
  "queue_pop_front h q =
     (case q_head q of
        None \<Rightarrow> (None, h, q)
      | Some head \<Rightarrow>
          (let new_head = h head;
               q1 = (if new_head = None then q\<lparr>q_tail := None\<rparr> else q)
           in (Some head, h, q1\<lparr>q_head := new_head\<rparr>)))"

text \<open>The queue holds the items \<open>xs\<close>, first to be taken first.\<close>

definition queue_rep :: "'a links \<Rightarrow> 'a spsc_queue \<Rightarrow> 'a list \<Rightarrow> bool" where
  "queue_rep h q xs \<longleftrightarrow> chain h (q_head q) xs None \<and> distinct xs \<and>
     q_tail q = (if xs = [] then None else Some (last xs))"

subsection \<open>MPSCQueue\<close>

text \<open>
  \<open>mq_end\<close> is the address of the stub item inside the queue object; it is an item of the
  chain like any other.
\<close>

record 'a mpsc_queue =
  mq_head :: 'a
  mq_tail :: 'a
  mq_end :: 'a

definition mpsc_new :: "'a \<Rightarrow> 'a links \<Rightarrow> 'a links \<times> 'a mpsc_queue" where
  "mpsc_new stub h = (h(stub := None), \<lparr>mq_head = stub, mq_tail = stub, mq_end = stub\<rparr>)"

definition mpsc_push_back :: "'a \<Rightarrow> 'a links \<Rightarrow> 'a mpsc_queue \<Rightarrow> 'a links \<times> 'a mpsc_queue" where
  "mpsc_push_back item h q =
     (let h1 = h(item := None);
          prev = mq_head q;
          q1 = q\<lparr>mq_head := item\<rparr>
      in (h1(prev := Some item), q1))"

definition mpsc_push_back_range ::
  "'a \<Rightarrow> 'a \<Rightarrow> 'a links \<Rightarrow> 'a mpsc_queue \<Rightarrow> 'a links \<times> 'a mpsc_queue" where
  "mpsc_push_back_range first final h q =
     (let h1 = h(final := None);
          old_head = mq_head q;
          q1 = q\<lparr>mq_head := final\<rparr>
      in (h1(old_head := Some first), q1))"

definition mpsc_empty :: "'a links \<Rightarrow> 'a mpsc_queue \<Rightarrow> bool" where
  "mpsc_empty h q = (mq_tail q = mq_end q \<and> h (mq_end q) = None)"

text \<open>The part of pop_front after a leading stub has been skipped.\<close>

definition mpsc_pop_item ::
  "'a \<Rightarrow> 'a option \<Rightarrow> 'a links \<Rightarrow> 'a mpsc_queue \<Rightarrow> 'a option \<times> 'a links \<times> 'a mpsc_queue" where
  "mpsc_pop_item tail next h q =
     (case next of
        Some n \<Rightarrow> (Some tail, h, q\<lparr>mq_tail := n\<rparr>)
      | None \<Rightarrow>
          if tail \<noteq> mq_head q then (None, h, q)
          else
            (let (h1, q1) = mpsc_push_back (mq_end q) h q in
             case h1 tail of
               Some n \<Rightarrow> (Some tail, h1, q1\<lparr>mq_tail := n\<rparr>)
             | None \<Rightarrow> (None, h1, q1)))"

definition mpsc_pop_front ::
  "'a links \<Rightarrow> 'a mpsc_queue \<Rightarrow> 'a option \<times> 'a links \<times> 'a mpsc_queue" where
  "mpsc_pop_front h q =
     (let tail = mq_tail q; next = h tail in
      if tail = mq_end q
      then (case next of
              None \<Rightarrow> (None, h, q)
            | Some n \<Rightarrow> mpsc_pop_item n (h n) h (q\<lparr>mq_tail := n\<rparr>))
      else mpsc_pop_item tail next h q)"

text \<open>
  The chain from the tail visits every item that is not taken yet and at most once the
  stub; the last item of the chain is the head.
\<close>

definition mpsc_chain :: "'a links \<Rightarrow> 'a mpsc_queue \<Rightarrow> 'a list \<Rightarrow> bool" where
  "mpsc_chain h q cs \<longleftrightarrow> cs \<noteq> [] \<and> distinct cs \<and> chain h (Some (mq_tail q)) cs None \<and>
     mq_head q = last cs"

definition mpsc_rep :: "'a links \<Rightarrow> 'a mpsc_queue \<Rightarrow> 'a list \<Rightarrow> bool" where
  "mpsc_rep h q xs \<longleftrightarrow> (\<exists>cs. mpsc_chain h q cs \<and> xs = filter (\<lambda>c. c \<noteq> mq_end q) cs)"

subsection \<open>Queue: every operation on the list of items\<close>

lemma queue_rep_new: "queue_rep h queue_new []"
  by (simp add: queue_rep_def queue_new_def)

lemma queue_rep_cong:
  "queue_rep h q xs \<Longrightarrow> (\<And>x. x \<in> set xs \<Longrightarrow> h' x = h x) \<Longrightarrow> queue_rep h' q xs"
  using chain_cong [of xs h' h "q_head q" None] by (simp add: queue_rep_def)

lemma queue_push_back_rep:
  assumes "queue_rep h q xs" "x \<notin> set xs" "queue_push_back x h q = (h', q')"
  shows "queue_rep h' q' (xs @ [x])"
proof (cases "xs = []")
  case True
  with assms show ?thesis by (auto simp: queue_rep_def queue_push_back_def)
next
  case False
  with assms have "h' = h(x := None, last xs := Some x)" "q_head q' = q_head q" "q_tail q' = Some x"
    by (auto simp: queue_rep_def queue_push_back_def)
  with False assms chain_snoc [of h "q_head q" xs x] show ?thesis
    by (auto simp: queue_rep_def)
qed

lemma queue_push_back_frame:
  "queue_rep h q xs \<Longrightarrow> queue_push_back x h q = (h', q') \<Longrightarrow> y \<notin> insert x (set xs) \<Longrightarrow> h' y = h y"
  by (auto simp: queue_rep_def queue_push_back_def split: if_splits)

lemma queue_pop_front_rep:
  assumes "queue_rep h q xs" "queue_pop_front h q = (r, h', q')"
  shows "r = (if xs = [] then None else Some (hd xs)) \<and> h' = h \<and> queue_rep h' q' (tl xs)"
proof (cases xs)
  case Nil
  with assms show ?thesis by (auto simp: queue_rep_def queue_pop_front_def)
next
  case (Cons x ys)
  then show ?thesis
    using assms chain_start [of h "h x" ys]
    by (auto simp: queue_rep_def queue_pop_front_def Let_def split: if_splits)
qed

lemma queue_empty_rep: "queue_rep h q xs \<Longrightarrow> queue_empty h q = (xs = [])"
  using chain_start [of h "q_head q" xs] by (auto simp: queue_rep_def queue_empty_def)

lemma queue_begin_end_rep:
  "queue_rep h q xs \<Longrightarrow> xs \<noteq> [] \<Longrightarrow> queue_begin q = Some (hd xs) \<and> queue_end q = Some (last xs)"
  using chain_start [of h "q_head q" xs] by (auto simp: queue_rep_def queue_begin_def queue_end_def)

subsection \<open>MPSCQueue: every operation on the list of items\<close>

lemma mpsc_chain_tail: "mpsc_chain h q cs \<Longrightarrow> \<exists>ds. cs = mq_tail q # ds"
  by (cases cs) (auto simp: mpsc_chain_def)

lemma mpsc_new_rep: "mpsc_new stub h = (h', q) \<Longrightarrow> mpsc_rep h' q [] \<and> mq_end q = stub"
  by (auto simp: mpsc_new_def mpsc_rep_def mpsc_chain_def intro!: exI [of _ "[stub]"])

lemma mpsc_rep_distinct: "mpsc_rep h q xs \<Longrightarrow> distinct xs \<and> mq_end q \<notin> set xs"
  by (auto simp: mpsc_rep_def mpsc_chain_def)

lemma mpsc_chain_cong:
  "mpsc_chain h q cs \<Longrightarrow> (\<And>c. c \<in> set cs \<Longrightarrow> h' c = h c) \<Longrightarrow> mpsc_chain h' q cs"
  using chain_cong [of cs h' h] by (simp add: mpsc_chain_def)

lemma mpsc_rep_cong:
  assumes "mpsc_rep h q xs" "\<And>c. c \<in> insert (mq_end q) (set xs) \<Longrightarrow> h' c = h c"
  shows "mpsc_rep h' q xs"
proof -
  obtain cs where cs: "mpsc_chain h q cs" "xs = filter (\<lambda>c. c \<noteq> mq_end q) cs"
    using assms(1) by (auto simp: mpsc_rep_def)
  then have "mpsc_chain h' q cs"
    by (intro mpsc_chain_cong [of h q cs h']) (use assms(2) cs in auto)
  with cs show ?thesis by (auto simp: mpsc_rep_def)
qed

lemma mpsc_push_back_chain:
  assumes "mpsc_chain h q cs" "x \<notin> set cs" "mpsc_push_back x h q = (h', q')"
  shows "mpsc_chain h' q' (cs @ [x]) \<and> mq_end q' = mq_end q \<and> mq_tail q' = mq_tail q"
proof -
  have q': "h' = h(x := None, last cs := Some x)" "q' = q\<lparr>mq_head := x\<rparr>"
    using assms by (auto simp: mpsc_push_back_def mpsc_chain_def)
  with assms chain_snoc [of h "Some (mq_tail q)" cs x] show ?thesis
    by (auto simp: mpsc_chain_def)
qed

lemma mpsc_push_back_rep:
  assumes "mpsc_rep h q xs" "x \<notin> insert (mq_end q) (set xs)" "mpsc_push_back x h q = (h', q')"
  shows "mpsc_rep h' q' (xs @ [x]) \<and> mq_end q' = mq_end q"
proof -
  obtain cs where cs: "mpsc_chain h q cs" "xs = filter (\<lambda>c. c \<noteq> mq_end q) cs"
    using assms(1) by (auto simp: mpsc_rep_def)
  then have "x \<notin> set cs" using assms(2) by auto
  from mpsc_push_back_chain [OF cs(1) this assms(3)] show ?thesis
    using cs assms(2) by (auto simp: mpsc_rep_def intro!: exI [of _ "cs @ [x]"])
qed

lemma mpsc_push_back_frame:
  assumes "mpsc_rep h q xs" "mpsc_push_back x h q = (h', q')" "y \<notin> insert x (insert (mq_end q) (set xs))"
  shows "h' y = h y"
proof -
  obtain cs where cs: "mpsc_chain h q cs" "xs = filter (\<lambda>c. c \<noteq> mq_end q) cs"
    using assms(1) by (auto simp: mpsc_rep_def)
  then have "last cs \<in> set cs" by (simp add: mpsc_chain_def)
  with cs assms have "last cs \<noteq> y" by auto
  with cs(1) assms show ?thesis by (auto simp: mpsc_push_back_def mpsc_chain_def)
qed

lemma mpsc_pop_item_chain:
  assumes "mpsc_chain h q (c # ds)" "c \<noteq> mq_end q"
    "mpsc_pop_item c (h c) h q = (r, h', q')"
  shows "r = Some c \<and> mq_end q' = mq_end q \<and>
    mpsc_chain h' q' (if ds = [] then [mq_end q] else ds) \<and>
    (\<forall>y. y \<notin> insert (mq_end q) (set (c # ds)) \<longrightarrow> h' y = h y)"
proof (cases ds)
  case Nil
  with assms(1) have hc: "h c = None" "mq_tail q = c" "mq_head q = c"
    by (auto simp: mpsc_chain_def)
  with Nil assms show ?thesis
    by (auto simp: mpsc_pop_item_def mpsc_push_back_def mpsc_chain_def)
next
  case (Cons d es)
  with assms(1) have "h c = Some d" by (simp add: mpsc_chain_def)
  with Cons assms show ?thesis
    by (auto simp: mpsc_pop_item_def mpsc_chain_def)
qed

lemma mpsc_pop_front_chain:
  assumes "mpsc_chain h q cs" "mpsc_pop_front h q = (r, h', q')"
  shows "\<exists>cs'. mpsc_chain h' q' cs' \<and> mq_end q' = mq_end q \<and>
    (let xs = filter (\<lambda>c. c \<noteq> mq_end q) cs in
      r = (if xs = [] then None else Some (hd xs)) \<and>
      filter (\<lambda>c. c \<noteq> mq_end q) cs' = tl xs) \<and>
    (\<forall>y. y \<notin> insert (mq_end q) (set cs) \<longrightarrow> h' y = h y)"
proof -
  obtain ds where ds: "cs = mq_tail q # ds" using mpsc_chain_tail [OF assms(1)] by blast
  show ?thesis
  proof (cases "mq_tail q = mq_end q")
    case False
    then have pop: "mpsc_pop_item (mq_tail q) (h (mq_tail q)) h q = (r, h', q')"
      using assms(2) by (simp add: mpsc_pop_front_def Let_def)
    from mpsc_pop_item_chain [OF assms(1) [unfolded ds] False pop] False ds show ?thesis
      by (intro exI [of _ "if ds = [] then [mq_end q] else ds"]) auto
  next
    case stub: True
    have rest: "mq_end q \<notin> set ds" and link: "chain h (h (mq_end q)) ds None"
      using assms(1) ds stub by (auto simp: mpsc_chain_def)
    then have filt: "filter (\<lambda>c. c \<noteq> mq_end q) ds = ds"
      by (auto simp: filter_id_conv)
    show ?thesis
    proof (cases ds)
      case Nil
      with assms link stub ds show ?thesis
        by (auto simp: mpsc_pop_front_def intro!: exI [of _ "[mq_end q]"])
    next
      case (Cons c es)
      with link have n: "h (mq_end q) = Some c" by simp
      let ?q = "q\<lparr>mq_tail := c\<rparr>"
      have chain: "mpsc_chain h ?q (c # es)" and c: "c \<noteq> mq_end ?q"
        using assms(1) ds Cons link rest by (auto simp: mpsc_chain_def)
      have "mpsc_pop_item c (h c) h ?q = (r, h', q')"
        using assms(2) stub n by (simp add: mpsc_pop_front_def Let_def)
      from mpsc_pop_item_chain [OF chain c this] show ?thesis
        using Cons ds stub filt rest
        by (intro exI [of _ "if es = [] then [mq_end q] else es"]) (auto split: if_splits)
    qed
  qed
qed

lemma mpsc_pop_front_rep:
  assumes "mpsc_rep h q xs" "mpsc_pop_front h q = (r, h', q')"
  shows "r = (if xs = [] then None else Some (hd xs)) \<and> mpsc_rep h' q' (tl xs) \<and>
    mq_end q' = mq_end q"
  using assms mpsc_pop_front_chain [of h q _ r h' q']
  by (fastforce simp: mpsc_rep_def Let_def)

lemma mpsc_pop_front_frame:
  assumes "mpsc_rep h q xs" "mpsc_pop_front h q = (r, h', q')" "y \<notin> insert (mq_end q) (set xs)"
  shows "h' y = h y"
proof -
  obtain cs where cs: "mpsc_chain h q cs" "xs = filter (\<lambda>c. c \<noteq> mq_end q) cs"
    using assms(1) by (auto simp: mpsc_rep_def)
  with assms(3) have "y \<notin> insert (mq_end q) (set cs)" by auto
  with mpsc_pop_front_chain [OF cs(1) assms(2)] show ?thesis by blast
qed

lemma mpsc_empty_rep:
  assumes "mpsc_rep h q xs"
  shows "mpsc_empty h q = (xs = [])"
proof -
  obtain cs where cs: "mpsc_chain h q cs" "xs = filter (\<lambda>c. c \<noteq> mq_end q) cs"
    using assms by (auto simp: mpsc_rep_def)
  then obtain ds where ds: "cs = mq_tail q # ds" using mpsc_chain_tail by blast
  show ?thesis
  proof (cases "mq_tail q = mq_end q")
    case False
    with cs ds show ?thesis by (simp add: mpsc_empty_def)
  next
    case True
    then have "mq_end q \<notin> set ds" "chain h (h (mq_end q)) ds None"
      using cs ds by (auto simp: mpsc_chain_def)
    then have "filter (\<lambda>c. c \<noteq> mq_end q) ds = ds" "(h (mq_end q) = None) = (ds = [])"
      using chain_start [of h "h (mq_end q)" ds] by (auto simp: filter_id_conv)
    with True cs ds show ?thesis by (simp add: mpsc_empty_def)
  qed
qed

text \<open>Appending a whole list of linked items, as deferred garbage is put back.\<close>

lemma mpsc_push_back_range_rep:
  assumes "mpsc_rep h q xs" "chain h (Some (hd ys)) ys None" "ys \<noteq> []" "distinct ys"
    "set ys \<inter> insert (mq_end q) (set xs) = {}"
    "mpsc_push_back_range (hd ys) (last ys) h q = (h', q')"
  shows "mpsc_rep h' q' (xs @ ys) \<and> mq_end q' = mq_end q"
proof -
  obtain cs where cs: "mpsc_chain h q cs" "xs = filter (\<lambda>c. c \<noteq> mq_end q) cs"
    using assms(1) by (auto simp: mpsc_rep_def)
  have disj: "set ys \<inter> set cs = {}" using cs assms(5) by auto
  obtain bs b where b: "cs = bs @ [b]" using cs by (cases cs rule: rev_exhaust) (auto simp: mpsc_chain_def)
  obtain zs z where z: "ys = zs @ [z]" using assms(3) by (cases ys rule: rev_exhaust) auto
  have h': "h' = h(z := None, b := Some (hd ys))" "q' = q\<lparr>mq_head := z\<rparr>"
    using assms(6) cs(1) b z by (auto simp: mpsc_push_back_range_def mpsc_chain_def)
  have "chain h (Some (hd ys)) zs (Some z)" using assms(2) z by (auto simp: chain_append)
  then have y: "chain h' (Some (hd ys)) ys None"
    using disj assms(4) unfolding h' z b by (auto simp: chain_simps)
  have "chain h (Some (mq_tail q)) bs (Some b)"
    using cs(1) b by (auto simp: mpsc_chain_def chain_append)
  then have "chain h' (Some (mq_tail q)) cs (Some (hd ys))"
    using disj cs(1) unfolding h' z b mpsc_chain_def by (auto simp: chain_simps)
  then have "mpsc_chain h' q' (cs @ ys)"
    using y cs(1) assms(3,4) disj h' z by (auto simp: mpsc_chain_def chain_append)
  moreover have "filter (\<lambda>c. c \<noteq> mq_end q) ys = ys" using assms(5) by (auto simp: filter_id_conv)
  ultimately show ?thesis using cs h' by (auto simp: mpsc_rep_def intro!: exI [of _ "cs @ ys"])
qed

subsection \<open>The interface of a linked queue\<close>

text \<open>
  Sequences of calls on a queue and the results of its pops, for any pair of push and pop
  operations, and the same sequence on a list. An item may be pushed only while it is in no
  queue, and the stub of a queue is never pushed by a client: \<open>valid_ops\<close>.
\<close>

datatype 'a qop = Push 'a | Pop

fun queue_run :: "('a \<Rightarrow> 'a links \<Rightarrow> 'q \<Rightarrow> 'a links \<times> 'q) \<Rightarrow>
    ('a links \<Rightarrow> 'q \<Rightarrow> 'a option \<times> 'a links \<times> 'q) \<Rightarrow>
    'a qop list \<Rightarrow> 'a links \<Rightarrow> 'q \<Rightarrow> 'a option list" where
  "queue_run push pop [] h q = []"
| "queue_run push pop (Push x # ops) h q =
     (let (h', q') = push x h q in queue_run push pop ops h' q')"
| "queue_run push pop (Pop # ops) h q =
     (let (r, h', q') = pop h q in r # queue_run push pop ops h' q')"

fun fifo_run :: "'a qop list \<Rightarrow> 'a list \<Rightarrow> 'a option list" where
  "fifo_run [] xs = []"
| "fifo_run (Push x # ops) xs = fifo_run ops (xs @ [x])"
| "fifo_run (Pop # ops) [] = None # fifo_run ops []"
| "fifo_run (Pop # ops) (x # xs) = Some x # fifo_run ops xs"

fun valid_ops :: "'a set \<Rightarrow> 'a qop list \<Rightarrow> 'a list \<Rightarrow> bool" where
  "valid_ops reserved [] xs = True"
| "valid_ops reserved (Push x # ops) xs =
     (x \<notin> set xs \<and> x \<notin> reserved \<and> valid_ops reserved ops (xs @ [x]))"
| "valid_ops reserved (Pop # ops) xs = valid_ops reserved ops (tl xs)"

locale linked_source =
  fixes src_empty :: "'a links \<Rightarrow> 'q \<Rightarrow> bool"
    and src_pop :: "'a links \<Rightarrow> 'q \<Rightarrow> 'a option \<times> 'a links \<times> 'q"
    and src_rep :: "'a links \<Rightarrow> 'q \<Rightarrow> 'a list \<Rightarrow> bool"
    and src_reserved :: "'q \<Rightarrow> 'a set"
  assumes src_empty_rep: "src_rep h q xs \<Longrightarrow> src_empty h q = (xs = [])"
    and src_pop_rep: "src_rep h q xs \<Longrightarrow> src_pop h q = (r, h', q') \<Longrightarrow>
      r = (if xs = [] then None else Some (hd xs)) \<and> src_rep h' q' (tl xs) \<and>
      src_reserved q' = src_reserved q"
    and src_pop_frame: "src_rep h q xs \<Longrightarrow> src_pop h q = (r, h', q') \<Longrightarrow>
      y \<notin> src_reserved q \<union> set xs \<Longrightarrow> h' y = h y"
    and src_rep_cong: "src_rep h q xs \<Longrightarrow>
      (\<And>y. y \<in> src_reserved q \<union> set xs \<Longrightarrow> h' y = h y) \<Longrightarrow> src_rep h' q xs"
begin

lemma src_pop_Nil: "src_rep h q [] \<Longrightarrow> src_pop h q = (r, h', q') \<Longrightarrow> r = None"
  using src_pop_rep by fastforce

lemma src_pop_Cons:
  "src_rep h q (x # xs) \<Longrightarrow> src_pop h q = (r, h', q') \<Longrightarrow> r = Some x \<and> src_rep h' q' xs"
  using src_pop_rep by fastforce

text \<open>Popping from one queue leaves a queue with disjoint items alone.\<close>

lemma src_pop_other:
  assumes "src_rep h q xs" "src_pop h q = (r, h', q')" "src_rep h p ys"
    "(src_reserved q \<union> set xs) \<inter> (src_reserved p \<union> set ys) = {}"
  shows "src_rep h' p ys"
  using assms src_rep_cong [OF assms(3)] src_pop_frame [OF assms(1,2)] by blast

end

locale linked_queue = linked_source +
  fixes src_push :: "'a \<Rightarrow> 'a links \<Rightarrow> 'q \<Rightarrow> 'a links \<times> 'q"
  assumes src_push_rep: "src_rep h q xs \<Longrightarrow> x \<notin> src_reserved q \<union> set xs \<Longrightarrow>
      src_push x h q = (h', q') \<Longrightarrow> src_rep h' q' (xs @ [x]) \<and> src_reserved q' = src_reserved q"
    and src_push_frame: "src_rep h q xs \<Longrightarrow> src_push x h q = (h', q') \<Longrightarrow>
      y \<notin> insert x (src_reserved q \<union> set xs) \<Longrightarrow> h' y = h y"
begin

lemma run_is_fifo:
  "src_rep h q xs \<Longrightarrow> valid_ops (src_reserved q) ops xs \<Longrightarrow>
    queue_run src_push src_pop ops h q = fifo_run ops xs"
proof (induction ops arbitrary: h q xs)
  case (Cons op ops)
  show ?case
  proof (cases op)
    case (Push x)
    obtain h' q' where p: "src_push x h q = (h', q')" by force
    with Cons.prems Push src_push_rep [OF Cons.prems(1) _ p]
    have "src_rep h' q' (xs @ [x])" "src_reserved q' = src_reserved q" by auto
    with Cons Push p show ?thesis by simp
  next
    case Pop
    obtain r h' q' where p: "src_pop h q = (r, h', q')" by (cases "src_pop h q") auto
    from src_pop_rep [OF Cons.prems(1) p] Cons Pop p show ?thesis
      by (cases xs) auto
  qed
qed simp

end

interpretation spsc: linked_queue queue_empty queue_pop_front queue_rep "\<lambda>_. {}" queue_push_back
proof (unfold_locales, goal_cases)
  case (1 h q xs)
  then show ?case by (rule queue_empty_rep)
next
  case (2 h q xs r h' q')
  then show ?case using queue_pop_front_rep by blast
next
  case (3 h q xs r h' q' y)
  then show ?case using queue_pop_front_rep by metis
next
  case (4 h q xs h')
  then show ?case using queue_rep_cong by (metis Un_iff)
next
  case (5 h q xs x h' q')
  then show ?case by (simp add: queue_push_back_rep)
next
  case (6 h q xs x h' q' y)
  then show ?case using queue_push_back_frame by (metis Un_empty_left)
qed

interpretation mpsc: linked_queue mpsc_empty mpsc_pop_front mpsc_rep "\<lambda>q. {mq_end q}" mpsc_push_back
proof (unfold_locales, goal_cases)
  case (1 h q xs)
  then show ?case by (rule mpsc_empty_rep)
next
  case (2 h q xs r h' q')
  then show ?case using mpsc_pop_front_rep by blast
next
  case (3 h q xs r h' q' y)
  then show ?case using mpsc_pop_front_frame by (metis insert_is_Un)
next
  case (4 h q xs h')
  then show ?case using mpsc_rep_cong by (metis insert_is_Un)
next
  case (5 h q xs x h' q')
  then show ?case using mpsc_push_back_rep by (metis insert_is_Un)
next
  case (6 h q xs x h' q' y)
  then show ?case using mpsc_push_back_frame by (metis insert_is_Un)
qed

subsection \<open>Properties\<close>

text \<open>
  Every sequence of push_back and pop_front calls on an MPSCQueue, started on a new
  queue, gives the results of the same calls on a FIFO list: a pop returns the oldest item
  that was pushed and not yet popped, and null exactly when there is none. The stub item,
  which the queue re-inserts behind the last item, is never returned.
\<close>

theorem mpsc_queue_is_fifo:
  assumes "valid_ops {stub} ops []" "mpsc_new stub h = (h', q)"
  shows "queue_run mpsc_push_back mpsc_pop_front ops h' q = fifo_run ops []"
  using assms mpsc_new_rep [OF assms(2)] mpsc.run_is_fifo [of h' q "[]" ops] by simp

theorem mpsc_queue_is_fifo_witness:
  "queue_run mpsc_push_back mpsc_pop_front [Push 1, Push 2, Pop, Pop, Push (3::nat), Pop, Pop]
     (fst (mpsc_new 0 (\<lambda>_. None))) (snd (mpsc_new 0 (\<lambda>_. None)))
   = [Some 1, Some 2, Some 3, None]"
  using mpsc_queue_is_fifo [of 0 "[Push 1, Push 2, Pop, Pop, Push (3::nat), Pop, Pop]" "\<lambda>_. None"
      "fst (mpsc_new 0 (\<lambda>_. None))" "snd (mpsc_new 0 (\<lambda>_. None))"]
  by simp

text \<open>
  The single-threaded Queue behaves as a FIFO list under every sequence of push_back
  and pop_front calls.
\<close>

lemma spsc_queue_is_fifo:
  assumes "valid_ops {} ops []"
  shows "queue_run queue_push_back queue_pop_front ops h queue_new = fifo_run ops []"
  using assms queue_rep_new by (rule spsc.run_is_fifo [rotated])

end
