(* ===== verification/ResourcePtr.thy ===== *)
theory ResourcePtr
  imports MxPrelude
begin

section \<open>Synchronization requirements, hints and resource pointers\<close>

text \<open>
  mx/synchronization/synchronization.h, mx/synchronization/primitive_matrix.h,
  mx/resource/resource.h, mx/memory/tagged_ptr.h and the choice of the synchronization
  primitive in mx/resource/builder.cpp. The enumerations keep their numbering; the pointer
  to a resource keeps its bit fields (48 bits of address, 12 bits of channel, 4 bits of
  primitive).
\<close>

subsection \<open>Enumerations\<close>

datatype isolation_level = ExclusiveWriter | Exclusive | IsolationNone

datatype protocol = ProtocolNone | ProtocolQueue | ProtocolLatch | ProtocolOLFIT | TransactionalMemory

datatype primitive = PrimitiveNone | ExclusiveLatch | ScheduleAll | ReaderWriterLatch | ScheduleWriter | OLFIT

fun isolation_code :: "isolation_level \<Rightarrow> nat" where
  "isolation_code ExclusiveWriter = 0"
| "isolation_code Exclusive = 1"
| "isolation_code IsolationNone = 2"

fun primitive_code :: "primitive \<Rightarrow> 16 word" where
  "primitive_code PrimitiveNone = 0"
| "primitive_code ExclusiveLatch = 1"
| "primitive_code ScheduleAll = 2"
| "primitive_code ReaderWriterLatch = 3"
| "primitive_code ScheduleWriter = 4"
| "primitive_code OLFIT = 5"

text \<open>The cast of a stored number back to the enumeration; 6 and above are no enumerator.\<close>

definition primitive_of_code :: "4 word \<Rightarrow> primitive option" where
  "primitive_of_code w =
     arr_get [PrimitiveNone, ExclusiveLatch, ScheduleAll, ReaderWriterLatch, ScheduleWriter, OLFIT]
       (unat w)"

definition is_optimistic :: "primitive \<Rightarrow> bool" where
  "is_optimistic p = (p = ScheduleWriter \<or> p = OLFIT)"

datatype access_frequency = Excessive | High | Normal | Unused

fun frequency_code :: "access_frequency \<Rightarrow> nat" where
  "frequency_code Excessive = 0"
| "frequency_code High = 1"
| "frequency_code Normal = 2"
| "frequency_code Unused = 3"

lemma frequency_code_inj: "frequency_code f = frequency_code g \<longleftrightarrow> f = g"
  by (cases f; cases g) auto

text \<open>The enumerators are ordered by their numbers: the smallest one is accessed most.\<close>

instantiation access_frequency :: linorder
begin

definition less_eq_access_frequency :: "access_frequency \<Rightarrow> access_frequency \<Rightarrow> bool" where
  "less_eq_access_frequency f g \<longleftrightarrow> frequency_code f \<le> frequency_code g"

definition less_access_frequency :: "access_frequency \<Rightarrow> access_frequency \<Rightarrow> bool" where
  "less_access_frequency f g \<longleftrightarrow> frequency_code f < frequency_code g"

instance
  by standard (auto simp: less_eq_access_frequency_def less_access_frequency_def frequency_code_inj)

end

lemma frequency_least [simp]: "Excessive \<le> f" "f \<le> Unused"
  by (cases f; simp add: less_eq_access_frequency_def)+

datatype read_write_ratio = HeavyRead | MostlyRead | Balanced | MostlyWritten | HeavyWritten

fun ratio_code :: "read_write_ratio \<Rightarrow> nat" where
  "ratio_code HeavyRead = 0"
| "ratio_code MostlyRead = 1"
| "ratio_code Balanced = 2"
| "ratio_code MostlyWritten = 3"
| "ratio_code HeavyWritten = 4"

subsection \<open>Hints\<close>

record hint =
  hint_numa_node_id :: u8
  hint_channel_id :: u16
  hint_access_frequency :: access_frequency
  hint_read_write_ratio :: read_write_ratio
  hint_isolation_level :: isolation_level
  hint_preferred_protocol :: protocol

definition hint_default :: hint where
  "hint_default = \<lparr>hint_numa_node_id = 255, hint_channel_id = 65535,
     hint_access_frequency = Normal, hint_read_write_ratio = Balanced,
     hint_isolation_level = IsolationNone, hint_preferred_protocol = ProtocolNone\<rparr>"

definition hint_node :: "u8 \<Rightarrow> hint" where
  "hint_node n = hint_default\<lparr>hint_numa_node_id := n\<rparr>"

definition hint_channel :: "u16 \<Rightarrow> hint" where
  "hint_channel c = hint_default\<lparr>hint_channel_id := c\<rparr>"

definition hint_isolation :: "isolation_level \<Rightarrow> hint" where
  "hint_isolation l = hint_default\<lparr>hint_isolation_level := l\<rparr>"

definition hint_frequency :: "access_frequency \<Rightarrow> hint" where
  "hint_frequency f = hint_default\<lparr>hint_access_frequency := f\<rparr>"

definition hint_channel_isolation_protocol :: "u16 \<Rightarrow> isolation_level \<Rightarrow> protocol \<Rightarrow> hint" where
  "hint_channel_isolation_protocol c l p =
     hint_default\<lparr>hint_channel_id := c, hint_isolation_level := l, hint_preferred_protocol := p\<rparr>"

definition hint_channel_isolation :: "u16 \<Rightarrow> isolation_level \<Rightarrow> hint" where
  "hint_channel_isolation c l = hint_default\<lparr>hint_channel_id := c, hint_isolation_level := l\<rparr>"

definition hint_node_isolation :: "u8 \<Rightarrow> isolation_level \<Rightarrow> hint" where
  "hint_node_isolation n l = hint_default\<lparr>hint_numa_node_id := n, hint_isolation_level := l\<rparr>"

definition hint_node_isolation_protocol :: "u8 \<Rightarrow> isolation_level \<Rightarrow> protocol \<Rightarrow> hint" where
  "hint_node_isolation_protocol n l p =
     hint_default\<lparr>hint_numa_node_id := n, hint_isolation_level := l, hint_preferred_protocol := p\<rparr>"

definition hint_node_frequency :: "u8 \<Rightarrow> access_frequency \<Rightarrow> hint" where
  "hint_node_frequency n f = hint_default\<lparr>hint_numa_node_id := n, hint_access_frequency := f\<rparr>"

definition hint_isolation_frequency :: "isolation_level \<Rightarrow> access_frequency \<Rightarrow> hint" where
  "hint_isolation_frequency l f =
     hint_default\<lparr>hint_access_frequency := f, hint_isolation_level := l\<rparr>"

definition hint_isolation_protocol_frequency ::
  "isolation_level \<Rightarrow> protocol \<Rightarrow> access_frequency \<Rightarrow> hint" where
  "hint_isolation_protocol_frequency l p f =
     hint_default\<lparr>hint_access_frequency := f, hint_isolation_level := l, hint_preferred_protocol := p\<rparr>"

definition hint_node_isolation_frequency :: "u8 \<Rightarrow> isolation_level \<Rightarrow> access_frequency \<Rightarrow> hint" where
  "hint_node_isolation_frequency n l f =
     hint_default\<lparr>hint_numa_node_id := n, hint_access_frequency := f, hint_isolation_level := l\<rparr>"

definition hint_node_isolation_protocol_frequency ::
  "u8 \<Rightarrow> isolation_level \<Rightarrow> protocol \<Rightarrow> access_frequency \<Rightarrow> hint" where
  "hint_node_isolation_protocol_frequency n l p f =
     hint_default\<lparr>hint_numa_node_id := n, hint_access_frequency := f, hint_isolation_level := l,
       hint_preferred_protocol := p\<rparr>"

definition hint_isolation_protocol_frequency_ratio ::
  "isolation_level \<Rightarrow> protocol \<Rightarrow> access_frequency \<Rightarrow> read_write_ratio \<Rightarrow> hint" where
  "hint_isolation_protocol_frequency_ratio l p f r =
     hint_default\<lparr>hint_access_frequency := f, hint_read_write_ratio := r,
       hint_isolation_level := l, hint_preferred_protocol := p\<rparr>"

definition has_numa_node_id :: "hint \<Rightarrow> bool" where
  "has_numa_node_id h = (hint_numa_node_id h < 255)"

definition has_channel_id :: "hint \<Rightarrow> bool" where
  "has_channel_id h = (hint_channel_id h < 65535)"

subsection \<open>Choice of the synchronization primitive\<close>

definition primitive_matrix :: "primitive list list list" where
  "primitive_matrix =
    [[[ScheduleWriter, ScheduleWriter, ScheduleWriter, ScheduleWriter],
      [ScheduleWriter, ScheduleWriter, OLFIT, OLFIT],
      [OLFIT, OLFIT, OLFIT, OLFIT],
      [OLFIT, OLFIT, ReaderWriterLatch, ReaderWriterLatch],
      [ScheduleAll, ScheduleAll, ReaderWriterLatch, ReaderWriterLatch]],
     [[ScheduleAll, ScheduleAll, ExclusiveLatch, ExclusiveLatch],
      [ScheduleAll, ScheduleAll, ExclusiveLatch, ExclusiveLatch],
      [ScheduleAll, ScheduleAll, ExclusiveLatch, ExclusiveLatch],
      [ScheduleAll, ScheduleAll, ExclusiveLatch, ExclusiveLatch],
      [ScheduleAll, ScheduleAll, ExclusiveLatch, ExclusiveLatch]]]"

definition select_primitive ::
  "isolation_level \<Rightarrow> access_frequency \<Rightarrow> read_write_ratio \<Rightarrow> primitive" where
  "select_primitive level freq ratio =
     (if level \<noteq> IsolationNone
      then primitive_matrix ! isolation_code level ! ratio_code ratio ! frequency_code freq
      else PrimitiveNone)"

definition isolation_level_to_synchronization_primitive :: "hint \<Rightarrow> primitive" where
  "isolation_level_to_synchronization_primitive h =
     (if hint_preferred_protocol h = ProtocolNone
      then select_primitive (hint_isolation_level h) (hint_access_frequency h) (hint_read_write_ratio h)
      else if hint_isolation_level h = ExclusiveWriter
      then (case hint_preferred_protocol h of
              ProtocolLatch \<Rightarrow> ReaderWriterLatch
            | ProtocolOLFIT \<Rightarrow> OLFIT
            | _ \<Rightarrow> ScheduleWriter)
      else if hint_isolation_level h = Exclusive
      then (if hint_preferred_protocol h = ProtocolLatch then ExclusiveLatch else ScheduleAll)
      else PrimitiveNone)"

subsection \<open>Tagged pointers\<close>

record information =
  info_channel_id :: "12 word"
  info_synchronization_primitive :: "4 word"

definition information_null :: information where
  "information_null = \<lparr>info_channel_id = 0, info_synchronization_primitive = 0\<rparr>"

definition information_new :: "u16 \<Rightarrow> primitive \<Rightarrow> information" where
  "information_new c p =
     \<lparr>info_channel_id = ucast c, info_synchronization_primitive = ucast (primitive_code p)\<rparr>"

definition information_channel_id :: "information \<Rightarrow> u16" where
  "information_channel_id i = ucast (info_channel_id i)"

definition information_primitive :: "information \<Rightarrow> primitive option" where
  "information_primitive i = primitive_of_code (info_synchronization_primitive i)"

record 'i tagged_ptr =
  object_pointer :: "48 word"
  ptr_information :: 'i

definition tagged_ptr_new :: "u64 \<Rightarrow> 'i \<Rightarrow> 'i tagged_ptr" where
  "tagged_ptr_new p i = \<lparr>object_pointer = ucast p, ptr_information = i\<rparr>"

definition ptr_get :: "'i tagged_ptr \<Rightarrow> u64" where
  "ptr_get p = ucast (object_pointer p)"

definition ptr_reset_information :: "'i \<Rightarrow> 'i tagged_ptr \<Rightarrow> 'i tagged_ptr" where
  "ptr_reset_information i p = p\<lparr>ptr_information := i\<rparr>"

definition ptr_reset :: "u64 \<Rightarrow> 'i tagged_ptr \<Rightarrow> 'i tagged_ptr" where
  "ptr_reset a p = p\<lparr>object_pointer := ucast a\<rparr>"

definition ptr_bool :: "'i tagged_ptr \<Rightarrow> bool" where
  "ptr_bool p = (object_pointer p > 0)"

definition ptr_eq :: "'i tagged_ptr \<Rightarrow> 'i tagged_ptr \<Rightarrow> bool" where
  "ptr_eq p other = (object_pointer other = object_pointer p)"

definition ptr_less :: "'i tagged_ptr \<Rightarrow> 'i tagged_ptr \<Rightarrow> bool" where
  "ptr_less p other = (ptr_get other < ptr_get p)"

definition ptr_less_eq :: "'i tagged_ptr \<Rightarrow> 'i tagged_ptr \<Rightarrow> bool" where
  "ptr_less_eq p other = (ptr_get other \<le> ptr_get p)"

type_synonym resource_ptr = "information tagged_ptr"

definition resource_ptr_null :: resource_ptr where
  "resource_ptr_null = \<lparr>object_pointer = 0, ptr_information = information_null\<rparr>"

definition resource_channel_id :: "resource_ptr \<Rightarrow> u16" where
  "resource_channel_id p = information_channel_id (ptr_information p)"

definition resource_primitive :: "resource_ptr \<Rightarrow> primitive option" where
  "resource_primitive p = information_primitive (ptr_information p)"

lemmas hint_defs = hint_default_def hint_node_def hint_channel_def hint_isolation_def
  hint_frequency_def hint_channel_isolation_protocol_def
  hint_node_isolation_protocol_frequency_def hint_isolation_protocol_frequency_ratio_def

subsection \<open>Round trips through the bit fields\<close>

lemma primitive_roundtrip: "primitive_of_code (ucast (primitive_code p)) = Some p"
  by (cases p) (simp_all add: primitive_of_code_def arr_get_def)

lemma channel_roundtrip: "c < (4096 :: u16) \<Longrightarrow> ucast (ucast c :: 12 word) = c"
  by (rule ucast_bit_field) (simp add: word_less_nat_alt)

lemma address_roundtrip: "a < (2 ^ 48 :: u64) \<Longrightarrow> ucast (ucast a :: 48 word) = a"
  by (rule ucast_bit_field) (simp add: word_less_nat_alt)

lemma ptr_get_new: "a < 2 ^ 48 \<Longrightarrow> ptr_get (tagged_ptr_new a i) = a"
  unfolding ptr_get_def tagged_ptr_new_def using address_roundtrip by simp

lemma object_pointer_get: "ucast (ptr_get p) = object_pointer p"
proof -
  have "unat (object_pointer p) < 2 ^ 64"
    by (rule less_trans [OF unsigned_less]) simp
  then show ?thesis unfolding ptr_get_def by (intro ucast_bit_field) simp
qed

lemma ptr_eq_get: "ptr_eq p q \<longleftrightarrow> ptr_get p = ptr_get q"
  by (metis object_pointer_get ptr_eq_def ptr_get_def)

text \<open>
  The ordering operators of a tagged pointer are reversed: on two different addresses
  operator< disagrees with the order of the addresses.
\<close>

lemma tagged_ptr_order_is_reversed:
  "ptr_get p \<noteq> ptr_get q \<Longrightarrow> ptr_less p q \<noteq> (ptr_get p < ptr_get q)"
  by (auto simp: ptr_less_def)

subsection \<open>Properties\<close>

text \<open>
  C25: A resource pointer built from an address below 2^48, a channel below 4096 and a
  primitive gives back the address, the channel and the primitive; the tag never shows up in
  the address. Replacing the tag keeps the address and replacing the address keeps the tag.
\<close>

theorem resource_ptr_roundtrip:
  fixes a a' :: u64 and c :: u16
  assumes "a < 2 ^ 48" "a' < 2 ^ 48" "c < 4096"
  shows "let p = tagged_ptr_new a (information_new c prim) in
    ptr_get p = a \<and> resource_channel_id p = c \<and> resource_primitive p = Some prim \<and>
    ptr_get (ptr_reset_information i p) = a \<and>
    ptr_get (ptr_reset a' p) = a' \<and> resource_channel_id (ptr_reset a' p) = c"
  using assms channel_roundtrip [of c] ptr_get_new [of a] ptr_get_new [of a']
  by (simp add: Let_def resource_channel_id_def information_channel_id_def information_new_def
      resource_primitive_def information_primitive_def primitive_roundtrip ptr_get_def
      tagged_ptr_new_def ptr_reset_information_def ptr_reset_def)

theorem resource_ptr_roundtrip_witness:
  "let p = tagged_ptr_new 4096 (information_new 17 OLFIT) in
    ptr_get p = (4096 :: u64) \<and> resource_channel_id p = (17 :: u16) \<and>
    resource_primitive p = Some OLFIT"
  using resource_ptr_roundtrip [of 4096 8192 17 OLFIT] by (simp add: Let_def)

text \<open>
  C26: The primitive chosen for a resource honours its isolation level, whatever the
  protocol, frequency and ratio in the hint: without isolation nothing is synchronized;
  with Exclusive every access is serialized (mapped channel or exclusive latch); with
  ExclusiveWriter writers are always synchronized, and readers run in parallel unless the
  matrix sends everything to the mapped channel. Only exclusive-writer resources are
  optimistic, that is, need epoch-based reclamation.
\<close>

theorem chosen_primitive_honours_isolation:
  "let p = isolation_level_to_synchronization_primitive h in
   case hint_isolation_level h of
     IsolationNone \<Rightarrow> p = PrimitiveNone
   | Exclusive \<Rightarrow> (p = ScheduleAll \<or> p = ExclusiveLatch) \<and> \<not> is_optimistic p
   | ExclusiveWriter \<Rightarrow>
       (p = ReaderWriterLatch \<or> is_optimistic p \<or>
        p = ScheduleAll \<and> hint_preferred_protocol h = ProtocolNone \<and>
          hint_read_write_ratio h = HeavyWritten)"
  by (cases "hint_isolation_level h"; cases "hint_preferred_protocol h";
      cases "hint_access_frequency h"; cases "hint_read_write_ratio h")
    (simp_all add: isolation_level_to_synchronization_primitive_def select_primitive_def
      primitive_matrix_def is_optimistic_def numeral_nat)

end
