(* ===== verification/Tasks.thy ===== *)
theory Tasks
  imports ResourcePtr
begin

section \<open>Tasks, their annotations, the task stack and prefetching\<close>

text \<open>
  mx/tasking/task.h (TaskResult, TaskInterface and its annotation), mx/tasking/task_stack.h
  (saving and restoring a task around an optimistic read), mx/tasking/prefetch_slot.h and
  the prefetching loops of mx/system/cache.h. A task is named by its address; the next
  pointer of a task is kept in the link store of theory LinkedQueues. The prefetch
  instructions have no effect on memory: they are modelled by the list of addresses they
  touch.
\<close>

subsection \<open>Task results\<close>

record task_result =
  successor_task :: "addr option"
  remove_task :: bool

definition make_succeed :: "addr \<Rightarrow> task_result" where
  "make_succeed t = \<lparr>successor_task = Some t, remove_task = False\<rparr>"

definition make_remove :: task_result where
  "make_remove = \<lparr>successor_task = None, remove_task = True\<rparr>"

definition make_succeed_and_remove :: "addr \<Rightarrow> task_result" where
  "make_succeed_and_remove t = \<lparr>successor_task = Some t, remove_task = True\<rparr>"

definition make_null :: task_result where
  "make_null = \<lparr>successor_task = None, remove_task = False\<rparr>"

definition has_successor :: "task_result \<Rightarrow> bool" where
  "has_successor r = (successor_task r \<noteq> None)"

definition is_remove :: "task_result \<Rightarrow> bool" where
  "is_remove r = remove_task r"

subsection \<open>Annotations\<close>

datatype priority = PriorityLow | PriorityNormal

fun priority_code :: "priority \<Rightarrow> nat" where
  "priority_code PriorityLow = 0"
| "priority_code PriorityNormal = 1"

datatype target = TargetChannel u16 | TargetNode u8 | TargetResource resource_ptr u16 | TargetBool bool

record task =
  task_is_readonly :: bool
  task_priority :: priority
  task_target :: target

definition task_default :: task where
  "task_default = \<lparr>task_is_readonly = False, task_priority = PriorityNormal, task_target = TargetBool False\<rparr>"

definition annotate_resource :: "resource_ptr \<Rightarrow> u16 \<Rightarrow> task \<Rightarrow> task" where
  "annotate_resource r sz t = t\<lparr>task_target := TargetResource r sz\<rparr>"

definition annotate_channel :: "u16 \<Rightarrow> task \<Rightarrow> task" where
  "annotate_channel c t = t\<lparr>task_target := TargetChannel c\<rparr>"

definition annotate_node :: "u8 \<Rightarrow> task \<Rightarrow> task" where
  "annotate_node n t = t\<lparr>task_target := TargetNode n\<rparr>"

definition annotate_priority :: "priority \<Rightarrow> task \<Rightarrow> task" where
  "annotate_priority p t = t\<lparr>task_priority := p\<rparr>"

definition set_readonly :: "bool \<Rightarrow> task \<Rightarrow> task" where
  "set_readonly b t = t\<lparr>task_is_readonly := b\<rparr>"

text \<open>Reading an alternative that the variant does not hold raises: None.\<close>

definition annotated_resource :: "task \<Rightarrow> resource_ptr option" where
  "annotated_resource t = (case task_target t of TargetResource r _ \<Rightarrow> Some r | _ \<Rightarrow> None)"

definition annotated_resource_size :: "task \<Rightarrow> u16 option" where
  "annotated_resource_size t = (case task_target t of TargetResource _ s \<Rightarrow> Some s | _ \<Rightarrow> None)"

definition annotated_channel :: "task \<Rightarrow> u16 option" where
  "annotated_channel t = (case task_target t of TargetChannel c \<Rightarrow> Some c | _ \<Rightarrow> None)"

definition annotated_node :: "task \<Rightarrow> u8 option" where
  "annotated_node t = (case task_target t of TargetNode n \<Rightarrow> Some n | _ \<Rightarrow> None)"

definition has_resource_annotated :: "task \<Rightarrow> bool" where
  "has_resource_annotated t = (case task_target t of TargetResource _ _ \<Rightarrow> True | _ \<Rightarrow> False)"

definition has_channel_annotated :: "task \<Rightarrow> bool" where
  "has_channel_annotated t = (case task_target t of TargetChannel _ \<Rightarrow> True | _ \<Rightarrow> False)"

definition has_node_annotated :: "task \<Rightarrow> bool" where
  "has_node_annotated t = (case task_target t of TargetNode _ \<Rightarrow> True | _ \<Rightarrow> False)"

lemmas task_queries = annotated_resource_def annotated_resource_size_def annotated_channel_def
  annotated_node_def has_resource_annotated_def has_channel_annotated_def has_node_annotated_def

subsection \<open>Copying a task\<close>

text \<open>
  memcpy_tiny copies S / 8 words of 8 bytes one after the other; memcpy_simd loads S / 16
  blocks of 16 bytes into registers and then stores them. Both are unrolled for S = 64 and
  S = 128 and do nothing for another S. Memory is a list of bytes.
\<close>

definition load_block :: "nat \<Rightarrow> nat \<Rightarrow> u8 list \<Rightarrow> u8 list" where
  "load_block width i src = take width (drop (width * i) src)"

definition store_block :: "nat \<Rightarrow> nat \<Rightarrow> u8 list \<Rightarrow> u8 list \<Rightarrow> u8 list" where
  "store_block width i block dst = take (width * i) dst @ block @ drop (width * i + width) dst"

fun copy_words :: "nat list \<Rightarrow> u8 list \<Rightarrow> u8 list \<Rightarrow> u8 list" where
  "copy_words [] dst src = dst"
| "copy_words (i # is) dst src = copy_words is (store_block 8 i (load_block 8 i src) dst) src"

fun store_blocks :: "(nat \<times> u8 list) list \<Rightarrow> u8 list \<Rightarrow> u8 list" where
  "store_blocks [] dst = dst"
| "store_blocks ((i, b) # bs) dst = store_blocks bs (store_block 16 i b dst)"

definition memcpy_tiny :: "nat \<Rightarrow> u8 list \<Rightarrow> u8 list \<Rightarrow> u8 list" where
  "memcpy_tiny S dst src =
     (if S = 64 then copy_words [0, 1, 2, 3, 4, 5, 6, 7] dst src
      else if S = 128
      then copy_words [0, 1, 2, 3, 4, 5, 6, 7, 8, 9, 10, 11, 12, 13, 14, 15] dst src
      else dst)"

definition memcpy_simd :: "nat \<Rightarrow> u8 list \<Rightarrow> u8 list \<Rightarrow> u8 list" where
  "memcpy_simd S dst src =
     (if S = 64 then store_blocks (map (\<lambda>i. (i, load_block 16 i src)) [0, 1, 2, 3]) dst
      else if S = 128
      then store_blocks (map (\<lambda>i. (i, load_block 16 i src)) [0, 1, 2, 3, 4, 5, 6, 7]) dst
      else dst)"

definition memcpy_bytes :: "nat \<Rightarrow> u8 list \<Rightarrow> u8 list \<Rightarrow> u8 list" where
  "memcpy_bytes n dst src = take n src @ drop n dst"

definition task_stack_save :: "bool \<Rightarrow> nat \<Rightarrow> u8 list \<Rightarrow> u8 list \<Rightarrow> u8 list" where
  "task_stack_save is_sse2 task_size data task_bytes =
     (if is_sse2 \<and> (task_size = 64 \<or> task_size = 128) then memcpy_simd task_size data task_bytes
      else if task_size = 64 \<or> task_size = 128 then memcpy_tiny task_size data task_bytes
      else memcpy_bytes task_size data task_bytes)"

definition task_stack_restore :: "bool \<Rightarrow> nat \<Rightarrow> u8 list \<Rightarrow> u8 list \<Rightarrow> u8 list" where
  "task_stack_restore is_sse2 task_size data task_bytes =
     (if is_sse2 \<and> (task_size = 64 \<or> task_size = 128) then memcpy_simd task_size task_bytes data
      else if task_size = 64 \<or> task_size = 128 then memcpy_tiny task_size task_bytes data
      else memcpy_bytes task_size task_bytes data)"

subsection \<open>Prefetching\<close>

text \<open>The statically sized prefetch_range for the sizes it unrolls.\<close>

definition prefetch_128 :: "nat \<Rightarrow> nat list" where
  "prefetch_128 a = [a, a + 64]"

definition prefetch_256 :: "nat \<Rightarrow> nat list" where
  "prefetch_256 a = prefetch_128 a @ prefetch_128 (a + 128)"

definition prefetch_512 :: "nat \<Rightarrow> nat list" where
  "prefetch_512 a = prefetch_256 a @ prefetch_256 (a + 256)"

definition prefetch_1024 :: "nat \<Rightarrow> nat list" where
  "prefetch_1024 a = prefetch_512 a @ prefetch_512 (a + 512)"

function prefetch_loop :: "nat \<Rightarrow> (nat \<Rightarrow> nat list) \<Rightarrow> nat \<Rightarrow> nat \<Rightarrow> nat list" where
  "prefetch_loop step body a stop =
     (if 0 < step \<and> a < stop then body a @ prefetch_loop step body (a + step) stop else [])"
  by pat_completeness auto
termination
  by (relation "measure (\<lambda>(step, body, a, stop). stop - a)") auto

definition prefetch_range :: "nat \<Rightarrow> nat \<Rightarrow> nat list" where
  "prefetch_range a sz =
     (let stop = a + sz in
      if sz AND 1023 = 0 then prefetch_loop 1024 prefetch_1024 a stop
      else if sz AND 511 = 0 then prefetch_loop 512 prefetch_512 a stop
      else if sz AND 255 = 0 then prefetch_loop 256 prefetch_256 a stop
      else if sz AND 127 = 0 then prefetch_loop 128 prefetch_128 a stop
      else prefetch_loop 64 (\<lambda>b. [b]) a stop)"

definition prefetch_range_static :: "nat \<Rightarrow> nat \<Rightarrow> nat list" where
  "prefetch_range_static S a =
     (if S \<le> 64 then [a]
      else if S = 128 then prefetch_128 a
      else if S = 192 then prefetch_128 a @ [a + 128]
      else if S = 256 then prefetch_256 a
      else if S = 512 then prefetch_512 a
      else if S = 1024 then prefetch_1024 a
      else prefetch_range a S)"

text \<open>A slot remembers up to one task and one resource until it is run.\<close>

record prefetch_slot =
  slot_task :: "addr option"
  slot_resource :: u64
  slot_resource_size :: u16

definition prefetch_slot_new :: prefetch_slot where
  "prefetch_slot_new = \<lparr>slot_task = None, slot_resource = 0, slot_resource_size = 0\<rparr>"

definition prefetch_slot_assign :: "addr \<Rightarrow> task \<Rightarrow> prefetch_slot \<Rightarrow> prefetch_slot" where
  "prefetch_slot_assign a t s =
     (let s1 = s\<lparr>slot_task := Some a\<rparr> in
      case task_target t of
        TargetResource r sz \<Rightarrow> s1\<lparr>slot_resource := ptr_get r, slot_resource_size := sz\<rparr>
      | _ \<Rightarrow> s1)"

definition prefetch_slot_run :: "prefetch_slot \<Rightarrow> nat list \<times> prefetch_slot" where
  "prefetch_slot_run s =
     (let (lines1, s1) = (case slot_task s of
                            Some a \<Rightarrow> ([a], s\<lparr>slot_task := None\<rparr>)
                          | None \<Rightarrow> ([], s))
      in if slot_resource s1 \<noteq> 0
         then (lines1 @ prefetch_range (unat (slot_resource s1)) (unat (slot_resource_size s1)),
               s1\<lparr>slot_resource := 0\<rparr>)
         else (lines1, s1))"

subsection \<open>The unrolled copies copy everything\<close>

lemma length_store_block:
  "length block = width \<Longrightarrow> width * i + width \<le> length dst \<Longrightarrow>
    length (store_block width i block dst) = length dst"
  by (simp add: store_block_def)

lemma store_block_next:
  assumes "length dst = length src" "width * i + width \<le> length src"
  shows "store_block width i (load_block width i src) (memcpy_bytes (width * i) dst src) =
    memcpy_bytes (width * Suc i) dst src"
proof -
  have "take (width * i) src @ take width (drop (width * i) src) = take (width * i + width) src"
    by (simp add: take_add)
  then show ?thesis
    using assms by (simp add: store_block_def load_block_def memcpy_bytes_def add.commute)
qed

lemma memcpy_bytes_0: "memcpy_bytes 0 dst src = dst"
  by (simp add: memcpy_bytes_def)

lemma copy_words_upt:
  assumes "length dst = length src" "8 * m \<le> length src" "n \<le> m"
  shows "copy_words [n..<m] (memcpy_bytes (8 * n) dst src) src = memcpy_bytes (8 * m) dst src"
  using assms(3)
proof (induction "m - n" arbitrary: n)
  case 0
  then show ?case by simp
next
  case (Suc k)
  then have "n < m" "k = m - Suc n" by auto
  then show ?case
    using Suc.hyps(1) [of "Suc n"] assms store_block_next [of dst src 8 n]
    by (simp add: upt_conv_Cons)
qed

lemma store_blocks_upt:
  assumes "length dst = length src" "16 * m \<le> length src" "n \<le> m"
  shows "store_blocks (map (\<lambda>i. (i, load_block 16 i src)) [n..<m]) (memcpy_bytes (16 * n) dst src) =
    memcpy_bytes (16 * m) dst src"
  using assms(3)
proof (induction "m - n" arbitrary: n)
  case 0
  then show ?case by simp
next
  case (Suc k)
  then have "n < m" "k = m - Suc n" by auto
  then show ?case
    using Suc.hyps(1) [of "Suc n"] assms store_block_next [of dst src 16 n]
    by (simp add: upt_conv_Cons)
qed

lemma upt_unrolled:
  "[0, 1, 2, 3] = [0..<4]" "[0, 1, 2, 3, 4, 5, 6, 7] = [0..<8]"
  "[0, 1, 2, 3, 4, 5, 6, 7, 8, 9, 10, 11, 12, 13, 14, 15] = [0..<16]"
  by (simp_all add: upt_rec)

lemma memcpy_tiny_eq:
  assumes "S = 64 \<or> S = 128" "length dst = length src" "S \<le> length src"
  shows "memcpy_tiny S dst src = memcpy_bytes S dst src"
  unfolding memcpy_tiny_def upt_unrolled
  using assms copy_words_upt [of dst src 8 0] copy_words_upt [of dst src 16 0]
  by (auto simp: memcpy_bytes_0 simp del: upt_rec_numeral)

lemma memcpy_simd_eq:
  assumes "S = 64 \<or> S = 128" "length dst = length src" "S \<le> length src"
  shows "memcpy_simd S dst src = memcpy_bytes S dst src"
  unfolding memcpy_simd_def upt_unrolled
  using assms store_blocks_upt [of dst src 4 0] store_blocks_upt [of dst src 8 0]
  by (auto simp: memcpy_bytes_0 simp del: upt_rec_numeral)

lemma task_stack_save_eq:
  "length data = n \<Longrightarrow> length bytes = n \<Longrightarrow> task_stack_save sse n data bytes = bytes"
  using memcpy_tiny_eq [of n data bytes] memcpy_simd_eq [of n data bytes]
  by (auto simp: task_stack_save_def memcpy_bytes_def)

lemma task_stack_restore_eq:
  "length data = n \<Longrightarrow> length bytes = n \<Longrightarrow> task_stack_restore sse n data bytes = data"
  using memcpy_tiny_eq [of n bytes data] memcpy_simd_eq [of n bytes data]
  by (auto simp: task_stack_restore_def memcpy_bytes_def)

subsection \<open>The cache lines a prefetch touches\<close>




declare prefetch_loop.simps [simp del]




subsection \<open>Properties\<close>

text \<open>
  C27: Restoring a task from the stack gives back, byte for byte, the task as it was saved,
  whatever the failed optimistic execution did to it, for every configured task size and
  with and without SSE2 (the unrolled word copies and the SIMD copies copy everything).
\<close>

theorem task_stack_roundtrip:
  assumes "length stack = n" "length before = n" "length after = n"
  shows "task_stack_restore sse n (task_stack_save sse n stack before) after = before"
  using assms by (simp add: task_stack_save_eq task_stack_restore_eq)

theorem task_stack_roundtrip_witness:
  "task_stack_restore False 64 (task_stack_save False 64 (replicate 64 0) (replicate 64 7))
     (replicate 64 9) = replicate 64 7"
  using task_stack_roundtrip [of "replicate 64 0" 64 "replicate 64 7" "replicate 64 9" False]
  by simp


end
