(* ===== verification/TaskBuf.thy ===== *)
theory TaskBuf
  imports LinkedQueues Tasks
begin

section \<open>The task buffer\<close>

text \<open>
  mx/tasking/task_buffer.h: the ring buffer of a channel that holds the tasks ready to be
  executed, refined to a list of tasks. TaskBuffer::fill is a template over the queue it
  drains; its lemmas are proved once for every \<open>linked_source\<close> and reach Queue and
  MPSCQueue through the interpretations of theory LinkedQueues. Head, tail and size fit
  into 16 bits because they stay below the buffer size, so they are natural numbers here;
  the prefetch distance may be larger than the buffer, so the index computed from it is
  kept at its width and the write at this index is checked.
\<close>

definition task_buffer_size :: nat where
  [simp]: "task_buffer_size = 64"

record slot =
  sl_task :: "addr option"
  sl_prefetch :: prefetch_slot

record task_buffer =
  tb_prefetch_distance :: nat
  tb_head :: nat
  tb_tail :: nat
  tb_slots :: "slot list"

definition slot_new :: slot where
  "slot_new = \<lparr>sl_task = None, sl_prefetch = prefetch_slot_new\<rparr>"

definition tb_new :: "u8 \<Rightarrow> task_buffer" where
  "tb_new d = \<lparr>tb_prefetch_distance = unat d, tb_head = 0, tb_tail = 0,
     tb_slots = replicate task_buffer_size slot_new\<rparr>"

definition tb_empty :: "task_buffer \<Rightarrow> bool" where
  "tb_empty b = (sl_task (tb_slots b ! tb_head b) = None)"

definition tb_size :: "task_buffer \<Rightarrow> nat" where
  "tb_size b =
     (if tb_tail b \<ge> tb_head b then tb_tail b - tb_head b
      else task_buffer_size - (tb_head b - tb_tail b))"

definition tb_available_slots :: "task_buffer \<Rightarrow> nat" where
  "tb_available_slots b = task_buffer_size - tb_size b"

definition normalize :: "nat \<Rightarrow> nat" where
  "normalize index = index AND (task_buffer_size - 1)"

definition normalize_backward :: "nat \<Rightarrow> nat \<Rightarrow> nat" where
  "normalize_backward index offset =
     (if index \<ge> offset then index - offset
      else nat ((int task_buffer_size - (int offset - int index)) mod 2 ^ 16))"

text \<open>
  Taking the next task runs the prefetch remembered in its slot: the touched addresses are
  part of the result.
\<close>

definition tb_next :: "task_buffer \<Rightarrow> addr option \<times> nat list \<times> task_buffer" where
  "tb_next b =
     (let i = tb_head b; slot = tb_slots b ! i in
      case sl_task slot of
        Some t \<Rightarrow>
          (let (lines, p) = prefetch_slot_run (sl_prefetch slot) in
           (Some t, lines, b\<lparr>tb_head := normalize (i + 1),
              tb_slots := (tb_slots b)[i := \<lparr>sl_task = None, sl_prefetch = p\<rparr>]\<rparr>))
      | None \<Rightarrow> (None, [], b))"

definition tb_prefetch_at :: "nat \<Rightarrow> addr \<Rightarrow> task \<Rightarrow> task_buffer \<Rightarrow> task_buffer option" where
  "tb_prefetch_at i a t b =
     do {
       s \<leftarrow> arr_get (tb_slots b) i;
       slots \<leftarrow> arr_set (tb_slots b) i (s\<lparr>sl_prefetch := prefetch_slot_assign a t (sl_prefetch s)\<rparr>);
       Some (b\<lparr>tb_slots := slots\<rparr>)
     }"

definition tb_store :: "addr \<Rightarrow> task_buffer \<Rightarrow> task_buffer" where
  "tb_store a b =
     b\<lparr>tb_slots := (tb_slots b)[tb_tail b := (tb_slots b ! tb_tail b)\<lparr>sl_task := Some a\<rparr>],
       tb_tail := normalize (tb_tail b + 1)\<rparr>"

fun tb_fill_loop :: "(addr links \<Rightarrow> 'q \<Rightarrow> addr option \<times> addr links \<times> 'q) \<Rightarrow> (addr \<Rightarrow> task) \<Rightarrow> nat \<Rightarrow> nat \<Rightarrow>
    nat \<Rightarrow> nat \<Rightarrow> addr links \<Rightarrow> 'q \<Rightarrow> task_buffer \<Rightarrow> (nat \<times> addr links \<times> 'q \<times> task_buffer) option" where
  "tb_fill_loop pop tasks count 0 i prefetch_tail h q b = Some (i, h, q, b)"
| "tb_fill_loop pop tasks count (Suc rest) i prefetch_tail h q b =
     (case pop h q of
        (None, h', q') \<Rightarrow> Some (i, h', q', b)
      | (Some t, h', q') \<Rightarrow>
          do {
            b1 \<leftarrow> (if tb_prefetch_distance b > 0 \<and>
                     (of_nat task_buffer_size - of_nat count + of_nat i :: u64)
                       \<ge> of_nat (tb_prefetch_distance b)
                  then tb_prefetch_at prefetch_tail t (tasks t) b else Some b);
            tb_fill_loop pop tasks count rest (Suc i) (normalize (prefetch_tail + 1)) h' q' (tb_store t b1)
          })"

definition tb_fill :: "(addr links \<Rightarrow> 'q \<Rightarrow> bool) \<Rightarrow> (addr links \<Rightarrow> 'q \<Rightarrow> addr option \<times> addr links \<times> 'q) \<Rightarrow>
    (addr \<Rightarrow> task) \<Rightarrow> nat \<Rightarrow> addr links \<Rightarrow> 'q \<Rightarrow> task_buffer \<Rightarrow> (nat \<times> addr links \<times> 'q \<times> task_buffer) option" where
  "tb_fill is_empty pop tasks count h q b =
     (if count = 0 \<or> is_empty h q then Some (0, h, q, b)
      else tb_fill_loop pop tasks count count 0
             (normalize_backward (tb_tail b) (tb_prefetch_distance b)) h q b)"

subsection \<open>The buffer as a list of tasks\<close>

definition tb_rep :: "task_buffer \<Rightarrow> addr list \<Rightarrow> bool" where
  "tb_rep b xs \<longleftrightarrow> length (tb_slots b) = task_buffer_size \<and> tb_head b < task_buffer_size \<and>
     length xs \<le> task_buffer_size \<and>
     tb_tail b = (tb_head b + length xs) mod task_buffer_size \<and>
     (\<forall>i < task_buffer_size. sl_task (tb_slots b ! ((tb_head b + i) mod task_buffer_size)) =
        (if i < length xs then Some (xs ! i) else None))"

lemma normalize_mod: "normalize i = i mod 64"
  by (simp add: normalize_def and_mask_nats)

lemma ring_index:
  "h < 64 \<Longrightarrow> i \<le> 64 \<Longrightarrow> ((h::nat) + i) mod 64 = (if h + i < 64 then h + i else h + i - 64)"
  by (simp add: mod_if)

lemma ring_index_inj:
  "h < 64 \<Longrightarrow> i < 64 \<Longrightarrow> j < 64 \<Longrightarrow> ((h::nat) + i) mod 64 = (h + j) mod 64 \<longleftrightarrow> i = j"
  by (auto simp: ring_index split: if_splits)

lemma tb_rep_slot:
  "tb_rep b xs \<Longrightarrow> i < 64 \<Longrightarrow> sl_task (tb_slots b ! ((tb_head b + i) mod 64)) =
    (if i < length xs then Some (xs ! i) else None)"
  by (simp add: tb_rep_def)

lemma tb_new_rep: "tb_rep (tb_new d) []"
  by (simp add: tb_rep_def tb_new_def slot_new_def)

lemma tb_rep_head: "tb_rep b xs \<Longrightarrow> sl_task (tb_slots b ! tb_head b) = (if xs = [] then None else Some (hd xs))"
  using tb_rep_slot [of b xs 0] by (auto simp: tb_rep_def hd_conv_nth)

lemma tb_empty_rep: "tb_rep b xs \<Longrightarrow> tb_empty b = (xs = [])"
  by (simp add: tb_empty_def tb_rep_head)

lemma tb_size_rep: "tb_rep b xs \<Longrightarrow> tb_size b = length xs mod 64"
proof -
  assume r: "tb_rep b xs"
  then have "tb_head b < 64" "length xs \<le> 64" "tb_tail b = (tb_head b + length xs) mod 64"
    by (simp_all add: tb_rep_def)
  then show ?thesis by (cases "length xs = 64") (auto simp: tb_size_def ring_index)
qed

lemma tb_available_rep:
  "tb_rep b xs \<Longrightarrow> length xs < 64 \<Longrightarrow> tb_available_slots b = 64 - length xs"
  by (simp add: tb_available_slots_def tb_size_rep)

lemma tb_next_rep:
  assumes "tb_rep b xs" "tb_next b = (r, lines, b')"
  shows "r = (if xs = [] then None else Some (hd xs)) \<and> tb_rep b' (tl xs)"
proof (cases xs)
  case Nil
  with assms tb_rep_head [OF assms(1)] show ?thesis by (auto simp: tb_next_def Let_def)
next
  case (Cons x ys)
  with tb_rep_head [OF assms(1)] have slot: "sl_task (tb_slots b ! tb_head b) = Some x" by simp
  obtain ls p where p: "prefetch_slot_run (sl_prefetch (tb_slots b ! tb_head b)) = (ls, p)"
    by force
  have r: "r = Some x" and b': "b' = b\<lparr>tb_head := (tb_head b + 1) mod 64,
      tb_slots := (tb_slots b)[tb_head b := \<lparr>sl_task = None, sl_prefetch = p\<rparr>]\<rparr>"
    using assms(2) slot p by (auto simp: tb_next_def Let_def normalize_mod)
  have bounds: "length (tb_slots b) = 64" "tb_head b < 64" "length ys < 64"
    "tb_tail b = (tb_head b + Suc (length ys)) mod 64"
    using assms(1) Cons by (simp_all add: tb_rep_def)
  have "sl_task (tb_slots b' ! ((tb_head b' + i) mod 64)) = (if i < length ys then Some (ys ! i) else None)"
    if "i < 64" for i
  proof (cases "i = 63")
    case True
    with bounds have "((tb_head b + 1) mod 64 + i) mod 64 = tb_head b" by (simp add: mod_simps)
    with b' bounds True show ?thesis by simp
  next
    case False
    with that have idx: "((tb_head b + 1) mod 64 + i) mod 64 = (tb_head b + Suc i) mod 64"
      by (simp add: mod_simps)
    have "(tb_head b + Suc i) mod 64 \<noteq> tb_head b"
      using bounds that False ring_index [of "tb_head b" "Suc i"] by (auto split: if_splits)
    with idx b' bounds False that Cons tb_rep_slot [OF assms(1), of "Suc i"] show ?thesis by simp
  qed
  then show ?thesis
    using r b' bounds Cons by (simp add: tb_rep_def mod_add_left_eq)
qed

lemma tb_store_rep:
  assumes "tb_rep b xs" "length xs < 64"
  shows "tb_rep (tb_store a b) (xs @ [a])"
proof -
  have bounds: "length (tb_slots b) = 64" "tb_head b < 64"
    "tb_tail b = (tb_head b + length xs) mod 64"
    using assms(1) by (simp_all add: tb_rep_def)
  have "sl_task (tb_slots (tb_store a b) ! ((tb_head b + i) mod 64)) =
      (if i < length (xs @ [a]) then Some ((xs @ [a]) ! i) else None)" if "i < 64" for i
  proof (cases "i = length xs")
    case True
    with bounds show ?thesis by (simp add: tb_store_def)
  next
    case False
    with ring_index_inj [OF bounds(2) that assms(2)] bounds tb_rep_slot [OF assms(1) that]
    show ?thesis by (auto simp: tb_store_def nth_append)
  qed
  then show ?thesis
    using bounds assms(2) by (simp add: tb_rep_def tb_store_def normalize_mod mod_simps)
qed

lemma tb_prefetch_at_rep:
  assumes "tb_rep b xs" "tb_prefetch_at i a t b = Some b'"
  shows "tb_rep b' xs \<and> tb_prefetch_distance b' = tb_prefetch_distance b"
proof -
  from assms(2) obtain s where i: "i < length (tb_slots b)"
    and b': "b' = b\<lparr>tb_slots := (tb_slots b)[i := s]\<rparr>" and s: "sl_task s = sl_task (tb_slots b ! i)"
    by (auto simp: tb_prefetch_at_def array_simps split: bind_splits)
  then have "sl_task (tb_slots b' ! j) = sl_task (tb_slots b ! j)" for j
    by (cases "j = i") auto
  with assms(1) b' show ?thesis by (simp add: tb_rep_def)
qed

lemma tb_prefetch_at_Some:
  "tb_rep b xs \<Longrightarrow> i < 64 \<Longrightarrow> \<exists>b'. tb_prefetch_at i a t b = Some b'"
  by (simp add: tb_rep_def tb_prefetch_at_def arr_get_def arr_set_def)

lemma tb_store_distance [simp]: "tb_prefetch_distance (tb_store a b) = tb_prefetch_distance b"
  by (simp add: tb_store_def)

lemma tb_maybe_prefetch:
  assumes "tb_rep b xs" "i < 64"
  shows "\<exists>b'. (if c then tb_prefetch_at i a t b else Some b) = Some b' \<and> tb_rep b' xs \<and>
    tb_prefetch_distance b' = tb_prefetch_distance b"
proof (cases c)
  case True
  obtain b' where "tb_prefetch_at i a t b = Some b'" using tb_prefetch_at_Some [OF assms] by blast
  with True tb_prefetch_at_rep [OF assms(1) this] show ?thesis by simp
qed (use assms in simp)

lemma normalize_backward_bound:
  assumes "index < 64" "offset \<le> 64"
  shows "normalize_backward index offset < 64"
proof (cases "offset \<le> index")
  case True
  then show ?thesis using assms by (simp add: normalize_backward_def)
next
  case False
  then have "0 \<le> 64 - (int offset - int index)" "64 - (int offset - int index) < 64"
    using assms by simp_all
  then show ?thesis using False by (simp add: normalize_backward_def)
qed

text \<open>The interface of the queues the buffer is filled from: linked queues of tasks.\<close>

locale task_source = linked_source src_empty src_pop src_rep src_reserved
  for src_empty :: "addr links \<Rightarrow> 'q \<Rightarrow> bool"
    and src_pop :: "addr links \<Rightarrow> 'q \<Rightarrow> addr option \<times> addr links \<times> 'q"
    and src_rep :: "addr links \<Rightarrow> 'q \<Rightarrow> addr list \<Rightarrow> bool"
    and src_reserved :: "'q \<Rightarrow> addr set"
begin

lemma fill_loop_rep:
  assumes "tb_rep b xs" "src_rep h q ys" "length xs + rest \<le> 64" "pt < 64"
  shows "\<exists>h' q' b'. tb_fill_loop src_pop tasks count rest i pt h q b =
      Some (i + min rest (length ys), h', q', b') \<and>
    tb_rep b' (xs @ take rest ys) \<and> tb_prefetch_distance b' = tb_prefetch_distance b \<and>
    src_rep h' q' (drop rest ys) \<and> src_reserved q' = src_reserved q \<and>
    (\<forall>y. y \<notin> src_reserved q \<union> set ys \<longrightarrow> h' y = h y)"
  using assms
proof (induction rest arbitrary: b xs h q ys i pt)
  case 0
  then show ?case by simp
next
  case (Suc rest)
  obtain r h1 q1 where pop: "src_pop h q = (r, h1, q1)" by (cases "src_pop h q") auto
  note step = src_pop_rep [OF Suc.prems(2) pop] and frame = src_pop_frame [OF Suc.prems(2) pop]
  show ?case
  proof (cases ys)
    case Nil
    with pop step frame Suc.prems show ?thesis by auto
  next
    case (Cons t zs)
    let ?b1 = "if tb_prefetch_distance b > 0 \<and>
        (of_nat task_buffer_size - of_nat count + of_nat i :: u64) \<ge> of_nat (tb_prefetch_distance b)
      then tb_prefetch_at pt t (tasks t) b else Some b"
    obtain b1 where b1: "?b1 = Some b1" "tb_rep b1 xs" "tb_prefetch_distance b1 = tb_prefetch_distance b"
      using tb_maybe_prefetch [OF Suc.prems(1,4)] by blast
    have st: "tb_rep (tb_store t b1) (xs @ [t])"
      using tb_store_rep [OF b1(2)] Suc.prems(3) by simp
    have rep1: "src_rep h1 q1 zs" and r: "r = Some t" and res: "src_reserved q1 = src_reserved q"
      using step Cons by auto
    have nb: "normalize (pt + 1) < 64" by (simp add: normalize_mod)
    from Suc.IH [OF st rep1 _ nb, of "Suc i"] Suc.prems(3)
    obtain h' q' b' where IH: "tb_fill_loop src_pop tasks count rest (Suc i) (normalize (pt + 1)) h1 q1
        (tb_store t b1) = Some (Suc i + min rest (length zs), h', q', b')"
      "tb_rep b' ((xs @ [t]) @ take rest zs)" "tb_prefetch_distance b' = tb_prefetch_distance b1"
      "src_rep h' q' (drop rest zs)" "src_reserved q' = src_reserved q1"
      "\<forall>y. y \<notin> src_reserved q1 \<union> set zs \<longrightarrow> h' y = h1 y" by auto
    have "tb_fill_loop src_pop tasks count (Suc rest) i pt h q b =
        Some (i + min (Suc rest) (length ys), h', q', b')"
      using pop r b1(1) IH(1) Cons by simp
    moreover have "\<forall>y. y \<notin> src_reserved q \<union> set ys \<longrightarrow> h' y = h y"
      using IH(6) frame res Cons by auto
    ultimately show ?thesis using IH b1 res Cons by auto
  qed
qed

lemma fill_rep:
  assumes "tb_rep b xs" "src_rep h q ys" "length xs + count \<le> 64" "tb_prefetch_distance b \<le> 64"
  shows "\<exists>h' q' b'. tb_fill src_empty src_pop tasks count h q b =
      Some (min count (length ys), h', q', b') \<and>
    tb_rep b' (xs @ take count ys) \<and> tb_prefetch_distance b' = tb_prefetch_distance b \<and>
    src_rep h' q' (drop count ys) \<and> src_reserved q' = src_reserved q \<and>
    (\<forall>y. y \<notin> src_reserved q \<union> set ys \<longrightarrow> h' y = h y)"
proof (cases "count = 0 \<or> ys = []")
  case True
  with assms src_empty_rep [OF assms(2)] show ?thesis by (auto simp: tb_fill_def)
next
  case False
  have "normalize_backward (tb_tail b) (tb_prefetch_distance b) < 64"
    using assms(1,4) by (intro normalize_backward_bound) (simp_all add: tb_rep_def)
  from fill_loop_rep [OF assms(1-3) this, of tasks count 0] False src_empty_rep [OF assms(2)]
  show ?thesis by (simp add: tb_fill_def)
qed

end

interpretation spsc_tasks: task_source queue_empty queue_pop_front queue_rep "\<lambda>_. {}"
  by unfold_locales

interpretation mpsc_tasks: task_source mpsc_empty mpsc_pop_front mpsc_rep "\<lambda>q. {mq_end q}"
  by unfold_locales

subsection \<open>Properties\<close>

text \<open>
  C24: The task buffer is a bounded FIFO list: a fill with at most as many tasks as there
  are free slots appends the first tasks of the queue in their order, leaves the others in
  the queue and returns how many it took; it never writes outside the buffer when the
  prefetch distance is at most the buffer size. Taking tasks out afterwards returns them in
  that order.
\<close>

theorem task_buffer_fill_refines_list:
  assumes "tb_rep b xs" "mpsc_rep h q ys" "length xs + count \<le> task_buffer_size"
    "tb_prefetch_distance b \<le> task_buffer_size"
  shows "\<exists>h' q' b'. tb_fill mpsc_empty mpsc_pop_front tasks count h q b =
      Some (min count (length ys), h', q', b') \<and>
    tb_rep b' (xs @ take count ys) \<and> mpsc_rep h' q' (drop count ys) \<and>
    (\<forall>r lines b''. xs @ take count ys \<noteq> [] \<longrightarrow> tb_next b' = (r, lines, b'') \<longrightarrow>
       r = Some (hd (xs @ take count ys)) \<and> tb_rep b'' (tl (xs @ take count ys)))"
proof -
  obtain h' q' b' where f: "tb_fill mpsc_empty mpsc_pop_front tasks count h q b =
      Some (min count (length ys), h', q', b')"
    "tb_rep b' (xs @ take count ys)" "mpsc_rep h' q' (drop count ys)"
    using mpsc_tasks.fill_rep [OF assms(1,2), of count tasks] assms(3,4) by auto
  show ?thesis
    using f tb_next_rep [OF f(2)] by (intro exI [of _ h'] exI [of _ q'] exI [of _ b']) fastforce
qed

theorem task_buffer_fill_refines_list_witness:
  "\<exists>h' q' b'. tb_fill mpsc_empty mpsc_pop_front (\<lambda>_. task_default) 64 (\<lambda>_. None)
       \<lparr>mq_head = 7, mq_tail = 7, mq_end = 0\<rparr> (tb_new 2) = Some (1, h', q', b') \<and> tb_rep b' [7]"
proof -
  have "mpsc_rep (\<lambda>_. None) \<lparr>mq_head = 7, mq_tail = 7, mq_end = 0\<rparr> [7::nat]"
    by (auto simp: mpsc_rep_def mpsc_chain_def intro!: exI [of _ "[7]"])
  from task_buffer_fill_refines_list [OF tb_new_rep [of 2] this, of 64 "\<lambda>_. task_default"]
  show ?thesis by (simp add: tb_new_def) blast
qed

text \<open>
  The number of tasks TaskBuffer::size reports is right for every buffer that is not
  full, and it is 0 for a full buffer, which then claims that all its slots are free.
\<close>

theorem task_buffer_size_of_full_buffer:
  assumes "tb_rep b xs"
  shows "tb_size b = (if length xs = task_buffer_size then 0 else length xs) \<and>
    tb_available_slots b = (if length xs = task_buffer_size then task_buffer_size
       else task_buffer_size - length xs)"
proof -
  have "length xs \<le> 64" using assms by (simp add: tb_rep_def)
  then show ?thesis
    using tb_size_rep [OF assms] by (auto simp: tb_available_slots_def)
qed

theorem task_buffer_size_of_full_buffer_witness:
  "let full = \<lparr>tb_prefetch_distance = 0, tb_head = 5, tb_tail = 5,
       tb_slots = replicate 64 (slot_new\<lparr>sl_task := Some 9\<rparr>)\<rparr> in
   tb_size full = 0 \<and> tb_available_slots full = 64 \<and> \<not> tb_empty full"
proof -
  have "tb_rep \<lparr>tb_prefetch_distance = 0, tb_head = 5, tb_tail = 5,
       tb_slots = replicate 64 (slot_new\<lparr>sl_task := Some 9\<rparr>)\<rparr> (replicate 64 9)"
    by (simp add: tb_rep_def)
  from task_buffer_size_of_full_buffer [OF this] show ?thesis
    by (simp add: Let_def tb_empty_def)
qed

end
