(* ===== verification/ChannelModel.thy ===== *)
theory ChannelModel
  imports TaskBuf "HOL-Library.Multiset"
begin

section \<open>Channels\<close>

text \<open>
  mx/tasking/channel.h, mx/tasking/channel_occupancy.h and mx/tasking/load.h. A channel
  owns two local queues (one per priority), two times eight queues for tasks of other
  worker threads (one per priority and NUMA region) and the task buffer. All queues link
  their tasks through one link store. The contents of a channel is a function from queue
  identifiers to lists of tasks.
\<close>

subsection \<open>Occupancy and load\<close>

type_synonym occupancy = "u64 list"

definition occupancy_new :: occupancy where
  "occupancy_new = replicate 4 0"

definition occupancy_predict :: "access_frequency \<Rightarrow> occupancy \<Rightarrow> occupancy" where
  "occupancy_predict f o1 = o1[frequency_code f := o1 ! frequency_code f + 1]"

definition occupancy_revoke :: "access_frequency \<Rightarrow> occupancy \<Rightarrow> occupancy" where
  "occupancy_revoke f o1 = o1[frequency_code f := o1 ! frequency_code f - 1]"

definition has_at_least_one :: "access_frequency \<Rightarrow> occupancy \<Rightarrow> bool" where
  "has_at_least_one f o1 = (o1 ! frequency_code f > 0)"

definition occupancy_has_excessive :: "occupancy \<Rightarrow> bool" where
  "occupancy_has_excessive o1 = has_at_least_one Excessive o1"

definition occupancy_frequency :: "occupancy \<Rightarrow> access_frequency" where
  "occupancy_frequency o1 =
     (if has_at_least_one Excessive o1 then Excessive
      else if has_at_least_one High o1 then High
      else if has_at_least_one Normal o1 then Normal
      else Unused)"

text \<open>The load keeps the outcome of the last 64 requests as a bit vector.\<close>

definition load_add :: "bool \<Rightarrow> u64 \<Rightarrow> u64" where
  "load_add hit hits = (let h = push_bit 1 hits in if hit then set_bit 0 h else unset_bit 0 h)"

definition load_or :: "u64 \<Rightarrow> u64 \<Rightarrow> u64" where
  "load_or hits other = hits OR other"

definition load_count :: "u64 \<Rightarrow> nat" where
  "load_count hits = length (filter (bit hits) [0..<64])"

subsection \<open>Channel\<close>

definition max_numa_nodes :: nat where
  [simp]: "max_numa_nodes = 8"

record channel =
  ch_remote_queues :: "addr mpsc_queue list list"
  ch_local_queues :: "addr spsc_queue list"
  ch_task_buffer :: task_buffer
  ch_id :: u16
  ch_numa_node_id :: u8
  ch_occupancy :: occupancy

definition channel_next :: "channel \<Rightarrow> addr option \<times> nat list \<times> channel" where
  "channel_next c =
     (let (r, lines, b) = tb_next (ch_task_buffer c) in (r, lines, c\<lparr>ch_task_buffer := b\<rparr>))"

definition set_remote :: "nat \<Rightarrow> nat \<Rightarrow> addr mpsc_queue \<Rightarrow> channel \<Rightarrow> channel" where
  "set_remote p n q c =
     c\<lparr>ch_remote_queues := (ch_remote_queues c)[p := (ch_remote_queues c ! p)[n := q]]\<rparr>"

definition set_local :: "nat \<Rightarrow> addr spsc_queue \<Rightarrow> channel \<Rightarrow> channel" where
  "set_local p q c = c\<lparr>ch_local_queues := (ch_local_queues c)[p := q]\<rparr>"

definition push_back_remote ::
  "addr \<Rightarrow> task \<Rightarrow> nat \<Rightarrow> addr links \<Rightarrow> channel \<Rightarrow> (addr links \<times> channel) option" where
  "push_back_remote a t node h c =
     (let p = priority_code (task_priority t) in
      do {
        q \<leftarrow> arr_get (ch_remote_queues c ! p) node;
        (let (h', q') = mpsc_push_back a h q in Some (h', set_remote p node q' c))
      })"

definition push_back_local ::
  "addr \<Rightarrow> task \<Rightarrow> addr links \<Rightarrow> channel \<Rightarrow> addr links \<times> channel" where
  "push_back_local a t h c =
     (let p = priority_code (task_priority t);
          (h', q') = queue_push_back a h (ch_local_queues c ! p)
      in (h', set_local p q' c))"

text \<open>Filling from the local queue of a priority, and from the remote queue of a region.\<close>

definition fill_local ::
  "(addr \<Rightarrow> task) \<Rightarrow> nat \<Rightarrow> nat \<Rightarrow> addr links \<Rightarrow> channel \<Rightarrow> (nat \<times> addr links \<times> channel) option" where
  "fill_local tasks p amount h c =
     do {
       (n, h', q', b') \<leftarrow> tb_fill queue_empty queue_pop_front tasks amount h
                            (ch_local_queues c ! p) (ch_task_buffer c);
       Some (n, h', set_local p q' (c\<lparr>ch_task_buffer := b'\<rparr>))
     }"

definition fill_remote ::
  "(addr \<Rightarrow> task) \<Rightarrow> nat \<Rightarrow> nat \<Rightarrow> nat \<Rightarrow> addr links \<Rightarrow> channel \<Rightarrow> (nat \<times> addr links \<times> channel) option" where
  "fill_remote tasks p node amount h c =
     do {
       (n, h', q', b') \<leftarrow> tb_fill mpsc_empty mpsc_pop_front tasks amount h
                            (ch_remote_queues c ! p ! node) (ch_task_buffer c);
       Some (n, h', set_remote p node q' (c\<lparr>ch_task_buffer := b'\<rparr>))
     }"

fun fill_remotes :: "(addr \<Rightarrow> task) \<Rightarrow> nat \<Rightarrow> nat list \<Rightarrow> nat \<Rightarrow> addr links \<Rightarrow> channel \<Rightarrow>
    (nat \<times> addr links \<times> channel) option" where
  "fill_remotes tasks p [] available h c = Some (available, h, c)"
| "fill_remotes tasks p (i # is) available h c =
     do {
       (n, h', c') \<leftarrow> fill_remote tasks p ((unat (ch_numa_node_id c) + i) AND (max_numa_nodes - 1)) available h c;
       fill_remotes tasks p is (available - n) h' c'
     }"

definition channel_fill_up_to ::
  "(addr \<Rightarrow> task) \<Rightarrow> priority \<Rightarrow> nat \<Rightarrow> addr links \<Rightarrow> channel \<Rightarrow> (nat \<times> addr links \<times> channel) option" where
  "channel_fill_up_to tasks P available h c =
     do {
       (n, h1, c1) \<leftarrow> fill_local tasks (priority_code P) available h c;
       (let available1 = available - n in
        do {
          (available2, h2, c2) \<leftarrow>
            (if available1 > 0
             then fill_remotes tasks (priority_code P) [0..<max_numa_nodes] available1 h1 c1
             else Some (available1, h1, c1));
          Some (task_buffer_size - available2, h2, c2)
        })
     }"

definition channel_fill_priority ::
  "(addr \<Rightarrow> task) \<Rightarrow> priority \<Rightarrow> addr links \<Rightarrow> channel \<Rightarrow> (nat \<times> addr links \<times> channel) option" where
  "channel_fill_priority tasks P h c =
     channel_fill_up_to tasks P (tb_available_slots (ch_task_buffer c)) h c"

definition channel_fill ::
  "(addr \<Rightarrow> task) \<Rightarrow> addr links \<Rightarrow> channel \<Rightarrow> (nat \<times> addr links \<times> channel) option" where
  "channel_fill tasks h c =
     do {
       (n, h1, c1) \<leftarrow> channel_fill_up_to tasks PriorityNormal (tb_available_slots (ch_task_buffer c)) h c;
       (if tb_empty (ch_task_buffer c1)
        then channel_fill_up_to tasks PriorityLow task_buffer_size h1 c1
        else Some (n, h1, c1))
     }"

definition channel_size :: "channel \<Rightarrow> nat" where
  "channel_size c = tb_size (ch_task_buffer c)"

definition channel_empty :: "channel \<Rightarrow> bool" where
  "channel_empty c = tb_empty (ch_task_buffer c)"

definition predict_usage :: "access_frequency \<Rightarrow> channel \<Rightarrow> channel" where
  "predict_usage f c = c\<lparr>ch_occupancy := occupancy_predict f (ch_occupancy c)\<rparr>"

definition modify_predicted_usage :: "access_frequency \<Rightarrow> access_frequency \<Rightarrow> channel \<Rightarrow> channel" where
  "modify_predicted_usage old new c =
     c\<lparr>ch_occupancy := occupancy_predict new (occupancy_revoke old (ch_occupancy c))\<rparr>"

definition predicted_usage :: "channel \<Rightarrow> access_frequency" where
  "predicted_usage c = occupancy_frequency (ch_occupancy c)"

definition has_excessive_usage_prediction :: "channel \<Rightarrow> bool" where
  "has_excessive_usage_prediction c = occupancy_has_excessive (ch_occupancy c)"

subsection \<open>The contents of a channel\<close>

datatype qid = LocalQ nat | RemoteQ nat nat

fun valid_qid :: "qid \<Rightarrow> bool" where
  "valid_qid (LocalQ p) = (p < 2)"
| "valid_qid (RemoteQ p n) = (p < 2 \<and> n < 8)"

fun q_holds :: "addr links \<Rightarrow> channel \<Rightarrow> qid \<Rightarrow> addr list \<Rightarrow> bool" where
  "q_holds h c (LocalQ p) xs = queue_rep h (ch_local_queues c ! p) xs"
| "q_holds h c (RemoteQ p n) xs = mpsc_rep h (ch_remote_queues c ! p ! n) xs"

fun q_stub :: "channel \<Rightarrow> qid \<Rightarrow> addr set" where
  "q_stub c (LocalQ p) = {}"
| "q_stub c (RemoteQ p n) = {mq_end (ch_remote_queues c ! p ! n)}"

definition q_owns :: "channel \<Rightarrow> (qid \<Rightarrow> addr list) \<Rightarrow> qid \<Rightarrow> addr set" where
  "q_owns c cont k = q_stub c k \<union> set (cont k)"

definition channel_shape :: "channel \<Rightarrow> bool" where
  "channel_shape c \<longleftrightarrow> length (ch_local_queues c) = 2 \<and> length (ch_remote_queues c) = 2 \<and>
     (\<forall>p < 2. length (ch_remote_queues c ! p) = 8)"

definition channel_queues :: "addr links \<Rightarrow> channel \<Rightarrow> (qid \<Rightarrow> addr list) \<Rightarrow> bool" where
  "channel_queues h c cont \<longleftrightarrow> channel_shape c \<and>
     (\<forall>k. valid_qid k \<longrightarrow> q_holds h c k (cont k)) \<and>
     (\<forall>j k. valid_qid j \<longrightarrow> valid_qid k \<longrightarrow> j \<noteq> k \<longrightarrow> q_owns c cont j \<inter> q_owns c cont k = {})"

definition channel_rep :: "addr links \<Rightarrow> channel \<Rightarrow> (qid \<Rightarrow> addr list) \<Rightarrow> addr list \<Rightarrow> bool" where
  "channel_rep h c cont buf \<longleftrightarrow> channel_queues h c cont \<and> tb_rep (ch_task_buffer c) buf \<and>
     tb_prefetch_distance (ch_task_buffer c) \<le> 64"

text \<open>The queues of a priority in the order in which a fill visits them.\<close>

definition fill_order :: "channel \<Rightarrow> priority \<Rightarrow> qid list" where
  "fill_order c P = LocalQ (priority_code P) #
     map (\<lambda>i. RemoteQ (priority_code P) ((unat (ch_numa_node_id c) + i) mod 8)) [0..<8]"

definition backlog :: "channel \<Rightarrow> priority \<Rightarrow> (qid \<Rightarrow> addr list) \<Rightarrow> addr list" where
  "backlog c P cont = concat (map cont (fill_order c P))"

subsection \<open>Changing one queue of a channel\<close>

lemma q_holds_cong:
  "q_holds h c k xs \<Longrightarrow> (\<And>y. y \<in> q_stub c k \<union> set xs \<Longrightarrow> h' y = h y) \<Longrightarrow> q_holds h' c k xs"
  using queue_rep_cong [of h _ xs h'] mpsc_rep_cong [of h _ xs h'] by (cases k) auto

lemma set_local_queues:
  assumes "channel_shape c" "p < 2"
  shows "channel_shape (set_local p q c)" "q_holds h (set_local p q c) (LocalQ p) xs = queue_rep h q xs"
    "j \<noteq> LocalQ p \<Longrightarrow> q_holds h (set_local p q c) j xs = q_holds h c j xs"
    "q_stub (set_local p q c) j = q_stub c j"
  using assms by (cases j; auto simp: channel_shape_def set_local_def)+

lemma set_remote_queues:
  assumes "channel_shape c" "p < 2" "n < 8"
  shows "channel_shape (set_remote p n q c)"
    "q_holds h (set_remote p n q c) (RemoteQ p n) xs = mpsc_rep h q xs"
    "j \<noteq> RemoteQ p n \<Longrightarrow> q_holds h (set_remote p n q c) j xs = q_holds h c j xs"
    "mq_end q = mq_end (ch_remote_queues c ! p ! n) \<Longrightarrow> q_stub (set_remote p n q c) j = q_stub c j"
proof -
  have l: "length (ch_remote_queues c) = 2" "length (ch_remote_queues c ! p) = 8"
    using assms by (auto simp: channel_shape_def)
  have get: "ch_remote_queues (set_remote p n q c) ! p' ! n' =
      (if p' = p \<and> n' = n then q else ch_remote_queues c ! p' ! n')" for p' n'
    using l assms by (auto simp: set_remote_def nth_list_update)
  show "channel_shape (set_remote p n q c)"
    using assms l by (auto simp: channel_shape_def set_remote_def nth_list_update)
  show "q_holds h (set_remote p n q c) (RemoteQ p n) xs = mpsc_rep h q xs" by (simp add: get)
  show "j \<noteq> RemoteQ p n \<Longrightarrow> q_holds h (set_remote p n q c) j xs = q_holds h c j xs"
    by (cases j) (auto simp: get, simp add: set_remote_def, simp add: set_remote_def)
  show "mq_end q = mq_end (ch_remote_queues c ! p ! n) \<Longrightarrow> q_stub (set_remote p n q c) j = q_stub c j"
    by (cases j) (auto simp: get)
qed

lemma channel_queues_update:
  assumes "channel_queues h c cont" "valid_qid k" "channel_shape c'" "q_holds h' c' k xs"
    "\<And>j. q_stub c' j = q_stub c j"
    "\<And>j ys. j \<noteq> k \<Longrightarrow> q_holds h' c' j ys = q_holds h' c j ys"
    "set xs \<subseteq> set (cont k) \<union> F"
    "\<And>j. valid_qid j \<Longrightarrow> F \<inter> q_owns c cont j = {}"
    "\<And>y. y \<notin> q_owns c cont k \<union> F \<Longrightarrow> h' y = h y"
  shows "channel_queues h' c' (cont(k := xs))"
proof -
  have disj: "q_owns c cont i \<inter> q_owns c cont j = {}" if "valid_qid i" "valid_qid j" "i \<noteq> j" for i j
    using assms(1) that by (simp add: channel_queues_def)
  have "q_holds h' c' j ((cont(k := xs)) j)" if "valid_qid j" for j
  proof (cases "j = k")
    case False
    have "q_holds h c j (cont j)" using assms(1) that by (simp add: channel_queues_def)
    moreover have "h' y = h y" if y: "y \<in> q_stub c j \<union> set (cont j)" for y
    proof (rule assms(9))
      have "y \<in> q_owns c cont j" using y by (simp add: q_owns_def)
      then show "y \<notin> q_owns c cont k \<union> F"
        using disj [of j k] assms(2) assms(8) \<open>valid_qid j\<close> False by blast
    qed
    ultimately have "q_holds h' c j (cont j)" by (rule q_holds_cong)
    then show ?thesis using False assms(6) by simp
  qed (use assms(4) in simp)
  moreover have owns: "q_owns c' (cont(k := xs)) j \<subseteq> q_owns c cont j \<union> (if j = k then F else {})" for j
    using assms(5,7) by (auto simp: q_owns_def)
  have "q_owns c' (cont(k := xs)) i \<inter> q_owns c' (cont(k := xs)) j = {}"
    if "valid_qid i" "valid_qid j" "i \<noteq> j" for i j
    using owns [of i] owns [of j] disj [OF that] assms(8) [OF that(1)] assms(8) [OF that(2)] that(3)
    by (simp split: if_splits) blast+
  ultimately show ?thesis using assms(3) by (simp add: channel_queues_def)
qed

fun fill_queue :: "(addr \<Rightarrow> task) \<Rightarrow> qid \<Rightarrow> nat \<Rightarrow> addr links \<Rightarrow> channel \<Rightarrow>
    (nat \<times> addr links \<times> channel) option" where
  "fill_queue tasks (LocalQ p) = fill_local tasks p"
| "fill_queue tasks (RemoteQ p n) = fill_remote tasks p n"

definition same_frame :: "channel \<Rightarrow> channel \<Rightarrow> bool" where
  "same_frame c c' \<longleftrightarrow> ch_id c' = ch_id c \<and> ch_numa_node_id c' = ch_numa_node_id c \<and>
     ch_occupancy c' = ch_occupancy c \<and> (\<forall>j. q_stub c' j = q_stub c j)"

lemma same_frame_refl [simp]: "same_frame c c"
  by (simp add: same_frame_def)

lemma same_frame_trans: "same_frame a b \<Longrightarrow> same_frame b c \<Longrightarrow> same_frame a c"
  by (simp add: same_frame_def)

lemma buffer_update_queues:
  "channel_shape (c\<lparr>ch_task_buffer := b\<rparr>) = channel_shape c"
  "q_holds h (c\<lparr>ch_task_buffer := b\<rparr>) k xs = q_holds h c k xs"
  "q_stub (c\<lparr>ch_task_buffer := b\<rparr>) k = q_stub c k"
  by (cases k; simp add: channel_shape_def)+

lemma fill_queue_rep:
  assumes "channel_rep h c cont buf" "valid_qid k" "length buf + amount \<le> 64"
  shows "\<exists>h' c'. fill_queue tasks k amount h c = Some (min amount (length (cont k)), h', c') \<and>
    channel_rep h' c' (cont(k := drop amount (cont k))) (buf @ take amount (cont k)) \<and>
    same_frame c c' \<and> (\<forall>y. y \<notin> q_owns c cont k \<longrightarrow> h' y = h y)"
proof -
  have q: "channel_queues h c cont" and b: "tb_rep (ch_task_buffer c) buf"
    and d: "tb_prefetch_distance (ch_task_buffer c) \<le> 64"
    using assms(1) by (simp_all add: channel_rep_def)
  have shape: "channel_shape c" and holds: "q_holds h c k (cont k)"
    using q assms(2) by (auto simp: channel_queues_def)
  have sub: "set (drop amount (cont k)) \<subseteq> set (cont k) \<union> {}" by (simp add: set_drop_subset)
  show ?thesis
  proof (cases k)
    case (LocalQ p)
    with assms(2) have p: "p < 2" by simp
    from spsc_tasks.fill_rep [OF b _ assms(3) d, of h "ch_local_queues c ! p" "cont k" tasks] holds LocalQ
    obtain h' q' b' where f: "tb_fill queue_empty queue_pop_front tasks amount h (ch_local_queues c ! p)
        (ch_task_buffer c) = Some (min amount (length (cont k)), h', q', b')"
      "tb_rep b' (buf @ take amount (cont k))"
      "tb_prefetch_distance b' = tb_prefetch_distance (ch_task_buffer c)"
      "queue_rep h' q' (drop amount (cont k))" "\<forall>y. y \<notin> set (cont k) \<longrightarrow> h' y = h y"
      by auto
    let ?c = "set_local p q' (c\<lparr>ch_task_buffer := b'\<rparr>)"
    have sh: "channel_shape (c\<lparr>ch_task_buffer := b'\<rparr>)" using shape by (simp add: buffer_update_queues)
    note u = set_local_queues [OF sh p, where q = q']
    have "channel_queues h' ?c (cont(k := drop amount (cont k)))"
      by (rule channel_queues_update [OF q assms(2), where F = "{}"])
        (use u f(4,5) LocalQ sub in \<open>auto simp: buffer_update_queues q_owns_def\<close>)
    moreover have "same_frame c ?c"
      using u(4) by (simp add: same_frame_def set_local_def buffer_update_queues)
    ultimately show ?thesis
      using f d LocalQ by (auto simp: fill_local_def channel_rep_def set_local_def q_owns_def)
  next
    case (RemoteQ p n)
    with assms(2) have p: "p < 2" "n < 8" by simp_all
    let ?q = "ch_remote_queues c ! p ! n"
    from mpsc_tasks.fill_rep [OF b _ assms(3) d, of h ?q "cont k" tasks] holds RemoteQ
    obtain h' q' b' where f: "tb_fill mpsc_empty mpsc_pop_front tasks amount h ?q
        (ch_task_buffer c) = Some (min amount (length (cont k)), h', q', b')"
      "tb_rep b' (buf @ take amount (cont k))"
      "tb_prefetch_distance b' = tb_prefetch_distance (ch_task_buffer c)"
      "mpsc_rep h' q' (drop amount (cont k))" "mq_end q' = mq_end ?q"
      "\<forall>y. y \<notin> {mq_end ?q} \<union> set (cont k) \<longrightarrow> h' y = h y"
      by auto
    let ?c = "set_remote p n q' (c\<lparr>ch_task_buffer := b'\<rparr>)"
    have sh: "channel_shape (c\<lparr>ch_task_buffer := b'\<rparr>)" using shape by (simp add: buffer_update_queues)
    note u = set_remote_queues [OF sh p, where q = q']
    have "channel_queues h' ?c (cont(k := drop amount (cont k)))"
      by (rule channel_queues_update [OF q assms(2), where F = "{}"])
        (use u f(4,5,6) RemoteQ sub in \<open>auto simp: buffer_update_queues q_owns_def\<close>)
    moreover have "same_frame c ?c"
      using u(4) f(5) by (simp add: same_frame_def set_remote_def buffer_update_queues)
    ultimately show ?thesis
      using f d RemoteQ by (auto simp: fill_remote_def channel_rep_def set_remote_def q_owns_def)
  qed
qed

subsection \<open>Filling from several queues\<close>

text \<open>What remains in the queues after the first \<open>n\<close> tasks, counted along the queues, are gone.\<close>

fun drain :: "qid list \<Rightarrow> nat \<Rightarrow> (qid \<Rightarrow> addr list) \<Rightarrow> (qid \<Rightarrow> addr list)" where
  "drain [] n cont = cont"
| "drain (k # ks) n cont = drain ks (n - length (cont k)) (cont(k := drop n (cont k)))"

lemma drain_other: "j \<notin> set ks \<Longrightarrow> drain ks n cont j = cont j"
  by (induction ks arbitrary: n cont) auto

lemma drain_subset: "set (drain ks n cont j) \<subseteq> set (cont j)"
proof (induction ks arbitrary: n cont)
  case (Cons k ks)
  have "set (drain (k # ks) n cont j) \<subseteq> set ((cont(k := drop n (cont k))) j)"
    unfolding drain.simps by (rule Cons.IH)
  also have "\<dots> \<subseteq> set (cont j)" by (simp add: set_drop_subset)
  finally show ?case .
qed simp

lemma drain_concat: "distinct ks \<Longrightarrow> concat (map (drain ks n cont) ks) = drop n (concat (map cont ks))"
proof (induction ks arbitrary: n cont)
  case (Cons k ks)
  let ?cont = "cont(k := drop n (cont k))"
  have "map ?cont ks = map cont ks" using Cons.prems by auto
  then have "concat (map (drain ks (n - length (cont k)) ?cont) ks) =
      drop (n - length (cont k)) (concat (map cont ks))"
    using Cons by simp
  moreover have "drain ks (n - length (cont k)) ?cont k = drop n (cont k)"
    using Cons.prems by (simp add: drain_other)
  ultimately show ?case by simp
qed simp

definition queues_owned :: "channel \<Rightarrow> (qid \<Rightarrow> addr list) \<Rightarrow> qid list \<Rightarrow> addr set" where
  "queues_owned c cont ks = (\<Union>k \<in> set ks. q_owns c cont k)"

lemma frame_trans:
  "(\<forall>y. y \<notin> A \<longrightarrow> h1 y = h y) \<Longrightarrow> (\<forall>y. y \<notin> B \<longrightarrow> h2 y = h1 y) \<Longrightarrow> A \<subseteq> C \<Longrightarrow> B \<subseteq> C \<Longrightarrow>
    \<forall>y. y \<notin> C \<longrightarrow> h2 y = h y"
  by (metis subsetD)

lemma queues_owned_mono:
  assumes "same_frame c c1" "\<And>j. set (cont1 j) \<subseteq> set (cont j)" "set ks1 \<subseteq> set ks"
  shows "queues_owned c1 cont1 ks1 \<subseteq> queues_owned c cont ks"
proof -
  have "q_owns c1 cont1 j \<subseteq> q_owns c cont j" for j
    using assms(1) assms(2) [of j] by (auto simp: q_owns_def same_frame_def)
  then show ?thesis using assms(3) unfolding queues_owned_def by blast
qed

lemma queues_owned_member: "k \<in> set ks \<Longrightarrow> q_owns c cont k \<subseteq> queues_owned c cont ks"
  by (auto simp: queues_owned_def)

lemma diff_min: "(a :: nat) - min a b = a - b"
  by simp

lemma fill_remotes_rep:
  assumes "channel_rep h c cont buf" "length buf + available \<le> 64" "p < 2"
    "ks = map (\<lambda>i. RemoteQ p ((unat (ch_numa_node_id c) + i) mod 8)) is" "distinct ks"
  shows "\<exists>h' c'. fill_remotes tasks p is available h c =
      Some (available - length (concat (map cont ks)), h', c') \<and>
    channel_rep h' c' (drain ks available cont) (buf @ take available (concat (map cont ks))) \<and>
    same_frame c c' \<and> (\<forall>y. y \<notin> queues_owned c cont ks \<longrightarrow> h' y = h y)"
  using assms
proof (induction "is" arbitrary: h c cont buf available ks)
  case Nil
  then show ?case by simp
next
  case (Cons i "is")
  let ?k = "RemoteQ p ((unat (ch_numa_node_id c) + i) mod 8)"
  let ?ks = "map (\<lambda>i. RemoteQ p ((unat (ch_numa_node_id c) + i) mod 8)) is"
  let ?cont = "cont(?k := drop available (cont ?k))"
  have ks: "ks = ?k # ?ks" and dist: "distinct ?ks" "?k \<notin> set ?ks" using Cons.prems(4,5) by auto
  have valid: "valid_qid ?k" using Cons.prems(3) by simp
  from fill_queue_rep [OF Cons.prems(1) valid Cons.prems(2), of tasks]
  obtain h1 c1 where f: "fill_queue tasks ?k available h c = Some (min available (length (cont ?k)), h1, c1)"
    "channel_rep h1 c1 ?cont (buf @ take available (cont ?k))" "same_frame c c1"
    "\<forall>y. y \<notin> q_owns c cont ?k \<longrightarrow> h1 y = h y" by blast
  let ?av = "available - min available (length (cont ?k))"
  have av: "?av = available - length (cont ?k)" by simp
  have numa: "ch_numa_node_id c1 = ch_numa_node_id c" using f(3) by (simp add: same_frame_def)
  have len: "length (buf @ take available (cont ?k)) + ?av \<le> 64" using Cons.prems(2) by simp
  have ks1: "?ks = map (\<lambda>i. RemoteQ p ((unat (ch_numa_node_id c1) + i) mod 8)) is" using numa by simp
  from Cons.IH [OF f(2) len Cons.prems(3) ks1 dist(1)]
  obtain h2 c2 where g: "fill_remotes tasks p is ?av h1 c1 = Some (?av - length (concat (map ?cont ?ks)), h2, c2)"
    "channel_rep h2 c2 (drain ?ks ?av ?cont) ((buf @ take available (cont ?k)) @ take ?av (concat (map ?cont ?ks)))"
    "same_frame c1 c2" "\<forall>y. y \<notin> queues_owned c1 ?cont ?ks \<longrightarrow> h2 y = h1 y" by blast
  have same: "map ?cont ?ks = map cont ?ks" using dist(2) by (rule map_fun_upd)
  have sub: "queues_owned c1 ?cont ?ks \<subseteq> queues_owned c cont ks"
    by (rule queues_owned_mono [OF f(3)]) (auto simp: ks dest: in_set_dropD)
  have own: "q_owns c cont ?k \<subseteq> queues_owned c cont ks" by (rule queues_owned_member) (simp add: ks)
  have frame: "\<forall>y. y \<notin> queues_owned c cont ks \<longrightarrow> h2 y = h y"
    by (rule frame_trans [OF f(4) g(4) own sub])
  have n: "?av - length (concat (map cont ?ks)) = available - length (concat (map cont ks))"
    unfolding ks list.map concat.simps length_append diff_min diff_diff_left by (rule refl)
  have run: "fill_remotes tasks p (i # is) available h c =
      Some (available - length (concat (map cont ks)), h2, c2)"
    using f(1) g(1) unfolding same n by (simp add: and_mask_nats del: map_map)
  moreover have "drain ks available cont = drain ?ks ?av ?cont"
    unfolding ks drain.simps diff_min by (rule refl)
  moreover have "take available (concat (map cont ks)) = take available (cont ?k) @ take ?av (concat (map cont ?ks))"
    unfolding ks list.map concat.simps take_append diff_min by (rule refl)
  ultimately show ?case
    using g(2) same_frame_trans [OF f(3) g(3)] frame unfolding same by (simp add: append_assoc)
qed

lemma ring_offset_inj:
  fixes i j n :: nat
  assumes "i < 8" "j < 8" "(n + i) mod 8 = (n + j) mod 8"
  shows "i = j"
proof -
  let ?m = "n mod 8"
  have m: "?m < 8" by simp
  have wrap: "(n + k) mod 8 = (if ?m + k < 8 then ?m + k else ?m + k - 8)" if "k < 8" for k
  proof -
    have "(n + k) mod 8 = (?m + k) mod 8" by (simp add: mod_add_left_eq)
    then show ?thesis using m that by (simp add: mod_if [of "?m + k"])
  qed
  show ?thesis using assms(3) m assms(1,2)
    unfolding wrap [OF assms(1)] wrap [OF assms(2)] by (simp split: if_splits)
qed

lemma fill_order_distinct: "distinct (fill_order c P)"
proof -
  have "inj_on (\<lambda>i. RemoteQ p ((unat (ch_numa_node_id c) + i) mod 8)) (set [0..<8])" for p
  proof (rule inj_onI)
    fix x y
    assume "x \<in> set [0..<8]" "y \<in> set [0..<8]"
      "RemoteQ p ((unat (ch_numa_node_id c) + x) mod 8) = RemoteQ p ((unat (ch_numa_node_id c) + y) mod 8)"
    then have "x < 8" "y < 8" "(unat (ch_numa_node_id c) + x) mod 8 = (unat (ch_numa_node_id c) + y) mod 8"
      by simp_all
    then show "x = y" by (rule ring_offset_inj)
  qed
  then have "distinct (map (\<lambda>i. RemoteQ p ((unat (ch_numa_node_id c) + i) mod 8)) [0..<8])" for p
    unfolding distinct_map by (blast intro: distinct_upt)
  moreover have "LocalQ p \<notin> set (map (\<lambda>i. RemoteQ p ((unat (ch_numa_node_id c) + i) mod 8)) [0..<8])" for p
    unfolding set_map by blast
  ultimately show ?thesis unfolding fill_order_def distinct.simps by blast
qed

lemma fill_order_valid: "k \<in> set (fill_order c P) \<Longrightarrow> valid_qid k"
  by (cases P) (auto simp: fill_order_def)

lemma channel_fill_up_to_rep:
  assumes "channel_rep h c cont buf" "length buf + available \<le> 64" "available \<le> 64"
  shows "\<exists>h' c'. channel_fill_up_to tasks P available h c =
      Some (64 - (available - length (backlog c P cont)), h', c') \<and>
    channel_rep h' c' (drain (fill_order c P) available cont) (buf @ take available (backlog c P cont)) \<and>
    same_frame c c' \<and> (\<forall>y. y \<notin> queues_owned c cont (fill_order c P) \<longrightarrow> h' y = h y)"
proof -
  let ?p = "priority_code P" and ?k = "LocalQ (priority_code P)"
  let ?ks = "map (\<lambda>i. RemoteQ ?p ((unat (ch_numa_node_id c) + i) mod 8)) [0..<8]"
  let ?cont = "cont(?k := drop available (cont ?k))"
  have p: "?p < 2" by (cases P) auto
  have order: "fill_order c P = ?k # ?ks" by (simp add: fill_order_def)
  from fill_queue_rep [OF assms(1) _ assms(2), of ?k tasks] p
  obtain h1 c1 where f: "fill_local tasks ?p available h c = Some (min available (length (cont ?k)), h1, c1)"
    "channel_rep h1 c1 ?cont (buf @ take available (cont ?k))" "same_frame c c1"
    "\<forall>y. y \<notin> q_owns c cont ?k \<longrightarrow> h1 y = h y" by auto
  let ?av = "available - min available (length (cont ?k))"
  have numa: "ch_numa_node_id c1 = ch_numa_node_id c" using f(3) by (simp add: same_frame_def)
  have len: "length (buf @ take available (cont ?k)) + ?av \<le> 64" using assms(2) by simp
  have dist: "distinct ?ks" using fill_order_distinct [of c P] by (simp add: order)
  have ks1: "?ks = map (\<lambda>i. RemoteQ ?p ((unat (ch_numa_node_id c1) + i) mod 8)) [0..<8]" using numa by simp
  from fill_remotes_rep [OF f(2) len p ks1 dist]
  obtain h2 c2 where g: "fill_remotes tasks ?p [0..<8] ?av h1 c1 = Some (?av - length (concat (map ?cont ?ks)), h2, c2)"
    "channel_rep h2 c2 (drain ?ks ?av ?cont) ((buf @ take available (cont ?k)) @ take ?av (concat (map ?cont ?ks)))"
    "same_frame c1 c2" "\<forall>y. y \<notin> queues_owned c1 ?cont ?ks \<longrightarrow> h2 y = h1 y" by blast
  have same: "map ?cont ?ks = map cont ?ks" by auto
  have log: "backlog c P cont = cont ?k @ concat (map cont ?ks)" by (simp add: backlog_def order)
  have sub: "queues_owned c1 ?cont ?ks \<subseteq> queues_owned c cont (fill_order c P)"
    by (rule queues_owned_mono [OF f(3)]) (auto simp: order dest: in_set_dropD)
  have own: "q_owns c cont ?k \<subseteq> queues_owned c cont (fill_order c P)"
    by (rule queues_owned_member) (simp add: order)
  have frame: "\<forall>y. y \<notin> queues_owned c cont (fill_order c P) \<longrightarrow> h2 y = h y"
    by (rule frame_trans [OF f(4) g(4) own sub])
  show ?thesis
  proof (cases "?av > 0")
    case True
    have n: "?av - length (concat (map cont ?ks)) = available - length (backlog c P cont)"
      unfolding log length_append diff_min diff_diff_left by (rule refl)
    have t: "take available (backlog c P cont) =
        take available (cont ?k) @ take ?av (concat (map cont ?ks))"
      unfolding log take_append diff_min by (rule refl)
    have "drain (fill_order c P) available cont = drain ?ks ?av ?cont"
      unfolding order drain.simps diff_min by (rule refl)
    moreover have "channel_fill_up_to tasks P available h c =
        Some (64 - (available - length (backlog c P cont)), h2, c2)"
      using f(1) g(1) True unfolding same n by (simp add: channel_fill_up_to_def Let_def del: upt_rec_numeral)
    ultimately show ?thesis
      using g(2) frame same_frame_trans [OF f(3) g(3)] unfolding same t by (simp only: append_assoc) blast
  next
    case False
    then have le: "available \<le> length (cont ?k)" by simp
    have drop0: "drain ks 0 cont' = cont'" for ks cont' by (induction ks arbitrary: cont') auto
    have "\<forall>y. y \<notin> queues_owned c cont (fill_order c P) \<longrightarrow> h1 y = h y"
      using f(4) by (auto simp: queues_owned_def order)
    then show ?thesis
      using f le log by (intro exI [of _ h1] exI [of _ c1])
        (simp add: channel_fill_up_to_def Let_def order drop0)
  qed
qed

subsection \<open>A new channel\<close>

text \<open>
  The constructor; \<open>stub p n\<close> is the address of the dummy item embedded in the remote queue
  of priority \<open>p\<close> and region \<open>n\<close>.
\<close>

definition channel_new ::
  "(nat \<Rightarrow> nat \<Rightarrow> addr) \<Rightarrow> u16 \<Rightarrow> u8 \<Rightarrow> u8 \<Rightarrow> addr links \<Rightarrow> addr links \<times> channel" where
  "channel_new stub ident node distance h =
     (fold (\<lambda>a h. fst (mpsc_new a h)) (concat (map (\<lambda>p. map (stub p) [0..<max_numa_nodes]) [0..<2])) h,
      \<lparr>ch_remote_queues = map (\<lambda>p. map (\<lambda>n. snd (mpsc_new (stub p n) h)) [0..<max_numa_nodes]) [0..<2],
       ch_local_queues = replicate 2 queue_new,
       ch_task_buffer = tb_new distance,
       ch_id = ident, ch_numa_node_id = node, ch_occupancy = occupancy_new\<rparr>)"

lemma fold_mpsc_new: "a \<in> set as \<Longrightarrow> fold (\<lambda>a h. fst (mpsc_new a h)) as h a = None"
  by (induction as rule: rev_induct) (auto simp: mpsc_new_def)

lemma channel_new_rep:
  assumes "channel_new stub ident node distance h = (h', c)" "unat distance \<le> 64"
    "\<And>p n p' n'. p < 2 \<Longrightarrow> n < 8 \<Longrightarrow> p' < 2 \<Longrightarrow> n' < 8 \<Longrightarrow> stub p n = stub p' n' \<Longrightarrow> p = p' \<and> n = n'"
  shows "channel_rep h' c (\<lambda>_. []) []"
proof -
  have h': "h' (stub p n) = None" if "p < 2" "n < 8" for p n
  proof -
    have "stub p n \<in> set (concat (map (\<lambda>p. map (stub p) [0..<8]) [0..<2]))"
      using that unfolding set_concat set_map set_upt by fastforce
    from fold_mpsc_new [OF this, of h] show ?thesis
      using arg_cong [OF assms(1), of fst] unfolding channel_new_def fst_conv max_numa_nodes_def by simp
  qed
  have q: "ch_remote_queues c ! p ! n = \<lparr>mq_head = stub p n, mq_tail = stub p n, mq_end = stub p n\<rparr>"
    if "p < 2" "n < 8" for p n
    using that assms(1) by (auto simp: channel_new_def mpsc_new_def simp del: upt_rec_numeral)
  have l: "ch_local_queues c ! p = queue_new" if "p < 2" for p
    using that assms(1) by (auto simp: channel_new_def)
  have shape: "channel_shape c"
    using assms(1) by (auto simp: channel_new_def channel_shape_def simp del: upt_rec_numeral)
  have holds: "q_holds h' c k []" if "valid_qid k" for k
  proof (cases k)
    case (RemoteQ p n)
    then have "mpsc_rep (h'(stub p n := None)) \<lparr>mq_head = stub p n, mq_tail = stub p n, mq_end = stub p n\<rparr> []"
      using mpsc_new_rep [of "stub p n" h'] by (simp add: mpsc_new_def)
    moreover have "h'(stub p n := None) = h'" using h' RemoteQ that by (auto simp: fun_eq_iff)
    ultimately show ?thesis using q RemoteQ that by simp
  qed (use l queue_rep_new that in auto)
  have disj: "q_owns c (\<lambda>_. []) j \<inter> q_owns c (\<lambda>_. []) k = {}" if "valid_qid j" "valid_qid k" "j \<noteq> k" for j k
    using that q assms(3) by (cases j; cases k) (auto simp: q_owns_def)
  have "tb_rep (ch_task_buffer c) [] \<and> tb_prefetch_distance (ch_task_buffer c) \<le> 64"
    using assms(1,2) tb_new_rep [of distance] by (auto simp: channel_new_def tb_new_def)
  then show ?thesis using shape holds disj by (auto simp: channel_rep_def channel_queues_def)
qed

subsection \<open>Pushing\<close>

text \<open>A task that is in no queue of the channel, nor one of the embedded dummy items.\<close>

definition task_fresh :: "channel \<Rightarrow> (qid \<Rightarrow> addr list) \<Rightarrow> addr \<Rightarrow> bool" where
  "task_fresh c cont a \<longleftrightarrow> (\<forall>k. valid_qid k \<longrightarrow> a \<notin> q_owns c cont k)"

lemma priority_code_bound: "priority_code P < 2"
  by (cases P) auto

lemma channel_queuesD: "channel_queues h c cont \<Longrightarrow> valid_qid k \<Longrightarrow> channel_shape c \<and> q_holds h c k (cont k)"
  by (simp add: channel_queues_def)

lemma push_back_local_rep:
  assumes "channel_rep h c cont buf" "task_fresh c cont a" "push_back_local a t h c = (h', c')"
    "k = LocalQ (priority_code (task_priority t))"
  shows "channel_rep h' c' (cont(k := cont k @ [a])) buf \<and> same_frame c c' \<and>
    (\<forall>y. y \<notin> insert a (q_owns c cont k) \<longrightarrow> h' y = h y)"
proof -
  let ?p = "priority_code (task_priority t)"
  have p: "?p < 2" by (rule priority_code_bound)
  have valid: "valid_qid k" using assms(4) p by simp
  have q: "channel_queues h c cont" using assms(1) by (simp add: channel_rep_def)
  have shape: "channel_shape c" and holds: "queue_rep h (ch_local_queues c ! ?p) (cont k)"
    using channel_queuesD [OF q valid] assms(4) by simp_all
  obtain q' where push: "queue_push_back a h (ch_local_queues c ! ?p) = (h', q')" and c': "c' = set_local ?p q' c"
    using assms(3) by (auto simp: push_back_local_def Let_def split: prod.splits)
  have "a \<notin> set (cont k)" using assms(2) valid by (auto simp: task_fresh_def q_owns_def)
  then have rep: "queue_rep h' q' (cont k @ [a])" using queue_push_back_rep [OF holds _ push] by simp
  note u = set_local_queues [OF shape p, where q = q']
  have "channel_queues h' c' (cont(k := cont k @ [a]))"
    by (rule channel_queues_update [OF q valid, where F = "{a}"])
      (use u rep c' assms(2,4) queue_push_back_frame [OF holds push] in
        \<open>auto simp: task_fresh_def q_owns_def\<close>)
  then show ?thesis
    using assms(1) u(4) c' queue_push_back_frame [OF holds push]
    by (auto simp: channel_rep_def same_frame_def set_local_def q_owns_def)
qed

lemma push_back_remote_rep:
  assumes "channel_rep h c cont buf" "task_fresh c cont a" "node < 8"
    "k = RemoteQ (priority_code (task_priority t)) node"
  shows "\<exists>h' c'. push_back_remote a t node h c = Some (h', c') \<and>
    channel_rep h' c' (cont(k := cont k @ [a])) buf \<and> same_frame c c' \<and>
    (\<forall>y. y \<notin> insert a (q_owns c cont k) \<longrightarrow> h' y = h y)"
proof -
  let ?p = "priority_code (task_priority t)"
  have p: "?p < 2" by (rule priority_code_bound)
  have valid: "valid_qid k" using assms(3,4) p by simp
  have q: "channel_queues h c cont" using assms(1) by (simp add: channel_rep_def)
  let ?q = "ch_remote_queues c ! ?p ! node"
  have shape: "channel_shape c" and holds: "mpsc_rep h ?q (cont k)"
    using channel_queuesD [OF q valid] assms(4) by simp_all
  obtain h' q' where push: "mpsc_push_back a h ?q = (h', q')" by force
  have fresh: "a \<notin> insert (mq_end ?q) (set (cont k))"
    using assms(2) valid unfolding task_fresh_def q_owns_def assms(4) by fastforce
  have rep: "mpsc_rep h' q' (cont k @ [a])" "mq_end q' = mq_end ?q"
    using mpsc_push_back_rep [OF holds fresh push] by simp_all
  note u = set_remote_queues [OF shape p assms(3), where q = q']
  have queues: "channel_queues h' (set_remote ?p node q' c) (cont(k := cont k @ [a]))"
    by (rule channel_queues_update [OF q valid, where F = "{a}"])
      (use u rep assms(2,4) mpsc_push_back_frame [OF holds push] in
        \<open>auto simp: task_fresh_def q_owns_def\<close>)
  have "length (ch_remote_queues c ! ?p) = 8" using shape p by (simp add: channel_shape_def)
  then have "push_back_remote a t node h c = Some (h', set_remote ?p node q' c)"
    using push assms(3) by (simp add: push_back_remote_def arr_get_def)
  then show ?thesis
    using queues assms(1,4) u(4) rep(2) mpsc_push_back_frame [OF holds push]
    by (auto simp: channel_rep_def same_frame_def set_remote_def q_owns_def)
qed

lemma channel_rep_cong:
  assumes "channel_rep h c cont buf" "\<And>k y. valid_qid k \<Longrightarrow> y \<in> q_owns c cont k \<Longrightarrow> h' y = h y"
  shows "channel_rep h' c cont buf"
proof -
  have "q_holds h' c k (cont k)" if "valid_qid k" for k
    by (rule q_holds_cong [of h]) (use assms that in \<open>auto simp: channel_rep_def channel_queues_def q_owns_def\<close>)
  then show ?thesis using assms(1) by (simp add: channel_rep_def channel_queues_def)
qed

subsection \<open>Properties\<close>

lemma backlog_drain:
  assumes "same_frame c c'"
  shows "backlog c' P (drain (fill_order c P) n cont) = drop n (backlog c P cont)"
    "P \<noteq> Q \<Longrightarrow> backlog c' Q (drain (fill_order c P) n cont) = backlog c Q cont"
proof -
  have o: "fill_order c' R = fill_order c R" for R
    using assms by (simp add: same_frame_def fill_order_def)
  show "backlog c' P (drain (fill_order c P) n cont) = drop n (backlog c P cont)"
    unfolding backlog_def o by (rule drain_concat [OF fill_order_distinct])
  assume "P \<noteq> Q"
  then have codes: "priority_code P \<noteq> priority_code Q" by (cases P; cases Q) auto
  have "drain (fill_order c P) n cont k = cont k" if "k \<in> set (fill_order c Q)" for k
  proof (rule drain_other)
    show "k \<notin> set (fill_order c P)"
      using that codes by (auto simp: fill_order_def simp del: upt_rec_numeral)
  qed
  then have "map (drain (fill_order c P) n cont) (fill_order c Q) = map cont (fill_order c Q)"
    by (rule map_cong [OF refl])
  then show "backlog c' Q (drain (fill_order c P) n cont) = backlog c Q cont"
    unfolding backlog_def o by (rule arg_cong)
qed

text \<open>The contents of a channel after Channel::fill.\<close>

definition filled_buffer :: "channel \<Rightarrow> (qid \<Rightarrow> addr list) \<Rightarrow> addr list \<Rightarrow> addr list" where
  "filled_buffer c cont buf =
     (if buf @ backlog c PriorityNormal cont = [] then take 64 (backlog c PriorityLow cont)
      else buf @ take (64 - length buf) (backlog c PriorityNormal cont))"

lemma same_frame_owns:
  "same_frame c c' \<Longrightarrow> (\<And>k. set (cont' k) \<subseteq> set (cont k)) \<Longrightarrow> q_owns c' cont' k \<subseteq> q_owns c cont k"
  unfolding q_owns_def same_frame_def by blast

lemma channel_fill_rep:
  assumes "channel_rep h c cont buf" "length buf < 64"
  shows "\<exists>h' c' cont'. channel_fill tasks h c = Some (length (filled_buffer c cont buf), h', c') \<and>
    channel_rep h' c' cont' (filled_buffer c cont buf) \<and> same_frame c c' \<and>
    (\<forall>k. set (cont' k) \<subseteq> set (cont k)) \<and>
    (\<forall>y. (\<forall>k. valid_qid k \<longrightarrow> y \<notin> q_owns c cont k) \<longrightarrow> h' y = h y) \<and>
    backlog c' PriorityNormal cont' = drop (64 - length buf) (backlog c PriorityNormal cont) \<and>
    backlog c' PriorityLow cont' = (if buf @ backlog c PriorityNormal cont = []
       then drop 64 (backlog c PriorityLow cont) else backlog c PriorityLow cont)"
proof -
  let ?N = "backlog c PriorityNormal cont" and ?L = "backlog c PriorityLow cont"
  let ?n = "64 - length buf"
  have owned: "y \<notin> queues_owned c cont (fill_order c P)" if "\<forall>k. valid_qid k \<longrightarrow> y \<notin> q_owns c cont k" for y P
    using that fill_order_valid [of _ c P] by (auto simp: queues_owned_def)
  have b: "tb_rep (ch_task_buffer c) buf" using assms(1) by (simp add: channel_rep_def)
  then have av: "tb_available_slots (ch_task_buffer c) = ?n" using assms(2) by (simp add: tb_available_rep)
  have len: "length buf + ?n \<le> 64" "?n \<le> 64" using assms(2) by simp_all
  obtain h1 c1 where f: "channel_fill_up_to tasks PriorityNormal ?n h c = Some (64 - (?n - length ?N), h1, c1)"
    "channel_rep h1 c1 (drain (fill_order c PriorityNormal) ?n cont) (buf @ take ?n ?N)" "same_frame c c1"
    "\<forall>y. y \<notin> queues_owned c cont (fill_order c PriorityNormal) \<longrightarrow> h1 y = h y"
    using channel_fill_up_to_rep [OF assms(1) len, of tasks PriorityNormal] by blast
  have e: "tb_empty (ch_task_buffer c1) = (buf @ take ?n ?N = [])"
    using f(2) by (auto simp: channel_rep_def dest: tb_empty_rep)
  have size: "64 - (?n - length ?N) = length (buf @ take ?n ?N)" using assms(2) by (simp add: min_def)
  note rest = backlog_drain [OF f(3), where P = PriorityNormal and n = ?n and cont = cont]
  let ?cont = "drain (fill_order c PriorityNormal) ?n cont"
  show ?thesis
  proof (cases "buf @ ?N = []")
    case False
    then have "buf @ take ?n ?N \<noteq> []" using assms(2) by auto
    then have "channel_fill tasks h c = Some (length (filled_buffer c cont buf), h1, c1)"
      using f(1) e size False by (auto simp: channel_fill_def av filled_buffer_def)
    moreover have "filled_buffer c cont buf = buf @ take ?n ?N" using False by (auto simp: filled_buffer_def)
    ultimately show ?thesis
      using f rest False drain_subset owned by (intro exI [of _ h1] exI [of _ c1] exI [of _ ?cont]) auto
  next
    case True
    have empty: "buf @ take ?n ?N = []" and log: "backlog c1 PriorityLow ?cont = ?L"
      using True rest(2) by simp_all
    with f(2) have r1: "channel_rep h1 c1 ?cont []" by simp
    let ?cont2 = "drain (fill_order c1 PriorityLow) 64 ?cont"
    from channel_fill_up_to_rep [OF r1, of 64 tasks PriorityLow] log
    obtain h2 c2 where g: "channel_fill_up_to tasks PriorityLow 64 h1 c1 = Some (64 - (64 - length ?L), h2, c2)"
      "channel_rep h2 c2 ?cont2 (take 64 ?L)" "same_frame c1 c2"
      "\<forall>y. y \<notin> queues_owned c1 ?cont (fill_order c1 PriorityLow) \<longrightarrow> h2 y = h1 y" by auto
    note rest2 = backlog_drain [OF g(3), where P = PriorityLow and n = 64 and cont = ?cont]
    have frame: "h2 y = h y" if y: "\<forall>k. valid_qid k \<longrightarrow> y \<notin> q_owns c cont k" for y
    proof -
      have "y \<notin> q_owns c1 ?cont k" if "valid_qid k" for k
        using y that same_frame_owns [OF f(3), of ?cont cont k] drain_subset by blast
      then have "y \<notin> queues_owned c1 ?cont (fill_order c1 PriorityLow)"
        using fill_order_valid [of _ c1 PriorityLow] by (auto simp: queues_owned_def)
      then show ?thesis using g(4) f(4) owned [OF y] by simp
    qed
    have sub: "set (?cont2 k) \<subseteq> set (cont k)" for k
      using drain_subset [of "fill_order c1 PriorityLow" 64 ?cont k] drain_subset [of _ ?n cont k] by blast
    have buf: "filled_buffer c cont buf = take 64 ?L" using True by (simp add: filled_buffer_def)
    have "64 - (64 - length ?L) = length (take 64 ?L)" by (simp add: min_def)
    then have "channel_fill tasks h c = Some (length (filled_buffer c cont buf), h2, c2)"
      using f(1) g(1) e empty buf by (simp add: channel_fill_def av)
    moreover have "backlog c2 PriorityNormal ?cont2 = drop ?n ?N" using rest2(2) rest(1) by simp
    moreover have "backlog c2 PriorityLow ?cont2 = drop 64 ?L" using rest2(1) log by simp
    ultimately show ?thesis
      using g(2) True buf frame sub same_frame_trans [OF f(3) g(3)]
      by (intro exI [of _ h2] exI [of _ c2] exI [of _ ?cont2]) simp
  qed
qed

text \<open>All tasks of a channel, wherever they wait.\<close>

definition channel_waiting :: "(qid \<Rightarrow> addr list) \<Rightarrow> addr list \<Rightarrow> addr multiset" where
  "channel_waiting cont buf = mset buf + (\<Sum>k \<in> {k. valid_qid k}. mset (cont k))"

lemma ring_offset_onto:
  assumes "m < 8"
  shows "\<exists>i < 8. ((n :: nat) + i) mod 8 = m"
proof -
  let ?r = "n mod 8"
  have r: "?r < 8" by simp
  have "(?r + (m + 8 - ?r)) mod 8 = m"
    using le_add_diff_inverse [of ?r "m + 8"] r assms by (simp del: add_diff_assoc diff_add_assoc)
  then have "(n + (m + 8 - ?r) mod 8) mod 8 = m" by (simp only: mod_add_right_eq mod_add_left_eq)
  moreover have "(m + 8 - ?r) mod 8 < 8" by (rule mod_less_divisor) simp
  ultimately show ?thesis by blast
qed

lemma fill_order_set:
  "set (fill_order c P) = insert (LocalQ (priority_code P)) (RemoteQ (priority_code P) ` {..<8})"
proof -
  let ?n = "unat (ch_numa_node_id c)"
  have "(\<lambda>i. RemoteQ p ((?n + i) mod 8)) ` {0..<8} = RemoteQ p ` {..<8}" for p
  proof (intro equalityI subsetI)
    fix k
    assume "k \<in> (\<lambda>i. RemoteQ p ((?n + i) mod 8)) ` {0..<8}"
    then obtain i where "k = RemoteQ p ((?n + i) mod 8)" by blast
    then show "k \<in> RemoteQ p ` {..<8}" by simp
  next
    fix k
    assume "k \<in> RemoteQ p ` {..<8}"
    then obtain m where m: "m < 8" "k = RemoteQ p m" by blast
    then obtain i where "i < 8" "(?n + i) mod 8 = m" using ring_offset_onto by blast
    then have "i \<in> {0..<8}" "k = RemoteQ p ((?n + i) mod 8)" using m(2) by simp_all
    then show "k \<in> (\<lambda>i. RemoteQ p ((?n + i) mod 8)) ` {0..<8}" by blast
  qed
  then show ?thesis unfolding fill_order_def list.set set_map set_upt by simp
qed

lemma valid_qids:
  "{k. valid_qid k} = set (fill_order c PriorityNormal) \<union> set (fill_order c PriorityLow)"
  "set (fill_order c PriorityNormal) \<inter> set (fill_order c PriorityLow) = {}"
proof -
  have "valid_qid k \<longleftrightarrow> k \<in> set (fill_order c PriorityNormal) \<union> set (fill_order c PriorityLow)" for k
    by (cases k) (auto simp: fill_order_set less_2_cases_iff)
  then show "{k. valid_qid k} = set (fill_order c PriorityNormal) \<union> set (fill_order c PriorityLow)" by blast
  show "set (fill_order c PriorityNormal) \<inter> set (fill_order c PriorityLow) = {}"
    by (auto simp: fill_order_set)
qed

lemma mset_concat_distinct: "distinct ks \<Longrightarrow> mset (concat (map f ks)) = (\<Sum>k \<in> set ks. mset (f k))"
  by (induction ks) auto

lemma channel_waiting_backlog:
  "channel_waiting cont buf = mset buf + mset (backlog c PriorityNormal cont) + mset (backlog c PriorityLow cont)"
proof -
  have "(\<Sum>k \<in> {k. valid_qid k}. mset (cont k)) =
      (\<Sum>k \<in> set (fill_order c PriorityNormal). mset (cont k)) + (\<Sum>k \<in> set (fill_order c PriorityLow). mset (cont k))"
    unfolding valid_qids(1) [of c] by (rule sum.union_disjoint) (simp_all add: valid_qids(2))
  then show ?thesis
    unfolding channel_waiting_def backlog_def mset_concat_distinct [OF fill_order_distinct] by (simp add: add.assoc)
qed

lemma channel_waiting_push:
  assumes "valid_qid k"
  shows "channel_waiting (cont(k := cont k @ [a])) buf = channel_waiting cont buf + {#a#}"
proof -
  have fin: "finite {k. valid_qid k}" unfolding valid_qids(1) [of undefined] by simp
  have "(\<Sum>j \<in> {k. valid_qid k} - {k}. mset ((cont(k := cont k @ [a])) j)) =
      (\<Sum>j \<in> {k. valid_qid k} - {k}. mset (cont j))" by (rule sum.cong) auto
  then show ?thesis
    using assms sum.remove [OF fin, of k "\<lambda>j. mset ((cont(k := cont k @ [a])) j)"]
      sum.remove [OF fin, of k "\<lambda>j. mset (cont j)"]
    by (simp add: channel_waiting_def)
qed

lemma mset_take_drop: "mset (take n xs) + mset (drop n xs) = mset xs"
  by (simp flip: mset_append)

lemma channel_waiting_fill:
  assumes "backlog c' PriorityNormal cont' = drop (64 - length buf) (backlog c PriorityNormal cont)"
    "backlog c' PriorityLow cont' = (if buf @ backlog c PriorityNormal cont = []
       then drop 64 (backlog c PriorityLow cont) else backlog c PriorityLow cont)"
  shows "channel_waiting cont' (filled_buffer c cont buf) = channel_waiting cont buf"
proof -
  note N = mset_take_drop [of "64 - length buf" "backlog c PriorityNormal cont"]
  note L = mset_take_drop [of 64 "backlog c PriorityLow cont"]
  show ?thesis
  proof (cases "buf @ backlog c PriorityNormal cont = []")
    case True
    then show ?thesis
      unfolding channel_waiting_backlog [of cont' _ c'] channel_waiting_backlog [of cont _ c] assms
      using L by (simp add: filled_buffer_def)
  next
    case False
    then have "filled_buffer c cont buf = buf @ take (64 - length buf) (backlog c PriorityNormal cont)"
      by (auto simp: filled_buffer_def)
    then have "channel_waiting cont' (filled_buffer c cont buf) =
        mset buf + (mset (take (64 - length buf) (backlog c PriorityNormal cont)) +
          mset (drop (64 - length buf) (backlog c PriorityNormal cont))) + mset (backlog c PriorityLow cont)"
      unfolding channel_waiting_backlog [of cont' _ c'] assms if_not_P [OF False] by (simp add: add.assoc)
    then show ?thesis unfolding N channel_waiting_backlog [of cont _ c] .
  qed
qed

lemma channel_next_rep:
  assumes "channel_rep h c cont buf" "channel_next c = (r, lines, c')"
  shows "r = (if buf = [] then None else Some (hd buf)) \<and> channel_rep h c' cont (tl buf) \<and> same_frame c c'"
proof -
  obtain b where b: "tb_next (ch_task_buffer c) = (r, lines, b)" and c': "c' = c\<lparr>ch_task_buffer := b\<rparr>"
    using assms(2) by (auto simp: channel_next_def split: prod.splits)
  have "tb_prefetch_distance b = tb_prefetch_distance (ch_task_buffer c)"
    using b by (auto simp: tb_next_def Let_def split: option.splits prod.splits)
  moreover have "channel_queues h c' cont" 
    using assms(1) unfolding c' channel_rep_def channel_queues_def q_owns_def by (simp add: buffer_update_queues)
  ultimately show ?thesis
    using tb_next_rep [OF _ b] assms(1) unfolding c' channel_rep_def same_frame_def
    by (simp add: buffer_update_queues)
qed

text \<open>
  C20: Channel::fill. When the buffer is not full, it takes tasks of normal priority in the
  order local queue, then the remote queues beginning with that of the channel's NUMA region,
  each in FIFO order, up to the free slots; tasks of low priority are taken in the same way,
  but only if no task of normal priority is waiting or buffered. The result is the number of
  tasks in the buffer, and every task not taken stays queued in its order.
\<close>

theorem channel_fill_takes_tasks_in_order:
  assumes "channel_rep h c cont buf" "length buf < task_buffer_size"
  shows "\<exists>h' c' cont' buf'. channel_fill tasks h c = Some (length buf', h', c') \<and>
    channel_rep h' c' cont' buf' \<and>
    buf' = (if buf @ backlog c PriorityNormal cont = [] then take task_buffer_size (backlog c PriorityLow cont)
            else buf @ take (task_buffer_size - length buf) (backlog c PriorityNormal cont)) \<and>
    backlog c' PriorityNormal cont' = drop (task_buffer_size - length buf) (backlog c PriorityNormal cont) \<and>
    backlog c' PriorityLow cont' = (if buf @ backlog c PriorityNormal cont = []
       then drop task_buffer_size (backlog c PriorityLow cont) else backlog c PriorityLow cont)"
proof -
  have "length buf < 64" using assms(2) by simp
  from channel_fill_rep [OF assms(1) this, of tasks] show ?thesis
    unfolding task_buffer_size_def filled_buffer_def [symmetric] by blast
qed

text \<open>
  Scheduling a task to a channel, from the owning worker (push_back_local) or from
  another one (push_back_remote with a valid NUMA region), appends it to exactly the queue of
  its priority (and region); the order of all tasks already waiting, the task buffer and the
  other queues are unchanged.
\<close>

theorem push_back_appends_to_one_queue:
  assumes "channel_rep h c cont buf" "task_fresh c cont a" "node < max_numa_nodes"
  shows "\<exists>hl cl hr cr. push_back_local a t h c = (hl, cl) \<and>
    (let k = LocalQ (priority_code (task_priority t)) in channel_rep hl cl (cont(k := cont k @ [a])) buf) \<and>
    push_back_remote a t node h c = Some (hr, cr) \<and>
    (let k = RemoteQ (priority_code (task_priority t)) node in channel_rep hr cr (cont(k := cont k @ [a])) buf)"
proof -
  obtain hl cl where "push_back_local a t h c = (hl, cl)" by force
  then show ?thesis
    using push_back_local_rep [OF assms(1,2), of t hl cl]
      push_back_remote_rep [OF assms(1,2), of node _ t] assms(3) unfolding Let_def by fastforce
qed

definition demo_channel :: "addr links \<times> channel" where
  "demo_channel = channel_new (\<lambda>p n. 8 * p + n) 0 1 4 (\<lambda>_. None)"

lemma demo_channel_rep: "channel_rep (fst demo_channel) (snd demo_channel) (\<lambda>_. []) []"
proof -
  have "p = p' \<and> n = n'" if "n < 8" "n' < 8" "8 * p + n = 8 * p' + n'" for p n p' n' :: nat
    using that by presburger
  then show ?thesis
    unfolding demo_channel_def
    by (intro channel_new_rep [where stub = "\<lambda>p n. 8 * p + n", OF prod.collapse [symmetric]]) auto
qed

lemma demo_channel_fresh: "100 \<le> a \<Longrightarrow> task_fresh (snd demo_channel) (\<lambda>_. []) a"
proof -
  assume a: "100 \<le> a"
  have "mq_end (ch_remote_queues (snd demo_channel) ! p ! n) = 8 * p + n" if "p < 2" "n < 8" for p n
    using that by (auto simp: demo_channel_def channel_new_def mpsc_new_def simp del: upt_rec_numeral)
  then have "a \<notin> q_owns (snd demo_channel) (\<lambda>_. []) k" if "valid_qid k" for k
    using a that by (cases k) (auto simp: q_owns_def)
  then show ?thesis by (simp add: task_fresh_def)
qed

theorem push_back_appends_to_one_queue_witness:
  "\<exists>hl cl. push_back_local 100 task_default (fst demo_channel) (snd demo_channel) = (hl, cl) \<and>
     channel_rep hl cl ((\<lambda>_. [])(LocalQ 1 := [100])) []"
  using push_back_appends_to_one_queue [OF demo_channel_rep demo_channel_fresh, of 100 3 task_default]
  by (auto simp: Let_def task_default_def)

theorem channel_fill_takes_tasks_in_order_witness:
  "\<exists>h c h' c'. push_back_local 100 task_default (fst demo_channel) (snd demo_channel) = (h, c) \<and>
     channel_fill (\<lambda>_. task_default) h c = Some (1, h', c') \<and> \<not> channel_empty c'"
proof -
  obtain h c where p: "push_back_local 100 task_default (fst demo_channel) (snd demo_channel) = (h, c)" by force
  let ?cont = "(\<lambda>_. [])(LocalQ 1 := [100 :: nat])"
  have r: "channel_rep h c ?cont []"
    using push_back_local_rep [OF demo_channel_rep demo_channel_fresh p] by (simp add: task_default_def)
  have "backlog c PriorityNormal ?cont = [100]"
    by (simp add: backlog_def fill_order_def comp_def)
  then obtain h' c' cont' where "channel_fill (\<lambda>_. task_default) h c = Some (1, h', c')"
      "channel_rep h' c' cont' [100]"
    using channel_fill_takes_tasks_in_order [OF r, of "\<lambda>_. task_default"] by auto
  moreover from this have "\<not> channel_empty c'"
    by (auto simp: channel_rep_def channel_empty_def dest: tb_empty_rep)
  ultimately show ?thesis using p by blast
qed

text \<open>
  The predictions a channel has counted: one counter per frequency class.
\<close>

definition usage_counts :: "channel \<Rightarrow> access_frequency list \<Rightarrow> bool" where
  "usage_counts c fs \<longleftrightarrow> length (ch_occupancy c) = 4 \<and>
     (\<forall>f. unat (ch_occupancy c ! frequency_code f) = count_list fs f)"

lemma frequency_code_less: "frequency_code f < 4"
  by (cases f) auto

lemma count_list_remove1: "count_list (remove1 x xs) y = count_list xs y - (if x = y \<and> x \<in> set xs then 1 else 0)"
  by (induction xs) (auto simp: count_list_0_iff)

lemma count_list_pos: "x \<in> set xs \<longleftrightarrow> 0 < count_list xs x"
  using count_list_0_iff [of xs x] by auto

lemma has_at_least_one_iff: "usage_counts c fs \<Longrightarrow> has_at_least_one f (ch_occupancy c) \<longleftrightarrow> f \<in> set fs"
  unfolding has_at_least_one_def usage_counts_def count_list_pos by (metis unat_gt_0 word_gt_0)

lemma list_with_member: "x \<in> set xs \<Longrightarrow> xs \<noteq> []"
  by auto

text \<open>The class that is predicted is the smallest enumerator among the predictions, the most frequent access.\<close>

lemma occupancy_frequency_Min:
  assumes "usage_counts c fs" "fs \<noteq> []"
  shows "occupancy_frequency (ch_occupancy c) = Min (set fs)"
proof (rule Min_eqI [symmetric])
  have first: "hd fs \<in> set fs" using assms(2) by simp
  show "occupancy_frequency (ch_occupancy c) \<in> set fs"
    by (cases "hd fs") (use first in \<open>simp_all add: occupancy_frequency_def has_at_least_one_iff [OF assms(1)]\<close>)
  show "occupancy_frequency (ch_occupancy c) \<le> g" if "g \<in> set fs" for g
    by (cases g) (use that in \<open>simp_all add: occupancy_frequency_def has_at_least_one_iff [OF assms(1)] less_eq_access_frequency_def\<close>)
qed simp

lemma usage_counts_predict:
  assumes "usage_counts c fs" "length fs < 2 ^ 64 - 1"
  shows "usage_counts (c\<lparr>ch_occupancy := occupancy_predict f (ch_occupancy c)\<rparr>) (f # fs)"
proof -
  let ?o = "ch_occupancy c"
  have l: "frequency_code f < length ?o" and u: "unat (?o ! frequency_code g) = count_list fs g" for g
    using assms(1) frequency_code_less [of f] by (simp_all add: usage_counts_def)
  have "count_list fs f \<le> length fs" by (rule count_le_length)
  then have "unat (?o ! frequency_code f + 1) = Suc (count_list fs f)"
    using assms(2) u [of f] by (simp add: unat_word_ariths)
  then show ?thesis
    using assms(1) l u unfolding usage_counts_def occupancy_predict_def
    by (simp add: nth_list_update frequency_code_inj)
qed

lemma usage_counts_revoke:
  assumes "usage_counts c fs" "f \<in> set fs"
  shows "usage_counts (c\<lparr>ch_occupancy := occupancy_revoke f (ch_occupancy c)\<rparr>) (remove1 f fs)"
proof -
  let ?o = "ch_occupancy c"
  have l: "frequency_code f < length ?o" and u: "unat (?o ! frequency_code g) = count_list fs g" for g
    using assms(1) frequency_code_less [of f] by (simp_all add: usage_counts_def)
  have "?o ! frequency_code f \<noteq> 0" using u [of f] assms(2) count_list_pos [of f fs] by auto
  then have "unat (?o ! frequency_code f - 1) = count_list fs f - 1"
    using u [of f] by (simp add: unat_minus_one)
  then show ?thesis
    using assms l u unfolding usage_counts_def occupancy_revoke_def
    by (simp add: nth_list_update frequency_code_inj count_list_remove1)
qed

text \<open>
  The usage predictions of a channel are counted without loss while there are fewer than
  2^64: a new prediction is added, a modified one replaces one old prediction, and the usage
  predicted for the channel is the most frequent class among its predictions.
\<close>

lemma channel_usage_prediction:
  assumes "usage_counts c fs" "length fs < 2 ^ 64 - 1" "old \<in> set fs"
  shows "usage_counts (predict_usage new c) (new # fs) \<and>
    usage_counts (modify_predicted_usage old new c) (new # remove1 old fs) \<and>
    has_excessive_usage_prediction c = (Excessive \<in> set fs) \<and>
    predicted_usage c = Min (set fs)"
proof -
  have "length (remove1 old fs) < 2 ^ 64 - 1" using assms(2) by (auto simp: length_remove1)
  from usage_counts_predict [OF usage_counts_revoke [OF assms(1,3)] this, of new]
  have "usage_counts (modify_predicted_usage old new c) (new # remove1 old fs)"
    by (simp add: modify_predicted_usage_def)
  moreover have "usage_counts (predict_usage new c) (new # fs)"
    using usage_counts_predict [OF assms(1,2)] by (simp add: predict_usage_def)
  moreover have "predicted_usage c = Min (set fs)"
    using occupancy_frequency_Min [OF assms(1) list_with_member [OF assms(3)]] by (simp add: predicted_usage_def)
  ultimately show ?thesis
    by (simp add: has_excessive_usage_prediction_def occupancy_has_excessive_def has_at_least_one_iff [OF assms(1)])
qed

end
