(* ===== verification/CoreSet.thy ===== *)
theory CoreSet
  imports MxPrelude
begin

section \<open>Core sets\<close>

text \<open>
  mx/util/core_set.h and mx/util/core_set.cpp. The topology of the machine (number of cores,
  NUMA region of a core) belongs to the operating system: \<open>count_cores\<close> and \<open>node_of\<close> are
  parameters. The core identifiers are an array of 128 entries, the NUMA regions a bit set
  of 8; an access outside of them has no result.
\<close>

definition max_cores :: nat where
  [simp]: "max_cores = 128"

record core_set =
  cs_core_identifier :: "nat list"
  cs_size :: nat
  cs_numa_nodes :: "bool list"

datatype core_order = Ascending | NUMAAware

definition core_set_new :: core_set where
  "core_set_new = \<lparr>cs_core_identifier = replicate max_cores 0, cs_size = 0,
     cs_numa_nodes = replicate 8 False\<rparr>"

definition emplace_back :: "(nat \<Rightarrow> nat) \<Rightarrow> nat \<Rightarrow> core_set \<Rightarrow> core_set option" where
  "emplace_back node_of c s =
     do {
       ids \<leftarrow> arr_set (cs_core_identifier s) (cs_size s) c;
       nodes \<leftarrow> arr_set (cs_numa_nodes s) (node_of c) True;
       Some \<lparr>cs_core_identifier = ids, cs_size = cs_size s + 1, cs_numa_nodes = nodes\<rparr>
     }"

fun emplace_all :: "(nat \<Rightarrow> nat) \<Rightarrow> nat list \<Rightarrow> core_set \<Rightarrow> core_set option" where
  "emplace_all node_of [] s = Some s"
| "emplace_all node_of (c # cs) s = do { s' \<leftarrow> emplace_back node_of c s; emplace_all node_of cs s' }"

definition core_set_of :: "(nat \<Rightarrow> nat) \<Rightarrow> nat list \<Rightarrow> core_set option" where
  "core_set_of node_of ids = emplace_all node_of ids core_set_new"

definition core_at :: "core_set \<Rightarrow> nat \<Rightarrow> nat option" where
  "core_at s i = arr_get (cs_core_identifier s) i"

definition core_front :: "core_set \<Rightarrow> nat" where
  "core_front s = hd (cs_core_identifier s)"

definition core_back :: "core_set \<Rightarrow> nat" where
  "core_back s = last (cs_core_identifier s)"

definition core_numa_nodes :: "core_set \<Rightarrow> nat" where
  "core_numa_nodes s = length (filter id (cs_numa_nodes s))"

definition core_numa_node_id :: "(nat \<Rightarrow> nat) \<Rightarrow> core_set \<Rightarrow> nat \<Rightarrow> nat option" where
  "core_numa_node_id node_of s i = map_option node_of (core_at s i)"

definition max_core_id :: "core_set \<Rightarrow> nat" where
  "max_core_id s = fold max (take (cs_size s) (cs_core_identifier s)) 0"

definition has_core_of_numa_node :: "core_set \<Rightarrow> nat \<Rightarrow> bool option" where
  "has_core_of_numa_node s n = arr_get (cs_numa_nodes s) n"

definition core_set_eq :: "core_set \<Rightarrow> core_set \<Rightarrow> bool" where
  "core_set_eq s t \<longleftrightarrow> cs_core_identifier s = cs_core_identifier t \<and> cs_size s = cs_size t \<and>
     cs_numa_nodes s = cs_numa_nodes t"

text \<open>The comparison of the NUMA-aware order; sorting with it is the library's sort.\<close>

definition numa_less :: "(nat \<Rightarrow> nat) \<Rightarrow> nat \<Rightarrow> nat \<Rightarrow> bool" where
  "numa_less node_of left right =
     (if node_of left = node_of right then left < right else node_of left < node_of right)"

fun insert_by :: "('a \<Rightarrow> 'a \<Rightarrow> bool) \<Rightarrow> 'a \<Rightarrow> 'a list \<Rightarrow> 'a list" where
  "insert_by lt x [] = [x]"
| "insert_by lt x (y # ys) = (if lt y x then y # insert_by lt x ys else x # y # ys)"

definition sort_by :: "('a \<Rightarrow> 'a \<Rightarrow> bool) \<Rightarrow> 'a list \<Rightarrow> 'a list" where
  "sort_by lt xs = foldr (insert_by lt) xs []"

definition core_set_build :: "(nat \<Rightarrow> nat) \<Rightarrow> nat \<Rightarrow> nat \<Rightarrow> core_order \<Rightarrow> core_set option" where
  "core_set_build node_of count_cores cores order =
     (let n = min cores (min max_cores count_cores) in
      case order of
        Ascending \<Rightarrow> emplace_all node_of [0..<n] core_set_new
      | NUMAAware \<Rightarrow>
          emplace_all node_of (take n (sort_by (numa_less node_of) [0..<count_cores])) core_set_new)"

subsection \<open>Lemmas\<close>

lemma emplace_all_Some:
  assumes "cs_size s + length cs \<le> length (cs_core_identifier s)" "length (cs_numa_nodes s) = 8"
    "\<And>c. c \<in> set cs \<Longrightarrow> node_of c < 8"
  shows "\<exists>s'. emplace_all node_of cs s = Some s' \<and> cs_size s' = cs_size s + length cs \<and>
    length (cs_core_identifier s') = length (cs_core_identifier s) \<and> length (cs_numa_nodes s') = 8 \<and>
    take (cs_size s') (cs_core_identifier s') = take (cs_size s) (cs_core_identifier s) @ cs \<and>
    (\<forall>n < 8. cs_numa_nodes s' ! n \<longleftrightarrow> cs_numa_nodes s ! n \<or> n \<in> node_of ` set cs)"
  using assms
proof (induction cs arbitrary: s)
  case (Cons c cs)
  let ?s = "\<lparr>cs_core_identifier = (cs_core_identifier s)[cs_size s := c], cs_size = cs_size s + 1,
    cs_numa_nodes = (cs_numa_nodes s)[node_of c := True]\<rparr>"
  have bounds: "cs_size s < length (cs_core_identifier s)" "node_of c < length (cs_numa_nodes s)"
    using Cons.prems by auto
  then have step: "emplace_back node_of c s = Some ?s"
    by (simp add: emplace_back_def arr_set_def)
  have take: "take (cs_size s + 1) ((cs_core_identifier s)[cs_size s := c]) =
      take (cs_size s) (cs_core_identifier s) @ [c]"
    using bounds(1) by (simp add: take_Suc_conv_app_nth)
  have "cs_size ?s + length cs \<le> length (cs_core_identifier ?s)" "length (cs_numa_nodes ?s) = 8"
    "\<And>c. c \<in> set cs \<Longrightarrow> node_of c < 8" using Cons.prems by auto
  from Cons.IH [OF this] obtain s' where s': "emplace_all node_of cs ?s = Some s'"
    "cs_size s' = cs_size ?s + length cs"
    "length (cs_core_identifier s') = length (cs_core_identifier ?s)" "length (cs_numa_nodes s') = 8"
    "take (cs_size s') (cs_core_identifier s') = take (cs_size ?s) (cs_core_identifier ?s) @ cs"
    "\<forall>n < 8. cs_numa_nodes s' ! n \<longleftrightarrow> cs_numa_nodes ?s ! n \<or> n \<in> node_of ` set cs" by blast
  have "\<forall>n < 8. cs_numa_nodes s' ! n \<longleftrightarrow> cs_numa_nodes s ! n \<or> n \<in> node_of ` set (c # cs)"
    using s'(6) Cons.prems(2) bounds(2) by (simp add: nth_list_update)
  then show ?case using s' step take by auto
qed auto

lemma core_set_of_Some:
  assumes "length cs \<le> 128" "\<And>c. c \<in> set cs \<Longrightarrow> node_of c < 8"
  shows "\<exists>s. core_set_of node_of cs = Some s \<and> cs_size s = length cs \<and>
    take (cs_size s) (cs_core_identifier s) = cs \<and>
    (\<forall>n < 8. cs_numa_nodes s ! n \<longleftrightarrow> n \<in> node_of ` set cs)"
proof -
  have "cs_size core_set_new + length cs \<le> length (cs_core_identifier core_set_new)"
    "length (cs_numa_nodes core_set_new) = 8" "cs_size core_set_new = 0"
    "\<And>n. n < 8 \<Longrightarrow> \<not> cs_numa_nodes core_set_new ! n"
    using assms(1) by (simp_all add: core_set_new_def)
  then show ?thesis
    using emplace_all_Some [of core_set_new cs node_of] assms(2) unfolding core_set_of_def by fastforce
qed

lemma set_insert_by: "set (insert_by lt x xs) = insert x (set xs)"
  by (induction xs) auto

lemma distinct_insert_by: "distinct (insert_by lt x xs) \<longleftrightarrow> x \<notin> set xs \<and> distinct xs"
  by (induction xs) (auto simp: set_insert_by)

lemma length_insert_by: "length (insert_by lt x xs) = Suc (length xs)"
  by (induction xs) auto

lemma sort_by_basic:
  "set (sort_by lt xs) = set xs" "distinct (sort_by lt xs) = distinct xs"
  "length (sort_by lt xs) = length xs"
  by (induction xs) (auto simp: sort_by_def set_insert_by distinct_insert_by length_insert_by)

lemma sorted_insert_by:
  assumes "sorted_wrt lt xs" "x \<notin> set xs" "\<And>a b. a \<noteq> b \<Longrightarrow> lt a b \<or> lt b a"
    "\<And>a b c. lt a b \<Longrightarrow> lt b c \<Longrightarrow> lt a c"
  shows "sorted_wrt lt (insert_by lt x xs)"
  using assms(1,2)
proof (induction xs)
  case (Cons y ys)
  show ?case
  proof (cases "lt y x")
    case True
    with Cons show ?thesis by (auto simp: set_insert_by)
  next
    case False
    with Cons.prems assms(3) [of x y] have "lt x y" by auto
    with Cons.prems assms(4) False show ?thesis by auto
  qed
qed simp

lemma sorted_sort_by:
  assumes "distinct xs" "\<And>a b. a \<noteq> b \<Longrightarrow> lt a b \<or> lt b a"
    "\<And>a b c. lt a b \<Longrightarrow> lt b c \<Longrightarrow> lt a c"
  shows "sorted_wrt lt (sort_by lt xs)"
  using assms(1)
proof (induction xs)
  case (Cons x xs)
  then have "sorted_wrt lt (insert_by lt x (sort_by lt xs))"
    by (intro sorted_insert_by) (use assms(2,3) in \<open>auto simp: sort_by_basic\<close>)
  then show ?case by (simp add: sort_by_def)
qed (simp add: sort_by_def)

lemma numa_less_order:
  "a \<noteq> b \<Longrightarrow> numa_less node_of a b \<or> numa_less node_of b a"
  "numa_less node_of a b \<Longrightarrow> numa_less node_of b c \<Longrightarrow> numa_less node_of a c"
  by (auto simp: numa_less_def split: if_splits)

subsection \<open>Properties\<close>

text \<open>
  C40: core_set::build on a machine with at most 8 NUMA regions gives min(cores, 128,
  available cores) distinct cores; in ascending order they are the first cores of the
  machine, in the NUMA-aware order they are sorted by region and then by identifier and no
  core left out comes before one chosen; the region bits are exactly the regions of the
  chosen cores.
\<close>

theorem core_set_build_correct:
  assumes "\<forall>c < count_cores. node_of c < 8"
  shows "\<exists>s. core_set_build node_of count_cores cores order = Some s \<and>
    cs_size s = min cores (min max_cores count_cores) \<and>
    (let ids = take (cs_size s) (cs_core_identifier s) in
     distinct ids \<and> set ids \<subseteq> {..<count_cores} \<and>
     (case order of
        Ascending \<Rightarrow> ids = [0..<cs_size s]
      | NUMAAware \<Rightarrow> sorted_wrt (numa_less node_of) ids \<and>
          (\<forall>c \<in> set ids. \<forall>d \<in> {..<count_cores} - set ids. numa_less node_of c d)) \<and>
     (\<forall>n < 8. cs_numa_nodes s ! n \<longleftrightarrow> n \<in> node_of ` set ids))"
proof -
  define n where "n = min cores (min max_cores count_cores)"
  define all where "all = (case order of Ascending \<Rightarrow> [0..<count_cores]
    | NUMAAware \<Rightarrow> sort_by (numa_less node_of) [0..<count_cores])"
  have all: "set all = {..<count_cores}" "distinct all" "length all = count_cores"
    unfolding all_def by (cases order; simp add: sort_by_basic atLeast0LessThan)+
  have n: "n \<le> 128" "n \<le> count_cores" unfolding n_def by simp_all
  have build: "core_set_build node_of count_cores cores order = core_set_of node_of (take n all)"
    unfolding core_set_build_def core_set_of_def Let_def n_def [symmetric] all_def
    using n(2) by (cases order) (simp_all add: take_upt)
  have sub: "set (take n all) \<subseteq> {..<count_cores}" using all(1) set_take_subset [of n all] by simp
  then have node: "node_of c < 8" if "c \<in> set (take n all)" for c using that assms by auto
  have "length (take n all) \<le> 128" "length (take n all) = n" using all(3) n by simp_all
  then obtain s where s: "core_set_of node_of (take n all) = Some s" "cs_size s = n"
    "take (cs_size s) (cs_core_identifier s) = take n all"
    "\<forall>k < 8. cs_numa_nodes s ! k \<longleftrightarrow> k \<in> node_of ` set (take n all)"
    using core_set_of_Some [of "take n all" node_of] node by auto
  have "case order of Ascending \<Rightarrow> take n all = [0..<n]
      | NUMAAware \<Rightarrow> sorted_wrt (numa_less node_of) (take n all) \<and>
          (\<forall>c \<in> set (take n all). \<forall>d \<in> {..<count_cores} - set (take n all). numa_less node_of c d)"
  proof (cases order)
    case Ascending
    then show ?thesis using n(2) by (simp add: all_def take_upt)
  next
    case NUMAAware
    have "sorted_wrt (numa_less node_of) all"
      unfolding all_def NUMAAware core_order.case
      by (rule sorted_sort_by [OF distinct_upt numa_less_order])
    then have sw: "sorted_wrt (numa_less node_of) (take n all @ drop n all)" by simp
    have "{..<count_cores} = set (take n all) \<union> set (drop n all)"
      unfolding all(1) [symmetric] set_append [symmetric] append_take_drop_id by (rule refl)
    with sw show ?thesis unfolding sorted_wrt_append NUMAAware core_order.case by blast
  qed
  moreover have "distinct (take n all)" using all(2) by simp
  moreover have "take n (cs_core_identifier s) = take n all" using s(2,3) by simp
  ultimately show ?thesis
    unfolding build s(1) option.inject Let_def n_def [symmetric]
    using s(2,4) sub by (intro exI [of _ s]) (cases order; simp)
qed

theorem core_set_build_correct_witness:
  "\<exists>s. core_set_build (\<lambda>c. c mod 2) 4 3 NUMAAware = Some s \<and> cs_size s = 3 \<and>
     take 3 (cs_core_identifier s) = [0, 2, 1]"
proof -
  have "\<forall>c < 4. c mod 2 < (8::nat)" using order.strict_trans1 [OF mod_le_divisor] by auto
  from core_set_build_correct [OF this, of 3 NUMAAware]
  obtain s where s: "core_set_build (\<lambda>c. c mod 2) 4 3 NUMAAware = Some s" "cs_size s = 3" by auto
  moreover have "map_option (\<lambda>s. take 3 (cs_core_identifier s)) (core_set_build (\<lambda>c. c mod 2) 4 3 NUMAAware) =
      Some [0, 2, 1]" by code_simp
  ultimately have "take 3 (cs_core_identifier s) = [0, 2, 1]" by simp
  with s show ?thesis by blast
qed

text \<open>core_set::back reads the last array element, not the core added last.\<close>

lemma core_back_is_not_the_last_core:
  "map_option core_back (core_set_of (\<lambda>_. 0) [3, 5]) = Some 0"
  by (simp add: core_set_of_def core_set_new_def emplace_back_def arr_set_def core_back_def last_conv_nth)

end
