(* ===== verification/SchedulerModel.thy ===== *)
theory SchedulerModel
  imports ChannelModel CoreSet
begin

section \<open>Scheduler\<close>

text \<open>
  mx/tasking/scheduler.h, mx/tasking/scheduler.cpp, mx/tasking/profiling/statistic.h and the
  data of mx/tasking/worker.h. The scheduler owns one worker per core of the core set, each
  with its channel; all queues link their tasks through one link store. The compile-time
  switch config::task_statistics is a parameter. Dereferencing an empty worker slot, leaving
  an array and a failing assertion are values of \<open>sched_error\<close>.
\<close>

subsection \<open>Statistic\<close>

datatype counter = Scheduled | ScheduledOnChannel | ScheduledOffChannel | Executed | ExecutedReader |
  ExecutedWriter | Fill

fun counter_code :: "counter \<Rightarrow> nat" where
  "counter_code Scheduled = 0"
| "counter_code ScheduledOnChannel = 1"
| "counter_code ScheduledOffChannel = 2"
| "counter_code Executed = 3"
| "counter_code ExecutedReader = 4"
| "counter_code ExecutedWriter = 5"
| "counter_code Fill = 6"

record statistic =
  st_count_channels :: nat
  st_counter :: "u64 list list"

definition statistic_new :: "nat \<Rightarrow> statistic" where
  "statistic_new n = \<lparr>st_count_channels = n, st_counter = replicate n (replicate 7 0)\<rparr>"

definition statistic_clear :: "statistic \<Rightarrow> statistic" where
  "statistic_clear s = s\<lparr>st_counter := replicate (st_count_channels s) (replicate 7 0)\<rparr>"

definition statistic_increment :: "counter \<Rightarrow> nat \<Rightarrow> statistic \<Rightarrow> statistic" where
  "statistic_increment k ch s =
     (let line = st_counter s ! ch in
      s\<lparr>st_counter := (st_counter s)[ch := line[counter_code k := line ! counter_code k + 1]]\<rparr>)"

definition statistic_get :: "counter \<Rightarrow> nat \<Rightarrow> statistic \<Rightarrow> u64" where
  "statistic_get k ch s = st_counter s ! ch ! counter_code k"

definition statistic_sum :: "counter \<Rightarrow> statistic \<Rightarrow> u64" where
  "statistic_sum k s = fold (\<lambda>i sum. sum + statistic_get k i s) [0..<st_count_channels s] 0"

subsection \<open>Worker and scheduler state\<close>

record worker =
  w_target_core_id :: nat
  w_prefetch_distance :: u16
  w_channel_size :: int
  w_channel :: channel

definition worker_new ::
  "(nat \<Rightarrow> nat \<Rightarrow> addr) \<Rightarrow> nat \<Rightarrow> nat \<Rightarrow> nat \<Rightarrow> u16 \<Rightarrow> addr links \<Rightarrow> addr links \<times> worker" where
  "worker_new stub ident core_id node distance h =
     (let (h', c) = channel_new stub (of_nat ident) (of_nat node) (ucast distance) h in
      (h', \<lparr>w_target_core_id = core_id, w_prefetch_distance = distance, w_channel_size = 0, w_channel = c\<rparr>))"

record scheduler =
  sch_core_set :: core_set
  sch_count_channels :: nat
  sch_is_running :: bool
  sch_worker :: "worker option list"
  sch_numa_node_map :: "u8 list"
  sch_statistic :: statistic

datatype sched_error = NullWorker | OutOfRange | InvalidPrimitive | NodeNotImplemented | NoChannel

fun sched_construct :: "(nat \<Rightarrow> nat) \<Rightarrow> (nat \<Rightarrow> nat \<Rightarrow> nat \<Rightarrow> addr) \<Rightarrow> u16 \<Rightarrow> nat list \<Rightarrow> nat \<Rightarrow> addr links \<Rightarrow>
    scheduler \<Rightarrow> addr links \<times> scheduler" where
  "sched_construct node_of stub distance [] i h s = (h, s)"
| "sched_construct node_of stub distance (core # cores) i h s =
     (let node = node_of core;
          (h', w) = worker_new (stub i) i core node distance h
      in sched_construct node_of stub distance cores (i + 1) h'
           (s\<lparr>sch_numa_node_map := (sch_numa_node_map s)[i := of_nat node],
              sch_worker := (sch_worker s)[i := Some w]\<rparr>))"

definition scheduler_new :: "(nat \<Rightarrow> nat) \<Rightarrow> (nat \<Rightarrow> nat \<Rightarrow> nat \<Rightarrow> addr) \<Rightarrow> core_set \<Rightarrow> u16 \<Rightarrow> addr links \<Rightarrow>
    addr links \<times> scheduler" where
  "scheduler_new node_of stub cores distance h =
     sched_construct node_of stub distance (take (cs_size cores) (cs_core_identifier cores)) 0 h
       \<lparr>sch_core_set = cores, sch_count_channels = cs_size cores, sch_is_running = False,
        sch_worker = replicate max_cores None, sch_numa_node_map = replicate max_cores 0,
        sch_statistic = statistic_new (cs_size cores)\<rparr>"

definition worker_at :: "scheduler \<Rightarrow> nat \<Rightarrow> sched_error + worker" where
  "worker_at s i = (case arr_get (sch_worker s) i of
     None \<Rightarrow> Inl OutOfRange | Some None \<Rightarrow> Inl NullWorker | Some (Some w) \<Rightarrow> Inr w)"

definition set_channel :: "nat \<Rightarrow> worker \<Rightarrow> channel \<Rightarrow> scheduler \<Rightarrow> scheduler" where
  "set_channel i w c s = s\<lparr>sch_worker := (sch_worker s)[i := Some (w\<lparr>w_channel := c\<rparr>)]\<rparr>"

text \<open>The destructor visits all 128 worker slots; the addresses it frees, or the error.\<close>

fun scheduler_destroy :: "worker option list \<Rightarrow> sched_error + worker list" where
  "scheduler_destroy [] = Inr []"
| "scheduler_destroy (None # ws) = Inl NullWorker"
| "scheduler_destroy (Some w # ws) = (case scheduler_destroy ws of Inl e \<Rightarrow> Inl e | Inr r \<Rightarrow> Inr (w # r))"

subsection \<open>Scheduling\<close>

definition keep_task_local :: "bool \<Rightarrow> primitive \<Rightarrow> u16 \<Rightarrow> u16 \<Rightarrow> bool" where
  "keep_task_local is_readonly prim resource_channel current_channel \<longleftrightarrow>
     resource_channel = current_channel \<or>
     is_readonly \<and> prim \<noteq> ScheduleAll \<or>
     prim \<noteq> PrimitiveNone \<and> prim \<noteq> ScheduleAll \<and> prim \<noteq> ScheduleWriter"

definition count_if :: "bool \<Rightarrow> counter \<Rightarrow> nat \<Rightarrow> scheduler \<Rightarrow> scheduler" where
  "count_if statistics k i s =
     (if statistics then s\<lparr>sch_statistic := statistic_increment k i (sch_statistic s)\<rparr> else s)"

definition schedule_local :: "bool \<Rightarrow> addr \<Rightarrow> task \<Rightarrow> nat \<Rightarrow> addr links \<Rightarrow> scheduler \<Rightarrow>
    sched_error + addr links \<times> scheduler" where
  "schedule_local statistics a t i h s =
     (case worker_at s i of
        Inl e \<Rightarrow> Inl e
      | Inr w \<Rightarrow>
          (let (h', c) = push_back_local a t h (w_channel w) in
           Inr (h', count_if statistics ScheduledOnChannel i (set_channel i w c s))))"

definition schedule_remote :: "bool \<Rightarrow> addr \<Rightarrow> task \<Rightarrow> nat \<Rightarrow> u8 option \<Rightarrow> nat \<Rightarrow> addr links \<Rightarrow> scheduler \<Rightarrow>
    sched_error + addr links \<times> scheduler" where
  "schedule_remote statistics a t target node counted h s =
     (case worker_at s target of
        Inl e \<Rightarrow> Inl e
      | Inr w \<Rightarrow>
          (case Option.bind node (\<lambda>n. push_back_remote a t (unat n) h (w_channel w)) of
             None \<Rightarrow> Inl OutOfRange
           | Some (h', c) \<Rightarrow> Inr (h', count_if statistics ScheduledOffChannel counted (set_channel target w c s))))"

definition count_scheduled :: "bool \<Rightarrow> nat \<Rightarrow> sched_error + addr links \<times> scheduler \<Rightarrow>
    sched_error + addr links \<times> scheduler" where
  "count_scheduled statistics i r = (case r of
     Inl e \<Rightarrow> Inl e | Inr (h, s) \<Rightarrow> Inr (h, count_if statistics Scheduled i s))"

definition schedule_from :: "bool \<Rightarrow> addr \<Rightarrow> task \<Rightarrow> u16 \<Rightarrow> addr links \<Rightarrow> scheduler \<Rightarrow>
    sched_error + addr links \<times> scheduler" where
  "schedule_from statistics a t current h s =
     (let node = arr_get (sch_numa_node_map s) (unat current) in
      count_scheduled statistics (unat current)
       (case task_target t of
          TargetResource r sz \<Rightarrow>
            (case resource_primitive r of
               None \<Rightarrow> Inl InvalidPrimitive
             | Some prim \<Rightarrow>
                 if keep_task_local (task_is_readonly t) prim (resource_channel_id r) current
                 then schedule_local statistics a t (unat current) h s
                 else schedule_remote statistics a t (unat (resource_channel_id r)) node (unat current) h s)
        | TargetChannel ch \<Rightarrow>
            if ch = current then schedule_local statistics a t (unat current) h s
            else schedule_remote statistics a t (unat ch) node (unat current) h s
        | TargetNode n \<Rightarrow> Inl NodeNotImplemented
        | TargetBool b \<Rightarrow> schedule_local statistics a t (unat current) h s))"

definition schedule_external :: "bool \<Rightarrow> addr \<Rightarrow> task \<Rightarrow> addr links \<Rightarrow> scheduler \<Rightarrow>
    sched_error + addr links \<times> scheduler" where
  "schedule_external statistics a t h s =
     (case task_target t of
        TargetResource r sz \<Rightarrow>
          schedule_remote statistics a t (unat (resource_channel_id r)) (Some 0) (unat (resource_channel_id r)) h s
      | TargetChannel ch \<Rightarrow> schedule_remote statistics a t (unat ch) (Some 0) (unat ch) h s
      | TargetNode n \<Rightarrow> Inl NodeNotImplemented
      | TargetBool b \<Rightarrow> Inl NoChannel)"

subsection \<open>Other operations\<close>

definition sched_interrupt :: "scheduler \<Rightarrow> scheduler" where
  "sched_interrupt s = s\<lparr>sch_is_running := False\<rparr>"

definition sched_numa_node_id :: "nat \<Rightarrow> scheduler \<Rightarrow> u8 option" where
  "sched_numa_node_id i s = arr_get (sch_numa_node_map s) i"

definition sched_predict_usage :: "nat \<Rightarrow> access_frequency \<Rightarrow> scheduler \<Rightarrow> sched_error + scheduler" where
  "sched_predict_usage i f s =
     (case worker_at s i of Inl e \<Rightarrow> Inl e | Inr w \<Rightarrow> Inr (set_channel i w (predict_usage f (w_channel w)) s))"

definition sched_modify_predicted_usage ::
  "nat \<Rightarrow> access_frequency \<Rightarrow> access_frequency \<Rightarrow> scheduler \<Rightarrow> sched_error + scheduler" where
  "sched_modify_predicted_usage i old new s =
     (case worker_at s i of
        Inl e \<Rightarrow> Inl e
      | Inr w \<Rightarrow> Inr (set_channel i w (modify_predicted_usage old new (w_channel w)) s))"

definition sched_has_excessive :: "nat \<Rightarrow> scheduler \<Rightarrow> sched_error + bool" where
  "sched_has_excessive i s =
     (case worker_at s i of
        Inl e \<Rightarrow> Inl e
      | Inr w \<Rightarrow> Inr (has_excessive_usage_prediction (w_channel w)))"

definition sched_reset_statistic :: "scheduler \<Rightarrow> scheduler" where
  "sched_reset_statistic s = s\<lparr>sch_statistic := statistic_clear (sch_statistic s)\<rparr>"

definition sched_statistic_sum :: "bool \<Rightarrow> counter \<Rightarrow> scheduler \<Rightarrow> u64" where
  "sched_statistic_sum statistics k s = (if statistics then statistic_sum k (sch_statistic s) else 0)"

definition sched_statistic_get :: "bool \<Rightarrow> counter \<Rightarrow> nat \<Rightarrow> scheduler \<Rightarrow> u64" where
  "sched_statistic_get statistics k i s = (if statistics then statistic_get k i (sch_statistic s) else 0)"

subsection \<open>The tasks waiting in the channels\<close>

text \<open>
  \<open>sched_rep h s conts bufs\<close>: the channels \<open>0, \<dots>, count - 1\<close> exist, channel \<open>i\<close> holds the
  tasks \<open>conts i\<close> in its queues and \<open>bufs i\<close> in its buffer, its identifier is \<open>i\<close>, the NUMA
  regions are valid, and no task is in two channels.
\<close>

definition chan :: "scheduler \<Rightarrow> nat \<Rightarrow> channel" where
  "chan s i = w_channel (the (sch_worker s ! i))"

definition sched_shape :: "scheduler \<Rightarrow> bool" where
  "sched_shape s \<longleftrightarrow> sch_count_channels s \<le> max_cores \<and> length (sch_worker s) = max_cores \<and>
     length (sch_numa_node_map s) = max_cores \<and>
     (\<forall>i < sch_count_channels s. sch_worker s ! i \<noteq> None \<and> sch_numa_node_map s ! i < 8)"

definition sched_rep :: "addr links \<Rightarrow> scheduler \<Rightarrow> (nat \<Rightarrow> qid \<Rightarrow> addr list) \<Rightarrow> (nat \<Rightarrow> addr list) \<Rightarrow> bool" where
  "sched_rep h s conts bufs \<longleftrightarrow> sched_shape s \<and>
     (\<forall>i < sch_count_channels s. channel_rep h (chan s i) (conts i) (bufs i)) \<and>
     (\<forall>i j k l. i < sch_count_channels s \<longrightarrow> j < sch_count_channels s \<longrightarrow> i \<noteq> j \<longrightarrow> valid_qid k \<longrightarrow>
        valid_qid l \<longrightarrow> q_owns (chan s i) (conts i) k \<inter> q_owns (chan s j) (conts j) l = {})"

definition sched_fresh :: "scheduler \<Rightarrow> (nat \<Rightarrow> qid \<Rightarrow> addr list) \<Rightarrow> addr \<Rightarrow> bool" where
  "sched_fresh s conts a \<longleftrightarrow> (\<forall>i < sch_count_channels s. task_fresh (chan s i) (conts i) a)"

lemma sched_repD:
  assumes "sched_rep h s conts bufs" "i < sch_count_channels s"
  shows "channel_rep h (chan s i) (conts i) (bufs i)" "worker_at s i = Inr (the (sch_worker s ! i))"
    "i < length (sch_worker s)" "arr_get (sch_numa_node_map s) i = Some (sch_numa_node_map s ! i)"
    "unat (sch_numa_node_map s ! i) < 8"
proof -
  have shape: "sched_shape s" and rep: "channel_rep h (chan s i) (conts i) (bufs i)"
    using assms by (auto simp: sched_rep_def)
  show "channel_rep h (chan s i) (conts i) (bufs i)" by (rule rep)
  show len: "i < length (sch_worker s)" and "arr_get (sch_numa_node_map s) i = Some (sch_numa_node_map s ! i)"
    using shape assms(2) by (auto simp: sched_shape_def arr_get_def)
  show "worker_at s i = Inr (the (sch_worker s ! i))"
    using shape assms(2) len by (auto simp: sched_shape_def worker_at_def arr_get_def)
  have "sch_numa_node_map s ! i < 8" using shape assms(2) by (simp add: sched_shape_def)
  then show "unat (sch_numa_node_map s ! i) < 8" by (simp add: word_less_nat_alt)
qed

lemma sched_rep_statistic:
  "sched_rep h (s\<lparr>sch_statistic := st\<rparr>) conts bufs = sched_rep h s conts bufs"
  by (simp add: sched_rep_def sched_shape_def chan_def)

lemma sched_rep_count_if: "sched_rep h (count_if b k i s) conts bufs = sched_rep h s conts bufs"
  by (simp add: count_if_def sched_rep_statistic)

text \<open>A change inside one channel that adds at most the fresh task \<open>a\<close>.\<close>

lemma sched_rep_update:
  assumes "sched_rep h s conts bufs" "i < sch_count_channels s" "sched_fresh s conts a" "valid_qid k"
    "channel_rep h' c ((conts i)(k := conts i k @ [a])) (bufs i)" "same_frame (chan s i) c"
    "\<And>y. y \<notin> insert a (q_owns (chan s i) (conts i) k) \<Longrightarrow> h' y = h y"
  shows "sched_rep h' (set_channel i (the (sch_worker s ! i)) c s)
    (conts(i := (conts i)(k := conts i k @ [a]))) bufs"
proof -
  let ?s = "set_channel i (the (sch_worker s ! i)) c s"
  let ?conts = "conts(i := (conts i)(k := conts i k @ [a]))"
  let ?n = "sch_count_channels s"
  note len = sched_repD(3) [OF assms(1,2)]
  have n: "sch_count_channels ?s = ?n" by (simp add: set_channel_def)
  have chan: "chan ?s j = (if j = i then c else chan s j)" for j
    using len by (auto simp: chan_def set_channel_def nth_list_update)
  have shape: "sched_shape ?s"
    using assms(1) len by (auto simp: sched_rep_def sched_shape_def set_channel_def nth_list_update)
  have disj: "q_owns (chan s j) (conts j) l \<inter> q_owns (chan s j') (conts j') l' = {}"
    if "j < ?n" "j' < ?n" "j \<noteq> j'" "valid_qid l" "valid_qid l'" for j j' l l'
    using assms(1) that by (simp add: sched_rep_def)
  have owns: "q_owns (chan ?s j) (?conts j) l \<subseteq>
      q_owns (chan s j) (conts j) l \<union> (if j = i then {a} else {})" for j l
    using assms(6) unfolding chan by (auto simp: q_owns_def same_frame_def)
  have fresh: "a \<notin> q_owns (chan s j) (conts j) l" if "j < ?n" "valid_qid l" for j l
    using assms(3) that by (simp add: sched_fresh_def task_fresh_def)
  have "channel_rep h' (chan ?s j) (?conts j) (bufs j)" if j: "j < ?n" for j
  proof (cases "j = i")
    case False
    have "h' y = h y" if "valid_qid l" "y \<in> q_owns (chan s j) (conts j) l" for l y
      by (rule assms(7)) (use that fresh [OF j] disj [OF j assms(2) False] assms(4) in blast)
    then show ?thesis
      using channel_rep_cong [OF sched_repD(1) [OF assms(1) j]] False by (simp add: chan)
  qed (use assms(5) chan in simp)
  moreover have "q_owns (chan ?s j) (?conts j) l \<inter> q_owns (chan ?s j') (?conts j') l' = {}"
    if "j < ?n" "j' < ?n" "j \<noteq> j'" "valid_qid l" "valid_qid l'" for j j' l l'
    using owns [of j l] owns [of j' l'] disj [OF that] fresh [OF that(1,4)] fresh [OF that(2,5)] that(3)
    by (simp split: if_splits) blast+
  ultimately show ?thesis using shape n by (simp add: sched_rep_def)
qed

text \<open>A change inside one channel that only takes tasks out of its queues.\<close>

lemma sched_rep_shrink:
  assumes "sched_rep h s conts bufs" "i < sch_count_channels s"
    "channel_rep h' (w_channel w) cont buf" "same_frame (chan s i) (w_channel w)"
    "\<And>k. set (cont k) \<subseteq> set (conts i k)"
    "\<And>y. (\<forall>k. valid_qid k \<longrightarrow> y \<notin> q_owns (chan s i) (conts i) k) \<Longrightarrow> h' y = h y"
  shows "sched_rep h' (s\<lparr>sch_worker := (sch_worker s)[i := Some w]\<rparr>) (conts(i := cont)) (bufs(i := buf))"
proof -
  let ?s = "s\<lparr>sch_worker := (sch_worker s)[i := Some w]\<rparr>" and ?conts = "conts(i := cont)"
  let ?n = "sch_count_channels s"
  note len = sched_repD(3) [OF assms(1,2)]
  have chan: "chan ?s j = (if j = i then w_channel w else chan s j)" for j
    using len by (auto simp: chan_def nth_list_update)
  have shape: "sched_shape ?s"
    using assms(1) len by (auto simp: sched_rep_def sched_shape_def nth_list_update)
  have disj: "q_owns (chan s j) (conts j) l \<inter> q_owns (chan s j') (conts j') l' = {}"
    if "j < ?n" "j' < ?n" "j \<noteq> j'" "valid_qid l" "valid_qid l'" for j j' l l'
    using assms(1) that by (simp add: sched_rep_def)
  have owns: "q_owns (chan ?s j) (?conts j) l \<subseteq> q_owns (chan s j) (conts j) l" for j l
    using same_frame_owns [OF assms(4,5)] by (simp add: chan)
  have "channel_rep h' (chan ?s j) (?conts j) ((bufs(i := buf)) j)" if j: "j < ?n" for j
  proof (cases "j = i")
    case False
    have "h' y = h y" if y: "valid_qid l" "y \<in> q_owns (chan s j) (conts j) l" for l y
      by (rule assms(6)) (use y disj [OF j assms(2) False y(1)] in blast)
    then show ?thesis
      using channel_rep_cong [OF sched_repD(1) [OF assms(1) j]] False by (simp add: chan)
  qed (use assms(3) chan in simp)
  moreover have "q_owns (chan ?s j) (?conts j) l \<inter> q_owns (chan ?s j') (?conts j') l' = {}"
    if "j < ?n" "j' < ?n" "j \<noteq> j'" "valid_qid l" "valid_qid l'" for j j' l l'
    using owns [of j l] owns [of j' l'] disj [OF that] by blast
  ultimately show ?thesis using shape by (simp add: sched_rep_def)
qed

lemma sched_fresh_shrink:
  assumes "sched_rep h s conts bufs" "i < sch_count_channels s" "sched_fresh s conts a"
    "same_frame (chan s i) (w_channel w)" "\<And>k. set (cont k) \<subseteq> set (conts i k)"
  shows "sched_fresh (s\<lparr>sch_worker := (sch_worker s)[i := Some w]\<rparr>) (conts(i := cont)) a"
proof -
  note len = sched_repD(3) [OF assms(1,2)]
  have "chan (s\<lparr>sch_worker := (sch_worker s)[i := Some w]\<rparr>) j = (if j = i then w_channel w else chan s j)" for j
    using len by (auto simp: chan_def nth_list_update)
  moreover have "a \<notin> q_owns (w_channel w) cont k" if "valid_qid k" for k
    using assms(2,3) same_frame_owns [OF assms(4), of cont "conts i" k, OF assms(5)] that
    unfolding sched_fresh_def task_fresh_def by blast
  ultimately show ?thesis using assms(3) unfolding sched_fresh_def task_fresh_def by simp
qed

lemma sched_fresh_count_if: "sched_fresh (count_if b k i s) conts a = sched_fresh s conts a"
  by (simp add: sched_fresh_def count_if_def chan_def)

lemma count_if_fields:
  "sch_count_channels (count_if b k i s) = sch_count_channels s" "sch_worker (count_if b k i s) = sch_worker s"
  by (simp_all add: count_if_def)

text \<open>All tasks that wait in the channels.\<close>

definition all_waiting :: "nat \<Rightarrow> (nat \<Rightarrow> qid \<Rightarrow> addr list) \<Rightarrow> (nat \<Rightarrow> addr list) \<Rightarrow> addr multiset" where
  "all_waiting n conts bufs = (\<Sum>i < n. channel_waiting (conts i) (bufs i))"

lemma all_waiting_update:
  assumes "i < n"
  shows "all_waiting n (conts(i := c)) (bufs(i := b)) + channel_waiting (conts i) (bufs i) =
    all_waiting n conts bufs + channel_waiting c b"
proof -
  have "(\<Sum>j \<in> {..<n} - {i}. channel_waiting ((conts(i := c)) j) ((bufs(i := b)) j)) =
      (\<Sum>j \<in> {..<n} - {i}. channel_waiting (conts j) (bufs j))" by (rule sum.cong) auto
  then show ?thesis
    using assms sum.remove [of "{..<n}" i "\<lambda>j. channel_waiting ((conts(i := c)) j) ((bufs(i := b)) j)"]
      sum.remove [of "{..<n}" i "\<lambda>j. channel_waiting (conts j) (bufs j)"]
    by (simp add: all_waiting_def add.commute add.left_commute)
qed

lemma all_waiting_push:
  assumes "i < n" "valid_qid k"
  shows "all_waiting n (conts(i := (conts i)(k := conts i k @ [a]))) bufs = all_waiting n conts bufs + {#a#}"
  using all_waiting_update [OF assms(1), of conts "(conts i)(k := conts i k @ [a])" bufs "bufs i"]
    channel_waiting_push [OF assms(2), of "conts i" a "bufs i"]
  by (simp add: add.commute add.left_commute)

lemma schedule_local_rep:
  assumes "sched_rep h s conts bufs" "i < sch_count_channels s" "sched_fresh s conts a"
    "k = LocalQ (priority_code (task_priority t))"
  shows "\<exists>h' s'. schedule_local st a t i h s = Inr (h', s') \<and>
    sched_rep h' s' (conts(i := (conts i)(k := conts i k @ [a]))) bufs"
proof -
  note w = sched_repD [OF assms(1,2)]
  have fresh: "task_fresh (chan s i) (conts i) a" using assms(2,3) by (simp add: sched_fresh_def)
  obtain h' c where p: "push_back_local a t h (chan s i) = (h', c)" by force
  have "valid_qid k" using assms(4) priority_code_bound by simp
  then have "sched_rep h' (set_channel i (the (sch_worker s ! i)) c s)
      (conts(i := (conts i)(k := conts i k @ [a]))) bufs"
    using push_back_local_rep [OF w(1) fresh p assms(4)] by (intro sched_rep_update [OF assms(1-3)]) auto
  then show ?thesis
    using p w(2) by (simp add: schedule_local_def chan_def sched_rep_count_if)
qed

lemma schedule_remote_rep:
  assumes "sched_rep h s conts bufs" "i < sch_count_channels s" "sched_fresh s conts a"
    "k = RemoteQ (priority_code (task_priority t)) (unat n)" "unat n < 8"
  shows "\<exists>h' s'. schedule_remote st a t i (Some n) j h s = Inr (h', s') \<and>
    sched_rep h' s' (conts(i := (conts i)(k := conts i k @ [a]))) bufs"
proof -
  note w = sched_repD [OF assms(1,2)]
  have fresh: "task_fresh (chan s i) (conts i) a" using assms(2,3) by (simp add: sched_fresh_def)
  from push_back_remote_rep [OF w(1) fresh assms(5,4)]
  obtain h' c where p: "push_back_remote a t (unat n) h (chan s i) = Some (h', c)"
    "channel_rep h' c ((conts i)(k := conts i k @ [a])) (bufs i)" "same_frame (chan s i) c"
    "\<forall>y. y \<notin> insert a (q_owns (chan s i) (conts i) k) \<longrightarrow> h' y = h y" by blast
  have "valid_qid k" using assms(4,5) priority_code_bound by simp
  then have "sched_rep h' (set_channel i (the (sch_worker s ! i)) c s)
      (conts(i := (conts i)(k := conts i k @ [a]))) bufs"
    using p by (intro sched_rep_update [OF assms(1-3)]) auto
  then show ?thesis
    using p(1) w(2) by (simp add: schedule_remote_def chan_def sched_rep_count_if)
qed

subsection \<open>A new scheduler\<close>

definition stubs_distinct :: "(nat \<Rightarrow> nat \<Rightarrow> nat \<Rightarrow> addr) \<Rightarrow> bool" where
  "stubs_distinct stub \<longleftrightarrow> (\<forall>i p n i' p' n'. p < 2 \<longrightarrow> n < 8 \<longrightarrow> p' < 2 \<longrightarrow> n' < 8 \<longrightarrow>
     stub i p n = stub i' p' n' \<longrightarrow> i = i' \<and> p = p' \<and> n = n')"

lemma stubs_distinctD:
  "stubs_distinct stub \<Longrightarrow> p < 2 \<Longrightarrow> n < 8 \<Longrightarrow> p' < 2 \<Longrightarrow> n' < 8 \<Longrightarrow> stub i p n = stub i' p' n' \<Longrightarrow>
    i = i' \<and> p = p' \<and> n = n'"
  unfolding stubs_distinct_def by blast

lemma fold_mpsc_new_frame: "y \<notin> set as \<Longrightarrow> fold (\<lambda>a h. fst (mpsc_new a h)) as h y = h y"
  by (induction as arbitrary: h) (auto simp: mpsc_new_def)

lemma channel_new_frame:
  assumes "channel_new stub ident node distance h = (h', c)"
  shows "(\<And>p n. p < 2 \<Longrightarrow> n < 8 \<Longrightarrow> y \<noteq> stub p n) \<Longrightarrow> h' y = h y"
    "p < 2 \<Longrightarrow> n < 8 \<Longrightarrow> mq_end (ch_remote_queues c ! p ! n) = stub p n"
proof -
  have h': "h' = fold (\<lambda>a h. fst (mpsc_new a h)) (concat (map (\<lambda>p. map (stub p) [0..<8]) [0..<2])) h"
    using arg_cong [OF assms, of fst] unfolding channel_new_def fst_conv max_numa_nodes_def by simp
  show "h' y = h y" if "\<And>p n. p < 2 \<Longrightarrow> n < 8 \<Longrightarrow> y \<noteq> stub p n"
  proof -
    have "y \<notin> set (concat (map (\<lambda>p. map (stub p) [0..<8]) [0..<2]))"
      unfolding set_concat set_map set_upt using that by fastforce
    then show ?thesis unfolding h' by (rule fold_mpsc_new_frame)
  qed
  show "p < 2 \<Longrightarrow> n < 8 \<Longrightarrow> mq_end (ch_remote_queues c ! p ! n) = stub p n"
    using assms by (auto simp: channel_new_def mpsc_new_def simp del: upt_rec_numeral)
qed

definition built_upto :: "(nat \<Rightarrow> nat \<Rightarrow> nat \<Rightarrow> addr) \<Rightarrow> nat \<Rightarrow> addr links \<Rightarrow> scheduler \<Rightarrow> bool" where
  "built_upto stub i h s \<longleftrightarrow> sched_rep h (s\<lparr>sch_count_channels := i\<rparr>) (\<lambda>_ _. []) (\<lambda>_. []) \<and>
     (\<forall>j < i. \<forall>p < 2. \<forall>n < 8. mq_end (ch_remote_queues (chan s j) ! p ! n) = stub j p n)"

lemma q_owns_stub:
  "(\<And>p n. p < 2 \<Longrightarrow> n < 8 \<Longrightarrow> mq_end (ch_remote_queues c ! p ! n) = stub p n) \<Longrightarrow> valid_qid k \<Longrightarrow>
    y \<in> q_owns c (\<lambda>_. []) k \<Longrightarrow> \<exists>p n. p < 2 \<and> n < 8 \<and> y = stub p n"
  by (cases k) (auto simp: q_owns_def)

lemma built_upto_step:
  assumes "built_upto stub i h s" "stubs_distinct stub" "i < 128" "unat distance \<le> 64" "node < 8"
    "worker_new (stub i) i core node distance h = (h', w)"
  shows "built_upto stub (i + 1) h' (s\<lparr>sch_numa_node_map := (sch_numa_node_map s)[i := of_nat node],
    sch_worker := (sch_worker s)[i := Some w]\<rparr>)" (is "built_upto _ _ _ ?s")
proof -
  obtain c where new: "channel_new (stub i) (of_nat i) (of_nat node) (ucast distance) h = (h', c)"
    and w: "w_channel w = c"
    using assms(6) by (auto simp: worker_new_def split: prod.splits)
  have old: "sched_rep h (s\<lparr>sch_count_channels := i\<rparr>) (\<lambda>_ _. []) (\<lambda>_. [])"
    and stub: "\<And>j p n. j < i \<Longrightarrow> p < 2 \<Longrightarrow> n < 8 \<Longrightarrow> mq_end (ch_remote_queues (chan s j) ! p ! n) = stub j p n"
    using assms(1) by (auto simp: built_upto_def)
  have shape: "length (sch_worker s) = 128" "length (sch_numa_node_map s) = 128"
    "\<And>j. j < i \<Longrightarrow> sch_worker s ! j \<noteq> None \<and> sch_numa_node_map s ! j < 8"
    using old by (auto simp: sched_rep_def sched_shape_def)
  have node: "(of_nat node :: u8) < 8"
    using assms(5) by (simp add: word_less_nat_alt unat_of_nat take_bit_nat_eq_self)
  have chan: "chan ?s j = (if j = i then c else chan s j)" for j
    using shape assms(3) w by (auto simp: chan_def nth_list_update)
  have all: "mq_end (ch_remote_queues (chan ?s j) ! p ! n) = stub j p n" if "j < i + 1" "p < 2" "n < 8" for j p n
    using stub [of j p n] channel_new_frame(2) [OF new that(2,3)] that unfolding chan by (cases "j = i") auto
  have "unat (ucast distance :: u8) \<le> 64" using assms(4) by (simp add: unsigned_ucast_eq take_bit_nat_eq_self)
  then have rep_i: "channel_rep h' c (\<lambda>_. []) []"
    by (rule channel_new_rep [OF new]) (drule (4) stubs_distinctD [OF assms(2)], simp)
  have "channel_rep h' (chan s j) (\<lambda>_. []) []" if j: "j < i" for j
  proof (rule channel_rep_cong)
    show "channel_rep h (chan s j) (\<lambda>_. []) []" using old j by (simp add: sched_rep_def chan_def)
    fix k y
    assume "valid_qid k" "y \<in> q_owns (chan s j) (\<lambda>_. []) k"
    from q_owns_stub [OF stub [OF j] this]
    obtain p n where "p < 2" "n < 8" "y = stub j p n" by blast
    then show "h' y = h y"
      using j by (intro channel_new_frame(1) [OF new]) (auto dest: stubs_distinctD [OF assms(2)])
  qed
  then have reps: "channel_rep h' (chan ?s j) (\<lambda>_. []) []" if "j < i + 1" for j
    using rep_i that by (auto simp: chan)
  have disj: "q_owns (chan ?s j) (\<lambda>_. []) k \<inter> q_owns (chan ?s j') (\<lambda>_. []) l = {}"
    if jj: "j < i + 1" "j' < i + 1" "j \<noteq> j'" "valid_qid k" "valid_qid l" for j j' k l
  proof (rule ccontr)
    assume "\<not> ?thesis"
    then obtain y where y: "y \<in> q_owns (chan ?s j) (\<lambda>_. []) k" "y \<in> q_owns (chan ?s j') (\<lambda>_. []) l" by blast
    obtain p n where 1: "p < 2" "n < 8" "y = stub j p n"
      using q_owns_stub [OF all [OF jj(1)] jj(4) y(1)] by blast
    obtain p' n' where 2: "p' < 2" "n' < 8" "y = stub j' p' n'"
      using q_owns_stub [OF all [OF jj(2)] jj(5) y(2)] by blast
    show False using stubs_distinctD [OF assms(2) 1(1,2) 2(1,2)] 1(3) 2(3) jj(3) by simp
  qed
  have "sched_shape (?s\<lparr>sch_count_channels := i + 1\<rparr>)"
    using shape assms(3) node by (auto simp: sched_shape_def nth_list_update less_Suc_eq)
  then have "sched_rep h' (?s\<lparr>sch_count_channels := i + 1\<rparr>) (\<lambda>_ _. []) (\<lambda>_. [])"
    using reps disj unfolding sched_rep_def chan_def by simp
  then show ?thesis using all unfolding built_upto_def by blast
qed

lemma sched_construct_rep:
  assumes "built_upto stub i h s" "stubs_distinct stub" "unat distance \<le> 64" "i + length cores \<le> 128"
    "\<And>c. c \<in> set cores \<Longrightarrow> node_of c < 8" "sched_construct node_of stub distance cores i h s = (h', s')"
  shows "built_upto stub (i + length cores) h' s' \<and> sch_count_channels s' = sch_count_channels s \<and>
    sch_statistic s' = sch_statistic s \<and> sch_is_running s' = sch_is_running s \<and> sch_core_set s' = sch_core_set s \<and>
    (\<forall>j \<ge> i + length cores. sch_worker s' ! j = sch_worker s ! j)"
  using assms
proof (induction cores arbitrary: i h s)
  case (Cons core cores)
  obtain h1 w where w: "worker_new (stub i) i core (node_of core) distance h = (h1, w)" by force
  have "built_upto stub (i + 1) h1 (s\<lparr>sch_numa_node_map := (sch_numa_node_map s)[i := of_nat (node_of core)],
      sch_worker := (sch_worker s)[i := Some w]\<rparr>)"
    by (rule built_upto_step [OF Cons.prems(1,2) _ Cons.prems(3) _ w]) (use Cons.prems in auto)
  from Cons.IH [OF this Cons.prems(2,3)] Cons.prems w show ?case by (simp add: Let_def)
qed auto

lemma scheduler_new_built:
  assumes "stubs_distinct stub" "unat distance \<le> 64" "cs_size cores \<le> 128"
    "length (cs_core_identifier cores) = 128"
    "\<forall>c \<in> set (take (cs_size cores) (cs_core_identifier cores)). node_of c < 8"
    "scheduler_new node_of stub cores distance h = (h', s)"
  shows "built_upto stub (sch_count_channels s) h' s \<and> sch_count_channels s = cs_size cores \<and> \<not> sch_is_running s \<and>
    sch_core_set s = cores"
proof -
  let ?s = "\<lparr>sch_core_set = cores, sch_count_channels = cs_size cores, sch_is_running = False,
        sch_worker = replicate max_cores None, sch_numa_node_map = replicate max_cores 0,
        sch_statistic = statistic_new (cs_size cores)\<rparr>"
  let ?ids = "take (cs_size cores) (cs_core_identifier cores)"
  have "built_upto stub 0 h ?s" by (simp add: built_upto_def sched_rep_def sched_shape_def)
  from sched_construct_rep [OF this assms(1,2), of ?ids node_of h' s]
  have "built_upto stub (length ?ids) h' s" "sch_count_channels s = cs_size cores" "\<not> sch_is_running s"
    "sch_core_set s = cores"
    using assms(3-6) by (auto simp: scheduler_new_def)
  moreover have "length ?ids = cs_size cores" using assms(3,4) by simp
  ultimately show ?thesis by simp
qed

lemma built_upto_rep:
  "built_upto stub (sch_count_channels s) h s \<Longrightarrow> sched_rep h s (\<lambda>_ _. []) (\<lambda>_. [])"
  by (simp add: built_upto_def)

lemma built_upto_fresh:
  assumes "built_upto stub (sch_count_channels s) h s" "\<And>i p n. i < sch_count_channels s \<Longrightarrow> p < 2 \<Longrightarrow> n < 8 \<Longrightarrow> a \<noteq> stub i p n"
  shows "sched_fresh s (\<lambda>_ _. []) a"
proof -
  have "a \<notin> q_owns (chan s i) (\<lambda>_. []) k" if i: "i < sch_count_channels s" and k: "valid_qid k" for i k
  proof
    assume "a \<in> q_owns (chan s i) (\<lambda>_. []) k"
    moreover have "mq_end (ch_remote_queues (chan s i) ! p ! n) = stub i p n" if "p < 2" "n < 8" for p n
      using assms(1) i that by (simp add: built_upto_def)
    ultimately show False using q_owns_stub [of "chan s i" "stub i" k a] assms(2) i k by blast
  qed
  then show ?thesis by (simp add: sched_fresh_def task_fresh_def)
qed

subsection \<open>Properties\<close>

text \<open>The worker that the constructor puts at position \<open>i\<close> for a core, and the entry of the region map.\<close>

definition worker_for :: "(nat \<Rightarrow> nat) \<Rightarrow> u16 \<Rightarrow> nat \<Rightarrow> nat \<Rightarrow> scheduler \<Rightarrow> bool" where
  "worker_for node_of distance core i s \<longleftrightarrow> sch_numa_node_map s ! i = of_nat (node_of core) \<and>
     (\<exists>w. sch_worker s ! i = Some w \<and> w_target_core_id w = core \<and> w_prefetch_distance w = distance \<and> w_channel_size w = 0 \<and>
        ch_id (w_channel w) = of_nat i \<and> ch_numa_node_id (w_channel w) = of_nat (node_of core))"

lemma worker_new_fields:
  "worker_new stub ident core node distance h = (h', w) \<Longrightarrow> w_target_core_id w = core \<and> w_prefetch_distance w = distance \<and>
    w_channel_size w = 0 \<and> ch_id (w_channel w) = of_nat ident \<and> ch_numa_node_id (w_channel w) = of_nat node"
  by (auto simp: worker_new_def channel_new_def)

lemma sched_construct_workers:
  assumes "sched_construct node_of stub distance cores i h s = (h', s')" "i + length cores \<le> length (sch_worker s)"
    "length (sch_numa_node_map s) = length (sch_worker s)"
  shows "(\<forall>j < length cores. worker_for node_of distance (cores ! j) (i + j) s') \<and>
    (\<forall>j. j < i \<or> i + length cores \<le> j \<longrightarrow> sch_worker s' ! j = sch_worker s ! j \<and> sch_numa_node_map s' ! j = sch_numa_node_map s ! j)"
  using assms
proof (induction cores arbitrary: i h s)
  case (Cons core cores)
  obtain h1 w where w: "worker_new (stub i) i core (node_of core) distance h = (h1, w)" by force
  let ?s = "s\<lparr>sch_numa_node_map := (sch_numa_node_map s)[i := of_nat (node_of core)], sch_worker := (sch_worker s)[i := Some w]\<rparr>"
  have "sched_construct node_of stub distance cores (i + 1) h1 ?s = (h', s')" using Cons.prems(1) w by (simp add: Let_def)
  moreover have "i + 1 + length cores \<le> length (sch_worker ?s)" "length (sch_numa_node_map ?s) = length (sch_worker ?s)"
    using Cons.prems(2,3) by simp_all
  ultimately have rest: "j < length cores \<Longrightarrow> worker_for node_of distance (cores ! j) (i + 1 + j) s'"
    and other: "j < i + 1 \<or> i + 1 + length cores \<le> j \<Longrightarrow>
      sch_worker s' ! j = sch_worker ?s ! j \<and> sch_numa_node_map s' ! j = sch_numa_node_map ?s ! j" for j
    using Cons.IH by blast+
  have "worker_for node_of distance core i s'"
    using other [of i] worker_new_fields [OF w] Cons.prems(2,3) by (simp add: worker_for_def)
  then have "worker_for node_of distance ((core # cores) ! j) (i + j) s'" if "j < length (core # cores)" for j
    using that rest [of "j - 1"] by (cases j) simp_all
  moreover have "sch_worker s' ! j = sch_worker s ! j \<and> sch_numa_node_map s' ! j = sch_numa_node_map s ! j"
    if "j < i \<or> i + length (core # cores) \<le> j" for j using other [of j] that by auto
  ultimately show ?case by blast
qed simp

lemma scheduler_new_statistic:
  assumes "scheduler_new node_of stub cores distance h = (h', s)"
  shows "sch_statistic s = statistic_new (cs_size cores)"
proof -
  have "sched_construct node_of stub distance ids i h s0 = (h', s) \<Longrightarrow> sch_statistic s = sch_statistic s0" for ids i h s0
    by (induction ids arbitrary: i h s0) (auto simp: Let_def split: prod.splits)
  from this [OF assms [unfolded scheduler_new_def]] show ?thesis by simp
qed

text \<open>
  C38: A new scheduler for a core set of at most 128 cores, all in one of 8 NUMA regions, has for the
  core at every position of the core set one worker: it is bound to that core, its channel has the
  position as its identifier and the NUMA region of that core, which the region map has as well; its
  queues and its task buffer are empty. The other worker slots are empty, the counters are zero and
  the scheduler is not running.
\<close>

theorem scheduler_new_has_empty_channels:
  assumes "stubs_distinct stub" "unat distance \<le> 64" "cs_size cores \<le> max_cores"
    "length (cs_core_identifier cores) = max_cores"
    "\<forall>c \<in> set (take (cs_size cores) (cs_core_identifier cores)). node_of c < 8"
    "scheduler_new node_of stub cores distance h = (h', s)"
  shows "sched_rep h' s (\<lambda>_ _. []) (\<lambda>_. []) \<and> sch_count_channels s = cs_size cores \<and> \<not> sch_is_running s \<and>
    sch_core_set s = cores \<and> sch_statistic s = statistic_new (cs_size cores) \<and>
    (\<forall>i < cs_size cores. sch_numa_node_map s ! i = of_nat (node_of (cs_core_identifier cores ! i)) \<and>
       (\<exists>w. sch_worker s ! i = Some w \<and> w_target_core_id w = cs_core_identifier cores ! i \<and> w_prefetch_distance w = distance \<and>
          w_channel_size w = 0 \<and> ch_id (w_channel w) = of_nat i \<and>
          ch_numa_node_id (w_channel w) = of_nat (node_of (cs_core_identifier cores ! i)))) \<and>
    (\<forall>i < max_cores. cs_size cores \<le> i \<longrightarrow> sch_worker s ! i = None)"
proof -
  have len: "length (take (cs_size cores) (cs_core_identifier cores)) = cs_size cores" using assms(3,4) by simp
  note workers = sched_construct_workers [OF assms(6) [unfolded scheduler_new_def], simplified len]
  have "worker_for node_of distance (cs_core_identifier cores ! i) i s" if "i < cs_size cores" for i
    using workers assms(3) that by simp
  moreover have "sch_worker s ! i = None" if "i < max_cores" "cs_size cores \<le> i" for i
    using workers assms(3) that by simp
  moreover have "sch_statistic s = statistic_new (cs_size cores)"
    by (rule scheduler_new_statistic [OF assms(6)])
  moreover have "sched_rep h' s (\<lambda>_ _. []) (\<lambda>_. []) \<and> sch_count_channels s = cs_size cores \<and> \<not> sch_is_running s \<and> sch_core_set s = cores"
    using scheduler_new_built [OF assms(1,2) _ _ assms(5,6)] assms(3,4) built_upto_rep by auto
  ultimately show ?thesis unfolding worker_for_def by blast
qed

definition demo_scheduler :: "addr links \<times> scheduler" where
  "demo_scheduler = scheduler_new (\<lambda>c. c mod 2) (\<lambda>i p n. 16 * i + (8 * p + n))
     (the (core_set_of (\<lambda>c. c mod 2) [0, 1])) 4 (\<lambda>_. None)"

lemma demo_stubs: "stubs_distinct (\<lambda>i p n. 16 * i + (8 * p + n))"
  unfolding stubs_distinct_def
proof (intro allI impI)
  fix i p n i' p' n' :: nat
  assume b: "p < 2" "n < 8" "p' < 2" "n' < 8" and eq: "16 * i + (8 * p + n) = 16 * i' + (8 * p' + n')"
  have "8 * p + n < 16" "8 * p' + n' < 16" using b by simp_all
  then have i: "i = i'" using arg_cong [OF eq, of "\<lambda>x. x div 16"] by simp
  with eq have "8 * p + n = 8 * p' + n'" by simp
  moreover have "p = 0 \<or> p = 1" "p' = 0 \<or> p' = 1" using b by auto
  ultimately have "n = n'" using b by auto
  with \<open>8 * p + n = 8 * p' + n'\<close> i show "i = i' \<and> p = p' \<and> n = n'" by simp
qed

lemma demo_cores:
  "let cs = the (core_set_of (\<lambda>c. c mod 2) [0, 1]) in cs_size cs = 2 \<and> length (cs_core_identifier cs) = 128 \<and>
     take 2 (cs_core_identifier cs) = [0, 1]"
  by (simp add: Let_def core_set_of_def emplace_back_def arr_set_def core_set_new_def numeral_eq_Suc)

theorem scheduler_new_has_empty_channels_witness:
  "sched_rep (fst demo_scheduler) (snd demo_scheduler) (\<lambda>_ _. []) (\<lambda>_. []) \<and>
   sch_count_channels (snd demo_scheduler) = 2 \<and> sch_numa_node_map (snd demo_scheduler) ! 1 = 1"
proof -
  let ?cs = "the (core_set_of (\<lambda>c. c mod 2) [0, 1])"
  have cs: "cs_size ?cs = 2" "length (cs_core_identifier ?cs) = 128" "take 2 (cs_core_identifier ?cs) = [0, 1]"
    using demo_cores by (simp_all add: Let_def)
  then have one: "cs_core_identifier ?cs ! 1 = 1" by (metis nth_Cons_0 nth_Cons_Suc nth_take one_less_numeral_iff semiring_norm(76) One_nat_def)
  have new: "scheduler_new (\<lambda>c. c mod 2) (\<lambda>i p n. 16 * i + (8 * p + n)) ?cs 4 (\<lambda>_. None) = (fst demo_scheduler, snd demo_scheduler)"
    unfolding demo_scheduler_def prod.collapse ..
  show ?thesis
    using scheduler_new_has_empty_channels [OF demo_stubs _ _ _ _ new] cs one by simp
qed

lemma demo_scheduler_built:
  "built_upto (\<lambda>i p n. 16 * i + (8 * p + n)) (sch_count_channels (snd demo_scheduler))
     (fst demo_scheduler) (snd demo_scheduler)"
  "sch_count_channels (snd demo_scheduler) = 2"
proof -
  let ?cs = "the (core_set_of (\<lambda>c. c mod 2) [0, 1])"
  have cs: "cs_size ?cs = 2" "length (cs_core_identifier ?cs) = 128" "take 2 (cs_core_identifier ?cs) = [0, 1]"
    using demo_cores by (simp_all add: Let_def)
  have new: "scheduler_new (\<lambda>c. c mod 2) (\<lambda>i p n. 16 * i + (8 * p + n)) ?cs 4 (\<lambda>_. None) =
      (fst demo_scheduler, snd demo_scheduler)"
    unfolding demo_scheduler_def prod.collapse ..
  have pre: "unat (4 :: u16) \<le> 64" "cs_size ?cs \<le> 128"
    "\<forall>c \<in> set (take (cs_size ?cs) (cs_core_identifier ?cs)). c mod 2 < 8"
    unfolding cs by simp_all
  note r = scheduler_new_built [OF demo_stubs pre(1,2) cs(2) pre(3) new]
  show "built_upto (\<lambda>i p n. 16 * i + (8 * p + n)) (sch_count_channels (snd demo_scheduler))
     (fst demo_scheduler) (snd demo_scheduler)" by (rule conjunct1 [OF r])
  show "sch_count_channels (snd demo_scheduler) = 2" using r cs(1) by simp
qed

text \<open>The tasks that have to run on the channel of their resource to be synchronized.\<close>

definition serialized_at_resource :: "primitive \<Rightarrow> bool \<Rightarrow> bool" where
  "serialized_at_resource prim is_readonly \<longleftrightarrow>
     prim = ScheduleAll \<or> prim \<in> {ScheduleWriter, PrimitiveNone} \<and> \<not> is_readonly"

fun valid_target :: "scheduler \<Rightarrow> target \<Rightarrow> bool" where
  "valid_target s (TargetResource r sz) =
     (unat (resource_channel_id r) < sch_count_channels s \<and> resource_primitive r \<noteq> None)"
| "valid_target s (TargetChannel ch) = (unat ch < sch_count_channels s)"
| "valid_target s (TargetNode n) = False"
| "valid_target s (TargetBool b) = True"

fun allowed_channel :: "target \<Rightarrow> bool \<Rightarrow> u16 \<Rightarrow> nat \<Rightarrow> bool" where
  "allowed_channel (TargetResource r sz) ro current i =
     (i = unat (resource_channel_id r) \<or>
      i = unat current \<and> \<not> serialized_at_resource (the (resource_primitive r)) ro)"
| "allowed_channel (TargetChannel ch) ro current i = (i = unat ch)"
| "allowed_channel _ ro current i = (i = unat current)"

lemma schedule_from_rep:
  assumes "sched_rep h s conts bufs" "sched_fresh s conts a" "unat current < sch_count_channels s"
    "valid_target s (task_target t)"
  shows "\<exists>h' s' i k. schedule_from statistics a t current h s = Inr (h', s') \<and>
    i < sch_count_channels s \<and> valid_qid k \<and>
    sched_rep h' s' (conts(i := (conts i)(k := conts i k @ [a]))) bufs \<and>
    allowed_channel (task_target t) (task_is_readonly t) current i \<and>
    (case k of LocalQ p \<Rightarrow> i = unat current | RemoteQ p n \<Rightarrow> i \<noteq> unat current)"
proof -
  let ?p = "priority_code (task_priority t)"
  note cur = sched_repD [OF assms(1,3)]
  let ?n = "sch_numa_node_map s ! unat current"
  have p: "?p < 2" by (rule priority_code_bound)
  obtain hl sl where l: "schedule_local statistics a t (unat current) h s = Inr (hl, sl)"
    "sched_rep hl sl (conts(unat current := (conts (unat current))(LocalQ ?p := conts (unat current) (LocalQ ?p) @ [a]))) bufs"
    using schedule_local_rep [OF assms(1,3,2) refl] by blast
  have remote: "\<exists>h' s'. schedule_remote statistics a t i (Some ?n) j h s = Inr (h', s') \<and>
      sched_rep h' s' (conts(i := (conts i)(RemoteQ ?p (unat ?n) := conts i (RemoteQ ?p (unat ?n)) @ [a]))) bufs"
    if "i < sch_count_channels s" for i j
    by (rule schedule_remote_rep [OF assms(1) that assms(2) refl cur(5)])
  have here: ?thesis if "schedule_from statistics a t current h s =
        count_scheduled statistics (unat current) (schedule_local statistics a t (unat current) h s)"
      "allowed_channel (task_target t) (task_is_readonly t) current (unat current)"
    using that l assms(3) p by (intro exI [of _ hl] exI [of _ "count_if statistics Scheduled (unat current) sl"]
        exI [of _ "unat current"] exI [of _ "LocalQ ?p"])
      (simp add: count_scheduled_def sched_rep_count_if)
  have there: ?thesis if i: "i < sch_count_channels s" and "schedule_from statistics a t current h s =
        count_scheduled statistics (unat current) (schedule_remote statistics a t i (Some ?n) (unat current) h s)"
      "allowed_channel (task_target t) (task_is_readonly t) current i" "i \<noteq> unat current" for i
  proof -
    obtain h' s' where "schedule_remote statistics a t i (Some ?n) (unat current) h s = Inr (h', s')"
      "sched_rep h' s' (conts(i := (conts i)(RemoteQ ?p (unat ?n) := conts i (RemoteQ ?p (unat ?n)) @ [a]))) bufs"
      using remote [OF i] by blast
    then show ?thesis
      using that p cur(5) by (intro exI [of _ h'] exI [of _ "count_if statistics Scheduled (unat current) s'"]
          exI [of _ i] exI [of _ "RemoteQ ?p (unat ?n)"])
        (simp add: count_scheduled_def sched_rep_count_if)
  qed
  show ?thesis
  proof (cases "task_target t")
    case (TargetResource r sz)
    with assms(4) obtain prim where prim: "resource_primitive r = Some prim"
      and ch: "unat (resource_channel_id r) < sch_count_channels s" by auto
    show ?thesis
    proof (cases "keep_task_local (task_is_readonly t) prim (resource_channel_id r) current")
      case True
      then show ?thesis
        using TargetResource prim by (intro here)
          (auto simp: schedule_from_def Let_def keep_task_local_def serialized_at_resource_def)
    next
      case False
      then show ?thesis
        using TargetResource prim ch cur(4) by (intro there [OF ch])
          (auto simp: schedule_from_def Let_def keep_task_local_def word_unat_eq_iff)
    qed
  next
    case (TargetChannel ch)
    show ?thesis
    proof (cases "ch = current")
      case True
      with TargetChannel show ?thesis by (intro here) (auto simp: schedule_from_def Let_def)
    next
      case False
      with TargetChannel assms(4) cur(4) show ?thesis
        by (intro there [of "unat ch"]) (auto simp: schedule_from_def Let_def word_unat_eq_iff)
    qed
  next
    case (TargetBool b)
    then show ?thesis by (intro here) (auto simp: schedule_from_def Let_def)
  qed (use assms(4) in simp)
qed

text \<open>
  C29: Scheduler::schedule puts a task whose target exists into exactly one queue of exactly
  one channel, behind the tasks waiting there, and changes nothing else. Tasks that are
  synchronized by scheduling (all tasks on a ScheduleAll resource, writers on a
  ScheduleWriter resource or on one without synchronization) go to the channel of their
  resource and tasks with an annotated channel to that channel, wherever they are spawned;
  the unsynchronized local queue is used only for the channel of the spawning worker.
\<close>

theorem schedule_places_task:
  assumes "sched_rep h s conts bufs" "sched_fresh s conts a" "unat current < sch_count_channels s"
    "valid_target s (task_target t)"
  shows "\<exists>h' s' i k. schedule_from statistics a t current h s = Inr (h', s') \<and>
    i < sch_count_channels s \<and> valid_qid k \<and>
    sched_rep h' s' (conts(i := (conts i)(k := conts i k @ [a]))) bufs \<and>
    allowed_channel (task_target t) (task_is_readonly t) current i \<and>
    (case k of LocalQ p \<Rightarrow> i = unat current | RemoteQ p n \<Rightarrow> i \<noteq> unat current)"
  by (rule schedule_from_rep [OF assms])

theorem schedule_places_task_witness:
  "let t = annotate_resource (tagged_ptr_new 4096 (information_new 1 ScheduleWriter)) 64 task_default in
   \<exists>h' s' k. schedule_from False 1000 t 0 (fst demo_scheduler) (snd demo_scheduler) = Inr (h', s') \<and>
     sched_rep h' s' ((\<lambda>_ _. [])(1 := (\<lambda>_. [])(k := [1000]))) (\<lambda>_. [])"
proof -
  let ?r = "tagged_ptr_new 4096 (information_new 1 ScheduleWriter)"
  have r: "resource_channel_id ?r = 1" "resource_primitive ?r = Some ScheduleWriter"
    by (simp_all add: resource_channel_id_def tagged_ptr_new_def information_channel_id_def
        information_new_def resource_primitive_def information_primitive_def primitive_of_code_def arr_get_def)
  have "sched_fresh (snd demo_scheduler) (\<lambda>_ _. []) 1000"
    by (rule built_upto_fresh [OF demo_scheduler_built(1)]) (simp add: demo_scheduler_built(2))
  from schedule_places_task [OF built_upto_rep [OF demo_scheduler_built(1)] this, of 0
      "annotate_resource ?r 64 task_default" False]
  show ?thesis
    by (auto simp: Let_def annotate_resource_def task_default_def r demo_scheduler_built(2)
        serialized_at_resource_def)
qed

text \<open>
  C39: A task that names a NUMA region, and a task without any annotation spawned from
  outside of the workers, are not scheduled: the code stops at an assertion (without
  assertions the task is dropped). All other external tasks are appended to the remote queue
  of region 0 of the channel they name.
\<close>

theorem schedule_external_cases:
  assumes "sched_rep h s conts bufs" "sched_fresh s conts a"
  shows "case task_target t of
      TargetNode n \<Rightarrow> schedule_external statistics a t h s = Inl NodeNotImplemented \<and>
        (\<forall>current. schedule_from statistics a t current h s = Inl NodeNotImplemented)
    | TargetBool b \<Rightarrow> schedule_external statistics a t h s = Inl NoChannel
    | TargetChannel ch \<Rightarrow> (let i = unat ch; k = RemoteQ (priority_code (task_priority t)) 0 in
        i < sch_count_channels s \<longrightarrow>
        (\<exists>h' s'. schedule_external statistics a t h s = Inr (h', s') \<and>
           sched_rep h' s' (conts(i := (conts i)(k := conts i k @ [a]))) bufs))
    | TargetResource r sz \<Rightarrow> (let i = unat (resource_channel_id r); k = RemoteQ (priority_code (task_priority t)) 0 in
        i < sch_count_channels s \<longrightarrow>
        (\<exists>h' s'. schedule_external statistics a t h s = Inr (h', s') \<and>
           sched_rep h' s' (conts(i := (conts i)(k := conts i k @ [a]))) bufs))"
proof -
  have "\<exists>h' s'. schedule_remote statistics a t i (Some 0) i h s = Inr (h', s') \<and>
      sched_rep h' s' (conts(i := (conts i)(RemoteQ (priority_code (task_priority t)) 0 :=
        conts i (RemoteQ (priority_code (task_priority t)) 0) @ [a]))) bufs"
    if "i < sch_count_channels s" for i
    using schedule_remote_rep [OF assms(1) that assms(2), of _ t 0 statistics i] by simp
  then show ?thesis
    by (cases "task_target t")
      (simp_all add: schedule_external_def schedule_from_def Let_def count_scheduled_def)
qed

theorem schedule_external_cases_witness:
  "\<exists>h' s'. schedule_external True 1000 (annotate_channel 1 task_default) (fst demo_scheduler) (snd demo_scheduler) =
     Inr (h', s') \<and> sched_rep h' s' ((\<lambda>_ _. [])(1 := (\<lambda>_. [])(RemoteQ 1 0 := [1000]))) (\<lambda>_. [])"
proof -
  have "sched_fresh (snd demo_scheduler) (\<lambda>_ _. []) 1000"
    by (rule built_upto_fresh [OF demo_scheduler_built(1)]) (simp add: demo_scheduler_built(2))
  from schedule_external_cases [OF built_upto_rep [OF demo_scheduler_built(1)] this,
      of "annotate_channel 1 task_default" True]
  show ?thesis by (simp add: annotate_channel_def task_default_def Let_def demo_scheduler_built(2))
qed

text \<open>Scheduling does not touch a worker's own count of its buffered tasks.\<close>

lemma worker_at_Inr: "worker_at s j = Inr w \<Longrightarrow> j < length (sch_worker s) \<and> sch_worker s ! j = Some w"
  by (auto simp: worker_at_def arr_get_def split: if_splits option.splits)

lemma set_channel_size:
  assumes "worker_at s j = Inr w"
  shows "w_channel_size (the (sch_worker (set_channel j w c s) ! i)) = w_channel_size (the (sch_worker s ! i))"
  using worker_at_Inr [OF assms] by (cases "i = j") (auto simp: set_channel_def)

lemma schedule_from_size:
  assumes "schedule_from statistics a t current h s = Inr (h', s')"
  shows "w_channel_size (the (sch_worker s' ! i)) = w_channel_size (the (sch_worker s ! i))"
proof -
  have l: "w_channel_size (the (sch_worker s'' ! i)) = w_channel_size (the (sch_worker s ! i))"
    if "schedule_local statistics a t j h s = Inr (h'', s'')" for j h'' s''
    using that set_channel_size [of s j]
    by (auto simp: schedule_local_def count_if_fields split: sum.splits prod.splits)
  have r: "w_channel_size (the (sch_worker s'' ! i)) = w_channel_size (the (sch_worker s ! i))"
    if "schedule_remote statistics a t j n k h s = Inr (h'', s'')" for j n k h'' s''
    using that set_channel_size [of s j]
    by (auto simp: schedule_remote_def count_if_fields split: sum.splits option.splits)
  show ?thesis
    using assms unfolding schedule_from_def Let_def count_scheduled_def
    by (auto simp: count_if_fields dest: l r split: sum.splits target.splits option.splits if_splits)
qed

lemma schedule_from_count_channels:
  assumes "schedule_from statistics a t current h s = Inr (h', s')"
  shows "sch_count_channels s' = sch_count_channels s"
proof -
  have l: "sch_count_channels s'' = sch_count_channels s"
    if "schedule_local statistics a t j h s = Inr (h'', s'')" for j h'' s''
    using that by (auto simp: schedule_local_def count_if_fields set_channel_def split: sum.splits prod.splits)
  have r: "sch_count_channels s'' = sch_count_channels s"
    if "schedule_remote statistics a t j n k h s = Inr (h'', s'')" for j n k h'' s''
    using that by (auto simp: schedule_remote_def count_if_fields set_channel_def split: sum.splits option.splits)
  show ?thesis
    using assms unfolding schedule_from_def Let_def count_scheduled_def
    by (auto simp: count_if_fields dest: l r split: sum.splits target.splits option.splits if_splits)
qed

lemma valid_target_cong: "sch_count_channels s = sch_count_channels s' \<Longrightarrow> valid_target s t = valid_target s' t"
  by (cases t) auto

text \<open>The destructor dereferences every slot of the array of 128 workers.\<close>

lemma scheduler_destroy_null: "None \<in> set ws \<Longrightarrow> scheduler_destroy ws = Inl NullWorker"
proof (induction ws)
  case (Cons w ws)
  then show ?case by (cases w) auto
qed simp

end
