(* ===== verification/Latches.thy ===== *)
theory Latches
  imports MxPrelude
begin

section \<open>Spinlock and optimistic lock\<close>

text \<open>
  mx/synchronization/spinlock.h and mx/synchronization/optimistic_lock.h. The shared word of
  a lock is changed by atomic operations, one function each. The methods are small loops
  around them: a thread has a position in the method it runs, and a step relation performs
  one atomic operation of one thread, so that executions are arbitrary interleavings.
\<close>

subsection \<open>Spinlock\<close>

text \<open>
  compare_exchange_weak may fail although the flag is free (\<open>spurious\<close>).
\<close>

definition spin_try_lock :: "bool \<Rightarrow> bool \<Rightarrow> bool \<times> bool" where
  "spin_try_lock spurious flag = (if \<not> flag \<and> \<not> spurious then (True, True) else (False, flag))"

definition spin_unlock :: "bool \<Rightarrow> bool" where
  "spin_unlock flag = False"

datatype spin_pc = SpinIdle | SpinLoad | SpinTry | SpinHeld

record spin_state =
  spin_flag :: bool
  spin_pc :: "nat \<Rightarrow> spin_pc"

definition spin_init :: spin_state where
  "spin_init = \<lparr>spin_flag = False, spin_pc = \<lambda>_. SpinIdle\<rparr>"

inductive spin_step :: "spin_state \<Rightarrow> spin_state \<Rightarrow> bool" where
  lock_call: "spin_pc s t = SpinIdle \<Longrightarrow> spin_step s (s\<lparr>spin_pc := (spin_pc s)(t := SpinLoad)\<rparr>)"
| lock_load: "spin_pc s t = SpinLoad \<Longrightarrow>
    spin_step s (s\<lparr>spin_pc := (spin_pc s)(t := if spin_flag s then SpinLoad else SpinTry)\<rparr>)"
| lock_try: "spin_pc s t = SpinTry \<Longrightarrow> spin_try_lock spurious (spin_flag s) = (ok, f) \<Longrightarrow>
    spin_step s \<lparr>spin_flag = f, spin_pc = (spin_pc s)(t := if ok then SpinHeld else SpinLoad)\<rparr>"
| try_lock_call: "spin_pc s t = SpinIdle \<Longrightarrow> spin_try_lock spurious (spin_flag s) = (ok, f) \<Longrightarrow>
    spin_step s \<lparr>spin_flag = f, spin_pc = (spin_pc s)(t := if ok then SpinHeld else SpinIdle)\<rparr>"
| unlock_call: "spin_pc s t = SpinHeld \<Longrightarrow>
    spin_step s \<lparr>spin_flag = spin_unlock (spin_flag s), spin_pc = (spin_pc s)(t := SpinIdle)\<rparr>"

definition spin_reachable :: "spin_state \<Rightarrow> bool" where
  "spin_reachable s \<longleftrightarrow> spin_step\<^sup>*\<^sup>* spin_init s"

lemma spin_start: "spin_reachable spin_init"
  by (simp add: spin_reachable_def)

lemma spin_next: "spin_reachable s \<Longrightarrow> spin_step s s' \<Longrightarrow> spin_reachable s'"
  by (simp add: spin_reachable_def)

subsection \<open>Optimistic lock\<close>

definition ol_init_version :: u32 where
  "ol_init_version = 4"

definition ol_is_locked :: "u32 \<Rightarrow> bool" where
  "ol_is_locked v \<longleftrightarrow> v AND 2 = 2"

definition ol_is_valid :: "u32 \<Rightarrow> u32 \<Rightarrow> bool" where
  "ol_is_valid version current \<longleftrightarrow> version = current"

definition ol_compare_exchange :: "u32 \<Rightarrow> u32 \<Rightarrow> bool \<times> u32" where
  "ol_compare_exchange expected current =
     (if current = expected then (True, expected + 2) else (False, current))"

definition ol_lock_single :: "u32 \<Rightarrow> u32" where
  "ol_lock_single current = current + 2"

definition ol_unlock :: "u32 \<Rightarrow> u32" where
  "ol_unlock current = current + 2"

text \<open>
  Positions: idle, in read_valid of a writer, about to compare-and-exchange, writing, in
  read_valid of a reader, reading with the version it got, and done with the answer of
  is_valid.
\<close>

datatype ol_pc = OIdle | OSpin | OCas u32 | OWriting | OReadSpin | OReading u32 | OValidated bool

record ol_state =
  ol_version :: u32
  ol_pc :: "nat \<Rightarrow> ol_pc"

definition ol_init :: ol_state where
  "ol_init = \<lparr>ol_version = ol_init_version, ol_pc = \<lambda>_. OIdle\<rparr>"

text \<open>
  A step is labelled with the number of changes it makes to the version. A resource of
  primitive ScheduleWriter is locked with \<open>lock<true>\<close> (\<open>single\<close>): all its writers run on one
  channel, one after the other, so nobody else holds it then. Otherwise writers use \<open>lock<false>\<close>.
\<close>

inductive ol_step :: "bool \<Rightarrow> ol_state \<Rightarrow> nat \<Rightarrow> ol_state \<Rightarrow> bool" where
  single_lock: "single \<Longrightarrow> ol_pc s t = OIdle \<Longrightarrow> (\<And>u. ol_pc s u \<noteq> OWriting) \<Longrightarrow>
    ol_step single s 1 \<lparr>ol_version = ol_lock_single (ol_version s), ol_pc = (ol_pc s)(t := OWriting)\<rparr>"
| multi_call: "\<not> single \<Longrightarrow> ol_pc s t = OIdle \<Longrightarrow> ol_step single s 0 (s\<lparr>ol_pc := (ol_pc s)(t := OSpin)\<rparr>)"
| multi_read: "ol_pc s t = OSpin \<Longrightarrow> ol_step single s 0
    (s\<lparr>ol_pc := (ol_pc s)(t := if ol_is_locked (ol_version s) then OSpin else OCas (ol_version s))\<rparr>)"
| multi_cas: "ol_pc s t = OCas v \<Longrightarrow> ol_compare_exchange v (ol_version s) = (True, v') \<Longrightarrow>
    ol_step single s 1 \<lparr>ol_version = v', ol_pc = (ol_pc s)(t := OWriting)\<rparr>"
| multi_cas_fail: "ol_pc s t = OCas v \<Longrightarrow> ol_compare_exchange v (ol_version s) = (False, v') \<Longrightarrow>
    ol_step single s 0 \<lparr>ol_version = v', ol_pc = (ol_pc s)(t := OSpin)\<rparr>"
| unlock: "ol_pc s t = OWriting \<Longrightarrow>
    ol_step single s 1 \<lparr>ol_version = ol_unlock (ol_version s), ol_pc = (ol_pc s)(t := OIdle)\<rparr>"
| read_call: "ol_pc s t = OIdle \<Longrightarrow> ol_step single s 0 (s\<lparr>ol_pc := (ol_pc s)(t := OReadSpin)\<rparr>)"
| read_version: "ol_pc s t = OReadSpin \<Longrightarrow> ol_step single s 0
    (s\<lparr>ol_pc := (ol_pc s)(t := if ol_is_locked (ol_version s) then OReadSpin else OReading (ol_version s))\<rparr>)"
| validate: "ol_pc s t = OReading v \<Longrightarrow>
    ol_step single s 0 (s\<lparr>ol_pc := (ol_pc s)(t := OValidated (ol_is_valid v (ol_version s)))\<rparr>)"
| read_done: "ol_pc s t = OValidated b \<Longrightarrow> ol_step single s 0 (s\<lparr>ol_pc := (ol_pc s)(t := OIdle)\<rparr>)"

inductive ol_steps :: "bool \<Rightarrow> ol_state \<Rightarrow> nat \<Rightarrow> ol_state \<Rightarrow> bool" where
  ol_none: "ol_steps single s 0 s"
| ol_more: "ol_steps single s n s' \<Longrightarrow> ol_step single s' k s'' \<Longrightarrow> ol_steps single s (n + k) s''"

subsection \<open>Mutual exclusion of the spinlock\<close>

definition spin_inv :: "spin_state \<Rightarrow> bool" where
  "spin_inv s \<longleftrightarrow> (spin_flag s \<longleftrightarrow> (\<exists>t. spin_pc s t = SpinHeld)) \<and>
     (\<forall>t u. spin_pc s t = SpinHeld \<longrightarrow> spin_pc s u = SpinHeld \<longrightarrow> t = u)"

lemma spin_try_lock_cases:
  "spin_try_lock spurious flag = (ok, f) \<Longrightarrow> ok \<and> \<not> flag \<and> f \<or> \<not> ok \<and> f = flag"
  by (auto simp: spin_try_lock_def split: if_splits)

lemma spin_inv_keep:
  "spin_inv s \<Longrightarrow> spin_pc s t \<noteq> SpinHeld \<Longrightarrow> p \<noteq> SpinHeld \<Longrightarrow>
    spin_inv \<lparr>spin_flag = spin_flag s, spin_pc = (spin_pc s)(t := p)\<rparr>"
  unfolding spin_inv_def by (simp, metis)

lemma spin_inv_acquire:
  "spin_inv s \<Longrightarrow> \<not> spin_flag s \<Longrightarrow> spin_inv \<lparr>spin_flag = True, spin_pc = (spin_pc s)(t := SpinHeld)\<rparr>"
  unfolding spin_inv_def by auto

lemma spin_inv_release:
  "spin_inv s \<Longrightarrow> spin_pc s t = SpinHeld \<Longrightarrow>
    spin_inv \<lparr>spin_flag = False, spin_pc = (spin_pc s)(t := SpinIdle)\<rparr>"
  unfolding spin_inv_def by auto

lemma spin_inv_try:
  assumes "spin_inv s" "spin_pc s t \<noteq> SpinHeld" "spin_try_lock spurious (spin_flag s) = (ok, f)" "p \<noteq> SpinHeld"
  shows "spin_inv \<lparr>spin_flag = f, spin_pc = (spin_pc s)(t := if ok then SpinHeld else p)\<rparr>"
  using spin_try_lock_cases [OF assms(3)] spin_inv_acquire [OF assms(1), of t] spin_inv_keep [OF assms(1,2,4)]
  by auto

lemma spin_step_inv: "spin_step s s' \<Longrightarrow> spin_inv s \<Longrightarrow> spin_inv s'"
proof (induction rule: spin_step.induct)
  case (lock_call s t)
  then show ?case using spin_inv_keep [of s t SpinLoad] by (cases s) simp
next
  case (lock_load s t)
  then show ?case
    using spin_inv_keep [of s t "if spin_flag s then SpinLoad else SpinTry"] by (cases s) (simp split: if_splits)
next
  case (lock_try s t spurious ok f)
  then show ?case by (intro spin_inv_try) auto
next
  case (try_lock_call s t spurious ok f)
  then show ?case by (intro spin_inv_try) auto
next
  case (unlock_call s t)
  then show ?case by (simp add: spin_unlock_def spin_inv_release)
qed

lemma spin_init_inv: "spin_inv spin_init"
  by (simp add: spin_init_def spin_inv_def)

interpretation spin_system: step_system "(=) spin_init" spin_step spin_inv
  by unfold_locales (blast intro: spin_init_inv spin_step_inv)+

lemma spin_reachable_inv: "spin_reachable s \<Longrightarrow> spin_inv s"
  unfolding spin_reachable_def by (rule spin_system.reachable_inv [OF refl])

subsection \<open>The version of the optimistic lock\<close>

text \<open>
  The version is even, its lock bit is set exactly while a writer holds the lock, and there
  is at most one such writer.
\<close>

definition ol_inv :: "ol_state \<Rightarrow> bool" where
  "ol_inv s \<longleftrightarrow> unat (ol_version s) mod 4 = (if \<exists>t. ol_pc s t = OWriting then 2 else 0) \<and>
     (\<forall>t u. ol_pc s t = OWriting \<longrightarrow> ol_pc s u = OWriting \<longrightarrow> t = u) \<and>
     (\<forall>t v. ol_pc s t = OCas v \<longrightarrow> \<not> ol_is_locked v) \<and>
     (\<forall>t v. ol_pc s t = OReading v \<longrightarrow> \<not> ol_is_locked v)"

lemma word_add_2_mod_4: "unat (v + 2 :: u32) mod 4 = (unat v + 2) mod 4"
proof -
  have "unat (v + 2) mod 4 = ((unat v + 2) mod 2 ^ 32) mod 4" by (simp add: unat_word_ariths)
  also have "\<dots> = (unat v + 2) mod 4" by (simp add: mod_mod_cancel)
  finally show ?thesis .
qed

lemma ol_is_locked_iff: "ol_is_locked v \<longleftrightarrow> unat v div 2 mod 2 = 1"
proof -
  have "v AND 2 = 2 \<longleftrightarrow> bit v 1"
  proof
    assume "v AND 2 = 2"
    then have "bit (v AND 2) 1" by (simp add: bit_iff_odd)
    then show "bit v 1" by (simp add: bit_and_iff)
  next
    assume b: "bit v 1"
    show "v AND 2 = 2"
    proof (rule bit_eqI)
      fix n
      have "bit (2 :: u32) n \<longleftrightarrow> n = 1" using bit_exp_iff [of 1 n] by (auto simp: possible_bit_def)
      then show "bit (v AND 2) n \<longleftrightarrow> bit (2 :: u32) n" using b by (auto simp: bit_and_iff)
    qed
  qed
  moreover have "bit v 1 \<longleftrightarrow> odd (unat v div 2)"
    using bit_unsigned_iff [of v 1, where 'a = nat] by (simp add: bit_iff_odd)
  ultimately show ?thesis by (simp add: ol_is_locked_def odd_iff_mod_2_eq_one)
qed

lemma ol_inv_locked: "ol_inv s \<Longrightarrow> ol_is_locked (ol_version s) \<longleftrightarrow> (\<exists>t. ol_pc s t = OWriting)"
proof -
  have "m div 2 mod 2 = 1 \<longleftrightarrow> m mod 4 = 2" if "m mod 4 = 2 \<or> m mod 4 = 0" for m :: nat
    using that by presburger
  then show "ol_inv s \<Longrightarrow> ?thesis" by (auto simp: ol_inv_def ol_is_locked_iff split: if_splits)
qed

lemma add_2_mod_4: "m mod 4 = 0 \<Longrightarrow> (m + 2) mod 4 = 2" "m mod 4 = 2 \<Longrightarrow> (m + 2) mod 4 = 0" for m :: nat
  by presburger+

lemma ol_inv_keep:
  assumes "ol_inv s" "ol_pc s t \<noteq> OWriting" "p \<noteq> OWriting"
    "\<And>v. p = OCas v \<or> p = OReading v \<Longrightarrow> \<not> ol_is_locked v"
  shows "ol_inv \<lparr>ol_version = ol_version s, ol_pc = (ol_pc s)(t := p)\<rparr>"
proof -
  have "(\<exists>u. ((ol_pc s)(t := p)) u = OWriting) \<longleftrightarrow> (\<exists>u. ol_pc s u = OWriting)"
    using assms(2,3) by (metis fun_upd_apply)
  then show ?thesis using assms unfolding ol_inv_def by auto
qed

lemma ol_inv_keep':
  "ol_inv s \<Longrightarrow> ol_pc s t \<noteq> OWriting \<Longrightarrow> p \<noteq> OWriting \<Longrightarrow>
    (\<And>v. p = OCas v \<or> p = OReading v \<Longrightarrow> \<not> ol_is_locked v) \<Longrightarrow>
    ol_inv (s\<lparr>ol_pc := (ol_pc s)(t := p)\<rparr>)"
  using ol_inv_keep [of s t p] by (cases s) simp

lemma ol_inv_acquire:
  assumes "ol_inv s" "\<And>u. ol_pc s u \<noteq> OWriting" "v' = ol_version s + 2"
  shows "ol_inv \<lparr>ol_version = v', ol_pc = (ol_pc s)(t := OWriting)\<rparr>"
proof -
  have "unat (ol_version s) mod 4 = 0" using assms(1,2) by (simp add: ol_inv_def)
  then have "unat v' mod 4 = 2" by (simp only: assms(3) word_add_2_mod_4 add_2_mod_4)
  then show ?thesis using assms(1,2) unfolding ol_inv_def by auto
qed

lemma ol_inv_release:
  assumes "ol_inv s" "ol_pc s t = OWriting" "v' = ol_version s + 2"
  shows "ol_inv \<lparr>ol_version = v', ol_pc = (ol_pc s)(t := OIdle)\<rparr>"
proof -
  have "\<exists>u. ol_pc s u = OWriting" using assms(2) by blast
  then have "unat (ol_version s) mod 4 = 2" using assms(1) by (simp add: ol_inv_def)
  then have m: "unat v' mod 4 = 0" by (simp only: assms(3) word_add_2_mod_4 add_2_mod_4)
  have one: "\<And>u. ol_pc s u = OWriting \<Longrightarrow> u = t" using assms(1,2) unfolding ol_inv_def by blast
  then have none: "((ol_pc s)(t := OIdle)) u \<noteq> OWriting" for u by auto
  then show ?thesis using m assms(1) unfolding ol_inv_def by simp
qed

lemma ol_step_inv: "ol_step single s n s' \<Longrightarrow> ol_inv s \<Longrightarrow> ol_inv s'"
proof (induction rule: ol_step.induct)
  case (single_lock single s t)
  show ?case by (rule ol_inv_acquire [OF single_lock(4,3)]) (simp add: ol_lock_single_def)
next
  case (multi_cas s t v v' single)
  have v: "ol_version s = v" "v' = v + 2" using multi_cas(2) by (auto simp: ol_compare_exchange_def split: if_splits)
  have "\<not> ol_is_locked v" using multi_cas(1,3) unfolding ol_inv_def by blast
  then have "ol_pc s u \<noteq> OWriting" for u using ol_inv_locked [OF multi_cas(3)] v by blast
  then show ?case using v by (intro ol_inv_acquire [OF multi_cas(3)]) simp_all
next
  case (multi_cas_fail s t v v' single)
  then have "v' = ol_version s" by (auto simp: ol_compare_exchange_def split: if_splits)
  then show ?case using multi_cas_fail ol_inv_keep [of s t OSpin] by simp
next
  case (unlock s t single)
  show ?case by (rule ol_inv_release [OF unlock(2,1)]) (simp add: ol_unlock_def)
qed (erule ol_inv_keep'; simp split: if_splits)+

lemma ol_init_inv: "ol_inv ol_init"
  by (simp add: ol_inv_def ol_init_def ol_init_version_def)

lemma ol_steps_inv: "ol_steps single s n s' \<Longrightarrow> ol_inv s \<Longrightarrow> ol_inv s'"
  by (induction rule: ol_steps.induct) (auto dest: ol_step_inv)

lemma ol_step_version: "ol_step single s k s' \<Longrightarrow> ol_version s' = ol_version s + of_nat (2 * k)"
  by (induction rule: ol_step.induct)
    (auto simp: ol_lock_single_def ol_unlock_def ol_compare_exchange_def split: if_splits)

lemma ol_steps_version: "ol_steps single s n s' \<Longrightarrow> ol_version s' = ol_version s + of_nat (2 * n)"
proof (induction rule: ol_steps.induct)
  case (ol_more single s n s' k s'')
  then show ?case using ol_step_version [OF ol_more(2)] by (simp add: algebra_simps)
qed simp

subsection \<open>Properties\<close>

text \<open>
  C36: Spinlock: in every interleaving at most one thread holds the lock, its flag is set
  exactly while somebody holds it, and when it is free a thread in the lock method that
  reaches its compare-and-exchange acquires it (unless that fails spuriously).
\<close>

theorem spinlock_mutual_exclusion:
  assumes "spin_reachable s"
  shows "(\<forall>t u. spin_pc s t = SpinHeld \<longrightarrow> spin_pc s u = SpinHeld \<longrightarrow> t = u) \<and>
    (spin_flag s \<longleftrightarrow> (\<exists>t. spin_pc s t = SpinHeld)) \<and>
    (\<forall>t. spin_pc s t = SpinTry \<longrightarrow> (\<forall>u. spin_pc s u \<noteq> SpinHeld) \<longrightarrow>
       spin_step s \<lparr>spin_flag = True, spin_pc = (spin_pc s)(t := SpinHeld)\<rparr>)"
proof -
  have inv: "spin_inv s" by (rule spin_reachable_inv [OF assms])
  have "spin_step s \<lparr>spin_flag = True, spin_pc = (spin_pc s)(t := SpinHeld)\<rparr>"
    if "spin_pc s t = SpinTry" "\<forall>u. spin_pc s u \<noteq> SpinHeld" for t
  proof -
    have "spin_try_lock False (spin_flag s) = (True, True)"
      using inv that(2) by (simp add: spin_inv_def spin_try_lock_def)
    from spin_step.lock_try [OF that(1) this] show ?thesis by simp
  qed
  then show ?thesis using inv by (simp add: spin_inv_def)
qed

theorem spinlock_mutual_exclusion_witness:
  "\<exists>s. spin_reachable s \<and> spin_pc s 3 = SpinHeld \<and> spin_flag s"
proof -
  have "spin_try_lock False (spin_flag spin_init) = (True, True)"
    by (simp add: spin_try_lock_def spin_init_def)
  then have "spin_step spin_init \<lparr>spin_flag = True, spin_pc = (spin_pc spin_init)(3 := if True then SpinHeld else SpinIdle)\<rparr>"
    by (intro spin_step.try_lock_call) (simp add: spin_init_def)
  then have r: "spin_reachable \<lparr>spin_flag = True, spin_pc = (spin_pc spin_init)(3 := SpinHeld)\<rparr>" (is "spin_reachable ?s")
    using spin_next [OF spin_start] by simp
  have "spin_pc ?s 3 = SpinHeld" by simp
  moreover have "spin_flag ?s \<longleftrightarrow> (\<exists>t. spin_pc ?s t = SpinHeld)"
    by (rule spinlock_mutual_exclusion [OF r, THEN conjunct2, THEN conjunct1])
  ultimately have "spin_flag ?s" by blast
  with r \<open>spin_pc ?s 3 = SpinHeld\<close> show ?thesis by blast
qed

text \<open>
  C34: Optimistic lock, reader side: if a reader got a version with read_valid and the
  validation of that version succeeds later, then no writer acquired or released the lock in
  between and none held it when the read began, provided the version changed fewer than 2^31
  times (2^30 writes) in the meantime. So what the reader saw is one consistent state.
\<close>

theorem optimistic_read_is_consistent:
  assumes "ol_steps single ol_init m s" "ol_pc s t = OReadSpin" "\<not> ol_is_locked (ol_version s)"
    "ol_steps single (s\<lparr>ol_pc := (ol_pc s)(t := OReading (ol_version s))\<rparr>) n s'"
    "ol_pc s' t = OReading v" "v = ol_version s" "ol_is_valid v (ol_version s')" "n < 2 ^ 31"
  shows "n = 0 \<and> (\<forall>u. ol_pc s u \<noteq> OWriting) \<and> (\<forall>u. ol_pc s' u \<noteq> OWriting)"
proof -
  have "ol_version s' = ol_version s + of_nat (2 * n)" using ol_steps_version [OF assms(4)] by simp
  then have "(of_nat (2 * n) :: u32) = 0" using assms(6,7) by (simp add: ol_is_valid_def)
  then have "2 ^ LENGTH(32) dvd 2 * n" unfolding word_of_nat_eq_0_iff .
  moreover have "2 * n < 2 ^ LENGTH(32)" using assms(8) by simp
  ultimately have "2 * n = 0" by (metis dvd_imp_le gr_zeroI linorder_not_le)
  then have n: "n = 0" by simp
  have inv: "ol_inv s" by (rule ol_steps_inv [OF assms(1) ol_init_inv])
  have "ol_step single s 0 (s\<lparr>ol_pc := (ol_pc s)(t := OReading (ol_version s))\<rparr>)"
    using ol_step.read_version [OF assms(2), of single] assms(3) by simp
  then have "ol_inv (s\<lparr>ol_pc := (ol_pc s)(t := OReading (ol_version s))\<rparr>)" using inv by (rule ol_step_inv)
  then have "ol_inv s'" by (rule ol_steps_inv [OF assms(4)])
  moreover have "ol_version s' = ol_version s" using assms(6,7) by (simp add: ol_is_valid_def)
  ultimately show ?thesis using ol_inv_locked [OF inv] ol_inv_locked [of s'] assms(3) n by auto
qed

theorem optimistic_read_is_consistent_witness:
  "\<exists>s s'. ol_steps False ol_init 0 s \<and> ol_pc s 1 = OReadSpin \<and>
     ol_steps False (s\<lparr>ol_pc := (ol_pc s)(1 := OReading (ol_version s))\<rparr>) 0 s' \<and> (\<forall>u. ol_pc s' u \<noteq> OWriting)"
proof -
  let ?s = "ol_init\<lparr>ol_pc := (ol_pc ol_init)(1 := OReadSpin)\<rparr>"
  let ?r = "?s\<lparr>ol_pc := (ol_pc ?s)(1 := OReading (ol_version ?s))\<rparr>"
  have "ol_step False ol_init 0 ?s" by (rule ol_step.read_call) (simp add: ol_init_def)
  then have 1: "ol_steps False ol_init 0 ?s" using ol_more [OF ol_none, of False ol_init 0 ?s] by simp
  have 2: "\<not> ol_is_locked (ol_version ?s)" by (simp add: ol_is_locked_iff ol_init_def ol_init_version_def)
  have 3: "ol_steps False ?r 0 ?r" by (rule ol_none)
  from optimistic_read_is_consistent [OF 1 _ 2 3, of "ol_version ?s"] 1 3
  show ?thesis by (intro exI [of _ ?s] exI [of _ ?r]) (simp add: ol_is_valid_def)
qed

text \<open>
  C35: Optimistic lock, writer side: at most one writer holds the lock in every interleaving,
  for writers serialized by their channel as well as for concurrent writers, the lock bit of
  the version is set exactly meanwhile, and every lock and unlock changes the version.
\<close>

theorem optimistic_writers_exclude_each_other:
  assumes "ol_steps single ol_init m s"
  shows "(\<forall>t u. ol_pc s t = OWriting \<longrightarrow> ol_pc s u = OWriting \<longrightarrow> t = u) \<and>
    (ol_is_locked (ol_version s) \<longleftrightarrow> (\<exists>t. ol_pc s t = OWriting)) \<and>
    ol_version s = ol_init_version + of_nat (2 * m)"
proof -
  have inv: "ol_inv s" by (rule ol_steps_inv [OF assms ol_init_inv])
  have "ol_version s = ol_init_version + of_nat (2 * m)"
    using ol_steps_version [OF assms] by (simp add: ol_init_def)
  then show ?thesis using inv ol_inv_locked [OF inv] by (simp add: ol_inv_def)
qed

theorem optimistic_writers_exclude_each_other_witness:
  "\<exists>s. ol_steps True ol_init 1 s \<and> ol_pc s 5 = OWriting \<and> ol_is_locked (ol_version s)"
proof -
  let ?s = "\<lparr>ol_version = ol_lock_single (ol_version ol_init), ol_pc = (ol_pc ol_init)(5 := OWriting)\<rparr>"
  have "ol_step True ol_init 1 ?s" by (rule ol_step.single_lock) (auto simp: ol_init_def)
  then have 1: "ol_steps True ol_init 1 ?s" using ol_more [OF ol_none, of True ol_init 1 ?s] by simp
  have 2: "ol_pc ?s 5 = OWriting" by simp
  have "ol_is_locked (ol_version ?s) \<longleftrightarrow> (\<exists>t. ol_pc ?s t = OWriting)"
    by (rule optimistic_writers_exclude_each_other [OF 1, THEN conjunct2, THEN conjunct1])
  with 1 2 show ?thesis by blast
qed

end
