(* ===== verification/RwLatch.thy ===== *)
theory RwLatch
  imports MxPrelude
begin

section \<open>Reader/writer spinlock\<close>

text \<open>
  mx/synchronization/rw_spinlock.h. The word counts readers in steps of READER = 4; bit 0 is
  WRITER and bit 1 is UPGRADED. Every atomic operation is a function on the 32-bit word
  (the code's int32_t wraps the same way). A method is one or two atomic operations; the
  step relation interleaves the operations of \<open>N\<close> threads.
\<close>

definition rw_try_lock :: "u32 \<Rightarrow> bool \<times> u32" where
  "rw_try_lock b = (if b = 0 then (True, 1) else (False, b))"

definition rw_unlock :: "u32 \<Rightarrow> u32" where
  "rw_unlock b = b AND NOT (1 OR 2)"

definition rw_add_reader :: "u32 \<Rightarrow> bool \<times> u32" where
  "rw_add_reader b = (b AND (1 OR 2) = 0, b + 4)"

definition rw_unlock_shared :: "u32 \<Rightarrow> u32" where
  "rw_unlock_shared b = b - 4"

definition rw_try_lock_upgrade :: "u32 \<Rightarrow> bool \<times> u32" where
  "rw_try_lock_upgrade b = (b AND (2 OR 1) = 0, b OR 2)"

definition rw_unlock_upgrade :: "u32 \<Rightarrow> u32" where
  "rw_unlock_upgrade b = b - 2"

definition rw_try_unlock_upgrade_and_lock :: "u32 \<Rightarrow> bool \<times> u32" where
  "rw_try_unlock_upgrade_and_lock b = (if b = 2 then (True, 1) else (False, b))"

definition rw_unlock_upgrade_and_lock_shared :: "u32 \<Rightarrow> u32" where
  "rw_unlock_upgrade_and_lock_shared b = b + (4 - 2)"

definition rw_set_upgraded :: "u32 \<Rightarrow> u32" where
  "rw_set_upgraded b = b OR 2"

definition rw_sub_writer :: "u32 \<Rightarrow> u32" where
  "rw_sub_writer b = b - 1"

text \<open>
  Positions: outside; in try_lock_shared about to take back its reader count; holding the lock
  shared, exclusively or for upgrade; in unlock_and_lock_shared and in
  unlock_and_lock_upgrade between their two operations.
\<close>

datatype rw_pc = RwIdle | RwRetract | RwShared | RwWrite | RwDowngrade | RwKeepUpgrade | RwUpgrade

record rw_state =
  rw_bits :: u32
  rw_pc :: "nat \<Rightarrow> rw_pc"

definition rw_init :: rw_state where
  "rw_init = \<lparr>rw_bits = 0, rw_pc = \<lambda>_. RwIdle\<rparr>"

definition rw_set :: "u32 \<Rightarrow> nat \<Rightarrow> rw_pc \<Rightarrow> rw_state \<Rightarrow> rw_state" where
  "rw_set b t p s = \<lparr>rw_bits = b, rw_pc = (rw_pc s)(t := p)\<rparr>"

inductive rw_step :: "nat \<Rightarrow> rw_state \<Rightarrow> rw_state \<Rightarrow> bool" for N where
  try_lock: "t < N \<Longrightarrow> rw_pc s t = RwIdle \<Longrightarrow> rw_try_lock (rw_bits s) = (ok, b) \<Longrightarrow>
    rw_step N s (rw_set b t (if ok then RwWrite else RwIdle) s)"
| unlock: "t < N \<Longrightarrow> rw_pc s t = RwWrite \<Longrightarrow> rw_step N s (rw_set (rw_unlock (rw_bits s)) t RwIdle s)"
| try_lock_shared: "t < N \<Longrightarrow> rw_pc s t = RwIdle \<Longrightarrow> rw_add_reader (rw_bits s) = (ok, b) \<Longrightarrow>
    rw_step N s (rw_set b t (if ok then RwShared else RwRetract) s)"
| retract: "t < N \<Longrightarrow> rw_pc s t = RwRetract \<Longrightarrow>
    rw_step N s (rw_set (rw_unlock_shared (rw_bits s)) t RwIdle s)"
| unlock_shared: "t < N \<Longrightarrow> rw_pc s t = RwShared \<Longrightarrow>
    rw_step N s (rw_set (rw_unlock_shared (rw_bits s)) t RwIdle s)"
| downgrade_add: "t < N \<Longrightarrow> rw_pc s t = RwWrite \<Longrightarrow> rw_add_reader (rw_bits s) = (ok, b) \<Longrightarrow>
    rw_step N s (rw_set b t RwDowngrade s)"
| downgrade_unlock: "t < N \<Longrightarrow> rw_pc s t = RwDowngrade \<Longrightarrow>
    rw_step N s (rw_set (rw_unlock (rw_bits s)) t RwShared s)"
| try_lock_upgrade: "t < N \<Longrightarrow> rw_pc s t = RwIdle \<Longrightarrow> rw_try_lock_upgrade (rw_bits s) = (ok, b) \<Longrightarrow>
    rw_step N s (rw_set b t (if ok then RwUpgrade else RwIdle) s)"
| unlock_upgrade: "t < N \<Longrightarrow> rw_pc s t = RwUpgrade \<Longrightarrow>
    rw_step N s (rw_set (rw_unlock_upgrade (rw_bits s)) t RwIdle s)"
| upgrade_to_writer: "t < N \<Longrightarrow> rw_pc s t = RwUpgrade \<Longrightarrow>
    rw_try_unlock_upgrade_and_lock (rw_bits s) = (ok, b) \<Longrightarrow>
    rw_step N s (rw_set b t (if ok then RwWrite else RwUpgrade) s)"
| upgrade_to_shared: "t < N \<Longrightarrow> rw_pc s t = RwUpgrade \<Longrightarrow>
    rw_step N s (rw_set (rw_unlock_upgrade_and_lock_shared (rw_bits s)) t RwShared s)"
| keep_upgrade_or: "t < N \<Longrightarrow> rw_pc s t = RwWrite \<Longrightarrow>
    rw_step N s (rw_set (rw_set_upgraded (rw_bits s)) t RwKeepUpgrade s)"
| keep_upgrade_sub: "t < N \<Longrightarrow> rw_pc s t = RwKeepUpgrade \<Longrightarrow>
    rw_step N s (rw_set (rw_sub_writer (rw_bits s)) t RwUpgrade s)"

definition rw_reachable :: "nat \<Rightarrow> rw_state \<Rightarrow> bool" where
  "rw_reachable N s \<longleftrightarrow> (rw_step N)\<^sup>*\<^sup>* rw_init s"

lemma rw_start: "rw_reachable N rw_init"
  by (simp add: rw_reachable_def)

lemma rw_next: "rw_reachable N s \<Longrightarrow> rw_step N s s' \<Longrightarrow> rw_reachable N s'"
  by (simp add: rw_reachable_def)

subsection \<open>The word as three fields\<close>

definition rw_fields :: "nat \<Rightarrow> bool \<Rightarrow> bool \<Rightarrow> nat" where
  "rw_fields r w u = 4 * r + of_bool w + 2 * of_bool u"

lemma bit_3_iff: "bit (3 :: u32) n \<longleftrightarrow> n = 0 \<or> n = 1"
proof -
  have "(3 :: u32) = mask 2" by (simp add: mask_eq_exp_minus_1)
  then have "bit (3 :: u32) n \<longleftrightarrow> possible_bit TYPE(32 word) n \<and> n < 2" by (simp only: bit_mask_iff)
  then show ?thesis by (auto simp: possible_bit_def less_2_cases_iff)
qed

lemma rw_fields_bits:
  assumes "unat (b :: u32) = rw_fields r w u"
  shows "bit b 0 = w" "bit b 1 = u" "b AND (1 OR 2) = 0 \<longleftrightarrow> \<not> w \<and> \<not> u"
proof -
  have "bit b n = bit (unat b) n" if "n < 32" for n
    using that by (simp add: bit_unsigned_iff possible_bit_def)
  from this [of 0] this [of 1] have "bit b 0 = odd (unat b)" "bit b 1 = odd (unat b div 2)"
    by (simp_all add: bit_iff_odd [where 'a = nat])
  then show 0: "bit b 0 = w" and 1: "bit b 1 = u"
    unfolding assms rw_fields_def by (cases w; cases u; simp)+
  show "b AND (1 OR 2) = 0 \<longleftrightarrow> \<not> w \<and> \<not> u"
  proof
    assume "b AND (1 OR 2) = 0"
    then have "\<not> bit (b AND (1 OR 2)) n" for n by simp
    from this [of 0] this [of 1] show "\<not> w \<and> \<not> u" using 0 1 by (auto simp: bit_and_iff bit_3_iff)
  next
    assume "\<not> w \<and> \<not> u"
    then have "\<not> bit (b AND 3) n" for n using 0 1 bit_3_iff [of n] by (auto simp: bit_and_iff)
    then have "b AND 3 = 0" by (intro bit_eqI) simp
    then show "b AND (1 OR 2) = 0" by simp
  qed
qed

lemma rw_fields_or:
  assumes "unat (b :: u32) = rw_fields r w u"
  shows "unat (b OR 2) = rw_fields r w True"
proof -
  have "b OR 2 = set_bit 1 b" by (simp add: set_bit_eq_or)
  also have "\<dots> = (if u then b else b + 2)" using rw_fields_bits [OF assms] by (simp add: set_bit_eq)
  finally have "b OR 2 = (if u then b else b + 2)" .
  moreover have "unat (b + 2) = unat b + 2" if "\<not> u"
  proof -
    have "r < 2 ^ 30" using assms unsigned_less [of b, where 'a = nat] by (auto simp: rw_fields_def)
    then show ?thesis using assms that by (cases w) (auto simp: unat_word_ariths rw_fields_def)
  qed
  ultimately show ?thesis using assms by (auto simp: rw_fields_def)
qed

lemma rw_fields_and:
  assumes "unat (b :: u32) = rw_fields r w u"
  shows "unat (b AND NOT (1 OR 2)) = rw_fields r False False"
proof -
  have "bit (b AND NOT 3) n = bit (unset_bit 0 (unset_bit 1 b)) n" for n
    unfolding bit_and_iff bit_not_iff bit_unset_bit_iff bit_3_iff by (auto dest: bit_imp_possible_bit)
  then have "b AND NOT 3 = unset_bit 0 (unset_bit 1 b)" by (intro bit_eqI)
  then have "b AND NOT (1 OR 2) = unset_bit 0 (unset_bit 1 b)" by simp
  also have "\<dots> = unset_bit 1 b - of_bool w"
    using rw_fields_bits(1) [OF assms] unset_bit_eq [of 0 "unset_bit 1 b"] by (simp add: bit_unset_bit_iff)
  also have "\<dots> = b - (of_bool u * 2 + of_bool w)"
    using rw_fields_bits(2) [OF assms] by (simp add: unset_bit_eq)
  finally have eq: "b AND NOT (1 OR 2) = b - (of_bool u * 2 + of_bool w)" .
  have k: "unat (of_bool u * 2 + of_bool w :: u32) = of_bool u * 2 + of_bool w" by (cases u; cases w) simp_all
  have "(of_bool u * 2 + of_bool w :: u32) \<le> b" using assms k by (simp add: word_le_nat_alt rw_fields_def)
  then show ?thesis unfolding eq using assms k by (simp add: unat_sub rw_fields_def)
qed

lemma rw_fields_add:
  "unat (b :: u32) = rw_fields r w u \<Longrightarrow> r + 1 < 2 ^ 30 \<Longrightarrow> unat (b + 4) = rw_fields (r + 1) w u"
  by (cases w; cases u) (simp_all add: unat_word_ariths rw_fields_def)

lemma rw_fields_sub:
  assumes "unat (b :: u32) = rw_fields r w u" "0 < r"
  shows "unat (b - 4) = rw_fields (r - 1) w u"
proof -
  have "4 \<le> b" using assms by (simp add: word_le_nat_alt rw_fields_def)
  then show ?thesis using assms by (simp add: unat_sub rw_fields_def)
qed

lemma rw_fields_clear:
  assumes "unat (b :: u32) = rw_fields r w u"
  shows "u \<Longrightarrow> unat (b - 2) = rw_fields r w False" "w \<Longrightarrow> unat (b - 1) = rw_fields r False u"
proof -
  assume u
  then have "2 \<le> b" using assms by (simp add: word_le_nat_alt rw_fields_def)
  then show "unat (b - 2) = rw_fields r w False" using assms \<open>u\<close> by (simp add: unat_sub rw_fields_def)
next
  assume w
  then have "1 \<le> b" using assms by (simp add: word_le_nat_alt rw_fields_def)
  then show "unat (b - 1) = rw_fields r False u" using assms \<open>w\<close> by (simp add: unat_sub rw_fields_def)
qed

lemma rw_fields_shared:
  "unat (b :: u32) = rw_fields r w True \<Longrightarrow> r + 1 < 2 ^ 30 \<Longrightarrow> unat (b + (4 - 2)) = rw_fields (r + 1) w False"
  by (cases w) (simp_all add: unat_word_ariths rw_fields_def)

lemma rw_fields_const:
  "unat (0 :: u32) = rw_fields r w u \<longleftrightarrow> r = 0 \<and> \<not> w \<and> \<not> u"
  "unat (1 :: u32) = rw_fields 0 True False"
  "unat (2 :: u32) = rw_fields r w u \<longleftrightarrow> r = 0 \<and> \<not> w \<and> u"
  by (cases w; cases u; auto simp: rw_fields_def)+

subsection \<open>Invariant\<close>

definition rw_counted :: "rw_pc \<Rightarrow> bool" where
  "rw_counted p \<longleftrightarrow> p \<in> {RwShared, RwRetract, RwDowngrade}"

definition rw_writing :: "rw_pc \<Rightarrow> bool" where
  "rw_writing p \<longleftrightarrow> p \<in> {RwWrite, RwDowngrade, RwKeepUpgrade}"

definition rw_owning :: "rw_pc \<Rightarrow> bool" where
  "rw_owning p \<longleftrightarrow> rw_writing p \<or> p = RwUpgrade"

text \<open>
  The state of all threads but \<open>t\<close>: how many are counted as readers, whether one is writing,
  owning, keeping the UPGRADED bit, or reading.
\<close>

definition rw_others :: "(nat \<Rightarrow> rw_pc) \<Rightarrow> nat \<Rightarrow> (rw_pc \<Rightarrow> bool) \<Rightarrow> nat set" where
  "rw_others f t P = {v. v \<noteq> t \<and> P (f v)}"

definition rw_core :: "nat \<Rightarrow> bool \<Rightarrow> bool \<Rightarrow> bool \<Rightarrow> bool \<Rightarrow> rw_pc \<Rightarrow> bool \<Rightarrow> u32 \<Rightarrow> bool" where
  "rw_core c w x k r p u b \<longleftrightarrow>
     unat b = rw_fields (c + of_bool (rw_counted p)) (rw_writing p \<or> w) u \<and>
     (rw_owning p \<longrightarrow> \<not> x) \<and>
     (p = RwUpgrade \<or> p = RwKeepUpgrade \<or> k \<longrightarrow> u) \<and>
     (u \<longrightarrow> rw_owning p \<or> x) \<and>
     (rw_writing p \<or> w \<longrightarrow> p \<noteq> RwShared \<and> \<not> r)"

definition rw_side :: "nat \<Rightarrow> bool \<Rightarrow> bool \<Rightarrow> bool \<Rightarrow> bool \<Rightarrow> bool" where
  "rw_side c w x k r \<longleftrightarrow> c + 1 < 2 ^ 30 \<and> (w \<longrightarrow> x) \<and> (k \<longrightarrow> x) \<and> (x \<longrightarrow> w \<or> k) \<and> (r \<longrightarrow> 0 < c)"

lemmas rw_kinds = rw_counted_def rw_writing_def rw_owning_def

lemma rw_core_try_lock:
  assumes "rw_core c w x k r RwIdle u b" "rw_side c w x k r" "rw_try_lock b = (ok, b')"
  shows "rw_core c w x k r (if ok then RwWrite else RwIdle) (u \<and> \<not> ok) b'"
proof (cases "b = 0")
  case True
  have b: "unat b = rw_fields c w u" using assms(1) by (simp add: rw_core_def rw_kinds)
  then have "c = 0" "\<not> w" "\<not> u" unfolding True rw_fields_const(1) by simp_all
  moreover from this have "\<not> k" "\<not> x" "\<not> r" using assms(1,2) by (auto simp: rw_core_def rw_side_def)
  moreover have "ok" "b' = 1" using assms(3) True by (simp_all add: rw_try_lock_def)
  ultimately show ?thesis using rw_fields_const(2) by (simp add: rw_core_def rw_kinds)
next
  case False
  then have "\<not> ok" "b' = b" using assms(3) by (simp_all add: rw_try_lock_def)
  then show ?thesis using assms(1) by simp
qed

lemma rw_core_unlock:
  assumes "rw_core c w x k r p u b" "p = RwWrite \<or> p = RwDowngrade" "rw_side c w x k r"
  shows "rw_core c w x k r (if p = RwWrite then RwIdle else RwShared) False (rw_unlock b)"
proof -
  have w: "rw_writing p" "rw_owning p" using assms(2) by (auto simp: rw_kinds)
  then have "\<not> x" "\<not> r" using assms(1) unfolding rw_core_def by blast+
  moreover from this have "\<not> w" "\<not> k" using assms(3) unfolding rw_side_def by blast+
  moreover have "unat b = rw_fields (c + of_bool (rw_counted p)) True u"
    using assms(1) w unfolding rw_core_def by simp
  then have "unat (rw_unlock b) = rw_fields (c + of_bool (rw_counted p)) False False"
    unfolding rw_unlock_def by (rule rw_fields_and)
  ultimately show ?thesis using assms(2) by (elim disjE) (simp_all add: rw_core_def rw_kinds)
qed

lemma rw_core_add_reader:
  assumes "rw_core c w x k r RwIdle u b" "rw_side c w x k r" "rw_add_reader b = (ok, b')"
  shows "rw_core c w x k r (if ok then RwShared else RwRetract) u b'"
proof -
  have b: "unat b = rw_fields c w u" using assms(1) by (simp add: rw_core_def rw_kinds)
  have "unat b' = rw_fields (c + 1) w u" and ok: "ok \<longleftrightarrow> \<not> w \<and> \<not> u"
    using assms(2,3) rw_fields_add [OF b] rw_fields_bits(3) [OF b]
    unfolding rw_add_reader_def prod.inject rw_side_def by simp_all
  then show ?thesis using assms(1) by (auto simp: rw_core_def rw_kinds)
qed

lemma rw_core_unlock_shared:
  assumes "rw_core c w x k r p u b" "p = RwRetract \<or> p = RwShared"
  shows "rw_core c w x k r RwIdle u (rw_unlock_shared b)"
proof -
  have b: "unat b = rw_fields (c + 1) w u" using assms by (auto simp: rw_core_def rw_kinds)
  have "unat (rw_unlock_shared b) = rw_fields c w u"
    using rw_fields_sub [OF b] by (simp add: rw_unlock_shared_def)
  then show ?thesis using assms by (auto simp: rw_core_def rw_kinds)
qed

lemma rw_core_downgrade:
  assumes "rw_core c w x k r RwWrite u b" "rw_side c w x k r" "rw_add_reader b = (ok, b')"
  shows "rw_core c w x k r RwDowngrade u b'"
proof -
  have b: "unat b = rw_fields c True u" using assms(1) by (simp add: rw_core_def rw_kinds)
  have "unat b' = rw_fields (c + 1) True u"
    using assms(2,3) rw_fields_add [OF b] by (auto simp: rw_add_reader_def rw_side_def)
  then show ?thesis using assms(1) by (auto simp: rw_core_def rw_kinds)
qed

lemma rw_core_try_lock_upgrade:
  assumes "rw_core c w x k r RwIdle u b" "rw_side c w x k r" "rw_try_lock_upgrade b = (ok, b')"
  shows "rw_core c w x k r (if ok then RwUpgrade else RwIdle) True b'"
proof -
  have b: "unat b = rw_fields c w u" using assms(1) by (simp add: rw_core_def rw_kinds)
  have "unat b' = rw_fields c w True" and ok: "ok \<longleftrightarrow> \<not> w \<and> \<not> u"
    using assms(3) rw_fields_or [OF b] rw_fields_bits(3) [OF b]
    unfolding rw_try_lock_upgrade_def prod.inject or.commute [of 2 1] by simp_all
  then show ?thesis using assms(1,2) by (auto simp: rw_core_def rw_kinds rw_side_def)
qed

lemma rw_core_upgrade:
  assumes "rw_core c w x k r RwUpgrade u b" "rw_side c w x k r"
  shows "rw_core c w x k r RwIdle False (rw_unlock_upgrade b)"
    "rw_try_unlock_upgrade_and_lock b = (ok, b') \<Longrightarrow>
       rw_core c w x k r (if ok then RwWrite else RwUpgrade) (\<not> ok) b'"
    "rw_core c w x k r RwShared False (rw_unlock_upgrade_and_lock_shared b)"
proof -
  have b: "unat b = rw_fields c False True" and f: "\<not> x" "\<not> w" "\<not> k" "u"
    using assms by (auto simp: rw_core_def rw_kinds rw_side_def)
  show "rw_core c w x k r RwIdle False (rw_unlock_upgrade b)"
    using f rw_fields_clear(1) [OF b] by (simp add: rw_core_def rw_kinds rw_unlock_upgrade_def)
  show "rw_core c w x k r RwShared False (rw_unlock_upgrade_and_lock_shared b)"
    using f rw_fields_shared [OF b] assms(2)
    by (simp add: rw_core_def rw_kinds rw_unlock_upgrade_and_lock_shared_def rw_side_def)
  assume t: "rw_try_unlock_upgrade_and_lock b = (ok, b')"
  show "rw_core c w x k r (if ok then RwWrite else RwUpgrade) (\<not> ok) b'"
  proof (cases "b = 2")
    case True
    then have "c = 0" using b rw_fields_const(3) by simp
    moreover from this have "\<not> r" using assms(2) by (simp add: rw_side_def)
    moreover have "ok" "b' = 1" using t True by (simp_all add: rw_try_unlock_upgrade_and_lock_def)
    ultimately show ?thesis using f rw_fields_const(2) by (simp add: rw_core_def rw_kinds)
  next
    case False
    then have "\<not> ok" "b' = b" using t by (simp_all add: rw_try_unlock_upgrade_and_lock_def)
    then show ?thesis using b f by (simp add: rw_core_def rw_kinds)
  qed
qed

lemma rw_core_keep_upgrade:
  assumes "rw_side c w x k r"
  shows "rw_core c w x k r RwWrite u b \<Longrightarrow> rw_core c w x k r RwKeepUpgrade True (rw_set_upgraded b)"
    "rw_core c w x k r RwKeepUpgrade u b \<Longrightarrow> rw_core c w x k r RwUpgrade True (rw_sub_writer b)"
proof -
  assume c: "rw_core c w x k r RwWrite u b"
  then have b: "unat b = rw_fields c True u" by (simp add: rw_core_def rw_kinds)
  show "rw_core c w x k r RwKeepUpgrade True (rw_set_upgraded b)"
    using c rw_fields_or [OF b] by (simp add: rw_core_def rw_kinds rw_set_upgraded_def)
next
  assume c: "rw_core c w x k r RwKeepUpgrade u b"
  then have b: "unat b = rw_fields c True u" and u by (simp_all add: rw_core_def rw_kinds)
  then show "rw_core c w x k r RwUpgrade True (rw_sub_writer b)"
    using c rw_fields_clear(2) [OF b] assms by (auto simp: rw_core_def rw_kinds rw_sub_writer_def rw_side_def)
qed

text \<open>The invariant of a state, and its view from one thread.\<close>

definition rw_inv :: "nat \<Rightarrow> (nat \<Rightarrow> rw_pc) \<Rightarrow> u32 \<Rightarrow> bool" where
  "rw_inv N f b \<longleftrightarrow> (\<forall>v. f v \<noteq> RwIdle \<longrightarrow> v < N) \<and>
     (\<forall>t v. rw_owning (f t) \<longrightarrow> rw_owning (f v) \<longrightarrow> t = v) \<and>
     (\<exists>u. unat b = rw_fields (card {v. rw_counted (f v)}) (\<exists>v. rw_writing (f v)) u \<and>
        ((\<exists>v. f v = RwUpgrade \<or> f v = RwKeepUpgrade) \<longrightarrow> u) \<and> (u \<longrightarrow> (\<exists>v. rw_owning (f v))) \<and>
        ((\<exists>v. rw_writing (f v)) \<longrightarrow> (\<forall>v. f v \<noteq> RwShared)))"

definition rw_view :: "(nat \<Rightarrow> rw_pc) \<Rightarrow> nat \<Rightarrow> rw_pc \<Rightarrow> bool \<Rightarrow> u32 \<Rightarrow> bool" where
  "rw_view f t p u b \<longleftrightarrow> rw_core (card (rw_others f t rw_counted)) (rw_others f t rw_writing \<noteq> {})
     (rw_others f t rw_owning \<noteq> {}) (rw_others f t (\<lambda>p. p = RwUpgrade \<or> p = RwKeepUpgrade) \<noteq> {})
     (rw_others f t (\<lambda>p. p = RwShared) \<noteq> {}) p u b"

lemma rw_others_upd [simp]: "rw_others (f(t := p)) t P = rw_others f t P"
  by (auto simp: rw_others_def)

lemma rw_ex_split: "(\<exists>v. P (f v)) \<longleftrightarrow> P (f t) \<or> rw_others f t P \<noteq> {}"
  by (auto simp: rw_others_def)

lemma rw_card_split:
  assumes "finite {v. P (f v)}"
  shows "card {v. P (f v)} = card (rw_others f t P) + of_bool (P (f t))"
proof -
  have "{v. P (f v)} = (if P (f t) then insert t (rw_others f t P) else rw_others f t P)"
    by (auto simp: rw_others_def)
  moreover have "finite (rw_others f t P)" using assms by (rule finite_subset [rotated]) (auto simp: rw_others_def)
  moreover have "t \<notin> rw_others f t P" by (simp add: rw_others_def)
  ultimately show ?thesis by (simp add: card_insert_if)
qed

lemma rw_counted_finite: "\<forall>v :: nat. f v \<noteq> RwIdle \<longrightarrow> v < N \<Longrightarrow> finite {v. rw_counted (f v)}"
  by (rule finite_subset [of _ "{..<N}"]) (auto simp: rw_counted_def)

lemma rw_inv_view:
  assumes "\<forall>v. f v \<noteq> RwIdle \<longrightarrow> v < N"
  shows "rw_inv N f b \<longleftrightarrow> (\<forall>v w. v \<noteq> t \<longrightarrow> w \<noteq> t \<longrightarrow> rw_owning (f v) \<longrightarrow> rw_owning (f w) \<longrightarrow> v = w) \<and>
    (\<exists>u. rw_view f t (f t) u b)"
proof -
  have shared: "(\<forall>v. f v \<noteq> RwShared) \<longleftrightarrow> f t \<noteq> RwShared \<and> rw_others f t (\<lambda>p. p = RwShared) = {}"
    by (auto simp: rw_others_def)
  have keep: "(\<exists>v. f v = RwUpgrade \<or> f v = RwKeepUpgrade) \<longleftrightarrow> f t = RwUpgrade \<or> f t = RwKeepUpgrade \<or>
      rw_others f t (\<lambda>p. p = RwUpgrade \<or> p = RwKeepUpgrade) \<noteq> {}" by (auto simp: rw_others_def)
  have own: "(\<forall>v w. rw_owning (f v) \<longrightarrow> rw_owning (f w) \<longrightarrow> v = w) \<longleftrightarrow>
      (\<forall>v w. v \<noteq> t \<longrightarrow> w \<noteq> t \<longrightarrow> rw_owning (f v) \<longrightarrow> rw_owning (f w) \<longrightarrow> v = w) \<and>
      (rw_owning (f t) \<longrightarrow> rw_others f t rw_owning = {})"
    unfolding rw_others_def Collect_empty_eq by (rule iffI, blast, metis)
  show ?thesis
    unfolding rw_inv_def rw_view_def rw_core_def own shared keep
      rw_ex_split [of rw_writing f t] rw_ex_split [of rw_owning f t]
      rw_card_split [OF rw_counted_finite [OF assms], of t]
    using assms by (auto simp: disj_assoc)
qed

lemma rw_view_side:
  assumes "\<forall>v. f v \<noteq> RwIdle \<longrightarrow> v < N" "t < N" "N < 2 ^ 30"
  shows "rw_side (card (rw_others f t rw_counted)) (rw_others f t rw_writing \<noteq> {})
     (rw_others f t rw_owning \<noteq> {}) (rw_others f t (\<lambda>p. p = RwUpgrade \<or> p = RwKeepUpgrade) \<noteq> {})
     (rw_others f t (\<lambda>p. p = RwShared) \<noteq> {})"
proof -
  have sub: "rw_others f t rw_counted \<subseteq> {..<N} - {t}"
    using assms(1) by (auto simp: rw_others_def rw_counted_def)
  then have "card (rw_others f t rw_counted) \<le> card ({..<N} - {t})" by (intro card_mono) auto
  also have "\<dots> = N - 1" using assms(2) by simp
  finally have c: "card (rw_others f t rw_counted) + 1 < 2 ^ 30" using assms(2,3) by linarith
  have fin: "finite (rw_others f t rw_counted)" by (rule finite_subset [OF sub]) simp
  have "0 < card (rw_others f t rw_counted)" if "rw_others f t (\<lambda>p. p = RwShared) \<noteq> {}"
  proof -
    have "rw_others f t (\<lambda>p. p = RwShared) \<subseteq> rw_others f t rw_counted"
      by (auto simp: rw_others_def rw_counted_def)
    then show ?thesis using that fin by (auto simp: card_gt_0_iff)
  qed
  then show ?thesis using c unfolding rw_side_def
    by (auto simp: rw_others_def rw_owning_def rw_writing_def)
qed

text \<open>One step of a thread, from its own view.\<close>

lemma rw_inv_set:
  assumes "rw_inv N (rw_pc s) (rw_bits s)" "t < N" "rw_view (rw_pc s) t p u b"
  shows "rw_inv N (rw_pc (rw_set b t p s)) (rw_bits (rw_set b t p s))"
proof -
  have idle: "\<forall>v. rw_pc s v \<noteq> RwIdle \<longrightarrow> v < N" using assms(1) by (simp add: rw_inv_def)
  then have idle': "\<forall>v. ((rw_pc s)(t := p)) v \<noteq> RwIdle \<longrightarrow> v < N" using assms(2) by simp
  have "\<forall>v w. v \<noteq> t \<longrightarrow> w \<noteq> t \<longrightarrow> rw_owning (rw_pc s v) \<longrightarrow> rw_owning (rw_pc s w) \<longrightarrow> v = w"
    using assms(1) unfolding rw_inv_view [OF idle, of _ t] by blast
  then have "rw_inv N ((rw_pc s)(t := p)) b"
    using assms(3) unfolding rw_inv_view [OF idle', of _ t] by (auto simp: rw_view_def)
  then show ?thesis by (simp add: rw_set_def)
qed

lemma rw_inv_by_core:
  assumes "rw_inv N (rw_pc s) (rw_bits s)" "N < 2 ^ 30" "t < N"
    "\<And>c w x k r u. rw_core c w x k r (rw_pc s t) u (rw_bits s) \<Longrightarrow> rw_side c w x k r \<Longrightarrow>
       \<exists>u'. rw_core c w x k r p u' b"
  shows "rw_inv N (rw_pc (rw_set b t p s)) (rw_bits (rw_set b t p s))"
proof -
  have idle: "\<forall>v. rw_pc s v \<noteq> RwIdle \<longrightarrow> v < N" using assms(1) by (simp add: rw_inv_def)
  obtain u where "rw_view (rw_pc s) t (rw_pc s t) u (rw_bits s)"
    using assms(1) unfolding rw_inv_view [OF idle, of _ t] by blast
  from assms(4) [OF this [unfolded rw_view_def] rw_view_side [OF idle assms(3,2)]]
  obtain u' where "rw_view (rw_pc s) t p u' b" unfolding rw_view_def by blast
  then show ?thesis by (rule rw_inv_set [OF assms(1,3)])
qed

lemma rw_step_inv:
  assumes "rw_step N s s'" "rw_inv N (rw_pc s) (rw_bits s)" "N < 2 ^ 30"
  shows "rw_inv N (rw_pc s') (rw_bits s')"
  using assms(1)
proof cases
  case (try_lock t ok b)
  show ?thesis unfolding try_lock(1)
    by (rule rw_inv_by_core [OF assms(2,3) try_lock(2)])
      (unfold try_lock(3), blast intro: rw_core_try_lock [OF _ _ try_lock(4)])
next
  case (unlock t)
  show ?thesis unfolding unlock(1)
    by (rule rw_inv_by_core [OF assms(2,3) unlock(2)]) (use unlock(3) rw_core_unlock in force)
next
  case (try_lock_shared t ok b)
  show ?thesis unfolding try_lock_shared(1)
    by (rule rw_inv_by_core [OF assms(2,3) try_lock_shared(2)])
      (unfold try_lock_shared(3), blast intro: rw_core_add_reader [OF _ _ try_lock_shared(4)])
next
  case (retract t)
  show ?thesis unfolding retract(1)
    by (rule rw_inv_by_core [OF assms(2,3) retract(2)]) (use retract(3) rw_core_unlock_shared in force)
next
  case (unlock_shared t)
  show ?thesis unfolding unlock_shared(1)
    by (rule rw_inv_by_core [OF assms(2,3) unlock_shared(2)]) (use unlock_shared(3) rw_core_unlock_shared in force)
next
  case (downgrade_add t ok b)
  show ?thesis unfolding downgrade_add(1)
    by (rule rw_inv_by_core [OF assms(2,3) downgrade_add(2)])
      (unfold downgrade_add(3), blast intro: rw_core_downgrade [OF _ _ downgrade_add(4)])
next
  case (downgrade_unlock t)
  show ?thesis unfolding downgrade_unlock(1)
    by (rule rw_inv_by_core [OF assms(2,3) downgrade_unlock(2)]) (use downgrade_unlock(3) rw_core_unlock in force)
next
  case (try_lock_upgrade t ok b)
  show ?thesis unfolding try_lock_upgrade(1)
    by (rule rw_inv_by_core [OF assms(2,3) try_lock_upgrade(2)])
      (unfold try_lock_upgrade(3), blast intro: rw_core_try_lock_upgrade [OF _ _ try_lock_upgrade(4)])
next
  case (unlock_upgrade t)
  show ?thesis unfolding unlock_upgrade(1)
    by (rule rw_inv_by_core [OF assms(2,3) unlock_upgrade(2)]) (unfold unlock_upgrade(3), blast intro: rw_core_upgrade(1))
next
  case (upgrade_to_writer t ok b)
  show ?thesis unfolding upgrade_to_writer(1)
    by (rule rw_inv_by_core [OF assms(2,3) upgrade_to_writer(2)])
      (unfold upgrade_to_writer(3), blast intro: rw_core_upgrade(2) [OF _ _ upgrade_to_writer(4)])
next
  case (upgrade_to_shared t)
  show ?thesis unfolding upgrade_to_shared(1)
    by (rule rw_inv_by_core [OF assms(2,3) upgrade_to_shared(2)])
      (unfold upgrade_to_shared(3), blast intro: rw_core_upgrade(3))
next
  case (keep_upgrade_or t)
  show ?thesis unfolding keep_upgrade_or(1)
    by (rule rw_inv_by_core [OF assms(2,3) keep_upgrade_or(2)])
      (unfold keep_upgrade_or(3), blast intro: rw_core_keep_upgrade(1))
next
  case (keep_upgrade_sub t)
  show ?thesis unfolding keep_upgrade_sub(1)
    by (rule rw_inv_by_core [OF assms(2,3) keep_upgrade_sub(2)])
      (unfold keep_upgrade_sub(3), blast intro: rw_core_keep_upgrade(2))
qed

lemma rw_init_inv: "rw_inv N (rw_pc rw_init) (rw_bits rw_init)"
proof -
  have "unat (0 :: u32) = rw_fields 0 False False" by (simp add: rw_fields_def)
  then show ?thesis by (auto simp: rw_init_def rw_inv_def rw_kinds)
qed

interpretation rw_system: step_system "(=) rw_init" "rw_step N" "\<lambda>s. N < 2 ^ 30 \<longrightarrow> rw_inv N (rw_pc s) (rw_bits s)"
  by unfold_locales (use rw_init_inv rw_step_inv in blast)+

lemma rw_reachable_inv: "rw_reachable N s \<Longrightarrow> N < 2 ^ 30 \<Longrightarrow> rw_inv N (rw_pc s) (rw_bits s)"
  unfolding rw_reachable_def using rw_system.reachable_inv [OF refl] by blast

lemma rw_inv_exclusive:
  assumes "rw_inv N f b" "f t = RwWrite" "v \<noteq> t"
  shows "f v \<notin> {RwWrite, RwShared, RwUpgrade}"
proof -
  have "rw_owning (f t)" "rw_writing (f t)" using assms(2) by (simp_all add: rw_kinds)
  then have "f v \<noteq> RwShared" "\<not> rw_owning (f v)" using assms(1,3) unfolding rw_inv_def by blast+
  then show ?thesis by (auto simp: rw_kinds)
qed

subsection \<open>Properties\<close>

text \<open>
  C33: Reader/writer latch: in every interleaving of fewer than 2^30 threads, over all
  methods of the lock (including upgrades and downgrades), a writer excludes all readers and
  all other writers and upgraders, at most one thread holds the lock for upgrade, and the
  reader count of the word is the number of threads that are counted as readers, so that the
  word is 0 again when all have left.
\<close>

theorem rw_spinlock_exclusion:
  assumes "rw_reachable N s" "N < 2 ^ 30"
  shows "(\<forall>t v. rw_pc s t = RwWrite \<longrightarrow> v \<noteq> t \<longrightarrow> rw_pc s v \<notin> {RwWrite, RwShared, RwUpgrade}) \<and>
    (\<forall>t v. rw_pc s t = RwUpgrade \<longrightarrow> rw_pc s v = RwUpgrade \<longrightarrow> t = v) \<and>
    unat (rw_bits s) div 4 = card {v. rw_pc s v \<in> {RwShared, RwRetract, RwDowngrade}} \<and>
    ((\<forall>v. rw_pc s v = RwIdle) \<longrightarrow> rw_bits s = 0)"
proof -
  let ?f = "rw_pc s"
  have inv: "rw_inv N ?f (rw_bits s)" by (rule rw_reachable_inv [OF assms])
  then have own: "\<And>t v. rw_owning (?f t) \<Longrightarrow> rw_owning (?f v) \<Longrightarrow> t = v" unfolding rw_inv_def by blast
  obtain u where b: "unat (rw_bits s) = rw_fields (card {v. rw_counted (?f v)}) (\<exists>v. rw_writing (?f v)) u"
    and u: "u \<longrightarrow> (\<exists>v. rw_owning (?f v))"
    using inv unfolding rw_inv_def by blast
  have "rw_pc s v \<notin> {RwWrite, RwShared, RwUpgrade}" if "rw_pc s t = RwWrite" "v \<noteq> t" for t v
    by (rule rw_inv_exclusive [OF inv that])
  moreover have "t = v" if "rw_pc s t = RwUpgrade" "rw_pc s v = RwUpgrade" for t v
    using own [of t v] that by (simp add: rw_kinds)
  moreover have "unat (rw_bits s) div 4 = card {v. rw_counted (?f v)}"
    unfolding b rw_fields_def by (cases u) (auto split: if_splits)
  moreover have "rw_bits s = 0" if "\<forall>v. ?f v = RwIdle"
  proof -
    have "\<not> rw_counted (?f v)" "\<not> rw_owning (?f v)" "\<not> rw_writing (?f v)" for v using that by (simp_all add: rw_kinds)
    then have "unat (rw_bits s) = 0" using b u by (auto simp: rw_fields_def)
    then show ?thesis by (simp add: unsigned_eq_0_iff)
  qed
  ultimately show ?thesis unfolding rw_counted_def by blast
qed

theorem rw_spinlock_exclusion_witness:
  "\<exists>s. rw_reachable 2 s \<and> rw_pc s 0 = RwWrite \<and> rw_pc s 1 = RwRetract \<and> unat (rw_bits s) div 4 =
     card {v. rw_pc s v \<in> {RwShared, RwRetract, RwDowngrade}}"
proof -
  let ?s = "rw_set 1 0 RwWrite rw_init" and ?b = "5 :: u32"
  have "rw_step 2 rw_init (rw_set 1 0 (if True then RwWrite else RwIdle) rw_init)"
    by (rule rw_step.try_lock) (simp_all add: rw_init_def rw_try_lock_def)
  then have 1: "rw_reachable 2 ?s" using rw_next [OF rw_start] by simp
  have "rw_step 2 ?s (rw_set ?b 1 (if False then RwShared else RwRetract) ?s)"
    by (rule rw_step.try_lock_shared) (simp_all add: rw_set_def rw_init_def rw_add_reader_def)
  then have 2: "rw_reachable 2 (rw_set ?b 1 RwRetract ?s)" using rw_next [OF 1] by simp
  have "unat (rw_bits (rw_set ?b 1 RwRetract ?s)) div 4 =
      card {v. rw_pc (rw_set ?b 1 RwRetract ?s) v \<in> {RwShared, RwRetract, RwDowngrade}}"
    using rw_spinlock_exclusion [OF 2] by simp
  with 2 show ?thesis by (intro exI [of _ "rw_set ?b 1 RwRetract ?s"]) (simp add: rw_set_def)
qed

end
