(* ===== verification/EpochReclamation.thy ===== *)
theory EpochReclamation
  imports LinkedQueues
begin

section \<open>Epoch-based memory reclamation\<close>

text \<open>
  mx/memory/reclamation/epoch_manager.h and epoch_manager.cpp. First the operations as they
  run on their own: the epochs are 32-bit words, the garbage is kept in MPSC queues, the
  remove epoch of a resource is a store indexed by its address, and the resources on which
  on_reclaim and Allocator::free are called are the result. Then the interleaving of
  workers and collector as a step relation.
\<close>

datatype reclamation_scheme = NoReclamation | UpdateEpochOnRead | UpdateEpochPeriodically

definition max_epoch :: u32 where
  "max_epoch = - 1"

record epoch_manager =
  em_count_channels :: nat
  em_global :: u32
  em_locals :: "u32 list"
  em_garbage :: "addr mpsc_queue"
  em_local_garbage :: "addr mpsc_queue list"

definition epoch_enter :: "nat \<Rightarrow> epoch_manager \<Rightarrow> epoch_manager" where
  "epoch_enter i m = m\<lparr>em_locals := (em_locals m)[i := em_global m]\<rparr>"

definition epoch_leave :: "nat \<Rightarrow> epoch_manager \<Rightarrow> epoch_manager" where
  "epoch_leave i m = m\<lparr>em_locals := (em_locals m)[i := max_epoch]\<rparr>"

definition min_local_epoch :: "epoch_manager \<Rightarrow> u32" where
  "min_local_epoch m =
     fold (\<lambda>i e. min e (em_locals m ! i)) [1..<em_count_channels m] (em_locals m ! 0)"

definition add_to_garbage_collection :: "bool \<Rightarrow> addr \<Rightarrow> nat \<Rightarrow> addr links \<Rightarrow> (addr \<Rightarrow> u32) \<Rightarrow> epoch_manager \<Rightarrow>
    addr links \<times> (addr \<Rightarrow> u32) \<times> epoch_manager" where
  "add_to_garbage_collection local_gc r owner h epochs m =
     (let epochs' = epochs(r := em_global m) in
      if local_gc
      then (let (h', q) = mpsc_push_back r h (em_local_garbage m ! owner) in
            (h', epochs', m\<lparr>em_local_garbage := (em_local_garbage m)[owner := q]\<rparr>))
      else (let (h', q) = mpsc_push_back r h (em_garbage m) in
            (h', epochs', m\<lparr>em_garbage := q\<rparr>)))"

text \<open>
  The collecting loop pops until the queue is empty; \<open>fuel\<close> bounds the number of pops
  (one more than the queue is long is enough).
\<close>

fun reclaim_loop :: "nat \<Rightarrow> (addr \<Rightarrow> u32) \<Rightarrow> u32 \<Rightarrow> addr list \<Rightarrow> addr links \<Rightarrow> addr mpsc_queue \<Rightarrow> addr spsc_queue \<Rightarrow>
    (addr list \<times> addr links \<times> addr mpsc_queue \<times> addr spsc_queue) option" where
  "reclaim_loop 0 epochs e freed h q deferred = None"
| "reclaim_loop (Suc fuel) epochs e freed h q deferred =
     (case mpsc_pop_front h q of
        (None, h', q') \<Rightarrow> Some (freed, h', q', deferred)
      | (Some r, h', q') \<Rightarrow>
          if epochs r < e then reclaim_loop fuel epochs e (freed @ [r]) h' q' deferred
          else (let (h'', deferred') = queue_push_back r h' deferred in
                reclaim_loop fuel epochs e freed h'' q' deferred'))"

definition reclaim_garbage :: "nat \<Rightarrow> (addr \<Rightarrow> u32) \<Rightarrow> u32 \<Rightarrow> addr links \<Rightarrow> addr mpsc_queue \<Rightarrow>
    (addr list \<times> addr links \<times> addr mpsc_queue) option" where
  "reclaim_garbage fuel epochs e h q =
     (case reclaim_loop fuel epochs e [] h q queue_new of
        None \<Rightarrow> None
      | Some (freed, h', q', deferred) \<Rightarrow>
          if \<not> queue_empty h' deferred
          then (case (queue_begin deferred, queue_end deferred) of
                  (Some b, Some l) \<Rightarrow> (let (h'', q'') = mpsc_push_back_range b l h' q' in Some (freed, h'', q''))
                | _ \<Rightarrow> None)
          else Some (freed, h', q'))"

definition reclaim_epoch_garbage :: "nat \<Rightarrow> (addr \<Rightarrow> u32) \<Rightarrow> addr links \<Rightarrow> epoch_manager \<Rightarrow>
    (addr list \<times> addr links \<times> epoch_manager) option" where
  "reclaim_epoch_garbage fuel epochs h m =
     map_option (\<lambda>(freed, h', q'). (freed, h', m\<lparr>em_garbage := q'\<rparr>))
       (reclaim_garbage fuel epochs (min_local_epoch m) h (em_garbage m))"

definition reclaim_garbage_task :: "nat \<Rightarrow> (addr \<Rightarrow> u32) \<Rightarrow> nat \<Rightarrow> addr links \<Rightarrow> epoch_manager \<Rightarrow>
    (addr list \<times> addr links \<times> epoch_manager) option" where
  "reclaim_garbage_task fuel epochs ch h m =
     map_option (\<lambda>(freed, h', q'). (freed, h', m\<lparr>em_local_garbage := (em_local_garbage m)[ch := q']\<rparr>))
       (reclaim_garbage fuel epochs (min_local_epoch m) h (em_local_garbage m ! ch))"

fun drain_queue :: "nat \<Rightarrow> addr list \<Rightarrow> addr links \<Rightarrow> addr mpsc_queue \<Rightarrow>
    (addr list \<times> addr links \<times> addr mpsc_queue) option" where
  "drain_queue 0 freed h q = None"
| "drain_queue (Suc fuel) freed h q =
     (case mpsc_pop_front h q of
        (None, h', q') \<Rightarrow> Some (freed, h', q')
      | (Some r, h', q') \<Rightarrow> drain_queue fuel (freed @ [r]) h' q')"

fun drain_local :: "nat \<Rightarrow> nat list \<Rightarrow> addr list \<Rightarrow> addr links \<Rightarrow> epoch_manager \<Rightarrow>
    (addr list \<times> addr links \<times> epoch_manager) option" where
  "drain_local fuel [] freed h m = Some (freed, h, m)"
| "drain_local fuel (ch # chs) freed h m =
     (case drain_queue fuel freed h (em_local_garbage m ! ch) of
        None \<Rightarrow> None
      | Some (freed', h', q') \<Rightarrow>
          drain_local fuel chs freed' h' (m\<lparr>em_local_garbage := (em_local_garbage m)[ch := q']\<rparr>))"

definition reclaim_all :: "bool \<Rightarrow> nat \<Rightarrow> addr links \<Rightarrow> epoch_manager \<Rightarrow>
    (addr list \<times> addr links \<times> epoch_manager) option" where
  "reclaim_all local_gc fuel h m =
     (if local_gc then drain_local fuel [0..<em_count_channels m] [] h m
      else map_option (\<lambda>(freed, h', q'). (freed, h', m\<lparr>em_garbage := q'\<rparr>)) (drain_queue fuel [] h (em_garbage m)))"

definition epoch_reset :: "bool \<Rightarrow> epoch_manager \<Rightarrow> epoch_manager" where
  "epoch_reset allocator_is_free m =
     (if allocator_is_free then m\<lparr>em_global := 0, em_locals := replicate 128 max_epoch\<rparr> else m)"

subsection \<open>The collector keeps what may still be read\<close>

lemma min_local_epoch_le:
  assumes "i < em_count_channels m"
  shows "min_local_epoch m \<le> em_locals m ! i"
proof -
  have fold: "fold (\<lambda>i e. min e (f i)) is a \<le> a \<and> (\<forall>i \<in> set is. fold (\<lambda>i e. min e (f i)) is a \<le> f i)"
    for f :: "nat \<Rightarrow> u32" and "is" a
  proof (induction "is" arbitrary: a)
    case (Cons i "is")
    from Cons [of "min a (f i)"] show ?case by auto
  qed simp
  have "i = 0 \<or> i \<in> set [1..<em_count_channels m]" using assms by auto
  then show ?thesis
    using fold [of "\<lambda>i. em_locals m ! i" "[1..<em_count_channels m]" "em_locals m ! 0"]
    by (auto simp: min_local_epoch_def simp del: set_upt)
qed

lemma reclaim_loop_rep:
  assumes "mpsc_rep h q xs" "queue_rep h d ys" "(set ys) \<inter> insert (mq_end q) (set xs) = {}" "length xs < fuel"
  shows "\<exists>h' q' d'. reclaim_loop fuel epochs e freed h q d =
      Some (freed @ filter (\<lambda>r. epochs r < e) xs, h', q', d') \<and>
    mpsc_rep h' q' [] \<and> mq_end q' = mq_end q \<and> queue_rep h' d' (ys @ filter (\<lambda>r. \<not> epochs r < e) xs)"
  using assms
proof (induction xs arbitrary: fuel freed h q d ys)
  case Nil
  then obtain n where "fuel = Suc n" by (cases fuel) auto
  obtain r h' q' where p: "mpsc_pop_front h q = (r, h', q')" by (cases "mpsc_pop_front h q") auto
  have "queue_rep h' d ys"
    by (rule queue_rep_cong [OF Nil.prems(2)], rule mpsc_pop_front_frame [OF Nil.prems(1) p])
      (use Nil.prems(3) in auto)
  then show ?case
    using mpsc_pop_front_rep [OF Nil.prems(1) p] p \<open>fuel = Suc n\<close> by auto
next
  case (Cons x xs)
  then obtain n where n: "fuel = Suc n" "length xs < n" by (cases fuel) auto
  obtain h' q' where p: "mpsc_pop_front h q = (Some x, h', q')" and q': "mpsc_rep h' q' xs" "mq_end q' = mq_end q"
    using mpsc_pop_front_rep [OF Cons.prems(1)] by (cases "mpsc_pop_front h q") fastforce
  have x: "x \<notin> set xs" "x \<noteq> mq_end q" using mpsc_rep_distinct [OF Cons.prems(1)] by auto
  have d: "queue_rep h' d ys"
    by (rule queue_rep_cong [OF Cons.prems(2)], rule mpsc_pop_front_frame [OF Cons.prems(1) p])
      (use Cons.prems(3) in auto)
  show ?case
  proof (cases "epochs x < e")
    case True
    have "set ys \<inter> insert (mq_end q') (set xs) = {}" using Cons.prems(3) q'(2) by auto
    from Cons.IH [OF q'(1) d this n(2), of "freed @ [x]"] show ?thesis
      using True p n(1) q'(2) by auto
  next
    case False
    obtain h'' d' where push: "queue_push_back x h' d = (h'', d')" by force
    have "x \<notin> set ys" using Cons.prems(3) by auto
    then have d': "queue_rep h'' d' (ys @ [x])" by (rule queue_push_back_rep [OF d _ push])
    have "mpsc_rep h'' q' xs"
      by (rule mpsc_rep_cong [OF q'(1)], rule queue_push_back_frame [OF d push])
        (use x q'(2) Cons.prems(3) in auto)
    moreover have "set (ys @ [x]) \<inter> insert (mq_end q') (set xs) = {}"
      using Cons.prems(3) q'(2) x by auto
    ultimately show ?thesis
      using Cons.IH [OF _ d' _ n(2), of q' freed] False p n(1) push q'(2) by auto
  qed
qed

lemma reclaim_garbage_rep:
  assumes "mpsc_rep h q xs" "length xs < fuel"
  shows "\<exists>h' q'. reclaim_garbage fuel epochs e h q = Some (filter (\<lambda>r. epochs r < e) xs, h', q') \<and>
    mpsc_rep h' q' (filter (\<lambda>r. \<not> epochs r < e) xs) \<and> mq_end q' = mq_end q"
proof -
  let ?keep = "filter (\<lambda>r. \<not> epochs r < e) xs"
  obtain h1 q1 d where l: "reclaim_loop fuel epochs e [] h q queue_new = Some (filter (\<lambda>r. epochs r < e) xs, h1, q1, d)"
    "mpsc_rep h1 q1 []" "mq_end q1 = mq_end q" "queue_rep h1 d ?keep"
    using reclaim_loop_rep [OF assms(1) queue_rep_new _ assms(2), of epochs e "[]"] by auto
  show ?thesis
  proof (cases "?keep = []")
    case True
    then have "queue_empty h1 d" using l(4) by (simp add: queue_rep_def queue_empty_def)
    then show ?thesis using l True by (auto simp: reclaim_garbage_def)
  next
    case False
    have ends: "q_head d = Some (hd ?keep)" "q_tail d = Some (last ?keep)" "chain h1 (Some (hd ?keep)) ?keep None"
      "distinct ?keep"
      using l(4) False chain_start [of h1 "q_head d" ?keep] by (auto simp: queue_rep_def)
    obtain h' q' where push: "mpsc_push_back_range (hd ?keep) (last ?keep) h1 q1 = (h', q')" by force
    have "set ?keep \<inter> insert (mq_end q1) (set []) = {}"
      using mpsc_rep_distinct [OF assms(1)] l(3) by auto
    from mpsc_push_back_range_rep [OF l(2) ends(3) False ends(4) this push]
    have "mpsc_rep h' q' ?keep \<and> mq_end q' = mq_end q" using l(3) by simp
    moreover have "reclaim_garbage fuel epochs e h q = Some (filter (\<lambda>r. epochs r < e) xs, h', q')"
      using l(1) push queue_begin_end_rep [OF l(4) False] queue_empty_rep [OF l(4)] False
      by (simp add: reclaim_garbage_def)
    ultimately show ?thesis by blast
  qed
qed

lemma drain_queue_rep:
  assumes "mpsc_rep h q xs" "length xs < fuel"
  shows "\<exists>h' q'. drain_queue fuel freed h q = Some (freed @ xs, h', q') \<and> mpsc_rep h' q' []"
  using assms
proof (induction xs arbitrary: fuel freed h q)
  case Nil
  then obtain n where n: "fuel = Suc n" by (cases fuel) auto
  obtain r h' q' where p: "mpsc_pop_front h q = (r, h', q')" by (cases "mpsc_pop_front h q") auto
  show ?case using mpsc_pop_front_rep [OF Nil.prems(1) p] p n by simp
next
  case (Cons x xs)
  then obtain n where n: "fuel = Suc n" "length xs < n" by (cases fuel) auto
  obtain h' q' where p: "mpsc_pop_front h q = (Some x, h', q')" "mpsc_rep h' q' xs"
    using mpsc_pop_front_rep [OF Cons.prems(1)] by (cases "mpsc_pop_front h q") fastforce
  from Cons.IH [OF p(2) n(2), of "freed @ [x]"] p(1) n(1) show ?case by auto
qed

subsection \<open>Workers and collector interleaved\<close>

text \<open>
  One step is one atomic access, or one move of a reference. A worker (of \<open>n\<close>) loads the global
  epoch and stores it as its local epoch (LocalEpoch::enter): with UpdateEpochPeriodically again and
  again, before it fills its task buffer; with UpdateEpochOnRead before an optimistic read, after
  which it leaves the epoch (LocalEpoch::leave).

  \<open>ep_held\<close> are the resources that the tasks of a worker (fetched, buffered or running) refer to.
  A running task follows links to resources, it spawns tasks that are annotated with resources it
  refers to (\<open>ep_queued\<close>; several tasks may refer to one resource, so the entry stays), and a worker
  takes such tasks from its queues. Entering an epoch leaves these references as they are: in
  Worker::execute the task that has just been fetched and the buffered ones are executed afterwards.
  \<open>ep_guarded\<close> is the part of them that the local epoch speaks for: the resources that were linked
  when the reference was obtained since the last enter, and those which had not been retired in an
  earlier epoch when the worker entered its epoch or fetched the task.

  A resource is deleted by unlinking it and then reading the global epoch as its remove epoch
  (add_to_garbage_collection). The collector increments the global epoch, reads the local epochs one
  after the other and then frees garbage with a smaller remove epoch; \<open>ep_freed\<close> keeps the remove
  epoch of what it freed. This is the collector of the shipped configuration with its one garbage
  queue. Epochs are below the maximum of uint32_t: at one epoch per 50 ms that is more than six years.
  With \<open>ready\<close>, the collector runs only when every worker has entered an epoch.
\<close>

definition ep_max :: nat where
  "ep_max = 2 ^ 32 - 1"

datatype ep_pc = EOut | ELoaded nat | EIn

datatype ep_scan = NoScan | Scan nat nat | Freeing nat

record ep_state =
  ep_global :: nat
  ep_local :: "nat \<Rightarrow> nat"
  ep_pc :: "nat \<Rightarrow> ep_pc"
  ep_held :: "nat \<Rightarrow> nat set"
  ep_guarded :: "nat \<Rightarrow> nat set"
  ep_queued :: "nat set"
  ep_linked :: "nat set"
  ep_unlinked :: "nat set"
  ep_garbage :: "nat \<rightharpoonup> nat"
  ep_freed :: "nat \<rightharpoonup> nat"
  ep_scan :: ep_scan

definition ep_init :: "nat set \<Rightarrow> ep_state" where
  "ep_init L = \<lparr>ep_global = 0, ep_local = \<lambda>_. ep_max, ep_pc = \<lambda>_. EOut, ep_held = \<lambda>_. {}, ep_guarded = \<lambda>_. {},
     ep_queued = {}, ep_linked = L, ep_unlinked = {}, ep_garbage = Map.empty, ep_freed = Map.empty, ep_scan = NoScan\<rparr>"

text \<open>The resource exists and was not retired in an epoch before \<open>e\<close>.\<close>

definition ep_protected :: "ep_state \<Rightarrow> nat \<Rightarrow> nat \<Rightarrow> bool" where
  "ep_protected s e r \<longleftrightarrow> r \<in> ep_linked s \<or> r \<in> ep_unlinked s \<or> (\<exists>e'. ep_garbage s r = Some e' \<and> e \<le> e')"

inductive ep_step :: "reclamation_scheme \<Rightarrow> nat \<Rightarrow> bool \<Rightarrow> ep_state \<Rightarrow> ep_state \<Rightarrow> bool" for scheme n ready where
  enter_load: "i < n \<Longrightarrow> ep_pc s i = EOut \<and> scheme \<noteq> NoReclamation \<or> ep_pc s i = EIn \<and> scheme = UpdateEpochPeriodically \<Longrightarrow> ep_step scheme n ready s
    (s\<lparr>ep_pc := (ep_pc s)(i := ELoaded (ep_global s))\<rparr>)"
| enter_store: "i < n \<Longrightarrow> ep_pc s i = ELoaded e \<Longrightarrow> ep_step scheme n ready s
    (s\<lparr>ep_pc := (ep_pc s)(i := EIn), ep_local := (ep_local s)(i := e),
       ep_guarded := (ep_guarded s)(i := {r \<in> ep_held s i. ep_protected s e r})\<rparr>)"
| leave: "i < n \<Longrightarrow> scheme = UpdateEpochOnRead \<Longrightarrow> ep_pc s i = EIn \<Longrightarrow> ep_step scheme n ready s
    (s\<lparr>ep_pc := (ep_pc s)(i := EOut), ep_local := (ep_local s)(i := ep_max), ep_guarded := (ep_guarded s)(i := {})\<rparr>)"
| acquire: "i < n \<Longrightarrow> ep_pc s i = EIn \<or> ep_pc s i = EOut \<and> scheme \<noteq> UpdateEpochPeriodically \<Longrightarrow> r \<in> ep_linked s \<Longrightarrow> ep_step scheme n ready s
    (s\<lparr>ep_held := (ep_held s)(i := insert r (ep_held s i)),
       ep_guarded := (ep_guarded s)(i := (if ep_pc s i = EIn then insert r (ep_guarded s i) else ep_guarded s i))\<rparr>)"
| spawn: "r \<in> ep_linked s \<or> r \<in> ep_held s i \<Longrightarrow> ep_step scheme n ready s (s\<lparr>ep_queued := insert r (ep_queued s)\<rparr>)"
| fetch: "i < n \<Longrightarrow> ep_pc s i = EIn \<or> ep_pc s i = EOut \<and> scheme \<noteq> UpdateEpochPeriodically \<Longrightarrow> r \<in> ep_queued s \<Longrightarrow> ep_step scheme n ready s
    (s\<lparr>ep_held := (ep_held s)(i := insert r (ep_held s i)),
       ep_guarded := (ep_guarded s)(i := (if ep_pc s i = EIn \<and> ep_protected s (ep_local s i) r then insert r (ep_guarded s i) else ep_guarded s i))\<rparr>)"
| drop: "i < n \<Longrightarrow> ep_step scheme n ready s
    (s\<lparr>ep_held := (ep_held s)(i := ep_held s i - {r}), ep_guarded := (ep_guarded s)(i := ep_guarded s i - {r})\<rparr>)"
| create: "r \<notin> ep_linked s \<Longrightarrow> r \<notin> ep_unlinked s \<Longrightarrow> ep_garbage s r = None \<Longrightarrow> ep_step scheme n ready s
    (s\<lparr>ep_linked := insert r (ep_linked s), ep_freed := (ep_freed s)(r := None)\<rparr>)"
| unlink: "r \<in> ep_linked s \<Longrightarrow> ep_step scheme n ready s
    (s\<lparr>ep_linked := ep_linked s - {r}, ep_unlinked := insert r (ep_unlinked s)\<rparr>)"
| retire: "r \<in> ep_unlinked s \<Longrightarrow> ep_step scheme n ready s
    (s\<lparr>ep_unlinked := ep_unlinked s - {r}, ep_garbage := (ep_garbage s)(r \<mapsto> ep_global s)\<rparr>)"
| advance: "ep_scan s = NoScan \<Longrightarrow> ep_global s + 1 < ep_max \<Longrightarrow>
    (ready \<longrightarrow> (\<forall>i < n. ep_local s i \<noteq> ep_max)) \<Longrightarrow>
    ep_step scheme n ready s (s\<lparr>ep_global := ep_global s + 1, ep_scan := Scan 0 ep_max\<rparr>)"
| scan_read: "ep_scan s = Scan k m \<Longrightarrow> k < n \<Longrightarrow>
    ep_step scheme n ready s (s\<lparr>ep_scan := Scan (k + 1) (min m (ep_local s k))\<rparr>)"
| scan_done: "ep_scan s = Scan n m \<Longrightarrow> ep_step scheme n ready s (s\<lparr>ep_scan := Freeing m\<rparr>)"
| free: "ep_scan s = Freeing m \<Longrightarrow> ep_garbage s r = Some e \<Longrightarrow> e < m \<Longrightarrow> ep_step scheme n ready s
    (s\<lparr>ep_garbage := (ep_garbage s)(r := None), ep_freed := (ep_freed s)(r \<mapsto> e)\<rparr>)"
| collect_done: "ep_scan s = Freeing m \<Longrightarrow> ep_step scheme n ready s (s\<lparr>ep_scan := NoScan\<rparr>)"

definition ep_reachable :: "reclamation_scheme \<Rightarrow> nat \<Rightarrow> bool \<Rightarrow> nat set \<Rightarrow> ep_state \<Rightarrow> bool" where
  "ep_reachable scheme n ready L s \<longleftrightarrow> (ep_step scheme n ready)\<^sup>*\<^sup>* (ep_init L) s"

lemma ep_start: "ep_reachable scheme n ready L (ep_init L)"
  by (simp add: ep_reachable_def)

lemma ep_next: "ep_reachable scheme n ready L s \<Longrightarrow> ep_step scheme n ready s s' \<Longrightarrow> ep_reachable scheme n ready L s'"
  by (simp add: ep_reachable_def)

text \<open>The invariant, one part per concern.\<close>

fun ep_local_ok :: "nat \<Rightarrow> nat \<Rightarrow> ep_pc \<Rightarrow> bool" where
  "ep_local_ok g l EOut = (l = ep_max)"
| "ep_local_ok g l (ELoaded e) = (e \<le> g \<and> (l = ep_max \<or> l \<le> e))"
| "ep_local_ok g l EIn = (l \<le> g)"

definition ep_locals_ok :: "ep_state \<Rightarrow> bool" where
  "ep_locals_ok s \<longleftrightarrow> (\<forall>i. ep_local_ok (ep_global s) (ep_local s i) (ep_pc s i)) \<and> ep_global s < ep_max"

definition ep_places_ok :: "ep_state \<Rightarrow> bool" where
  "ep_places_ok s \<longleftrightarrow> ep_linked s \<inter> ep_unlinked s = {} \<and>
     (\<forall>r \<in> dom (ep_garbage s). r \<notin> ep_linked s \<and> r \<notin> ep_unlinked s) \<and>
     dom (ep_freed s) \<inter> (ep_linked s \<union> ep_unlinked s \<union> dom (ep_garbage s)) = {}"

definition ep_guarded_ok :: "nat \<Rightarrow> ep_state \<Rightarrow> bool" where
  "ep_guarded_ok n s \<longleftrightarrow> (\<forall>i r. r \<in> ep_guarded s i \<longrightarrow> i < n \<and> ep_local s i \<le> ep_global s \<and> ep_protected s (ep_local s i) r)"

definition ep_freed_ok :: "nat \<Rightarrow> ep_state \<Rightarrow> bool" where
  "ep_freed_ok n s \<longleftrightarrow> (\<forall>r e i. ep_freed s r = Some e \<longrightarrow> i < n \<longrightarrow> e < ep_local s i \<and> ep_local s i \<noteq> ep_max)"

fun ep_scan_fine :: "nat \<Rightarrow> (nat \<Rightarrow> nat) \<Rightarrow> ep_scan \<Rightarrow> bool" where
  "ep_scan_fine n l NoScan = True"
| "ep_scan_fine n l (Scan k m) = ((\<forall>i < n. l i \<noteq> ep_max) \<and> (\<forall>i < n. i < k \<longrightarrow> m \<le> l i))"
| "ep_scan_fine n l (Freeing m) = ((\<forall>i < n. l i \<noteq> ep_max) \<and> (\<forall>i < n. m \<le> l i))"

definition ep_scan_ok :: "nat \<Rightarrow> ep_state \<Rightarrow> bool" where
  "ep_scan_ok n s = ep_scan_fine n (ep_local s) (ep_scan s)"

lemma ep_local_ok_Suc: "ep_local_ok g l p \<Longrightarrow> ep_local_ok (Suc g) l p"
  by (cases p) auto

lemma ep_locals_okD:
  assumes "ep_locals_ok s"
  shows "ep_pc s i = EIn \<Longrightarrow> ep_local s i \<le> ep_global s"
    "ep_pc s i = ELoaded e \<Longrightarrow> e \<le> ep_global s \<and> (ep_local s i = ep_max \<or> ep_local s i \<le> e) \<and> e \<noteq> ep_max"
    "ep_local s i \<le> ep_max"
proof -
  have ok: "ep_local_ok (ep_global s) (ep_local s i) (ep_pc s i)" "ep_global s < ep_max" using assms by (simp_all add: ep_locals_ok_def)
  show "ep_pc s i = EIn \<Longrightarrow> ep_local s i \<le> ep_global s" using ok by simp
  show "ep_pc s i = ELoaded e \<Longrightarrow> e \<le> ep_global s \<and> (ep_local s i = ep_max \<or> ep_local s i \<le> e) \<and> e \<noteq> ep_max" using ok by auto
  show "ep_local s i \<le> ep_max" using ok by (cases "ep_pc s i") auto
qed

lemma ep_locals_step: "ep_step scheme n ready s s' \<Longrightarrow> ep_locals_ok s \<Longrightarrow> ep_locals_ok s'"
proof (induction rule: ep_step.induct)
  case (enter_load i s)
  then have "ep_local_ok (ep_global s) (ep_local s i) (ep_pc s i)" by (simp add: ep_locals_ok_def)
  then have "ep_local s i = ep_max \<or> ep_local s i \<le> ep_global s" using enter_load(2) by auto
  then show ?case using enter_load by (auto simp: ep_locals_ok_def)
next
  case (enter_store i s e)
  then show ?case using ep_locals_okD(2) [OF enter_store(3,2)] by (auto simp: ep_locals_ok_def)
next
  case (advance s)
  then show ?case by (auto simp: ep_locals_ok_def intro: ep_local_ok_Suc)
qed (auto simp: ep_locals_ok_def)

lemma ep_places_step: "ep_step scheme n ready s s' \<Longrightarrow> ep_places_ok s \<Longrightarrow> ep_places_ok s'"
  by (induction rule: ep_step.induct) (auto simp: ep_places_ok_def split: if_splits)

abbreviation periodic_step :: "nat \<Rightarrow> ep_state \<Rightarrow> ep_state \<Rightarrow> bool" where
  "periodic_step n \<equiv> ep_step UpdateEpochPeriodically n True"

lemma ep_scan_step:
  assumes "periodic_step n s s'" "ep_locals_ok s" "ep_scan_ok n s"
  shows "ep_scan_ok n s'"
  using assms(1)
proof cases
  case (enter_store i e)
  note e = ep_locals_okD(2) [OF assms(2) enter_store(3)]
  show ?thesis
    using assms(3) e enter_store(1,2) by (cases "ep_scan s") (auto simp: ep_scan_ok_def intro: order_trans)
next
  case (scan_read k m)
  then show ?thesis using assms(3) by (auto simp: ep_scan_ok_def less_Suc_eq)
next
  case (scan_done m)
  then show ?thesis using assms(3) by (auto simp: ep_scan_ok_def)
qed (use assms(3) in \<open>auto simp: ep_scan_ok_def\<close>)

text \<open>What is freed was retired before the epoch of every worker, and local epochs only grow.\<close>

lemma ep_freed_step:
  assumes "periodic_step n s s'" "ep_locals_ok s" "ep_scan_ok n s" "ep_freed_ok n s"
  shows "ep_freed_ok n s'"
  using assms(1)
proof cases
  case (enter_store i e)
  have "x < e \<and> e \<noteq> ep_max" if "ep_freed s r = Some x" for r x
    using assms(4) that enter_store(2) ep_locals_okD(2) [OF assms(2) enter_store(3)] unfolding ep_freed_ok_def by fastforce
  then show ?thesis using assms(4) enter_store(1) by (auto simp: ep_freed_ok_def)
next
  case (free m r e)
  have "e < ep_local s i \<and> ep_local s i \<noteq> ep_max" if "i < n" for i
    using assms(3) free(2,4) that by (fastforce simp: ep_scan_ok_def)
  then show ?thesis using assms(4) free(1) by (auto simp: ep_freed_ok_def)
qed (use assms(4) in \<open>auto simp: ep_freed_ok_def split: if_splits\<close>)

lemma ep_guarded_step:
  assumes "periodic_step n s s'" "ep_locals_ok s" "ep_places_ok s" "ep_scan_ok n s" "ep_guarded_ok n s"
  shows "ep_guarded_ok n s'"
  using assms(1)
proof cases
  case (enter_store i e)
  then show ?thesis
    using assms(5) ep_locals_okD(2) [OF assms(2) enter_store(3)] by (auto simp: ep_guarded_ok_def ep_protected_def)
next
  case (acquire i r)
  then show ?thesis using assms(5) ep_locals_okD(1) [OF assms(2), of i] by (auto simp: ep_guarded_ok_def ep_protected_def)
next
  case (fetch i r)
  then show ?thesis using assms(5) ep_locals_okD(1) [OF assms(2), of i] by (auto simp: ep_guarded_ok_def ep_protected_def)
next
  case (free m r e)
  have "r \<notin> ep_guarded s i" for i
  proof
    assume "r \<in> ep_guarded s i"
    then have i: "i < n" and "ep_protected s (ep_local s i) r" using assms(5) by (simp_all add: ep_guarded_ok_def)
    moreover have "r \<notin> ep_linked s" "r \<notin> ep_unlinked s" using assms(3) free(3) by (auto simp: ep_places_ok_def)
    moreover have "m \<le> ep_local s i" using assms(4) free(2) i by (simp add: ep_scan_ok_def)
    ultimately show False using free(3,4) by (simp add: ep_protected_def)
  qed
  then show ?thesis using assms(5) free(1) unfolding ep_guarded_ok_def ep_protected_def by fastforce
qed (use assms(5) in \<open>auto simp: ep_guarded_ok_def ep_protected_def le_SucI\<close>)

interpretation ep_system: step_system "\<lambda>s. \<exists>L. s = ep_init L" "periodic_step n"
  "\<lambda>s. ep_locals_ok s \<and> ep_places_ok s \<and> ep_scan_ok n s \<and> ep_guarded_ok n s \<and> ep_freed_ok n s"
proof unfold_locales
  show "ep_locals_ok s \<and> ep_places_ok s \<and> ep_scan_ok n s \<and> ep_guarded_ok n s \<and> ep_freed_ok n s" if "\<exists>L. s = ep_init L" for s
    using that by (auto simp: ep_init_def ep_locals_ok_def ep_places_ok_def ep_scan_ok_def ep_guarded_ok_def ep_freed_ok_def ep_max_def)
qed (use ep_locals_step ep_places_step ep_scan_step ep_guarded_step ep_freed_step in blast)

lemma ep_reachable_ok:
  "ep_reachable UpdateEpochPeriodically n True L s \<Longrightarrow> ep_locals_ok s \<and> ep_places_ok s \<and> ep_guarded_ok n s \<and> ep_freed_ok n s"
  unfolding ep_reachable_def using ep_system.reachable_inv by blast

subsection \<open>Properties\<close>

text \<open>
  C32: Epoch-based reclamation keeps its promise in the shipped configuration (workers update their
  epochs periodically, one garbage queue), in every interleaving of the workers and the collector,
  wherever a worker or the deleting thread is interrupted, if the collector starts only after every
  worker has entered an epoch and the epochs stay below the maximum of their type: a resource is
  freed only when every worker has entered a later epoch than the one it was deleted in; and no
  resource is freed that a worker's task refers to and that was linked when the reference was
  obtained since the worker last entered an epoch, or that had not been retired in an earlier epoch
  when the worker entered its epoch or fetched the task. (References to resources that had been
  retired in an earlier epoch when the worker entered are not protected:
  \<open>epoch_carried_reference\<close> below.)
\<close>

theorem epoch_reclamation_is_safe:
  assumes "ep_reachable UpdateEpochPeriodically n True L s"
  shows "(\<forall>r e i. ep_freed s r = Some e \<and> i < n \<longrightarrow> e < ep_local s i \<and> ep_local s i < ep_max) \<and>
    (\<forall>i. ep_guarded s i \<inter> dom (ep_freed s) = {})"
proof -
  note ok = ep_reachable_ok [OF assms]
  have "ep_local s i \<le> ep_max" for i using ok ep_locals_okD(3) by blast
  then have "e < ep_local s i \<and> ep_local s i < ep_max" if "ep_freed s r = Some e" "i < n" for r e i
    using ok that by (simp add: ep_freed_ok_def le_neq_implies_less)
  moreover have "ep_guarded s i \<inter> dom (ep_freed s) = {}" for i
    using ok by (fastforce simp: ep_places_ok_def ep_guarded_ok_def ep_protected_def)
  ultimately show ?thesis by blast
qed

theorem epoch_reclamation_is_safe_witness:
  "\<exists>s. ep_reachable UpdateEpochPeriodically 2 True {7} s \<and> ep_guarded s 0 = {7} \<and> ep_guarded s 0 \<inter> dom (ep_freed s) = {}"
proof -
  let ?i = "ep_init {7}"
  let ?l = "?i\<lparr>ep_pc := (\<lambda>_. EOut)(0 := ELoaded 0)\<rparr>"
  let ?e = "?i\<lparr>ep_pc := (\<lambda>_. EOut)(0 := EIn), ep_local := (\<lambda>_. ep_max)(0 := 0)\<rparr>"
  let ?h = "?e\<lparr>ep_held := (\<lambda>_. {})(0 := {7}), ep_guarded := (\<lambda>_. {})(0 := {7})\<rparr>"
  have load: "periodic_step 2 ?i ?l" using ep_step.enter_load [of 0 2 ?i UpdateEpochPeriodically True] by (simp add: ep_init_def)
  have store: "periodic_step 2 ?l ?e"
    using ep_step.enter_store [of 0 2 ?l 0 UpdateEpochPeriodically True] by (simp add: ep_init_def fun_upd_idem)
  have acquire: "periodic_step 2 ?e ?h" using ep_step.acquire [of 0 2 ?e UpdateEpochPeriodically 7 True] by (simp add: ep_init_def)
  have r: "ep_reachable UpdateEpochPeriodically 2 True {7} ?h" by (rule ep_next [OF ep_next [OF ep_next [OF ep_start load] store] acquire])
  have "ep_guarded ?h 0 = {7}" by simp
  moreover note conjunct2 [OF epoch_reclamation_is_safe [OF r], rule_format, of 0]
  ultimately show ?thesis using r by (intro exI [of _ ?h] conjI)
qed

text \<open>
  The limits of the scheme. A state is described by its global epoch, the local epoch and the program
  counter of worker 0, the state of resource 7 and the scan; one worker and one resource are enough.
\<close>

definition ep_view :: "nat \<Rightarrow> nat \<Rightarrow> ep_pc \<Rightarrow> nat set \<Rightarrow> nat set \<Rightarrow> nat set \<Rightarrow> nat set \<Rightarrow> (nat \<rightharpoonup> nat) \<Rightarrow> (nat \<rightharpoonup> nat) \<Rightarrow> ep_scan \<Rightarrow> ep_state" where
  "ep_view g l p held guarded linked unlinked garbage freed sc = \<lparr>ep_global = g, ep_local = (\<lambda>_. ep_max)(0 := l), ep_pc = (\<lambda>_. EOut)(0 := p),
     ep_held = (\<lambda>_. {})(0 := held), ep_guarded = (\<lambda>_. {})(0 := guarded), ep_queued = {}, ep_linked = linked,
     ep_unlinked = unlinked, ep_garbage = garbage, ep_freed = freed, ep_scan = sc\<rparr>"

lemma ep_view_init: "ep_init L = ep_view 0 ep_max EOut {} {} L {} Map.empty Map.empty NoScan"
  by (simp add: ep_init_def ep_view_def fun_upd_idem)

lemma ep_view_steps:
  fixes g l p held guarded linked unlinked garbage freed sc
  defines "s \<equiv> ep_view g l p held guarded linked unlinked garbage freed sc"
  shows view_load: "p = EOut \<and> scheme \<noteq> NoReclamation \<or> p = EIn \<and> scheme = UpdateEpochPeriodically \<Longrightarrow>
      ep_step scheme 1 ready s (ep_view g l (ELoaded g) held guarded linked unlinked garbage freed sc)"
    and view_store: "p = ELoaded e \<Longrightarrow> ep_step scheme 1 ready s (ep_view g e EIn held {r \<in> held. r \<in> linked \<or> r \<in> unlinked \<or>
      (\<exists>e'. garbage r = Some e' \<and> e \<le> e')} linked unlinked garbage freed sc)"
    and view_leave: "scheme = UpdateEpochOnRead \<Longrightarrow> p = EIn \<Longrightarrow> ep_step scheme 1 ready s (ep_view g ep_max EOut held {} linked unlinked garbage freed sc)"
    and view_acquire: "p = EIn \<Longrightarrow> r \<in> linked \<Longrightarrow> ep_step scheme 1 ready s (ep_view g l p (insert r held) (insert r guarded) linked unlinked garbage freed sc)"
    and view_unlink: "r \<in> linked \<Longrightarrow> ep_step scheme 1 ready s (ep_view g l p held guarded (linked - {r}) (insert r unlinked) garbage freed sc)"
    and view_retire: "r \<in> unlinked \<Longrightarrow> ep_step scheme 1 ready s (ep_view g l p held guarded linked (unlinked - {r}) (garbage(r \<mapsto> g)) freed sc)"
    and view_advance: "sc = NoScan \<Longrightarrow> g + 1 < ep_max \<Longrightarrow> (ready \<longrightarrow> l \<noteq> ep_max) \<Longrightarrow>
      ep_step scheme 1 ready s (ep_view (g + 1) l p held guarded linked unlinked garbage freed (Scan 0 ep_max))"
    and view_scan: "sc = Scan 0 m \<Longrightarrow> ep_step scheme 1 ready s (ep_view g l p held guarded linked unlinked garbage freed (Scan 1 (min m l)))"
    and view_scanned: "sc = Scan 1 m \<Longrightarrow> ep_step scheme 1 ready s (ep_view g l p held guarded linked unlinked garbage freed (Freeing m))"
    and view_free: "sc = Freeing m \<Longrightarrow> garbage r = Some e \<Longrightarrow> e < m \<Longrightarrow>
      ep_step scheme 1 ready s (ep_view g l p held guarded linked unlinked (garbage(r := None)) (freed(r \<mapsto> e)) sc)"
    and view_collected: "sc = Freeing m \<Longrightarrow> ep_step scheme 1 ready s (ep_view g l p held guarded linked unlinked garbage freed NoScan)"
  using ep_step.enter_load [of 0 1 s scheme ready] ep_step.enter_store [of 0 1 s e scheme ready] ep_step.leave [of 0 1 scheme s ready]
    ep_step.acquire [of 0 1 s scheme r ready] ep_step.unlink [of r s scheme 1 ready] ep_step.retire [of r s scheme 1 ready]
    ep_step.advance [of s ready 1 scheme] ep_step.scan_read [of s 0 m 1 scheme ready] ep_step.scan_done [of s 1 m scheme ready]
    ep_step.free [of s m r e scheme 1 ready] ep_step.collect_done [of s m scheme 1 ready]
  by (simp_all add: s_def ep_view_def ep_protected_def)

text \<open>
  A reference that is carried over: in the shipped configuration a worker holds the resource of a
  task, the resource is deleted, and the worker enters the next epoch before it executes the task
  (Worker::execute enters after it has fetched a task and while tasks are in its buffer): the
  collector may free the resource while the task still refers to it.
\<close>

lemma epoch_carried_reference:
  "\<exists>s. ep_reachable UpdateEpochPeriodically 1 True {7} s \<and> 7 \<in> ep_held s 0 \<and> 7 \<in> dom (ep_freed s)"
proof -
  let ?R = "ep_reachable UpdateEpochPeriodically 1 True {7}"
  have "?R (ep_view 0 ep_max EOut {} {} {7} {} Map.empty Map.empty NoScan)" using ep_start [of UpdateEpochPeriodically 1 True "{7}"] by (simp add: ep_view_init)
  from ep_next [OF this view_load]
  have "?R (ep_view 0 ep_max (ELoaded 0) {} {} {7} {} Map.empty Map.empty NoScan)" by (simp add: ep_max_def)
  from ep_next [OF this view_store]
  have "?R (ep_view 0 0 EIn {} {} {7} {} Map.empty Map.empty NoScan)" by (simp add: ep_max_def)
  from ep_next [OF this view_acquire]
  have "?R (ep_view 0 0 EIn {7} {7} {7} {} Map.empty Map.empty NoScan)" by (simp add: ep_max_def)
  from ep_next [OF this view_unlink]
  have "?R (ep_view 0 0 EIn {7} {7} {} {7} Map.empty Map.empty NoScan)" by (simp add: ep_max_def)
  from ep_next [OF this view_retire]
  have "?R (ep_view 0 0 EIn {7} {7} {} {} [7 \<mapsto> 0] Map.empty NoScan)" by (simp add: ep_max_def)
  from ep_next [OF this view_advance]
  have "?R (ep_view 1 0 EIn {7} {7} {} {} [7 \<mapsto> 0] Map.empty (Scan 0 ep_max))" by (simp add: ep_max_def)
  from ep_next [OF this view_scan]
  have "?R (ep_view 1 0 EIn {7} {7} {} {} [7 \<mapsto> 0] Map.empty (Scan 1 0))" by (simp add: ep_max_def)
  from ep_next [OF this view_scanned]
  have "?R (ep_view 1 0 EIn {7} {7} {} {} [7 \<mapsto> 0] Map.empty (Freeing 0))" by (simp add: ep_max_def)
  from ep_next [OF this view_collected]
  have "?R (ep_view 1 0 EIn {7} {7} {} {} [7 \<mapsto> 0] Map.empty NoScan)" by (simp add: ep_max_def)
  from ep_next [OF this view_load]
  have "?R (ep_view 1 0 (ELoaded 1) {7} {7} {} {} [7 \<mapsto> 0] Map.empty NoScan)" by (simp add: ep_max_def)
  from ep_next [OF this view_store]
  have "?R (ep_view 1 1 EIn {7} {} {} {} [7 \<mapsto> 0] Map.empty NoScan)" by (simp add: ep_max_def cong: conj_cong)
  from ep_next [OF this view_advance]
  have "?R (ep_view (Suc 1) 1 EIn {7} {} {} {} [7 \<mapsto> 0] Map.empty (Scan 0 ep_max))" by (simp add: ep_max_def)
  from ep_next [OF this view_scan]
  have "?R (ep_view (Suc 1) 1 EIn {7} {} {} {} [7 \<mapsto> 0] Map.empty (Scan 1 1))" by (simp add: ep_max_def)
  from ep_next [OF this view_scanned]
  have "?R (ep_view (Suc 1) 1 EIn {7} {} {} {} [7 \<mapsto> 0] Map.empty (Freeing 1))" by (simp add: ep_max_def)
  from ep_next [OF this view_free [where r = 7]]
  have "?R (ep_view (Suc 1) 1 EIn {7} {} {} {} Map.empty [7 \<mapsto> 0] (Freeing 1))" by (simp add: ep_max_def)
  then show ?thesis by (intro exI [of _ "ep_view (Suc 1) 1 EIn {7} {} {} {} Map.empty [7 \<mapsto> 0] (Freeing 1)"]) (simp add: ep_view_def)
qed

text \<open>A reader that enters after the collector has read the maximum as its local epoch is missed.\<close>

lemma missed_reader:
  assumes "ep_reachable scheme 1 ready {7} (ep_view 1 ep_max EOut {} {} {7} {} Map.empty Map.empty (Freeing ep_max))"
    "scheme \<noteq> NoReclamation"
  shows "\<exists>s. ep_reachable scheme 1 ready {7} s \<and> 7 \<in> ep_guarded s 0 \<and> 7 \<in> dom (ep_freed s)"
proof -
  let ?R = "ep_reachable scheme 1 ready {7}"
  from ep_next [OF assms(1) view_load] assms(2)
  have "?R (ep_view 1 ep_max (ELoaded 1) {} {} {7} {} Map.empty Map.empty (Freeing ep_max))" by (simp add: ep_max_def)
  from ep_next [OF this view_store]
  have "?R (ep_view 1 1 EIn {} {} {7} {} Map.empty Map.empty (Freeing ep_max))" by (simp add: ep_max_def)
  from ep_next [OF this view_acquire]
  have "?R (ep_view 1 1 EIn {7} {7} {7} {} Map.empty Map.empty (Freeing ep_max))" by (simp add: ep_max_def)
  from ep_next [OF this view_unlink]
  have "?R (ep_view 1 1 EIn {7} {7} {} {7} Map.empty Map.empty (Freeing ep_max))" by (simp add: ep_max_def)
  from ep_next [OF this view_retire]
  have "?R (ep_view 1 1 EIn {7} {7} {} {} [7 \<mapsto> 1] Map.empty (Freeing ep_max))" by (simp add: ep_max_def)
  from ep_next [OF this view_free [where r = 7 and e = 1 and m = ep_max]]
  have "?R (ep_view 1 1 EIn {7} {7} {} {} Map.empty [7 \<mapsto> 1] (Freeing ep_max))" by (simp add: ep_max_def)
  then show ?thesis by (intro exI [of _ "ep_view 1 1 EIn {7} {7} {} {} Map.empty [7 \<mapsto> 1] (Freeing ep_max)"]) (simp add: ep_view_def)
qed

text \<open>
  Without the condition on the start it is not safe either: the collector can read the initial local
  epoch (the maximum) before a worker enters, and then frees garbage of the current epoch.
\<close>

lemma epoch_startup_race:
  assumes "scheme \<noteq> NoReclamation"
  shows "\<exists>s. ep_reachable scheme 1 False {7} s \<and> 7 \<in> ep_guarded s 0 \<and> 7 \<in> dom (ep_freed s)"
proof -
  let ?R = "ep_reachable scheme 1 False {7}"
  have "?R (ep_view 0 ep_max EOut {} {} {7} {} Map.empty Map.empty NoScan)" using ep_start [of scheme 1 False "{7}"] by (simp add: ep_view_init)
  from ep_next [OF this view_advance]
  have "?R (ep_view 1 ep_max EOut {} {} {7} {} Map.empty Map.empty (Scan 0 ep_max))" by (simp add: ep_max_def)
  from ep_next [OF this view_scan]
  have "?R (ep_view 1 ep_max EOut {} {} {7} {} Map.empty Map.empty (Scan 1 ep_max))" by (simp add: ep_max_def)
  from ep_next [OF this view_scanned]
  have "?R (ep_view 1 ep_max EOut {} {} {7} {} Map.empty Map.empty (Freeing ep_max))" by (simp add: ep_max_def)
  then show ?thesis by (rule missed_reader) (use assms in simp)
qed

text \<open>
  With UpdateEpochOnRead a worker that leaves its epoch is in that situation again and again: the
  collector misses a reader that enters after its local epoch was read.
\<close>

lemma epoch_on_read_race:
  "\<exists>s. ep_reachable UpdateEpochOnRead 1 True {7} s \<and> 7 \<in> ep_guarded s 0 \<and> 7 \<in> dom (ep_freed s)"
proof -
  let ?R = "ep_reachable UpdateEpochOnRead 1 True {7}"
  have "?R (ep_view 0 ep_max EOut {} {} {7} {} Map.empty Map.empty NoScan)" using ep_start [of UpdateEpochOnRead 1 True "{7}"] by (simp add: ep_view_init)
  from ep_next [OF this view_load]
  have "?R (ep_view 0 ep_max (ELoaded 0) {} {} {7} {} Map.empty Map.empty NoScan)" by (simp add: ep_max_def)
  from ep_next [OF this view_store]
  have "?R (ep_view 0 0 EIn {} {} {7} {} Map.empty Map.empty NoScan)" by (simp add: ep_max_def)
  from ep_next [OF this view_advance]
  have "?R (ep_view 1 0 EIn {} {} {7} {} Map.empty Map.empty (Scan 0 ep_max))" by (simp add: ep_max_def)
  from ep_next [OF this view_leave]
  have "?R (ep_view 1 ep_max EOut {} {} {7} {} Map.empty Map.empty (Scan 0 ep_max))" by (simp add: ep_max_def)
  from ep_next [OF this view_scan]
  have "?R (ep_view 1 ep_max EOut {} {} {7} {} Map.empty Map.empty (Scan 1 ep_max))" by (simp add: ep_max_def)
  from ep_next [OF this view_scanned]
  have "?R (ep_view 1 ep_max EOut {} {} {7} {} Map.empty Map.empty (Freeing ep_max))" by (simp add: ep_max_def)
  then show ?thesis by (rule missed_reader) simp
qed

text \<open>
  EpochManager::reclaim_epoch_garbage on its own: it always terminates, frees exactly the
  garbage whose remove epoch is smaller than every local epoch, once and in the order of
  deletion, and puts everything else back into the queue in its order.
\<close>

lemma reclaim_epoch_garbage_partitions:
  assumes "mpsc_rep h (em_garbage m) xs" "length xs < fuel"
  shows "\<exists>h' m'. reclaim_epoch_garbage fuel epochs h m =
      Some (filter (\<lambda>r. epochs r < min_local_epoch m) xs, h', m') \<and>
    mpsc_rep h' (em_garbage m') (filter (\<lambda>r. \<not> epochs r < min_local_epoch m) xs) \<and>
    (\<forall>r i. r \<in> set xs \<longrightarrow> epochs r < min_local_epoch m \<longrightarrow> i < em_count_channels m \<longrightarrow> epochs r < em_locals m ! i) \<and>
    em_locals m' = em_locals m \<and> em_global m' = em_global m"
  using reclaim_garbage_rep [OF assms, of epochs "min_local_epoch m"]
  by (auto simp: reclaim_epoch_garbage_def dest: order.strict_trans2 [OF _ min_local_epoch_le])

text \<open>reclaim_all frees everything in the global queue and leaves it empty.\<close>

lemma reclaim_all_global:
  "mpsc_rep h (em_garbage m) xs \<Longrightarrow> length xs < fuel \<Longrightarrow>
    \<exists>h' m'. reclaim_all False fuel h m = Some (xs, h', m') \<and> mpsc_rep h' (em_garbage m') []"
  using drain_queue_rep [of h "em_garbage m" xs fuel "[]"] by (auto simp: reclaim_all_def)

end
