(* ===== verification/WorkerModel.thy ===== *)
theory WorkerModel
  imports SchedulerModel Latches RwLatch EpochReclamation
begin

section \<open>Worker\<close>

text \<open>
  mx/tasking/worker.cpp and the latches of mx/resource/resource_interface.h. A worker takes tasks
  from its channel, chooses the execution context from the primitive of the annotated resource,
  runs the task, spawns its successor and deletes it. What a task does is application code:
  running a task in a context is a parameter of the model.
\<close>

subsection \<open>Latches of a resource\<close>

datatype sync_type = SyncExclusive | SharedRead | SharedWrite | SyncOptimistic | SyncOLFIT

record resource_latches =
  res_exclusive_latch :: bool
  res_rw_latch :: u32
  res_optimistic_latch :: u32

definition latches_new :: resource_latches where
  "latches_new = \<lparr>res_exclusive_latch = False, res_rw_latch = 0, res_optimistic_latch = ol_init_version\<rparr>"

text \<open>Acquiring a latch; \<open>None\<close> while the constructor of scoped_latch has to wait.\<close>

fun latch_acquire :: "sync_type \<Rightarrow> resource_latches \<Rightarrow> resource_latches option" where
  "latch_acquire SyncExclusive l =
     (let (ok, f) = spin_try_lock False (res_exclusive_latch l) in
      if ok then Some (l\<lparr>res_exclusive_latch := f\<rparr>) else None)"
| "latch_acquire SharedRead l =
     (let (ok, b) = rw_add_reader (res_rw_latch l) in if ok then Some (l\<lparr>res_rw_latch := b\<rparr>) else None)"
| "latch_acquire SharedWrite l =
     (let (ok, b) = rw_try_lock (res_rw_latch l) in if ok then Some (l\<lparr>res_rw_latch := b\<rparr>) else None)"
| "latch_acquire SyncOptimistic l =
     Some (l\<lparr>res_optimistic_latch := ol_lock_single (res_optimistic_latch l)\<rparr>)"
| "latch_acquire SyncOLFIT l =
     (let v = res_optimistic_latch l in
      if ol_is_locked v then None
      else (let (ok, v') = ol_compare_exchange v (res_optimistic_latch l) in
            if ok then Some (l\<lparr>res_optimistic_latch := v'\<rparr>) else None))"

fun latch_release :: "sync_type \<Rightarrow> resource_latches \<Rightarrow> resource_latches" where
  "latch_release SyncExclusive l = l\<lparr>res_exclusive_latch := spin_unlock (res_exclusive_latch l)\<rparr>"
| "latch_release SharedRead l = l\<lparr>res_rw_latch := rw_unlock_shared (res_rw_latch l)\<rparr>"
| "latch_release SharedWrite l = l\<lparr>res_rw_latch := rw_unlock (res_rw_latch l)\<rparr>"
| "latch_release SyncOptimistic l = l\<lparr>res_optimistic_latch := ol_unlock (res_optimistic_latch l)\<rparr>"
| "latch_release SyncOLFIT l = l\<lparr>res_optimistic_latch := ol_unlock (res_optimistic_latch l)\<rparr>"

subsection \<open>Execution contexts\<close>

datatype exec_context = Plain | Latched sync_type | OptimisticRead

definition task_primitive :: "task \<Rightarrow> primitive option" where
  "task_primitive t = (case task_target t of
     TargetResource r sz \<Rightarrow> resource_primitive r | _ \<Rightarrow> Some PrimitiveNone)"

definition context_exclusive_latched :: exec_context where
  "context_exclusive_latched = Latched SyncExclusive"

definition context_reader_writer_latched :: "bool \<Rightarrow> exec_context" where
  "context_reader_writer_latched readonly = (if readonly then Latched SharedRead else Latched SharedWrite)"

definition context_optimistic :: "bool \<Rightarrow> bool \<Rightarrow> exec_context" where
  "context_optimistic readonly same_channel =
     (if readonly then (if \<not> same_channel then OptimisticRead else Plain) else Latched SyncOptimistic)"

definition context_olfit :: "bool \<Rightarrow> exec_context" where
  "context_olfit readonly = (if readonly then OptimisticRead else Latched SyncOLFIT)"

fun execution_context :: "primitive \<Rightarrow> bool \<Rightarrow> bool \<Rightarrow> exec_context" where
  "execution_context ScheduleWriter readonly same_channel = context_optimistic readonly same_channel"
| "execution_context OLFIT readonly same_channel = context_olfit readonly"
| "execution_context ScheduleAll readonly same_channel = Plain"
| "execution_context PrimitiveNone readonly same_channel = Plain"
| "execution_context ReaderWriterLatch readonly same_channel = context_reader_writer_latched readonly"
| "execution_context ExclusiveLatch readonly same_channel = context_exclusive_latched"

definition task_context :: "task \<Rightarrow> u16 \<Rightarrow> exec_context option" where
  "task_context t ch = (case task_target t of
     TargetResource r sz \<Rightarrow>
       map_option (\<lambda>p. execution_context p (task_is_readonly t) (resource_channel_id r = ch)) (resource_primitive r)
   | _ \<Rightarrow> Some Plain)"

text \<open>
  The loop of execute_optimistic_read. An attempt is the version that is read, what the execution
  does to the task (its bytes) in the state of the resource it happens to see, and the version at
  the validation. The loop returns with the first attempt that validates; \<open>None\<close> when it is
  still running after all given attempts. With UpdateEpochOnRead the read is enclosed in an epoch.
\<close>

type_synonym 'r attempt = "u32 \<times> (u8 list \<Rightarrow> 'r \<times> u8 list) \<times> u32"

fun optimistic_read_loop :: "bool \<Rightarrow> nat \<Rightarrow> 'r attempt list \<Rightarrow> u8 list \<Rightarrow> u8 list \<Rightarrow> ('r \<times> u8 list) option" where
  "optimistic_read_loop sse sz [] stack task = None"
| "optimistic_read_loop sse sz ((version, run, current) # attempts) stack task =
     (let (result, task') = run task in
      if ol_is_valid version current then Some (result, task')
      else optimistic_read_loop sse sz attempts stack (task_stack_restore sse sz stack task'))"

definition execute_optimistic_read :: "reclamation_scheme \<Rightarrow> bool \<Rightarrow> nat \<Rightarrow> 'r attempt list \<Rightarrow> u8 list \<Rightarrow> u8 list \<Rightarrow>
    nat \<Rightarrow> epoch_manager \<Rightarrow> (('r \<times> u8 list) \<times> epoch_manager) option" where
  "execute_optimistic_read scheme sse sz attempts stack task i m =
     (let m' = (if scheme = UpdateEpochOnRead then epoch_enter i m else m) in do {
        r \<leftarrow> optimistic_read_loop sse sz attempts (task_stack_save sse sz stack task) task;
        Some (r, if scheme = UpdateEpochOnRead then epoch_leave i m' else m')
      })"

subsection \<open>The loop of a worker\<close>

definition worker_refill :: "reclamation_scheme \<Rightarrow> (addr \<Rightarrow> task) \<Rightarrow> nat \<Rightarrow> addr links \<Rightarrow> worker \<Rightarrow> epoch_manager \<Rightarrow>
    (addr links \<times> worker \<times> epoch_manager) option" where
  "worker_refill scheme tasks i h w m =
     (let m' = (if scheme = UpdateEpochPeriodically then epoch_enter i m else m) in
      do {
        (n, h', c) \<leftarrow> channel_fill tasks h (w_channel w);
        Some (h', w\<lparr>w_channel := c, w_channel_size := int n\<rparr>, m')
      })"

definition worker_fetch :: "reclamation_scheme \<Rightarrow> (addr \<Rightarrow> task) \<Rightarrow> nat \<Rightarrow> addr links \<Rightarrow> worker \<Rightarrow> epoch_manager \<Rightarrow>
    (addr option \<times> bool \<times> addr links \<times> worker \<times> epoch_manager) option" where
  "worker_fetch scheme tasks i h w m =
     (let (r, lines, c) = channel_next (w_channel w) in
      case r of
        None \<Rightarrow> Some (None, False, h, w\<lparr>w_channel := c\<rparr>, m)
      | Some a \<Rightarrow>
          (let w1 = w\<lparr>w_channel := c, w_channel_size := w_channel_size w - 1\<rparr> in
           if w_channel_size w1 \<le> int (unat (w_prefetch_distance w1))
           then do {
             (h', w2, m') \<leftarrow> worker_refill scheme tasks i h w1 m;
             Some (Some a, True, h', w2, m')
           }
           else Some (Some a, False, h, w1, m)))"

text \<open>The statistics of an executed task.\<close>

definition count_executed :: "bool \<Rightarrow> task \<Rightarrow> nat \<Rightarrow> scheduler \<Rightarrow> scheduler" where
  "count_executed statistics t i s =
     (let s' = count_if statistics Executed i s in
      if has_resource_annotated t
      then count_if statistics (if task_is_readonly t then ExecutedReader else ExecutedWriter) i s'
      else s')"

text \<open>
  One iteration of the inner loop: the task that is run, its result, and the tasks deleted.
  \<open>run\<close> executes a task in its context on the state of the application.
\<close>

definition worker_iteration :: "bool \<Rightarrow> reclamation_scheme \<Rightarrow> (addr \<Rightarrow> task) \<Rightarrow>
    (exec_context \<Rightarrow> addr \<Rightarrow> 'a \<Rightarrow> task_result \<times> 'a) \<Rightarrow> u16 \<Rightarrow> addr links \<Rightarrow> scheduler \<Rightarrow> epoch_manager \<Rightarrow> 'a \<Rightarrow>
    (addr option \<times> addr list \<times> addr links \<times> scheduler \<times> epoch_manager \<times> 'a) option" where
  "worker_iteration statistics scheme tasks run ch h s m app =
     (case worker_at s (unat ch) of
        Inl e \<Rightarrow> None
      | Inr w \<Rightarrow>
          do {
            (r, refilled, h1, w1, m1) \<leftarrow> worker_fetch scheme tasks (unat ch) h w m;
            (let s0 = s\<lparr>sch_worker := (sch_worker s)[unat ch := Some w1]\<rparr>;
                 s1 = (if refilled then count_if statistics Fill (unat ch) s0 else s0) in
             case r of
               None \<Rightarrow> Some (None, [], h1, s1, m1, app)
             | Some a \<Rightarrow>
                 do {
                   ctx \<leftarrow> task_context (tasks a) ch;
                   (let s3 = count_executed statistics (tasks a) (unat ch) s1;
                        (result, app') = run ctx a app;
                        deleted = (if is_remove result then [a] else [])
                    in case successor_task result of
                         None \<Rightarrow> Some (Some a, deleted, h1, s3, m1, app')
                       | Some b \<Rightarrow>
                           (case schedule_from statistics b (tasks b) ch h1 s3 of
                              Inl e \<Rightarrow> None
                            | Inr (h2, s4) \<Rightarrow> Some (Some a, deleted, h2, s4, m1, app')))
                 })
          })"

text \<open>The beginning of an iteration of the outer loop.\<close>

definition worker_begin :: "bool \<Rightarrow> reclamation_scheme \<Rightarrow> (addr \<Rightarrow> task) \<Rightarrow> u16 \<Rightarrow> addr links \<Rightarrow> scheduler \<Rightarrow>
    epoch_manager \<Rightarrow> (addr links \<times> scheduler \<times> epoch_manager) option" where
  "worker_begin statistics scheme tasks ch h s m =
     (case worker_at s (unat ch) of
        Inl e \<Rightarrow> None
      | Inr w \<Rightarrow>
          do {
            (h', w', m') \<leftarrow> worker_refill scheme tasks (unat ch) h w m;
            Some (h', count_if statistics Fill (unat ch) (s\<lparr>sch_worker := (sch_worker s)[unat ch := Some w']\<rparr>), m')
          })"

subsection \<open>Optimistic reads\<close>

lemma optimistic_read_loop_first:
  assumes "length task = sz" "\<forall>(v, run, v') \<in> set attempts. \<forall>t. length t = sz \<longrightarrow> length (snd (run t)) = sz"
  shows "optimistic_read_loop sse sz attempts task task =
    map_option (\<lambda>(v, run, v'). run task) (find (\<lambda>(v, run, v'). ol_is_valid v v') attempts)"
  using assms
proof (induction attempts)
  case (Cons a attempts)
  obtain v run v' where a: "a = (v, run, v')" by (cases a) auto
  obtain result task' where r: "run task = (result, task')" by force
  have "length task' = sz" using Cons.prems a r by auto
  then have "task_stack_restore sse sz task task' = task" using Cons.prems(1) by (simp add: task_stack_restore_eq)
  then show ?case using Cons a r by simp
qed simp

text \<open>
  C37: An optimistic read returns the result of the first execution whose version validates,
  executed on the task as it was when the read began: what failed executions did to the task
  is undone, and it returns as soon as one execution validates. Only with UpdateEpochOnRead are the
  epochs touched: the worker has left its epoch when the read returns.
\<close>

theorem optimistic_read_discards_failed_attempts:
  assumes "length task = sz" "length stack = sz"
    "\<forall>(v, run, v') \<in> set attempts. \<forall>t. length t = sz \<longrightarrow> length (snd (run t)) = sz"
  shows "execute_optimistic_read scheme sse sz attempts stack task i m =
      map_option (\<lambda>(v, run, v'). (run task, if scheme = UpdateEpochOnRead then epoch_leave i m else m))
        (find (\<lambda>(v, run, v'). ol_is_valid v v') attempts) \<and>
    ((\<exists>(v, run, v') \<in> set attempts. v = v') \<longrightarrow> execute_optimistic_read scheme sse sz attempts stack task i m \<noteq> None)"
proof -
  have "task_stack_save sse sz stack task = task" using assms(1,2) by (simp add: task_stack_save_eq)
  moreover have "epoch_leave i (epoch_enter i m) = epoch_leave i m" by (simp add: epoch_leave_def epoch_enter_def)
  ultimately have eq: "execute_optimistic_read scheme sse sz attempts stack task i m =
      map_option (\<lambda>(v, run, v'). (run task, if scheme = UpdateEpochOnRead then epoch_leave i m else m))
        (find (\<lambda>(v, run, v'). ol_is_valid v v') attempts)"
    unfolding execute_optimistic_read_def using optimistic_read_loop_first [OF assms(1,3), of sse]
    by (cases "find (\<lambda>(v, run, v'). ol_is_valid v v') attempts") (auto simp: Let_def)
  moreover have "find (\<lambda>(v, run, v'). ol_is_valid v v') attempts \<noteq> None"
    if "\<exists>(v, run, v') \<in> set attempts. v = v'"
    using that by (auto simp: find_None_iff ol_is_valid_def)
  ultimately show ?thesis by simp
qed

definition demo_epochs :: epoch_manager where
  "demo_epochs = \<lparr>em_count_channels = 1, em_global = 3, em_locals = [3], em_garbage = \<lparr>mq_head = 9, mq_tail = 9, mq_end = 9\<rparr>, em_local_garbage = []\<rparr>"

theorem optimistic_read_discards_failed_attempts_witness:
  "execute_optimistic_read UpdateEpochPeriodically False 3 [(4, \<lambda>t. (1 :: nat, map (\<lambda>b. b + 1) t), 6), (8, \<lambda>t. (2, rev t), 8)]
     [0, 0, 0] [1, 2, 3] 0 demo_epochs = Some ((2, [3, 2, 1]), demo_epochs)"
  using optimistic_read_discards_failed_attempts [of "[1, 2, 3]" 3 "[0, 0, 0]"
      "[(4, \<lambda>t. (1 :: nat, map (\<lambda>b. b + 1) t), 6), (8, \<lambda>t. (2, rev t), 8)]" UpdateEpochPeriodically False 0 demo_epochs]
  by (simp add: ol_is_valid_def)

subsection \<open>Synchronization of conflicting accesses\<close>

text \<open>Contexts that exclude each other while they hold their latches.\<close>

fun exclude :: "exec_context \<Rightarrow> exec_context \<Rightarrow> bool" where
  "exclude (Latched SyncExclusive) (Latched SyncExclusive) = True"
| "exclude (Latched SharedWrite) (Latched SharedWrite) = True"
| "exclude (Latched SharedWrite) (Latched SharedRead) = True"
| "exclude (Latched SharedRead) (Latched SharedWrite) = True"
| "exclude (Latched SyncOLFIT) (Latched SyncOLFIT) = True"
| "exclude _ _ = False"

text \<open>A writer that changes the version and a reader that validates it.\<close>

fun detected :: "exec_context \<Rightarrow> exec_context \<Rightarrow> bool" where
  "detected (Latched SyncOptimistic) OptimisticRead = True"
| "detected (Latched SyncOLFIT) OptimisticRead = True"
| "detected _ _ = False"

text \<open>
  Two tasks that access the same resource, at least one of them writing, are synchronized
  for every primitive except None, wherever they were spawned: they run on the same channel,
  or their latches exclude each other, or the writer changes the version that the reader
  validates after reading.
\<close>

theorem conflicting_accesses_are_synchronized:
  assumes "task_target writer = TargetResource r wsize" "task_target other = TargetResource r osize"
    "\<not> task_is_readonly writer" "resource_primitive r = Some prim" "prim \<noteq> PrimitiveNone"
    "allowed_channel (task_target writer) False wspawn (unat ch1)"
    "allowed_channel (task_target other) (task_is_readonly other) ospawn (unat ch2)"
    "task_context writer ch1 = Some c1" "task_context other ch2 = Some c2"
  shows "ch1 = ch2 \<or> exclude c1 c2 \<or> detected c1 c2"
proof -
  let ?r = "resource_channel_id r"
  have c: "c1 = execution_context prim False (?r = ch1)"
    "c2 = execution_context prim (task_is_readonly other) (?r = ch2)"
    using assms(1-4,8,9) by (auto simp: task_context_def)
  have home: "prim \<in> {ScheduleAll, ScheduleWriter} \<Longrightarrow> ch1 = ?r"
    "prim = ScheduleAll \<or> prim = ScheduleWriter \<and> \<not> task_is_readonly other \<Longrightarrow> ch2 = ?r"
    using assms(1,2,4,6,7) by (auto simp: serialized_at_resource_def word_unat_eq_iff)
  show ?thesis
  proof (cases prim)
    case ScheduleAll
    then show ?thesis using home by simp
  next
    case ScheduleWriter
    then show ?thesis using home c by (cases "task_is_readonly other"; cases "ch2 = ?r") (auto simp: context_optimistic_def)
  qed (use c assms(5) in \<open>auto simp: context_olfit_def context_reader_writer_latched_def context_exclusive_latched_def\<close>)
qed

theorem conflicting_accesses_are_synchronized_witness:
  "let r = tagged_ptr_new 4096 (information_new 1 ScheduleWriter);
       reader = set_readonly True (annotate_resource r 64 task_default);
       writer = annotate_resource r 64 task_default
   in task_context writer 1 = Some (Latched SyncOptimistic) \<and> task_context reader 0 = Some OptimisticRead \<and>
      detected (Latched SyncOptimistic) OptimisticRead"
proof -
  let ?r = "tagged_ptr_new 4096 (information_new 1 ScheduleWriter)"
  let ?reader = "set_readonly True (annotate_resource ?r 64 task_default)"
  let ?writer = "annotate_resource ?r 64 task_default"
  have r: "resource_channel_id ?r = 1" "resource_primitive ?r = Some ScheduleWriter"
    by (simp_all add: resource_channel_id_def tagged_ptr_new_def information_channel_id_def
        information_new_def resource_primitive_def information_primitive_def primitive_of_code_def arr_get_def)
  have ctx: "task_context ?writer 1 = Some (Latched SyncOptimistic)" "task_context ?reader 0 = Some OptimisticRead"
    by (simp_all add: task_context_def annotate_resource_def set_readonly_def task_default_def r context_optimistic_def)
  have "(1 :: u16) = 0 \<or> exclude (Latched SyncOptimistic) OptimisticRead \<or> detected (Latched SyncOptimistic) OptimisticRead"
    by (rule conflicting_accesses_are_synchronized [where writer = ?writer and other = ?reader and r = ?r and
          wsize = 64 and osize = 64 and prim = ScheduleWriter and wspawn = 0 and ospawn = 0])
      (use ctx r in \<open>simp_all add: annotate_resource_def set_readonly_def task_default_def serialized_at_resource_def\<close>)
  then show ?thesis using ctx by (simp add: Let_def)
qed

subsection \<open>The tasks of a worker\<close>

text \<open>The worker's own count is the number of tasks in its buffer.\<close>

definition worker_rep :: "addr links \<Rightarrow> worker \<Rightarrow> (qid \<Rightarrow> addr list) \<Rightarrow> addr list \<Rightarrow> bool" where
  "worker_rep h w cont buf \<longleftrightarrow> channel_rep h (w_channel w) cont buf \<and> w_channel_size w = int (length buf)"

definition worker_frame :: "addr links \<Rightarrow> worker \<Rightarrow> (qid \<Rightarrow> addr list) \<Rightarrow> addr links \<Rightarrow> worker \<Rightarrow> (qid \<Rightarrow> addr list) \<Rightarrow> bool" where
  "worker_frame h w cont h' w' cont' \<longleftrightarrow> same_frame (w_channel w) (w_channel w') \<and>
     (\<forall>k. set (cont' k) \<subseteq> set (cont k)) \<and>
     (\<forall>y. (\<forall>k. valid_qid k \<longrightarrow> y \<notin> q_owns (w_channel w) cont k) \<longrightarrow> h' y = h y)"

lemma filled_buffer_extends: "\<exists>buf'. filled_buffer c cont buf = buf @ buf'"
proof (cases "buf @ backlog c PriorityNormal cont = []")
  case True
  then show ?thesis by simp
next
  case False
  then show ?thesis unfolding filled_buffer_def by (simp only: if_not_P if_False) blast
qed

lemma filled_buffer_empty:
  assumes "filled_buffer c cont buf = []"
  shows "channel_waiting cont buf = {#}"
  using assms channel_waiting_backlog [of cont buf c] by (auto simp: filled_buffer_def split: if_splits)

lemma worker_refill_rep:
  assumes "channel_rep h (w_channel w) cont buf" "length buf < 64"
  shows "\<exists>h' w' m' cont' buf'. worker_refill scheme tasks i h w m = Some (h', w', m') \<and>
    worker_rep h' w' cont' (buf @ buf') \<and> worker_frame h w cont h' w' cont' \<and>
    channel_waiting cont' (buf @ buf') = channel_waiting cont buf \<and>
    (buf @ buf' = [] \<longrightarrow> channel_waiting cont buf = {#})"
proof -
  from channel_fill_rep [OF assms, of tasks] obtain h' c' cont' where
    f: "channel_fill tasks h (w_channel w) = Some (length (filled_buffer (w_channel w) cont buf), h', c')"
    "channel_rep h' c' cont' (filled_buffer (w_channel w) cont buf)" "same_frame (w_channel w) c'"
    "\<forall>k. set (cont' k) \<subseteq> set (cont k)"
    "\<forall>y. (\<forall>k. valid_qid k \<longrightarrow> y \<notin> q_owns (w_channel w) cont k) \<longrightarrow> h' y = h y"
    and wait: "channel_waiting cont' (filled_buffer (w_channel w) cont buf) = channel_waiting cont buf"
    using channel_waiting_fill [of _ _ buf "w_channel w" cont] by blast
  obtain buf' where "filled_buffer (w_channel w) cont buf = buf @ buf'"
    using filled_buffer_extends by blast
  with f wait filled_buffer_empty [of "w_channel w" cont buf] show ?thesis
    by (intro exI [of _ h'] exI [of _ "w\<lparr>w_channel := c', w_channel_size := int (length (buf @ buf'))\<rparr>"]
        exI [of _ "if scheme = UpdateEpochPeriodically then epoch_enter i m else m"] exI [of _ cont'] exI [of _ buf'])
      (simp add: worker_refill_def worker_rep_def worker_frame_def Let_def)
qed

lemma worker_fetch_rep:
  assumes "worker_rep h w cont buf"
  shows "\<exists>f h' w' m' cont' buf'.
    worker_fetch scheme tasks i h w m = Some (if buf = [] then None else Some (hd buf), f, h', w', m') \<and>
    worker_rep h' w' cont' (tl buf @ buf') \<and> worker_frame h w cont h' w' cont' \<and>
    channel_waiting cont' (tl buf @ buf') + (if buf = [] then {#} else {#hd buf#}) = channel_waiting cont buf"
proof -
  have rep: "channel_rep h (w_channel w) cont buf" and size: "w_channel_size w = int (length buf)"
    using assms by (simp_all add: worker_rep_def)
  obtain r lines c where n: "channel_next (w_channel w) = (r, lines, c)"
    by (cases "channel_next (w_channel w)") auto
  have next1: "r = (if buf = [] then None else Some (hd buf))" "channel_rep h c cont (tl buf)" "same_frame (w_channel w) c"
    using channel_next_rep [OF rep n] by simp_all
  show ?thesis
  proof (cases buf)
    case Nil
    then show ?thesis
      using n next1 size by (intro exI [of _ False] exI [of _ h] exI [of _ "w\<lparr>w_channel := c\<rparr>"] exI [of _ m]
          exI [of _ cont] exI [of _ "[]"]) (simp add: worker_fetch_def worker_rep_def worker_frame_def)
  next
    case (Cons a rest)
    let ?w = "w\<lparr>w_channel := c, w_channel_size := w_channel_size w - 1\<rparr>"
    have wait: "channel_waiting cont rest + {#a#} = channel_waiting cont buf" by (simp add: Cons channel_waiting_def)
    show ?thesis
    proof (cases "w_channel_size ?w \<le> int (unat (w_prefetch_distance ?w))")
      case False
      then show ?thesis
        using n next1 size Cons wait by (intro exI [of _ False] exI [of _ h] exI [of _ ?w] exI [of _ m]
          exI [of _ cont] exI [of _ "[]"]) (simp add: worker_fetch_def worker_rep_def worker_frame_def)
    next
      case True
      have "length buf \<le> 64" using rep by (simp add: channel_rep_def tb_rep_def)
      then have "length rest < 64" using Cons by simp
      moreover have "channel_rep h (w_channel ?w) cont rest" using next1 Cons by simp
      ultimately obtain h' w' m' cont' buf' where f: "worker_refill scheme tasks i h ?w m = Some (h', w', m')"
        "worker_rep h' w' cont' (rest @ buf')" "worker_frame h ?w cont h' w' cont'"
        "channel_waiting cont' (rest @ buf') = channel_waiting cont rest"
        using worker_refill_rep [of h ?w cont rest scheme tasks i m] by blast
      have "q_owns c cont k = q_owns (w_channel w) cont k" for k
        using next1(3) by (simp add: q_owns_def same_frame_def)
      then have "worker_frame h w cont h' w' cont'"
        using f(3) same_frame_trans [OF next1(3)] unfolding worker_frame_def by simp
      moreover have "worker_fetch scheme tasks i h w m = Some (Some a, True, h', w', m')"
        using n next1(1) Cons True f(1) by (simp add: worker_fetch_def Let_def)
      moreover have "channel_waiting cont' (rest @ buf') + {#a#} = channel_waiting cont buf"
        using f(4) wait by simp
      ultimately show ?thesis
        using f(2) Cons by (intro exI [of _ True] exI [of _ h'] exI [of _ w'] exI [of _ m']
          exI [of _ cont'] exI [of _ buf']) simp
    qed
  qed
qed

lemma count_executed_invariant:
  "sched_rep h (count_executed b t i s) conts bufs = sched_rep h s conts bufs"
  "sched_fresh (count_executed b t i s) conts a = sched_fresh s conts a"
  "sch_count_channels (count_executed b t i s) = sch_count_channels s"
  "sch_worker (count_executed b t i s) = sch_worker s"
  by (simp_all add: count_executed_def Let_def sched_rep_count_if sched_fresh_count_if count_if_fields)

lemma multiset_exchange:
  fixes a b c d x :: "'a multiset"
  assumes "a + b = c + d" "d + x = b"
  shows "a + x = c"
proof -
  have "(a + x) + d = c + d" using assms by (metis add.assoc add.commute)
  then show ?thesis by simp
qed

text \<open>The first half of an iteration: the task is fetched and counted, what its successor needs is unchanged.\<close>

lemma iteration_fetches:
  assumes "sched_rep h s conts bufs" "unat ch < sch_count_channels s"
    "w_channel_size (the (sch_worker s ! unat ch)) = int (length (bufs (unat ch)))"
    "bufs (unat ch) = a # rest" "task_context (tasks a) ch = Some ctx" "run ctx a app = (result, app')"
  obtains h1 s1 m1 cont buf where
    "worker_iteration statistics scheme tasks run ch h s m app =
      (case successor_task result of
         None \<Rightarrow> Some (Some a, if is_remove result then [a] else [], h1, s1, m1, app')
       | Some b \<Rightarrow> (case schedule_from statistics b (tasks b) ch h1 s1 of
           Inl e \<Rightarrow> None
         | Inr (h2, s2) \<Rightarrow> Some (Some a, if is_remove result then [a] else [], h2, s2, m1, app')))"
    "sched_rep h1 s1 (conts(unat ch := cont)) (bufs(unat ch := rest @ buf))"
    "w_channel_size (the (sch_worker s1 ! unat ch)) = int (length (rest @ buf))" "sch_count_channels s1 = sch_count_channels s"
    "all_waiting (sch_count_channels s) (conts(unat ch := cont)) (bufs(unat ch := rest @ buf)) + {#a#} = all_waiting (sch_count_channels s) conts bufs"
    "\<And>b. sched_fresh s conts b \<Longrightarrow> sched_fresh s1 (conts(unat ch := cont)) b"
proof -
  define i where "i = unat ch"
  define w where "w = the (sch_worker s ! i)"
  let ?n = "sch_count_channels s"
  note inv = sched_repD [OF assms(1,2), folded i_def]
  have "worker_rep h w (conts i) (bufs i)"
    using inv(1) assms(3) by (simp add: worker_rep_def chan_def w_def i_def)
  from worker_fetch_rep [OF this, of scheme tasks i m] assms(4)
  obtain f h1 w1 m1 cont buf where fetch: "worker_fetch scheme tasks i h w m = Some (Some a, f, h1, w1, m1)"
    "worker_rep h1 w1 cont (rest @ buf)" "worker_frame h w (conts i) h1 w1 cont"
    "channel_waiting cont (rest @ buf) + {#a#} = channel_waiting (conts i) (bufs i)"
    by (auto simp: i_def)
  define s0 where "s0 = s\<lparr>sch_worker := (sch_worker s)[i := Some w1]\<rparr>"
  define s3 where "s3 = count_executed statistics (tasks a) i (if f then count_if statistics Fill i s0 else s0)"
  have fr: "same_frame (chan s i) (w_channel w1)" "\<And>k. set (cont k) \<subseteq> set (conts i k)"
    "\<And>y. (\<forall>k. valid_qid k \<longrightarrow> y \<notin> q_owns (chan s i) (conts i) k) \<Longrightarrow> h1 y = h y"
    using fetch(3) by (auto simp: worker_frame_def chan_def w_def)
  have i: "i < ?n" using assms(2) by (simp add: i_def)
  show thesis
  proof (rule that [of h1 s3 m1 cont buf, folded i_def])
    have "sched_rep h1 s0 (conts(i := cont)) (bufs(i := rest @ buf))"
      unfolding s0_def by (rule sched_rep_shrink [OF assms(1) i _ fr]) (use fetch(2) in \<open>simp add: worker_rep_def\<close>)
    then show "sched_rep h1 s3 (conts(i := cont)) (bufs(i := rest @ buf))" by (simp add: s3_def count_executed_invariant sched_rep_count_if)
    show "w_channel_size (the (sch_worker s3 ! i)) = int (length (rest @ buf))" "sch_count_channels s3 = ?n"
      using fetch(2) inv(3) by (simp_all add: s3_def s0_def count_executed_invariant count_if_fields worker_rep_def)
    show "all_waiting ?n (conts(i := cont)) (bufs(i := rest @ buf)) + {#a#} = all_waiting ?n conts bufs"
      by (rule multiset_exchange [OF all_waiting_update [OF i, of conts cont bufs "rest @ buf"] fetch(4)])
    show "sched_fresh s3 (conts(i := cont)) b" if "sched_fresh s conts b" for b
      using sched_fresh_shrink [OF assms(1) i that fr(1,2)] by (simp add: s3_def s0_def count_executed_invariant sched_fresh_count_if)
  qed (unfold worker_iteration_def i_def [symmetric] inv(2) w_def [symmetric] sum.case s3_def s0_def, simp add: fetch(1) assms(5,6) Let_def)
qed

text \<open>
  C30: One iteration of a worker runs the task at the front of its buffer in the context its
  resource demands, spawns its successor and deletes it if asked to: afterwards exactly that task
  is gone from the waiting tasks of all channels and exactly the successor is added, the
  remaining buffered tasks keep their order at the front, and the worker's count of buffered
  tasks is right again (so that the buffer is never refilled when it is full).
\<close>

theorem worker_iteration_runs_next_task:
  assumes "sched_rep h s conts bufs" "unat ch < sch_count_channels s"
    "w_channel_size (the (sch_worker s ! unat ch)) = int (length (bufs (unat ch)))"
    "bufs (unat ch) = a # rest" "task_context (tasks a) ch = Some ctx" "run ctx a app = (result, app')"
    "\<forall>b. successor_task result = Some b \<longrightarrow> sched_fresh s conts b \<and> valid_target s (task_target (tasks b))"
  shows "\<exists>h' s' m' conts' bufs'.
    worker_iteration statistics scheme tasks run ch h s m app =
      Some (Some a, if is_remove result then [a] else [], h', s', m', app') \<and>
    sched_rep h' s' conts' bufs' \<and>
    all_waiting (sch_count_channels s) conts' bufs' + {#a#} = all_waiting (sch_count_channels s) conts bufs +
      (case successor_task result of None \<Rightarrow> {#} | Some b \<Rightarrow> {#b#}) \<and>
    (\<exists>more. bufs' (unat ch) = rest @ more) \<and>
    w_channel_size (the (sch_worker s' ! unat ch)) = int (length (bufs' (unat ch)))"
proof -
  let ?n = "sch_count_channels s" and ?i = "unat ch"
  obtain h1 s1 m1 cont buf where run: "worker_iteration statistics scheme tasks run ch h s m app =
      (case successor_task result of
         None \<Rightarrow> Some (Some a, if is_remove result then [a] else [], h1, s1, m1, app')
       | Some b \<Rightarrow> (case schedule_from statistics b (tasks b) ch h1 s1 of
           Inl e \<Rightarrow> None
         | Inr (h2, s2) \<Rightarrow> Some (Some a, if is_remove result then [a] else [], h2, s2, m1, app')))"
    and rep: "sched_rep h1 s1 (conts(?i := cont)) (bufs(?i := rest @ buf))"
    and size1: "w_channel_size (the (sch_worker s1 ! ?i)) = int (length (rest @ buf))" and n1: "sch_count_channels s1 = ?n"
    and wait: "all_waiting ?n (conts(?i := cont)) (bufs(?i := rest @ buf)) + {#a#} = all_waiting ?n conts bufs"
    and fresh: "\<And>b. sched_fresh s conts b \<Longrightarrow> sched_fresh s1 (conts(?i := cont)) b"
    by (rule iteration_fetches [where bufs = bufs and ch = ch and a = a and tasks = tasks and run = run and
        statistics = statistics and scheme = scheme and m = m, OF assms(1-6)], rule that)
  let ?conts = "conts(?i := cont)" and ?bufs = "bufs(?i := rest @ buf)"
  show ?thesis
  proof (cases "successor_task result")
    case None
    then show ?thesis using run rep wait size1
      by (intro exI [of _ h1] exI [of _ s1] exI [of _ m1] exI [of _ ?conts] exI [of _ ?bufs]) simp
  next
    case (Some b)
    have "sched_fresh s1 ?conts b" "valid_target s1 (task_target (tasks b))"
      using assms(7) Some fresh valid_target_cong [OF n1] by simp_all
    then obtain h2 s2 j k where sch: "schedule_from statistics b (tasks b) ch h1 s1 = Inr (h2, s2)"
      "j < ?n" "valid_qid k" "sched_rep h2 s2 (?conts(j := (?conts j)(k := ?conts j k @ [b]))) ?bufs"
      using schedule_from_rep [OF rep, of b ch "tasks b" statistics] assms(2) n1 by auto
    have "all_waiting ?n (?conts(j := (?conts j)(k := ?conts j k @ [b]))) ?bufs + {#a#} = all_waiting ?n conts bufs + {#b#}"
      using all_waiting_push [OF sch(2,3), of ?conts b ?bufs] wait by (simp add: add.commute add.left_commute)
    then show ?thesis
      using run Some sch size1 schedule_from_size [OF sch(1), of ?i]
      by (intro exI [of _ h2] exI [of _ s2] exI [of _ m1] exI [of _ "?conts(j := (?conts j)(k := ?conts j k @ [b]))"]
          exI [of _ ?bufs]) simp
  qed
qed

text \<open>The outer loop fills the empty buffer of the worker.\<close>

lemma worker_begin_rep:
  assumes "sched_rep h s conts bufs" "unat ch < sch_count_channels s" "length (bufs (unat ch)) < 64"
  shows "\<exists>h' s' m' cont more. worker_begin statistics scheme tasks ch h s m = Some (h', s', m') \<and>
    sched_rep h' s' (conts(unat ch := cont)) (bufs(unat ch := bufs (unat ch) @ more)) \<and>
    channel_waiting cont (bufs (unat ch) @ more) = channel_waiting (conts (unat ch)) (bufs (unat ch)) \<and>
    w_channel_size (the (sch_worker s' ! unat ch)) = int (length (bufs (unat ch) @ more)) \<and>
    sch_count_channels s' = sch_count_channels s \<and>
    (bufs (unat ch) @ more = [] \<longrightarrow> channel_waiting (conts (unat ch)) (bufs (unat ch)) = {#})"
proof -
  define i where "i = unat ch"
  define w where "w = the (sch_worker s ! i)"
  have i: "i < sch_count_channels s" using assms(2) by (simp add: i_def)
  note inv = sched_repD [OF assms(1) i]
  have "channel_rep h (w_channel w) (conts i) (bufs i)" using inv(1) by (simp add: chan_def w_def)
  from worker_refill_rep [OF this, of scheme tasks i m] assms(3)
  obtain h1 w1 m1 cont more where f: "worker_refill scheme tasks i h w m = Some (h1, w1, m1)"
    "worker_rep h1 w1 cont (bufs i @ more)" "worker_frame h w (conts i) h1 w1 cont"
    "channel_waiting cont (bufs i @ more) = channel_waiting (conts i) (bufs i)"
    "bufs i @ more = [] \<longrightarrow> channel_waiting (conts i) (bufs i) = {#}"
    unfolding i_def by blast
  have fr: "same_frame (chan s i) (w_channel w1)" "\<And>k. set (cont k) \<subseteq> set (conts i k)"
    "\<And>y. (\<forall>k. valid_qid k \<longrightarrow> y \<notin> q_owns (chan s i) (conts i) k) \<Longrightarrow> h1 y = h y"
    using f(3) by (auto simp: worker_frame_def chan_def w_def)
  have rep: "sched_rep h1 (s\<lparr>sch_worker := (sch_worker s)[i := Some w1]\<rparr>) (conts(i := cont)) (bufs(i := bufs i @ more))"
    by (rule sched_rep_shrink [OF assms(1) i _ fr]) (use f(2) in \<open>simp add: worker_rep_def\<close>)
  show ?thesis
    unfolding i_def [symmetric]
    by (rule exI [of _ h1], rule exI [of _ "count_if statistics Fill i (s\<lparr>sch_worker := (sch_worker s)[i := Some w1]\<rparr>)"],
        rule exI [of _ m1], rule exI [of _ cont], rule exI [of _ more])
      (use rep f inv(2,3) in \<open>simp add: worker_begin_def i_def [symmetric] w_def [symmetric] sched_rep_count_if
        count_if_fields worker_rep_def\<close>)
qed

lemma channel_waiting_single:
  assumes "channel_waiting cont buf = {#a#}" "buf \<noteq> []"
  shows "buf = [a]"
proof -
  obtain b rest where buf: "buf = b # rest" using assms(2) by (cases buf) auto
  with assms(1) have "add_mset b (mset rest + (\<Sum>k \<in> {k. valid_qid k}. mset (cont k))) = {#a#}"
    by (simp add: channel_waiting_def)
  then show ?thesis using buf by (simp add: add_mset_eq_single)
qed

lemma make_remove_fields: "successor_task make_remove = None" "is_remove make_remove"
  by (simp_all add: make_remove_def is_remove_def)

theorem worker_iteration_runs_next_task_witness:
  "\<exists>h s m h' s' m'. worker_iteration True NoReclamation (\<lambda>_. annotate_channel 0 task_default)
     (\<lambda>c a n. (make_remove, n + a)) 0 h s m 7 = Some (Some 1000, [1000], h', s', m', 1007) \<and> sch_count_channels s = 2"
proof -
  let ?t = "annotate_channel 0 task_default"
  let ?empty = "\<lambda>_ _. []" and ?nobuf = "\<lambda>_. []"
  note base = built_upto_rep [OF demo_scheduler_built(1)]
  have t: "task_target ?t = TargetChannel 0" by (simp add: annotate_channel_def)
  have "sched_fresh (snd demo_scheduler) ?empty 1000"
    by (rule built_upto_fresh [OF demo_scheduler_built(1)]) (simp add: demo_scheduler_built(2))
  from schedule_from_rep [OF base this, of 0 ?t True] t
  obtain h1 s1 k where sch: "schedule_from True 1000 ?t 0 (fst demo_scheduler) (snd demo_scheduler) = Inr (h1, s1)"
    "valid_qid k" "sched_rep h1 s1 (?empty(0 := (\<lambda>_. [])(k := [1000]))) ?nobuf"
    by (auto simp: demo_scheduler_built(2))
  have n1: "sch_count_channels s1 = 2"
    using schedule_from_count_channels [OF sch(1)] demo_scheduler_built(2) by simp
  have "channel_waiting ((\<lambda>_. [])(k := [1000])) [] = {#1000#}"
    using channel_waiting_push [OF sch(2), of "\<lambda>_. []" 1000 "[]"] by (simp add: channel_waiting_def)
  moreover from worker_begin_rep [OF sch(3), of 0 True NoReclamation "\<lambda>_. ?t" undefined] n1
  obtain h2 s2 cont more where b: "sched_rep h2 s2 (?empty(0 := cont)) (?nobuf(0 := more))"
    "channel_waiting cont more = channel_waiting ((\<lambda>_. [])(k := [1000])) []"
    "w_channel_size (the (sch_worker s2 ! 0)) = int (length more)" "sch_count_channels s2 = 2"
    "more = [] \<longrightarrow> channel_waiting ((\<lambda>_. [])(k := [1000])) [] = {#}"
    by auto
  ultimately have "more = [1000]" by (intro channel_waiting_single) auto
  then have "\<exists>h' s' m'. worker_iteration True NoReclamation (\<lambda>_. ?t) (\<lambda>c a n. (make_remove, n + a)) 0 h2 s2 undefined 7 =
      Some (Some 1000, [1000], h', s', m', 1007)"
    using worker_iteration_runs_next_task [OF b(1), of 0 1000 "[]" "\<lambda>_. ?t" Plain "\<lambda>c a n. (make_remove, n + a)" 7
        make_remove 1007 True NoReclamation undefined] b(3,4) t
    by (auto simp: task_context_def make_remove_fields)
  then show ?thesis using b(4) by blast
qed

end
