(* ===== verification/BLinkNode.thy ===== *)
theory BLinkNode
  imports ResourcePtr
begin

section \<open>Nodes of the B-link tree\<close>

text \<open>
  src/db/index/blinktree/node.h: the header and the arrays of a node and the operations on one
  node. Keys are 64 bit (the index is instantiated with std::uint64_t), payloads are any type.
  The union of the inner and the leaf representation is the datatype \<open>body\<close>; reading the member
  that is not active, or a cell outside of an array, is the value None. A pointer to a node is
  its address (the tag of a pointer is fixed when the node is built), null is None.

  The operations are described through the filled part of the arrays: \<open>keys_of\<close>, \<open>children_of\<close>
  and \<open>entries_of\<close>. The lemmas show that the searches return what a linear scan of the filled
  part gives, that insert puts one element into it, and that move copies a range of it.
\<close>

subsection \<open>Data\<close>

text \<open>NodeType is a set of bits.\<close>

definition Leaf_bit :: u8 where "Leaf_bit = 1"
definition Inner_bit :: u8 where "Inner_bit = 2"
definition Branch_bit :: u8 where "Branch_bit = 4"

datatype 'v body =
    InnerNode (inner_keys: "u64 list") (separators: "addr option list")
  | LeafNode (leaf_keys: "u64 list") (leaf_values: "'v list")

record 'v node =
  node_type :: u8
  high_key :: u64
  right_sibling :: "addr option"
  parent :: "addr option"
  node_size :: nat
  node_body :: "'v body"

text \<open>
  The capacities of the arrays follow from the sizes of the header, the resource interface, the
  keys and the values, and from config::node_size.
\<close>

definition blinktree_node_size :: nat where
  "blinktree_node_size = 1024"

definition node_space :: "nat \<Rightarrow> nat \<Rightarrow> nat" where
  "node_space header resource_interface = blinktree_node_size - header - resource_interface"

definition max_keys :: "nat \<Rightarrow> nat \<Rightarrow> nat \<Rightarrow> nat" where
  "max_keys space pointer k = (space - pointer) div (k + pointer)"

definition max_items :: "nat \<Rightarrow> nat \<Rightarrow> nat \<Rightarrow> nat" where
  "max_items space k v = space div (k + v)"

record capacity =
  cap_keys :: nat
  cap_items :: nat

definition node_new :: "u8 \<Rightarrow> addr option \<Rightarrow> 'v body \<Rightarrow> 'v node" where
  "node_new type par memory =
     \<lparr>node_type = type, high_key = - 1, right_sibling = None, parent = par, node_size = 0, node_body = memory\<rparr>"

definition is_leaf :: "'v node \<Rightarrow> bool" where
  "is_leaf n \<longleftrightarrow> node_type n AND Leaf_bit \<noteq> 0"

definition is_inner :: "'v node \<Rightarrow> bool" where
  "is_inner n \<longleftrightarrow> node_type n AND Inner_bit \<noteq> 0"

definition is_branch :: "'v node \<Rightarrow> bool" where
  "is_branch n \<longleftrightarrow> node_type n AND Branch_bit \<noteq> 0"

subsection \<open>Access\<close>

fun node_leaf_key :: "'v node \<Rightarrow> nat \<Rightarrow> u64 option" where
  "node_leaf_key n i = (case node_body n of LeafNode ks vs \<Rightarrow> arr_get ks i | _ \<Rightarrow> None)"

fun node_inner_key :: "'v node \<Rightarrow> nat \<Rightarrow> u64 option" where
  "node_inner_key n i = (case node_body n of InnerNode ks ss \<Rightarrow> arr_get ks i | _ \<Rightarrow> None)"

fun node_value :: "'v node \<Rightarrow> nat \<Rightarrow> 'v option" where
  "node_value n i = (case node_body n of LeafNode ks vs \<Rightarrow> arr_get vs i | _ \<Rightarrow> None)"

fun node_set_value :: "'v node \<Rightarrow> nat \<Rightarrow> 'v \<Rightarrow> 'v node option" where
  "node_set_value n i v = (case node_body n of
     LeafNode ks vs \<Rightarrow> map_option (\<lambda>vs'. n\<lparr>node_body := LeafNode ks vs'\<rparr>) (arr_set vs i v)
   | _ \<Rightarrow> None)"

fun node_separator :: "'v node \<Rightarrow> nat \<Rightarrow> addr option option" where
  "node_separator n i = (case node_body n of InnerNode ks ss \<Rightarrow> arr_get ss i | _ \<Rightarrow> None)"

fun node_set_separator :: "'v node \<Rightarrow> nat \<Rightarrow> addr option \<Rightarrow> 'v node option" where
  "node_set_separator n i s = (case node_body n of
     InnerNode ks ss \<Rightarrow> map_option (\<lambda>ss'. n\<lparr>node_body := InnerNode ks ss'\<rparr>) (arr_set ss i s)
   | _ \<Rightarrow> None)"

definition node_full :: "capacity \<Rightarrow> 'v node \<Rightarrow> bool" where
  "node_full cap n \<longleftrightarrow> (if is_leaf n then cap_items cap else cap_keys cap) \<le> node_size n"

subsection \<open>Search\<close>

definition node_keys :: "'v node \<Rightarrow> u64 list" where
  "node_keys n = (case node_body n of InnerNode ks ss \<Rightarrow> ks | LeafNode ks vs \<Rightarrow> ks)"

definition node_index :: "'v node \<Rightarrow> u64 \<Rightarrow> nat" where
  "node_index n k = lower_bound (take (node_size n) (node_keys n)) k"

text \<open>
  The binary search of Node::child. The bounds are std::int16_t; they stay between -1 and the
  size, which is far below 2^15.
\<close>

function child_search :: "u64 list \<Rightarrow> u64 \<Rightarrow> int \<Rightarrow> int \<Rightarrow> int option" where
  "child_search ks k low high =
     (if low \<le> high then
        (let mid = (low + high) div 2 in
         case arr_get ks (nat mid) of
           None \<Rightarrow> None
         | Some x \<Rightarrow> if x \<le> k then child_search ks k (mid + 1) high else child_search ks k low (mid - 1))
      else Some high)"
  by pat_completeness auto
termination by (relation "measure (\<lambda>(ks, k, low, high). nat (high - low + 1))") auto

definition node_child :: "'v node \<Rightarrow> u64 \<Rightarrow> addr option option" where
  "node_child n k = do {
     high \<leftarrow> child_search (node_keys n) k 0 (int (node_size n) - 1);
     node_separator n (nat (high + 1))
   }"

fun contains_from :: "'v node \<Rightarrow> addr option \<Rightarrow> nat \<Rightarrow> nat \<Rightarrow> bool option" where
  "contains_from n s i 0 = Some False"
| "contains_from n s i (Suc m) = do {
     x \<leftarrow> node_separator n i;
     if x = s then Some True else contains_from n s (Suc i) m
   }"

definition node_contains :: "'v node \<Rightarrow> addr option \<Rightarrow> bool option" where
  "node_contains n s = contains_from n s 0 (node_size n + 1)"

subsection \<open>Update\<close>

fun node_insert_separator :: "'v node \<Rightarrow> nat \<Rightarrow> addr option \<Rightarrow> u64 \<Rightarrow> 'v node option" where
  "node_insert_separator n i s k = (case node_body n of
     InnerNode ks ss \<Rightarrow>
       do {
         (ks1, ss1) \<leftarrow>
           (if i < node_size n
            then do {
              ks1 \<leftarrow> arr_copy ks i ks (i + 1) (node_size n - i);
              ss1 \<leftarrow> arr_copy ss (i + 1) ss (i + 2) (node_size n - i);
              Some (ks1, ss1)
            }
            else Some (ks, ss));
         ks2 \<leftarrow> arr_set ks1 i k;
         ss2 \<leftarrow> arr_set ss1 (i + 1) s;
         Some (n\<lparr>node_body := InnerNode ks2 ss2, node_size := node_size n + 1\<rparr>)
       }
   | _ \<Rightarrow> None)"

fun node_insert_value :: "'v node \<Rightarrow> nat \<Rightarrow> 'v \<Rightarrow> u64 \<Rightarrow> 'v node option" where
  "node_insert_value n i v k = (case node_body n of
     LeafNode ks vs \<Rightarrow>
       do {
         (ks1, vs1) \<leftarrow>
           (if i < node_size n
            then do {
              ks1 \<leftarrow> arr_copy ks i ks (i + 1) (node_size n - i);
              vs1 \<leftarrow> arr_copy vs i vs (i + 1) (node_size n - i);
              Some (ks1, vs1)
            }
            else Some (ks, vs));
         ks2 \<leftarrow> arr_set ks1 i k;
         vs2 \<leftarrow> arr_set vs1 i v;
         Some (n\<lparr>node_body := LeafNode ks2 vs2, node_size := node_size n + 1\<rparr>)
       }
   | _ \<Rightarrow> None)"

definition node_move :: "'v node \<Rightarrow> 'v node \<Rightarrow> nat \<Rightarrow> nat \<Rightarrow> 'v node option" where
  "node_move n dst from_index count = (case (node_body n, node_body dst) of
     (LeafNode ks vs, LeafNode ks' vs') \<Rightarrow>
       do {
         ks1 \<leftarrow> arr_copy ks from_index ks' 0 count;
         vs1 \<leftarrow> arr_copy vs from_index vs' 0 count;
         Some (dst\<lparr>node_body := LeafNode ks1 vs1\<rparr>)
       }
   | (InnerNode ks ss, InnerNode ks' ss') \<Rightarrow>
       do {
         ks1 \<leftarrow> arr_copy ks from_index ks' 0 count;
         ss1 \<leftarrow> arr_copy ss (from_index + 1) ss' 1 count;
         Some (dst\<lparr>node_body := InnerNode ks1 ss1\<rparr>)
       }
   | _ \<Rightarrow> None)"

subsection \<open>The filled part of a node\<close>

definition keys_of :: "'v node \<Rightarrow> u64 list" where
  "keys_of n = take (node_size n) (node_keys n)"

definition children_of :: "'v node \<Rightarrow> addr option list" where
  "children_of n = (case node_body n of InnerNode ks ss \<Rightarrow> take (node_size n + 1) ss | _ \<Rightarrow> [])"

definition values_of :: "'v node \<Rightarrow> 'v list" where
  "values_of n = (case node_body n of LeafNode ks vs \<Rightarrow> take (node_size n) vs | _ \<Rightarrow> [])"

text \<open>The arrays have their capacity, the type fits the active member, the size fits the arrays.\<close>

fun body_shape :: "capacity \<Rightarrow> bool \<Rightarrow> 'v body \<Rightarrow> bool" where
  "body_shape cap leaf (LeafNode ks vs) \<longleftrightarrow> leaf \<and> length ks = cap_items cap \<and> length vs = cap_items cap"
| "body_shape cap leaf (InnerNode ks ss) \<longleftrightarrow> \<not> leaf \<and> length ks = cap_keys cap \<and> length ss = cap_keys cap + 1"

definition node_shape :: "capacity \<Rightarrow> 'v node \<Rightarrow> bool" where
  "node_shape cap n \<longleftrightarrow> body_shape cap (is_leaf n) (node_body n) \<and> (is_inner n \<longleftrightarrow> \<not> is_leaf n) \<and>
     (is_branch n \<longrightarrow> is_inner n) \<and> node_size n \<le> (if is_leaf n then cap_items cap else cap_keys cap)"

lemma node_shape_leaf:
  assumes "node_shape cap n" "is_leaf n"
  obtains ks vs where "node_body n = LeafNode ks vs" "length ks = cap_items cap" "length vs = cap_items cap"
    "node_size n \<le> cap_items cap"
  using assms by (cases "node_body n") (auto simp: node_shape_def)

lemma node_shape_inner:
  assumes "node_shape cap n" "\<not> is_leaf n"
  obtains ks ss where "node_body n = InnerNode ks ss" "length ks = cap_keys cap" "length ss = cap_keys cap + 1"
    "node_size n \<le> cap_keys cap"
  using assms by (cases "node_body n") (auto simp: node_shape_def)

definition same_header :: "'v node \<Rightarrow> 'v node \<Rightarrow> bool" where
  "same_header n n' \<longleftrightarrow> node_type n' = node_type n \<and> high_key n' = high_key n \<and>
     right_sibling n' = right_sibling n \<and> parent n' = parent n"

lemma same_headerD:
  assumes "same_header n n'"
  shows "is_leaf n' = is_leaf n" "is_inner n' = is_inner n" "is_branch n' = is_branch n" "high_key n' = high_key n"
    "right_sibling n' = right_sibling n" "parent n' = parent n"
  using assms by (simp_all add: same_header_def is_leaf_def is_inner_def is_branch_def)

lemma node_type_bits:
  "node_type n = Leaf_bit \<Longrightarrow> is_leaf n \<and> \<not> is_inner n \<and> \<not> is_branch n"
  "node_type n = Inner_bit \<Longrightarrow> \<not> is_leaf n \<and> is_inner n \<and> \<not> is_branch n"
  "node_type n = Inner_bit OR Branch_bit \<Longrightarrow> \<not> is_leaf n \<and> is_inner n \<and> is_branch n"
  by (simp_all add: is_leaf_def is_inner_def is_branch_def Leaf_bit_def Inner_bit_def Branch_bit_def)

lemma filled_lengths:
  assumes "node_shape cap n"
  shows "length (keys_of n) = node_size n"
    "is_leaf n \<Longrightarrow> length (values_of n) = node_size n"
    "\<not> is_leaf n \<Longrightarrow> length (children_of n) = node_size n + 1"
  using assms by (cases "node_body n"; auto simp: node_shape_def keys_of_def node_keys_def values_of_def children_of_def)+

subsection \<open>Searches\<close>

text \<open>The number of keys that are not above the search key.\<close>

definition upper_bound :: "u64 list \<Rightarrow> u64 \<Rightarrow> nat" where
  "upper_bound ks k = length (takeWhile (\<lambda>x. x \<le> k) ks)"

lemma upper_bound_unique:
  assumes "i \<le> length ks" "\<And>j. j < i \<Longrightarrow> ks ! j \<le> k" "i < length ks \<Longrightarrow> k < ks ! i"
  shows "upper_bound ks k = i"
proof -
  have "takeWhile (\<lambda>x. x \<le> k) ks = take i ks"
    using assms by (intro takeWhile_eq_take_P_nth) (auto simp: not_le)
  then show ?thesis using assms(1) by (simp add: upper_bound_def)
qed

lemma upper_bound_le: "upper_bound ks k \<le> length ks"
  by (simp add: upper_bound_def length_takeWhile_le)

lemma upper_bound_below: "j < upper_bound ks k \<Longrightarrow> ks ! j \<le> k"
  unfolding upper_bound_def by (metis nth_mem set_takeWhileD takeWhile_nth)

lemma upper_bound_above: "upper_bound ks k < length ks \<Longrightarrow> k < ks ! upper_bound ks k"
  unfolding upper_bound_def using nth_length_takeWhile [of "\<lambda>x. x \<le> k" ks] by (simp add: not_le)

lemma child_search_bounds:
  assumes "0 \<le> low" "low \<le> high + 1" "high < int m" "m \<le> length ks" "sorted (take m ks)"
    "\<forall>j. int j < low \<longrightarrow> ks ! j \<le> k" "\<forall>j. high < int j \<longrightarrow> j < m \<longrightarrow> k < ks ! j"
  shows "\<exists>h. child_search ks k low high = Some h \<and> - 1 \<le> h \<and> h < int m \<and>
    (\<forall>j. int j \<le> h \<longrightarrow> ks ! j \<le> k) \<and> (\<forall>j. h < int j \<longrightarrow> j < m \<longrightarrow> k < ks ! j)"
  using assms
proof (induction ks k low high rule: child_search.induct)
  case (1 ks k low high)
  show ?case
  proof (cases "low \<le> high")
    case False
    then have "high = low - 1" using 1(4) by simp
    then show ?thesis using False "1.prems" by (subst child_search.simps) auto
  next
    case True
    define mid where "mid = (low + high) div 2"
    have mid: "low \<le> mid" "mid \<le> high" using True by (auto simp: mid_def)
    then have nm: "nat mid < m" "0 \<le> mid" using "1.prems" by auto
    then have get: "arr_get ks (nat mid) = Some (ks ! nat mid)" using "1.prems"(4) by (simp add: arr_get_def)
    have mono: "ks ! i \<le> ks ! j" if "i \<le> j" "j < m" for i j
      using sorted_nth_mono [OF "1.prems"(5), of i j] that "1.prems"(4) by simp
    show ?thesis
    proof (cases "ks ! nat mid \<le> k")
      case le: True
      have "\<forall>j. int j < mid + 1 \<longrightarrow> ks ! j \<le> k"
      proof (intro allI impI)
        fix j assume "int j < mid + 1"
        then have "j \<le> nat mid" by simp
        then show "ks ! j \<le> k" using mono [of j "nat mid"] nm le by simp
      qed
      then have "\<exists>h. child_search ks k (mid + 1) high = Some h \<and> - 1 \<le> h \<and> h < int m \<and>
        (\<forall>j. int j \<le> h \<longrightarrow> ks ! j \<le> k) \<and> (\<forall>j. h < int j \<longrightarrow> j < m \<longrightarrow> k < ks ! j)"
        using "1.IH"(1) [OF True mid_def get le] "1.prems" mid by simp
      then show ?thesis using True get le by (subst child_search.simps) (simp add: Let_def mid_def [symmetric])
    next
      case gt: False
      have "\<forall>j. mid - 1 < int j \<longrightarrow> j < m \<longrightarrow> k < ks ! j"
      proof (intro allI impI)
        fix j assume j: "mid - 1 < int j" "j < m"
        then have "ks ! nat mid \<le> ks ! j" using mono [of "nat mid" j] by simp
        then show "k < ks ! j" using gt by simp
      qed
      then have "\<exists>h. child_search ks k low (mid - 1) = Some h \<and> - 1 \<le> h \<and> h < int m \<and>
        (\<forall>j. int j \<le> h \<longrightarrow> ks ! j \<le> k) \<and> (\<forall>j. h < int j \<longrightarrow> j < m \<longrightarrow> k < ks ! j)"
        using "1.IH"(2) [OF True mid_def get gt] "1.prems" mid by simp
      then show ?thesis using True get gt by (subst child_search.simps) (simp add: Let_def mid_def [symmetric])
    qed
  qed
qed

lemma child_search_upper_bound:
  assumes "m \<le> length ks" "sorted (take m ks)"
  shows "child_search ks k 0 (int m - 1) = Some (int (upper_bound (take m ks) k) - 1)"
proof -
  obtain h where h: "child_search ks k 0 (int m - 1) = Some h" "- 1 \<le> h" "h < int m"
    "\<forall>j. int j \<le> h \<longrightarrow> ks ! j \<le> k" "\<forall>j. h < int j \<longrightarrow> j < m \<longrightarrow> k < ks ! j"
    using child_search_bounds [of 0 "int m - 1" m ks k] assms by auto
  have "upper_bound (take m ks) k = nat (h + 1)"
    by (rule upper_bound_unique) (use h assms(1) in auto)
  then show ?thesis using h by simp
qed

lemma node_child_eq:
  assumes "node_shape cap n" "\<not> is_leaf n" "sorted (keys_of n)"
  shows "node_child n k = Some (children_of n ! upper_bound (keys_of n) k)"
    "upper_bound (keys_of n) k < length (children_of n)"
proof -
  obtain ks ss where b: "node_body n = InnerNode ks ss" "length ks = cap_keys cap" "length ss = cap_keys cap + 1"
    "node_size n \<le> cap_keys cap" by (rule node_shape_inner [OF assms(1,2)])
  have k: "node_keys n = ks" "keys_of n = take (node_size n) ks" using b(1) by (simp_all add: node_keys_def keys_of_def)
  have u: "upper_bound (keys_of n) k \<le> node_size n"
    using upper_bound_le [of "keys_of n" k] b by (simp add: k)
  have "child_search ks k 0 (int (node_size n) - 1) = Some (int (upper_bound (keys_of n) k) - 1)"
    using child_search_upper_bound [of "node_size n" ks k] assms(3) b by (simp add: k)
  then show "node_child n k = Some (children_of n ! upper_bound (keys_of n) k)"
    using b u by (simp add: node_child_def k(1) children_of_def arr_get_def)
  show "upper_bound (keys_of n) k < length (children_of n)" using u filled_lengths(3) [OF assms(1,2)] by simp
qed

subsection \<open>Updates\<close>

text \<open>Opening a gap in an array, also at its end.\<close>

lemma arr_gap:
  assumes "i \<le> n" "n < length xs"
  shows "\<exists>ys. (if i < n then arr_copy xs i xs (i + 1) (n - i) else Some xs) = Some ys \<and> length ys = length xs \<and>
    take (Suc n) (ys[i := v]) = take i (take n xs) @ v # drop i (take n xs)"
proof (cases "i < n")
  case True
  obtain ys where "arr_copy xs i xs (i + 1) (n - i) = Some ys" "length ys = length xs"
    "take (Suc n) (ys[i := v]) = take i xs @ v # drop i (take n xs)"
    using arr_shift_insert [OF assms, of v] by blast
  then show ?thesis using True by simp
next
  case False
  then have "i = n" using assms(1) by simp
  then show ?thesis using assms(2) by (simp add: take_Suc_conv_app_nth)
qed

lemma node_insert_value_eq:
  assumes "node_shape cap n" "is_leaf n" "\<not> node_full cap n" "i \<le> node_size n"
  shows "\<exists>n'. node_insert_value n i v k = Some n' \<and> node_shape cap n' \<and> same_header n n' \<and> node_size n' = node_size n + 1 \<and>
    keys_of n' = take i (keys_of n) @ k # drop i (keys_of n) \<and>
    values_of n' = take i (values_of n) @ v # drop i (values_of n)"
proof -
  obtain ks vs where b: "node_body n = LeafNode ks vs" "length ks = cap_items cap" "length vs = cap_items cap"
    "node_size n \<le> cap_items cap" by (rule node_shape_leaf [OF assms(1,2)])
  have n: "node_size n < length ks" "node_size n < length vs" using assms(2,3) b by (auto simp: node_full_def)
  obtain ks1 where k: "(if i < node_size n then arr_copy ks i ks (i + 1) (node_size n - i) else Some ks) = Some ks1"
    "length ks1 = length ks" "take (Suc (node_size n)) (ks1[i := k]) = take i (take (node_size n) ks) @ k # drop i (take (node_size n) ks)"
    using arr_gap [OF assms(4) n(1), of k] by blast
  obtain vs1 where v: "(if i < node_size n then arr_copy vs i vs (i + 1) (node_size n - i) else Some vs) = Some vs1"
    "length vs1 = length vs" "take (Suc (node_size n)) (vs1[i := v]) = take i (take (node_size n) vs) @ v # drop i (take (node_size n) vs)"
    using arr_gap [OF assms(4) n(2), of v] by blast
  let ?n = "n\<lparr>node_body := LeafNode (ks1[i := k]) (vs1[i := v]), node_size := node_size n + 1\<rparr>"
  have "(if i < node_size n then do { ks1 \<leftarrow> arr_copy ks i ks (i + 1) (node_size n - i);
      vs1 \<leftarrow> arr_copy vs i vs (i + 1) (node_size n - i); Some (ks1, vs1) } else Some (ks, vs)) = Some (ks1, vs1)"
    using k(1) v(1) by (simp split: if_splits)
  then have "node_insert_value n i v k = Some ?n"
    using b(1) n k(2) v(2) assms(4) by (simp add: arr_set_def)
  moreover have "node_shape cap ?n"
    using assms(1,2) b n k(2) v(2) by (simp add: node_shape_def is_leaf_def is_inner_def is_branch_def)
  moreover have "keys_of ?n = take i (keys_of n) @ k # drop i (keys_of n)"
    "values_of ?n = take i (values_of n) @ v # drop i (values_of n)"
    using k(3) v(3) b(1) by (simp_all add: keys_of_def values_of_def node_keys_def)
  ultimately show ?thesis by (intro exI [of _ ?n]) (simp add: same_header_def)
qed

lemma node_insert_separator_eq:
  assumes "node_shape cap n" "\<not> is_leaf n" "\<not> node_full cap n" "i \<le> node_size n"
  shows "\<exists>n'. node_insert_separator n i s k = Some n' \<and> node_shape cap n' \<and>
    same_header n n' \<and> node_size n' = node_size n + 1 \<and>
    keys_of n' = take i (keys_of n) @ k # drop i (keys_of n) \<and>
    children_of n' = take (i + 1) (children_of n) @ s # drop (i + 1) (children_of n)"
proof -
  obtain ks ss where b: "node_body n = InnerNode ks ss" "length ks = cap_keys cap" "length ss = cap_keys cap + 1"
    "node_size n \<le> cap_keys cap" by (rule node_shape_inner [OF assms(1,2)])
  have n: "node_size n < length ks" "node_size n + 1 < length ss" using assms(2,3) b by (auto simp: node_full_def)
  obtain ks1 where k: "(if i < node_size n then arr_copy ks i ks (i + 1) (node_size n - i) else Some ks) = Some ks1"
    "length ks1 = length ks" "take (Suc (node_size n)) (ks1[i := k]) = take i (take (node_size n) ks) @ k # drop i (take (node_size n) ks)"
    using arr_gap [OF assms(4) n(1), of k] by blast
  obtain ss1 where v: "(if i < node_size n then arr_copy ss (i + 1) ss (i + 2) (node_size n - i) else Some ss) = Some ss1"
    "length ss1 = length ss" "take (Suc (node_size n + 1)) (ss1[i + 1 := s]) =
      take (i + 1) (take (node_size n + 1) ss) @ s # drop (i + 1) (take (node_size n + 1) ss)"
  proof -
    have eq: "i + 1 + 1 = i + 2" "node_size n + 1 - (i + 1) = node_size n - i" "(i + 1 < node_size n + 1) = (i < node_size n)"
      by simp_all
    show thesis using that arr_gap [of "i + 1" "node_size n + 1" ss s, unfolded eq] assms(4) n(2) by auto
  qed
  let ?n = "n\<lparr>node_body := InnerNode (ks1[i := k]) (ss1[i + 1 := s]), node_size := node_size n + 1\<rparr>"
  have "(if i < node_size n then do { ks1 \<leftarrow> arr_copy ks i ks (i + 1) (node_size n - i);
      ss1 \<leftarrow> arr_copy ss (i + 1) ss (i + 2) (node_size n - i); Some (ks1, ss1) } else Some (ks, ss)) = Some (ks1, ss1)"
    using k(1) v(1) by (simp split: if_splits)
  then have "node_insert_separator n i s k = Some ?n"
    using b(1) n k(2) v(2) assms(4) by (simp add: arr_set_def)
  moreover have "node_shape cap ?n"
    using assms(1,2) b n k(2) v(2) by (simp add: node_shape_def is_leaf_def is_inner_def is_branch_def)
  moreover have "keys_of ?n = take i (keys_of n) @ k # drop i (keys_of n)"
    "children_of ?n = take (i + 1) (children_of n) @ s # drop (i + 1) (children_of n)"
    using k(3) v(3) b(1) by (simp_all add: keys_of_def children_of_def node_keys_def)
  ultimately show ?thesis by (intro exI [of _ ?n]) (simp add: same_header_def)
qed

text \<open>Copying the end of the filled part of a full node to the beginning of another.\<close>

lemma node_move_leaf:
  assumes "node_shape cap n" "is_leaf n" "node_shape cap d" "is_leaf d" "from + m = node_size n"
  shows "\<exists>d'. node_move n d from m = Some d' \<and> node_shape cap d' \<and> same_header d d' \<and> node_size d' = node_size d \<and>
    keys_of (d'\<lparr>node_size := m\<rparr>) = drop from (keys_of n) \<and> values_of (d'\<lparr>node_size := m\<rparr>) = drop from (values_of n)"
proof -
  obtain ks vs where b: "node_body n = LeafNode ks vs" "length ks = cap_items cap" "length vs = cap_items cap"
    "node_size n \<le> cap_items cap" by (rule node_shape_leaf [OF assms(1,2)])
  obtain ks' vs' where b': "node_body d = LeafNode ks' vs'" "length ks' = cap_items cap" "length vs' = cap_items cap"
    by (rule node_shape_leaf [OF assms(3,4)])
  let ?d = "d\<lparr>node_body := LeafNode (take m (drop from ks) @ drop m ks') (take m (drop from vs) @ drop m vs')\<rparr>"
  have "node_move n d from m = Some ?d"
    using b b' assms(5) by (simp add: node_move_def arr_copy_def)
  moreover have "node_shape cap ?d"
    using assms(3,4,5) b b' by (auto simp: node_shape_def is_leaf_def is_inner_def is_branch_def)
  moreover have "keys_of (?d\<lparr>node_size := m\<rparr>) = drop from (keys_of n)"
    "values_of (?d\<lparr>node_size := m\<rparr>) = drop from (values_of n)"
    using b assms(5) [symmetric] by (simp_all add: keys_of_def values_of_def node_keys_def drop_take)
  ultimately show ?thesis by (intro exI [of _ ?d]) (simp add: same_header_def)
qed

lemma node_move_inner:
  assumes "node_shape cap n" "\<not> is_leaf n" "node_shape cap d" "\<not> is_leaf d" "from + m = node_size n"
  shows "\<exists>d'. do { d1 \<leftarrow> node_move n d from m; node_set_separator d1 0 s } = Some d' \<and> node_shape cap d' \<and>
    same_header d d' \<and> node_size d' = node_size d \<and> keys_of (d'\<lparr>node_size := m\<rparr>) = drop from (keys_of n) \<and>
    children_of (d'\<lparr>node_size := m\<rparr>) = s # drop (from + 1) (children_of n)"
proof -
  obtain ks ss where b: "node_body n = InnerNode ks ss" "length ks = cap_keys cap" "length ss = cap_keys cap + 1"
    "node_size n \<le> cap_keys cap" by (rule node_shape_inner [OF assms(1,2)])
  obtain ks' ss' where b': "node_body d = InnerNode ks' ss'" "length ks' = cap_keys cap" "length ss' = cap_keys cap + 1"
    by (rule node_shape_inner [OF assms(3,4)])
  obtain x xs where ss': "ss' = x # xs" using b'(3) by (cases ss') auto
  let ?d = "d\<lparr>node_body := InnerNode (take m (drop from ks) @ drop m ks') (s # take m (drop (from + 1) ss) @ drop m xs)\<rparr>"
  have "do { d1 \<leftarrow> node_move n d from m; node_set_separator d1 0 s } = Some ?d"
    using b b' ss' assms(5) by (simp add: node_move_def arr_copy_def arr_set_def)
  moreover have "node_shape cap ?d"
    using assms(3,4,5) b b' ss' by (auto simp: node_shape_def is_leaf_def is_inner_def is_branch_def)
  moreover have "keys_of (?d\<lparr>node_size := m\<rparr>) = drop from (keys_of n)"
    "children_of (?d\<lparr>node_size := m\<rparr>) = s # drop (from + 1) (children_of n)"
    using b assms(5) [symmetric] by (simp_all add: keys_of_def children_of_def node_keys_def drop_take)
  ultimately show ?thesis by (intro exI [of _ ?d]) (simp add: same_header_def)
qed

lemmas node_access_defs = node_leaf_key.simps node_inner_key.simps node_value.simps node_set_value.simps
  node_separator.simps node_set_separator.simps

declare node_access_defs [simp del] node_insert_separator.simps [simp del] node_insert_value.simps [simp del]

end
