(* ===== verification/BLinkTree.thy ===== *)
theory BLinkTree
  imports BLinkNode
begin

section \<open>Splitting nodes and growing the tree\<close>

text \<open>
  src/db/index/blinktree/b_link_tree.h: the tree with its nodes (a map from addresses), the
  creation of nodes with the hints for the resource builder, the two split operations and the
  creation of a new root. The memory of a new node comes from the runtime: it is an argument,
  the address and what the uninitialized arrays hold.

  The lemmas give the result of a split on the filled parts of the nodes: the entries of the
  node with the new one inserted in order, cut in the middle.
\<close>

subsection \<open>Data\<close>

type_synonym 'v heap = "addr \<Rightarrow> 'v node option"
type_synonym 'v block = "addr \<times> 'v body"

record 'v tree =
  bt_height :: u8
  bt_isolation_level :: isolation_level
  bt_protocol :: protocol
  bt_root :: addr
  bt_nodes :: "'v heap"

definition predict_access_frequency :: "bool \<Rightarrow> bool \<Rightarrow> access_frequency" where
  "predict_access_frequency inner root = (if root then Excessive else if inner then High else Normal)"

definition predict_read_write_ratio :: "bool \<Rightarrow> read_write_ratio" where
  "predict_read_write_ratio inner = (if inner then HeavyRead else Balanced)"

text \<open>The hint that create_node passes to new_resource.\<close>

definition node_hint :: "'v tree \<Rightarrow> u8 \<Rightarrow> bool \<Rightarrow> hint" where
  "node_hint t type root =
     (let inner = type AND Inner_bit \<noteq> 0 in
      hint_isolation_protocol_frequency_ratio (bt_isolation_level t) (bt_protocol t)
        (predict_access_frequency inner root) (predict_read_write_ratio inner))"

definition create_node :: "u8 \<Rightarrow> addr option \<Rightarrow> 'v block \<Rightarrow> 'v heap \<Rightarrow> 'v heap" where
  "create_node type par blk h = h(fst blk \<mapsto> node_new type par (snd blk))"

definition inner_type :: "bool \<Rightarrow> u8" where
  "inner_type branch = (if branch then Inner_bit OR Branch_bit else Inner_bit)"

definition create_inner_node :: "bool \<Rightarrow> addr option \<Rightarrow> 'v block \<Rightarrow> 'v heap \<Rightarrow> 'v heap" where
  "create_inner_node branch par blk h = create_node (inner_type branch) par blk h"

definition create_leaf_node :: "addr option \<Rightarrow> 'v block \<Rightarrow> 'v heap \<Rightarrow> 'v heap" where
  "create_leaf_node par blk h = create_node Leaf_bit par blk h"

definition tree_new :: "isolation_level \<Rightarrow> protocol \<Rightarrow> 'v block \<Rightarrow> 'v tree" where
  "tree_new isolation prot blk =
     \<lparr>bt_height = 1, bt_isolation_level = isolation, bt_protocol = prot, bt_root = fst blk,
      bt_nodes = create_leaf_node None blk (\<lambda>_. None)\<rparr>"

definition tree_empty :: "'v tree \<Rightarrow> bool option" where
  "tree_empty t = map_option (\<lambda>n. node_size n = 0) (bt_nodes t (bt_root t))"

text \<open>An update of a node; None for a pointer that is null or dangling.\<close>

definition node_update :: "addr \<Rightarrow> ('v node \<Rightarrow> 'v node option) \<Rightarrow> 'v heap \<Rightarrow> 'v heap option" where
  "node_update a f h = do { n \<leftarrow> h a; n' \<leftarrow> f n; Some (h(a \<mapsto> n')) }"

definition set_parent :: "addr \<Rightarrow> addr \<Rightarrow> 'v heap \<Rightarrow> 'v heap option" where
  "set_parent p a h = node_update a (\<lambda>n. Some (n\<lparr>parent := Some p\<rparr>)) h"

fun set_parents :: "addr \<Rightarrow> addr option list \<Rightarrow> 'v heap \<Rightarrow> 'v heap option" where
  "set_parents p [] h = Some h"
| "set_parents p (c # cs) h = do { a \<leftarrow> c; h' \<leftarrow> set_parent p a h; set_parents p cs h' }"

subsection \<open>Operations\<close>

text \<open>
  The new tree, and the change of the predicted usage of the old root that is passed on to the
  scheduler.
\<close>

definition create_new_root :: "addr \<Rightarrow> addr \<Rightarrow> u64 \<Rightarrow> 'v block \<Rightarrow> 'v tree \<Rightarrow>
    ('v tree \<times> (addr \<times> access_frequency \<times> access_frequency)) option" where
  "create_new_root left right key blk t = do {
     l \<leftarrow> bt_nodes t left;
     (let usage = (left, predict_access_frequency (is_inner l) True, predict_access_frequency (is_inner l) False);
          root = fst blk in do {
        h1 \<leftarrow> set_parent root left (create_inner_node (is_leaf l) None blk (bt_nodes t));
        h2 \<leftarrow> set_parent root right h1;
        h3 \<leftarrow> node_update root (\<lambda>n. node_set_separator n 0 (Some left)) h2;
        h4 \<leftarrow> node_update root (\<lambda>n. node_insert_separator n 0 (Some right) key) h3;
        Some (t\<lparr>bt_height := bt_height t + 1, bt_root := root, bt_nodes := h4\<rparr>, usage)
      })
   }"

text \<open>The records that move to the new node, and its first separator.\<close>

definition move_right :: "'v node \<Rightarrow> 'v node \<Rightarrow> nat \<Rightarrow> nat \<Rightarrow> addr option \<Rightarrow> 'v node option" where
  "move_right n new from_index count s = do { d \<leftarrow> node_move n new from_index count; node_set_separator d 0 s }"

text \<open>Distributing the records and the new separator over the two nodes.\<close>

definition split_records :: "capacity \<Rightarrow> 'v node \<Rightarrow> 'v node \<Rightarrow> addr \<Rightarrow> u64 \<Rightarrow> addr \<Rightarrow> 'v heap \<Rightarrow>
    ('v node \<times> 'v node \<times> u64 \<times> 'v heap) option" where
  "split_records cap n new a key sep h =
     (let left_size = cap_keys cap div 2;
          right_size = cap_keys cap - left_size in do {
        key_left \<leftarrow> node_inner_key n (left_size - 1);
        key_mid \<leftarrow> node_inner_key n left_size;
        if key < key_left then do {
          s \<leftarrow> node_separator n left_size;
          new1 \<leftarrow> move_right n new left_size right_size s;
          (let new2 = new1\<lparr>node_size := right_size\<rparr>; n1 = n\<lparr>node_size := left_size - 1\<rparr> in do {
             h1 \<leftarrow> set_parent a sep h;
             n2 \<leftarrow> node_insert_separator n1 (node_index n1 key) (Some sep) key;
             Some (n2, new2, key_left, h1) })
        }
        else if key < key_mid then do {
          new1 \<leftarrow> move_right n new left_size right_size (Some sep);
          Some (n\<lparr>node_size := left_size\<rparr>, new1\<lparr>node_size := right_size\<rparr>, key, h)
        }
        else do {
          s \<leftarrow> node_separator n (left_size + 1);
          new1 \<leftarrow> move_right n new (left_size + 1) (right_size - 1) s;
          (let new2 = new1\<lparr>node_size := right_size - 1\<rparr> in do {
             new3 \<leftarrow> node_insert_separator new2 (node_index new2 key) (Some sep) key;
             Some (n\<lparr>node_size := left_size\<rparr>, new3, key_mid, h) })
        }
      })"

definition split_inner :: "capacity \<Rightarrow> 'v block \<Rightarrow> addr \<Rightarrow> u64 \<Rightarrow> addr \<Rightarrow> 'v heap \<Rightarrow> ('v heap \<times> addr \<times> u64) option" where
  "split_inner cap blk a key sep h = do {
     n \<leftarrow> h a;
     (n1, new1, key_up, h1) \<leftarrow>
       split_records cap n ((node_new (inner_type (is_branch n)) (parent n) (snd blk))\<lparr>high_key := high_key n\<rparr>) a key sep h;
     (let new2 = new1\<lparr>right_sibling := right_sibling n\<rparr>;
          n2 = n1\<lparr>right_sibling := Some (fst blk), high_key := key_up\<rparr> in do {
        h2 \<leftarrow> set_parents (fst blk) (children_of new2) (h1(a \<mapsto> n2, fst blk \<mapsto> new2));
        Some (h2, fst blk, key_up)
      })
   }"

definition split_leaf :: "capacity \<Rightarrow> 'v block \<Rightarrow> addr \<Rightarrow> u64 \<Rightarrow> 'v \<Rightarrow> 'v heap \<Rightarrow> ('v heap \<times> addr \<times> u64) option" where
  "split_leaf cap blk a key v h = do {
     n \<leftarrow> h a;
     (let left_size = cap_items cap div 2;
          right_size = cap_items cap - left_size in do {
        new1 \<leftarrow> node_move n (node_new Leaf_bit (parent n) (snd blk)) left_size right_size;
        (let new2 = (if right_sibling n \<noteq> None then new1\<lparr>right_sibling := right_sibling n\<rparr> else new1);
             new3 = new2\<lparr>high_key := high_key n, node_size := right_size\<rparr>;
             n1 = n\<lparr>node_size := left_size, right_sibling := Some (fst blk)\<rparr> in do {
           first \<leftarrow> node_leaf_key new3 0;
           (n2, new4) \<leftarrow>
             (if key < first
              then do { l \<leftarrow> node_insert_value n1 (node_index n1 key) v key; Some (l, new3) }
              else do { r \<leftarrow> node_insert_value new3 (node_index new3 key) v key; Some (n1, r) });
           up \<leftarrow> node_leaf_key new4 0;
           Some (h(a \<mapsto> n2\<lparr>high_key := up\<rparr>, fst blk \<mapsto> new4), fst blk, up)
         })
      })
   }"

subsection \<open>Entries of a node\<close>

definition entries_of :: "'v node \<Rightarrow> (u64 \<times> 'v) list" where
  "entries_of n = zip (keys_of n) (values_of n)"

definition pairs_of :: "'v node \<Rightarrow> (u64 \<times> addr option) list" where
  "pairs_of n = zip (keys_of n) (tl (children_of n))"

definition insert_at :: "nat \<Rightarrow> 'a \<Rightarrow> 'a list \<Rightarrow> 'a list" where
  "insert_at i x xs = take i xs @ x # drop i xs"

lemma insert_at_zip:
  "length xs = length ys \<Longrightarrow> i \<le> length xs \<Longrightarrow>
    zip (insert_at i x xs) (insert_at i y ys) = insert_at i (x, y) (zip xs ys)"
  by (simp add: insert_at_def zip_append take_zip drop_zip)

lemma map_insert_at: "map f (insert_at i x xs) = insert_at i (f x) (map f xs)"
  by (simp add: insert_at_def take_map drop_map)

lemma length_insert_at [simp]: "i \<le> length xs \<Longrightarrow> length (insert_at i x xs) = Suc (length xs)"
  by (simp add: insert_at_def)

lemma set_insert_at: "set (insert_at i x xs) = insert x (set xs)"
  by (metis append_take_drop_id insert_at_def list.simps(15) set_append Un_insert_right)

lemma insert_at_split:
  "i \<le> l \<Longrightarrow> l \<le> length xs \<Longrightarrow> insert_at i x (take l xs) @ drop l xs = insert_at i x xs"
  "l \<le> i \<Longrightarrow> take l xs @ insert_at (i - l) x (drop l xs) = insert_at i x xs"
proof -
  assume "i \<le> l" "l \<le> length xs"
  then have "drop i (take l xs) @ drop l xs = drop i xs"
    using drop_append [of i "take l xs" "drop l xs"] by simp
  then show "insert_at i x (take l xs) @ drop l xs = insert_at i x xs"
    using \<open>i \<le> l\<close> by (simp add: insert_at_def min_def)
next
  assume "l \<le> i"
  then have "take l xs @ take (i - l) (drop l xs) = take i xs" using take_add [of l "i - l" xs] by simp
  then show "take l xs @ insert_at (i - l) x (drop l xs) = insert_at i x xs"
    using \<open>l \<le> i\<close> by (simp add: insert_at_def flip: append_assoc)
qed

lemma lower_bound_take: "lower_bound (take l xs) k = min l (lower_bound xs k)"
proof (induction xs arbitrary: l)
  case (Cons x xs)
  then show ?case by (cases l) auto
qed simp

lemma lower_bound_drop: "l \<le> lower_bound xs k \<Longrightarrow> lower_bound (drop l xs) k = lower_bound xs k - l"
proof (induction xs arbitrary: l)
  case (Cons x xs)
  then show ?case by (cases l) (auto split: if_splits)
qed simp

lemma entries_keys:
  assumes "node_shape cap n"
  shows "is_leaf n \<Longrightarrow> map fst (entries_of n) = keys_of n" "\<not> is_leaf n \<Longrightarrow> map fst (pairs_of n) = keys_of n"
    "is_leaf n \<Longrightarrow> length (entries_of n) = node_size n" "\<not> is_leaf n \<Longrightarrow> length (pairs_of n) = node_size n"
    "\<not> is_leaf n \<Longrightarrow> children_of n \<noteq> []"
  using filled_lengths [OF assms] by (auto simp: entries_of_def pairs_of_def)

lemma keys_of_cong [simp]:
  "keys_of (n\<lparr>high_key := x\<rparr>) = keys_of n" "keys_of (n\<lparr>right_sibling := r\<rparr>) = keys_of n" "keys_of (n\<lparr>parent := q\<rparr>) = keys_of n"
  "values_of (n\<lparr>high_key := x\<rparr>) = values_of n" "values_of (n\<lparr>right_sibling := r\<rparr>) = values_of n" "values_of (n\<lparr>parent := q\<rparr>) = values_of n"
  "children_of (n\<lparr>high_key := x\<rparr>) = children_of n" "children_of (n\<lparr>right_sibling := r\<rparr>) = children_of n"
  "children_of (n\<lparr>parent := q\<rparr>) = children_of n"
  by (cases "node_body n"; simp add: keys_of_def values_of_def children_of_def node_keys_def)+

lemma node_kind_cong [simp]:
  "is_leaf (n\<lparr>high_key := x\<rparr>) = is_leaf n" "is_leaf (n\<lparr>right_sibling := r\<rparr>) = is_leaf n" "is_leaf (n\<lparr>parent := q\<rparr>) = is_leaf n"
  "is_leaf (n\<lparr>node_size := z\<rparr>) = is_leaf n" "is_leaf (n\<lparr>node_body := b\<rparr>) = is_leaf n"
  "is_inner (n\<lparr>high_key := x\<rparr>) = is_inner n" "is_inner (n\<lparr>right_sibling := r\<rparr>) = is_inner n" "is_inner (n\<lparr>parent := q\<rparr>) = is_inner n"
  "is_inner (n\<lparr>node_size := z\<rparr>) = is_inner n" "is_inner (n\<lparr>node_body := b\<rparr>) = is_inner n"
  "is_branch (n\<lparr>high_key := x\<rparr>) = is_branch n" "is_branch (n\<lparr>right_sibling := r\<rparr>) = is_branch n" "is_branch (n\<lparr>parent := q\<rparr>) = is_branch n"
  "is_branch (n\<lparr>node_size := z\<rparr>) = is_branch n" "is_branch (n\<lparr>node_body := b\<rparr>) = is_branch n"
  by (simp_all add: is_leaf_def is_inner_def is_branch_def)

lemma node_shape_cong [simp]:
  "node_shape cap (n\<lparr>high_key := x\<rparr>) = node_shape cap n" "node_shape cap (n\<lparr>right_sibling := r\<rparr>) = node_shape cap n"
  "node_shape cap (n\<lparr>parent := q\<rparr>) = node_shape cap n"
  by (simp_all add: node_shape_def)

lemma node_shape_shrink: "node_shape cap n \<Longrightarrow> z \<le> node_size n \<Longrightarrow> node_shape cap (n\<lparr>node_size := z\<rparr>)"
  by (auto simp: node_shape_def)

lemma keys_of_shrink:
  assumes "z \<le> node_size n"
  shows "keys_of (n\<lparr>node_size := z\<rparr>) = take z (keys_of n)" "values_of (n\<lparr>node_size := z\<rparr>) = take z (values_of n)"
    "children_of (n\<lparr>node_size := z\<rparr>) = take (z + 1) (children_of n)"
  using assms by (cases "node_body n"; simp add: keys_of_def values_of_def children_of_def node_keys_def min_def)+

lemma sized_cong [simp]:
  "keys_of (n\<lparr>high_key := x, node_size := z\<rparr>) = keys_of (n\<lparr>node_size := z\<rparr>)"
  "keys_of (n\<lparr>right_sibling := r, node_size := z\<rparr>) = keys_of (n\<lparr>node_size := z\<rparr>)"
  "values_of (n\<lparr>high_key := x, node_size := z\<rparr>) = values_of (n\<lparr>node_size := z\<rparr>)"
  "values_of (n\<lparr>right_sibling := r, node_size := z\<rparr>) = values_of (n\<lparr>node_size := z\<rparr>)"
  "children_of (n\<lparr>high_key := x, node_size := z\<rparr>) = children_of (n\<lparr>node_size := z\<rparr>)"
  "children_of (n\<lparr>right_sibling := r, node_size := z\<rparr>) = children_of (n\<lparr>node_size := z\<rparr>)"
  by (cases "node_body n"; simp add: keys_of_def values_of_def children_of_def node_keys_def)+

lemma entries_cong [simp]:
  "entries_of (n\<lparr>high_key := x\<rparr>) = entries_of n" "entries_of (n\<lparr>right_sibling := r\<rparr>) = entries_of n"
  "entries_of (n\<lparr>parent := q\<rparr>) = entries_of n"
  "pairs_of (n\<lparr>high_key := x\<rparr>) = pairs_of n" "pairs_of (n\<lparr>right_sibling := r\<rparr>) = pairs_of n"
  "pairs_of (n\<lparr>parent := q\<rparr>) = pairs_of n"
  by (simp_all add: entries_of_def pairs_of_def)

lemma node_shape_resize:
  "node_shape cap n \<Longrightarrow> z \<le> (if is_leaf n then cap_items cap else cap_keys cap) \<Longrightarrow> node_shape cap (n\<lparr>node_size := z\<rparr>)"
  by (auto simp: node_shape_def)

lemma node_index_keys: "node_index n k = lower_bound (keys_of n) k"
  by (simp add: node_index_def keys_of_def)

lemma node_leaf_key_keys: "node_shape cap n \<Longrightarrow> is_leaf n \<Longrightarrow> i < node_size n \<Longrightarrow> node_leaf_key n i = Some (keys_of n ! i)"
  by (elim node_shape_leaf) (auto simp: arr_get_def keys_of_def node_keys_def node_access_defs)

lemma node_inner_key_keys: "node_shape cap n \<Longrightarrow> \<not> is_leaf n \<Longrightarrow> i < node_size n \<Longrightarrow> node_inner_key n i = Some (keys_of n ! i)"
  by (elim node_shape_inner) (auto simp: arr_get_def keys_of_def node_keys_def node_access_defs)

lemma node_separator_children:
  "node_shape cap n \<Longrightarrow> \<not> is_leaf n \<Longrightarrow> i \<le> node_size n \<Longrightarrow> node_separator n i = Some (children_of n ! i)"
  by (elim node_shape_inner) (auto simp: arr_get_def children_of_def node_access_defs)

text \<open>A leaf with an entry inserted where its key belongs.\<close>

lemma leaf_insert:
  assumes "node_shape cap n" "is_leaf n" "\<not> node_full cap n"
  shows "\<exists>n'. node_insert_value n (node_index n k) v k = Some n' \<and> node_shape cap n' \<and>
    same_header n n' \<and> node_size n' = node_size n + 1 \<and>
    keys_of n' = insert_at (lower_bound (keys_of n) k) k (keys_of n) \<and>
    entries_of n' = insert_at (lower_bound (keys_of n) k) (k, v) (entries_of n)"
proof -
  let ?i = "lower_bound (keys_of n) k"
  note len = filled_lengths [OF assms(1)]
  have i: "?i \<le> node_size n" using lower_bound_le [of "keys_of n" k] len(1) by simp
  then obtain n' where "node_insert_value n ?i v k = Some n'" "node_shape cap n'"
    "same_header n n'" "node_size n' = node_size n + 1"
    "keys_of n' = insert_at ?i k (keys_of n)" "values_of n' = insert_at ?i v (values_of n)"
    using node_insert_value_eq [OF assms, of ?i v k] by (auto simp: insert_at_def)
  moreover from this have "entries_of n' = insert_at ?i (k, v) (entries_of n)"
    using len assms(2) i by (simp add: entries_of_def insert_at_zip)
  ultimately show ?thesis by (auto simp: node_index_keys)
qed

text \<open>An inner node with a separator inserted where its key belongs.\<close>

lemma inner_insert:
  assumes "node_shape cap n" "\<not> is_leaf n" "\<not> node_full cap n"
  shows "\<exists>n'. node_insert_separator n (node_index n k) s k = Some n' \<and> node_shape cap n' \<and>
    same_header n n' \<and> node_size n' = node_size n + 1 \<and>
    keys_of n' = insert_at (lower_bound (keys_of n) k) k (keys_of n) \<and>
    pairs_of n' = insert_at (lower_bound (keys_of n) k) (k, s) (pairs_of n) \<and> hd (children_of n') = hd (children_of n)"
proof -
  let ?i = "lower_bound (keys_of n) k"
  note len = filled_lengths [OF assms(1)]
  have i: "?i \<le> node_size n" using lower_bound_le [of "keys_of n" k] len(1) by simp
  then obtain n' where n': "node_insert_separator n ?i s k = Some n'" "node_shape cap n'"
    "same_header n n'" "node_size n' = node_size n + 1"
    "keys_of n' = insert_at ?i k (keys_of n)" "children_of n' = insert_at (?i + 1) s (children_of n)"
    using node_insert_separator_eq [OF assms, of ?i s k] by (auto simp: insert_at_def)
  obtain c cs where c: "children_of n = c # cs" "length cs = node_size n"
    using len(3) [OF assms(2)] by (cases "children_of n") auto
  have "children_of n' = c # insert_at ?i s cs" using n'(6) c(1) by (simp add: insert_at_def)
  then have "pairs_of n' = insert_at ?i (k, s) (pairs_of n)" "hd (children_of n') = hd (children_of n)"
    using len c n'(5) i by (simp_all add: pairs_of_def insert_at_zip)
  with n' show ?thesis by (auto simp: node_index_keys)
qed


lemma node_new_simps [simp]:
  "high_key (node_new ty par b) = - 1" "right_sibling (node_new ty par b) = None" "parent (node_new ty par b) = par"
  "node_size (node_new ty par b) = 0" "node_body (node_new ty par b) = b" "node_type (node_new ty par b) = ty"
  by (simp_all add: node_new_def)

lemma node_new_shape:
  assumes "body_shape cap leaf b" "ty = (if leaf then Leaf_bit else inner_type branch)"
  shows "node_shape cap (node_new ty par b)" "is_leaf (node_new ty par b) = leaf"
    "is_branch (node_new ty par b) \<longleftrightarrow> \<not> leaf \<and> branch"
  using assms by (auto simp: node_shape_def is_leaf_def is_inner_def is_branch_def inner_type_def Leaf_bit_def
      Inner_bit_def Branch_bit_def)

lemma sorted_split_point:
  assumes "sorted_wrt (<) ks" "l < length ks" "k \<notin> set ks"
  shows "k < ks ! l \<longleftrightarrow> lower_bound ks k \<le> l"
proof -
  have s: "sorted ks" using assms(1) by (simp add: strict_sorted_iff)
  have ne: "ks ! l \<noteq> k" using assms(2,3) nth_mem by blast
  show ?thesis
  proof
    assume "k < ks ! l"
    then show "lower_bound ks k \<le> l" using lower_bound_below [of l ks k] by (meson not_less less_asym)
  next
    assume "lower_bound ks k \<le> l"
    then show "k < ks ! l" using lower_bound_above [OF s _ assms(2)] ne by (simp add: order_less_le)
  qed
qed

text \<open>The two halves of a full leaf, before the new entry is inserted into one of them.\<close>

lemma split_leaf_halves:
  assumes "h a = Some n" "node_shape cap n" "is_leaf n" "node_full cap n" "2 \<le> cap_items cap" "body_shape cap True b"
  defines "l \<equiv> cap_items cap div 2"
  obtains n1 r where
    "node_shape cap r" "is_leaf r" "\<not> is_branch r" "keys_of r = drop l (keys_of n)" "entries_of r = drop l (entries_of n)"
    "\<not> node_full cap r" "high_key r = high_key n" "right_sibling r = right_sibling n" "parent r = parent n"
    "node_shape cap n1" "is_leaf n1" "\<not> node_full cap n1" "keys_of n1 = take l (keys_of n)" "entries_of n1 = take l (entries_of n)"
    "is_branch n1 = is_branch n" "right_sibling n1 = Some new" "parent n1 = parent n"
    "node_leaf_key r 0 = Some (keys_of n ! l)"
    "split_leaf cap (new, b) a k v h = do {
      (n2, r2) \<leftarrow> (if k < keys_of n ! l then do { x \<leftarrow> node_insert_value n1 (node_index n1 k) v k; Some (x, r) }
        else do { x \<leftarrow> node_insert_value r (node_index r k) v k; Some (n1, x) });
      up \<leftarrow> node_leaf_key r2 0;
      Some (h(a \<mapsto> n2\<lparr>high_key := up\<rparr>, new \<mapsto> r2), new, up) }"
proof -
  let ?ks = "keys_of n" and ?es = "entries_of n" and ?m = "cap_items cap"
  have size: "node_size n = ?m" using assms(2-4) by (auto simp: node_full_def node_shape_def)
  have l: "0 < l" "l < ?m" "l + (?m - l) = ?m" using assms(5) by (auto simp: l_def)
  note len = filled_lengths [OF assms(2)]
  let ?new = "node_new Leaf_bit (parent n) b"
  note new = node_new_shape [OF assms(6), of Leaf_bit False "parent n", simplified]
  obtain d where d: "node_move n ?new l (?m - l) = Some d" "node_shape cap d" "same_header ?new d"
    "keys_of (d\<lparr>node_size := ?m - l\<rparr>) = drop l ?ks" "values_of (d\<lparr>node_size := ?m - l\<rparr>) = drop l (values_of n)"
    using node_move_leaf [OF assms(2,3) new(1,2), of l "?m - l"] l size by auto
  have dh: "is_leaf d" "\<not> is_branch d" "right_sibling d = None" "parent d = parent n"
    using same_headerD [OF d(3)] new by simp_all
  define r where "r = d\<lparr>right_sibling := right_sibling n, high_key := high_key n, node_size := ?m - l\<rparr>"
  define n1 where "n1 = n\<lparr>node_size := l, right_sibling := Some new\<rparr>"
  have r: "node_shape cap r" "is_leaf r" "\<not> is_branch r" "keys_of r = drop l ?ks" "entries_of r = drop l ?es"
    "node_size r = ?m - l" "\<not> node_full cap r"
  proof -
    show "node_shape cap r" unfolding r_def using d(2) dh(1) by (intro node_shape_resize) simp_all
    show "is_leaf r" "\<not> is_branch r" "node_size r = ?m - l" using dh by (simp_all add: r_def)
    then show "\<not> node_full cap r" using l by (simp add: node_full_def)
    show "keys_of r = drop l ?ks" "entries_of r = drop l ?es"
      using d(4,5) by (simp_all add: r_def entries_of_def drop_zip)
  qed
  have first: "node_leaf_key r 0 = Some (?ks ! l)"
    using node_leaf_key_keys [OF r(1,2), of 0] r(4,6) l len(1) size by simp
  have "(if right_sibling n \<noteq> None then d\<lparr>right_sibling := right_sibling n\<rparr> else d) = d\<lparr>right_sibling := right_sibling n\<rparr>"
    using dh(3) by (cases d) auto
  then have run: "split_leaf cap (new, b) a k v h = do {
      (n2, r2) \<leftarrow> (if k < ?ks ! l then do { x \<leftarrow> node_insert_value n1 (node_index n1 k) v k; Some (x, r) }
        else do { x \<leftarrow> node_insert_value r (node_index r k) v k; Some (n1, x) });
      up \<leftarrow> node_leaf_key r2 0;
      Some (h(a \<mapsto> n2\<lparr>high_key := up\<rparr>, new \<mapsto> r2), new, up) }"
    unfolding split_leaf_def using first
    by (simp add: assms(1) Let_def l_def [symmetric] d(1) r_def n1_def)
  show thesis
    by (rule that [OF r(1-5,7) _ _ _ _ _ _ _ _ _ _ _ first run])
      (use node_shape_shrink [OF assms(2), of l] l size keys_of_shrink [of l n] assms(3) dh(4)
        in \<open>simp_all add: n1_def r_def node_full_def entries_of_def take_zip\<close>)
qed

lemma split_leaf_eq:
  assumes "h a = Some n" "node_shape cap n" "is_leaf n" "node_full cap n" "2 \<le> cap_items cap"
    "body_shape cap True b" "sorted_wrt (<) (keys_of n)" "k \<notin> set (keys_of n)"
  defines "i \<equiv> lower_bound (keys_of n) k"
  shows "\<exists>n' r up. split_leaf cap (new, b) a k v h = Some (h(a \<mapsto> n', new \<mapsto> r), new, up) \<and>
    node_shape cap n' \<and> node_shape cap r \<and> is_leaf n' \<and> is_leaf r \<and> \<not> is_branch r \<and>
    entries_of n' @ entries_of r = insert_at i (k, v) (entries_of n) \<and>
    keys_of n' \<noteq> [] \<and> keys_of r \<noteq> [] \<and> up = hd (keys_of r) \<and>
    is_branch n' = is_branch n \<and> high_key n' = up \<and> right_sibling n' = Some new \<and> parent n' = parent n \<and>
    high_key r = high_key n \<and> right_sibling r = right_sibling n \<and> parent r = parent n"
proof -
  define l where "l = cap_items cap div 2"
  let ?ks = "keys_of n" and ?es = "entries_of n"
  obtain n1 r where r: "node_shape cap r" "is_leaf r" "\<not> is_branch r" "keys_of r = drop l ?ks" "entries_of r = drop l ?es"
      "\<not> node_full cap r" "high_key r = high_key n" "right_sibling r = right_sibling n" "parent r = parent n"
    and n1: "node_shape cap n1" "is_leaf n1" "\<not> node_full cap n1" "keys_of n1 = take l ?ks" "entries_of n1 = take l ?es"
      "is_branch n1 = is_branch n" "right_sibling n1 = Some new" "parent n1 = parent n"
    and first: "node_leaf_key r 0 = Some (?ks ! l)"
    and run: "split_leaf cap (new, b) a k v h = do {
      (n2, r2) \<leftarrow> (if k < ?ks ! l then do { x \<leftarrow> node_insert_value n1 (node_index n1 k) v k; Some (x, r) }
        else do { x \<leftarrow> node_insert_value r (node_index r k) v k; Some (n1, x) });
      up \<leftarrow> node_leaf_key r2 0;
      Some (h(a \<mapsto> n2\<lparr>high_key := up\<rparr>, new \<mapsto> r2), new, up) }"
    by (rule split_leaf_halves [where h = h and a = a and new = new and k = k and v = v, OF assms(1-6), folded l_def], rule that)
  have size: "node_size n = cap_items cap" using assms(2-4) by (auto simp: node_full_def node_shape_def)
  have l: "0 < l" "l < length ?ks" using assms(5) filled_lengths(1) [OF assms(2)] size by (auto simp: l_def)
  have es: "l \<le> length ?es" using entries_keys(3) [OF assms(2,3)] l filled_lengths(1) [OF assms(2)] by simp
  show ?thesis
  proof (cases "k < ?ks ! l")
    case True
    then have i: "i \<le> l" using sorted_split_point [OF assms(7) l(2) assms(8)] by (simp add: i_def)
    then have "lower_bound (keys_of n1) k = i" by (simp add: n1(4) lower_bound_take i_def)
    with leaf_insert [OF n1(1-3), of k v] obtain n2 where n2: "node_insert_value n1 (node_index n1 k) v k = Some n2"
      "node_shape cap n2" "same_header n1 n2" "keys_of n2 = insert_at i k (keys_of n1)"
      "entries_of n2 = insert_at i (k, v) (entries_of n1)" by auto
    have "entries_of n2 @ entries_of r = insert_at i (k, v) ?es"
      using n2(5) n1(5) r(5) insert_at_split(1) [OF i es] by simp
    moreover have "keys_of n2 \<noteq> []" "keys_of r \<noteq> []" "?ks ! l = hd (keys_of r)"
      using n2(4) r(4) l by (auto simp: insert_at_def hd_drop_conv_nth)
    moreover have "split_leaf cap (new, b) a k v h = Some (h(a \<mapsto> n2\<lparr>high_key := ?ks ! l\<rparr>, new \<mapsto> r), new, ?ks ! l)"
      using run True n2(1) first by simp
    ultimately show ?thesis
      using n2(2) r same_headerD [OF n2(3)] n1(2,6-8)
      by (intro exI [of _ "n2\<lparr>high_key := ?ks ! l\<rparr>"] exI [of _ r] exI [of _ "?ks ! l"]) simp
  next
    case False
    then have i: "l < i" using sorted_split_point [OF assms(7) l(2) assms(8)] by (simp add: i_def)
    then have "lower_bound (keys_of r) k = i - l" by (simp add: r(4) lower_bound_drop i_def)
    with leaf_insert [OF r(1,2,6), of k v] obtain r2 where r2: "node_insert_value r (node_index r k) v k = Some r2"
      "node_shape cap r2" "same_header r r2" "keys_of r2 = insert_at (i - l) k (keys_of r)"
      "entries_of r2 = insert_at (i - l) (k, v) (entries_of r)" "node_size r2 = node_size r + 1" by auto
    have "entries_of n1 @ entries_of r2 = insert_at i (k, v) ?es"
      using r2(5) n1(5) r(5) insert_at_split(2) [of l i] i by simp
    moreover have hd: "keys_of n1 \<noteq> []" "keys_of r2 \<noteq> []" "?ks ! l = hd (keys_of r2)"
      using n1(4) r2(4) r(4) l i by (auto simp: insert_at_def hd_append hd_drop_conv_nth)
    moreover have "node_leaf_key r2 0 = Some (?ks ! l)"
      using node_leaf_key_keys [OF r2(2), of 0] same_headerD [OF r2(3)] r(2) r2(6) hd by (simp add: hd_conv_nth)
    then have "split_leaf cap (new, b) a k v h = Some (h(a \<mapsto> n1\<lparr>high_key := ?ks ! l\<rparr>, new \<mapsto> r2), new, ?ks ! l)"
      using run False r2(1) by simp
    ultimately show ?thesis
      using n1 r2(2) same_headerD [OF r2(3)] r(2,3,7-9)
      by (intro exI [of _ "n1\<lparr>high_key := ?ks ! l\<rparr>"] exI [of _ r2] exI [of _ "?ks ! l"]) simp
  qed
qed

subsection \<open>Splitting an inner node\<close>

lemma insert_at_before:
  assumes "i \<le> l" "l < length xs"
  shows "take (Suc l) (insert_at i x xs) = insert_at i x (take l xs)" "insert_at i x xs ! Suc l = xs ! l"
    "drop (Suc l) (insert_at i x xs) = drop l xs"
proof -
  have app: "insert_at i x xs = insert_at i x (take l xs) @ drop l xs"
    using insert_at_split(1) [of i l xs x] assms by simp
  have len: "length (insert_at i x (take l xs)) = Suc l" using assms by simp
  show "take (Suc l) (insert_at i x xs) = insert_at i x (take l xs)" "drop (Suc l) (insert_at i x xs) = drop l xs"
    unfolding app using len by simp_all
  show "insert_at i x xs ! Suc l = xs ! l" unfolding app using len assms by (simp add: nth_append)
qed

lemma insert_at_after:
  assumes "l < i" "i \<le> length xs"
  shows "take l (insert_at i x xs) = take l xs" "insert_at i x xs ! l = xs ! l"
    "drop (Suc l) (insert_at i x xs) = insert_at (i - Suc l) x (drop (Suc l) xs)"
proof -
  have app: "insert_at i x xs = take (Suc l) xs @ insert_at (i - Suc l) x (drop (Suc l) xs)"
    using insert_at_split(2) [of "Suc l" i xs x] assms by simp
  show "drop (Suc l) (insert_at i x xs) = insert_at (i - Suc l) x (drop (Suc l) xs)"
    unfolding app using assms by simp
  show "take l (insert_at i x xs) = take l xs" unfolding app using assms by simp
  show "insert_at i x xs ! l = xs ! l" unfolding app using assms by (simp add: nth_append)
qed

lemma insert_at_here:
  assumes "i \<le> length xs"
  shows "take i (insert_at i x xs) = take i xs" "insert_at i x xs ! i = x" "drop (Suc i) (insert_at i x xs) = drop i xs"
  using assms by (simp_all add: insert_at_def nth_append)

lemma inner_shrink:
  assumes "node_shape cap n" "\<not> is_leaf n" "z \<le> node_size n"
  shows "pairs_of (n\<lparr>node_size := z\<rparr>) = take z (pairs_of n)" "hd (children_of (n\<lparr>node_size := z\<rparr>)) = hd (children_of n)"
proof -
  obtain c cs where "children_of n = c # cs" using entries_keys(5) [OF assms(1,2)] by (cases "children_of n") auto
  then show "pairs_of (n\<lparr>node_size := z\<rparr>) = take z (pairs_of n)" "hd (children_of (n\<lparr>node_size := z\<rparr>)) = hd (children_of n)"
    using keys_of_shrink [OF assms(3)] by (simp_all add: pairs_of_def take_zip)
qed

text \<open>The right half that move and the first separator give.\<close>

lemma inner_move:
  assumes "node_shape cap n" "\<not> is_leaf n" "body_shape cap False b" "from + m = node_size n"
    "new = (node_new (inner_type (is_branch n)) (parent n) b)\<lparr>high_key := high_key n\<rparr>"
  shows "\<exists>d. move_right n new from m s = Some d \<and>
    node_shape cap (d\<lparr>node_size := m\<rparr>) \<and> \<not> is_leaf d \<and> is_branch d = is_branch n \<and>
    high_key d = high_key n \<and> parent d = parent n \<and>
    keys_of (d\<lparr>node_size := m\<rparr>) = drop from (keys_of n) \<and>
    pairs_of (d\<lparr>node_size := m\<rparr>) = drop from (pairs_of n) \<and> hd (children_of (d\<lparr>node_size := m\<rparr>)) = s"
proof -
  have new: "node_shape cap new" "\<not> is_leaf new" "is_branch new = is_branch n"
    using node_new_shape [OF assms(3), of "inner_type (is_branch n)" "is_branch n" "parent n"] by (simp_all add: assms(5))
  from node_move_inner [OF assms(1,2) new(1,2) assms(4), of s, folded move_right_def]
  obtain d where d: "move_right n new from m s = Some d" "node_shape cap d"
    "same_header new d" "keys_of (d\<lparr>node_size := m\<rparr>) = drop from (keys_of n)"
    "children_of (d\<lparr>node_size := m\<rparr>) = s # drop (from + 1) (children_of n)" by blast
  have h: "\<not> is_leaf d" "is_branch d = is_branch n" "high_key d = high_key n" "parent d = parent n"
    using same_headerD [OF d(3)] new by (simp_all add: assms(5))
  have "node_size n \<le> cap_keys cap" using assms(1,2) by (simp add: node_shape_def)
  then have "node_shape cap (d\<lparr>node_size := m\<rparr>)" using h(1) assms(4) by (intro node_shape_resize [OF d(2)]) simp
  moreover have "pairs_of (d\<lparr>node_size := m\<rparr>) = drop from (pairs_of n)"
    using d(4,5) by (simp add: pairs_of_def drop_zip drop_Suc)
  ultimately show ?thesis using d h by (intro exI [of _ d]) simp
qed

text \<open>The three cases of the split, as one: the pairs with the new one, cut at the middle pair.\<close>

text \<open>A full inner node and a new key, and what a split with the middle \<open>l\<close> makes of its entries \<open>qs\<close>.\<close>

definition full_inner :: "capacity \<Rightarrow> 'v node \<Rightarrow> u64 \<Rightarrow> bool" where
  "full_inner cap n k \<longleftrightarrow> node_shape cap n \<and> \<not> is_leaf n \<and> node_full cap n \<and> 2 \<le> cap_keys cap \<and>
     sorted_wrt (<) (keys_of n) \<and> k \<notin> set (keys_of n)"

definition split_at_middle :: "capacity \<Rightarrow> 'v node \<Rightarrow> nat \<Rightarrow> (u64 \<times> addr option) list \<Rightarrow> addr \<Rightarrow> addr \<Rightarrow> 'v heap \<Rightarrow>
    ('v node \<times> 'v node \<times> u64 \<times> 'v heap) option \<Rightarrow> bool" where
  "split_at_middle cap n l qs a sep h result \<longleftrightarrow> (\<exists>n1 r up h1. result = Some (n1, r, up, h1) \<and>
     node_shape cap n1 \<and> node_shape cap r \<and> \<not> is_leaf n1 \<and> \<not> is_leaf r \<and>
     is_branch n1 = is_branch n \<and> is_branch r = is_branch n \<and> parent n1 = parent n \<and> parent r = parent n \<and>
     high_key r = high_key n \<and> pairs_of n1 = take l qs \<and> hd (children_of n1) = hd (children_of n) \<and>
     (up, hd (children_of r)) = qs ! l \<and> pairs_of r = drop (Suc l) qs \<and>
     (h1 = h \<or> h1 = h(sep \<mapsto> (the (h sep))\<lparr>parent := Some a\<rparr>)))"

lemma full_innerD:
  assumes "full_inner cap n k"
  shows "node_shape cap n" "\<not> is_leaf n" "node_size n = cap_keys cap" "length (pairs_of n) = cap_keys cap"
    "lower_bound (keys_of n) k \<le> length (pairs_of n)" "0 < cap_keys cap div 2" "cap_keys cap div 2 < cap_keys cap"
proof -
  show shape: "node_shape cap n" "\<not> is_leaf n" and size: "node_size n = cap_keys cap"
    using assms by (auto simp: full_inner_def node_full_def node_shape_def)
  show ps: "length (pairs_of n) = cap_keys cap" using entries_keys(4) [OF shape] size by simp
  show "lower_bound (keys_of n) k \<le> length (pairs_of n)"
    using lower_bound_le [of "keys_of n" k] filled_lengths(1) [OF shape(1)] size by (simp add: ps)
  show "0 < cap_keys cap div 2" "cap_keys cap div 2 < cap_keys cap" using assms by (auto simp: full_inner_def)
qed

lemma full_inner_nth:
  assumes "full_inner cap n k" "j < cap_keys cap"
  shows "pairs_of n ! j = (keys_of n ! j, children_of n ! Suc j)" "k < keys_of n ! j \<longleftrightarrow> lower_bound (keys_of n) k \<le> j"
proof -
  note n = full_innerD [OF assms(1)] and len = filled_lengths [OF full_innerD(1) [OF assms(1)]]
  show "pairs_of n ! j = (keys_of n ! j, children_of n ! Suc j)"
    using assms(2) len n(2,3) by (simp add: pairs_of_def nth_tl)
  show "k < keys_of n ! j \<longleftrightarrow> lower_bound (keys_of n) k \<le> j"
    using sorted_split_point [of "keys_of n" j k] assms len(1) n(3) by (simp add: full_inner_def)
qed

lemma split_records_eq:
  assumes "full_inner cap n k"
  defines "l \<equiv> cap_keys cap div 2"
  shows "split_records cap n new a k sep h =
    (if k < keys_of n ! (l - 1) then do {
       s \<leftarrow> node_separator n l;
       new1 \<leftarrow> move_right n new l (cap_keys cap - l) s;
       (let new2 = new1\<lparr>node_size := cap_keys cap - l\<rparr>; n1 = n\<lparr>node_size := l - 1\<rparr> in do {
          h1 \<leftarrow> set_parent a sep h;
          n2 \<leftarrow> node_insert_separator n1 (node_index n1 k) (Some sep) k;
          Some (n2, new2, keys_of n ! (l - 1), h1) })
     }
     else if k < keys_of n ! l then do {
       new1 \<leftarrow> move_right n new l (cap_keys cap - l) (Some sep);
       Some (n\<lparr>node_size := l\<rparr>, new1\<lparr>node_size := cap_keys cap - l\<rparr>, k, h)
     }
     else do {
       s \<leftarrow> node_separator n (l + 1);
       new1 \<leftarrow> move_right n new (l + 1) (cap_keys cap - l - 1) s;
       (let new2 = new1\<lparr>node_size := cap_keys cap - l - 1\<rparr> in do {
          new3 \<leftarrow> node_insert_separator new2 (node_index new2 k) (Some sep) k;
          Some (n\<lparr>node_size := l\<rparr>, new3, keys_of n ! l, h) })
     })"
  using node_inner_key_keys [OF full_innerD(1,2) [OF assms(1)], of "l - 1"] node_inner_key_keys [OF full_innerD(1,2) [OF assms(1)], of l]
    full_innerD [OF assms(1)]
  unfolding split_records_def l_def [symmetric] by (simp add: Let_def)

lemma split_records_low:
  assumes "full_inner cap n k" "body_shape cap False b" "h sep = Some sn"
    "new = (node_new (inner_type (is_branch n)) (parent n) b)\<lparr>high_key := high_key n\<rparr>"
  defines "l \<equiv> cap_keys cap div 2" and "qs \<equiv> insert_at (lower_bound (keys_of n) k) (k, Some sep) (pairs_of n)"
  assumes low_key: "k < keys_of n ! (l - 1)"
  shows "split_at_middle cap n l qs a sep h (split_records cap n new a k sep h)"
proof -
  let ?ks = "keys_of n" and ?ps = "pairs_of n" and ?m = "cap_keys cap"
  define i where "i = lower_bound ?ks k"
  note n = full_innerD [OF assms(1), folded l_def] and run = split_records_eq [OF assms(1), folded l_def]
  have il: "i \<le> l - 1" using full_inner_nth(2) [OF assms(1), of "l - 1"] n low_key by (simp add: i_def)
  from inner_move [OF n(1,2) assms(2) _ assms(4), of l "?m - l" "children_of n ! l"] n(3,6,7)
  obtain d where d: "move_right n new l (?m - l) (children_of n ! l) = Some d"
    "node_shape cap (d\<lparr>node_size := ?m - l\<rparr>)" "\<not> is_leaf d" "is_branch d = is_branch n" "high_key d = high_key n"
    "parent d = parent n" "pairs_of (d\<lparr>node_size := ?m - l\<rparr>) = drop l ?ps"
    "hd (children_of (d\<lparr>node_size := ?m - l\<rparr>)) = children_of n ! l" by auto
  have low: "lower_bound (keys_of (n\<lparr>node_size := l - 1\<rparr>)) k = i"
    using keys_of_shrink(1) [of "l - 1" n] il n by (simp add: lower_bound_take i_def)
  have z: "l - 1 \<le> node_size n" and nl: "\<not> is_leaf (n\<lparr>node_size := l - 1\<rparr>)"
    and nf: "\<not> node_full cap (n\<lparr>node_size := l - 1\<rparr>)" using n by (simp_all add: node_full_def)
  note sh = inner_shrink [OF n(1,2) z] node_shape_shrink [OF n(1) z]
  obtain n2 where n2: "node_insert_separator (n\<lparr>node_size := l - 1\<rparr>) (node_index (n\<lparr>node_size := l - 1\<rparr>) k) (Some sep) k = Some n2"
    "node_shape cap n2" "same_header (n\<lparr>node_size := l - 1\<rparr>) n2"
    "pairs_of n2 = insert_at i (k, Some sep) (take (l - 1) ?ps)" "hd (children_of n2) = hd (children_of n)"
    using inner_insert [OF sh(3) nl nf, of k "Some sep"] unfolding low sh(1,2) by blast
  have qs: "take l qs = insert_at i (k, Some sep) (take (l - 1) ?ps)" "qs ! l = (?ks ! (l - 1), children_of n ! l)"
    "drop (Suc l) qs = drop l ?ps"
    using insert_at_before [of i "l - 1" ?ps "(k, Some sep)"] il n full_inner_nth(1) [OF assms(1), of "l - 1"]
    by (simp_all add: qs_def i_def [symmetric] insert_at_before(3) [of i l])
  show ?thesis
    using low_key d n2 qs same_headerD [OF n2(3)] assms(3) node_separator_children [OF n(1,2), of l] n
    by (simp add: split_at_middle_def run Let_def set_parent_def node_update_def)
qed

lemma split_records_middle:
  fixes sep :: addr
  assumes "full_inner cap n k" "body_shape cap False b"
    "new = (node_new (inner_type (is_branch n)) (parent n) b)\<lparr>high_key := high_key n\<rparr>"
  defines "l \<equiv> cap_keys cap div 2" and "qs \<equiv> insert_at (lower_bound (keys_of n) k) (k, Some sep) (pairs_of n)"
  assumes middle: "\<not> k < keys_of n ! (l - 1)" "k < keys_of n ! l"
  shows "split_at_middle cap n l qs a sep h (split_records cap n new a k sep h)"
proof -
  let ?ps = "pairs_of n" and ?m = "cap_keys cap"
  note n = full_innerD [OF assms(1), folded l_def] and run = split_records_eq [OF assms(1), folded l_def]
  have "l - 1 < ?m" using n by simp
  then have il: "lower_bound (keys_of n) k = l"
    using middle full_inner_nth(2) [OF assms(1), of "l - 1"] full_inner_nth(2) [OF assms(1), of l] n by simp
  from inner_move [OF n(1,2) assms(2) _ assms(3), of l "?m - l" "Some sep"] n(3,6,7)
  obtain d where d: "move_right n new l (?m - l) (Some sep) = Some d"
    "node_shape cap (d\<lparr>node_size := ?m - l\<rparr>)" "\<not> is_leaf d" "is_branch d = is_branch n" "high_key d = high_key n"
    "parent d = parent n" "pairs_of (d\<lparr>node_size := ?m - l\<rparr>) = drop l ?ps"
    "hd (children_of (d\<lparr>node_size := ?m - l\<rparr>)) = Some sep" by auto
  have qs: "take l qs = take l ?ps" "qs ! l = (k, Some sep)" "drop (Suc l) qs = drop l ?ps"
    using insert_at_here [of l ?ps "(k, Some sep)"] n by (simp_all add: qs_def il)
  show ?thesis
    using middle d qs inner_shrink [OF n(1,2), of l] node_shape_shrink [OF n(1), of l] n by (simp add: split_at_middle_def run)
qed

lemma split_records_high:
  fixes sep :: addr
  assumes "full_inner cap n k" "body_shape cap False b"
    "new = (node_new (inner_type (is_branch n)) (parent n) b)\<lparr>high_key := high_key n\<rparr>"
  defines "l \<equiv> cap_keys cap div 2" and "qs \<equiv> insert_at (lower_bound (keys_of n) k) (k, Some sep) (pairs_of n)"
  assumes high: "\<not> k < keys_of n ! (l - 1)" "\<not> k < keys_of n ! l"
  shows "split_at_middle cap n l qs a sep h (split_records cap n new a k sep h)"
proof -
  let ?ks = "keys_of n" and ?ps = "pairs_of n" and ?m = "cap_keys cap"
  define i where "i = lower_bound ?ks k"
  note n = full_innerD [OF assms(1), folded l_def] and run = split_records_eq [OF assms(1), folded l_def]
  have il: "l < i" using high full_inner_nth(2) [OF assms(1), of l] n by (simp add: i_def)
  from inner_move [OF n(1,2) assms(2) _ assms(3), of "l + 1" "?m - l - 1" "children_of n ! (l + 1)"] n(3,6,7)
  obtain d where d: "move_right n new (l + 1) (?m - l - 1) (children_of n ! (l + 1)) = Some d"
    "node_shape cap (d\<lparr>node_size := ?m - l - 1\<rparr>)" "\<not> is_leaf d" "is_branch d = is_branch n" "high_key d = high_key n"
    "parent d = parent n" "pairs_of (d\<lparr>node_size := ?m - l - 1\<rparr>) = drop (l + 1) ?ps"
    "keys_of (d\<lparr>node_size := ?m - l - 1\<rparr>) = drop (l + 1) ?ks"
    "hd (children_of (d\<lparr>node_size := ?m - l - 1\<rparr>)) = children_of n ! (l + 1)" by auto
  have low: "lower_bound (keys_of (d\<lparr>node_size := ?m - l - 1\<rparr>)) k = i - Suc l"
    unfolding d(8) using il lower_bound_drop [of "Suc l" ?ks k] by (simp add: i_def)
  have nl: "\<not> is_leaf (d\<lparr>node_size := ?m - l - 1\<rparr>)" and nf: "\<not> node_full cap (d\<lparr>node_size := ?m - l - 1\<rparr>)"
    using n d(3) by (auto simp: node_full_def)
  obtain r where r: "node_insert_separator (d\<lparr>node_size := ?m - l - 1\<rparr>) (node_index (d\<lparr>node_size := ?m - l - 1\<rparr>) k) (Some sep) k = Some r"
    "node_shape cap r" "same_header (d\<lparr>node_size := ?m - l - 1\<rparr>) r"
    "pairs_of r = insert_at (i - Suc l) (k, Some sep) (drop (l + 1) ?ps)" "hd (children_of r) = children_of n ! (l + 1)"
    using inner_insert [OF d(2) nl nf, of k "Some sep"] unfolding low d(7,9) by blast
  have qs: "take l qs = take l ?ps" "qs ! l = (?ks ! l, children_of n ! (l + 1))"
    "drop (Suc l) qs = insert_at (i - Suc l) (k, Some sep) (drop (l + 1) ?ps)"
    using insert_at_after [OF il, of ?ps "(k, Some sep)"] n(5) full_inner_nth(1) [OF assms(1) n(7)] by (simp_all add: qs_def i_def)
  show ?thesis
    using high d r qs same_headerD [OF r(3)] inner_shrink [OF n(1,2), of l] node_shape_shrink [OF n(1), of l]
      node_separator_children [OF n(1,2), of "l + 1"] n by (simp add: split_at_middle_def run Let_def)
qed

lemma split_inner_cases:
  assumes "node_shape cap n" "\<not> is_leaf n" "node_full cap n" "2 \<le> cap_keys cap"
    "body_shape cap False b" "sorted_wrt (<) (keys_of n)" "k \<notin> set (keys_of n)" "h sep = Some sn"
    "new = (node_new (inner_type (is_branch n)) (parent n) b)\<lparr>high_key := high_key n\<rparr>"
  defines "l \<equiv> cap_keys cap div 2" and "qs \<equiv> insert_at (lower_bound (keys_of n) k) (k, Some sep) (pairs_of n)"
  shows "\<exists>n1 r up h1. split_records cap n new a k sep h = Some (n1, r, up, h1) \<and>
    node_shape cap n1 \<and> node_shape cap r \<and> \<not> is_leaf n1 \<and> \<not> is_leaf r \<and>
    is_branch n1 = is_branch n \<and> is_branch r = is_branch n \<and> parent n1 = parent n \<and> parent r = parent n \<and>
    high_key r = high_key n \<and> pairs_of n1 = take l qs \<and> hd (children_of n1) = hd (children_of n) \<and>
    (up, hd (children_of r)) = qs ! l \<and> pairs_of r = drop (Suc l) qs \<and>
    (h1 = h \<or> h1 = h(sep \<mapsto> sn\<lparr>parent := Some a\<rparr>))"
proof -
  have full: "full_inner cap n k" using assms(1-4,6,7) by (simp add: full_inner_def)
  have "split_at_middle cap n l qs a sep h (split_records cap n new a k sep h)"
    unfolding l_def qs_def
    using split_records_low [where h = h and sep = sep, OF full assms(5,8,9)] split_records_middle [OF full assms(5,9)] split_records_high [OF full assms(5,9)] by blast
  then show ?thesis by (simp add: split_at_middle_def assms(8))
qed

text \<open>Setting the parent of all nodes of a list of separators.\<close>

definition reparent :: "addr \<Rightarrow> addr option list \<Rightarrow> 'v heap \<Rightarrow> 'v heap" where
  "reparent p cs h x = map_option (\<lambda>n. if Some x \<in> set cs then n\<lparr>parent := Some p\<rparr> else n) (h x)"

lemma reparent_Cons: "h a = Some n \<Longrightarrow> reparent p cs (h(a \<mapsto> n\<lparr>parent := Some p\<rparr>)) = reparent p (Some a # cs) h"
  by (rule ext) (auto simp: reparent_def)

lemma set_parents_eq:
  assumes "\<forall>c \<in> set cs. \<exists>x. c = Some x \<and> h x \<noteq> None"
  shows "set_parents p cs h = Some (reparent p cs h)"
  using assms
proof (induction cs arbitrary: h)
  case Nil
  then show ?case by (auto simp: reparent_def option.map_ident fun_eq_iff)
next
  case (Cons c cs)
  then obtain a n where a: "c = Some a" "h a = Some n" by auto
  have "set_parents p cs (h(a \<mapsto> n\<lparr>parent := Some p\<rparr>)) = Some (reparent p cs (h(a \<mapsto> n\<lparr>parent := Some p\<rparr>)))"
  proof (rule Cons.IH, rule ballI)
    fix d assume "d \<in> set cs"
    then obtain x where "d = Some x" "h x \<noteq> None" using Cons.prems by auto
    then show "\<exists>x. d = Some x \<and> (h(a \<mapsto> n\<lparr>parent := Some p\<rparr>)) x \<noteq> None" by (cases "x = a") auto
  qed
  then show ?case using a reparent_Cons [of h a n p cs, OF a(2)] by (simp add: set_parent_def node_update_def)
qed

lemma children_pairs: "node_shape cap n \<Longrightarrow> \<not> is_leaf n \<Longrightarrow> children_of n = hd (children_of n) # map snd (pairs_of n)"
  using filled_lengths(1,3) [of cap n] by (cases "children_of n") (auto simp: pairs_of_def)

text \<open>The children of the right half are children of the node or the new one.\<close>

lemma right_children_subset:
  assumes "node_shape cap n" "\<not> is_leaf n" "node_shape cap r" "\<not> is_leaf r" "set qs = insert (k, Some sep) (set (pairs_of n))"
    "l < length qs" "(up, hd (children_of r)) = qs ! l" "pairs_of r = drop (Suc l) qs"
  shows "set (children_of r) \<subseteq> insert (Some sep) (set (children_of n))"
proof -
  have "set (map snd (pairs_of n)) \<subseteq> set (children_of n)"
    by (subst children_pairs [OF assms(1,2)]) (rule set_subset_Cons)
  then have qc: "snd ` set qs \<subseteq> insert (Some sep) (set (children_of n))" by (auto simp: assms(5))
  have "hd (children_of r) = snd (qs ! l)" using assms(7) [symmetric] by simp
  moreover have "qs ! l \<in> set qs" using assms(6) by simp
  ultimately have "hd (children_of r) \<in> snd ` set qs" by (rule image_eqI)
  moreover have "set (map snd (pairs_of r)) \<subseteq> snd ` set qs"
    unfolding assms(8) set_map by (intro image_mono set_drop_subset)
  moreover have "set (children_of r) = insert (hd (children_of r)) (set (map snd (pairs_of r)))"
    by (subst children_pairs [OF assms(3,4)]) (rule list.simps(15))
  ultimately have "set (children_of r) \<subseteq> snd ` set qs" by (simp only: insert_subset)
  then show ?thesis using qc by (rule subset_trans)
qed

lemma split_inner_eq:
  assumes "h a = Some n" "node_shape cap n" "\<not> is_leaf n" "node_full cap n" "2 \<le> cap_keys cap"
    "body_shape cap False b" "sorted_wrt (<) (keys_of n)" "k \<notin> set (keys_of n)" "h sep = Some sn"
    "\<forall>c \<in> set (children_of n). \<exists>x. c = Some x \<and> h x \<noteq> None"
  defines "l \<equiv> cap_keys cap div 2" and "qs \<equiv> insert_at (lower_bound (keys_of n) k) (k, Some sep) (pairs_of n)"
  shows "\<exists>n' r up h1. split_inner cap (new, b) a k sep h =
      Some (reparent new (children_of r) (h1(a \<mapsto> n', new \<mapsto> r)), new, up) \<and>
    node_shape cap n' \<and> node_shape cap r \<and> \<not> is_leaf n' \<and> \<not> is_leaf r \<and>
    is_branch n' = is_branch n \<and> is_branch r = is_branch n \<and> parent n' = parent n \<and> parent r = parent n \<and>
    high_key n' = up \<and> high_key r = high_key n \<and> right_sibling n' = Some new \<and> right_sibling r = right_sibling n \<and>
    pairs_of n' = take l qs \<and> hd (children_of n') = hd (children_of n) \<and>
    (up, hd (children_of r)) = qs ! l \<and> pairs_of r = drop (Suc l) qs \<and>
    (h1 = h \<or> h1 = h(sep \<mapsto> sn\<lparr>parent := Some a\<rparr>))"
proof -
  define new0 where "new0 = (node_new (inner_type (is_branch n)) (parent n) b)\<lparr>high_key := high_key n\<rparr>"
  have size: "node_size n = cap_keys cap" using assms(2-4) by (auto simp: node_full_def node_shape_def)
  have l: "0 < l" "l < cap_keys cap" using assms(5) by (auto simp: l_def)
  from split_inner_cases [where h = h and sep = sep and sn = sn and a = a, OF assms(2-9) new0_def, folded l_def qs_def]
  obtain n1 r up h1 where rec: "split_records cap n new0 a k sep h = Some (n1, r, up, h1)"
    and s: "node_shape cap n1" "node_shape cap r" "\<not> is_leaf n1" "\<not> is_leaf r"
    "is_branch n1 = is_branch n" "is_branch r = is_branch n" "parent n1 = parent n" "parent r = parent n"
    "high_key r = high_key n" "pairs_of n1 = take l qs" "hd (children_of n1) = hd (children_of n)"
    "(up, hd (children_of r)) = qs ! l" "pairs_of r = drop (Suc l) qs"
    "h1 = h \<or> h1 = h(sep \<mapsto> sn\<lparr>parent := Some a\<rparr>)" by (elim exE conjE) (rule that; assumption)
  have run: "split_inner cap (new, b) a k sep h =
      do { h2 \<leftarrow> set_parents new (children_of r)
             (h1(a \<mapsto> n1\<lparr>right_sibling := Some new, high_key := up\<rparr>, new \<mapsto> r\<lparr>right_sibling := right_sibling n\<rparr>));
           Some (h2, new, up) }"
    using rec by (simp add: split_inner_def assms(1) Let_def new0_def)
  have qs: "set qs = insert (k, Some sep) (set (pairs_of n))" "length qs = Suc (cap_keys cap)"
    using entries_keys(4) [OF assms(2,3)] size lower_bound_le [of "keys_of n" k] filled_lengths(1) [OF assms(2)]
    by (simp_all add: qs_def set_insert_at)
  have sub: "set (children_of r) \<subseteq> insert (Some sep) (set (children_of n))"
    by (rule right_children_subset [OF assms(2,3) s(2,4) qs(1) _ s(12,13)]) (use qs(2) l in simp)
  have dom: "\<exists>x. c = Some x \<and> (h1(a \<mapsto> n1', new \<mapsto> r')) x \<noteq> None" if "c \<in> set (children_of r)" for c n1' r'
  proof -
    have "c = Some sep \<or> c \<in> set (children_of n)" using that sub by blast
    then obtain x where "c = Some x" "h x \<noteq> None" using assms(9,10) by auto
    then show ?thesis using s(14) by auto
  qed
  have "set_parents new (children_of r) (h1(a \<mapsto> n1\<lparr>right_sibling := Some new, high_key := up\<rparr>,
      new \<mapsto> r\<lparr>right_sibling := right_sibling n\<rparr>)) =
    Some (reparent new (children_of r) (h1(a \<mapsto> n1\<lparr>right_sibling := Some new, high_key := up\<rparr>,
      new \<mapsto> r\<lparr>right_sibling := right_sibling n\<rparr>)))"
    using dom by (intro set_parents_eq) blast
  then show ?thesis
    using run s
    by (intro exI [of _ "n1\<lparr>right_sibling := Some new, high_key := up\<rparr>"] exI [of _ "r\<lparr>right_sibling := right_sibling n\<rparr>"]
        exI [of _ up] exI [of _ h1]) simp
qed

lemma create_new_root_eq:
  assumes "bt_nodes t left = Some ln" "bt_nodes t right = Some rn" "fst blk \<noteq> left" "fst blk \<noteq> right"
    "body_shape cap False (snd blk)" "1 \<le> cap_keys cap" "left \<noteq> right"
  shows "\<exists>r usage. create_new_root left right key blk t =
      Some (t\<lparr>bt_height := bt_height t + 1, bt_root := fst blk,
        bt_nodes := (bt_nodes t)(left \<mapsto> ln\<lparr>parent := Some (fst blk)\<rparr>, right \<mapsto> rn\<lparr>parent := Some (fst blk)\<rparr>, fst blk \<mapsto> r)\<rparr>, usage) \<and>
    node_shape cap r \<and> \<not> is_leaf r \<and> is_branch r = is_leaf ln \<and> parent r = None \<and> high_key r = - 1 \<and>
    right_sibling r = None \<and> keys_of r = [key] \<and> children_of r = [Some left, Some right]"
proof -
  obtain a b where blk: "blk = (a, b)" by (cases blk) auto
  obtain ks ss where b: "b = InnerNode ks ss" "length ks = cap_keys cap" "length ss = cap_keys cap + 1"
    using assms(5) by (cases b) (auto simp: blk)
  obtain k0 kr where ks: "ks = k0 # kr" using b(2) assms(6) by (cases ks) auto
  obtain s0 s1 sr where ss: "ss = s0 # s1 # sr"
    using b(3) assms(6) by (cases ss; cases "tl ss") auto
  define r0 where "r0 = node_new (inner_type (is_leaf ln)) None b"
  let ?r = "r0\<lparr>node_body := InnerNode (key # kr) (Some left # Some right # sr), node_size := 1\<rparr>"
  have shape: "node_shape cap r0" "\<not> is_leaf r0" "is_branch r0 = is_leaf ln"
    using node_new_shape [of cap False b "inner_type (is_leaf ln)" "is_leaf ln" None] assms(5) by (simp_all add: r0_def blk)
  have "create_new_root left right key blk t =
    Some (t\<lparr>bt_height := bt_height t + 1, bt_root := a,
        bt_nodes := (bt_nodes t)(left \<mapsto> ln\<lparr>parent := Some a\<rparr>, right \<mapsto> rn\<lparr>parent := Some a\<rparr>, a \<mapsto> ?r)\<rparr>,
      left, predict_access_frequency (is_inner ln) True, predict_access_frequency (is_inner ln) False)"
    using assms(1-4,7) b ks ss
    by (simp add: create_new_root_def Let_def blk create_inner_node_def create_node_def set_parent_def node_update_def
        node_access_defs node_insert_separator.simps arr_set_def r0_def fun_upd_twist)
  moreover have "node_shape cap ?r"
    using shape b ks ss assms(6) by (simp add: node_shape_def)
  moreover have "keys_of ?r = [key]" "children_of ?r = [Some left, Some right]"
    by (simp_all add: keys_of_def node_keys_def children_of_def)
  ultimately show ?thesis using shape by (intro exI [of _ ?r]) (simp add: r0_def blk)
qed

end
