(* ===== verification/BLinkInv.thy ===== *)
theory BLinkInv
  imports BLinkTree
begin

section \<open>The invariant of the B-link tree\<close>

text \<open>
  The invariant uses two ghost functions on node addresses: \<open>lvl\<close>, the height of a node above
  the leaves, and \<open>low\<close>, the least key the node is responsible for. Both never change once a
  node exists. A node is responsible for the keys from \<open>low\<close> to its high key (exclusive): its
  right sibling starts where it ends, the ranges of one level are disjoint, and the i-th
  separator of an inner node points to a node that starts exactly at the i-th key. It is not
  required that every node has a separator in its parent: a node that was just split off is
  reachable through its left sibling only, until the separator is inserted by another task.
  The parent pointer is a hint: the parent may start further to the left.

  The lemmas show that inserting into a node, the two splits and a new root keep the invariant,
  and what they do to the entries of all leaves.
\<close>

subsection \<open>Definition\<close>

definition points :: "(addr \<Rightarrow> u64) \<Rightarrow> (addr \<Rightarrow> nat) \<Rightarrow> addr set \<Rightarrow> addr \<Rightarrow> u64 \<Rightarrow> addr option \<Rightarrow> bool" where
  "points low lvl D a k c \<longleftrightarrow> (\<exists>b. c = Some b \<and> b \<in> D \<and> lvl a = Suc (lvl b) \<and> low b = k)"

definition inner_ok :: "(addr \<Rightarrow> u64) \<Rightarrow> (addr \<Rightarrow> nat) \<Rightarrow> addr set \<Rightarrow> addr \<Rightarrow> 'v node \<Rightarrow> bool" where
  "inner_ok low lvl D a n \<longleftrightarrow> (\<forall>k \<in> set (keys_of n). low a < k) \<and>
     points low lvl D a (low a) (hd (children_of n)) \<and> (\<forall>(k, c) \<in> set (pairs_of n). points low lvl D a k c)"

definition right_ok :: "(addr \<Rightarrow> u64) \<Rightarrow> (addr \<Rightarrow> nat) \<Rightarrow> addr set \<Rightarrow> addr \<Rightarrow> 'v node \<Rightarrow> bool" where
  "right_ok low lvl D a n \<longleftrightarrow> (case right_sibling n of
     None \<Rightarrow> high_key n = - 1
   | Some b \<Rightarrow> b \<in> D \<and> lvl b = lvl a \<and> low b = high_key n)"

definition node_ok :: "capacity \<Rightarrow> (addr \<Rightarrow> u64) \<Rightarrow> (addr \<Rightarrow> nat) \<Rightarrow> addr set \<Rightarrow> addr \<Rightarrow> 'v node \<Rightarrow> bool" where
  "node_ok cap low lvl D a n \<longleftrightarrow> node_shape cap n \<and> (is_leaf n \<longleftrightarrow> lvl a = 0) \<and> (is_branch n \<longleftrightarrow> lvl a = 1) \<and>
     low a < high_key n \<and> right_ok low lvl D a n \<and> sorted_wrt (<) (keys_of n) \<and>
     (\<forall>k \<in> set (keys_of n). low a \<le> k \<and> k < high_key n) \<and> (\<not> is_leaf n \<longrightarrow> inner_ok low lvl D a n)"

definition nodes_inv :: "capacity \<Rightarrow> (addr \<Rightarrow> u64) \<Rightarrow> (addr \<Rightarrow> nat) \<Rightarrow> 'v heap \<Rightarrow> bool" where
  "nodes_inv cap low lvl h \<longleftrightarrow> finite (dom h) \<and> (\<forall>a n. h a = Some n \<longrightarrow> node_ok cap low lvl (dom h) a n) \<and>
     (\<forall>a b n m. h a = Some n \<longrightarrow> h b = Some m \<longrightarrow> a \<noteq> b \<longrightarrow> lvl a = lvl b \<longrightarrow> high_key n \<le> low b \<or> high_key m \<le> low a)"

definition parent_ok :: "(addr \<Rightarrow> u64) \<Rightarrow> (addr \<Rightarrow> nat) \<Rightarrow> addr set \<Rightarrow> addr set \<Rightarrow> addr \<Rightarrow> 'v node \<Rightarrow> bool" where
  "parent_ok low lvl D R a n \<longleftrightarrow> (case parent n of
     None \<Rightarrow> a \<in> R | Some p \<Rightarrow> p \<in> D \<and> lvl p = Suc (lvl a) \<and> low p \<le> low a)"

definition parents_inv :: "(addr \<Rightarrow> u64) \<Rightarrow> (addr \<Rightarrow> nat) \<Rightarrow> addr set \<Rightarrow> 'v heap \<Rightarrow> bool" where
  "parents_inv low lvl R h \<longleftrightarrow> (\<forall>a n. h a = Some n \<longrightarrow> parent_ok low lvl (dom h) R a n)"

definition tree_inv :: "capacity \<Rightarrow> (addr \<Rightarrow> u64) \<Rightarrow> (addr \<Rightarrow> nat) \<Rightarrow> 'v tree \<Rightarrow> bool" where
  "tree_inv cap low lvl t \<longleftrightarrow> nodes_inv cap low lvl (bt_nodes t) \<and> parents_inv low lvl {bt_root t} (bt_nodes t) \<and>
     bt_root t \<in> dom (bt_nodes t) \<and> low (bt_root t) = 0 \<and> (\<forall>x \<in> dom (bt_nodes t). lvl x \<le> lvl (bt_root t)) \<and>
     bt_height t = of_nat (Suc (lvl (bt_root t)))"

text \<open>The abstract content of the tree, and the nodes that have a separator.\<close>

definition node_contents :: "'v node \<Rightarrow> (u64 \<times> 'v) set" where
  "node_contents n = (if is_leaf n then set (entries_of n) else {})"

definition contents :: "'v heap \<Rightarrow> (u64 \<times> 'v) set" where
  "contents h = {e. \<exists>a n. h a = Some n \<and> e \<in> node_contents n}"

definition node_links :: "'v heap \<Rightarrow> addr set" where
  "node_links h = {b. \<exists>a n. h a = Some n \<and> Some b \<in> set (children_of n)}"

subsection \<open>Basic consequences\<close>

lemma nodes_invD:
  assumes "nodes_inv cap low lvl h" "h a = Some n"
  shows "node_ok cap low lvl (dom h) a n"
  using assms by (simp add: nodes_inv_def)

lemma node_ok_mono:
  assumes "node_ok cap low lvl D a n" "D \<subseteq> D'" "a \<in> D" "\<And>x. x \<in> D \<Longrightarrow> low' x = low x" "\<And>x. x \<in> D \<Longrightarrow> lvl' x = lvl x"
  shows "node_ok cap low' lvl' D' a n"
proof -
  have p: "points low' lvl' D' a k c" if "points low lvl D a k c" for k c
    using that assms(2-5) unfolding points_def by auto
  have "inner_ok low' lvl' D' a n" if "inner_ok low lvl D a n"
    using that p assms(3,4) unfolding inner_ok_def by auto
  moreover have "right_ok low' lvl' D' a n" if "right_ok low lvl D a n"
    using that assms(2-5) unfolding right_ok_def by (auto split: option.splits)
  ultimately show ?thesis using assms unfolding node_ok_def by simp
qed

lemma node_ok_parent [simp]: "node_ok cap low lvl D a (n\<lparr>parent := q\<rparr>) = node_ok cap low lvl D a n"
  by (cases "right_sibling n") (simp_all add: node_ok_def inner_ok_def right_ok_def)

lemma same_level_overlap:
  assumes "nodes_inv cap low lvl h" "h a = Some n" "h b = Some m" "lvl a = lvl b" "low a \<le> low b" "low b < high_key n"
  shows "a = b"
proof (rule ccontr)
  assume "a \<noteq> b"
  then have "high_key n \<le> low b \<or> high_key m \<le> low a" using assms(1-4) by (simp add: nodes_inv_def)
  moreover have "low b < high_key m" using nodes_invD [OF assms(1,3)] by (simp add: node_ok_def)
  ultimately show False using assms(5,6) by auto
qed

lemma same_low:
  assumes "nodes_inv cap low lvl h" "a \<in> dom h" "b \<in> dom h" "lvl a = lvl b" "low a = low b"
  shows "a = b"
proof -
  obtain n m where "h a = Some n" "h b = Some m" using assms(2,3) by auto
  moreover from this(1) have "low a < high_key n" using nodes_invD [OF assms(1)] by (simp add: node_ok_def)
  ultimately show ?thesis using same_level_overlap [OF assms(1) _ _ assms(4)] assms(5) by simp
qed

lemma high_key_bound: "node_ok cap low lvl D a n \<Longrightarrow> low a < - 1"
  using less_le_trans [OF _ word_n1_ge] unfolding node_ok_def by blast

lemma contents_leaf:
  assumes "nodes_inv cap low lvl h" "h a = Some n" "is_leaf n" "low a \<le> k" "k < high_key n"
  shows "(k, v) \<in> contents h \<longleftrightarrow> (k, v) \<in> set (entries_of n)"
proof
  assume "(k, v) \<in> contents h"
  then obtain b m where b: "h b = Some m" "is_leaf m" "(k, v) \<in> set (entries_of m)"
    by (auto simp: contents_def node_contents_def split: if_splits)
  note okm = nodes_invD [OF assms(1) b(1)] and okn = nodes_invD [OF assms(1,2)]
  have "k \<in> set (keys_of m)"
    using b(3) by (auto simp: entries_of_def dest: set_zip_leftD)
  then have km: "low b \<le> k" "k < high_key m" using okm by (auto simp: node_ok_def)
  have lvl: "lvl a = lvl b" using okm okn assms(3) b(2) by (simp add: node_ok_def)
  have "a = b"
  proof (cases "low a \<le> low b")
    case True
    then show ?thesis using same_level_overlap [OF assms(1,2) b(1) lvl] km assms(5) by auto
  next
    case False
    have "low a < high_key m" using assms(4) km(2) by (rule order.strict_trans1)
    moreover have "low b \<le> low a" using False by simp
    ultimately have "b = a" using same_level_overlap [OF assms(1) b(1) assms(2)] lvl by simp
    then show ?thesis ..
  qed
  then show "(k, v) \<in> set (entries_of n)" using assms(2) b by simp
next
  assume "(k, v) \<in> set (entries_of n)"
  then show "(k, v) \<in> contents h" using assms(2,3) by (auto simp: contents_def node_contents_def)
qed

subsection \<open>Updating one node\<close>

lemma nodes_inv_update:
  assumes "nodes_inv cap low lvl h" "h a = Some n" "node_ok cap low lvl (dom h) a n'" "high_key n' = high_key n"
  shows "nodes_inv cap low lvl (h(a \<mapsto> n'))"
proof -
  have dom: "dom (h(a \<mapsto> n')) = dom h" using assms(2) by auto
  have disj: "high_key m \<le> low c \<or> high_key m' \<le> low b"
    if "h b = Some m" "h c = Some m'" "b \<noteq> c" "lvl b = lvl c" for b c m m'
    using assms(1) that by (simp add: nodes_inv_def)
  show ?thesis
    unfolding nodes_inv_def dom
  proof (intro conjI allI impI)
    show "finite (dom h)" using assms(1) by (simp add: nodes_inv_def)
    show "node_ok cap low lvl (dom h) b m" if "(h(a \<mapsto> n')) b = Some m" for b m
      using that assms(3) nodes_invD [OF assms(1), of b m] by (simp split: if_splits)
    show "high_key m \<le> low c \<or> high_key m' \<le> low b"
      if "(h(a \<mapsto> n')) b = Some m" "(h(a \<mapsto> n')) c = Some m'" "b \<noteq> c" "lvl b = lvl c" for b c m m'
      using that disj [of b _ c] assms(2,4) by (auto split: if_splits)
  qed
qed

lemma parents_inv_update:
  assumes "parents_inv low lvl R h" "h a = Some n" "parent n' = parent n"
  shows "parents_inv low lvl R (h(a \<mapsto> n'))"
proof -
  have dom: "dom (h(a \<mapsto> n')) = dom h" using assms(2) by auto
  have "parent_ok low lvl (dom h) R a n'" using assms by (simp add: parents_inv_def parent_ok_def)
  then show ?thesis unfolding parents_inv_def dom using assms(1) by (simp add: parents_inv_def)
qed

lemma tree_inv_update:
  assumes "tree_inv cap low lvl t" "bt_nodes t a = Some n" "node_ok cap low lvl (dom (bt_nodes t)) a n'" "same_header n n'"
  shows "tree_inv cap low lvl (t\<lparr>bt_nodes := (bt_nodes t)(a \<mapsto> n')\<rparr>)"
proof -
  have "dom ((bt_nodes t)(a \<mapsto> n')) = dom (bt_nodes t)" using assms(2) by auto
  moreover have "nodes_inv cap low lvl ((bt_nodes t)(a \<mapsto> n'))"
    by (rule nodes_inv_update [OF _ assms(2,3)]) (use assms(1) same_headerD [OF assms(4)] in \<open>simp_all add: tree_inv_def\<close>)
  moreover have "parents_inv low lvl {bt_root t} ((bt_nodes t)(a \<mapsto> n'))"
    by (rule parents_inv_update [where h = "bt_nodes t" and n = n])
      (use assms(1,2) same_headerD [OF assms(4)] in \<open>simp_all add: tree_inv_def\<close>)
  ultimately show ?thesis using assms(1) by (simp add: tree_inv_def)
qed

lemma tree_invD:
  assumes "tree_inv cap low lvl t"
  shows "nodes_inv cap low lvl (bt_nodes t)" "parents_inv low lvl {bt_root t} (bt_nodes t)"
    "bt_root t \<in> dom (bt_nodes t)" "low (bt_root t) = 0" "\<And>x. x \<in> dom (bt_nodes t) \<Longrightarrow> lvl x \<le> lvl (bt_root t)"
    "bt_height t = of_nat (Suc (lvl (bt_root t)))"
    "\<And>a n. bt_nodes t a = Some n \<Longrightarrow> node_ok cap low lvl (dom (bt_nodes t)) a n"
  using assms nodes_invD by (auto simp: tree_inv_def)

text \<open>Statements about some node of the heap, after an update of one node and before.\<close>

lemma ex_node_update:
  "(\<exists>b m. (h(a \<mapsto> n')) b = Some m \<and> P m) \<longleftrightarrow> P n' \<or> (\<exists>b m. b \<noteq> a \<and> h b = Some m \<and> P m)"
proof
  assume "\<exists>b m. (h(a \<mapsto> n')) b = Some m \<and> P m"
  then show "P n' \<or> (\<exists>b m. b \<noteq> a \<and> h b = Some m \<and> P m)" by (auto split: if_splits)
next
  assume "P n' \<or> (\<exists>b m. b \<noteq> a \<and> h b = Some m \<and> P m)"
  then show "\<exists>b m. (h(a \<mapsto> n')) b = Some m \<and> P m"
  proof
    assume "P n'"
    then show ?thesis by (intro exI [of _ a] exI [of _ n']) simp
  next
    assume "\<exists>b m. b \<noteq> a \<and> h b = Some m \<and> P m"
    then obtain b m where "b \<noteq> a" "h b = Some m" "P m" by blast
    then show ?thesis by (intro exI [of _ b] exI [of _ m]) simp
  qed
qed

lemma ex_node_split:
  assumes "h a = Some n"
  shows "(\<exists>b m. h b = Some m \<and> P m) \<longleftrightarrow> P n \<or> (\<exists>b m. b \<noteq> a \<and> h b = Some m \<and> P m)"
  using ex_node_update [of h a n P] assms by (simp add: map_upd_triv)

lemma contents_update:
  assumes "h a = Some n" "node_contents n' = node_contents n \<union> E"
  shows "contents (h(a \<mapsto> n')) = contents h \<union> E"
proof (rule set_eqI)
  fix e
  show "e \<in> contents (h(a \<mapsto> n')) \<longleftrightarrow> e \<in> contents h \<union> E"
    using assms(2) unfolding contents_def mem_Collect_eq Un_iff ex_node_update
      ex_node_split [of h a n "\<lambda>m. e \<in> node_contents m", OF assms(1)] by auto
qed

lemma leaf_no_children: "node_shape cap n \<Longrightarrow> is_leaf n \<Longrightarrow> children_of n = []"
  by (elim node_shape_leaf) (simp_all add: children_of_def)

lemma links_update: "node_links (h(a \<mapsto> n')) \<subseteq> node_links h \<union> {b. Some b \<in> set (children_of n')}"
proof
  fix b assume "b \<in> node_links (h(a \<mapsto> n'))"
  then show "b \<in> node_links h \<union> {b. Some b \<in> set (children_of n')}"
    unfolding node_links_def mem_Collect_eq ex_node_update by blast
qed

lemma right_ok_cong:
  "high_key n' = high_key n \<Longrightarrow> right_sibling n' = right_sibling n \<Longrightarrow> right_ok low lvl D a n' = right_ok low lvl D a n"
  unfolding right_ok_def by (simp split: option.split)

lemma linked:
  assumes "nodes_inv cap low lvl h" "h a = Some n" "\<not> is_leaf n"
  shows "(c, Some b) \<in> set (pairs_of n) \<Longrightarrow> b \<in> node_links h" "Some b = hd (children_of n) \<Longrightarrow> b \<in> node_links h"
proof -
  have c: "children_of n = hd (children_of n) # map snd (pairs_of n)"
    using children_pairs nodes_invD [OF assms(1,2)] assms(3) by (auto simp: node_ok_def)
  have "Some b \<in> set (children_of n)" if "(c, Some b) \<in> set (pairs_of n)"
    by (subst c) (use that in \<open>force\<close>)
  then show "(c, Some b) \<in> set (pairs_of n) \<Longrightarrow> b \<in> node_links h" using assms(2) by (auto simp: node_links_def)
  have "Some b \<in> set (children_of n)" if "Some b = hd (children_of n)"
    by (subst c) (use that in \<open>simp\<close>)
  then show "Some b = hd (children_of n) \<Longrightarrow> b \<in> node_links h" using assms(2) by (auto simp: node_links_def)
qed

text \<open>A leaf that is not full takes a new entry.\<close>

lemma leaf_insert_ok:
  assumes "node_ok cap low lvl D a n" "is_leaf n" "\<not> node_full cap n" "low a \<le> k" "k < high_key n" "k \<notin> set (keys_of n)"
  shows "\<exists>n'. node_insert_value n (node_index n k) v k = Some n' \<and> same_header n n' \<and>
    node_ok cap low lvl D a n' \<and> node_contents n' = node_contents n \<union> {(k, v)}"
proof -
  from leaf_insert [OF _ assms(2,3), of k v] assms(1)
  obtain n' where n': "node_insert_value n (node_index n k) v k = Some n'" "node_shape cap n'" "same_header n n'"
    "keys_of n' = insert_at (lower_bound (keys_of n) k) k (keys_of n)"
    "entries_of n' = insert_at (lower_bound (keys_of n) k) (k, v) (entries_of n)"
    by (auto simp: node_ok_def)
  have "sorted_wrt (<) (keys_of n')"
    unfolding n'(4) insert_at_def using assms(1,6) by (intro sorted_insert_at_lower_bound) (simp_all add: node_ok_def)
  then have "node_ok cap low lvl D a n'"
    using assms(1,2,4,5) n'(2,4) same_headerD [OF n'(3)] right_ok_cong [of n' n] by (simp add: node_ok_def set_insert_at)
  moreover have "node_contents n' = node_contents n \<union> {(k, v)}"
    using n'(5) assms(2) same_headerD(1) [OF n'(3)] by (simp add: node_contents_def set_insert_at)
  ultimately show ?thesis using n' by blast
qed

text \<open>An inner node that is not full takes a separator for a node of the level below.\<close>

lemma inner_insert_ok:
  assumes "node_ok cap low lvl D a n" "\<not> is_leaf n" "\<not> node_full cap n" "low a < k" "k < high_key n" "k \<notin> set (keys_of n)"
    "points low lvl D a k (Some s)"
  shows "\<exists>n'. node_insert_separator n (node_index n k) (Some s) k = Some n' \<and> same_header n n' \<and>
    node_ok cap low lvl D a n' \<and> set (children_of n') = insert (Some s) (set (children_of n))"
proof -
  have shape: "node_shape cap n" using assms(1) by (simp add: node_ok_def)
  from inner_insert [OF shape assms(2,3), of k "Some s"]
  obtain n' where n': "node_insert_separator n (node_index n k) (Some s) k = Some n'" "node_shape cap n'" "same_header n n'"
    "keys_of n' = insert_at (lower_bound (keys_of n) k) k (keys_of n)"
    "pairs_of n' = insert_at (lower_bound (keys_of n) k) (k, Some s) (pairs_of n)" "hd (children_of n') = hd (children_of n)"
    by blast
  have "sorted_wrt (<) (keys_of n')"
    unfolding n'(4) insert_at_def using assms(1,6) by (intro sorted_insert_at_lower_bound) (simp_all add: node_ok_def)
  moreover have "inner_ok low lvl D a n'"
    using assms(1,2,4,7) n'(4-6) by (auto simp: node_ok_def inner_ok_def set_insert_at)
  ultimately have "node_ok cap low lvl D a n'"
    using assms(1,2,4,5) n'(2,4) same_headerD [OF n'(3)] right_ok_cong [of n' n] by (simp add: node_ok_def set_insert_at)
  moreover have "set (children_of n') = insert (Some s) (set (children_of n))"
  proof -
    have "\<not> is_leaf n'" using same_headerD(1) [OF n'(3)] assms(2) by simp
    have "set (children_of n') = insert (hd (children_of n')) (snd ` set (pairs_of n'))"
      by (subst children_pairs [OF n'(2) \<open>\<not> is_leaf n'\<close>]) simp
    moreover have "set (children_of n) = insert (hd (children_of n)) (snd ` set (pairs_of n))"
      by (subst children_pairs [OF shape assms(2)]) simp
    ultimately show ?thesis by (auto simp: n'(5,6) set_insert_at)
  qed
  ultimately show ?thesis using n' by blast
qed

subsection \<open>Splitting a node in two\<close>

lemma nodes_inv_split:
  assumes "nodes_inv cap low lvl h" "h a = Some n" "h new = None"
    "node_ok cap (low(new := up)) (lvl(new := lvl a)) (insert new (dom h)) a n'"
    "node_ok cap (low(new := up)) (lvl(new := lvl a)) (insert new (dom h)) new r"
    "high_key n' = up" "high_key r = high_key n"
  shows "nodes_inv cap (low(new := up)) (lvl(new := lvl a)) (h(a \<mapsto> n', new \<mapsto> r))"
proof -
  let ?h = "h(a \<mapsto> n', new \<mapsto> r)" and ?low = "low(new := up)" and ?lvl = "lvl(new := lvl a)"
  have an: "a \<noteq> new" using assms(2,3) by auto
  have dom: "dom ?h = insert new (dom h)" using assms(2) by auto
  have up: "low a < up" "up < high_key n"
    using assms(4-7) an by (auto simp: node_ok_def)
  have disj: "high_key m \<le> low c \<or> high_key m' \<le> low b"
    if "h b = Some m" "h c = Some m'" "b \<noteq> c" "lvl b = lvl c" for b c m m'
    using assms(1) that by (simp add: nodes_inv_def)
  have other: "high_key m \<le> ?low c \<or> high_key m' \<le> ?low b"
    if "?h b = Some m" "?h c = Some m'" "b \<noteq> c" "?lvl b = ?lvl c" "b \<in> {a, new}" for b c m m'
  proof (cases "c \<in> {a, new}")
    case True
    then show ?thesis using that assms(6) an by (auto split: if_splits)
  next
    case False
    then have c: "h c = Some m'" "lvl c = lvl a" "a \<noteq> c" using that an by (auto split: if_splits)
    then have "high_key n \<le> low c \<or> high_key m' \<le> low a" using disj [OF assms(2) c(1)] by simp
    moreover have "high_key m \<le> high_key n" "low a \<le> ?low b" using that up an assms(6,7) by (auto split: if_splits)
    ultimately show ?thesis using False by (auto intro: order_trans)
  qed
  show ?thesis
    unfolding nodes_inv_def dom
  proof (intro conjI allI impI)
    show "finite (insert new (dom h))" using assms(1) by (simp add: nodes_inv_def)
    show "node_ok cap ?low ?lvl (insert new (dom h)) b m" if "?h b = Some m" for b m
    proof (cases "b \<in> {a, new}")
      case True
      then show ?thesis using that assms(4,5) an by (auto split: if_splits)
    next
      case False
      then have b: "h b = Some m" using that by (auto split: if_splits)
      show ?thesis by (rule node_ok_mono [OF nodes_invD [OF assms(1) b]]) (use b assms(3) in auto)
    qed
    show "high_key m \<le> ?low c \<or> high_key m' \<le> ?low b"
      if "?h b = Some m" "?h c = Some m'" "b \<noteq> c" "?lvl b = ?lvl c" for b c m m'
    proof -
      consider "b \<in> {a, new}" | "c \<in> {a, new}" | "b \<notin> {a, new}" "c \<notin> {a, new}" by blast
      then show ?thesis
      proof cases
        case 1
        then show ?thesis using other [OF that] by simp
      next
        case 2
        then show ?thesis using other [OF that(2,1)] that(3,4) by auto
      next
        case 3
        then show ?thesis using that disj [of b m c m'] by (auto split: if_splits)
      qed
    qed
  qed
qed

lemma sorted_append_bounds:
  fixes xs ys :: "u64 list"
  assumes "sorted_wrt (<) (xs @ ys)" "ys \<noteq> []" "x \<in> set xs"
  shows "x < hd ys"
  using assms by (cases ys) (auto simp: sorted_wrt_append)

lemma sorted_hd_le:
  fixes ys :: "u64 list"
  assumes "sorted_wrt (<) ys" "x \<in> set ys"
  shows "hd ys \<le> x"
  using assms by (cases ys) auto

lemma right_ok_mono:
  assumes "right_ok low lvl D a n" "new \<notin> D" "a \<in> D" "high_key r = high_key n" "right_sibling r = right_sibling n"
  shows "right_ok (low(new := up)) (lvl(new := lvl a)) (insert new D) new r"
  using assms unfolding right_ok_def by (cases "right_sibling n") auto

text \<open>The two halves of a split leaf.\<close>

lemma split_leaf_ok:
  assumes "nodes_inv cap low lvl h" "h a = Some n" "is_leaf n" "node_full cap n" "2 \<le> cap_items cap" "h new = None"
    "body_shape cap True b" "low a \<le> k" "k < high_key n" "k \<notin> set (keys_of n)"
  shows "\<exists>n' r up. split_leaf cap (new, b) a k v h = Some (h(a \<mapsto> n', new \<mapsto> r), new, up) \<and>
    nodes_inv cap (low(new := up)) (lvl(new := lvl a)) (h(a \<mapsto> n', new \<mapsto> r)) \<and>
    node_contents n' \<union> node_contents r = node_contents n \<union> {(k, v)} \<and> children_of n' = [] \<and> children_of r = [] \<and>
    parent n' = parent n \<and> parent r = parent n \<and> low a < up"
proof -
  let ?D = "dom h" and ?low = "\<lambda>up. low(new := up)" and ?lvl = "lvl(new := lvl a)"
  have ok: "node_ok cap low lvl ?D a n" by (rule nodes_invD [OF assms(1,2)])
  then have shape: "node_shape cap n" and sorted: "sorted_wrt (<) (keys_of n)" by (simp_all add: node_ok_def)
  from split_leaf_eq [where h = h, OF assms(2) shape assms(3-5,7) sorted assms(10), of new v]
  obtain n' r up where s: "split_leaf cap (new, b) a k v h = Some (h(a \<mapsto> n', new \<mapsto> r), new, up)"
    "node_shape cap n'" "node_shape cap r" "is_leaf n'" "is_leaf r" "\<not> is_branch r"
    "entries_of n' @ entries_of r = insert_at (lower_bound (keys_of n) k) (k, v) (entries_of n)"
    "keys_of n' \<noteq> []" "keys_of r \<noteq> []" "up = hd (keys_of r)" "is_branch n' = is_branch n" "high_key n' = up"
    "right_sibling n' = Some new" "parent n' = parent n" "high_key r = high_key n" "right_sibling r = right_sibling n"
    "parent r = parent n"
    by (elim exE conjE) (rule that; assumption)
  define qs where "qs = keys_of n' @ keys_of r"
  have "qs = map fst (entries_of n' @ entries_of r)" using entries_keys(1) [OF s(2,4)] entries_keys(1) [OF s(3,5)] by (simp add: qs_def)
  then have qs: "qs = insert_at (lower_bound (keys_of n) k) k (keys_of n)"
    unfolding s(7) map_insert_at entries_keys(1) [OF shape assms(3)] by simp
  have qsorted: "sorted_wrt (<) qs"
    unfolding qs insert_at_def by (rule sorted_insert_at_lower_bound [OF sorted assms(10)])
  have range: "low a \<le> x \<and> x < high_key n" if "x \<in> set qs" for x
    using that ok assms(8,9) by (auto simp: qs set_insert_at node_ok_def)
  have less: "x < up" if "x \<in> set (keys_of n')" for x
    using sorted_append_bounds [OF _ s(9) that] qsorted s(10) by (simp add: qs_def)
  have up: "up \<in> set (keys_of r)" using s(9,10) by simp
  have first: "hd (keys_of n') \<in> set (keys_of n')" using s(8) by simp
  then have "low a \<le> hd (keys_of n')" using range [of "hd (keys_of n')"] by (simp add: qs_def)
  then have lowup: "low a < up" using less [OF first] by (rule order.strict_trans1)
  have rsorted: "sorted_wrt (<) (keys_of n')" "sorted_wrt (<) (keys_of r)"
    using qsorted by (simp_all add: qs_def sorted_wrt_append)
  have an: "a \<noteq> new" "a \<in> ?D" "new \<notin> ?D" using assms(2,6) by auto
  have l0: "lvl a = 0" "\<not> is_branch n" using ok assms(3) by (auto simp: node_ok_def)
  have "node_ok cap (?low up) ?lvl (insert new ?D) a n'"
    unfolding node_ok_def using s an l0 lowup rsorted less range by (auto simp: right_ok_def qs_def)
  moreover have "node_ok cap (?low up) ?lvl (insert new ?D) new r"
    unfolding node_ok_def
    using s an l0 rsorted range [of up] up range sorted_hd_le [OF rsorted(2)] right_ok_mono [of low lvl ?D a n new r up] ok
    by (auto simp: qs_def node_ok_def)
  ultimately have "nodes_inv cap (?low up) ?lvl (h(a \<mapsto> n', new \<mapsto> r))"
    by (rule nodes_inv_split [OF assms(1,2,6) _ _ s(12,15)])
  moreover have "node_contents n' \<union> node_contents r = node_contents n \<union> {(k, v)}"
  proof -
    have "set (entries_of n') \<union> set (entries_of r) = insert (k, v) (set (entries_of n))"
      unfolding set_append [symmetric] s(7) set_insert_at by simp
    then show ?thesis using s(4,5) assms(3) by (simp add: node_contents_def)
  qed
  ultimately show ?thesis
    using s(1,14,17) lowup leaf_no_children [OF s(2,4)] leaf_no_children [OF s(3,5)] by (intro exI conjI; assumption?)
qed

text \<open>The two halves of a split inner node.\<close>

lemma points_mono:
  assumes "points low lvl D a k c" "new \<notin> D" "a \<in> D" "x \<in> {a, new}"
  shows "points (low(new := up)) (lvl(new := lvl a)) (insert new D) x k c"
  using assms unfolding points_def by auto

text \<open>The keys and the children of the two halves of an inner node with the entries \<open>qs\<close>.\<close>

lemma split_keys:
  assumes "node_shape cap n'" "\<not> is_leaf n'" "node_shape cap r" "\<not> is_leaf r" "pairs_of n' = take l qs"
    "(up, hd (children_of r)) = qs ! l" "pairs_of r = drop (Suc l) qs" "l < length qs"
  shows "map fst qs = keys_of n' @ up # keys_of r"
    and "sorted_wrt (<) (map fst qs) \<Longrightarrow> sorted_wrt (<) (keys_of n')" "sorted_wrt (<) (map fst qs) \<Longrightarrow> sorted_wrt (<) (keys_of r)"
    "\<And>x. sorted_wrt (<) (map fst qs) \<Longrightarrow> x \<in> set (keys_of n') \<Longrightarrow> x < up"
    "\<And>x. sorted_wrt (<) (map fst qs) \<Longrightarrow> x \<in> set (keys_of r) \<Longrightarrow> up < x"
proof -
  have cut: "qs = take l qs @ (up, hd (children_of r)) # drop (Suc l) qs" using id_take_nth_drop [OF assms(8)] assms(6) by simp
  have ks: "keys_of n' = map fst (take l qs)" "keys_of r = map fst (drop (Suc l) qs)"
    using entries_keys(2) [OF assms(1,2)] entries_keys(2) [OF assms(3,4)] assms(5,7) by simp_all
  show mapcut: "map fst qs = keys_of n' @ up # keys_of r" by (subst cut) (simp add: ks)
  show "sorted_wrt (<) (keys_of n')" "sorted_wrt (<) (keys_of r)" "\<And>x. x \<in> set (keys_of n') \<Longrightarrow> x < up"
    "\<And>x. x \<in> set (keys_of r) \<Longrightarrow> up < x" if "sorted_wrt (<) (map fst qs)"
    using that unfolding mapcut by (auto simp: sorted_wrt_append)
qed

lemma split_children:
  assumes "node_shape cap n" "\<not> is_leaf n" "node_shape cap n'" "\<not> is_leaf n'" "node_shape cap r" "\<not> is_leaf r"
    "pairs_of n' = take l qs" "hd (children_of n') = hd (children_of n)" "(up, hd (children_of r)) = qs ! l"
    "pairs_of r = drop (Suc l) qs" "l < length qs" "snd ` set qs = insert (Some sep) (snd ` set (pairs_of n))"
  shows "set (children_of n') \<union> set (children_of r) = insert (Some sep) (set (children_of n))"
proof -
  have cut: "qs = take l qs @ (up, hd (children_of r)) # drop (Suc l) qs" using id_take_nth_drop [OF assms(11)] assms(9) by simp
  have n: "set (children_of n) = insert (hd (children_of n)) (snd ` set (pairs_of n))"
    by (subst children_pairs [OF assms(1,2)]) simp
  have n': "set (children_of n') = insert (hd (children_of n)) (snd ` set (take l qs))"
    by (subst children_pairs [OF assms(3,4)]) (simp add: assms(7,8))
  have r: "set (children_of r) = insert (hd (children_of r)) (snd ` set (drop (Suc l) qs))"
    by (subst children_pairs [OF assms(5,6)]) (simp add: assms(10))
  have "snd ` set qs = insert (hd (children_of r)) (snd ` set (take l qs) \<union> snd ` set (drop (Suc l) qs))"
    by (subst cut) auto
  then have "insert (Some sep) (snd ` set (pairs_of n)) = insert (hd (children_of r)) (snd ` set (take l qs) \<union> snd ` set (drop (Suc l) qs))"
    by (simp only: assms(12))
  then show ?thesis unfolding n n' r by auto
qed

lemma split_inner_ok:
  assumes "nodes_inv cap low lvl h" "h a = Some n" "\<not> is_leaf n" "node_full cap n" "2 \<le> cap_keys cap" "h new = None"
    "body_shape cap False b" "low a < k" "k < high_key n" "k \<notin> set (keys_of n)"
    "points low lvl (dom h) a k (Some sep)" "h sep = Some sn"
  shows "\<exists>n' r up h1. split_inner cap (new, b) a k sep h =
      Some (reparent new (children_of r) (h1(a \<mapsto> n', new \<mapsto> r)), new, up) \<and>
    nodes_inv cap (low(new := up)) (lvl(new := lvl a)) (h(a \<mapsto> n', new \<mapsto> r)) \<and>
    \<not> is_leaf n' \<and> \<not> is_leaf r \<and>
    set (children_of n') \<union> set (children_of r) = insert (Some sep) (set (children_of n)) \<and>
    inner_ok (low(new := up)) (lvl(new := lvl a)) (insert new (dom h)) new r \<and>
    parent n' = parent n \<and> parent r = parent n \<and> low a < up \<and>
    (h1 = h \<or> h1 = h(sep \<mapsto> sn\<lparr>parent := Some a\<rparr>))"
proof -
  let ?D = "dom h" and ?low = "\<lambda>up. low(new := up)" and ?lvl = "lvl(new := lvl a)"
  have ok: "node_ok cap low lvl ?D a n" by (rule nodes_invD [OF assms(1,2)])
  then have shape: "node_shape cap n" and sorted: "sorted_wrt (<) (keys_of n)" and inner: "inner_ok low lvl ?D a n"
    using assms(3) by (simp_all add: node_ok_def)
  have setn: "set (children_of n) = insert (hd (children_of n)) (snd ` set (pairs_of n))"
    by (subst children_pairs [OF shape assms(3)]) simp
  have children: "\<forall>c \<in> set (children_of n). \<exists>x. c = Some x \<and> h x \<noteq> None"
    using inner unfolding setn inner_ok_def points_def by fastforce
  define l where "l = cap_keys cap div 2"
  define qs where "qs = insert_at (lower_bound (keys_of n) k) (k, Some sep) (pairs_of n)"
  from split_inner_eq [where h = h and sep = sep and sn = sn and new = new and a = a,
      OF assms(2) shape assms(3-5,7) sorted assms(10,12) children, folded l_def qs_def]
  obtain n' r up h1 where s: "split_inner cap (new, b) a k sep h =
      Some (reparent new (children_of r) (h1(a \<mapsto> n', new \<mapsto> r)), new, up)"
    "node_shape cap n'" "node_shape cap r" "\<not> is_leaf n'" "\<not> is_leaf r" "is_branch n' = is_branch n" "is_branch r = is_branch n"
    "parent n' = parent n" "parent r = parent n" "high_key n' = up" "high_key r = high_key n" "right_sibling n' = Some new"
    "right_sibling r = right_sibling n" "pairs_of n' = take l qs" "hd (children_of n') = hd (children_of n)"
    "(up, hd (children_of r)) = qs ! l" "pairs_of r = drop (Suc l) qs" "h1 = h \<or> h1 = h(sep \<mapsto> sn\<lparr>parent := Some a\<rparr>)"
    by (elim exE conjE) (rule that; assumption)
  have size: "length (pairs_of n) = cap_keys cap"
    using entries_keys(4) [OF shape assms(3)] shape assms(3,4) by (auto simp: node_full_def node_shape_def)
  have l: "l < length qs"
    using size assms(5) lower_bound_le [of "keys_of n" k] filled_lengths(1) [OF shape] entries_keys(4) [OF shape assms(3)]
    by (simp add: qs_def l_def)
  have keys: "map fst qs = insert_at (lower_bound (keys_of n) k) k (keys_of n)"
    unfolding qs_def map_insert_at entries_keys(2) [OF shape assms(3)] by simp
  have "sorted_wrt (<) (map fst qs)"
    unfolding keys insert_at_def by (rule sorted_insert_at_lower_bound [OF sorted assms(10)])
  note mapcut = split_keys(1) [OF s(2,4,3,5,14,16,17) l] and so = split_keys(2-) [OF s(2,4,3,5,14,16,17) l this]
  have "set (map fst qs) = insert k (set (keys_of n))" unfolding keys set_insert_at ..
  then have range: "low a < x \<and> x < high_key n" if "x \<in> set (keys_of n' @ up # keys_of r)" for x
    using that ok inner assms(8,9) unfolding mapcut [symmetric] by (auto simp: node_ok_def inner_ok_def)
  have an: "a \<noteq> new" "a \<in> ?D" "new \<notin> ?D" using assms(2,6) by auto
  have "points low lvl ?D a (fst q) (snd q)" if "q \<in> set qs" for q
    using that inner assms(11) by (auto simp: qs_def set_insert_at inner_ok_def)
  then have pt: "points (?low up) ?lvl (insert new ?D) x (fst q) (snd q)" if "q \<in> set qs" "x \<in> {a, new}" for q x
    using points_mono [OF _ an(3,2) that(2)] that(1) by blast
  have "points low lvl ?D a (low a) (hd (children_of n'))" using inner s(15) by (simp add: inner_ok_def)
  then have "inner_ok (?low up) ?lvl (insert new ?D) a n'"
    using points_mono [where k = "low a" and x = a and up = up, OF _ an(3,2)] pt [of _ a] range an s(14)
    by (auto simp: inner_ok_def dest: in_set_takeD)
  moreover have lv: "lvl a \<noteq> 0" "is_branch n \<longleftrightarrow> lvl a = 1" using ok assms(3) by (simp_all add: node_ok_def)
  moreover have rn: "\<forall>x \<in> set (keys_of n'). low a \<le> x \<and> x < up" "\<forall>x \<in> set (keys_of r). up \<le> x \<and> x < high_key n"
    using range so by (auto intro: less_imp_le)
  ultimately have "node_ok cap (?low up) ?lvl (insert new ?D) a n'"
    unfolding node_ok_def using s(2,4,6,10,12) an so(1) range [of up] by (simp add: right_ok_def)
  moreover have ri: "inner_ok (?low up) ?lvl (insert new ?D) new r"
  proof -
    have "(up, hd (children_of r)) \<in> set qs" unfolding s(16) using l by (rule nth_mem)
    then have "points (?low up) ?lvl (insert new ?D) new up (hd (children_of r))" using pt [of "(up, hd (children_of r))" new] by simp
    then show ?thesis using pt [of _ new] s(17) so(4) by (auto simp: inner_ok_def dest: in_set_dropD)
  qed
  then have "node_ok cap (?low up) ?lvl (insert new ?D) new r"
    unfolding node_ok_def using s(3,5,7,11,13) an so(2) lv rn(2) range [of up] right_ok_mono [of low lvl ?D a n new r up] ok
    by (simp add: node_ok_def)
  ultimately have "nodes_inv cap (?low up) ?lvl (h(a \<mapsto> n', new \<mapsto> r))"
    by (rule nodes_inv_split [OF assms(1,2,6) _ _ s(10,11)])
  moreover have "set (children_of n') \<union> set (children_of r) = insert (Some sep) (set (children_of n))"
    by (rule split_children [OF shape assms(3) s(2,4,3,5,14,15,16,17) l]) (simp add: qs_def set_insert_at)
  moreover have "low a < up" using range [of up] by simp
  ultimately show ?thesis using s(1,4,5,8,9,18) ri by blast
qed

subsection \<open>Parents\<close>

lemma parent_ok_mono:
  assumes "parent_ok low lvl D R a n" "D \<subseteq> D'" "R \<subseteq> R'" "a \<in> D" "new \<notin> D"
  shows "parent_ok (low(new := up)) (lvl(new := l)) D' R' a n"
  using assms unfolding parent_ok_def by (auto split: option.splits)

lemma parents_inv_split:
  assumes "parents_inv low lvl R h" "h a = Some n" "h new = None" "parent n' = parent n" "parent r = parent n" "low a \<le> up"
  shows "parents_inv (low(new := up)) (lvl(new := lvl a)) (if parent n = None then insert new R else R) (h(a \<mapsto> n', new \<mapsto> r))"
proof -
  let ?h = "h(a \<mapsto> n', new \<mapsto> r)" and ?R = "if parent n = None then insert new R else R"
  have dom: "dom ?h = insert new (dom h)" using assms(2) by auto
  have an: "a \<noteq> new" "a \<in> dom h" "new \<notin> dom h" using assms(2,3) by auto
  have okn: "parent_ok low lvl (dom h) R a n" using assms(1,2) by (simp add: parents_inv_def)
  have mono: "parent_ok (low(new := up)) (lvl(new := lvl a)) (insert new (dom h)) ?R b m" if "parent_ok low lvl (dom h) R b m" "b \<in> dom h" for b m
    by (rule parent_ok_mono [OF that(1) _ _ that(2) an(3)]) auto
  have "parent_ok (low(new := up)) (lvl(new := lvl a)) (insert new (dom h)) ?R a n'"
    using mono [OF okn an(2)] assms(4) by (simp add: parent_ok_def)
  moreover have "parent_ok (low(new := up)) (lvl(new := lvl a)) (insert new (dom h)) ?R new r"
    using okn assms(5,6) an by (cases "parent n") (auto simp: parent_ok_def)
  moreover have "parent_ok (low(new := up)) (lvl(new := lvl a)) (insert new (dom h)) ?R b m" if "h b = Some m" for b m
    by (rule mono) (use assms(1) that in \<open>auto simp: parents_inv_def\<close>)
  ultimately show ?thesis unfolding parents_inv_def dom by (auto split: if_splits)
qed

lemma parents_inv_set:
  assumes "parents_inv low lvl R h" "h x = Some m" "p \<in> dom h" "lvl p = Suc (lvl x)" "low p \<le> low x"
  shows "parents_inv low lvl R (h(x \<mapsto> m\<lparr>parent := Some p\<rparr>))"
proof -
  have "dom (h(x \<mapsto> m\<lparr>parent := Some p\<rparr>)) = dom h" using assms(2) by auto
  then show ?thesis using assms unfolding parents_inv_def by (simp add: parent_ok_def)
qed

lemma dom_reparent: "dom (reparent p cs h) = dom h"
  by (auto simp: reparent_def)

lemma parents_inv_reparent:
  assumes "parents_inv low lvl R h" "p \<in> dom h" "\<And>x. Some x \<in> set cs \<Longrightarrow> lvl p = Suc (lvl x) \<and> low p \<le> low x"
  shows "parents_inv low lvl R (reparent p cs h)"
  unfolding parents_inv_def dom_reparent
proof (intro allI impI)
  fix a n assume "reparent p cs h a = Some n"
  then obtain m where m: "h a = Some m" "n = (if Some a \<in> set cs then m\<lparr>parent := Some p\<rparr> else m)"
    by (auto simp: reparent_def)
  then show "parent_ok low lvl (dom h) R a n"
    using assms by (cases "Some a \<in> set cs") (auto simp: parents_inv_def parent_ok_def)
qed

text \<open>Changing parents only does not change anything else.\<close>

lemma reparent_props:
  assumes "nodes_inv cap low lvl h"
  shows "nodes_inv cap low lvl (reparent p cs h)" "contents (reparent p cs h) = contents h" "node_links (reparent p cs h) = node_links h"
proof -
  define f where "f a m = (if Some a \<in> set cs then m\<lparr>parent := Some p\<rparr> else m)" for a and m :: "'a node"
  have ex: "reparent p cs h a = Some n \<longleftrightarrow> (\<exists>m. h a = Some m \<and> n = f a m)" for a n
    by (auto simp: reparent_def f_def)
  have same: "node_ok cap low lvl D a (f a m) = node_ok cap low lvl D a m" "high_key (f a m) = high_key m"
    "node_contents (f a m) = node_contents m" "children_of (f a m) = children_of m" for D a m
    by (simp_all add: f_def node_contents_def)
  have "(\<exists>a n. (\<exists>m. h a = Some m \<and> n = f a m) \<and> e \<in> node_contents n) \<longleftrightarrow> (\<exists>a n. h a = Some n \<and> e \<in> node_contents n)" for e
    using same(3) by blast
  then show "contents (reparent p cs h) = contents h" by (simp add: contents_def ex)
  have "(\<exists>a n. (\<exists>m. h a = Some m \<and> n = f a m) \<and> e \<in> set (children_of n)) \<longleftrightarrow>
      (\<exists>a n. h a = Some n \<and> e \<in> set (children_of n))" for e
    using arg_cong [of _ _ set, OF same(4)] by blast
  then show "node_links (reparent p cs h) = node_links h" by (simp add: node_links_def ex)
  show "nodes_inv cap low lvl (reparent p cs h)"
    using assms unfolding nodes_inv_def dom_reparent by (auto simp: ex same) blast
qed

lemma set_parent_props:
  assumes "h x = Some m"
  shows "nodes_inv cap low lvl h \<Longrightarrow> nodes_inv cap low lvl (h(x \<mapsto> m\<lparr>parent := q\<rparr>))"
    "contents (h(x \<mapsto> m\<lparr>parent := q\<rparr>)) = contents h" "node_links (h(x \<mapsto> m\<lparr>parent := q\<rparr>)) \<subseteq> node_links h"
proof -
  show "nodes_inv cap low lvl (h(x \<mapsto> m\<lparr>parent := q\<rparr>))" if "nodes_inv cap low lvl h"
    using nodes_inv_update [OF that assms, of "m\<lparr>parent := q\<rparr>"] nodes_invD [OF that assms] by simp
  show "contents (h(x \<mapsto> m\<lparr>parent := q\<rparr>)) = contents h"
    using contents_update [of h x m "m\<lparr>parent := q\<rparr>" "{}", OF assms] by (simp add: node_contents_def)
  show "node_links (h(x \<mapsto> m\<lparr>parent := q\<rparr>)) \<subseteq> node_links h"
    using links_update [of h x "m\<lparr>parent := q\<rparr>"] assms by (auto simp: node_links_def)
qed

subsection \<open>A new root\<close>

lemma nodes_inv_new:
  assumes "nodes_inv cap low lvl h" "h b = None" "node_ok cap (low(b := k)) (lvl(b := l)) (insert b (dom h)) b r"
    "\<And>x. x \<in> dom h \<Longrightarrow> lvl x < l"
  shows "nodes_inv cap (low(b := k)) (lvl(b := l)) (h(b \<mapsto> r))"
proof -
  have dom: "dom (h(b \<mapsto> r)) = insert b (dom h)" by auto
  have new: "b \<notin> dom h" using assms(2) by auto
  show ?thesis
    unfolding nodes_inv_def dom
  proof (intro conjI allI impI)
    show "finite (insert b (dom h))" using assms(1) by (simp add: nodes_inv_def)
    show "node_ok cap (low(b := k)) (lvl(b := l)) (insert b (dom h)) a n" if "(h(b \<mapsto> r)) a = Some n" for a n
    proof (cases "a = b")
      case True
      then show ?thesis using that assms(3) by simp
    next
      case False
      then have "h a = Some n" using that by simp
      then show ?thesis using new False by (intro node_ok_mono [OF nodes_invD [OF assms(1)]]) auto
    qed
    show "high_key n \<le> (low(b := k)) d \<or> high_key m \<le> (low(b := k)) a"
      if "(h(b \<mapsto> r)) a = Some n" "(h(b \<mapsto> r)) d = Some m" "a \<noteq> d" "(lvl(b := l)) a = (lvl(b := l)) d" for a d n m
    proof -
      have "lvl x < l" if "h x = Some y" for x y using assms(4) that by blast
      then have "a \<noteq> b" "d \<noteq> b" using that by (auto split: if_splits)
      then show ?thesis using that assms(1) by (simp add: nodes_inv_def)
    qed
  qed
qed

lemma contents_new_inner:
  assumes "h b = None" "\<not> is_leaf r"
  shows "contents (h(b \<mapsto> r)) = contents h"
proof (rule set_eqI)
  fix e
  have "e \<notin> node_contents r" using assms(2) by (simp add: node_contents_def)
  then show "e \<in> contents (h(b \<mapsto> r)) \<longleftrightarrow> e \<in> contents h"
    unfolding contents_def mem_Collect_eq ex_node_update using assms(1) by (metis option.distinct(1))
qed

text \<open>Below a new root the two nodes have it as their parent, all others keep theirs.\<close>

lemma new_root_parents:
  assumes "parents_inv low lvl {new, root} h" "h root = Some ln" "h new = Some rn" "b \<noteq> root" "b \<noteq> new" "b \<notin> dom h"
    "lvl new = lvl root" "parent r = None"
  shows "parents_inv (low(b := 0)) (lvl(b := Suc (lvl root))) {b}
    (h(root \<mapsto> ln\<lparr>parent := Some b\<rparr>, new \<mapsto> rn\<lparr>parent := Some b\<rparr>, b \<mapsto> r))"
  unfolding parents_inv_def
proof (intro allI impI)
  let ?h = "h(root \<mapsto> ln\<lparr>parent := Some b\<rparr>, new \<mapsto> rn\<lparr>parent := Some b\<rparr>, b \<mapsto> r)"
  fix x k assume x: "?h x = Some k"
  have d: "dom ?h = insert b (dom h)" using assms(2,3) by auto
  consider "x = b" | "x \<noteq> b" "x \<in> {root, new}" | "x \<noteq> b" "x \<notin> {root, new}" by blast
  then show "parent_ok (low(b := 0)) (lvl(b := Suc (lvl root))) (dom ?h) {b} x k"
  proof cases
    case 1
    then show ?thesis using x assms(8) by (simp add: parent_ok_def)
  next
    case 2
    then have "parent k = Some b" using x by (auto split: if_splits)
    then show ?thesis using 2 assms(7) by (auto simp: parent_ok_def d)
  next
    case 3
    then have "h x = Some k" using x by simp
    then have "parent_ok low lvl (dom h) {new, root} x k" "x \<in> dom h" using assms(1) by (auto simp: parents_inv_def)
    then show ?thesis using 3 assms(6) unfolding d by (auto simp: parent_ok_def split: option.splits)
  qed
qed

lemma grow_root:
  assumes "nodes_inv cap low lvl h" "parents_inv low lvl {new, root} h" "bt_nodes t = h" "root \<in> dom h" "new \<in> dom h"
    "root \<noteq> new" "low root = 0" "\<And>x. x \<in> dom h \<Longrightarrow> lvl x \<le> lvl root" "lvl new = lvl root" "low new = up"
    "bt_height t = of_nat (Suc (lvl root))" "h b = None" "body_shape cap False m" "1 \<le> cap_keys cap"
  shows "\<exists>t' usage. create_new_root root new up (b, m) t = Some (t', usage) \<and>
    tree_inv cap (low(b := 0)) (lvl(b := Suc (lvl root))) t' \<and> contents (bt_nodes t') = contents h \<and>
    node_links (bt_nodes t') \<subseteq> node_links h \<union> {root, new} \<and> dom (bt_nodes t') = insert b (dom h)"
proof -
  obtain ln rn where n: "h root = Some ln" "h new = Some rn" using assms(4,5) by blast
  have b: "b \<noteq> root" "b \<noteq> new" "b \<notin> dom h" using n assms(12) by auto
  from create_new_root_eq [of t root ln new rn "(b, m)" cap up, unfolded assms(3) fst_conv snd_conv,
      OF n b(1,2) assms(13,14,6)]
  obtain r usage where r: "create_new_root root new up (b, m) t =
      Some (t\<lparr>bt_height := bt_height t + 1, bt_root := b,
        bt_nodes := h(root \<mapsto> ln\<lparr>parent := Some b\<rparr>, new \<mapsto> rn\<lparr>parent := Some b\<rparr>, b \<mapsto> r)\<rparr>, usage)"
    "node_shape cap r" "\<not> is_leaf r" "is_branch r = is_leaf ln" "parent r = None" "high_key r = - 1"
    "right_sibling r = None" "keys_of r = [up]" "children_of r = [Some root, Some new]"
    by (elim exE conjE) (rule that; assumption)
  let ?low = "low(b := 0)" and ?lvl = "lvl(b := Suc (lvl root))"
  define h2 where "h2 = h(root \<mapsto> ln\<lparr>parent := Some b\<rparr>, new \<mapsto> rn\<lparr>parent := Some b\<rparr>)"
  have h2: "nodes_inv cap low lvl h2" "contents h2 = contents h" "node_links h2 \<subseteq> node_links h"
  proof -
    note p1 = set_parent_props [where h = h, OF n(1)]
    have n2: "(h(root \<mapsto> ln\<lparr>parent := Some b\<rparr>)) new = Some rn" using n(2) assms(6) by simp
    note p2 = set_parent_props [where h = "h(root \<mapsto> ln\<lparr>parent := Some b\<rparr>)", OF n2]
    show "nodes_inv cap low lvl h2" unfolding h2_def by (rule p2(1) [OF p1(1) [OF assms(1)]])
    show "contents h2 = contents h" unfolding h2_def p2(2) p1(2) ..
    show "node_links h2 \<subseteq> node_links h" unfolding h2_def by (rule order_trans [OF p2(3) p1(3)])
  qed
  have dom: "dom h2 = dom h" using assms(4,5) by (auto simp: h2_def)
  have okl: "node_ok cap low lvl (dom h) root ln" and okr: "node_ok cap low lvl (dom h) new rn"
    using nodes_invD [OF assms(1)] n by simp_all
  have up: "0 < up" "up < - 1"
  proof -
    have "up \<noteq> 0" using same_low [OF assms(1,4,5)] assms(6,7,9,10) by auto
    then show "0 < up" by (simp add: word_neq_0_conv)
    show "up < - 1" using high_key_bound [OF okr] assms(10) by simp
  qed
  have pairs: "pairs_of r = [(up, Some new)]" using r(8,9) by (simp add: pairs_of_def)
  have "node_ok cap ?low ?lvl (insert b (dom h2)) b r"
    unfolding node_ok_def inner_ok_def right_ok_def points_def
    using r up pairs b assms(4,5,7,9,10) okl by (simp add: dom node_ok_def)
  then have "nodes_inv cap ?low ?lvl (h2(b \<mapsto> r))"
  proof (rule nodes_inv_new [OF h2(1), rotated 1])
    show "h2 b = None" using assms(12) b by (simp add: h2_def)
    show "lvl x < Suc (lvl root)" if "x \<in> dom h2" for x using assms(8) [of x] that by (simp add: dom)
  qed
  moreover have "parents_inv ?low ?lvl {b} (h2(b \<mapsto> r))"
    unfolding h2_def by (rule new_root_parents [OF assms(2) n b assms(9) r(5)])
  moreover have "contents (h2(b \<mapsto> r)) = contents h"
    using contents_new_inner [of h2 b r] r(3) h2(2) b assms(12) by (simp add: h2_def)
  moreover have "node_links (h2(b \<mapsto> r)) \<subseteq> node_links h \<union> {root, new}"
    using links_update [of h2 b r] h2(3) r(9) by auto
  moreover have "dom (h2(b \<mapsto> r)) = insert b (dom h)" using dom by auto
  moreover have "bt_height t + 1 = of_nat (Suc (Suc (lvl root)))" using assms(11) by simp
  moreover have "?lvl x \<le> ?lvl b" if "x \<in> insert b (dom h)" for x
    using that assms(8) [of x] b by (cases "x = b") simp_all
  ultimately show ?thesis
    using r(1) unfolding h2_def [symmetric] tree_inv_def
    by (intro exI [of _ "t\<lparr>bt_height := bt_height t + 1, bt_root := b, bt_nodes := h2(b \<mapsto> r)\<rparr>"] exI [of _ usage]) simp
qed

end
