(* ===== verification/BLinkTasks.thy ===== *)
theory BLinkTasks
  imports BLinkInv Tasks
begin

section \<open>The tasks of the B-link tree\<close>

text \<open>
  The tasks that work on the tree (insert_value_task.h, insert_separator_task.h, lookup_task.h,
  update_task.h), one execution per node: a task either moves on to another node (it is spawned
  again with that node as its resource), hands over to a new task, or is removed and reports to
  the listener. An execution is one atomic step on its node: that is what the synchronization
  primitives of the node's resource give (theory WorkerModel). The listener's calls are events;
  the argument \<open>zero\<close> is the value 0U that an InsertSeparatorTask reports.

  The lemmas show for every execution that it does not fail, what it does to the entries of the
  tree, and that the tree keeps its invariant whatever other tasks are pending. The properties
  are about all interleavings of the executions of any number of insert tasks.
\<close>

subsection \<open>Tasks\<close>

datatype 'v op = InsertValue 'v | InsertSeparator addr | Lookup 'v | Update 'v

record 'v btask =
  b_op :: "'v op"
  b_key :: u64
  b_annotated :: "addr option"
  b_readonly :: bool

datatype 'v event = Inserted u64 'v | Updated u64 'v | Found u64 'v | Missing u64

datatype 'v outcome = Again "'v btask" | Handover "'v btask" | Done "'v event"

definition insert_value_task :: "u64 \<Rightarrow> 'v \<Rightarrow> addr \<Rightarrow> bool \<Rightarrow> 'v btask" where
  "insert_value_task key v a ro = \<lparr>b_op = InsertValue v, b_key = key, b_annotated = Some a, b_readonly = ro\<rparr>"

definition insert_separator_task :: "u64 \<Rightarrow> addr \<Rightarrow> addr option \<Rightarrow> 'v btask" where
  "insert_separator_task key sep a = \<lparr>b_op = InsertSeparator sep, b_key = key, b_annotated = a, b_readonly = False\<rparr>"

text \<open>
  The part all tasks that search the leaf of their key have in common: follow the right sibling
  when the node ends before the key, otherwise take the child of an inner node. Inserting and
  updating tasks decide by the type of the node whether the next node is only read.
\<close>

definition navigate :: "bool \<Rightarrow> 'v btask \<Rightarrow> 'v node \<Rightarrow> 'v btask option option" where
  "navigate writer task n =
     (if high_key n \<le> b_key task then Some (Some (task\<lparr>b_annotated := right_sibling n\<rparr>))
      else if is_inner n then do {
        c \<leftarrow> node_child n (b_key task);
        Some (Some (task\<lparr>b_annotated := c, b_readonly := (if writer then \<not> is_branch n else b_readonly task)\<rparr>))
      }
      else Some None)"

definition insert_into_leaf :: "capacity \<Rightarrow> 'v block \<Rightarrow> 'v block \<Rightarrow> addr \<Rightarrow> u64 \<Rightarrow> 'v \<Rightarrow> 'v tree \<Rightarrow> ('v tree \<times> 'v outcome) option" where
  "insert_into_leaf cap blk blk2 a key v t = do {
     n \<leftarrow> bt_nodes t a;
     (let index = node_index n key in do {
        hit \<leftarrow> (if index < node_size n then map_option (\<lambda>k. k = key) (node_leaf_key n index) else Some False);
        if hit then Some (t, Done (Inserted key v))
        else if \<not> node_full cap n then do {
          n' \<leftarrow> node_insert_value n index v key;
          Some (t\<lparr>bt_nodes := (bt_nodes t)(a \<mapsto> n')\<rparr>, Done (Inserted key v))
        }
        else do {
          (h, right, up) \<leftarrow> split_leaf cap blk a key v (bt_nodes t);
          n' \<leftarrow> h a;
          (case parent n' of
             Some p \<Rightarrow> Some (t\<lparr>bt_nodes := h\<rparr>, Handover (insert_separator_task up right (Some p)))
           | None \<Rightarrow> do {
               (t', usage) \<leftarrow> create_new_root a right up blk2 (t\<lparr>bt_nodes := h\<rparr>);
               Some (t', Done (Inserted key v))
             })
        }
      })
   }"

definition insert_value_execute :: "capacity \<Rightarrow> 'v block \<Rightarrow> 'v block \<Rightarrow> 'v \<Rightarrow> 'v btask \<Rightarrow> 'v tree \<Rightarrow> ('v tree \<times> 'v outcome) option" where
  "insert_value_execute cap blk blk2 v task t = do {
     a \<leftarrow> b_annotated task;
     n \<leftarrow> bt_nodes t a;
     next \<leftarrow> navigate True task n;
     (case next of
        Some task' \<Rightarrow> Some (t, Again task')
      | None \<Rightarrow>
          if is_leaf n \<and> b_readonly task then Some (t, Again (task\<lparr>b_readonly := False\<rparr>))
          else insert_into_leaf cap blk blk2 a (b_key task) v t)
   }"

definition insert_separator_execute :: "capacity \<Rightarrow> 'v block \<Rightarrow> 'v block \<Rightarrow> 'v \<Rightarrow> addr \<Rightarrow> 'v btask \<Rightarrow> 'v tree \<Rightarrow> ('v tree \<times> 'v outcome) option" where
  "insert_separator_execute cap blk blk2 zero sep task t = do {
     a \<leftarrow> b_annotated task;
     n \<leftarrow> bt_nodes t a;
     if high_key n \<le> b_key task then Some (t, Again (task\<lparr>b_annotated := right_sibling n\<rparr>))
     else if \<not> node_full cap n then do {
       n' \<leftarrow> node_insert_separator n (node_index n (b_key task)) (Some sep) (b_key task);
       h \<leftarrow> set_parent a sep ((bt_nodes t)(a \<mapsto> n'));
       Some (t\<lparr>bt_nodes := h\<rparr>, Done (Inserted (b_key task) zero))
     }
     else do {
       (h, right, up) \<leftarrow> split_inner cap blk a (b_key task) sep (bt_nodes t);
       n' \<leftarrow> h a;
       (case parent n' of
          Some p \<Rightarrow> Some (t\<lparr>bt_nodes := h\<rparr>, Again (task\<lparr>b_op := InsertSeparator right, b_key := up, b_annotated := Some p\<rparr>))
        | None \<Rightarrow> do {
            (t', usage) \<leftarrow> create_new_root a right up blk2 (t\<lparr>bt_nodes := h\<rparr>);
            Some (t', Done (Inserted (b_key task) zero))
          })
     }
   }"

text \<open>A lookup keeps the value it was created with (uninitialized memory) when the key is missing.\<close>

definition lookup_execute :: "'v \<Rightarrow> 'v btask \<Rightarrow> 'v tree \<Rightarrow> ('v tree \<times> 'v outcome) option" where
  "lookup_execute old task t = do {
     a \<leftarrow> b_annotated task;
     n \<leftarrow> bt_nodes t a;
     next \<leftarrow> navigate False task n;
     (case next of
        Some task' \<Rightarrow> Some (t, Again task')
      | None \<Rightarrow> do {
          k \<leftarrow> node_leaf_key n (node_index n (b_key task));
          v \<leftarrow> (if k = b_key task then node_value n (node_index n (b_key task)) else Some old);
          Some (t, Done (Found (b_key task) v))
        })
   }"

definition update_execute :: "'v \<Rightarrow> 'v btask \<Rightarrow> 'v tree \<Rightarrow> ('v tree \<times> 'v outcome) option" where
  "update_execute v task t = do {
     a \<leftarrow> b_annotated task;
     n \<leftarrow> bt_nodes t a;
     next \<leftarrow> navigate True task n;
     (case next of
        Some task' \<Rightarrow> Some (t, Again task')
      | None \<Rightarrow>
          if is_leaf n \<and> b_readonly task then Some (t, Again (task\<lparr>b_readonly := False\<rparr>))
          else (let index = node_index n (b_key task) in do {
            k \<leftarrow> node_leaf_key n index;
            if k = b_key task then do {
              n' \<leftarrow> node_set_value n index v;
              Some (t\<lparr>bt_nodes := (bt_nodes t)(a \<mapsto> n')\<rparr>, Done (Updated k v))
            }
            else Some (t, Done (Missing k))
          }))
   }"

fun task_execute :: "capacity \<Rightarrow> 'v block \<Rightarrow> 'v block \<Rightarrow> 'v \<Rightarrow> 'v btask \<Rightarrow> 'v tree \<Rightarrow> ('v tree \<times> 'v outcome) option" where
  "task_execute cap blk blk2 zero task t = (case b_op task of
     InsertValue v \<Rightarrow> insert_value_execute cap blk blk2 v task t
   | InsertSeparator sep \<Rightarrow> insert_separator_execute cap blk blk2 zero sep task t
   | Lookup old \<Rightarrow> lookup_execute old task t
   | Update v \<Rightarrow> update_execute v task t)"

subsection \<open>Moving towards the leaf\<close>

text \<open>A task is at a node that does not start behind its key.\<close>

definition placed :: "(addr \<Rightarrow> u64) \<Rightarrow> 'v heap \<Rightarrow> 'v btask \<Rightarrow> bool" where
  "placed low h task \<longleftrightarrow> b_key task < - 1 \<and> (\<exists>a. b_annotated task = Some a \<and> a \<in> dom h \<and> low a \<le> b_key task)"

definition distance :: "(addr \<Rightarrow> u64) \<Rightarrow> (addr \<Rightarrow> nat) \<Rightarrow> 'v heap \<Rightarrow> addr \<Rightarrow> nat \<times> nat" where
  "distance low lvl h a = (lvl a, card {b \<in> dom h. lvl b = lvl a \<and> low a < low b})"

definition closer :: "(addr \<Rightarrow> u64) \<Rightarrow> (addr \<Rightarrow> nat) \<Rightarrow> 'v heap \<Rightarrow> addr \<Rightarrow> addr \<Rightarrow> bool" where
  "closer low lvl h a' a \<longleftrightarrow> (distance low lvl h a', distance low lvl h a) \<in> less_than <*lex*> less_than"

lemma child_points:
  assumes "node_ok cap low lvl D a n" "\<not> is_leaf n" "low a \<le> k"
  shows "\<exists>b. node_child n k = Some (Some b) \<and> b \<in> D \<and> lvl a = Suc (lvl b) \<and> low b \<le> k"
proof -
  have shape: "node_shape cap n" and sorted: "sorted (keys_of n)" and inner: "inner_ok low lvl D a n"
    using assms(1,2) by (simp_all add: node_ok_def strict_sorted_iff)
  define u where "u = upper_bound (keys_of n) k"
  have u: "node_child n k = Some (children_of n ! u)" "u < length (children_of n)"
    using node_child_eq [OF shape assms(2) sorted, of k] by (simp_all add: u_def)
  have len: "length (keys_of n) = node_size n" "length (children_of n) = node_size n + 1" "length (pairs_of n) = node_size n"
    using filled_lengths(1,3) [OF shape] entries_keys(4) [OF shape] assms(2) by simp_all
  show ?thesis
  proof (cases u)
    case 0
    then have "children_of n ! u = hd (children_of n)" using u(2) by (simp add: hd_conv_nth)
    then show ?thesis using u(1) inner assms(3) by (auto simp: inner_ok_def points_def)
  next
    case (Suc j)
    then have j: "j < node_size n" using u(2) len by simp
    then have "pairs_of n ! j = (keys_of n ! j, children_of n ! u)"
      using len by (simp add: pairs_of_def nth_tl Suc)
    then have "(keys_of n ! j, children_of n ! u) \<in> set (pairs_of n)" using j len(3) nth_mem by metis
    moreover have "keys_of n ! j \<le> k" using upper_bound_below [of j "keys_of n" k] Suc u_def by simp
    ultimately show ?thesis using u(1) inner by (auto simp: inner_ok_def points_def)
  qed
qed

text \<open>A node further right on the same level is closer to the end of a search.\<close>

lemma right_is_closer:
  assumes "nodes_inv cap low lvl h" "b \<in> dom h" "lvl b = lvl a" "low a < low b"
  shows "closer low lvl h b a"
proof -
  let ?S = "\<lambda>c. {x \<in> dom h. lvl x = lvl c \<and> low c < low x}"
  have "b \<in> ?S a" "b \<notin> ?S b" "?S b \<subseteq> ?S a" using assms(2-4) by auto
  then have "?S b \<subset> ?S a" by blast
  then show ?thesis
    using psubset_card_mono [of "?S a" "?S b"] assms(1,3) by (simp add: closer_def distance_def nodes_inv_def)
qed

lemma navigate_cases:
  assumes "nodes_inv cap low lvl h" "placed low h task" "b_annotated task = Some a" "h a = Some n"
  shows "(navigate w task n = Some None \<and> is_leaf n \<and> low a \<le> b_key task \<and> b_key task < high_key n) \<or>
    (\<exists>task' a'. navigate w task n = Some (Some task') \<and> placed low h task' \<and> b_annotated task' = Some a' \<and>
       b_op task' = b_op task \<and> b_key task' = b_key task \<and> closer low lvl h a' a)"
proof -
  have ok: "node_ok cap low lvl (dom h) a n" by (rule nodes_invD [OF assms(1,4)])
  have key: "low a \<le> b_key task" "b_key task < - 1" using assms(2,3) by (auto simp: placed_def)
  have inner: "is_inner n \<longleftrightarrow> \<not> is_leaf n" using ok by (simp add: node_ok_def node_shape_def)
  consider "high_key n \<le> b_key task" | "b_key task < high_key n" "\<not> is_leaf n" | "b_key task < high_key n" "is_leaf n" by force
  then show ?thesis
  proof cases
    case 1
    then have "high_key n \<noteq> - 1" using key(2) by auto
    then obtain b where b: "right_sibling n = Some b" "b \<in> dom h" "lvl b = lvl a" "low b = high_key n"
      using ok by (cases "right_sibling n") (auto simp: node_ok_def right_ok_def)
    have "low a < low b" using ok b(4) by (simp add: node_ok_def)
    then have "closer low lvl h b a" by (rule right_is_closer [OF assms(1) b(2,3)])
    then show ?thesis
      using 1 b key by (intro disjI2 exI [of _ "task\<lparr>b_annotated := Some b\<rparr>"] exI [of _ b]) (simp add: navigate_def placed_def)
  next
    case 2
    obtain b where b: "node_child n (b_key task) = Some (Some b)" "b \<in> dom h" "lvl a = Suc (lvl b)" "low b \<le> b_key task"
      using child_points [OF ok 2(2) key(1)] by blast
    then have "closer low lvl h b a" by (simp add: closer_def distance_def)
    then show ?thesis
      using 2 b key inner
      by (intro disjI2 exI [of _ "task\<lparr>b_annotated := Some b, b_readonly := (if w then \<not> is_branch n else b_readonly task)\<rparr>"] exI [of _ b])
        (simp add: navigate_def placed_def not_le)
  next
    case 3
    then have "\<not> high_key n \<le> b_key task" by simp
    then show ?thesis using 3 key inner by (simp add: navigate_def)
  qed
qed

subsection \<open>Executions of one task\<close>

text \<open>
  Pending work: the separators that still have to be inserted are nodes of the tree that no inner
  node points to.
\<close>

fun task_ok :: "(addr \<Rightarrow> u64) \<Rightarrow> (addr \<Rightarrow> nat) \<Rightarrow> 'v heap \<Rightarrow> 'v btask \<Rightarrow> bool" where
  "task_ok low lvl h task \<longleftrightarrow> placed low h task \<and> (case b_op task of
     InsertSeparator s \<Rightarrow> s \<in> dom h \<and> low s = b_key task \<and> lvl (the (b_annotated task)) = Suc (lvl s) \<and> s \<notin> node_links h
   | _ \<Rightarrow> True)"

text \<open>
  What an execution may do to the tree: no node disappears, the ghost functions of the existing
  nodes stay, and no existing node gets a separator except the node of the executed task and the
  old root.
\<close>

definition extends :: "(addr \<Rightarrow> u64) \<Rightarrow> (addr \<Rightarrow> nat) \<Rightarrow> 'v tree \<Rightarrow> addr set \<Rightarrow> (addr \<Rightarrow> u64) \<Rightarrow> (addr \<Rightarrow> nat) \<Rightarrow> 'v tree \<Rightarrow> bool" where
  "extends low lvl t S low' lvl' t' \<longleftrightarrow> dom (bt_nodes t) \<subseteq> dom (bt_nodes t') \<and>
     (\<forall>x \<in> dom (bt_nodes t). low' x = low x \<and> lvl' x = lvl x) \<and>
     node_links (bt_nodes t') \<inter> dom (bt_nodes t) \<subseteq> node_links (bt_nodes t) \<union> S \<union> {bt_root t}"

lemma extends_refl: "extends low lvl t S low lvl t"
  by (auto simp: extends_def)

lemma task_ok_extends:
  assumes "task_ok low lvl (bt_nodes t) task" "extends low lvl t S low' lvl' t'" "tree_inv cap low lvl t"
    "\<And>s. b_op task = InsertSeparator s \<Longrightarrow> s \<notin> S"
  shows "task_ok low' lvl' (bt_nodes t') task"
proof -
  obtain a where a: "b_annotated task = Some a" "a \<in> dom (bt_nodes t)" "b_key task < - 1" "low a \<le> b_key task"
    using assms(1) by (auto simp: placed_def)
  have "placed low' (bt_nodes t') task" using a assms(2) by (auto simp: placed_def extends_def)
  moreover have "s \<in> dom (bt_nodes t') \<and> low' s = b_key task \<and> lvl' a = Suc (lvl' s) \<and> s \<notin> node_links (bt_nodes t')"
    if s: "b_op task = InsertSeparator s" for s
  proof -
    have t: "s \<in> dom (bt_nodes t)" "low s = b_key task" "lvl a = Suc (lvl s)" "s \<notin> node_links (bt_nodes t)"
      using assms(1) s a(1) by auto
    have "lvl a \<le> lvl (bt_root t)" by (rule tree_invD(5) [OF assms(3) a(2)])
    then have "s \<noteq> bt_root t" using t(3) by auto
    then have "s \<notin> node_links (bt_nodes t')" using assms(2) t(1,4) assms(4) [OF s] by (auto simp: extends_def)
    then show ?thesis using assms(2) a(2) t by (auto simp: extends_def)
  qed
  ultimately show ?thesis using a(1) by (cases "b_op task") auto
qed

text \<open>The memory the runtime hands out: new addresses, arrays of the right size.\<close>

definition fresh_blocks :: "capacity \<Rightarrow> bool \<Rightarrow> 'v heap \<Rightarrow> 'v block \<Rightarrow> 'v block \<Rightarrow> bool" where
  "fresh_blocks cap leaf h blk blk2 \<longleftrightarrow> h (fst blk) = None \<and> h (fst blk2) = None \<and> fst blk \<noteq> fst blk2 \<and>
     body_shape cap leaf (snd blk) \<and> body_shape cap False (snd blk2)"

text \<open>The state between a split and the creation of a new root.\<close>

lemma links_dom:
  assumes "nodes_inv cap low lvl h"
  shows "node_links h \<subseteq> dom h"
proof
  fix b assume "b \<in> node_links h"
  then obtain a n where n: "h a = Some n" "Some b \<in> set (children_of n)" by (auto simp: node_links_def)
  have ok: "node_ok cap low lvl (dom h) a n" by (rule nodes_invD [OF assms n(1)])
  show "b \<in> dom h"
  proof (cases "is_leaf n")
    case True
    then show ?thesis using n(2) leaf_no_children [of cap n] ok by (simp add: node_ok_def)
  next
    case False
    have "set (children_of n) = insert (hd (children_of n)) (snd ` set (pairs_of n))"
      by (subst children_pairs [of cap n]) (use ok False in \<open>simp_all add: node_ok_def\<close>)
    then show ?thesis using n(2) ok False by (fastforce simp: node_ok_def inner_ok_def points_def)
  qed
qed

lemma tree_inv_parent:
  assumes "tree_inv cap low lvl t" "bt_nodes t a = Some n"
  shows "parent n = None \<Longrightarrow> a = bt_root t"
    "parent n = Some p \<Longrightarrow> p \<in> dom (bt_nodes t) \<and> lvl p = Suc (lvl a) \<and> low p \<le> low a"
  using assms unfolding tree_inv_def parents_inv_def parent_ok_def by force+

lemma after_split:
  assumes "tree_inv cap low lvl t" "bt_nodes t a = Some n" "bt_nodes t new = None"
    "nodes_inv cap (low(new := up)) (lvl(new := lvl a)) h"
    "parents_inv (low(new := up)) (lvl(new := lvl a)) (if parent n = None then {new, bt_root t} else {bt_root t}) h"
    "dom h = insert new (dom (bt_nodes t))" "node_links h \<subseteq> node_links (bt_nodes t) \<union> S" "S \<subseteq> dom (bt_nodes t)" "low a < up"
  shows "parent n = Some p \<Longrightarrow> tree_inv cap (low(new := up)) (lvl(new := lvl a)) (t\<lparr>bt_nodes := h\<rparr>) \<and>
      extends low lvl t S (low(new := up)) (lvl(new := lvl a)) (t\<lparr>bt_nodes := h\<rparr>) \<and>
      placed (low(new := up)) h \<lparr>b_op = q, b_key = up, b_annotated = Some p, b_readonly = ro\<rparr> \<and>
      lvl p = Suc (lvl a) \<and> p \<noteq> new \<and> new \<notin> node_links h"
    "parent n = None \<Longrightarrow> h b = None \<Longrightarrow> body_shape cap False m \<Longrightarrow> 1 \<le> cap_keys cap \<Longrightarrow>
      \<exists>t' usage low' lvl'. create_new_root a new up (b, m) (t\<lparr>bt_nodes := h\<rparr>) = Some (t', usage) \<and>
        tree_inv cap low' lvl' t' \<and> extends low lvl t S low' lvl' t' \<and> contents (bt_nodes t') = contents h"
proof -
  let ?low = "low(new := up)" and ?lvl = "lvl(new := lvl a)" and ?D = "dom (bt_nodes t)"
  note inv = tree_invD [OF assms(1)]
  have new: "new \<notin> ?D" "a \<in> ?D" "a \<noteq> new" "bt_root t \<noteq> new" using assms(2,3) inv(3) by auto
  have top: "?lvl x \<le> ?lvl (bt_root t)" if "x \<in> dom h" for x
    using that inv(5) [of x] inv(5) [OF new(2)] new by (auto simp: assms(6))
  have unlinked: "new \<notin> node_links h" using assms(7,8) links_dom [OF inv(1)] new(1) by auto
  have up: "up < - 1"
  proof -
    obtain r where r: "h new = Some r" using assms(6) by auto
    show ?thesis using high_key_bound [OF nodes_invD [OF assms(4) r]] by simp
  qed
  {
    assume p: "parent n = Some p"
    note pp = tree_inv_parent(2) [OF assms(1,2) p]
    have "tree_inv cap ?low ?lvl (t\<lparr>bt_nodes := h\<rparr>)"
      using assms(4,5,6) p inv(3,4,6) top new by (simp add: tree_inv_def)
    moreover have "extends low lvl t S ?low ?lvl (t\<lparr>bt_nodes := h\<rparr>)"
      using assms(6,7) new by (auto simp: extends_def)
    moreover have "p \<noteq> new" using pp new by auto
    moreover have "placed ?low h \<lparr>b_op = q, b_key = up, b_annotated = Some p, b_readonly = ro\<rparr>"
      using pp assms(6,9) up \<open>p \<noteq> new\<close> by (auto simp: placed_def)
    ultimately show "tree_inv cap ?low ?lvl (t\<lparr>bt_nodes := h\<rparr>) \<and> extends low lvl t S ?low ?lvl (t\<lparr>bt_nodes := h\<rparr>) \<and>
      placed ?low h \<lparr>b_op = q, b_key = up, b_annotated = Some p, b_readonly = ro\<rparr> \<and> lvl p = Suc (lvl a) \<and> p \<noteq> new \<and> new \<notin> node_links h"
      using pp unlinked by blast
  next
    assume none: "parent n = None" and b: "h b = None" "body_shape cap False m" "1 \<le> cap_keys cap"
    have root: "a = bt_root t" by (rule tree_inv_parent(1) [OF assms(1,2) none])
    have "\<exists>t' usage. create_new_root a new up (b, m) (t\<lparr>bt_nodes := h\<rparr>) = Some (t', usage) \<and>
      tree_inv cap (?low(b := 0)) (?lvl(b := Suc (?lvl a))) t' \<and> contents (bt_nodes t') = contents h \<and>
      node_links (bt_nodes t') \<subseteq> node_links h \<union> {a, new} \<and> dom (bt_nodes t') = insert b (dom h)"
    proof (rule grow_root [OF assms(4)])
      show "parents_inv ?low ?lvl {new, a} h" using assms(5) none root by simp
      show "?lvl x \<le> ?lvl a" if "x \<in> dom h" for x using top [OF that] root by simp
      show "bt_height (t\<lparr>bt_nodes := h\<rparr>) = word_of_nat (Suc (?lvl a))" using inv(6) root new by simp
    qed (use root new inv(4) assms(6) b in auto)
    then obtain t' usage where t': "create_new_root a new up (b, m) (t\<lparr>bt_nodes := h\<rparr>) = Some (t', usage)"
      "tree_inv cap (?low(b := 0)) (?lvl(b := Suc (?lvl a))) t'" "contents (bt_nodes t') = contents h"
      "node_links (bt_nodes t') \<subseteq> node_links h \<union> {a, new}" "dom (bt_nodes t') = insert b (dom h)" by blast
    have "b \<notin> ?D" using b(1) assms(6) by (metis domIff insertI2)
    then have "extends low lvl t S (?low(b := 0)) (?lvl(b := Suc (?lvl a))) t'"
      using t'(4,5) assms(6,7) new root by (auto simp: extends_def)
    then show "\<exists>t' usage low' lvl'. create_new_root a new up (b, m) (t\<lparr>bt_nodes := h\<rparr>) = Some (t', usage) \<and>
        tree_inv cap low' lvl' t' \<and> extends low lvl t S low' lvl' t' \<and> contents (bt_nodes t') = contents h"
      using t'(1-3) by blast
  }
qed

lemma contents_split:
  assumes "h a = Some n" "h new = None" "node_contents n' \<union> node_contents r = node_contents n \<union> E"
  shows "contents (h(a \<mapsto> n', new \<mapsto> r)) = contents h \<union> E"
proof (rule set_eqI)
  fix e
  have an: "(h(a \<mapsto> n')) new = None" using assms(1,2) by auto
  have "e \<in> contents (h(a \<mapsto> n', new \<mapsto> r)) \<longleftrightarrow> e \<in> node_contents r \<or> (\<exists>b m. b \<noteq> new \<and> (h(a \<mapsto> n')) b = Some m \<and> e \<in> node_contents m)"
    unfolding contents_def mem_Collect_eq ex_node_update ..
  also have "\<dots> \<longleftrightarrow> e \<in> node_contents r \<or> (\<exists>b m. (h(a \<mapsto> n')) b = Some m \<and> e \<in> node_contents m)"
    using an by (metis option.distinct(1))
  also have "\<dots> \<longleftrightarrow> e \<in> contents h \<union> E"
    using assms(3) unfolding ex_node_update contents_def Un_iff mem_Collect_eq
      ex_node_split [of h a n "\<lambda>m. e \<in> node_contents m", OF assms(1)] by blast
  finally show "e \<in> contents (h(a \<mapsto> n', new \<mapsto> r)) \<longleftrightarrow> e \<in> contents h \<union> E" .
qed

lemma links_split:
  "node_links (h(a \<mapsto> n', new \<mapsto> r)) \<subseteq> node_links h \<union> {b. Some b \<in> set (children_of n') \<union> set (children_of r)}"
  using links_update [of "h(a \<mapsto> n')" new r] links_update [of h a n'] by blast

lemma leaf_hit:
  assumes "node_ok cap low lvl D a n" "is_leaf n"
  shows "(if node_index n k < node_size n then map_option (\<lambda>x. x = k) (node_leaf_key n (node_index n k)) else Some False) =
    Some (k \<in> set (keys_of n))"
proof -
  have shape: "node_shape cap n" and sorted: "sorted_wrt (<) (keys_of n)" using assms(1) by (simp_all add: node_ok_def)
  show ?thesis
    using lower_bound_hit [OF sorted, of k] filled_lengths(1) [OF shape] node_leaf_key_keys [OF shape assms(2)]
    by (cases "lower_bound (keys_of n) k < node_size n") (auto simp: node_index_keys)
qed

lemma contents_key:
  assumes "nodes_inv cap low lvl h" "h a = Some n" "is_leaf n" "low a \<le> k" "k < high_key n"
  shows "(\<exists>w. (k, w) \<in> contents h) \<longleftrightarrow> k \<in> set (keys_of n)"
proof -
  have "map fst (entries_of n) = keys_of n" using entries_keys(1) nodes_invD [OF assms(1,2)] assms(3) by (auto simp: node_ok_def)
  then have "fst ` set (entries_of n) = set (keys_of n)" by (metis list.set_map)
  then have "(\<exists>w. (k, w) \<in> set (entries_of n)) \<longleftrightarrow> k \<in> set (keys_of n)" by force
  then show ?thesis using contents_leaf [OF assms] by simp
qed

text \<open>The entries after the insertion of a key: an existing entry is kept.\<close>

definition inserted :: "u64 \<Rightarrow> 'v \<Rightarrow> (u64 \<times> 'v) set \<Rightarrow> (u64 \<times> 'v) set" where
  "inserted k v C = (if \<exists>w. (k, w) \<in> C then C else insert (k, v) C)"

text \<open>A full leaf is split; its parent gets the new leaf by another task, or the tree a new root.\<close>

lemma insert_splits_leaf:
  assumes "tree_inv cap low lvl t" "bt_nodes t a = Some n" "is_leaf n" "low a \<le> k" "k < high_key n"
    "fresh_blocks cap True (bt_nodes t) blk blk2" "2 \<le> cap_items cap" "1 \<le> cap_keys cap" "k \<notin> set (keys_of n)" "node_full cap n"
  shows "\<exists>t' out low' lvl'. insert_into_leaf cap blk blk2 a k v t = Some (t', out) \<and> tree_inv cap low' lvl' t' \<and>
    extends low lvl t {} low' lvl' t' \<and> contents (bt_nodes t') = inserted k v (contents (bt_nodes t)) \<and>
    (out = Done (Inserted k v) \<or> (\<exists>s up p. out = Handover (insert_separator_task up s (Some p)) \<and>
       s \<notin> dom (bt_nodes t) \<and> task_ok low' lvl' (bt_nodes t') (insert_separator_task up s (Some p) :: 'v btask)))"
proof -
  note inv = tree_invD [OF assms(1)]
  note hit = leaf_hit [OF inv(7) [OF assms(2)] assms(3), of k] and mem = contents_key [OF inv(1) assms(2-5)]
  obtain new b root m where blk: "blk = (new, b)" "blk2 = (root, m)" by (cases blk; cases blk2) auto
  have fresh: "bt_nodes t new = None" "bt_nodes t root = None" "new \<noteq> root" "body_shape cap True b" "body_shape cap False m"
    using assms(6) by (simp_all add: fresh_blocks_def blk)
  from split_leaf_ok [OF inv(1) assms(2,3,10,7) fresh(1,4) assms(4,5,9), of v]
  obtain n' r up where s: "split_leaf cap blk a k v (bt_nodes t) = Some ((bt_nodes t)(a \<mapsto> n', new \<mapsto> r), new, up)"
    "nodes_inv cap (low(new := up)) (lvl(new := lvl a)) ((bt_nodes t)(a \<mapsto> n', new \<mapsto> r))"
    "node_contents n' \<union> node_contents r = node_contents n \<union> {(k, v)}" "children_of n' = []" "children_of r = []"
    "parent n' = parent n" "parent r = parent n" "low a < up" unfolding blk by blast
  define h where "h = (bt_nodes t)(a \<mapsto> n', new \<mapsto> r)"
  have an: "a \<noteq> new" using assms(2) fresh(1) by auto
  have cont: "contents h = inserted k v (contents (bt_nodes t))"
    using contents_split [of "bt_nodes t" a n new, OF assms(2) fresh(1) s(3)] mem assms(9) by (simp add: h_def inserted_def)
  have par: "parents_inv (low(new := up)) (lvl(new := lvl a)) (if parent n = None then {new, bt_root t} else {bt_root t}) h"
    using parents_inv_split [where h = "bt_nodes t", OF inv(2) assms(2) fresh(1) s(6,7)] s(8) by (simp add: h_def)
  have dom: "dom h = insert new (dom (bt_nodes t))" using assms(2) by (auto simp: h_def)
  have link: "node_links h \<subseteq> node_links (bt_nodes t) \<union> {}" using links_split [of "bt_nodes t" a n' new r] s(4,5) by (simp add: h_def)
  note split = after_split [OF assms(1,2) fresh(1) s(2) [folded h_def] par dom link _ s(8)]
  show ?thesis
  proof (cases "parent n")
    case None
    have "h root = None" using fresh assms(2) by (auto simp: h_def)
    from split(2) [OF _ None this fresh(5) assms(8)] obtain t' usage low' lvl' where
      g: "create_new_root a new up blk2 (t\<lparr>bt_nodes := h\<rparr>) = Some (t', usage)" "tree_inv cap low' lvl' t'"
      "extends low lvl t {} low' lvl' t'" "contents (bt_nodes t') = contents h" unfolding blk by blast
    have "insert_into_leaf cap blk blk2 a k v t = Some (t', Done (Inserted k v))"
      using s(1,6) g(1) assms(9,10) None hit an assms(2) by (simp add: insert_into_leaf_def Let_def h_def)
    then show ?thesis using g(2-4) cont by (intro exI conjI; assumption?) auto
  next
    case (Some p)
    let ?task = "insert_separator_task up new (Some p) :: 'v btask"
    note g = split(1) [OF _ Some, of "InsertSeparator new" False, simplified]
    have "insert_into_leaf cap blk blk2 a k v t = Some (t\<lparr>bt_nodes := h\<rparr>, Handover ?task)"
      using s(1,6) assms(9,10) Some hit an assms(2) by (simp add: insert_into_leaf_def Let_def h_def)
    moreover have "task_ok (low(new := up)) (lvl(new := lvl a)) h ?task"
      using g dom by (simp add: insert_separator_task_def)
    ultimately show ?thesis
      using g cont fresh(1)
      by (intro exI [of _ "t\<lparr>bt_nodes := h\<rparr>"] exI [of _ "Handover ?task"] exI [of _ "low(new := up)"] exI [of _ "lvl(new := lvl a)"])
        (auto simp del: task_ok.simps)
  qed
qed

lemma insert_into_leaf_ok:
  assumes "tree_inv cap low lvl t" "bt_nodes t a = Some n" "is_leaf n" "low a \<le> k" "k < high_key n"
    "fresh_blocks cap True (bt_nodes t) blk blk2" "2 \<le> cap_items cap" "1 \<le> cap_keys cap"
  shows "\<exists>t' out low' lvl'. insert_into_leaf cap blk blk2 a k v t = Some (t', out) \<and> tree_inv cap low' lvl' t' \<and>
    extends low lvl t {} low' lvl' t' \<and> contents (bt_nodes t') = inserted k v (contents (bt_nodes t)) \<and>
    (out = Done (Inserted k v) \<or> (\<exists>s up p. out = Handover (insert_separator_task up s (Some p)) \<and>
       s \<notin> dom (bt_nodes t) \<and> task_ok low' lvl' (bt_nodes t') (insert_separator_task up s (Some p) :: 'v btask)))"
proof -
  note inv = tree_invD [OF assms(1)]
  have ok: "node_ok cap low lvl (dom (bt_nodes t)) a n" by (rule inv(7) [OF assms(2)])
  note hit = leaf_hit [OF ok assms(3), of k]
  have mem: "(\<exists>w. (k, w) \<in> contents (bt_nodes t)) \<longleftrightarrow> k \<in> set (keys_of n)" by (rule contents_key [OF inv(1) assms(2-5)])
  consider "k \<in> set (keys_of n)" | "k \<notin> set (keys_of n)" "\<not> node_full cap n" | "k \<notin> set (keys_of n)" "node_full cap n" by blast
  then show ?thesis
  proof cases
    case 1
    then show ?thesis
      using assms(1,2) hit mem
      by (intro exI [of _ t] exI [of _ "Done (Inserted k v)"] exI [of _ low] exI [of _ lvl])
        (simp add: insert_into_leaf_def Let_def extends_refl inserted_def)
  next
    case 2
    obtain n' where n': "node_insert_value n (node_index n k) v k = Some n'" "same_header n n'"
      "node_ok cap low lvl (dom (bt_nodes t)) a n'" "node_contents n' = node_contents n \<union> {(k, v)}"
      using leaf_insert_ok [OF ok assms(3) 2(2) assms(4,5) 2(1), of v] by blast
    have "children_of n' = []"
      using leaf_no_children n'(3) same_headerD(1) [OF n'(2)] assms(3) by (auto simp: node_ok_def)
    then have "extends low lvl t {} low lvl (t\<lparr>bt_nodes := (bt_nodes t)(a \<mapsto> n')\<rparr>)"
      using links_update [of "bt_nodes t" a n'] by (auto simp: extends_def)
    then show ?thesis
      using tree_inv_update [OF assms(1,2) n'(3,2)] contents_update [of "bt_nodes t" a n, OF assms(2) n'(4)] n'(1) 2 mem hit assms(2)
      by (intro exI [of _ "t\<lparr>bt_nodes := (bt_nodes t)(a \<mapsto> n')\<rparr>"] exI [of _ "Done (Inserted k v)"] exI [of _ low] exI [of _ lvl])
        (simp add: insert_into_leaf_def Let_def inserted_def)
  next
    case 3
    then show ?thesis using insert_splits_leaf [OF assms] by blast
  qed
qed

text \<open>The key of a pending separator is not in the node yet.\<close>

lemma separator_is_new:
  assumes "nodes_inv cap low lvl h" "h a = Some n" "\<not> is_leaf n" "s \<in> dom h" "lvl a = Suc (lvl s)" "s \<notin> node_links h" "low a \<le> low s"
  shows "low s \<notin> set (keys_of n)" "low a < low s"
proof -
  have ok: "node_ok cap low lvl (dom h) a n" by (rule nodes_invD [OF assms(1,2)])
  then have inner: "inner_ok low lvl (dom h) a n" and shape: "node_shape cap n" using assms(3) by (simp_all add: node_ok_def)
  have not: "\<not> points low lvl (dom h) a (low s) (Some b)" if "b \<in> node_links h" for b
  proof
    assume "points low lvl (dom h) a (low s) (Some b)"
    then have "b \<in> dom h" "lvl s = lvl b" "low s = low b" using assms(5) by (auto simp: points_def)
    then have "s = b" by (rule same_low [OF assms(1,4)])
    then show False using that assms(6) by simp
  qed
  show "low s \<notin> set (keys_of n)"
  proof
    assume "low s \<in> set (keys_of n)"
    moreover have "fst ` set (pairs_of n) = set (keys_of n)" using entries_keys(2) [OF shape assms(3)] by (metis list.set_map)
    ultimately obtain c where c: "(low s, c) \<in> set (pairs_of n)" by force
    then have p: "points low lvl (dom h) a (low s) c" using inner by (auto simp: inner_ok_def)
    then obtain b where "c = Some b" by (auto simp: points_def)
    then show False using p c not linked(1) [OF assms(1-3)] by blast
  qed
  have "low a \<noteq> low s"
  proof
    assume eq: "low a = low s"
    have p: "points low lvl (dom h) a (low s) (hd (children_of n))" using inner eq by (simp add: inner_ok_def)
    then obtain b where b: "hd (children_of n) = Some b" by (auto simp: points_def)
    then show False using p not linked(2) [OF assms(1-3)] by metis
  qed
  then show "low a < low s" using assms(7) by simp
qed

lemma children_linked: "h a = Some n \<Longrightarrow> {b. Some b \<in> set (children_of n)} \<subseteq> node_links h"
  by (auto simp: node_links_def)

text \<open>The heap after a split of an inner node, with all parents set.\<close>

text \<open>The children of an inner node are one level below it and not before it.\<close>

lemma children_below:
  assumes "node_shape cap r" "\<not> is_leaf r" "inner_ok low lvl D a r" "low a = up" "Some x \<in> set (children_of r)"
  shows "lvl a = Suc (lvl x) \<and> up \<le> low x"
proof -
  have "set (children_of r) = insert (hd (children_of r)) (snd ` set (pairs_of r))"
    by (subst children_pairs [OF assms(1,2)]) simp
  then consider "Some x = hd (children_of r)" | k where "(k, Some x) \<in> set (pairs_of r)" using assms(5) by force
  then show ?thesis
  proof cases
    case 1
    then show ?thesis using assms(3,4) by (auto simp: inner_ok_def points_def)
  next
    case 2
    then have "points low lvl D a k (Some x)" using assms(3) by (auto simp: inner_ok_def)
    moreover have "fst ` set (pairs_of r) = set (keys_of r)" using entries_keys(2) [OF assms(1,2)] by (metis list.set_map)
    then have "k \<in> set (keys_of r)" using 2 by force
    then have "up < k" using assms(3,4) by (auto simp: inner_ok_def)
    ultimately show ?thesis by (simp add: points_def)
  qed
qed

lemma split_inner_heap:
  assumes "tree_inv cap low lvl t" "bt_nodes t a = Some n" "\<not> is_leaf n" "node_full cap n" "2 \<le> cap_keys cap"
    "bt_nodes t new = None" "body_shape cap False b" "low a < low s" "low s < high_key n" "low s \<notin> set (keys_of n)"
    "s \<in> dom (bt_nodes t)" "lvl a = Suc (lvl s)"
  shows "\<exists>h up n'. split_inner cap (new, b) a (low s) s (bt_nodes t) = Some (h, new, up) \<and>
    nodes_inv cap (low(new := up)) (lvl(new := lvl a)) h \<and>
    parents_inv (low(new := up)) (lvl(new := lvl a)) (if parent n = None then {new, bt_root t} else {bt_root t}) h \<and>
    dom h = insert new (dom (bt_nodes t)) \<and> node_links h \<subseteq> node_links (bt_nodes t) \<union> {s} \<and> contents h = contents (bt_nodes t) \<and>
    low a < up \<and> h a = Some n' \<and> parent n' = parent n"
proof -
  let ?h = "bt_nodes t"
  note inv = tree_invD [OF assms(1)]
  obtain sn where sn: "?h s = Some sn" using assms(11) by blast
  have ne: "a \<noteq> new" "s \<noteq> new" "s \<noteq> a" using assms(2,6,12) sn by auto
  have "points low lvl (dom ?h) a (low s) (Some s)" using assms(11,12) by (simp add: points_def)
  from split_inner_ok [where h = ?h and sep = s and sn = sn, OF inv(1) assms(2-10) this sn]
  obtain n' r up h1 where s: "split_inner cap (new, b) a (low s) s ?h =
      Some (reparent new (children_of r) (h1(a \<mapsto> n', new \<mapsto> r)), new, up)"
    "nodes_inv cap (low(new := up)) (lvl(new := lvl a)) (?h(a \<mapsto> n', new \<mapsto> r))" "\<not> is_leaf n'" "\<not> is_leaf r"
    "set (children_of n') \<union> set (children_of r) = insert (Some s) (set (children_of n))"
    "inner_ok (low(new := up)) (lvl(new := lvl a)) (insert new (dom ?h)) new r" "parent n' = parent n" "parent r = parent n"
    "low a < up" "h1 = ?h \<or> h1 = ?h(s \<mapsto> sn\<lparr>parent := Some a\<rparr>)" by (elim exE conjE) (rule that; assumption)
  let ?low = "low(new := up)" and ?lvl = "lvl(new := lvl a)" and ?R = "if parent n = None then {new, bt_root t} else {bt_root t}"
  define h2 where "h2 = ?h(a \<mapsto> n', new \<mapsto> r)"
  define h3 where "h3 = h1(a \<mapsto> n', new \<mapsto> r)"
  have dom2: "dom h2 = insert new (dom ?h)" using assms(2) by (auto simp: h2_def)
  have c2: "contents h2 = contents ?h"
    using contents_split [of ?h a n new n' r "{}", OF assms(2,6)] s(3,4) assms(3) by (simp add: h2_def node_contents_def)
  have l2: "node_links h2 \<subseteq> node_links ?h \<union> {s}"
    using links_split [of ?h a n' new r] s(5) children_linked [of ?h a n, OF assms(2)] by (auto simp: h2_def)
  have p2: "parents_inv ?low ?lvl ?R h2"
    using parents_inv_split [where h = ?h, OF inv(2) assms(2,6) s(7,8)] s(9) by (simp add: h2_def)
  have s2: "h2 s = Some sn" using sn ne by (simp add: h2_def)
  have h3: "h3 = h2 \<or> h3 = h2(s \<mapsto> sn\<lparr>parent := Some a\<rparr>)"
    using s(10) ne by (auto simp: h2_def h3_def fun_upd_twist)
  note sp = set_parent_props [where h = h2 and q = "Some a", OF s2]
  have n3: "nodes_inv cap ?low ?lvl h3" using h3 sp(1) s(2) by (auto simp: h2_def [symmetric])
  have c3: "contents h3 = contents ?h" using h3 sp(2) c2 by auto
  have l3: "node_links h3 \<subseteq> node_links ?h \<union> {s}" using h3 sp(3) l2 by auto
  have "dom (h2(s \<mapsto> sn\<lparr>parent := Some a\<rparr>)) = dom h2" using s2 by (simp add: insert_absorb domI)
  then have dom3: "dom h3 = insert new (dom ?h)" using h3 dom2 by metis
  have "parents_inv ?low ?lvl ?R (h2(s \<mapsto> sn\<lparr>parent := Some a\<rparr>))"
    by (rule parents_inv_set [where h = h2, OF p2 s2]) (use assms(2,8,12) ne dom2 in auto)
  then have p3: "parents_inv ?low ?lvl ?R h3" using h3 p2 by auto
  have shape: "node_shape cap r" using nodes_invD [OF s(2), of new r] by (simp add: node_ok_def)
  have kids: "?lvl new = Suc (?lvl x) \<and> ?low new \<le> ?low x" if "Some x \<in> set (children_of r)" for x
    using children_below [OF shape s(4,6) _ that] by simp
  define h where "h = reparent new (children_of r) h3"
  have "Some a \<notin> set (children_of r)" using kids [of a] ne by auto
  moreover have "h3 a = Some n'" using ne by (simp add: h3_def)
  ultimately have "h a = Some n'" by (simp add: h_def reparent_def)
  moreover have "parents_inv ?low ?lvl ?R h"
    unfolding h_def by (rule parents_inv_reparent [OF p3]) (use dom3 kids in auto)
  moreover have "split_inner cap (new, b) a (low s) s ?h = Some (h, new, up)" using s(1) by (simp add: h_def h3_def)
  ultimately show ?thesis
    using reparent_props [OF n3, of new "children_of r"] c3 l3 dom3 s(7,9)
    unfolding h_def [symmetric] dom_reparent [of new "children_of r" h3, folded h_def, symmetric] by blast
qed

text \<open>What comes out of an execution, for the tree with its new ghost functions.\<close>

fun outcome_ok :: "(addr \<Rightarrow> u64) \<Rightarrow> (addr \<Rightarrow> nat) \<Rightarrow> 'v heap \<Rightarrow> 'v heap \<Rightarrow> 'v btask \<Rightarrow> 'v outcome \<Rightarrow> bool" where
  "outcome_ok low lvl h h' task (Again task') \<longleftrightarrow> task_ok low lvl h' task' \<and>
     (b_op task' = b_op task \<or> (\<exists>s. b_op task' = InsertSeparator s \<and> s \<notin> dom h))"
| "outcome_ok low lvl h h' task (Handover task') \<longleftrightarrow> task_ok low lvl h' task' \<and>
     (\<exists>s. b_op task' = InsertSeparator s \<and> s \<notin> dom h)"
| "outcome_ok low lvl h h' task (Done e) \<longleftrightarrow> True"

text \<open>
  A task that inserts the separator \<open>s\<close> and has reached node \<open>a\<close>, and what one of its executions has to give.
\<close>

definition separator_at :: "capacity \<Rightarrow> (addr \<Rightarrow> u64) \<Rightarrow> (addr \<Rightarrow> nat) \<Rightarrow> 'v tree \<Rightarrow> 'v btask \<Rightarrow> addr \<Rightarrow> addr \<Rightarrow> 'v node \<Rightarrow> bool" where
  "separator_at cap low lvl t task s a n \<longleftrightarrow> tree_inv cap low lvl t \<and> b_annotated task = Some a \<and> bt_nodes t a = Some n \<and>
     s \<in> dom (bt_nodes t) \<and> low s = b_key task \<and> lvl a = Suc (lvl s) \<and> \<not> is_leaf n \<and> low s \<notin> set (keys_of n) \<and> low a < low s"

definition separator_step :: "(addr \<Rightarrow> u64) \<Rightarrow> (addr \<Rightarrow> nat) \<Rightarrow> capacity \<Rightarrow> 'v tree \<Rightarrow> addr \<Rightarrow> 'v btask \<Rightarrow> ('v tree \<times> 'v outcome) option \<Rightarrow> bool" where
  "separator_step low lvl cap t s task result \<longleftrightarrow> (\<exists>t' out low' lvl'. result = Some (t', out) \<and> tree_inv cap low' lvl' t' \<and>
     extends low lvl t {s} low' lvl' t' \<and> contents (bt_nodes t') = contents (bt_nodes t) \<and>
     outcome_ok low' lvl' (bt_nodes t) (bt_nodes t') task out)"

lemma separator_atD:
  assumes "separator_at cap low lvl t task s a n"
  shows "tree_inv cap low lvl t" "b_annotated task = Some a" "bt_nodes t a = Some n" "s \<in> dom (bt_nodes t)" "low s = b_key task"
    "lvl a = Suc (lvl s)" "\<not> is_leaf n" "low s \<notin> set (keys_of n)" "low a < low s"
  using assms unfolding separator_at_def by blast+

lemma insert_separator_room:
  assumes at: "separator_at cap low lvl t task s a n" and room: "b_key task < high_key n" "\<not> node_full cap n"
  shows "separator_step low lvl cap t s task (insert_separator_execute cap blk blk2 zero s task t)"
proof -
  let ?h = "bt_nodes t"
  note inv = tree_invD [OF separator_atD(1) [OF at]] and at = separator_atD [OF at]
  have ok: "node_ok cap low lvl (dom ?h) a n" by (rule inv(7) [OF at(3)])
  have "points low lvl (dom ?h) a (low s) (Some s)" using at by (simp add: points_def)
  with room at obtain n' where n': "node_insert_separator n (node_index n (low s)) (Some s) (low s) = Some n'" "same_header n n'"
    "node_ok cap low lvl (dom ?h) a n'" "set (children_of n') = insert (Some s) (set (children_of n))"
    using inner_insert_ok [OF ok at(7) room(2), of "low s" s] by auto
  have ne: "s \<noteq> a" using at(6) by auto
  obtain sn where sn: "?h s = Some sn" using at(4) by blast
  define h where "h = ?h(a \<mapsto> n')"
  have t1: "tree_inv cap low lvl (t\<lparr>bt_nodes := h\<rparr>)" unfolding h_def by (rule tree_inv_update [OF at(1,3) n'(3,2)])
  have hs: "h s = Some sn" using sn ne by (simp add: h_def)
  have dom: "dom h = dom ?h" using at(3) by (auto simp: h_def)
  define h' where "h' = h(s \<mapsto> sn\<lparr>parent := Some a\<rparr>)"
  have dom': "dom h' = dom ?h" using hs dom unfolding h'_def by (metis domI dom_fun_upd insert_absorb option.distinct(1))
  have "nodes_inv cap low lvl h'" unfolding h'_def
    by (rule set_parent_props(1) [where h = h, OF hs]) (use tree_invD(1) [OF t1] in simp)
  moreover have "parents_inv low lvl {bt_root t} h'" unfolding h'_def
    by (rule parents_inv_set [where h = h, OF _ hs]) (use tree_invD(2) [OF t1] at dom in auto)
  ultimately have t2: "tree_inv cap low lvl (t\<lparr>bt_nodes := h'\<rparr>)" using inv(3-6) by (simp add: tree_inv_def dom')
  have "contents h' = contents ?h"
    using set_parent_props(2) [where h = h, OF hs] contents_update [of ?h a n n' "{}", OF at(3)] at(7) same_headerD(1) [OF n'(2)]
    by (simp add: h_def h'_def node_contents_def)
  moreover have "node_links h' \<subseteq> node_links ?h \<union> {s}"
    using set_parent_props(3) [where h = h and q = "Some a", OF hs] links_update [of ?h a n'] n'(4) children_linked [of ?h a n, OF at(3)]
    unfolding h'_def [symmetric] h_def [symmetric] by auto
  then have "extends low lvl t {s} low lvl (t\<lparr>bt_nodes := h'\<rparr>)" by (auto simp: extends_def dom')
  moreover have "insert_separator_execute cap blk blk2 zero s task t = Some (t\<lparr>bt_nodes := h'\<rparr>, Done (Inserted (b_key task) zero))"
    using room at n'(1) sn ne
    by (simp add: insert_separator_execute_def set_parent_def node_update_def h_def h'_def)
  ultimately show ?thesis using t2 unfolding separator_step_def
    by (intro exI [of _ "t\<lparr>bt_nodes := h'\<rparr>"] exI [of _ "Done (Inserted (b_key task) zero)"] exI [of _ low] exI [of _ lvl]) simp
qed

lemma insert_separator_full:
  assumes at: "separator_at cap low lvl t task s a n" and full: "b_key task < high_key n" "node_full cap n"
    and blocks: "fresh_blocks cap False (bt_nodes t) blk blk2" "2 \<le> cap_keys cap"
  shows "separator_step low lvl cap t s task (insert_separator_execute cap blk blk2 zero s task t)"
proof -
  let ?h = "bt_nodes t"
  note at = separator_atD [OF at]
  obtain new b root m where blk: "blk = (new, b)" "blk2 = (root, m)" by (cases blk; cases blk2) auto
  have fresh: "?h new = None" "?h root = None" "new \<noteq> root" "body_shape cap False b" "body_shape cap False m"
    using blocks(1) by (simp_all add: fresh_blocks_def blk)
  have lt: "low s < high_key n" using full(1) at(5) by simp
  from split_inner_heap [OF at(1,3,7) full(2) blocks(2) fresh(1,4) at(9) lt at(8,4,6)]
  obtain h up n' where sp: "split_inner cap blk a (low s) s ?h = Some (h, new, up)"
    "nodes_inv cap (low(new := up)) (lvl(new := lvl a)) h"
    "parents_inv (low(new := up)) (lvl(new := lvl a)) (if parent n = None then {new, bt_root t} else {bt_root t}) h"
    "dom h = insert new (dom ?h)" "node_links h \<subseteq> node_links ?h \<union> {s}" "contents h = contents ?h" "low a < up"
    "h a = Some n'" "parent n' = parent n" unfolding blk by blast
  note split = after_split [OF at(1,3) fresh(1) sp(2-5) _ sp(7)]
  have sub: "{s} \<subseteq> dom ?h" using at(4) by simp
  show ?thesis
  proof (cases "parent n")
    case None
    have "h root = None" using fresh sp(4) by (metis domIff insert_iff)
    from split(2) [OF sub None this fresh(5)] blocks(2) obtain t' usage low' lvl' where
      g: "create_new_root a new up blk2 (t\<lparr>bt_nodes := h\<rparr>) = Some (t', usage)" "tree_inv cap low' lvl' t'"
      "extends low lvl t {s} low' lvl' t'" "contents (bt_nodes t') = contents h" unfolding blk by auto
    have "insert_separator_execute cap blk blk2 zero s task t = Some (t', Done (Inserted (b_key task) zero))"
      using full at sp(1,8,9) g(1) None by (simp add: insert_separator_execute_def)
    then show ?thesis using g(2-4) sp(6) unfolding separator_step_def
      by (intro exI [of _ t'] exI [of _ "Done (Inserted (b_key task) zero)"] exI [of _ low'] exI [of _ lvl']) simp
  next
    case (Some p)
    let ?task = "task\<lparr>b_op := InsertSeparator new, b_key := up, b_annotated := Some p\<rparr>"
    note g = split(1) [OF sub Some, of "InsertSeparator new" "b_readonly task"]
    have "insert_separator_execute cap blk blk2 zero s task t = Some (t\<lparr>bt_nodes := h\<rparr>, Again ?task)"
      using full at sp(1,8,9) Some by (simp add: insert_separator_execute_def)
    moreover have "task_ok (low(new := up)) (lvl(new := lvl a)) h ?task" using g sp(4) by (auto simp: placed_def)
    ultimately show ?thesis
      using g sp(6) fresh(1) unfolding separator_step_def
      by (intro exI [of _ "t\<lparr>bt_nodes := h\<rparr>"] exI [of _ "Again ?task"] exI [of _ "low(new := up)"] exI [of _ "lvl(new := lvl a)"])
        (auto simp del: task_ok.simps)
  qed
qed

lemma insert_separator_ok:
  assumes "tree_inv cap low lvl t" "task_ok low lvl (bt_nodes t) task" "b_op task = InsertSeparator s"
    "fresh_blocks cap False (bt_nodes t) blk blk2" "2 \<le> cap_keys cap"
  shows "\<exists>t' out low' lvl'. insert_separator_execute cap blk blk2 zero s task t = Some (t', out) \<and> tree_inv cap low' lvl' t' \<and>
    extends low lvl t {s} low' lvl' t' \<and> contents (bt_nodes t') = contents (bt_nodes t) \<and>
    outcome_ok low' lvl' (bt_nodes t) (bt_nodes t') task out"
proof -
  let ?h = "bt_nodes t"
  note inv = tree_invD [OF assms(1)]
  obtain a n where a: "b_annotated task = Some a" "?h a = Some n" "low a \<le> b_key task" "b_key task < - 1"
    using assms(2) by (auto simp: placed_def)
  have s: "s \<in> dom ?h" "low s = b_key task" "lvl a = Suc (lvl s)" "s \<notin> node_links ?h" using assms(2,3) a(1) by auto
  have ok: "node_ok cap low lvl (dom ?h) a n" by (rule inv(7) [OF a(2)])
  then have inner: "\<not> is_leaf n" using s(3) by (simp add: node_ok_def)
  have new: "low s \<notin> set (keys_of n)" "low a < low s"
    using separator_is_new [OF inv(1) a(2) inner s(1,3,4)] a(3) s(2) by simp_all
  have at: "separator_at cap low lvl t task s a n" using assms(1) a s inner new by (simp add: separator_at_def)
  consider "high_key n \<le> b_key task" | "b_key task < high_key n" "\<not> node_full cap n" | "b_key task < high_key n" "node_full cap n" by force
  then show ?thesis
  proof cases
    case 1
    then have "high_key n \<noteq> - 1" using a(4) by auto
    then obtain r where r: "right_sibling n = Some r" "r \<in> dom ?h" "lvl r = lvl a" "low r = high_key n"
      using ok by (cases "right_sibling n") (auto simp: node_ok_def right_ok_def)
    then have "task_ok low lvl ?h (task\<lparr>b_annotated := Some r\<rparr>)" using 1 s assms(3) a(4) by (auto simp: placed_def)
    then show ?thesis
      using 1 a r assms(1)
      by (intro exI [of _ t] exI [of _ "Again (task\<lparr>b_annotated := Some r\<rparr>)"] exI [of _ low] exI [of _ lvl])
        (simp add: insert_separator_execute_def extends_refl del: task_ok.simps)
  next
    case 2
    then show ?thesis using insert_separator_room [OF at] unfolding separator_step_def by blast
  next
    case 3
    then show ?thesis using insert_separator_full [OF at _ _ assms(4,5)] unfolding separator_step_def by blast
  qed
qed

lemma insert_value_ok:
  assumes "tree_inv cap low lvl t" "task_ok low lvl (bt_nodes t) task" "b_op task = InsertValue v"
    "fresh_blocks cap True (bt_nodes t) blk blk2" "2 \<le> cap_items cap" "2 \<le> cap_keys cap"
  shows "\<exists>t' out low' lvl'. insert_value_execute cap blk blk2 v task t = Some (t', out) \<and> tree_inv cap low' lvl' t' \<and>
    extends low lvl t {} low' lvl' t' \<and> outcome_ok low' lvl' (bt_nodes t) (bt_nodes t') task out \<and>
    contents (bt_nodes t') = (case out of
      Again task' \<Rightarrow> contents (bt_nodes t) | _ \<Rightarrow> inserted (b_key task) v (contents (bt_nodes t))) \<and>
    (case out of Again task' \<Rightarrow> b_op task' = b_op task \<and> b_key task' = b_key task | _ \<Rightarrow> True)"
proof -
  obtain a n where a: "b_annotated task = Some a" "bt_nodes t a = Some n" "placed low (bt_nodes t) task"
    using assms(2) by (auto simp: placed_def)
  note inv = tree_invD [OF assms(1)]
  have again: ?thesis if "insert_value_execute cap blk blk2 v task t = Some (t, Again task')" "placed low (bt_nodes t) task'"
    "b_op task' = b_op task" "b_key task' = b_key task" for task'
    using that assms(1,3)
    by (intro exI [of _ t] exI [of _ "Again task'"] exI [of _ low] exI [of _ lvl]) (simp add: extends_refl)
  consider "navigate True task n = Some None" "is_leaf n" "low a \<le> b_key task" "b_key task < high_key n"
    | task' where "navigate True task n = Some (Some task')" "placed low (bt_nodes t) task'" "b_op task' = b_op task" "b_key task' = b_key task"
    using navigate_cases [OF inv(1) a(3,1,2), of True] by blast
  then show ?thesis
  proof cases
    case 1
    show ?thesis
    proof (cases "b_readonly task")
      case True
      then show ?thesis using 1 a by (intro again [of "task\<lparr>b_readonly := False\<rparr>"]) (auto simp: insert_value_execute_def placed_def)
    next
      case False
      then have run: "insert_value_execute cap blk blk2 v task t = insert_into_leaf cap blk blk2 a (b_key task) v t"
        using 1 a by (simp add: insert_value_execute_def)
      have "1 \<le> cap_keys cap" using assms(6) by simp
      from insert_into_leaf_ok [OF assms(1) a(2) 1(2-4) assms(4,5) this, of v]
      obtain t' out low' lvl' where r: "insert_into_leaf cap blk blk2 a (b_key task) v t = Some (t', out)" "tree_inv cap low' lvl' t'"
        "extends low lvl t {} low' lvl' t'" "contents (bt_nodes t') = inserted (b_key task) v (contents (bt_nodes t))"
        "out = Done (Inserted (b_key task) v) \<or> (\<exists>s up p. out = Handover (insert_separator_task up s (Some p)) \<and>
         s \<notin> dom (bt_nodes t) \<and> task_ok low' lvl' (bt_nodes t') (insert_separator_task up s (Some p) :: 'a btask))"
        by (elim exE conjE) (rule that; assumption)
      have "outcome_ok low' lvl' (bt_nodes t) (bt_nodes t') task out \<and> (\<forall>task'. out \<noteq> Again task')"
        using r(5)
      proof (elim disjE exE conjE)
        fix s up p assume "out = Handover (insert_separator_task up s (Some p))" "s \<notin> dom (bt_nodes t)"
          "task_ok low' lvl' (bt_nodes t') (insert_separator_task up s (Some p) :: 'a btask)"
        then show ?thesis by (simp add: insert_separator_task_def del: task_ok.simps)
      qed simp
      then show ?thesis using r(1-4)
        unfolding run by (intro exI [of _ t'] exI [of _ out] exI [of _ low'] exI [of _ lvl'], cases out)
          (simp_all del: task_ok.simps outcome_ok.simps)
    qed
  next
    case 2
    then show ?thesis using a by (intro again [of task']) (simp_all add: insert_value_execute_def)
  qed
qed

end
