(* ===== verification/BLinkIndex.thy ===== *)
theory BLinkIndex
  imports BLinkTasks
begin

section \<open>The B-link tree as an index\<close>

subsection \<open>Interleavings of insertions\<close>

text \<open>
  The index with its pending tasks. At any time a new insertion may be spawned at the root, for any
  key of the key type, and any pending task may execute next. The log holds the entries that
  insertions were spawned for.
\<close>

fun is_value_task :: "'v btask \<Rightarrow> bool" where
  "is_value_task task = (case b_op task of InsertValue v \<Rightarrow> True | _ \<Rightarrow> False)"

fun next_tasks :: "'v outcome \<Rightarrow> 'v btask list" where
  "next_tasks (Again task) = [task]"
| "next_tasks (Handover task) = [task]"
| "next_tasks (Done e) = []"

inductive index_run :: "capacity \<Rightarrow> 'v \<Rightarrow> 'v tree \<Rightarrow> 'v btask list \<Rightarrow> (u64 \<times> 'v) list \<Rightarrow> bool" for cap zero where
  index_new: "body_shape cap True (snd blk) \<Longrightarrow> index_run cap zero (tree_new isolation prot blk) [] []"
| index_spawn: "index_run cap zero t tasks log \<Longrightarrow>
    index_run cap zero t (tasks @ [insert_value_task key v (bt_root t) ro]) (log @ [(key, v)])"
| index_execute: "index_run cap zero t (xs @ task # ys) log \<Longrightarrow> fresh_blocks cap (is_value_task task) (bt_nodes t) blk blk2 \<Longrightarrow>
    task_execute cap blk blk2 zero task t = Some (t', out) \<Longrightarrow> index_run cap zero t' (xs @ next_tasks out @ ys) log"

fun pending :: "'v btask \<Rightarrow> addr list" where
  "pending task = (case b_op task of InsertSeparator s \<Rightarrow> [s] | _ \<Rightarrow> [])"

definition insert_task :: "'v btask \<Rightarrow> bool" where
  "insert_task task \<longleftrightarrow> (case b_op task of InsertValue v \<Rightarrow> True | InsertSeparator s \<Rightarrow> True | _ \<Rightarrow> False)"

text \<open>
  An insertion of the largest key of the key type. Every node ends at or before that key, so no
  node is the right one for it: the task stands at some node, or at none after the rightmost one.
\<close>

definition stray :: "'v heap \<Rightarrow> 'v btask \<Rightarrow> bool" where
  "stray h task \<longleftrightarrow> is_value_task task \<and> b_key task = - 1 \<and> (\<forall>a. b_annotated task = Some a \<longrightarrow> a \<in> dom h)"

definition pending_ok :: "(addr \<Rightarrow> u64) \<Rightarrow> (addr \<Rightarrow> nat) \<Rightarrow> 'v heap \<Rightarrow> 'v btask \<Rightarrow> bool" where
  "pending_ok low lvl h task \<longleftrightarrow> (task_ok low lvl h task \<or> stray h task) \<and> insert_task task"

definition tasks_ok :: "(addr \<Rightarrow> u64) \<Rightarrow> (addr \<Rightarrow> nat) \<Rightarrow> 'v heap \<Rightarrow> 'v btask list \<Rightarrow> bool" where
  "tasks_ok low lvl h tasks \<longleftrightarrow> (\<forall>task \<in> set tasks. pending_ok low lvl h task) \<and> distinct (concat (map pending tasks))"

lemma stray_pending: "stray h task \<Longrightarrow> pending task = []"
  by (cases "b_op task") (simp_all add: stray_def)

lemma stray_mono: "stray h task \<Longrightarrow> dom h \<subseteq> dom h' \<Longrightarrow> stray h' task"
  unfolding stray_def by blast

lemma pending_ok_key: "pending_ok low lvl h task \<Longrightarrow> b_key task \<noteq> - 1 \<Longrightarrow> task_ok low lvl h task"
  by (simp add: pending_ok_def stray_def)

lemma task_ok_key: "task_ok low lvl h task \<Longrightarrow> b_key task < - 1"
  by (simp add: placed_def)

text \<open>Such a task only ever moves to the right sibling of its node.\<close>

lemma stray_execute:
  assumes "b_op task = InsertValue v" "b_key task = - 1"
  shows "task_execute cap blk blk2 zero task t = do {
      a \<leftarrow> b_annotated task; n \<leftarrow> bt_nodes t a; Some (t, Again (task\<lparr>b_annotated := right_sibling n\<rparr>)) }"
  using assms by (cases "b_annotated task") (simp_all add: insert_value_execute_def navigate_def)

text \<open>One execution, for both kinds of insert tasks.\<close>

lemma task_execute_ok:
  assumes "tree_inv cap low lvl t" "task_ok low lvl (bt_nodes t) task" "insert_task task"
    "fresh_blocks cap (is_value_task task) (bt_nodes t) blk blk2" "2 \<le> cap_items cap" "2 \<le> cap_keys cap"
  shows "\<exists>t' out low' lvl'. task_execute cap blk blk2 zero task t = Some (t', out) \<and> tree_inv cap low' lvl' t' \<and>
    extends low lvl t (set (pending task)) low' lvl' t' \<and> outcome_ok low' lvl' (bt_nodes t) (bt_nodes t') task out \<and>
    contents (bt_nodes t') = (case (b_op task, out) of
      (InsertValue v, Again task') \<Rightarrow> contents (bt_nodes t)
    | (InsertValue v, _) \<Rightarrow> inserted (b_key task) v (contents (bt_nodes t))
    | _ \<Rightarrow> contents (bt_nodes t)) \<and>
    (\<forall>v task'. b_op task = InsertValue v \<longrightarrow> out = Again task' \<longrightarrow> b_op task' = b_op task \<and> b_key task' = b_key task)"
proof (cases "b_op task")
  case (InsertValue v)
  then have "fresh_blocks cap True (bt_nodes t) blk blk2" using assms(4) by simp
  from insert_value_ok [OF assms(1,2) InsertValue this assms(5,6)]
  obtain t' out low' lvl' where r: "insert_value_execute cap blk blk2 v task t = Some (t', out)" "tree_inv cap low' lvl' t'"
    "extends low lvl t {} low' lvl' t'" "outcome_ok low' lvl' (bt_nodes t) (bt_nodes t') task out"
    "contents (bt_nodes t') = (case out of
      Again task' \<Rightarrow> contents (bt_nodes t) | _ \<Rightarrow> inserted (b_key task) v (contents (bt_nodes t)))"
    "case out of Again task' \<Rightarrow> b_op task' = b_op task \<and> b_key task' = b_key task | _ \<Rightarrow> True"
    by (elim exE conjE) (rule that; assumption)
  then show ?thesis using InsertValue
    by (intro exI [of _ t'] exI [of _ out] exI [of _ low'] exI [of _ lvl'], cases out) (simp_all del: task_ok.simps outcome_ok.simps)
next
  case (InsertSeparator s)
  then have "fresh_blocks cap False (bt_nodes t) blk blk2" using assms(4) by simp
  from insert_separator_ok [OF assms(1,2) InsertSeparator this assms(6), of zero]
  obtain t' out low' lvl' where r: "insert_separator_execute cap blk blk2 zero s task t = Some (t', out)" "tree_inv cap low' lvl' t'"
    "extends low lvl t {s} low' lvl' t'" "contents (bt_nodes t') = contents (bt_nodes t)"
    "outcome_ok low' lvl' (bt_nodes t) (bt_nodes t') task out" by blast
  then show ?thesis using InsertSeparator
    by (intro exI [of _ t'] exI [of _ out] exI [of _ low'] exI [of _ lvl']) simp
qed (use assms(3) in \<open>simp_all add: insert_task_def\<close>)

lemma task_ok_pending: "task_ok low lvl h task \<Longrightarrow> set (pending task) \<subseteq> dom h"
  by (cases "b_op task") auto

lemma pending_ok_dom: "pending_ok low lvl h task \<Longrightarrow> set (pending task) \<subseteq> dom h"
  using task_ok_pending [of low lvl h task] stray_pending [of h task] by (auto simp: pending_ok_def simp del: pending.simps task_ok.simps)

lemma pending_of_op: "b_op task' = b_op task \<Longrightarrow> pending task' = pending task \<and> insert_task task' = insert_task task"
  by (simp add: insert_task_def)

text \<open>A list of pending tasks stays sound when one of them is replaced by tasks that announce no node another one announces.\<close>

lemma tasks_ok_replace:
  assumes "tasks_ok low lvl h (xs @ task # ys)"
    "\<And>task'. set (pending task') \<inter> set (pending task) = {} \<Longrightarrow> pending_ok low lvl h task' \<Longrightarrow> pending_ok low' lvl' h' task'"
    "tasks_ok low' lvl' h' zs" "set (concat (map pending zs)) \<subseteq> set (pending task) \<union> - dom h"
  shows "tasks_ok low' lvl' h' (xs @ zs @ ys)"
proof -
  have all: "pending_ok low lvl h x" if "x \<in> set (xs @ ys)" for x
    using assms(1) that by (auto simp: tasks_ok_def simp del: pending.simps)
  have dist: "distinct (concat (map pending xs) @ pending task @ concat (map pending ys))"
    using assms(1) by (simp add: tasks_ok_def del: pending.simps task_ok.simps)
  then have apart: "set (concat (map pending (xs @ ys))) \<inter> set (pending task) = {}"
    unfolding distinct_append map_append concat_append set_append by blast
  have rest: "pending_ok low' lvl' h' x" if "x \<in> set (xs @ ys)" for x
  proof (rule assms(2) [OF _ all [OF that]])
    have "set (pending x) \<subseteq> set (concat (map pending (xs @ ys)))" using that by (auto simp del: pending.simps)
    with apart show "set (pending x) \<inter> set (pending task) = {}" by (meson disjoint_iff subsetD)
  qed
  have "set (concat (map pending (xs @ ys))) \<subseteq> dom h"
    unfolding set_concat using all pending_ok_dom by (fastforce simp del: pending.simps)
  with apart assms(4) have "set (concat (map pending zs)) \<inter> set (concat (map pending (xs @ ys))) = {}" by blast
  moreover have "distinct (concat (map pending zs))" using assms(3) by (simp add: tasks_ok_def)
  ultimately have "distinct (concat (map pending (xs @ zs @ ys)))"
    using dist by (simp del: pending.simps set_concat add: Int_Un_distrib Int_commute)
  then show ?thesis
    using rest assms(3) unfolding tasks_ok_def by (simp add: ball_Un del: pending.simps)
qed

lemma tasks_ok_single: "task_ok low lvl h task \<Longrightarrow> insert_task task \<Longrightarrow> tasks_ok low lvl h [task]"
  by (cases "b_op task") (simp_all add: tasks_ok_def pending_ok_def)

lemma pending_ok_extends:
  assumes "pending_ok low lvl (bt_nodes t) task" "extends low lvl t S low' lvl' t'" "tree_inv cap low lvl t" "set (pending task) \<inter> S = {}"
  shows "pending_ok low' lvl' (bt_nodes t') task"
proof -
  have "task_ok low' lvl' (bt_nodes t') task" if "task_ok low lvl (bt_nodes t) task"
    by (rule task_ok_extends [OF that assms(2,3)]) (use assms(4) in simp)
  moreover have "dom (bt_nodes t) \<subseteq> dom (bt_nodes t')" using assms(2) by (simp add: extends_def)
  ultimately show ?thesis using assms(1) stray_mono unfolding pending_ok_def by blast
qed

lemma tasks_ok_execute:
  assumes "tree_inv cap low lvl t" "tasks_ok low lvl (bt_nodes t) (xs @ task # ys)"
    "extends low lvl t (set (pending task)) low' lvl' t'" "outcome_ok low' lvl' (bt_nodes t) (bt_nodes t') task out"
  shows "tasks_ok low' lvl' (bt_nodes t') (xs @ next_tasks out @ ys)"
proof (rule tasks_ok_replace [OF assms(2)])
  fix task' assume "set (pending task') \<inter> set (pending task) = {}" "pending_ok low lvl (bt_nodes t) task'"
  then show "pending_ok low' lvl' (bt_nodes t') task'"
    by (intro pending_ok_extends [OF _ assms(3,1)])
next
  have old: "insert_task task" using assms(2) by (simp add: tasks_ok_def pending_ok_def)
  have sep: "insert_task x \<and> set (pending x) \<subseteq> - dom (bt_nodes t)"
    if "\<exists>s. b_op x = InsertSeparator s \<and> s \<notin> dom (bt_nodes t)" for x :: "'a btask"
    using that by (auto simp: insert_task_def)
  have "tasks_ok low' lvl' (bt_nodes t') (next_tasks out) \<and>
    set (concat (map pending (next_tasks out))) \<subseteq> set (pending task) \<union> - dom (bt_nodes t)"
  proof (cases out)
    case (Again x)
    then have ok: "task_ok low' lvl' (bt_nodes t') x" and
      kind: "b_op x = b_op task \<or> (\<exists>s. b_op x = InsertSeparator s \<and> s \<notin> dom (bt_nodes t))"
      using assms(4) by (simp_all del: task_ok.simps)
    from kind have "insert_task x \<and> set (pending x) \<subseteq> set (pending task) \<union> - dom (bt_nodes t)"
    proof
      assume "b_op x = b_op task"
      from pending_of_op [OF this] show ?thesis using old by simp
    next
      assume "\<exists>s. b_op x = InsertSeparator s \<and> s \<notin> dom (bt_nodes t)"
      from sep [OF this] show ?thesis by (simp add: le_supI2)
    qed
    then show ?thesis using Again tasks_ok_single [OF ok] by (simp del: pending.simps)
  next
    case (Handover x)
    then have "task_ok low' lvl' (bt_nodes t') x" "\<exists>s. b_op x = InsertSeparator s \<and> s \<notin> dom (bt_nodes t)"
      using assms(4) by (simp_all del: task_ok.simps)
    then show ?thesis using Handover tasks_ok_single [of low' lvl' _ x] sep [of x] by (simp del: pending.simps task_ok.simps) blast
  qed (simp add: tasks_ok_def)
  then show "tasks_ok low' lvl' (bt_nodes t') (next_tasks out)"
    "set (concat (map pending (next_tasks out))) \<subseteq> set (pending task) \<union> - dom (bt_nodes t)" by blast+
qed

subsection \<open>The invariant of all interleavings\<close>

text \<open>
  Which entries an insertion still owes: the ones of the log whose key no leaf holds and no
  pending task carries.
\<close>

definition value_keys :: "'v btask list \<Rightarrow> (u64 \<times> 'v) set" where
  "value_keys tasks = {(b_key task, v) | task v. task \<in> set tasks \<and> b_op task = InsertValue v}"

definition log_inv :: "(u64 \<times> 'v) set \<Rightarrow> (u64 \<times> 'v) set \<Rightarrow> (u64 \<times> 'v) list \<Rightarrow> bool" where
  "log_inv C P log \<longleftrightarrow> C \<subseteq> set log \<and> P \<subseteq> set log \<and>
     (\<forall>k v. (k, v) \<in> set log \<longrightarrow> (\<exists>w. (k, w) \<in> C) \<or> (\<exists>w. (k, w) \<in> P)) \<and>
     (\<forall>k v v'. (k, v) \<in> C \<longrightarrow> (k, v') \<in> C \<longrightarrow> v = v')"

lemma log_inv_spawn: "log_inv C P log \<Longrightarrow> log_inv C (insert (k, v) P) (log @ [(k, v)])"
  unfolding log_inv_def by auto

lemma log_inv_insert:
  assumes "log_inv C (insert (k, v) P) log"
  shows "log_inv (inserted k v C) P log"
proof (cases "\<exists>w. (k, w) \<in> C")
  case True
  then show ?thesis using assms by (auto simp: log_inv_def inserted_def)
next
  case False
  then have *: "inserted k v C = insert (k, v) C" by (simp add: inserted_def)
  have C: "C \<subseteq> set log" "(k, v) \<in> set log" "P \<subseteq> set log" and
    all: "\<And>x y. (x, y) \<in> set log \<Longrightarrow> (\<exists>w. (x, w) \<in> C) \<or> (\<exists>w. (x, w) = (k, v) \<or> (x, w) \<in> P)" and
    one: "\<And>x y z. (x, y) \<in> C \<Longrightarrow> (x, z) \<in> C \<Longrightarrow> y = z"
    using assms by (auto simp: log_inv_def)
  have "(\<exists>w. (x, w) \<in> insert (k, v) C) \<or> (\<exists>w. (x, w) \<in> P)" if "(x, y) \<in> set log" for x y
    using all [OF that] by blast
  moreover have "y = z" if "(x, y) \<in> insert (k, v) C" "(x, z) \<in> insert (k, v) C" for x y z
    using that one False by auto
  ultimately show ?thesis using C unfolding * log_inv_def by (intro conjI) blast+
qed

lemma value_keys_append: "value_keys (xs @ ys) = value_keys xs \<union> value_keys ys"
  by (auto simp: value_keys_def)

lemma value_keys_other: "(\<And>v. b_op task \<noteq> InsertValue v) \<Longrightarrow> value_keys [task] = {}"
  by (auto simp: value_keys_def)

lemma value_keys_value: "b_op task = InsertValue v \<Longrightarrow> value_keys [task] = {(b_key task, v)}"
  by (auto simp: value_keys_def)

lemma value_keys_separator: "(\<exists>s. b_op task = InsertSeparator s \<and> P s) \<Longrightarrow> value_keys [task] = {}"
  by (rule value_keys_other) auto

text \<open>The log and the entries after one execution.\<close>

lemma log_inv_execute:
  assumes "log_inv C (value_keys (xs @ task # ys)) log" "insert_task task" "outcome_ok low' lvl' h h' task out"
    "C' = (case (b_op task, out) of
      (InsertValue v, Again task') \<Rightarrow> C | (InsertValue v, _) \<Rightarrow> inserted (b_key task) v C | _ \<Rightarrow> C)"
    "\<And>v task'. b_op task = InsertValue v \<Longrightarrow> out = Again task' \<Longrightarrow> b_op task' = b_op task \<and> b_key task' = b_key task"
  shows "log_inv C' (value_keys (xs @ next_tasks out @ ys)) log"
proof -
  have keys: "value_keys (xs @ zs @ ys) = value_keys zs \<union> (value_keys xs \<union> value_keys ys)" for zs :: "'a btask list"
    by (simp add: value_keys_append ac_simps)
  have log: "log_inv C (value_keys [task] \<union> (value_keys xs \<union> value_keys ys)) log"
    using assms(1) keys [of "[task]"] by simp
  show ?thesis
  proof (cases "b_op task")
    case (InsertValue v)
    note step = log_inv_insert [of C "b_key task" v "value_keys xs \<union> value_keys ys" log]
    show ?thesis
    proof (cases out)
      case (Again x)
      then have "value_keys [x] = value_keys [task]"
        using assms(5) [OF InsertValue Again] InsertValue value_keys_value [of x v] value_keys_value [of task v] by simp
      then show ?thesis using log assms(4) Again InsertValue keys [of "[x]"] by simp
    next
      case (Handover x)
      then have "value_keys [x] = {}"
        using assms(3) by (intro value_keys_separator [where P = "\<lambda>s. s \<notin> dom h"]) (simp del: task_ok.simps)
      then show ?thesis using log step assms(4) Handover InsertValue value_keys_value [OF InsertValue] keys [of "[x]"] by simp
    next
      case (Done e)
      then show ?thesis using log step assms(4) InsertValue value_keys_value [OF InsertValue] by (simp add: value_keys_append)
    qed
  next
    case (InsertSeparator s)
    then have none: "value_keys [task] = {}" by (intro value_keys_separator [where P = "\<lambda>_. True"]) simp
    have "value_keys (next_tasks out) = {}"
    proof (cases out)
      case (Again x)
      then have "\<And>v. b_op x \<noteq> InsertValue v" using assms(3) InsertSeparator by (auto simp del: task_ok.simps)
      then show ?thesis using Again by (simp add: value_keys_other)
    next
      case (Handover x)
      then have "\<And>v. b_op x \<noteq> InsertValue v" using assms(3) by (auto simp del: task_ok.simps)
      then show ?thesis using Handover by (simp add: value_keys_other)
    qed (simp add: value_keys_def)
    then show ?thesis using log none assms(4) InsertSeparator by (simp add: keys)
  qed (use assms(2) in \<open>simp_all add: insert_task_def\<close>)
qed

lemma tree_new_inv:
  assumes "body_shape cap True (snd blk)"
  shows "tree_inv cap (\<lambda>_. 0) (\<lambda>_. 0) (tree_new isolation prot blk)" "contents (bt_nodes (tree_new isolation prot blk)) = {}"
proof -
  define n where "n = node_new Leaf_bit None (snd blk)"
  have t: "tree_new isolation prot blk = \<lparr>bt_height = 1, bt_isolation_level = isolation, bt_protocol = prot, bt_root = fst blk,
      bt_nodes = [fst blk \<mapsto> n]\<rparr>" by (simp add: tree_new_def create_leaf_node_def create_node_def n_def)
  have n: "is_leaf n" "\<not> is_inner n" "\<not> is_branch n" using node_type_bits(1) [of n] by (simp_all add: n_def node_new_def)
  then have "node_ok cap (\<lambda>_. 0) (\<lambda>_. 0) {fst blk} (fst blk) n"
    using assms by (simp add: node_ok_def node_shape_def right_ok_def keys_of_def) (simp add: n_def node_new_def word_greater_zero_iff)
  then have "nodes_inv cap (\<lambda>_. 0) (\<lambda>_. 0) [fst blk \<mapsto> n]" by (simp add: nodes_inv_def)
  moreover have "parents_inv (\<lambda>_. 0) (\<lambda>_. 0) {fst blk} [fst blk \<mapsto> n]"
    by (simp add: parents_inv_def parent_ok_def n_def node_new_def)
  ultimately show "tree_inv cap (\<lambda>_. 0) (\<lambda>_. 0) (tree_new isolation prot blk)" by (simp add: t tree_inv_def)
  have "keys_of n = []" by (simp add: keys_of_def n_def node_new_def)
  then show "contents (bt_nodes (tree_new isolation prot blk)) = {}"
    by (auto simp: t contents_def node_contents_def entries_of_def split: if_splits)
qed

lemma index_step_inv:
  assumes "tree_inv cap low lvl t" "tasks_ok low lvl (bt_nodes t) (xs @ task # ys)"
    "log_inv (contents (bt_nodes t)) (value_keys (xs @ task # ys)) log"
    "fresh_blocks cap (is_value_task task) (bt_nodes t) blk blk2" "2 \<le> cap_items cap" "2 \<le> cap_keys cap" "b_key task \<noteq> - 1"
  shows "\<exists>t' out low' lvl'. task_execute cap blk blk2 zero task t = Some (t', out) \<and> tree_inv cap low' lvl' t' \<and>
    tasks_ok low' lvl' (bt_nodes t') (xs @ next_tasks out @ ys) \<and>
    log_inv (contents (bt_nodes t')) (value_keys (xs @ next_tasks out @ ys)) log"
proof -
  have ok: "task_ok low lvl (bt_nodes t) task" "insert_task task"
    using assms(2) pending_ok_key [OF _ assms(7), of low lvl "bt_nodes t"] by (simp_all add: tasks_ok_def pending_ok_def del: task_ok.simps)
  from task_execute_ok [OF assms(1) ok assms(4-6), of zero]
  obtain t' out low' lvl' where step: "task_execute cap blk blk2 zero task t = Some (t', out)" "tree_inv cap low' lvl' t'"
    "extends low lvl t (set (pending task)) low' lvl' t'" "outcome_ok low' lvl' (bt_nodes t) (bt_nodes t') task out"
    "contents (bt_nodes t') = (case (b_op task, out) of
      (InsertValue v, Again task') \<Rightarrow> contents (bt_nodes t)
    | (InsertValue v, _) \<Rightarrow> inserted (b_key task) v (contents (bt_nodes t))
    | _ \<Rightarrow> contents (bt_nodes t))"
    "\<forall>v task'. b_op task = InsertValue v \<longrightarrow> out = Again task' \<longrightarrow> b_op task' = b_op task \<and> b_key task' = b_key task"
    by (elim exE conjE) (rule that; assumption)
  have "log_inv (contents (bt_nodes t')) (value_keys (xs @ next_tasks out @ ys)) log"
    by (rule log_inv_execute [OF assms(3) ok(2) step(4,5)]) (use step(6) in simp)
  then show ?thesis using step(1,2) tasks_ok_execute [OF assms(1,2) step(3,4)] by (intro exI conjI)
qed

text \<open>An insertion of the largest key changes nothing and stays one, if it stands at a node at all.\<close>

lemma value_task_op: "is_value_task task \<Longrightarrow> \<exists>v. b_op task = InsertValue v"
  by (cases "b_op task") simp_all

lemma index_stray_inv:
  assumes "tree_inv cap low lvl t" "tasks_ok low lvl (bt_nodes t) (xs @ task # ys)"
    "log_inv (contents (bt_nodes t)) (value_keys (xs @ task # ys)) log"
    "b_key task = - 1" "task_execute cap blk blk2 zero task t = Some (t', out)"
  shows "t' = t \<and> tasks_ok low lvl (bt_nodes t) (xs @ next_tasks out @ ys) \<and>
    log_inv (contents (bt_nodes t)) (value_keys (xs @ next_tasks out @ ys)) log"
proof -
  have p: "pending_ok low lvl (bt_nodes t) task" using assms(2) by (simp add: tasks_ok_def)
  then have stray: "stray (bt_nodes t) task" using task_ok_key [of low lvl _ task] assms(4) by (auto simp: pending_ok_def simp del: task_ok.simps)
  then obtain v where op: "b_op task = InsertValue v" using value_task_op by (auto simp: stray_def)
  obtain a n where a: "b_annotated task = Some a" "bt_nodes t a = Some n" and
    r: "t' = t" "out = Again (task\<lparr>b_annotated := right_sibling n\<rparr>)"
    using assms(5) unfolding stray_execute [OF op assms(4)] by (auto simp: bind_eq_Some_conv)
  let ?task = "task\<lparr>b_annotated := right_sibling n\<rparr>"
  have "right_sibling n = Some b \<Longrightarrow> b \<in> dom (bt_nodes t)" for b
    using nodes_invD [OF tree_invD(1) [OF assms(1)] a(2)] by (auto simp: node_ok_def right_ok_def)
  then have "stray (bt_nodes t) ?task" using stray by (simp add: stray_def)
  then have "tasks_ok low lvl (bt_nodes t) [?task]"
    using op stray_pending by (simp add: tasks_ok_def pending_ok_def insert_task_def)
  moreover have "set (concat (map pending [?task])) \<subseteq> set (pending task) \<union> - dom (bt_nodes t)" using op by simp
  ultimately have "tasks_ok low lvl (bt_nodes t) (xs @ [?task] @ ys)" by (intro tasks_ok_replace [OF assms(2)])
  moreover have "value_keys [?task] = value_keys [task]" using op by (simp add: value_keys_value)
  then have "value_keys (xs @ [?task] @ ys) = value_keys (xs @ [task] @ ys)" by (simp only: value_keys_append)
  ultimately show ?thesis using r assms(3) by simp
qed

lemma index_run_inv:
  assumes "index_run cap zero t tasks log" "2 \<le> cap_items cap" "2 \<le> cap_keys cap"
  shows "\<exists>low lvl. tree_inv cap low lvl t \<and> tasks_ok low lvl (bt_nodes t) tasks \<and> log_inv (contents (bt_nodes t)) (value_keys tasks) log"
  using assms(1)
proof induction
  case (index_new blk isolation prot)
  note new = tree_new_inv [OF index_new, of isolation prot]
  have "tasks_ok (\<lambda>_. 0) (\<lambda>_. 0) (bt_nodes (tree_new isolation prot blk)) []" by (simp add: tasks_ok_def)
  moreover have "log_inv {} (value_keys []) []" by (simp add: log_inv_def value_keys_def)
  ultimately show ?case using new by (intro exI [of _ "\<lambda>_. 0"]) simp
next
  case (index_spawn t tasks log key v ro)
  then obtain low lvl where IH: "tree_inv cap low lvl t" "tasks_ok low lvl (bt_nodes t) tasks"
    "log_inv (contents (bt_nodes t)) (value_keys tasks) log" by (elim exE conjE) (rule that; assumption)
  let ?task = "insert_value_task key v (bt_root t) ro"
  have "placed low (bt_nodes t) ?task \<or> stray (bt_nodes t) ?task"
    using tree_invD(3,4) [OF IH(1)] by (auto simp: placed_def stray_def insert_value_task_def word_order.not_eq_extremum)
  then have "tasks_ok low lvl (bt_nodes t) (tasks @ [?task])"
    using IH(2) by (simp add: tasks_ok_def pending_ok_def insert_task_def insert_value_task_def)
  moreover have "value_keys (tasks @ [?task]) = insert (key, v) (value_keys tasks)"
    using value_keys_value [of ?task v] by (simp add: value_keys_append insert_value_task_def)
  ultimately show ?case using IH(1) log_inv_spawn [OF IH(3), of key v] by (intro exI [of _ low] exI [of _ lvl]) simp
next
  case (index_execute t xs task ys log blk blk2 t' out)
  from index_execute.IH obtain low lvl where IH: "tree_inv cap low lvl t" "tasks_ok low lvl (bt_nodes t) (xs @ task # ys)"
    "log_inv (contents (bt_nodes t)) (value_keys (xs @ task # ys)) log" by (elim exE conjE) (rule that; assumption)
  show ?case
  proof (cases "b_key task = - 1")
    case True
    from index_stray_inv [OF IH True index_execute.hyps(3)] show ?thesis using IH(1) by blast
  next
    case False
    from index_step_inv [OF IH index_execute.hyps(2) assms(2,3) False, of zero, unfolded index_execute.hyps(3) option.inject prod.inject]
    show ?thesis by (elim exE conjE, hypsubst) (intro exI conjI)
  qed
qed

subsection \<open>Lookups and updates\<close>

definition lookup_task :: "u64 \<Rightarrow> 'v \<Rightarrow> addr \<Rightarrow> 'v btask" where
  "lookup_task key old a = \<lparr>b_op = Lookup old, b_key = key, b_annotated = Some a, b_readonly = True\<rparr>"

definition update_task :: "u64 \<Rightarrow> 'v \<Rightarrow> addr \<Rightarrow> bool \<Rightarrow> 'v btask" where
  "update_task key v a ro = \<lparr>b_op = Update v, b_key = key, b_annotated = Some a, b_readonly = ro\<rparr>"

text \<open>
  The repeated execution of a task, at most \<open>fuel\<close> times: until it reports an event, hands over to
  a new task or fails (a null or dangling pointer, an access outside of an array); otherwise it is
  still on its way. Every result has the tree at that time.
\<close>

datatype 'v run_result = Reported "'v tree" "'v event" | HandedOver "'v tree" "'v btask" | Failed "'v tree" "'v btask"
  | OnTheWay "'v tree" "'v btask"

fun task_run :: "nat \<Rightarrow> capacity \<Rightarrow> 'v block \<Rightarrow> 'v block \<Rightarrow> 'v \<Rightarrow> 'v btask \<Rightarrow> 'v tree \<Rightarrow> 'v run_result" where
  "task_run 0 cap blk blk2 zero task t = OnTheWay t task"
| "task_run (Suc fuel) cap blk blk2 zero task t = (case task_execute cap blk blk2 zero task t of
     None \<Rightarrow> Failed t task
   | Some (t', Again task') \<Rightarrow> task_run fuel cap blk blk2 zero task' t'
   | Some (t', Handover task') \<Rightarrow> HandedOver t' task'
   | Some (t', Done e) \<Rightarrow> Reported t' e)"

lemma leaf_entry:
  assumes "node_ok cap low lvl D a n" "is_leaf n" "(k, v) \<in> set (entries_of n)"
  shows "node_index n k < node_size n" "node_leaf_key n (node_index n k) = Some k" "node_value n (node_index n k) = Some v"
proof -
  have shape: "node_shape cap n" and sorted: "sorted_wrt (<) (keys_of n)" using assms(1) by (simp_all add: node_ok_def)
  obtain i where i: "i < length (entries_of n)" "entries_of n ! i = (k, v)" using assms(3) by (meson in_set_conv_nth)
  then have i': "i < node_size n" "keys_of n ! i = k" "values_of n ! i = v"
    using entries_keys(3) [OF shape assms(2)] filled_lengths [OF shape] assms(2) by (simp_all add: entries_of_def)
  have "node_index n k = i"
    unfolding node_index_keys
  proof (rule lower_bound_unique)
    show "sorted (keys_of n)" "i \<le> length (keys_of n)" using sorted i' filled_lengths(1) [OF shape] by (simp_all add: strict_sorted_iff)
    show "keys_of n ! j < k" if "j < i" for j
      using sorted_wrt_nth_less [OF sorted that] i' filled_lengths(1) [OF shape] by simp
    show "k \<le> keys_of n ! j" if "i \<le> j" "j < length (keys_of n)" for j
      using sorted i'(2) that sorted_nth_mono [of "keys_of n" i j] by (simp add: strict_sorted_iff)
  qed
  moreover have "node_value n i = Some (values_of n ! i)"
    by (rule node_shape_leaf [OF shape assms(2)]) (use i' in \<open>simp add: values_of_def arr_get_def node_access_defs\<close>)
  ultimately show "node_index n k < node_size n" "node_leaf_key n (node_index n k) = Some k" "node_value n (node_index n k) = Some v"
    using i' node_leaf_key_keys [OF shape assms(2) i'(1)] by simp_all
qed

text \<open>The nodes a search can still visit; every move leaves the current one for good.\<close>

definition reach :: "(addr \<Rightarrow> u64) \<Rightarrow> (addr \<Rightarrow> nat) \<Rightarrow> 'v heap \<Rightarrow> addr \<Rightarrow> addr set" where
  "reach low lvl h a = {b \<in> dom h. b = a \<or> closer low lvl h b a}"

lemma closer_trans:
  assumes "closer low lvl h c b" "closer low lvl h b a"
  shows "closer low lvl h c a"
proof -
  have "trans (less_than <*lex*> less_than)" by (intro trans_lex_prod trans_less_than)
  from transD [OF this] show ?thesis using assms unfolding closer_def by blast
qed

lemma not_reached:
  assumes "closer low lvl h a' a"
  shows "a \<notin> reach low lvl h a'"
proof -
  have "\<not> closer low lvl h a a" by (simp add: closer_def distance_def)
  then show ?thesis using assms closer_trans [OF _ assms] by (auto simp: reach_def)
qed

lemma reach_shrinks:
  assumes "closer low lvl h a' a" "a \<in> dom h" "a' \<in> dom h"
  shows "reach low lvl h a' \<subset> reach low lvl h a"
proof -
  have "reach low lvl h a' \<subseteq> reach low lvl h a" using assms(1) closer_trans [OF _ assms(1)] by (auto simp: reach_def)
  then show ?thesis using assms(2) not_reached [OF assms(1)] by (auto simp: reach_def)
qed

text \<open>A search reaches the leaf of its key, within as many executions as there are nodes left to visit.\<close>

lemma lookup_run_reaches:
  assumes "nodes_inv cap low lvl (bt_nodes t)" "(k, v) \<in> contents (bt_nodes t)"
    "placed low (bt_nodes t) task" "b_annotated task = Some a" "b_op task = Lookup old" "b_key task = k"
    "card (reach low lvl (bt_nodes t) a) \<le> fuel"
  shows "task_run fuel cap blk blk2 zero task t = Reported t (Found k v)"
  using assms(3-)
proof (induction fuel arbitrary: task a)
  case 0
  have "a \<in> reach low lvl (bt_nodes t) a" using "0.prems"(1,2) by (auto simp: reach_def placed_def)
  moreover have "finite (reach low lvl (bt_nodes t) a)" using assms(1) by (simp add: reach_def nodes_inv_def)
  ultimately show ?case using "0.prems"(5) by auto
next
  case (Suc fuel)
  obtain n where n: "bt_nodes t a = Some n" using Suc.prems(1,2) by (auto simp: placed_def)
  from navigate_cases [OF assms(1) Suc.prems(1,2) n, of False]
  show ?case
  proof (elim disjE exE conjE)
    assume leaf: "navigate False task n = Some None" "is_leaf n" "low a \<le> b_key task" "b_key task < high_key n"
    then have "(k, v) \<in> set (entries_of n)" using contents_leaf [OF assms(1) n leaf(2)] Suc.prems(4) assms(2) by simp
    from leaf_entry [OF nodes_invD [OF assms(1) n] leaf(2) this]
    show ?thesis using leaf(1) n Suc.prems by (simp add: lookup_execute_def)
  next
    fix task' a' assume move: "navigate False task n = Some (Some task')" "placed low (bt_nodes t) task'" "b_annotated task' = Some a'"
      "b_op task' = b_op task" "b_key task' = b_key task" "closer low lvl (bt_nodes t) a' a"
    have "a' \<in> dom (bt_nodes t)" using move(2,3) by (simp add: placed_def)
    from reach_shrinks [OF move(6) _ this]
    have "reach low lvl (bt_nodes t) a' \<subset> reach low lvl (bt_nodes t) a" using n by auto
    moreover have "finite (reach low lvl (bt_nodes t) a)" using assms(1) by (simp add: reach_def nodes_inv_def)
    ultimately have "card (reach low lvl (bt_nodes t) a') \<le> fuel"
      using psubset_card_mono [of "reach low lvl (bt_nodes t) a" "reach low lvl (bt_nodes t) a'"] Suc.prems(5) by linarith
    then have "task_run fuel cap blk blk2 zero task' t = Reported t (Found k v)"
      using Suc.IH [OF move(2,3)] Suc.prems(3,4) move(4,5) by simp
    then show ?thesis using move(1) n Suc.prems by (simp add: lookup_execute_def)
  qed
qed

text \<open>Overwriting the value of a key that the leaf holds.\<close>

lemma leaf_update_ok:
  assumes "node_ok cap low lvl D a n" "is_leaf n" "(k, w) \<in> set (entries_of n)"
  shows "\<exists>n'. node_set_value n (node_index n k) v = Some n' \<and> same_header n n' \<and> node_ok cap low lvl D a n' \<and>
    (\<forall>x y. (x, y) \<in> set (entries_of n') \<longleftrightarrow> (if x = k then y = v else (x, y) \<in> set (entries_of n)))"
proof -
  have shape: "node_shape cap n" and sorted: "sorted_wrt (<) (keys_of n)" using assms(1) by (simp_all add: node_ok_def)
  define i where "i = node_index n k"
  have i: "i < node_size n" "node_leaf_key n i = Some k" using leaf_entry [OF assms] by (simp_all add: i_def)
  then have ki: "keys_of n ! i = k" using node_leaf_key_keys [OF shape assms(2)] by simp
  obtain ks vs where b: "node_body n = LeafNode ks vs" "length ks = cap_items cap" "length vs = cap_items cap" "node_size n \<le> cap_items cap"
    by (rule node_shape_leaf [OF shape assms(2)])
  let ?n = "n\<lparr>node_body := LeafNode ks (vs[i := v])\<rparr>"
  have set: "node_set_value n i v = Some ?n" using b i by (simp add: arr_set_def node_access_defs)
  have same: "same_header n ?n" by (simp add: same_header_def)
  have keys: "keys_of ?n = keys_of n" using b by (simp add: keys_of_def node_keys_def)
  have ok: "node_ok cap low lvl D a ?n"
    using assms(1,2) b keys same_headerD [OF same] right_ok_cong [of ?n n] by (simp add: node_ok_def node_shape_def)
  have len: "length (keys_of n) = node_size n" "length (values_of n) = node_size n" using filled_lengths [OF shape] assms(2) by simp_all
  have vals: "values_of ?n = (values_of n)[i := v]" using b i by (simp add: values_of_def take_update_swap)
  have nth: "entries_of ?n ! j = (if j = i then (k, v) else entries_of n ! j)" if "j < node_size n" for j
    using that len keys vals ki i by (simp add: entries_of_def)
  have other: "fst (entries_of n ! j) = k \<longleftrightarrow> j = i" if "j < node_size n" for j
    using that len ki i(1) sorted by (simp add: entries_of_def nth_eq_iff_index_eq strict_sorted_iff flip: ki)
  have size: "length (entries_of ?n) = node_size n" "length (entries_of n) = node_size n" using len keys vals by (simp_all add: entries_of_def)
  have "(x, y) \<in> set (entries_of ?n) \<longleftrightarrow> (if x = k then y = v else (x, y) \<in> set (entries_of n))" for x y
  proof
    assume "(x, y) \<in> set (entries_of ?n)"
    then obtain j where "j < node_size n" "entries_of ?n ! j = (x, y)" using size by (metis in_set_conv_nth)
    then show "if x = k then y = v else (x, y) \<in> set (entries_of n)" using nth [of j] other [of j] size(2) nth_mem [of j "entries_of n"]
      by (cases "j = i") auto
  next
    assume r: "if x = k then y = v else (x, y) \<in> set (entries_of n)"
    show "(x, y) \<in> set (entries_of ?n)"
    proof (cases "x = k")
      case True
      then show ?thesis using r nth [OF i(1)] nth_mem [of i "entries_of ?n"] i(1) size by simp
    next
      case False
      then obtain j where j: "j < node_size n" "entries_of n ! j = (x, y)" using r size by (metis in_set_conv_nth)
      then have "j \<noteq> i" using other [of j] False by auto
      then show ?thesis using nth [OF j(1)] j nth_mem [of j "entries_of ?n"] size by simp
    qed
  qed
  then show ?thesis using set same ok unfolding i_def [symmetric] by blast
qed

text \<open>The entries after the update of a key.\<close>

definition updated :: "u64 \<Rightarrow> 'v \<Rightarrow> (u64 \<times> 'v) set \<Rightarrow> (u64 \<times> 'v) set" where
  "updated k v C = {e \<in> C. fst e \<noteq> k} \<union> {(k, v)}"

lemma contents_overwrite:
  assumes "nodes_inv cap low lvl h" "h a = Some n" "is_leaf n" "low a \<le> k" "k < high_key n"
    "node_ok cap low lvl (dom h) a n'" "same_header n n'"
    "\<forall>x y. (x, y) \<in> set (entries_of n') \<longleftrightarrow> (if x = k then y = v else (x, y) \<in> set (entries_of n))"
  shows "contents (h(a \<mapsto> n')) = updated k v (contents h)"
proof (rule set_eqI)
  fix e :: "u64 \<times> 'a" obtain x y where e: "e = (x, y)" by (cases e)
  have leaf: "is_leaf n'" using assms(3) same_headerD(1) [OF assms(7)] by simp
  show "e \<in> contents (h(a \<mapsto> n')) \<longleftrightarrow> e \<in> updated k v (contents h)"
  proof (cases "x = k")
    case True
    have "nodes_inv cap low lvl (h(a \<mapsto> n'))"
      by (rule nodes_inv_update [OF assms(1,2,6)]) (use same_headerD [OF assms(7)] in simp_all)
    from contents_leaf [OF this, of a n' k y]
    have "(k, y) \<in> contents (h(a \<mapsto> n')) \<longleftrightarrow> (k, y) \<in> set (entries_of n')"
      using leaf assms(4,5) same_headerD(4) [OF assms(7)] by simp
    then show ?thesis using assms(8) True e by (auto simp: updated_def)
  next
    case False
    then have "e \<in> node_contents n' \<longleftrightarrow> e \<in> node_contents n" using assms(3,8) leaf e by (simp add: node_contents_def)
    then have "e \<in> contents (h(a \<mapsto> n')) \<longleftrightarrow> e \<in> contents h"
      unfolding contents_def mem_Collect_eq ex_node_update ex_node_split [of h a n "\<lambda>m. e \<in> node_contents m", OF assms(2)] by simp
    then show ?thesis using False e by (auto simp: updated_def)
  qed
qed

lemma update_run_reaches:
  assumes "tree_inv cap low lvl t" "(k, w) \<in> contents (bt_nodes t)"
    "placed low (bt_nodes t) task" "b_annotated task = Some a" "b_op task = Update v" "b_key task = k"
    "card (reach low lvl (bt_nodes t) a) < fuel"
  shows "\<exists>t'. task_run fuel cap blk blk2 zero task t = Reported t' (Updated k v) \<and> tree_inv cap low lvl t' \<and>
    contents (bt_nodes t') = updated k v (contents (bt_nodes t))"
  using assms(3-)
proof (induction fuel arbitrary: task a)
  case (Suc fuel)
  note inv = tree_invD(1) [OF assms(1)]
  obtain n where n: "bt_nodes t a = Some n" using Suc.prems(1,2) by (auto simp: placed_def)
  have fin: "finite (reach low lvl (bt_nodes t) a)" using inv by (simp add: reach_def nodes_inv_def)
  have "a \<in> reach low lvl (bt_nodes t) a" using n by (auto simp: reach_def)
  then have "0 < card (reach low lvl (bt_nodes t) a)" using fin card_gt_0_iff by blast
  then obtain fuel' where fuel: "fuel = Suc fuel'" using Suc.prems(5) by (cases fuel) auto
  from navigate_cases [OF inv Suc.prems(1,2) n, of True]
  show ?case
  proof (elim disjE exE conjE)
    assume leaf: "navigate True task n = Some None" "is_leaf n" "low a \<le> b_key task" "b_key task < high_key n"
    have in_leaf: "(k, w) \<in> set (entries_of n)" using contents_leaf [OF inv n leaf(2)] leaf Suc.prems(4) assms(2) by simp
    have ok: "node_ok cap low lvl (dom (bt_nodes t)) a n" by (rule nodes_invD [OF inv n])
    from leaf_update_ok [OF ok leaf(2) in_leaf, of v] obtain n' where
      n': "node_set_value n (node_index n k) v = Some n'" "same_header n n'" "node_ok cap low lvl (dom (bt_nodes t)) a n'"
      "\<forall>x y. (x, y) \<in> set (entries_of n') \<longleftrightarrow> (if x = k then y = v else (x, y) \<in> set (entries_of n))" by blast
    let ?t = "t\<lparr>bt_nodes := (bt_nodes t)(a \<mapsto> n')\<rparr>"
    have "\<not> is_inner n" using ok leaf(2) by (simp add: node_ok_def node_shape_def)
    have wr: "update_execute v (task\<lparr>b_readonly := False\<rparr>) t = Some (?t, Done (Updated k v))"
      using leaf n Suc.prems n'(1) leaf_entry(2) [OF ok leaf(2) in_leaf] \<open>\<not> is_inner n\<close>
      by (simp add: update_execute_def navigate_def split: if_splits)
    have "task_run (Suc fuel) cap blk blk2 zero task t = Reported ?t (Updated k v)"
    proof (cases "b_readonly task")
      case True
      then have "update_execute v task t = Some (t, Again (task\<lparr>b_readonly := False\<rparr>))"
        using leaf n Suc.prems by (simp add: update_execute_def)
      then show ?thesis using wr Suc.prems(3) by (simp add: fuel)
    next
      case False
      then have "task\<lparr>b_readonly := False\<rparr> = task" by simp
      then show ?thesis using wr Suc.prems(3) by simp
    qed
    then show ?thesis
      using tree_inv_update [OF assms(1) n n'(3,2)] contents_overwrite [OF inv n leaf(2) _ _ n'(3,2,4)] leaf(3,4) Suc.prems(4)
      by (intro exI [of _ ?t]) (simp del: task_run.simps fun_upd_apply)
  next
    fix task' a' assume move: "navigate True task n = Some (Some task')" "placed low (bt_nodes t) task'" "b_annotated task' = Some a'"
      "b_op task' = b_op task" "b_key task' = b_key task" "closer low lvl (bt_nodes t) a' a"
    have "a' \<in> dom (bt_nodes t)" using move(2,3) by (simp add: placed_def)
    from reach_shrinks [OF move(6) _ this] n have "reach low lvl (bt_nodes t) a' \<subset> reach low lvl (bt_nodes t) a" by blast
    from psubset_card_mono [OF fin this] have "card (reach low lvl (bt_nodes t) a') < fuel" using Suc.prems(5) by simp
    moreover have "task_run (Suc fuel) cap blk blk2 zero task t = task_run fuel cap blk blk2 zero task' t"
      using move(1) n Suc.prems by (simp add: update_execute_def)
    ultimately show ?thesis using Suc.IH [OF move(2,3)] Suc.prems(3,4) move(4,5) by simp
  qed
qed simp

subsection \<open>A driver for schedules\<close>

text \<open>
  An executable run of a schedule: commands spawn insertions or execute the task at a position
  of the pending ones; memory is handed out at increasing addresses. Every successful run of the
  driver is a run of the index, which gives concrete reachable trees.
\<close>

datatype 'v command = Spawn u64 'v | Run nat

definition memory :: "capacity \<Rightarrow> 'v \<Rightarrow> bool \<Rightarrow> 'v body" where
  "memory cap zero leaf = (if leaf then LeafNode (replicate (cap_items cap) 0) (replicate (cap_items cap) zero)
     else InnerNode (replicate (cap_keys cap) 0) (replicate (cap_keys cap + 1) None))"

fun drive :: "capacity \<Rightarrow> 'v \<Rightarrow> addr \<Rightarrow> 'v command list \<Rightarrow> 'v tree \<Rightarrow> 'v btask list \<Rightarrow> ('v tree \<times> 'v btask list) option" where
  "drive cap zero c [] t tasks = Some (t, tasks)"
| "drive cap zero c (Spawn k v # cs) t tasks =
     drive cap zero c cs t (tasks @ [insert_value_task k v (bt_root t) False])"
| "drive cap zero c (Run i # cs) t tasks =
     (if i < length tasks \<and> bt_nodes t c = None \<and> bt_nodes t (Suc c) = None
      then (case task_execute cap (c, memory cap zero (is_value_task (tasks ! i))) (Suc c, memory cap zero False) zero (tasks ! i) t of
          None \<Rightarrow> None
        | Some (t', out) \<Rightarrow> drive cap zero (c + 2) cs t' (take i tasks @ next_tasks out @ drop (Suc i) tasks))
      else None)"

fun spawned :: "'v command list \<Rightarrow> (u64 \<times> 'v) list" where
  "spawned [] = []"
| "spawned (Spawn k v # cs) = (k, v) # spawned cs"
| "spawned (Run i # cs) = spawned cs"

lemma memory_shape: "body_shape cap leaf (memory cap zero leaf)"
  by (simp add: memory_def)

lemma drive_run:
  "drive cap zero c cs t tasks = Some (t', tasks') \<Longrightarrow> index_run cap zero t tasks log \<Longrightarrow> index_run cap zero t' tasks' (log @ spawned cs)"
proof (induction cap zero c cs t tasks arbitrary: log rule: drive.induct)
  case (2 cap zero c k v cs t tasks)
  from "2.IH" [OF _ index_spawn [OF "2.prems"(2)]] "2.prems"(1) show ?case by simp
next
  case (3 cap zero c i cs t tasks)
  let ?task = "tasks ! i" and ?blk = "(c, memory cap zero (is_value_task (tasks ! i)))" and ?blk2 = "(Suc c, memory cap zero False)"
  have i: "i < length tasks" "bt_nodes t c = None" "bt_nodes t (Suc c) = None"
    using "3.prems"(1) by (auto split: if_splits)
  then obtain t1 out where x: "task_execute cap ?blk ?blk2 zero ?task t = Some (t1, out)"
    "drive cap zero (c + 2) cs t1 (take i tasks @ next_tasks out @ drop (Suc i) tasks) = Some (t', tasks')"
    using "3.prems"(1) by (auto simp del: task_execute.simps split: option.splits)
  have fresh: "fresh_blocks cap (is_value_task ?task) (bt_nodes t) ?blk ?blk2"
    using i by (simp add: fresh_blocks_def memory_shape del: is_value_task.simps)
  have "index_run cap zero t (take i tasks @ ?task # drop (Suc i) tasks) log"
    using "3.prems"(2) i(1) by (simp add: id_take_nth_drop [symmetric])
  from index_execute [OF this fresh x(1)] have "index_run cap zero t1 (take i tasks @ next_tasks out @ drop (Suc i) tasks) log" .
  from "3.IH" [OF _ x(1) refl x(2) this] i show ?case by simp
qed simp

text \<open>Four insertions, interleaved; two splits, a new root, one separator inserted by a task of its own.\<close>

definition demo_cap :: capacity where
  "demo_cap = \<lparr>cap_keys = 2, cap_items = 2\<rparr>"

definition demo_new :: "nat tree" where
  "demo_new = tree_new ExclusiveWriter ProtocolOLFIT (0, memory demo_cap 0 True)"

definition demo_commands :: "nat command list" where
  "demo_commands = [Spawn 5 50, Spawn 3 30, Run 1, Run 0, Spawn 7 70, Spawn 9 90, Run 1, Run 0, Run 0, Run 0]"

lemma demo_caps: "2 \<le> cap_items demo_cap" "2 \<le> cap_keys demo_cap"
  by (simp_all add: demo_cap_def)

lemma demo_new_run: "index_run demo_cap 0 demo_new [] []"
  unfolding demo_new_def by (rule index_new) (simp add: memory_shape)

text \<open>The tree the schedule ends with.\<close>

definition demo :: "nat tree" where
  "demo = fst (the (drive demo_cap 0 1 demo_commands demo_new []))"

lemma demo_drive: "map_option snd (drive demo_cap 0 1 demo_commands demo_new []) = Some []"
  by code_simp

lemma demo_run: "index_run demo_cap 0 demo [] (spawned demo_commands)"
proof -
  obtain t where "drive demo_cap 0 1 demo_commands demo_new [] = Some (t, [])" using demo_drive by auto
  then show ?thesis using drive_run [OF _ demo_new_run] by (fastforce simp: demo_def)
qed

lemma demo_entry: "(7, 70) \<in> contents (bt_nodes demo)"
proof -
  have "case bt_nodes demo 5 of None \<Rightarrow> False | Some n \<Rightarrow> is_leaf n \<and> (7, 70) \<in> set (entries_of n)" by code_simp
  then show ?thesis by (auto simp: contents_def node_contents_def split: option.splits)
qed

subsection \<open>Properties\<close>

lemma contents_key_bound:
  assumes "nodes_inv cap low lvl h" "(k, v) \<in> contents h"
  shows "k < - 1"
proof -
  obtain a n where n: "h a = Some n" "is_leaf n" "(k, v) \<in> set (entries_of n)"
    using assms(2) by (auto simp: contents_def node_contents_def split: if_splits)
  have ok: "node_ok cap low lvl (dom h) a n" by (rule nodes_invD [OF assms(1) n(1)])
  have "k \<in> set (keys_of n)" using n(3) by (auto simp: entries_of_def dest: set_zip_leftD)
  then have "k < high_key n" using ok by (simp add: node_ok_def)
  then show ?thesis using word_n1_ge [of "high_key n"] by (rule order.strict_trans2)
qed

lemma placed_root:
  assumes "tree_inv cap low lvl t" "(b_key task, v) \<in> contents (bt_nodes t)" "b_annotated task = Some (bt_root t)"
  shows "placed low (bt_nodes t) task"
  using contents_key_bound [OF tree_invD(1) [OF assms(1)] assms(2)] tree_invD(3,4) [OF assms(1)] assms(3)
  by (simp add: placed_def)

lemma reach_bound: "tree_inv cap low lvl t \<Longrightarrow> card (reach low lvl (bt_nodes t) a) \<le> card (dom (bt_nodes t))"
  by (rule card_mono) (auto simp: reach_def tree_inv_def nodes_inv_def)

text \<open>
  The insertion of the largest key, executed again and again: it is at a node further right each
  time, and in the end at none.
\<close>

lemma stray_run_silent:
  assumes "b_op task = InsertValue v" "b_key task = - 1"
  shows "\<exists>task'. task_run fuel cap blk blk2 zero task t \<in> {OnTheWay t task', Failed t task'}"
  using assms
proof (induction fuel arbitrary: task)
  case (Suc fuel)
  show ?case
  proof (cases "task_execute cap blk blk2 zero task t")
    case (Some r)
    then obtain b where r: "r = (t, Again (task\<lparr>b_annotated := b\<rparr>))"
      unfolding stray_execute [OF Suc.prems] by (auto simp: bind_eq_Some_conv)
    show ?thesis using Suc.IH [of "task\<lparr>b_annotated := b\<rparr>"] Suc.prems Some r by (simp del: task_execute.simps)
  qed (simp del: task_execute.simps)
qed simp

lemma stray_run_fails:
  assumes "nodes_inv cap low lvl (bt_nodes t)" "b_op task = InsertValue v" "b_key task = - 1" "b_annotated task = Some a"
    "a \<in> dom (bt_nodes t)" "card (reach low lvl (bt_nodes t) a) \<le> fuel"
  shows "task_run (Suc fuel) cap blk blk2 zero task t = Failed t (task\<lparr>b_annotated := None\<rparr>)"
  using assms(2-)
proof (induction fuel arbitrary: task a)
  case 0
  have "a \<in> reach low lvl (bt_nodes t) a" using "0.prems"(4) by (auto simp: reach_def)
  moreover have "finite (reach low lvl (bt_nodes t) a)" using assms(1) by (simp add: reach_def nodes_inv_def)
  ultimately show ?case using "0.prems"(5) by auto
next
  case (Suc fuel)
  obtain n where n: "bt_nodes t a = Some n" using Suc.prems(4) by auto
  have ok: "node_ok cap low lvl (dom (bt_nodes t)) a n" by (rule nodes_invD [OF assms(1) n])
  let ?task = "task\<lparr>b_annotated := right_sibling n\<rparr>"
  have step: "task_run (Suc (Suc fuel)) cap blk blk2 zero task t = task_run (Suc fuel) cap blk blk2 zero ?task t"
    using stray_execute [OF Suc.prems(1,2), of cap blk blk2 zero t] Suc.prems(3) n by (simp del: task_execute.simps)
  show ?case
  proof (cases "right_sibling n")
    case None
    then show ?thesis using step stray_execute [of ?task v cap blk blk2 zero t] Suc.prems(1,2) by (simp del: task_execute.simps)
  next
    case (Some b)
    then have b: "b \<in> dom (bt_nodes t)" "lvl b = lvl a" "low a < low b" using ok by (simp_all add: node_ok_def right_ok_def)
    from reach_shrinks [OF right_is_closer [OF assms(1) b] Suc.prems(4) b(1)]
    have "card (reach low lvl (bt_nodes t) b) < card (reach low lvl (bt_nodes t) a)"
      using assms(1) by (intro psubset_card_mono) (simp_all add: reach_def nodes_inv_def)
    then have "card (reach low lvl (bt_nodes t) b) \<le> fuel" using Suc.prems(5) by simp
    from Suc.IH [OF _ _ _ b(1) this, of ?task] Suc.prems(1,2) Some step show ?thesis by (simp del: task_run.simps)
  qed
qed

text \<open>
  C4: In every state that interleaved insertions reach, the nodes keep their invariant: sizes
  within the capacity, strictly sorted keys inside the range of the node, the ranges of a level
  without overlap and chained by the right siblings, separators that lead to the node whose range
  starts there, parents one level up, and the root at the top with the height of the tree.
\<close>

theorem index_invariant:
  assumes "index_run cap zero t tasks log" "2 \<le> cap_items cap" "2 \<le> cap_keys cap"
  shows "\<exists>low lvl. tree_inv cap low lvl t"
  using index_run_inv [OF assms] by blast

lemma index_invariant_witness: "\<exists>low lvl. tree_inv demo_cap low lvl demo"
  by (rule index_invariant [OF demo_run demo_caps])

text \<open>
  C2: No interleaving of insertions gets stuck, but for the largest key of the key type: whichever
  pending task executes next, with fresh memory for a split, its execution follows no null or
  dangling pointer and leaves no array, and the tree with the follow-up task is again a reachable
  state of the index. The only execution that fails is the one of an insertion of the largest key
  that has moved beyond the rightmost node of its level: it follows the null pointer.
\<close>

theorem index_never_fails:
  assumes "index_run cap zero t (xs @ task # ys) log" "fresh_blocks cap (is_value_task task) (bt_nodes t) blk blk2"
    "2 \<le> cap_items cap" "2 \<le> cap_keys cap"
  shows "if is_value_task task \<and> b_key task = - 1 \<and> b_annotated task = None then task_execute cap blk blk2 zero task t = None
    else \<exists>t' out. task_execute cap blk blk2 zero task t = Some (t', out) \<and> index_run cap zero t' (xs @ next_tasks out @ ys) log"
proof -
  obtain low lvl where inv: "tree_inv cap low lvl t" "tasks_ok low lvl (bt_nodes t) (xs @ task # ys)"
    "log_inv (contents (bt_nodes t)) (value_keys (xs @ task # ys)) log"
    using index_run_inv [OF assms(1,3,4)] by (elim exE conjE) (rule that; assumption)
  show ?thesis
  proof (cases "b_key task = - 1")
    case True
    have "pending_ok low lvl (bt_nodes t) task" using inv(2) by (simp add: tasks_ok_def)
    then have stray: "stray (bt_nodes t) task"
      using task_ok_key [of low lvl _ task] True by (auto simp: pending_ok_def simp del: task_ok.simps)
    then obtain v where op: "b_op task = InsertValue v" using value_task_op by (auto simp: stray_def)
    show ?thesis
    proof (cases "b_annotated task")
      case None
      then show ?thesis using stray_execute [OF op True, of cap blk blk2 zero t] op True by simp
    next
      case (Some a)
      then obtain n where "bt_nodes t a = Some n" using stray by (auto simp: stray_def)
      then have "\<exists>t' out. task_execute cap blk blk2 zero task t = Some (t', out)"
        using stray_execute [OF op True, of cap blk blk2 zero t] Some by simp
      then show ?thesis using index_execute [OF assms(1,2)] Some by auto
    qed
  next
    case False
    from index_step_inv [OF inv assms(2-4) this, of zero] obtain t' out where "task_execute cap blk blk2 zero task t = Some (t', out)"
      by (elim exE conjE) (rule that)
    then have "\<exists>t' out. task_execute cap blk blk2 zero task t = Some (t', out) \<and> index_run cap zero t' (xs @ next_tasks out @ ys) log"
      using index_execute [OF assms(1,2)] by (intro exI conjI)
    then show ?thesis using False by simp
  qed
qed

lemma index_never_fails_witness:
  "\<exists>t' out. task_execute demo_cap (1, memory demo_cap 0 True) (2, memory demo_cap 0 False) 0 (insert_value_task 5 50 0 False) demo_new =
     Some (t', out) \<and> index_run demo_cap 0 t' ([] @ next_tasks out @ []) [(5, 50)]"
proof -
  let ?task = "insert_value_task 5 50 0 False :: nat btask"
  have run: "index_run demo_cap 0 demo_new ([] @ [?task]) [(5, 50)]"
    using index_spawn [OF demo_new_run, of 5 50 False] by (simp add: demo_new_def tree_new_def)
  have "fresh_blocks demo_cap (is_value_task ?task) (bt_nodes demo_new) (1, memory demo_cap 0 True) (2, memory demo_cap 0 False)"
    by (simp add: fresh_blocks_def memory_shape demo_new_def tree_new_def create_leaf_node_def create_node_def insert_value_task_def)
  moreover have "b_annotated ?task = Some 0" by (simp add: insert_value_task_def)
  ultimately show ?thesis using index_never_fails [OF run _ demo_caps] by simp
qed

text \<open>
  C1: The tree refines a map, whatever the interleaving: once no insertion of a value is pending
  (separators may still be on their way up) the keys in the leaves are exactly the keys that
  were inserted, every entry is one that was inserted, and no key has two values.
\<close>

theorem index_holds_the_inserted_keys:
  assumes "index_run cap zero t tasks log" "2 \<le> cap_items cap" "2 \<le> cap_keys cap" "\<forall>task \<in> set tasks. \<not> is_value_task task"
  shows "fst ` contents (bt_nodes t) = fst ` set log \<and> contents (bt_nodes t) \<subseteq> set log \<and>
    (\<forall>k v v'. (k, v) \<in> contents (bt_nodes t) \<and> (k, v') \<in> contents (bt_nodes t) \<longrightarrow> v = v')"
proof -
  obtain low lvl where log: "log_inv (contents (bt_nodes t)) (value_keys tasks) log"
    using index_run_inv [OF assms(1-3)] by (elim exE conjE) (rule that)
  have "value_keys tasks = {}" using assms(4) by (auto simp: value_keys_def)
  with log have L: "log_inv (contents (bt_nodes t)) {} log" by simp
  have sub: "contents (bt_nodes t) \<subseteq> set log" using L by (simp add: log_inv_def)
  have "fst e \<in> fst ` contents (bt_nodes t)" if "e \<in> set log" for e
  proof -
    have "\<exists>w. (fst e, w) \<in> contents (bt_nodes t)" using L that unfolding log_inv_def by (metis empty_iff prod.collapse)
    then obtain w where "(fst e, w) \<in> contents (bt_nodes t)" ..
    then show ?thesis by (metis fst_conv imageI)
  qed
  then have "fst ` contents (bt_nodes t) = fst ` set log" using sub by (intro equalityI image_mono image_subsetI)
  moreover have "v = v'" if "(k, v) \<in> contents (bt_nodes t) \<and> (k, v') \<in> contents (bt_nodes t)" for k v v'
    using L that unfolding log_inv_def by metis
  ultimately show ?thesis using sub by simp
qed

lemma index_holds_the_inserted_keys_witness: "fst ` contents (bt_nodes demo) = {5, 3, 7, 9}"
  using index_holds_the_inserted_keys [OF demo_run demo_caps] by (simp add: demo_commands_def)

text \<open>
  C3: A lookup terminates and finds the value: in every reachable state, also between a split and
  the insertion of its separator, a lookup task spawned at the root reports the value of a key
  of the tree after at most as many executions as the tree has nodes.
\<close>

theorem lookup_finds_the_value:
  assumes "index_run cap zero t tasks log" "2 \<le> cap_items cap" "2 \<le> cap_keys cap" "(k, v) \<in> contents (bt_nodes t)"
  shows "task_run (card (dom (bt_nodes t))) cap blk blk2 zero (lookup_task k old (bt_root t)) t = Reported t (Found k v)"
proof -
  obtain low lvl where inv: "tree_inv cap low lvl t" using index_run_inv [OF assms(1-3)] by blast
  let ?task = "lookup_task k old (bt_root t)"
  have "placed low (bt_nodes t) ?task" by (rule placed_root [OF inv]) (use assms(4) in \<open>simp_all add: lookup_task_def\<close>)
  from lookup_run_reaches [OF tree_invD(1) [OF inv] assms(4) this, of "bt_root t" old] reach_bound [OF inv]
  show ?thesis by (simp add: lookup_task_def)
qed

lemma lookup_finds_the_value_witness:
  "task_run (card (dom (bt_nodes demo))) demo_cap (10, memory demo_cap 0 True) (11, memory demo_cap 0 False) 0
     (lookup_task 7 0 (bt_root demo)) demo = Reported demo (Found 7 70)"
  by (rule lookup_finds_the_value [OF demo_run demo_caps demo_entry])

text \<open>
  C5: An update task spawned at the root replaces the value of an existing key and nothing else,
  within one execution more than the tree has nodes (the task may have to acquire its leaf again
  for writing), reports the update, and keeps the invariant of the tree.
\<close>

theorem update_replaces_the_value:
  assumes "index_run cap zero t tasks log" "2 \<le> cap_items cap" "2 \<le> cap_keys cap" "(k, w) \<in> contents (bt_nodes t)"
  shows "\<exists>t' low lvl. task_run (Suc (card (dom (bt_nodes t)))) cap blk blk2 zero (update_task k v (bt_root t) ro) t = Reported t' (Updated k v) \<and>
    contents (bt_nodes t') = {e \<in> contents (bt_nodes t). fst e \<noteq> k} \<union> {(k, v)} \<and> tree_inv cap low lvl t'"
proof -
  obtain low lvl where inv: "tree_inv cap low lvl t" using index_run_inv [OF assms(1-3)] by blast
  let ?task = "update_task k v (bt_root t) ro" and ?fuel = "Suc (card (dom (bt_nodes t)))"
  have task: "b_annotated ?task = Some (bt_root t)" "b_op ?task = Update v" "b_key ?task = k" by (simp_all add: update_task_def)
  have "placed low (bt_nodes t) ?task" by (rule placed_root [OF inv]) (use assms(4) task in simp_all)
  moreover have "card (reach low lvl (bt_nodes t) (bt_root t)) < ?fuel" using reach_bound [OF inv] by (simp add: le_imp_less_Suc)
  ultimately have "\<exists>t'. task_run ?fuel cap blk blk2 zero ?task t = Reported t' (Updated k v) \<and> tree_inv cap low lvl t' \<and>
    contents (bt_nodes t') = updated k v (contents (bt_nodes t))"
    by (intro update_run_reaches [OF inv assms(4) _ task])
  then show ?thesis unfolding updated_def by (elim exE conjE) (intro exI conjI)
qed

lemma update_replaces_the_value_witness:
  "\<exists>t'. task_run (Suc (card (dom (bt_nodes demo)))) demo_cap (10, memory demo_cap 0 True) (11, memory demo_cap 0 False) 0
     (update_task 7 71 (bt_root demo) True) demo = Reported t' (Updated 7 71)"
  using update_replaces_the_value [OF demo_run demo_caps demo_entry, of _ _ 71 True] by blast

text \<open>
  C6: The largest key of the key type cannot be inserted. Every node ends at or before it, so its
  insertion, started at any node of a reachable tree, only moves to right siblings: whatever the
  number of executions, the tree is unchanged, nothing is reported and no task is handed over; after
  at most as many executions as the tree has nodes the task stands beyond the rightmost node and its
  next execution follows a null pointer. No reachable tree holds the key.
\<close>

theorem largest_key_is_never_inserted:
  assumes "index_run cap zero t tasks log" "2 \<le> cap_items cap" "2 \<le> cap_keys cap" "a \<in> dom (bt_nodes t)"
  shows "task_run (Suc (card (dom (bt_nodes t)))) cap blk blk2 zero (insert_value_task (- 1) v a ro) t =
      Failed t ((insert_value_task (- 1) v a ro)\<lparr>b_annotated := None\<rparr>) \<and>
    (\<forall>fuel. \<exists>task. task_run fuel cap blk blk2 zero (insert_value_task (- 1) v a ro) t \<in> {OnTheWay t task, Failed t task}) \<and>
    - 1 \<notin> fst ` contents (bt_nodes t)"
proof -
  obtain low lvl where inv: "tree_inv cap low lvl t" using index_run_inv [OF assms(1-3)] by blast
  let ?task = "insert_value_task (- 1) v a ro"
  have task: "b_op ?task = InsertValue v" "b_key ?task = - 1" "b_annotated ?task = Some a" by (simp_all add: insert_value_task_def)
  have "k \<noteq> - 1" if "(k, w) \<in> contents (bt_nodes t)" for k w
    using contents_key_bound [OF tree_invD(1) [OF inv] that] by simp
  then have "- 1 \<notin> fst ` contents (bt_nodes t)" by force
  then show ?thesis
    using stray_run_fails [OF tree_invD(1) [OF inv] task assms(4) reach_bound [OF inv]] stray_run_silent [OF task(1,2)] by blast
qed

lemma largest_key_is_never_inserted_witness:
  "task_run (Suc (card (dom (bt_nodes demo)))) demo_cap (10, memory demo_cap 0 True) (11, memory demo_cap 0 False) 0
     (insert_value_task (- 1) 8 0 True) demo = Failed demo ((insert_value_task (- 1) 8 0 True)\<lparr>b_annotated := None\<rparr>)"
proof -
  have "case bt_nodes demo 0 of None \<Rightarrow> False | Some n \<Rightarrow> True" by code_simp
  then have "0 \<in> dom (bt_nodes demo)" by (auto split: option.splits)
  from largest_key_is_never_inserted [OF demo_run demo_caps this] show ?thesis by blast
qed

end
