(* ===== verification/BLinkCheck.thy ===== *)
theory BLinkCheck
  imports BLinkIndex
begin

section \<open>Iteration, statistics and the consistency check of the tree\<close>

text \<open>
  node_iterator.h walks the nodes level by level, along the right siblings of a level and then from
  its first node to the first child; node_statistics.h counts nodes and records on the way, and
  node_consistency_checker.h looks for violations of the order of keys, children and levels. What
  the check prints is a list of errors here; None is a read outside an array or a null pointer.

  The lemmas show that the iteration ends, and that the check prints nothing for the trees that
  insertions build.
\<close>

subsection \<open>Iteration\<close>

record iterator =
  it_current :: "addr option"
  it_first :: "addr option"

definition iterator_begin :: "'v tree \<Rightarrow> iterator" where
  "iterator_begin t = \<lparr>it_current = Some (bt_root t), it_first = Some (bt_root t)\<rparr>"

definition iterator_next :: "'v heap \<Rightarrow> iterator \<Rightarrow> iterator option" where
  "iterator_next h it = do {
     a \<leftarrow> it_current it;
     n \<leftarrow> h a;
     (case right_sibling n of
        Some r \<Rightarrow> Some (it\<lparr>it_current := Some r\<rparr>)
      | None \<Rightarrow>
          if is_inner n then do {
            f \<leftarrow> it_first it;
            m \<leftarrow> h f;
            s \<leftarrow> node_separator m 0;
            Some \<lparr>it_current = s, it_first = s\<rparr>
          }
          else Some (it\<lparr>it_current := None\<rparr>))
   }"

text \<open>The nodes a loop over the tree visits, until the iterator is the end iterator.\<close>

fun iterate :: "nat \<Rightarrow> 'v heap \<Rightarrow> iterator \<Rightarrow> addr list option" where
  "iterate 0 h it = None"
| "iterate (Suc fuel) h it = (case it_current it of
     None \<Rightarrow> Some []
   | Some a \<Rightarrow> do { it' \<leftarrow> iterator_next h it; xs \<leftarrow> iterate fuel h it'; Some (a # xs) })"

subsection \<open>Statistics\<close>

record statistics =
  st_inner_nodes :: u64
  st_leaf_nodes :: u64
  st_inner_node_keys :: u64
  st_leaf_node_keys :: u64
  st_tree_height :: u16

definition statistics_new :: "u16 \<Rightarrow> statistics" where
  "statistics_new height = \<lparr>st_inner_nodes = 0, st_leaf_nodes = 0, st_inner_node_keys = 0, st_leaf_node_keys = 0, st_tree_height = height\<rparr>"

definition statistics_add :: "'v node \<Rightarrow> statistics \<Rightarrow> statistics" where
  "statistics_add n st =
     (let st1 = st\<lparr>st_inner_nodes := st_inner_nodes st + (if is_inner n then 1 else 0),
                   st_leaf_nodes := st_leaf_nodes st + (if is_leaf n then 1 else 0)\<rparr>
      in if is_leaf n then st1\<lparr>st_leaf_node_keys := st_leaf_node_keys st1 + of_nat (node_size n)\<rparr>
         else st1\<lparr>st_inner_node_keys := st_inner_node_keys st1 + of_nat (node_size n)\<rparr>)"

fun statistics_add_all :: "'v heap \<Rightarrow> addr list \<Rightarrow> statistics \<Rightarrow> statistics option" where
  "statistics_add_all h [] st = Some st"
| "statistics_add_all h (a # as) st = do { n \<leftarrow> h a; statistics_add_all h as (statistics_add n st) }"

definition tree_statistics :: "nat \<Rightarrow> 'v tree \<Rightarrow> statistics option" where
  "tree_statistics fuel t = do {
     as \<leftarrow> iterate fuel (bt_nodes t) (iterator_begin t);
     statistics_add_all (bt_nodes t) as (statistics_new (ucast (bt_height t)))
   }"

subsection \<open>The check\<close>

datatype check_error = HighKey | KeyOrder nat | SeparatorEmpty nat | ChildOrder nat | LevelSibling | LevelChild nat | WrongParent nat

text \<open>The errors of a loop over indices.\<close>

fun collect :: "(nat \<Rightarrow> 'e list option) \<Rightarrow> nat list \<Rightarrow> 'e list option" where
  "collect f [] = Some []"
| "collect f (i # is) = do { x \<leftarrow> f i; xs \<leftarrow> collect f is; Some (x @ xs) }"

definition node_key :: "'v node \<Rightarrow> nat \<Rightarrow> u64 option" where
  "node_key n i = (if is_leaf n then node_leaf_key n i else node_inner_key n i)"

text \<open>size() - 1 as the std::uint16_t that the accessors take.\<close>

definition last_index :: "'v node \<Rightarrow> nat" where
  "last_index n = (node_size n + 2 ^ 16 - 1) mod 2 ^ 16"

definition check_high_key_valid :: "'v node \<Rightarrow> check_error list option" where
  "check_high_key_valid n = do {
     k \<leftarrow> node_key n (last_index n);
     Some (if high_key n \<le> k then [HighKey] else [])
   }"

definition check_key_order_valid :: "'v node \<Rightarrow> check_error list option" where
  "check_key_order_valid n = collect (\<lambda>i. do {
     k \<leftarrow> node_key n (i - 1);
     k' \<leftarrow> node_key n i;
     Some (if k' \<le> k then [KeyOrder i] else [])
   }) [1..<node_size n]"

definition check_no_null_separator :: "'v node \<Rightarrow> check_error list option" where
  "check_no_null_separator n =
     (if is_inner n then collect (\<lambda>i. do {
        s \<leftarrow> node_separator n i;
        Some (if s = None then [SeparatorEmpty i] else [])
      }) [0..<Suc (node_size n)] else Some [])"

definition child_node :: "'v heap \<Rightarrow> 'v node \<Rightarrow> nat \<Rightarrow> 'v node option" where
  "child_node h n i = do { s \<leftarrow> node_separator n i; a \<leftarrow> s; h a }"

definition check_children_order_valid :: "'v heap \<Rightarrow> 'v node \<Rightarrow> check_error list option" where
  "check_children_order_valid h n =
     (if is_inner n then collect (\<lambda>i. do {
        child \<leftarrow> child_node h n i;
        child_last_key \<leftarrow> node_key child (last_index child);
        k \<leftarrow> node_inner_key n i;
        Some (if k \<le> child_last_key then [ChildOrder i] else [])
      }) [0..<node_size n] else Some [])"

definition check_level_valid :: "'v heap \<Rightarrow> 'v node \<Rightarrow> check_error list option" where
  "check_level_valid h n = do {
     xs \<leftarrow> (case right_sibling n of
        None \<Rightarrow> Some []
      | Some r \<Rightarrow> do { m \<leftarrow> h r; Some (if is_leaf n \<noteq> is_leaf m then [LevelSibling] else []) });
     ys \<leftarrow> (if is_inner n then collect (\<lambda>i. do {
        c \<leftarrow> child_node h n i;
        c' \<leftarrow> child_node h n (i + 1);
        Some (if is_leaf c \<noteq> is_leaf c' then [LevelChild i] else [])
      }) [0..<node_size n] else Some []);
     Some (xs @ ys)
   }"

definition check_and_print_errors :: "'v heap \<Rightarrow> 'v node \<Rightarrow> check_error list option" where
  "check_and_print_errors h n = do {
     e1 \<leftarrow> check_high_key_valid n;
     e2 \<leftarrow> check_key_order_valid n;
     e3 \<leftarrow> check_no_null_separator n;
     e4 \<leftarrow> check_children_order_valid h n;
     e5 \<leftarrow> check_level_valid h n;
     Some (e1 @ e2 @ e3 @ e4 @ e5)
   }"

text \<open>The position of a node among the separators of its parent, one past the size when it is the last or missing.\<close>

fun separator_position :: "'v node \<Rightarrow> addr \<Rightarrow> nat list \<Rightarrow> nat \<Rightarrow> nat option" where
  "separator_position p a [] i = Some i"
| "separator_position p a (j # js) i = do {
     s \<leftarrow> node_separator p j;
     if s = Some a then Some j else separator_position p a js (Suc j)
   }"

definition check_and_print_parent :: "'v heap \<Rightarrow> addr \<Rightarrow> check_error list option" where
  "check_and_print_parent h a = do {
     n \<leftarrow> h a;
     (case parent n of
        None \<Rightarrow> Some []
      | Some q \<Rightarrow> do {
          p \<leftarrow> h q;
          found \<leftarrow> node_contains p (Some a);
          if \<not> found then Some [WrongParent 1]
          else do {
            index \<leftarrow> separator_position p a [0..<Suc (node_size p)] 0;
            if index < node_size p then do {
              k \<leftarrow> node_key n (last_index n);
              pk \<leftarrow> node_inner_key p index;
              Some (if k < pk then [] else [WrongParent 2])
            }
            else do {
              k \<leftarrow> node_key n 0;
              pk \<leftarrow> node_inner_key p (index - 1);
              Some (if pk \<le> k then [] else [WrongParent 3])
            }
          }
        })
   }"

fun check_all :: "'v heap \<Rightarrow> addr list \<Rightarrow> check_error list option" where
  "check_all h [] = Some []"
| "check_all h (a # as) = do { n \<leftarrow> h a; xs \<leftarrow> check_and_print_errors h n; ys \<leftarrow> check_all h as; Some (xs @ ys) }"

definition tree_check :: "nat \<Rightarrow> 'v tree \<Rightarrow> check_error list option" where
  "tree_check fuel t = do {
     as \<leftarrow> iterate fuel (bt_nodes t) (iterator_begin t);
     check_all (bt_nodes t) as
   }"

subsection \<open>A consistent node passes\<close>

lemma collect_silent: "(\<And>i. i \<in> set is \<Longrightarrow> f i = Some []) \<Longrightarrow> collect f is = Some []"
  by (induction "is") auto

lemma last_index_eq: "0 < node_size n \<Longrightarrow> node_size n < 2 ^ 16 \<Longrightarrow> last_index n = node_size n - 1"
  by (simp add: last_index_def mod_if)

lemma node_key_keys: "node_shape cap n \<Longrightarrow> i < node_size n \<Longrightarrow> node_key n i = Some (keys_of n ! i)"
  using node_leaf_key_keys [of cap n i] node_inner_key_keys [of cap n i] by (simp add: node_key_def)

lemma last_key_below:
  assumes "node_ok cap low lvl D a n" "0 < node_size n" "node_size n < 2 ^ 16"
  shows "\<exists>k. node_key n (last_index n) = Some k \<and> k < high_key n"
proof -
  have shape: "node_shape cap n" using assms(1) by (simp add: node_ok_def)
  have "node_size n - 1 < node_size n" using assms(2) by simp
  moreover have "keys_of n ! (node_size n - 1) \<in> set (keys_of n)" using filled_lengths(1) [OF shape] assms(2) by simp
  then have "keys_of n ! (node_size n - 1) < high_key n" using assms(1) by (simp add: node_ok_def)
  ultimately show ?thesis using node_key_keys [OF shape] last_index_eq [OF assms(2,3)] by simp
qed

text \<open>The child in front of a separator: where it starts, and that it ends before the separator.\<close>

lemma child_at:
  assumes "nodes_inv cap low lvl h" "h a = Some n" "\<not> is_leaf n" "i \<le> node_size n"
  shows "\<exists>c m. child_node h n i = Some m \<and> h c = Some m \<and> children_of n ! i = Some c \<and> lvl a = Suc (lvl c) \<and>
    low c = (if i = 0 then low a else keys_of n ! (i - 1))"
proof -
  have ok: "node_ok cap low lvl (dom h) a n" by (rule nodes_invD [OF assms(1,2)])
  then have shape: "node_shape cap n" and inner: "inner_ok low lvl (dom h) a n" using assms(3) by (simp_all add: node_ok_def)
  have len: "length (keys_of n) = node_size n" "length (children_of n) = node_size n + 1" "length (pairs_of n) = node_size n"
    using filled_lengths(1,3) [OF shape] entries_keys(4) [OF shape] assms(3) by simp_all
  have "points low lvl (dom h) a (if i = 0 then low a else keys_of n ! (i - 1)) (children_of n ! i)"
  proof (cases i)
    case 0
    have "hd (children_of n) = children_of n ! 0" using len(2) by (intro hd_conv_nth) auto
    then show ?thesis using inner 0 by (simp add: inner_ok_def)
  next
    case (Suc j)
    then have j: "j < node_size n" using assms(4) by simp
    then have "pairs_of n ! j = (keys_of n ! j, children_of n ! i)" using len by (simp add: pairs_of_def nth_tl Suc)
    then have "(keys_of n ! j, children_of n ! i) \<in> set (pairs_of n)" using j len(3) nth_mem by metis
    then show ?thesis using inner Suc by (auto simp: inner_ok_def)
  qed
  then obtain c where c: "children_of n ! i = Some c" "c \<in> dom h" "lvl a = Suc (lvl c)" "low c = (if i = 0 then low a else keys_of n ! (i - 1))"
    unfolding points_def by blast
  then obtain m where "h c = Some m" by blast
  then show ?thesis using c node_separator_children [OF shape assms(3,4)] by (intro exI [of _ c] exI [of _ m]) (simp add: child_node_def)
qed

lemma child_ends_before:
  assumes "nodes_inv cap low lvl h" "h a = Some n" "\<not> is_leaf n" "i < node_size n" "child_node h n i = Some m"
  shows "high_key m \<le> keys_of n ! i"
proof -
  obtain c where c: "h c = Some m" "lvl a = Suc (lvl c)" "low c = (if i = 0 then low a else keys_of n ! (i - 1))"
    using child_at [OF assms(1-3), of i] assms(4,5) by auto
  obtain d q where d: "h d = Some q" "lvl a = Suc (lvl d)" "low d = keys_of n ! i"
    using child_at [OF assms(1-3), of "Suc i"] assms(4) by auto
  have ok: "node_ok cap low lvl (dom h) a n" by (rule nodes_invD [OF assms(1,2)])
  then have shape: "node_shape cap n" by (simp add: node_ok_def)
  have len: "length (keys_of n) = node_size n" by (rule filled_lengths(1) [OF shape])
  have lt: "low c < low d"
  proof (cases "i = 0")
    case True
    moreover have "keys_of n ! 0 \<in> set (keys_of n)" using assms(4) len True by simp
    ultimately show ?thesis using c(3) d(3) ok assms(3) by (simp add: node_ok_def inner_ok_def)
  next
    case False
    then show ?thesis
      using c(3) d(3) ok sorted_wrt_nth_less [of "(<)" "keys_of n" "i - 1" i] assms(4) len by (simp add: node_ok_def)
  qed
  show ?thesis
  proof (rule ccontr)
    assume "\<not> high_key m \<le> keys_of n ! i"
    then have "c = d" using same_level_overlap [OF assms(1) c(1) d(1)] c(2) d(2,3) lt by simp
    then show False using lt by simp
  qed
qed

text \<open>Every check is silent on a node of a tree that keeps its invariant and has no empty nodes.\<close>

lemma check_silent:
  assumes "nodes_inv cap low lvl h" "h a = Some n" "\<forall>b m. h b = Some m \<longrightarrow> 0 < node_size m \<and> node_size m < 2 ^ 16"
  shows "check_and_print_errors h n = Some []"
proof -
  have ok: "node_ok cap low lvl (dom h) a n" by (rule nodes_invD [OF assms(1,2)])
  then have shape: "node_shape cap n" and sorted: "sorted_wrt (<) (keys_of n)" by (simp_all add: node_ok_def)
  have inner: "is_inner n \<longleftrightarrow> \<not> is_leaf n" using shape by (simp add: node_shape_def)
  have len: "length (keys_of n) = node_size n" by (rule filled_lengths(1) [OF shape])
  have leaf: "is_leaf m \<longleftrightarrow> lvl b = 0" if "h b = Some m" for b m using nodes_invD [OF assms(1) that] by (simp add: node_ok_def)
  have "check_high_key_valid n = Some []"
    using last_key_below [OF ok] assms(2,3) by (auto simp: check_high_key_valid_def)
  moreover have "check_key_order_valid n = Some []"
    unfolding check_key_order_valid_def
  proof (rule collect_silent)
    fix i assume i: "i \<in> set [1..<node_size n]"
    then have "keys_of n ! (i - 1) < keys_of n ! i" using sorted_wrt_nth_less [OF sorted, of "i - 1" i] len by simp
    then show "do { k \<leftarrow> node_key n (i - 1); k' \<leftarrow> node_key n i; Some (if k' \<le> k then [KeyOrder i] else []) } = Some []"
      using i node_key_keys [OF shape, of "i - 1"] node_key_keys [OF shape, of i] by (simp add: less_imp_diff_less)
  qed
  moreover have "check_no_null_separator n = Some []"
    unfolding check_no_null_separator_def
  proof (split if_split, intro conjI impI collect_silent)
    fix i assume "is_inner n" "i \<in> set [0..<Suc (node_size n)]"
    then have i: "\<not> is_leaf n" "i \<le> node_size n" using inner by auto
    then show "do { s \<leftarrow> node_separator n i; Some (if s = None then [SeparatorEmpty i] else []) } = Some []"
      using node_separator_children [OF shape i] child_at [OF assms(1,2) i] by auto
  qed simp
  moreover have "check_children_order_valid h n = Some []"
    unfolding check_children_order_valid_def
  proof (split if_split, intro conjI impI collect_silent)
    fix i assume "is_inner n" "i \<in> set [0..<node_size n]"
    then have i: "\<not> is_leaf n" "i < node_size n" using inner by auto
    obtain c m where c: "child_node h n i = Some m" "h c = Some m" using child_at [OF assms(1,2) i(1), of i] i(2) by auto
    have "0 < node_size m" "node_size m < 2 ^ 16" using assms(3) c(2) by blast+
    from last_key_below [OF nodes_invD [OF assms(1) c(2)] this]
    obtain k where k: "node_key m (last_index m) = Some k" "k < high_key m" by blast
    have "k < keys_of n ! i" using k(2) child_ends_before [OF assms(1,2) i c(1)] by (rule order.strict_trans2)
    then show "do { child \<leftarrow> child_node h n i; child_last_key \<leftarrow> node_key child (last_index child); k \<leftarrow> node_inner_key n i;
        Some (if k \<le> child_last_key then [ChildOrder i] else []) } = Some []"
      using c(1) k(1) node_inner_key_keys [OF shape i] by simp
  qed simp
  moreover have "check_level_valid h n = Some []"
  proof -
    have "(case right_sibling n of None \<Rightarrow> Some [] | Some r \<Rightarrow> do { m \<leftarrow> h r; Some (if is_leaf n \<noteq> is_leaf m then [LevelSibling] else []) }) = Some []"
    proof (cases "right_sibling n")
      case (Some r)
      then have "r \<in> dom h" "lvl r = lvl a" using ok by (simp_all add: node_ok_def right_ok_def)
      then show ?thesis using Some leaf assms(2) by auto
    qed simp
    moreover have "(if is_inner n then collect (\<lambda>i. do { c \<leftarrow> child_node h n i; c' \<leftarrow> child_node h n (i + 1);
        Some (if is_leaf c \<noteq> is_leaf c' then [LevelChild i] else []) }) [0..<node_size n] else Some []) = Some []"
    proof (split if_split, intro conjI impI collect_silent)
      fix i assume "is_inner n" "i \<in> set [0..<node_size n]"
      then have i: "\<not> is_leaf n" "i < node_size n" using inner by auto
      obtain c m where c: "child_node h n i = Some m" "h c = Some m" "lvl a = Suc (lvl c)"
        using child_at [OF assms(1,2) i(1), of i] i(2) by auto
      obtain d q where d: "child_node h n (i + 1) = Some q" "h d = Some q" "lvl a = Suc (lvl d)"
        using child_at [OF assms(1,2) i(1), of "i + 1"] i(2) by auto
      have "is_leaf m = is_leaf q" using leaf [OF c(2)] leaf [OF d(2)] c(3) d(3) by simp
      then show "do { c \<leftarrow> child_node h n i; c' \<leftarrow> child_node h n (i + 1); Some (if is_leaf c \<noteq> is_leaf c' then [LevelChild i] else []) } = Some []"
        using c(1) d(1) by simp
    qed simp
    ultimately show ?thesis by (simp add: check_level_valid_def)
  qed
  ultimately show ?thesis by (simp add: check_and_print_errors_def)
qed

subsection \<open>The iteration visits every node once\<close>

text \<open>The nodes still to come: the rest of the level and the levels below.\<close>

definition ahead :: "(addr \<Rightarrow> u64) \<Rightarrow> (addr \<Rightarrow> nat) \<Rightarrow> 'v heap \<Rightarrow> addr \<Rightarrow> addr set" where
  "ahead low lvl h a = {b \<in> dom h. lvl b = lvl a \<and> low a \<le> low b \<or> lvl b < lvl a}"

lemma ahead_same_level:
  assumes "nodes_inv cap low lvl h" "h a = Some n" "b \<in> ahead low lvl h a" "b \<noteq> a" "lvl b = lvl a"
  shows "high_key n \<le> low b \<and> low b < - 1"
proof -
  obtain m where m: "h b = Some m" using assms(3) by (auto simp: ahead_def)
  have "high_key n \<le> low b" using same_level_overlap [OF assms(1,2) m] assms(3-5) by (force simp: ahead_def)
  then show ?thesis using high_key_bound [OF nodes_invD [OF assms(1) m]] by simp
qed

definition next_ok :: "(addr \<Rightarrow> u64) \<Rightarrow> (addr \<Rightarrow> nat) \<Rightarrow> 'v heap \<Rightarrow> iterator \<Rightarrow> bool" where
  "next_ok low lvl h it \<longleftrightarrow> (\<exists>a f. it_current it = Some a \<and> a \<in> dom h \<and> it_first it = Some f \<and> f \<in> dom h \<and> lvl f = lvl a \<and> low f = 0)"

lemma iterator_next_ok:
  assumes "nodes_inv cap low lvl h" "next_ok low lvl h it" "it_current it = Some a"
  shows "\<exists>it'. iterator_next h it = Some it' \<and>
    (it_current it' = None \<and> ahead low lvl h a \<subseteq> {a} \<or>
     (\<exists>b. it_current it' = Some b \<and> next_ok low lvl h it' \<and> closer low lvl h b a \<and> ahead low lvl h a \<subseteq> insert a (ahead low lvl h b)))"
proof -
  obtain n f m where n: "h a = Some n" and f: "it_first it = Some f" "h f = Some m" "lvl f = lvl a" "low f = 0"
    using assms(2,3) by (auto simp: next_ok_def)
  have ok: "node_ok cap low lvl (dom h) a n" by (rule nodes_invD [OF assms(1) n])
  have inner: "is_inner n \<longleftrightarrow> \<not> is_leaf n" "is_leaf n \<longleftrightarrow> lvl a = 0" using ok by (simp_all add: node_ok_def node_shape_def)
  note same = ahead_same_level [OF assms(1) n]
  show ?thesis
  proof (cases "right_sibling n")
    case (Some r)
    then have r: "r \<in> dom h" "lvl r = lvl a" "low r = high_key n" using ok by (simp_all add: node_ok_def right_ok_def)
    have "low a < low r" using ok r(3) by (simp add: node_ok_def)
    then have "closer low lvl h r a" by (rule right_is_closer [OF assms(1) r(1,2)])
    moreover have "ahead low lvl h a \<subseteq> insert a (ahead low lvl h r)" using same r by (auto simp: ahead_def)
    moreover have "iterator_next h it = Some (it\<lparr>it_current := Some r\<rparr>)" using Some n assms(3) by (simp add: iterator_next_def)
    moreover have "next_ok low lvl h (it\<lparr>it_current := Some r\<rparr>)" using f r by (auto simp: next_ok_def)
    ultimately show ?thesis by (intro exI [of _ "it\<lparr>it_current := Some r\<rparr>"]) simp
  next
    case None
    then have "high_key n = - 1" using ok by (simp add: node_ok_def right_ok_def)
    then have alone: "b = a" if "b \<in> ahead low lvl h a" "lvl b = lvl a" for b using same [OF that(1) _ that(2)] by fastforce
    show ?thesis
    proof (cases "is_leaf n")
      case True
      then have "ahead low lvl h a \<subseteq> {a}" using alone inner(2) by (auto simp: ahead_def)
      moreover have "iterator_next h it = Some (it\<lparr>it_current := None\<rparr>)" using None True n assms(3) inner(1) by (simp add: iterator_next_def)
      ultimately show ?thesis by simp
    next
      case False
      have nl: "\<not> is_leaf m" using nodes_invD [OF assms(1) f(2)] inner(2) False f(3) by (simp add: node_ok_def)
      obtain c q where c: "h c = Some q" "children_of m ! 0 = Some c" "lvl f = Suc (lvl c)" "low c = 0"
        using child_at [OF assms(1) f(2) nl, of 0] f(4) by auto
      let ?it = "\<lparr>it_current = Some c, it_first = Some c\<rparr>"
      have "node_separator m 0 = Some (children_of m ! 0)"
        using node_separator_children [of cap m 0] nodes_invD [OF assms(1) f(2)] nl by (simp add: node_ok_def)
      then have "iterator_next h it = Some ?it" using None False n f(1,2) c(2) assms(3) inner(1) by (simp add: iterator_next_def)
      moreover have "closer low lvl h c a" using c(3) f(3) by (simp add: closer_def distance_def)
      moreover have "next_ok low lvl h ?it" using c by (auto simp: next_ok_def)
      moreover have "ahead low lvl h a \<subseteq> insert a (ahead low lvl h c)"
      proof
        fix b assume b: "b \<in> ahead low lvl h a"
        show "b \<in> insert a (ahead low lvl h c)"
          using alone [OF b] b c(3,4) f(3) by (cases "lvl b = lvl a") (auto simp: ahead_def)
      qed
      ultimately show ?thesis by (intro exI [of _ ?it]) simp
    qed
  qed
qed

lemma iterate_ends:
  assumes "nodes_inv cap low lvl h" "next_ok low lvl h it" "it_current it = Some a" "card (reach low lvl h a) < fuel"
  shows "\<exists>as. iterate fuel h it = Some as \<and> distinct as \<and> set as \<subseteq> reach low lvl h a \<and> ahead low lvl h a \<subseteq> set as"
  using assms(2-)
proof (induction fuel arbitrary: it a)
  case (Suc fuel)
  have fin: "finite (reach low lvl h a)" using assms(1) by (simp add: reach_def nodes_inv_def)
  have a: "a \<in> dom h" using Suc.prems(1,2) by (simp add: next_ok_def)
  then have self: "a \<in> reach low lvl h a" by (simp add: reach_def)
  from iterator_next_ok [OF assms(1) Suc.prems(1,2)] obtain it' where it': "iterator_next h it = Some it'" and
    step: "it_current it' = None \<and> ahead low lvl h a \<subseteq> {a} \<or>
     (\<exists>b. it_current it' = Some b \<and> next_ok low lvl h it' \<and> closer low lvl h b a \<and> ahead low lvl h a \<subseteq> insert a (ahead low lvl h b))" by blast
  from step show ?case
  proof (elim disjE exE conjE)
    assume last: "it_current it' = None" "ahead low lvl h a \<subseteq> {a}"
    have "0 < card (reach low lvl h a)" using fin self card_gt_0_iff by blast
    then obtain k where "fuel = Suc k" using Suc.prems(3) by (cases fuel) auto
    then show ?thesis using it' Suc.prems(2) self last by (intro exI [of _ "[a]"]) simp
  next
    fix b assume b: "it_current it' = Some b" "next_ok low lvl h it'" "closer low lvl h b a" "ahead low lvl h a \<subseteq> insert a (ahead low lvl h b)"
    have "b \<in> dom h" using b(1,2) by (simp add: next_ok_def)
    then have sub: "reach low lvl h b \<subset> reach low lvl h a" by (rule reach_shrinks [OF b(3) a])
    have "card (reach low lvl h b) < fuel" using psubset_card_mono [OF fin sub] Suc.prems(3) by simp
    from Suc.IH [OF b(2,1) this] obtain as where as: "iterate fuel h it' = Some as" "distinct as" "set as \<subseteq> reach low lvl h b"
      "ahead low lvl h b \<subseteq> set as" by blast
    have "a \<notin> set as" using not_reached [OF b(3)] as(3) by blast
    then show ?thesis using it' Suc.prems(2) as b(4) sub self by (intro exI [of _ "a # as"]) auto
  qed
qed simp

lemma iterate_tree:
  assumes "tree_inv cap low lvl t"
  shows "\<exists>as. iterate (Suc (card (dom (bt_nodes t)))) (bt_nodes t) (iterator_begin t) = Some as \<and> distinct as \<and> set as = dom (bt_nodes t)"
proof -
  note inv = tree_invD [OF assms]
  have "next_ok low lvl (bt_nodes t) (iterator_begin t)" using inv(3,4) by (simp add: next_ok_def iterator_begin_def)
  moreover have "it_current (iterator_begin t) = Some (bt_root t)" by (simp add: iterator_begin_def)
  moreover have "card (reach low lvl (bt_nodes t) (bt_root t)) < Suc (card (dom (bt_nodes t)))" using reach_bound [OF assms] by (simp add: le_imp_less_Suc)
  ultimately obtain as where as: "iterate (Suc (card (dom (bt_nodes t)))) (bt_nodes t) (iterator_begin t) = Some as" "distinct as"
    "set as \<subseteq> reach low lvl (bt_nodes t) (bt_root t)" "ahead low lvl (bt_nodes t) (bt_root t) \<subseteq> set as"
    using iterate_ends [OF inv(1)] by blast
  have "ahead low lvl (bt_nodes t) (bt_root t) = dom (bt_nodes t)" using inv(4,5) by (force simp: ahead_def)
  then have "set as = dom (bt_nodes t)" using as(3,4) by (auto simp: reach_def)
  then show ?thesis using as(1,2) by blast
qed

subsection \<open>Counting the entries\<close>

definition leaf_keys :: "'v heap \<Rightarrow> addr \<Rightarrow> nat" where
  "leaf_keys h a = (case h a of Some n \<Rightarrow> if is_leaf n then node_size n else 0 | None \<Rightarrow> 0)"

lemma statistics_add_all_eq:
  assumes "set as \<subseteq> dom h" "\<And>a n. h a = Some n \<Longrightarrow> is_inner n \<longleftrightarrow> \<not> is_leaf n"
  shows "\<exists>st'. statistics_add_all h as st = Some st' \<and> st_tree_height st' = st_tree_height st \<and>
    st_leaf_node_keys st' = st_leaf_node_keys st + of_nat (sum_list (map (leaf_keys h) as)) \<and>
    st_inner_nodes st' + st_leaf_nodes st' = st_inner_nodes st + st_leaf_nodes st + of_nat (length as)"
  using assms(1)
proof (induction as arbitrary: st)
  case (Cons a as)
  then obtain n where n: "h a = Some n" by auto
  obtain st' where st': "statistics_add_all h as (statistics_add n st) = Some st'" "st_tree_height st' = st_tree_height (statistics_add n st)"
    "st_leaf_node_keys st' = st_leaf_node_keys (statistics_add n st) + of_nat (sum_list (map (leaf_keys h) as))"
    "st_inner_nodes st' + st_leaf_nodes st' = st_inner_nodes (statistics_add n st) + st_leaf_nodes (statistics_add n st) + of_nat (length as)"
    using Cons by auto
  have "st_leaf_node_keys (statistics_add n st) = st_leaf_node_keys st + of_nat (leaf_keys h a)"
    "st_inner_nodes (statistics_add n st) + st_leaf_nodes (statistics_add n st) = st_inner_nodes st + st_leaf_nodes st + 1"
    "st_tree_height (statistics_add n st) = st_tree_height st"
    using n assms(2) [OF n] by (simp_all add: statistics_add_def Let_def leaf_keys_def)
  then show ?case using st' n by (intro exI [of _ st']) (simp add: algebra_simps)
qed simp

lemma leaf_unique:
  assumes "nodes_inv cap low lvl h" "h a = Some n" "h b = Some m" "is_leaf n" "is_leaf m"
    "low a \<le> k" "k < high_key n" "low b \<le> k" "k < high_key m"
  shows "a = b"
proof -
  have lvl: "lvl a = lvl b" using nodes_invD [OF assms(1,2)] nodes_invD [OF assms(1,3)] assms(4,5) by (simp add: node_ok_def)
  have "low a < high_key m" "low b < high_key n" using assms(6-9) by (auto intro: order.strict_trans1)
  moreover consider "low a \<le> low b" | "low b \<le> low a" by fastforce
  ultimately show ?thesis using same_level_overlap [OF assms(1-3) lvl] same_level_overlap [OF assms(1,3,2) lvl [symmetric]] by metis
qed

lemma card_contents:
  assumes "nodes_inv cap low lvl h"
  shows "card (contents h) = (\<Sum>a \<in> dom h. leaf_keys h a)"
proof -
  let ?C = "\<lambda>a. node_contents (the (h a))"
  have range: "k \<in> set (keys_of n)" if "(k, v) \<in> set (entries_of n)" for k and v :: 'a and n :: "'a node"
    using that by (auto simp: entries_of_def dest: set_zip_leftD)
  have card: "card (?C a) = leaf_keys h a \<and> finite (?C a)" if a: "a \<in> dom h" for a
  proof -
    obtain n where n: "h a = Some n" using a by blast
    have ok: "node_shape cap n" "sorted_wrt (<) (keys_of n)" using nodes_invD [OF assms n] by (simp_all add: node_ok_def)
    have "card (set (entries_of n)) = node_size n" if "is_leaf n"
    proof -
      have "distinct (map fst (entries_of n))" using entries_keys(1) [OF ok(1) that] ok(2) by (simp add: strict_sorted_iff)
      then have "distinct (entries_of n)" by (simp add: distinct_map)
      then show ?thesis using entries_keys(3) [OF ok(1) that] by (simp add: distinct_card)
    qed
    then show ?thesis using n by (simp add: node_contents_def leaf_keys_def)
  qed
  have disj: "?C a \<inter> ?C b = {}" if ab: "a \<in> dom h" "b \<in> dom h" "a \<noteq> b" for a b
  proof (rule ccontr)
    obtain n m where n: "h a = Some n" and m: "h b = Some m" using ab by blast
    assume "?C a \<inter> ?C b \<noteq> {}"
    then obtain k v where "is_leaf n" "is_leaf m" "(k, v) \<in> set (entries_of n)" "(k, v) \<in> set (entries_of m)"
      using n m by (auto simp: node_contents_def split: if_splits)
    moreover have "low a \<le> k" "k < high_key n" "low b \<le> k" "k < high_key m"
      using nodes_invD [OF assms n] nodes_invD [OF assms m] range calculation(3,4) by (auto simp: node_ok_def)
    ultimately show False using leaf_unique [OF assms n m] ab(3) by blast
  qed
  have "contents h = (\<Union>a \<in> dom h. ?C a)" by (force simp: contents_def)
  then have "card (contents h) = (\<Sum>a \<in> dom h. card (?C a))"
    using assms card disj by (simp add: card_UN_disjoint nodes_inv_def)
  also have "\<dots> = (\<Sum>a \<in> dom h. leaf_keys h a)" using card by (intro sum.cong) auto
  finally show ?thesis .
qed

subsection \<open>Properties\<close>

text \<open>
  C7: The consistency check ends on every tree that insertions build, after one step per node,
  and reports nothing when no node is empty: it has no false alarms.
\<close>

theorem check_reports_nothing:
  assumes "index_run cap zero t tasks log" "2 \<le> cap_items cap" "2 \<le> cap_keys cap"
    "\<forall>a n. bt_nodes t a = Some n \<longrightarrow> 0 < node_size n \<and> node_size n < 2 ^ 16"
  shows "tree_check (Suc (card (dom (bt_nodes t)))) t = Some []"
proof -
  obtain low lvl where inv: "tree_inv cap low lvl t" using index_run_inv [OF assms(1-3)] by blast
  have "check_all (bt_nodes t) as = Some []" if "set as \<subseteq> dom (bt_nodes t)" for as
    using that check_silent [OF tree_invD(1) [OF inv] _ assms(4)] by (induction as) auto
  then show ?thesis using iterate_tree [OF inv] by (auto simp: tree_check_def)
qed

text \<open>A tree with one entry.\<close>

definition demo_one :: "nat tree" where
  "demo_one = fst (the (drive demo_cap 0 1 [Spawn 5 50, Run 0] demo_new []))"

lemma demo_one_drive:
  "drive demo_cap 0 1 [Spawn 5 50, Run 0] demo_new [] = Some (demo_one, [])"
  "bt_nodes demo_one = [0 \<mapsto> \<lparr>node_type = Leaf_bit, high_key = - 1, right_sibling = None, parent = None, node_size = 1, node_body = LeafNode [5, 0] [50, 0]\<rparr>]"
proof -
  have two: "replicate 2 x = [x, x]" for x :: 'x by (simp add: numeral_2_eq_2)
  have key: "\<not> (- 1 :: u64) \<le> 5" "(5 :: u64) < - 1" by (simp_all add: not_le)
  have "drive demo_cap 0 1 [Spawn 5 50, Run 0] demo_new [] = Some (\<lparr>bt_height = 1, bt_isolation_level = ExclusiveWriter, bt_protocol = ProtocolOLFIT,
      bt_root = 0, bt_nodes = [0 \<mapsto> \<lparr>node_type = Leaf_bit, high_key = - 1, right_sibling = None, parent = None, node_size = 1,
        node_body = LeafNode [5, 0] [50, 0]\<rparr>]\<rparr>, [])"
    using key by (simp add: demo_new_def demo_cap_def memory_def two tree_new_def create_leaf_node_def create_node_def node_new_def
      insert_value_task_def insert_value_execute_def navigate_def insert_into_leaf_def Let_def is_leaf_def is_inner_def Leaf_bit_def Inner_bit_def
      node_index_def node_keys_def node_full_def node_insert_value.simps arr_set_def)
  then show "drive demo_cap 0 1 [Spawn 5 50, Run 0] demo_new [] = Some (demo_one, [])"
    "bt_nodes demo_one = [0 \<mapsto> \<lparr>node_type = Leaf_bit, high_key = - 1, right_sibling = None, parent = None, node_size = 1, node_body = LeafNode [5, 0] [50, 0]\<rparr>]"
    by (simp_all add: demo_one_def)
qed

lemma check_reports_nothing_witness: "tree_check (Suc (card (dom (bt_nodes demo_one)))) demo_one = Some []"
proof (rule check_reports_nothing [OF _ demo_caps])
  show "index_run demo_cap 0 demo_one [] [(5, 50)]" using drive_run [OF demo_one_drive(1) demo_new_run] by simp
  show "\<forall>a n. bt_nodes demo_one a = Some n \<longrightarrow> 0 < node_size n \<and> node_size n < 2 ^ 16" by (simp add: demo_one_drive(2))
qed

text \<open>
  C8: The statistics of a tree that insertions built: the iteration visits every node exactly once,
  and the number of leaf records is the number of entries of the tree (modulo 2^64).
\<close>

theorem statistics_count_the_entries:
  assumes "index_run cap zero t tasks log" "2 \<le> cap_items cap" "2 \<le> cap_keys cap"
  shows "\<exists>st. tree_statistics (Suc (card (dom (bt_nodes t)))) t = Some st \<and>
    st_leaf_node_keys st = of_nat (card (contents (bt_nodes t))) \<and>
    st_inner_nodes st + st_leaf_nodes st = of_nat (card (dom (bt_nodes t)))"
proof -
  obtain low lvl where inv: "tree_inv cap low lvl t" using index_run_inv [OF assms] by blast
  note D = tree_invD [OF inv]
  obtain as where as: "iterate (Suc (card (dom (bt_nodes t)))) (bt_nodes t) (iterator_begin t) = Some as" "distinct as" "set as = dom (bt_nodes t)"
    using iterate_tree [OF inv] by blast
  have inner: "is_inner n \<longleftrightarrow> \<not> is_leaf n" if "bt_nodes t a = Some n" for a n
    using D(7) [OF that] by (simp add: node_ok_def node_shape_def)
  from statistics_add_all_eq [of as "bt_nodes t" "statistics_new (ucast (bt_height t))"] inner as(3)
  obtain st where st: "statistics_add_all (bt_nodes t) as (statistics_new (ucast (bt_height t))) = Some st"
    "st_leaf_node_keys st = of_nat (sum_list (map (leaf_keys (bt_nodes t)) as))"
    "st_inner_nodes st + st_leaf_nodes st = of_nat (length as)"
    by (auto simp: statistics_new_def)
  have "sum_list (map (leaf_keys (bt_nodes t)) as) = card (contents (bt_nodes t))"
    using sum_list_distinct_conv_sum_set [OF as(2)] as(3) card_contents [OF D(1)] by simp
  moreover have "length as = card (dom (bt_nodes t))" using as(2,3) distinct_card by metis
  ultimately show ?thesis using as(1) st by (intro exI [of _ st]) (simp add: tree_statistics_def)
qed

lemma statistics_count_the_entries_witness:
  "\<exists>st. tree_statistics (Suc (card (dom (bt_nodes demo)))) demo = Some st \<and> st_leaf_node_keys st = of_nat (card (contents (bt_nodes demo)))"
  using statistics_count_the_entries [OF demo_run demo_caps] by blast

end
