(* ===== verification/Alignment.thy ===== *)
theory Alignment
  imports MxPrelude
begin

section \<open>Alignment of sizes\<close>

text \<open>
  src/mx/memory/alignment_helper.h. The values are std::uint64_t; they are natural numbers here,
  with the wrap-around at 2^64 written out where a sum can pass it.
\<close>

definition next_multiple :: "nat \<Rightarrow> nat \<Rightarrow> nat" where
  "next_multiple val base =
     (if base < val then (let m = val mod base in if m = 0 then val else (val + base - m) mod 2 ^ 64)
      else base)"

definition is_power_of_two :: "nat \<Rightarrow> bool" where
  "is_power_of_two val \<longleftrightarrow> val \<noteq> 0 \<and> val AND (val - 1) = 0"

text \<open>__builtin_clzll: the zero bits in front of the highest one bit, undefined for 0.\<close>

fun bit_length :: "nat \<Rightarrow> nat" where
  "bit_length n = (if n = 0 then 0 else Suc (bit_length (n div 2)))"

declare bit_length.simps [simp del]

definition clzll :: "nat \<Rightarrow> nat option" where
  "clzll val = (if val = 0 then None else Some (64 - bit_length val))"

text \<open>A shift by the width of the type is undefined as well.\<close>

definition next_power_of_two :: "nat \<Rightarrow> nat option" where
  "next_power_of_two val =
     (if is_power_of_two val then Some val
      else do {
        zeros \<leftarrow> clzll val;
        if 64 - zeros < 64 then Some (2 ^ (64 - zeros)) else None
      })"

subsection \<open>Lemmas\<close>

lemma next_multiple_bounds:
  assumes "0 < base" "val + base \<le> 2 ^ 64"
  shows "base dvd next_multiple val base" "val \<le> next_multiple val base" "next_multiple val base < val + base \<or> next_multiple val base = base"
proof -
  have m: "val mod base < base" "val mod base \<le> val" using assms(1) by simp_all
  show "val \<le> next_multiple val base" "next_multiple val base < val + base \<or> next_multiple val base = base"
    using assms m by (auto simp: next_multiple_def Let_def)
  show "base dvd next_multiple val base"
  proof (cases "base < val \<and> val mod base \<noteq> 0")
    case True
    then have "val + base - val mod base < 2 ^ 64" using assms m by linarith
    then have "next_multiple val base = val - val mod base + base" using True m by (simp add: next_multiple_def Let_def)
    then show ?thesis by (simp add: minus_mod_eq_mult_div)
  qed (auto simp: next_multiple_def Let_def)
qed

lemma is_power_of_two_even: "is_power_of_two (2 * k) \<longleftrightarrow> is_power_of_two k"
proof (cases k)
  case (Suc j)
  then have "2 * k - 1 = 2 * j + 1" by simp
  moreover have "(2 * k) AND (2 * j + 1) = 2 * (k AND j)" by (subst and_rec) simp
  ultimately show ?thesis using Suc by (simp add: is_power_of_two_def)
qed (simp add: is_power_of_two_def)

lemma is_power_of_two_odd: "is_power_of_two (Suc (2 * k)) \<longleftrightarrow> k = 0"
proof -
  have "Suc (2 * k) AND (2 * k) = 2 * (k AND k)" by (subst and_rec) simp
  then show ?thesis by (simp add: is_power_of_two_def)
qed

lemma is_power_of_two_iff: "is_power_of_two n \<longleftrightarrow> (\<exists>k. n = 2 ^ k)"
proof (induction n rule: less_induct)
  case (less n)
  consider "n = 0" | k where "n = 2 * k" "0 < k" | k where "n = Suc (2 * k)" by (metis evenE gr0I mult_0_right oddE Suc_eq_plus1)
  then show ?case
  proof cases
    case (2 k)
    then have "is_power_of_two n \<longleftrightarrow> (\<exists>j. k = 2 ^ j)" using less.IH [of k] by (simp add: is_power_of_two_even)
    also have "\<dots> \<longleftrightarrow> (\<exists>j. n = 2 ^ j)"
    proof
      assume "\<exists>j. n = 2 ^ j"
      then obtain j where j: "2 * k = 2 ^ j" using 2(1) by auto
      then obtain i where "j = Suc i" using 2(2) by (cases j) auto
      then show "\<exists>j. k = 2 ^ j" using j by auto
    qed (use 2 in \<open>auto intro: exI [of _ "Suc _"]\<close>)
    finally show ?thesis .
  next
    case (3 k)
    have "(\<exists>j. Suc (2 * k) = 2 ^ j) \<longleftrightarrow> k = 0"
    proof
      assume "\<exists>j. Suc (2 * k) = 2 ^ j"
      then obtain j where "Suc (2 * k) = 2 ^ j" by blast
      then show "k = 0" by (cases j) (simp_all, presburger)
    qed (auto intro: exI [of _ 0])
    then show ?thesis using 3 by (simp add: is_power_of_two_odd)
  qed (simp add: is_power_of_two_def)
qed

lemma bit_length_bounds: "0 < n \<Longrightarrow> 2 ^ (bit_length n - 1) \<le> n \<and> n < 2 ^ bit_length n \<and> 0 < bit_length n"
proof (induction n rule: bit_length.induct)
  case (1 n)
  show ?case
  proof (cases "n = 1")
    case True
    then show ?thesis by (simp add: bit_length.simps)
  next
    case False
    then have "0 < n div 2" using 1(2) by simp
    with 1 have IH: "2 ^ (bit_length (n div 2) - 1) \<le> n div 2 \<and> n div 2 < 2 ^ bit_length (n div 2) \<and> 0 < bit_length (n div 2)" by simp
    moreover have "bit_length n = Suc (bit_length (n div 2))" using 1(2) by (subst bit_length.simps) simp
    moreover have "2 ^ bit_length (n div 2) = 2 * (2 :: nat) ^ (bit_length (n div 2) - 1)" using IH by (cases "bit_length (n div 2)") auto
    moreover have "n = 2 * (n div 2) + n mod 2" "n mod 2 < 2" by simp_all
    ultimately show ?thesis by (simp only: diff_Suc_1 power_Suc) linarith
  qed
qed

lemma next_power_of_two_exact:
  assumes "0 < val" "val \<le> 2 ^ 63"
  shows "\<exists>k. next_power_of_two val = Some (2 ^ k) \<and> val \<le> 2 ^ k \<and> (\<forall>j. val \<le> 2 ^ j \<longrightarrow> k \<le> j)"
proof (cases "is_power_of_two val")
  case True
  then obtain k where "val = 2 ^ k" by (auto simp: is_power_of_two_iff)
  then show ?thesis using True by (intro exI [of _ k]) (simp add: next_power_of_two_def)
next
  case False
  note b = bit_length_bounds [OF assms(1)]
  have no: "val \<noteq> 2 ^ j" for j using False by (auto simp: is_power_of_two_iff)
  then have "val < 2 ^ 63" using assms(2) by (metis le_neq_implies_less)
  with b have "(2 :: nat) ^ (bit_length val - 1) < 2 ^ 63" by linarith
  then have "bit_length val - 1 < 63" by (rule power_less_imp_less_exp [rotated]) simp
  then have len: "bit_length val \<le> 63" by simp
  have "bit_length val \<le> j" if "val \<le> 2 ^ j" for j
  proof -
    have "2 ^ (bit_length val - 1) < (2 :: nat) ^ j" using b that no [of j] by linarith
    then show ?thesis using b by simp
  qed
  moreover have "next_power_of_two val = Some (2 ^ bit_length val)"
    using False assms(1) len by (simp add: next_power_of_two_def clzll_def)
  ultimately show ?thesis using b by (intro exI [of _ "bit_length val"]) simp
qed

end
