(* ===== verification/DynamicAllocator.thy ===== *)
theory DynamicAllocator
  imports Alignment
begin

section \<open>The allocator for objects of any size\<close>

text \<open>
  src/mx/memory/dynamic_size_allocator.h and .cpp. An allocation block keeps the free parts of one
  large piece of memory in a list sorted by address; memory is cut off the end of the first free
  part that is large enough, behind a header that remembers what to give back; a freed region is
  merged with its neighbours. The allocator keeps a list of blocks for every NUMA region.

  Addresses and sizes are std::uintptr_t and std::size_t: natural numbers with the wrap-around at
  2^64 written out. The operations on a block run under its spinlock, one at a time. The memory
  behind a block comes from the global heap: the argument \<open>mem\<close> gives the address of a block by its
  NUMA region and its id. After the removal of a free part the code reads the removed iterator once
  more; what it reads there is the argument \<open>stale\<close>.

  The lemmas show that free and allocated regions always partition the block, for every value of
  \<open>stale\<close>; that the free list stays sorted and without two bordering parts; and which requests the
  loop of Allocator::allocate serves.
\<close>

subsection \<open>Data\<close>

record free_header =
  fh_start :: nat
  fh_size :: nat

record allocated_header =
  ah_size :: nat
  ah_unused :: nat
  ah_numa :: u8
  ah_block_id :: u32

record allocation_block =
  ab_id :: u32
  ab_numa :: u8
  ab_size :: nat
  ab_memory :: "addr option"
  ab_free :: "free_header list"
  ab_available :: nat

text \<open>std::size_t arithmetic, and the size of an AllocatedHeader (8 + 2 + 1 + 4 bytes, padded).\<close>

definition wadd :: "nat \<Rightarrow> nat \<Rightarrow> nat" where
  "wadd a b = (a + b) mod 2 ^ 64"

definition wsub :: "nat \<Rightarrow> nat \<Rightarrow> nat" where
  "wsub a b = (a + 2 ^ 64 - b mod 2 ^ 64) mod 2 ^ 64"

definition header_size :: nat where
  "header_size = 16"

subsection \<open>Free parts\<close>

definition fh_contract :: "nat \<Rightarrow> free_header \<Rightarrow> free_header" where
  "fh_contract sz f = f\<lparr>fh_size := wsub (fh_size f) sz\<rparr>"

definition fh_borders :: "free_header \<Rightarrow> free_header \<Rightarrow> bool" where
  "fh_borders f g \<longleftrightarrow> wadd (fh_start f) (fh_size f) = fh_start g"

definition fh_merge :: "free_header \<Rightarrow> free_header \<Rightarrow> free_header" where
  "fh_merge f g =
     (if fh_start g < fh_start f then f\<lparr>fh_start := fh_start g, fh_size := wadd (fh_size f) (fh_size g)\<rparr>
      else f\<lparr>fh_size := wadd (fh_size f) (fh_size g)\<rparr>)"

subsection \<open>Blocks\<close>

definition ab_new :: "u32 \<Rightarrow> u8 \<Rightarrow> nat \<Rightarrow> addr \<Rightarrow> allocation_block" where
  "ab_new ident numa sz memory =
     \<lparr>ab_id = ident, ab_numa = numa, ab_size = sz, ab_memory = Some memory,
      ab_free = [\<lparr>fh_start = memory, fh_size = sz\<rparr>], ab_available = sz\<rparr>"

text \<open>The move constructor and assignment: the new block and what is left of the old one.\<close>

definition ab_move :: "allocation_block \<Rightarrow> allocation_block \<times> allocation_block" where
  "ab_move other = (other, other\<lparr>ab_memory := None, ab_free := []\<rparr>)"

text \<open>What the destructor gives back to the global heap.\<close>

definition ab_destroy :: "allocation_block \<Rightarrow> (addr \<times> nat \<times> u8) list" where
  "ab_destroy b = (case ab_memory b of None \<Rightarrow> [] | Some m \<Rightarrow> [(m, ab_size b, ab_numa b)])"

definition ab_is_free :: "allocation_block \<Rightarrow> bool" where
  "ab_is_free b \<longleftrightarrow> ab_free b = [] \<or> (length (ab_free b) = 1 \<and> fh_size (ab_free b ! 0) = ab_size b)"

text \<open>First fit; the index of the free part and the size to cut off, header and padding included.\<close>

fun find_block_from :: "nat \<Rightarrow> nat \<Rightarrow> nat \<Rightarrow> free_header list \<Rightarrow> (nat \<times> nat) option" where
  "find_block_from alignment sz i [] = None"
| "find_block_from alignment sz i (f # fs) =
     (if wadd sz header_size \<le> fh_size f then
        (let end = wadd (fh_start f) (fh_size f);
             possible_block_begin = wsub end sz;
             aligned_size = wadd sz (possible_block_begin AND (alignment - 1));
             aligned_size_including_header = wadd aligned_size header_size
         in if aligned_size_including_header \<le> fh_size f then Some (i, aligned_size_including_header)
            else find_block_from alignment sz (Suc i) fs)
      else find_block_from alignment sz (Suc i) fs)"

definition find_block :: "nat \<Rightarrow> nat \<Rightarrow> allocation_block \<Rightarrow> (nat \<times> nat) option" where
  "find_block alignment sz b = find_block_from alignment sz 0 (ab_free b)"

definition remove_at :: "nat \<Rightarrow> 'a list \<Rightarrow> 'a list" where
  "remove_at i xs = take i xs @ drop (Suc i) xs"

definition ab_allocate :: "(free_header list \<Rightarrow> nat \<Rightarrow> nat) \<Rightarrow> nat \<Rightarrow> nat \<Rightarrow> allocation_block \<Rightarrow>
    allocation_block \<times> (addr \<times> allocated_header) option" where
  "ab_allocate stale alignment sz b =
     (if ab_available b < sz then (b, None)
      else case find_block alignment sz b of
        None \<Rightarrow> (b, None)
      | Some (i, need) \<Rightarrow>
          (let f = ab_free b ! i;
               free_block_end = wadd (fh_start f) (fh_size f);
               remaining_size = wsub (fh_size f) need;
               header_address = wsub free_block_end need;
               header = \<lambda>before. \<lparr>ah_size = wsub need header_size, ah_unused = before mod 2 ^ 16,
                 ah_numa = ab_numa b, ah_block_id = ab_id b\<rparr>
           in if 256 \<le> remaining_size
              then (b\<lparr>ab_free := (ab_free b)[i := fh_contract need f], ab_available := wsub (ab_available b) need\<rparr>,
                    Some (header_address, header 0))
              else (let rest = remove_at i (ab_free b)
                    in (b\<lparr>ab_free := rest, ab_available := wsub (ab_available b) (stale rest i)\<rparr>,
                        Some (header_address, header remaining_size)))))"

definition freed_element :: "addr \<Rightarrow> allocated_header \<Rightarrow> free_header" where
  "freed_element header_address h =
     \<lparr>fh_start = wsub header_address (ah_unused h), fh_size = wadd (wadd (ah_size h) (ah_unused h)) header_size\<rparr>"

definition insert_free :: "free_header \<Rightarrow> free_header list \<Rightarrow> free_header list" where
  "insert_free f fs =
     (if fs = [] then [f]
      else (let i = lower_bound (map fh_start fs) (fh_start f) in
        if i < length fs \<and> fh_borders f (fs ! i)
        then (let fs' = fs[i := fh_merge (fs ! i) f] in
          if 0 < i \<and> fh_borders (fs' ! (i - 1)) (fs' ! i)
          then remove_at i (fs'[i - 1 := fh_merge (fs' ! (i - 1)) (fs' ! i)])
          else fs')
        else if 0 < i \<and> fh_borders (fs ! (i - 1)) f
        then fs[i - 1 := fh_merge (fs ! (i - 1)) f]
        else take i fs @ f # drop i fs))"

definition ab_free_region :: "addr \<Rightarrow> allocated_header \<Rightarrow> allocation_block \<Rightarrow> allocation_block" where
  "ab_free_region header_address h b =
     (let f = freed_element header_address h
      in b\<lparr>ab_free := insert_free f (ab_free b), ab_available := wadd (ab_available b) (fh_size f)\<rparr>)"

subsection \<open>The allocator\<close>

record dyn_allocator =
  da_blocks :: "nat \<Rightarrow> allocation_block list"
  da_flags :: "nat \<Rightarrow> bool"
  da_next_id :: "nat \<Rightarrow> u32"
  da_headers :: "addr \<Rightarrow> allocated_header option"
  da_returned :: "(addr \<times> nat \<times> u8) list"

text \<open>A new block at the end of the list of a region; \<open>da_returned\<close> logs what goes back to the global heap.\<close>

definition da_append_block :: "(nat \<Rightarrow> u32 \<Rightarrow> addr) \<Rightarrow> nat \<Rightarrow> nat \<Rightarrow> dyn_allocator \<Rightarrow> dyn_allocator" where
  "da_append_block mem numa sz s =
     (let next_id = da_next_id s numa
      in s\<lparr>da_next_id := (da_next_id s)(numa := next_id + 1),
           da_blocks := (da_blocks s)(numa := da_blocks s numa @ [ab_new next_id (of_nat numa) sz (mem numa next_id)])\<rparr>)"

fun da_initialize_from :: "(nat \<Rightarrow> u32 \<Rightarrow> addr) \<Rightarrow> nat list \<Rightarrow> dyn_allocator \<Rightarrow> dyn_allocator" where
  "da_initialize_from mem [] s = s"
| "da_initialize_from mem (i # is) s =
     da_initialize_from mem is (if da_blocks s i = [] then da_append_block mem i (4096 * 4096) s else s)"

definition da_initialize_empty :: "(nat \<Rightarrow> u32 \<Rightarrow> addr) \<Rightarrow> nat \<Rightarrow> dyn_allocator \<Rightarrow> dyn_allocator" where
  "da_initialize_empty mem max_node_id s = da_initialize_from mem [0..<Suc max_node_id] s"

definition da_new :: "(nat \<Rightarrow> u32 \<Rightarrow> addr) \<Rightarrow> nat \<Rightarrow> dyn_allocator" where
  "da_new mem max_node_id = da_initialize_empty mem max_node_id
     \<lparr>da_blocks = \<lambda>_. [], da_flags = \<lambda>_. False, da_next_id = \<lambda>_. 0, da_headers = \<lambda>_. None, da_returned = []\<rparr>"

text \<open>When another thread holds the flag, this one waits until that thread has added its block.\<close>

definition da_allocate_new_block :: "(nat \<Rightarrow> u32 \<Rightarrow> addr) \<Rightarrow> nat \<Rightarrow> nat \<Rightarrow> dyn_allocator \<Rightarrow> dyn_allocator" where
  "da_allocate_new_block mem numa sz s = (if da_flags s numa then s else da_append_block mem numa sz s)"

text \<open>An allocation from the last block; None when there is none (back() of an empty vector).\<close>

definition da_try_allocate :: "(free_header list \<Rightarrow> nat \<Rightarrow> nat) \<Rightarrow> nat \<Rightarrow> nat \<Rightarrow> nat \<Rightarrow> dyn_allocator \<Rightarrow>
    (dyn_allocator \<times> addr option) option" where
  "da_try_allocate stale numa alignment sz s =
     (if da_blocks s numa = [] then None
      else (case ab_allocate stale alignment sz (last (da_blocks s numa)) of
          (b, None) \<Rightarrow> Some (s\<lparr>da_blocks := (da_blocks s)(numa := butlast (da_blocks s numa) @ [b])\<rparr>, None)
        | (b, Some (a, h)) \<Rightarrow>
            Some (s\<lparr>da_blocks := (da_blocks s)(numa := butlast (da_blocks s numa) @ [b]), da_headers := (da_headers s)(a \<mapsto> h)\<rparr>,
                  Some (wadd a header_size))))"

fun da_allocate_loop :: "nat \<Rightarrow> (nat \<Rightarrow> u32 \<Rightarrow> addr) \<Rightarrow> (free_header list \<Rightarrow> nat \<Rightarrow> nat) \<Rightarrow> nat \<Rightarrow> nat \<Rightarrow> nat \<Rightarrow> nat \<Rightarrow> dyn_allocator \<Rightarrow>
    (dyn_allocator \<times> addr) option" where
  "da_allocate_loop 0 mem stale numa alignment sz size_to_alloc s = None"
| "da_allocate_loop (Suc fuel) mem stale numa alignment sz size_to_alloc s =
     (case da_try_allocate stale numa alignment sz (da_allocate_new_block mem numa size_to_alloc s) of
        None \<Rightarrow> None
      | Some (s', Some p) \<Rightarrow> Some (s', p)
      | Some (s', None) \<Rightarrow> da_allocate_loop fuel mem stale numa alignment sz size_to_alloc s')"

definition da_allocate :: "nat \<Rightarrow> (nat \<Rightarrow> u32 \<Rightarrow> addr) \<Rightarrow> (free_header list \<Rightarrow> nat \<Rightarrow> nat) \<Rightarrow> nat \<Rightarrow> nat \<Rightarrow> nat \<Rightarrow> dyn_allocator \<Rightarrow>
    (dyn_allocator \<times> addr) option" where
  "da_allocate fuel mem stale numa alignment sz s =
     (case da_try_allocate stale numa alignment sz s of
        None \<Rightarrow> None
      | Some (s', Some p) \<Rightarrow> Some (s', p)
      | Some (s', None) \<Rightarrow> da_allocate_loop fuel mem stale numa alignment sz (max (2 ^ 28) (next_multiple sz 64)) s')"

fun free_in :: "addr \<Rightarrow> allocated_header \<Rightarrow> allocation_block list \<Rightarrow> allocation_block list" where
  "free_in a h [] = []"
| "free_in a h (b # bs) = (if ah_block_id h = ab_id b then ab_free_region a h b # bs else b # free_in a h bs)"

definition da_free :: "addr \<Rightarrow> dyn_allocator \<Rightarrow> dyn_allocator option" where
  "da_free p s = do {
     h \<leftarrow> da_headers s (wsub p header_size);
     (let numa = unat (ah_numa h)
      in Some (s\<lparr>da_blocks := (da_blocks s)(numa := free_in (wsub p header_size) h (da_blocks s numa))\<rparr>))
   }"

text \<open>std::remove_if with the move assignment of a block, and the destruction of the slots behind the kept ones.\<close>

fun remove_if_loop :: "nat \<Rightarrow> nat list \<Rightarrow> allocation_block list \<Rightarrow> nat \<times> allocation_block list" where
  "remove_if_loop first [] slots = (first, slots)"
| "remove_if_loop first (i # is) slots =
     (if ab_is_free (slots ! i) then remove_if_loop first is slots
      else (let (target, source) = ab_move (slots ! i)
            in remove_if_loop (Suc first) is (slots[first := target, i := source])))"

definition remove_free_blocks :: "allocation_block list \<Rightarrow> allocation_block list \<times> (addr \<times> nat \<times> u8) list" where
  "remove_free_blocks blocks =
     (let first = length (takeWhile (\<lambda>b. \<not> ab_is_free b) blocks);
          (kept, slots) = remove_if_loop first [Suc first..<length blocks] blocks
      in if first = length blocks then (blocks, []) else (take kept slots, concat (map ab_destroy (drop kept slots))))"

fun da_defragment_from :: "nat list \<Rightarrow> dyn_allocator \<Rightarrow> dyn_allocator" where
  "da_defragment_from [] s = s"
| "da_defragment_from (i # is) s =
     (let (kept, returned) = remove_free_blocks (da_blocks s i)
      in da_defragment_from is (s\<lparr>da_blocks := (da_blocks s)(i := kept), da_returned := da_returned s @ returned\<rparr>))"

definition da_defragment :: "(nat \<Rightarrow> u32 \<Rightarrow> addr) \<Rightarrow> nat \<Rightarrow> dyn_allocator \<Rightarrow> dyn_allocator" where
  "da_defragment mem max_node_id s = da_initialize_empty mem max_node_id (da_defragment_from [0..<Suc max_node_id] s)"

definition da_is_free :: "nat \<Rightarrow> dyn_allocator \<Rightarrow> bool" where
  "da_is_free max_node_id s \<longleftrightarrow> list_all (\<lambda>i. list_all ab_is_free (da_blocks s i)) [0..<Suc max_node_id]"

fun da_release_from :: "nat list \<Rightarrow> dyn_allocator \<Rightarrow> dyn_allocator" where
  "da_release_from [] s = s"
| "da_release_from (i # is) s = da_release_from is
     (s\<lparr>da_blocks := (da_blocks s)(i := []), da_next_id := (da_next_id s)(i := 0),
        da_returned := da_returned s @ concat (map ab_destroy (da_blocks s i))\<rparr>)"

definition da_release_allocated_memory :: "nat \<Rightarrow> dyn_allocator \<Rightarrow> dyn_allocator" where
  "da_release_allocated_memory max_node_id s = da_release_from [0..<Suc max_node_id] s"

subsection \<open>Free lists\<close>

lemma wadd_eq [simp]: "a + b < 2 ^ 64 \<Longrightarrow> wadd a b = a + b"
  by (simp add: wadd_def)

lemma wsub_eq [simp]:
  assumes "b \<le> a" "a < 2 ^ 64"
  shows "wsub a b = a - b"
proof -
  obtain d where "a = b + d" using assms(1) le_Suc_ex by blast
  then show ?thesis using assms(2) by (simp add: wsub_def)
qed

definition fh_end :: "free_header \<Rightarrow> nat" where
  "fh_end f = fh_start f + fh_size f"

definition fh_bytes :: "free_header \<Rightarrow> nat set" where
  "fh_bytes f = {fh_start f..<fh_end f}"

definition free_bytes :: "free_header list \<Rightarrow> nat set" where
  "free_bytes fs = (\<Union>f \<in> set fs. fh_bytes f)"

text \<open>Sorted, no two parts overlap or border each other, all within the block.\<close>

definition list_ok :: "nat \<Rightarrow> nat \<Rightarrow> free_header list \<Rightarrow> bool" where
  "list_ok lo hi fs \<longleftrightarrow> sorted_wrt (\<lambda>f g. fh_end f < fh_start g) fs \<and>
     (\<forall>f \<in> set fs. 0 < fh_size f \<and> lo \<le> fh_start f \<and> fh_end f \<le> hi)"

lemma free_bytes_simps [simp]:
  "free_bytes [] = {}" "free_bytes (f # fs) = fh_bytes f \<union> free_bytes fs" "free_bytes (xs @ ys) = free_bytes xs \<union> free_bytes ys"
  by (auto simp: free_bytes_def)

lemma fh_eqI: "fh_start f = fh_start g \<Longrightarrow> fh_size f = fh_size g \<Longrightarrow> f = (g :: free_header)"
  by simp

text \<open>Cutting the region \<open>r\<close> off the end of the part at position \<open>i\<close>.\<close>

definition cut :: "nat \<Rightarrow> free_header \<Rightarrow> free_header list \<Rightarrow> free_header list" where
  "cut i r fs =
     (if fh_start r = fh_start (fs ! i) then remove_at i fs
      else fs[i := \<lparr>fh_start = fh_start (fs ! i), fh_size = fh_start r - fh_start (fs ! i)\<rparr>])"

definition cuttable :: "nat \<Rightarrow> free_header \<Rightarrow> free_header list \<Rightarrow> bool" where
  "cuttable i r fs \<longleftrightarrow> i < length fs \<and> fh_start (fs ! i) \<le> fh_start r \<and> fh_end r = fh_end (fs ! i) \<and> 0 < fh_size r"

lemma cut_append:
  "cut (length xs) r (xs @ f # ys) = (if fh_start r = fh_start f then xs @ ys
     else xs @ \<lparr>fh_start = fh_start f, fh_size = fh_start r - fh_start f\<rparr> # ys)"
  by (simp add: cut_def remove_at_def)

lemma cut_ok:
  assumes "list_ok lo hi fs" "cuttable i r fs"
  shows "list_ok lo hi (cut i r fs)" "free_bytes (cut i r fs) = free_bytes fs - fh_bytes r" "fh_bytes r \<subseteq> free_bytes fs"
    "lo \<le> fh_start r" "fh_end r \<le> hi"
proof -
  obtain xs f ys where fs: "fs = xs @ f # ys" "i = length xs"
    using assms(2) by (metis cuttable_def id_take_nth_drop length_take min.absorb4)
  have f: "fh_start f \<le> fh_start r" "fh_end r = fh_end f" "0 < fh_size r" using assms(2) by (simp_all add: cuttable_def fs)
  have sep: "\<forall>g \<in> set xs. fh_end g < fh_start f" "\<forall>g \<in> set ys. fh_end f < fh_start g"
    using assms(1) by (auto simp: list_ok_def fs sorted_wrt_append)
  have lt: "fh_start r < fh_end r" using f(3) by (simp add: fh_end_def)
  show "list_ok lo hi (cut i r fs)"
    using assms(1) f lt unfolding fs cut_append list_ok_def
    by (auto simp: sorted_wrt_append fh_end_def)
  have "fh_bytes r \<inter> (free_bytes xs \<union> free_bytes ys) = {}"
    using sep f by (fastforce simp: free_bytes_def fh_bytes_def)
  moreover have "fh_bytes f = {fh_start f..<fh_start r} \<union> fh_bytes r" "{fh_start f..<fh_start r} \<inter> fh_bytes r = {}"
    using f lt by (auto simp: fh_bytes_def)
  ultimately show "free_bytes (cut i r fs) = free_bytes fs - fh_bytes r"
    using f(1) unfolding fs cut_append by (auto simp: fh_bytes_def fh_end_def)
  show "fh_bytes r \<subseteq> free_bytes fs" using f by (auto simp: fs fh_bytes_def)
  show "lo \<le> fh_start r" "fh_end r \<le> hi" using assms(1) f by (auto simp: list_ok_def fs)
qed

text \<open>
  Putting a region between the parts before and behind it; the code does this by position.
\<close>

fun attach_right :: "free_header \<Rightarrow> free_header list \<Rightarrow> free_header list" where
  "attach_right f [] = [f]"
| "attach_right f (r # rs) =
     (if fh_end f = fh_start r then \<lparr>fh_start = fh_start f, fh_size = fh_size f + fh_size r\<rparr> # rs else f # r # rs)"

definition attach :: "free_header list \<Rightarrow> free_header \<Rightarrow> free_header list \<Rightarrow> free_header list" where
  "attach ls f rs =
     (if ls \<noteq> [] \<and> fh_end (last ls) = fh_start f
      then butlast ls @ attach_right \<lparr>fh_start = fh_start (last ls), fh_size = fh_size (last ls) + fh_size f\<rparr> rs
      else ls @ attach_right f rs)"

lemma lower_bound_append:
  assumes "\<forall>x \<in> set xs. x < k" "\<forall>y \<in> set ys. k \<le> y"
  shows "lower_bound (xs @ ys) k = length xs"
  using assms(1)
proof (induction xs)
  case Nil
  then show ?case using assms(2) by (cases ys) (auto simp: not_less)
qed simp

lemma insert_free_eq:
  assumes "list_ok lo hi (ls @ rs)" "hi < 2 ^ 64" "0 < fh_size f" "fh_end f \<le> hi"
    "\<forall>l \<in> set ls. fh_end l \<le> fh_start f" "\<forall>r \<in> set rs. fh_end f \<le> fh_start r"
  shows "insert_free f (ls @ rs) = attach ls f rs"
proof -
  have pos: "0 < fh_size g" "fh_end g < 2 ^ 64" if "g \<in> set (ls @ rs)" for g
    using assms(1,2) that by (simp_all add: list_ok_def) (meson UnE Un_iff le_less_trans)
  have i: "lower_bound (map fh_start (ls @ rs)) (fh_start f) = length ls"
    unfolding map_append length_map [of fh_start ls, symmetric]
    by (rule lower_bound_append) (use assms(3,5,6) pos in \<open>fastforce simp: fh_end_def\<close>)+
  have f: "fh_end f < 2 ^ 64" using assms(2,4) by simp
  have b: "fh_borders g h \<longleftrightarrow> fh_end g = fh_start h" if "fh_end g < 2 ^ 64" for g h
    using that by (simp add: fh_borders_def fh_end_def)
  have right: "fh_merge r f = \<lparr>fh_start = fh_start f, fh_size = fh_size f + fh_size r\<rparr>" "fh_end (fh_merge r f) < 2 ^ 64"
    if "r \<in> set rs" "fh_end f = fh_start r" for r
    using that assms(3) pos [of r] by (simp_all add: fh_merge_def fh_end_def)
  have left: "fh_merge l g = \<lparr>fh_start = fh_start l, fh_size = fh_size l + fh_size g\<rparr>"
    if "fh_end l = fh_start g" "fh_end g < 2 ^ 64" for l g
    using that by (simp add: fh_merge_def fh_end_def)
  show ?thesis
  proof (cases ls rule: rev_cases)
    case Nil
    show ?thesis
    proof (cases rs)
      case (Cons r rs')
      then show ?thesis using i Nil right [of r] b [OF f] by (simp add: insert_free_def Let_def attach_def)
    qed (simp add: Nil insert_free_def attach_def)
  next
    case (snoc ls' l)
    have l: "fh_end l < 2 ^ 64" "fh_end l \<le> fh_start f" "0 < fh_size l" using pos [of l] assms(5) snoc by auto
    show ?thesis
    proof (cases rs)
      case Nil
      then show ?thesis using i snoc left [OF _ f, of l] b [OF l(1)]
        by (simp add: insert_free_def Let_def attach_def list_update_append)
    next
      case (Cons r rs')
      let ?m = "\<lparr>fh_start = fh_start f, fh_size = fh_size f + fh_size r\<rparr>"
      have r: "r \<in> set rs" using Cons by simp
      note left_m = left [of l ?m] and left_f = left [OF _ f, of l]
      show ?thesis
      proof (cases "fh_end f = fh_start r")
        case True
        have "fh_end ?m < 2 ^ 64" using right(2) [OF r True] right(1) [OF r True] by simp
        then show ?thesis using i snoc Cons True left_m b [OF l(1)] b [OF f] right(1) [OF r True]
          by (simp add: insert_free_def Let_def attach_def list_update_append nth_append remove_at_def fh_end_def add.assoc)
      next
        case False
        then show ?thesis using i snoc Cons left_f b [OF l(1)] b [OF f] pos [of r]
          by (simp add: insert_free_def Let_def attach_def list_update_append nth_append fh_end_def)
      qed
    qed
  qed
qed

lemma attach_right_ok:
  assumes "list_ok lo hi rs" "0 < fh_size f" "lo \<le> fh_start f" "fh_end f \<le> hi" "\<forall>r \<in> set rs. fh_end f \<le> fh_start r"
  shows "list_ok lo hi (attach_right f rs)" "free_bytes (attach_right f rs) = fh_bytes f \<union> free_bytes rs"
    "\<forall>g \<in> set (attach_right f rs). fh_start f \<le> fh_start g"
proof (atomize(full), cases rs)
  case (Cons r rs')
  then have r: "fh_end f \<le> fh_start r" "\<forall>g \<in> set rs'. fh_end f \<le> fh_start g" using assms(5) by simp_all
  have "fh_start f \<le> fh_end f" by (simp add: fh_end_def)
  then show "list_ok lo hi (attach_right f rs) \<and> free_bytes (attach_right f rs) = fh_bytes f \<union> free_bytes rs \<and>
      (\<forall>g \<in> set (attach_right f rs). fh_start f \<le> fh_start g)"
    using Cons assms(1-4) r by (auto simp: list_ok_def fh_end_def fh_bytes_def)
qed (use assms in \<open>auto simp: list_ok_def\<close>)

lemma attach_ok:
  assumes "list_ok lo hi (ls @ rs)" "0 < fh_size f" "lo \<le> fh_start f" "fh_end f \<le> hi"
    "\<forall>l \<in> set ls. fh_end l \<le> fh_start f" "\<forall>r \<in> set rs. fh_end f \<le> fh_start r"
  shows "list_ok lo hi (attach ls f rs) \<and> free_bytes (attach ls f rs) = free_bytes (ls @ rs) \<union> fh_bytes f"
proof (cases "ls \<noteq> [] \<and> fh_end (last ls) = fh_start f")
  case True
  define l where "l = last ls"
  obtain ls' where ls: "ls = ls' @ [l]" using True by (metis append_butlast_last_id l_def)
  let ?m = "\<lparr>fh_start = fh_start l, fh_size = fh_size l + fh_size f\<rparr>"
  have m: "fh_end ?m = fh_end f" "fh_bytes ?m = fh_bytes l \<union> fh_bytes f"
    using True by (auto simp: fh_bytes_def fh_end_def l_def)
  have parts: "list_ok lo hi ls'" "list_ok lo hi rs" "\<forall>g \<in> set ls'. fh_end g < fh_start l" "0 < fh_size l" "lo \<le> fh_start l"
    using assms(1) by (auto simp: list_ok_def ls sorted_wrt_append)
  note right = attach_right_ok [OF parts(2), of ?m]
  have "list_ok lo hi (ls' @ attach_right ?m rs)"
    using right parts m assms(4,6) by (fastforce simp: list_ok_def sorted_wrt_append)
  then show ?thesis using True right(2) parts m assms(4,6) by (auto simp: attach_def ls)
next
  case False
  have parts: "list_ok lo hi ls" "list_ok lo hi rs" using assms(1) by (auto simp: list_ok_def sorted_wrt_append)
  have before: "\<forall>g \<in> set ls. fh_end g < fh_start f"
  proof
    fix g assume g: "g \<in> set ls"
    define l where "l = last ls"
    obtain ls' where ls: "ls = ls' @ [l]" using g by (metis append_butlast_last_id empty_iff l_def list.set(1))
    have l: "fh_end l < fh_start f" using assms(5) False ls by (auto simp: order.strict_iff_order)
    have "g = l \<or> fh_end g < fh_start l" using assms(1) g by (auto simp: list_ok_def ls sorted_wrt_append)
    then show "fh_end g < fh_start f" using l by (auto simp: fh_end_def)
  qed
  note right = attach_right_ok [OF parts(2) assms(2-4,6)]
  have "list_ok lo hi (ls @ attach_right f rs)"
    using right parts before by (fastforce simp: list_ok_def sorted_wrt_append)
  moreover have "attach ls f rs = ls @ attach_right f rs" using False by (auto simp: attach_def)
  ultimately show ?thesis using right(2) by (auto simp: attach_def)
qed

text \<open>A region that is disjoint from all free parts has its place in the list.\<close>

lemma place_of:
  assumes "list_ok lo hi fs" "0 < fh_size f" "fh_bytes f \<inter> free_bytes fs = {}"
  obtains ls rs where "fs = ls @ rs" "\<forall>l \<in> set ls. fh_end l \<le> fh_start f" "\<forall>r \<in> set rs. fh_end f \<le> fh_start r"
proof -
  have apart: "fh_end g \<le> fh_start f \<or> fh_end f \<le> fh_start g" if "g \<in> set fs" for g
  proof (rule ccontr)
    assume "\<not> (fh_end g \<le> fh_start f \<or> fh_end f \<le> fh_start g)"
    moreover have "0 < fh_size g" using assms(1) that by (simp add: list_ok_def)
    ultimately have "max (fh_start f) (fh_start g) \<in> fh_bytes f \<inter> fh_bytes g"
      using assms(2) by (auto simp: fh_bytes_def fh_end_def)
    then show False using assms(3) that by (auto simp: free_bytes_def)
  qed
  let ?P = "\<lambda>g. fh_end g \<le> fh_start f"
  have sorted: "sorted_wrt (\<lambda>f g. fh_end f < fh_start g) fs" using assms(1) by (simp add: list_ok_def)
  have "\<forall>r \<in> set (dropWhile ?P fs). fh_end f \<le> fh_start r"
  proof (cases "dropWhile ?P fs")
    case (Cons x xs)
    then have x: "\<not> ?P x" "x \<in> set fs" by (metis dropWhile_eq_Cons_conv) (metis Cons set_dropWhileD list.set_intros(1))
    then have "fh_end f \<le> fh_start x" using apart by blast
    moreover have "sorted_wrt (\<lambda>f g. fh_end f < fh_start g) (takeWhile ?P fs @ x # xs)"
      using sorted Cons by (metis takeWhile_dropWhile_id)
    then have "\<forall>y \<in> set xs. fh_end x < fh_start y" by (simp add: sorted_wrt_append)
    ultimately show ?thesis using Cons by (auto simp: fh_end_def intro: le_trans less_imp_le)
  next
    case Nil
    show ?thesis unfolding Nil by simp
  qed
  moreover have "\<forall>l \<in> set (takeWhile ?P fs). ?P l" by (meson set_takeWhileD)
  ultimately show ?thesis using that [of "takeWhile ?P fs" "dropWhile ?P fs"] by simp
qed

lemma insert_free_ok:
  assumes "list_ok lo hi fs" "hi < 2 ^ 64" "0 < fh_size f" "lo \<le> fh_start f" "fh_end f \<le> hi" "fh_bytes f \<inter> free_bytes fs = {}"
  shows "list_ok lo hi (insert_free f fs)" "free_bytes (insert_free f fs) = free_bytes fs \<union> fh_bytes f"
proof -
  obtain ls rs where fs: "fs = ls @ rs" and b: "\<forall>l \<in> set ls. fh_end l \<le> fh_start f" "\<forall>r \<in> set rs. fh_end f \<le> fh_start r"
    by (rule place_of [OF assms(1,3,6)])
  have "insert_free f fs = attach ls f rs" unfolding fs by (rule insert_free_eq [OF assms(1) [unfolded fs] assms(2,3,5) b])
  moreover note attach_ok [OF assms(1) [unfolded fs] assms(3-5) b]
  ultimately show "list_ok lo hi (insert_free f fs)" "free_bytes (insert_free f fs) = free_bytes fs \<union> fh_bytes f" by (simp_all add: fs)
qed

lemma insert_cut:
  assumes "list_ok lo hi fs" "hi < 2 ^ 64" "cuttable i r fs"
  shows "insert_free r (cut i r fs) = fs"
proof -
  obtain xs f ys where fs: "fs = xs @ f # ys" "i = length xs"
    using assms(3) by (metis cuttable_def id_take_nth_drop length_take min.absorb4)
  have f: "fh_start f \<le> fh_start r" "fh_end r = fh_end f" "0 < fh_size r" using assms(3) by (simp_all add: cuttable_def fs)
  have sep: "\<forall>g \<in> set xs. fh_end g < fh_start f" "\<forall>g \<in> set ys. fh_end f < fh_start g"
    using assms(1) by (auto simp: list_ok_def fs sorted_wrt_append)
  note ok = cut_ok [OF assms(1,3)]
  have right: "attach_right g ys = g # ys" if "fh_end g = fh_end f" for g using sep(2) that by (cases ys) auto
  show ?thesis
  proof (cases "fh_start r = fh_start f")
    case True
    then have "r = f" using f(2) by (simp add: fh_end_def)
    have c: "cut i r fs = xs @ ys" using True by (simp add: fs cut_append)
    have "insert_free r (xs @ ys) = attach xs r ys"
      by (rule insert_free_eq [where lo = lo and hi = hi]) (use ok(1,5) c assms(2) f sep True in auto)
    moreover have "\<not> (xs \<noteq> [] \<and> fh_end (last xs) = fh_start f)" using sep(1) by (metis last_in_set less_irrefl)
    ultimately show ?thesis unfolding c using True right [of r] \<open>r = f\<close> by (simp add: attach_def fs)
  next
    case False
    let ?g = "\<lparr>fh_start = fh_start f, fh_size = fh_start r - fh_start f\<rparr>"
    have c: "cut i r fs = (xs @ [?g]) @ ys" using False by (simp add: fs cut_append)
    have "insert_free r ((xs @ [?g]) @ ys) = attach (xs @ [?g]) r ys"
      by (rule insert_free_eq [where lo = lo and hi = hi]) (use ok(1,5) c assms(2) f sep in \<open>auto simp: fh_end_def\<close>)
    moreover have "\<lparr>fh_start = fh_start f, fh_size = fh_start r - fh_start f + fh_size r\<rparr> = f"
      using f by (intro fh_eqI) (simp_all add: fh_end_def)
    ultimately show ?thesis unfolding c using f(1) right [of f] by (simp add: attach_def fh_end_def fs)
  qed
qed

subsection \<open>Allocation\<close>

text \<open>The padding that find_block adds, and the fit of a part for a request.\<close>

definition padding :: "nat \<Rightarrow> nat \<Rightarrow> free_header \<Rightarrow> nat" where
  "padding alignment sz f = (fh_end f - sz) mod alignment"

definition fits :: "nat \<Rightarrow> nat \<Rightarrow> free_header \<Rightarrow> bool" where
  "fits alignment sz f \<longleftrightarrow> sz + header_size \<le> fh_size f \<and> sz + padding alignment sz f + header_size \<le> fh_size f"

lemma find_block_from_eq:
  assumes "\<forall>f \<in> set fs. fh_end f < 2 ^ 64" "alignment = 2 ^ k" "sz + alignment + header_size < 2 ^ 64"
  shows "find_block_from alignment sz i fs = (case dropWhile (\<lambda>f. \<not> fits alignment sz f) fs of
    [] \<Rightarrow> None
  | f # _ \<Rightarrow> Some (i + length (takeWhile (\<lambda>f. \<not> fits alignment sz f) fs), sz + padding alignment sz f + header_size))"
  using assms(1)
proof (induction fs arbitrary: i)
  case (Cons f fs)
  have f: "fh_end f < 2 ^ 64" using Cons.prems by simp
  have "wadd sz header_size = sz + header_size" using assms(3) by simp
  moreover have "padding alignment sz f < alignment" by (simp add: padding_def assms(2))
  moreover have "wadd (fh_start f) (fh_size f) = fh_end f" using f by (simp add: fh_end_def)
  moreover have "wsub (fh_end f) sz AND (alignment - 1) = padding alignment sz f" if "sz + header_size \<le> fh_size f"
    using that f and_mask_nat [of "fh_end f - sz" k] by (simp add: padding_def assms(2) fh_end_def)
  ultimately have "find_block_from alignment sz i (f # fs) =
      (if fits alignment sz f then Some (i, sz + padding alignment sz f + header_size) else find_block_from alignment sz (Suc i) fs)"
    using assms(3) by (auto simp: fits_def Let_def)
  then show ?case using Cons.IH [of "Suc i"] Cons.prems
    by (cases "fits alignment sz f"; cases "dropWhile (\<lambda>f. \<not> fits alignment sz f) fs")
      (simp_all del: find_block_from.simps dropWhile_eq_Nil_conv)
qed simp

lemma find_block_Some:
  assumes "\<forall>f \<in> set fs. fh_end f < 2 ^ 64" "alignment = 2 ^ k" "sz + alignment + header_size < 2 ^ 64"
    "find_block_from alignment sz 0 fs = Some (i, need)"
  shows "i < length fs \<and> fits alignment sz (fs ! i) \<and> need = sz + padding alignment sz (fs ! i) + header_size"
proof -
  let ?P = "\<lambda>f. \<not> fits alignment sz f"
  obtain f gs where d: "dropWhile ?P fs = f # gs" "i = length (takeWhile ?P fs)" "need = sz + padding alignment sz f + header_size"
    using assms(4) unfolding find_block_from_eq [OF assms(1-3)] by (auto split: list.splits)
  then have "fs = takeWhile ?P fs @ f # gs" by (metis takeWhile_dropWhile_id)
  then have "i < length fs" "fs ! i = f" using d(2) by (metis length_append length_Cons less_add_Suc1 add_Suc_right, metis nth_append_length)
  moreover have "fits alignment sz f" using d(1) by (metis dropWhile_eq_Cons_conv)
  ultimately show ?thesis using d(3) by simp
qed

lemma find_block_None:
  assumes "\<forall>f \<in> set fs. fh_end f < 2 ^ 64" "alignment = 2 ^ k" "sz + alignment + header_size < 2 ^ 64"
  shows "find_block_from alignment sz 0 fs = None \<longleftrightarrow> (\<forall>f \<in> set fs. \<not> fits alignment sz f)"
  unfolding find_block_from_eq [OF assms] by (auto split: list.splits simp: dropWhile_eq_Nil_conv) (metis dropWhile_eq_Nil_conv list.distinct(1))

text \<open>What a successful allocation does: it cuts the region that freeing gives back off a free part.\<close>

lemma ab_allocate_cuts:
  assumes "list_ok lo hi (ab_free b)" "hi < 2 ^ 64" "alignment = 2 ^ k" "sz + alignment + header_size < 2 ^ 64"
    "ab_allocate stale alignment sz b = (b', Some (a, h))"
  shows "\<exists>i. cuttable i (freed_element a h) (ab_free b) \<and> ab_free b' = cut i (freed_element a h) (ab_free b) \<and>
    ah_unused h \<le> a \<and> fh_end (freed_element a h) = a + header_size + ah_size h \<and>
    fh_start (freed_element a h) = a - ah_unused h \<and> sz \<le> ah_size h \<and> alignment dvd a + header_size \<and>
    ab_id b' = ab_id b \<and> ab_numa b' = ab_numa b \<and> ab_size b' = ab_size b \<and> ab_memory b' = ab_memory b \<and>
    ah_numa h = ab_numa b \<and> ah_block_id h = ab_id b"
proof -
  have small: "\<forall>f \<in> set (ab_free b). fh_end f < 2 ^ 64" using assms(1,2) by (auto simp: list_ok_def)
  obtain i need where fb: "find_block_from alignment sz 0 (ab_free b) = Some (i, need)"
    using assms(5) by (auto simp: ab_allocate_def find_block_def split: if_splits option.splits)
  define f where "f = ab_free b ! i"
  from find_block_Some [OF small assms(3,4) fb]
  have i: "i < length (ab_free b)" "need = sz + padding alignment sz f + header_size" "need \<le> fh_size f"
    by (simp_all add: f_def fits_def)
  then have f: "fh_end f < 2 ^ 64" "f \<in> set (ab_free b)" using small by (auto simp: f_def)
  then have w: "wadd (fh_start f) (fh_size f) = fh_end f" "wsub (fh_size f) need = fh_size f - need"
    "wsub (fh_end f) need = fh_end f - need" "wsub need header_size = need - header_size" "fh_contract need f = \<lparr>fh_start = fh_start f, fh_size = fh_size f - need\<rparr>"
    using i by (simp_all add: fh_end_def fh_contract_def)
  have a: "a = fh_end f - need" and h: "ah_size h = need - header_size" "ah_unused h = (if 256 \<le> fh_size f - need then 0 else fh_size f - need)"
    "ah_numa h = ab_numa b" "ah_block_id h = ab_id b" and
    b': "ab_free b' = (if 256 \<le> fh_size f - need then (ab_free b)[i := \<lparr>fh_start = fh_start f, fh_size = fh_size f - need\<rparr>] else remove_at i (ab_free b))"
    "ab_id b' = ab_id b" "ab_numa b' = ab_numa b" "ab_size b' = ab_size b" "ab_memory b' = ab_memory b"
    using assms(5) fb w unfolding ab_allocate_def find_block_def Let_def
    by (auto simp: f_def [symmetric] split: if_splits)
  have fe: "fh_start (freed_element a h) = a - ah_unused h" "fh_size (freed_element a h) = need + ah_unused h"
    using f(1) a h i by (auto simp: freed_element_def fh_end_def)
  have "cuttable i (freed_element a h) (ab_free b)"
    using fe i a h by (auto simp: cuttable_def f_def [symmetric] fh_end_def header_size_def)
  moreover have "ab_free b' = cut i (freed_element a h) (ab_free b)"
    unfolding b'(1) cut_def using fe(1) a h i by (auto simp: f_def [symmetric] fh_end_def ac_simps)
  moreover have "alignment dvd a + header_size"
  proof -
    have "a + header_size = (fh_end f - sz) - (fh_end f - sz) mod alignment"
      using a i by (simp add: padding_def fh_end_def)
    then show ?thesis by (metis dvd_minus_mod)
  qed
  ultimately show ?thesis using fe a h i b'(2-5) by (intro exI [of _ i]) (auto simp: fh_end_def)
qed

subsection \<open>The invariant of a block\<close>

text \<open>
  The live allocations are the headers in memory, by their address. They and the free parts
  partition the memory of the block.
\<close>

definition region :: "addr \<Rightarrow> allocated_header \<Rightarrow> nat set" where
  "region a h = {a - ah_unused h..<a + header_size + ah_size h}"

definition header_ok :: "nat \<Rightarrow> nat \<Rightarrow> addr \<Rightarrow> allocated_header \<Rightarrow> bool" where
  "header_ok lo hi a h \<longleftrightarrow> lo + ah_unused h \<le> a \<and> a + header_size + ah_size h \<le> hi"

definition block_inv :: "allocation_block \<Rightarrow> (addr \<Rightarrow> allocated_header option) \<Rightarrow> bool" where
  "block_inv b live \<longleftrightarrow> (\<exists>base. ab_memory b = Some base \<and> base + ab_size b < 2 ^ 64 \<and>
     list_ok base (base + ab_size b) (ab_free b) \<and>
     (\<forall>a h. live a = Some h \<longrightarrow> header_ok base (base + ab_size b) a h \<and> region a h \<inter> free_bytes (ab_free b) = {}) \<and>
     (\<forall>a a' h h'. live a = Some h \<longrightarrow> live a' = Some h' \<longrightarrow> a \<noteq> a' \<longrightarrow> region a h \<inter> region a' h' = {}) \<and>
     free_bytes (ab_free b) \<union> (\<Union>(a, h) \<in> {(a, h). live a = Some h}. region a h) = {base..<base + ab_size b})"

lemma freed_element_region:
  assumes "header_ok lo hi a h" "hi < 2 ^ 64"
  shows "fh_bytes (freed_element a h) = region a h" "0 < fh_size (freed_element a h)"
    "lo \<le> fh_start (freed_element a h)" "fh_end (freed_element a h) \<le> hi"
proof -
  have "ah_unused h \<le> a" "a + header_size + ah_size h < 2 ^ 64" using assms by (simp_all add: header_ok_def)
  then have "fh_start (freed_element a h) = a - ah_unused h" "fh_size (freed_element a h) = ah_size h + ah_unused h + header_size"
    by (simp_all add: freed_element_def)
  then show "fh_bytes (freed_element a h) = region a h" "0 < fh_size (freed_element a h)"
    "lo \<le> fh_start (freed_element a h)" "fh_end (freed_element a h) \<le> hi"
    using assms(1) by (auto simp: fh_bytes_def region_def fh_end_def header_ok_def header_size_def)
qed

lemma live_upd: "{(x, y). (live(a \<mapsto> h)) x = Some y} = insert (a, h) {(x, y). x \<noteq> a \<and> live x = Some y}"
  by (auto split: if_splits)

lemma block_inv_new: "0 < sz \<Longrightarrow> memory + sz < 2 ^ 64 \<Longrightarrow> block_inv (ab_new ident numa sz memory) (\<lambda>_. None)"
  by (auto simp: block_inv_def ab_new_def list_ok_def fh_bytes_def fh_end_def)

lemma block_inv_allocate:
  assumes "block_inv b live" "alignment = 2 ^ k" "sz + alignment + header_size < 2 ^ 64"
    "ab_allocate stale alignment sz b = (b', Some (a, h))"
  shows "live a = None" "block_inv b' (live(a \<mapsto> h))" "sz \<le> ah_size h" "alignment dvd a + header_size"
    "insert_free (freed_element a h) (ab_free b') = ab_free b"
proof -
  from assms(1) obtain base where inv: "ab_memory b = Some base" "base + ab_size b < 2 ^ 64" "list_ok base (base + ab_size b) (ab_free b)"
    "\<And>a h. live a = Some h \<Longrightarrow> header_ok base (base + ab_size b) a h \<and> region a h \<inter> free_bytes (ab_free b) = {}"
    "\<And>a a' h h'. live a = Some h \<Longrightarrow> live a' = Some h' \<Longrightarrow> a \<noteq> a' \<Longrightarrow> region a h \<inter> region a' h' = {}"
    "free_bytes (ab_free b) \<union> (\<Union>(a, h) \<in> {(a, h). live a = Some h}. region a h) = {base..<base + ab_size b}"
    unfolding block_inv_def by (elim exE conjE) (rule that; blast)
  from ab_allocate_cuts [OF inv(3,2) assms(2-4)] obtain i where c: "cuttable i (freed_element a h) (ab_free b)"
    "ab_free b' = cut i (freed_element a h) (ab_free b)" "ah_unused h \<le> a"
    "fh_end (freed_element a h) = a + header_size + ah_size h" "fh_start (freed_element a h) = a - ah_unused h"
    "sz \<le> ah_size h" "alignment dvd a + header_size" "ab_size b' = ab_size b" "ab_memory b' = ab_memory b" by blast
  note cut = cut_ok [OF inv(3) c(1)]
  have reg: "fh_bytes (freed_element a h) = region a h" using c(4,5) by (simp add: fh_bytes_def region_def)
  have ok: "header_ok base (base + ab_size b) a h" using cut(4,5) c(3-5) by (auto simp: header_ok_def)
  have "a \<in> region a h" using c(3) by (auto simp: region_def header_size_def)
  then have "a \<in> free_bytes (ab_free b)" using cut(3) reg by auto
  moreover have "a \<in> region a h'" if "live a = Some h'" for h' using inv(4) [OF that] by (auto simp: region_def header_size_def header_ok_def)
  ultimately show new: "live a = None" using inv(4) [of a] by (cases "live a") auto
  have free: "free_bytes (ab_free b') = free_bytes (ab_free b) - region a h" using cut(2) c(2) reg by simp
  have "free_bytes (ab_free b') \<union> (region a h \<union> (\<Union>(a, h) \<in> {(a, h). live a = Some h}. region a h)) = {base..<base + ab_size b}"
    using inv(6) free cut(3) reg by auto
  moreover have "{(x, y). x \<noteq> a \<and> live x = Some y} = {(x, y). live x = Some y}" using new by force
  then have "(\<Union>(x, y) \<in> {(x, y). (live(a \<mapsto> h)) x = Some y}. region x y) =
      region a h \<union> (\<Union>(a, h) \<in> {(a, h). live a = Some h}. region a h)"
    unfolding live_upd by simp
  moreover have "region x y \<inter> region a h = {}" if "live x = Some y" for x y using inv(4) [OF that] cut(3) reg by auto
  moreover have "region x y \<inter> free_bytes (ab_free b') = {}" if "live x = Some y" for x y using inv(4) [OF that] free by auto
  ultimately show "block_inv b' (live(a \<mapsto> h))"
    unfolding block_inv_def using inv(1,2,4,5) c(2,8,9) cut(1) ok free
    by (intro exI [of _ base]) (auto simp: Int_commute)
  show "sz \<le> ah_size h" "alignment dvd a + header_size" using c by simp_all
  show "insert_free (freed_element a h) (ab_free b') = ab_free b" using insert_cut [OF inv(3,2) c(1)] c(2) by simp
qed

lemma block_inv_free:
  assumes "block_inv b live" "live a = Some h"
  shows "block_inv (ab_free_region a h b) (live(a := None))"
proof -
  from assms(1) obtain base where inv: "ab_memory b = Some base" "base + ab_size b < 2 ^ 64" "list_ok base (base + ab_size b) (ab_free b)"
    "\<And>a h. live a = Some h \<Longrightarrow> header_ok base (base + ab_size b) a h \<and> region a h \<inter> free_bytes (ab_free b) = {}"
    "\<And>a a' h h'. live a = Some h \<Longrightarrow> live a' = Some h' \<Longrightarrow> a \<noteq> a' \<Longrightarrow> region a h \<inter> region a' h' = {}"
    "free_bytes (ab_free b) \<union> (\<Union>(a, h) \<in> {(a, h). live a = Some h}. region a h) = {base..<base + ab_size b}"
    unfolding block_inv_def by (elim exE conjE) (rule that; blast)
  have ok: "header_ok base (base + ab_size b) a h" using inv(4) [OF assms(2)] ..
  note fe = freed_element_region [OF ok inv(2)]
  note ins = insert_free_ok [OF inv(3,2) fe(2-4)]
  have ins1: "list_ok base (base + ab_size b) (insert_free (freed_element a h) (ab_free b))"
    and ins2: "free_bytes (insert_free (freed_element a h) (ab_free b)) = free_bytes (ab_free b) \<union> region a h"
    using ins fe(1) inv(4) [OF assms(2)] by auto
  have "{(x, y). live x = Some y} = insert (a, h) {(x, y). (live(a := None)) x = Some y}" using assms(2) by (auto split: if_splits)
  then have "free_bytes (ab_free b) \<union> region a h \<union> (\<Union>(x, y) \<in> {(x, y). (live(a := None)) x = Some y}. region x y) = {base..<base + ab_size b}"
    using inv(6) by auto
  moreover have "region x y \<inter> (free_bytes (ab_free b) \<union> region a h) = {}" if "live x = Some y" "x \<noteq> a" for x y
    using inv(4) [OF that(1)] inv(5) [OF that(1) assms(2) that(2)] by blast
  ultimately show ?thesis
    unfolding block_inv_def using inv(1-5) ins1 ins2
    by (intro exI [of _ base]) (simp add: ab_free_region_def Let_def)
qed

subsection \<open>Sequences of allocations and deallocations\<close>

text \<open>
  The use of one block by its clients: any sequence of allocations with valid arguments and of
  deallocations of live allocations; \<open>live\<close> holds the headers of the live allocations.
\<close>

inductive block_run :: "allocation_block \<Rightarrow> (addr \<Rightarrow> allocated_header option) \<Rightarrow> bool" where
  block_new: "0 < sz \<Longrightarrow> memory + sz < 2 ^ 64 \<Longrightarrow> block_run (ab_new ident numa sz memory) (\<lambda>_. None)"
| block_allocate: "block_run b live \<Longrightarrow> sz + 2 ^ k + header_size < 2 ^ 64 \<Longrightarrow>
    ab_allocate stale (2 ^ k) sz b = (b', Some (a, h)) \<Longrightarrow> block_run b' (live(a \<mapsto> h))"
| block_free: "block_run b live \<Longrightarrow> live a = Some h \<Longrightarrow> block_run (ab_free_region a h b) (live(a := None))"

lemma block_run_inv: "block_run b live \<Longrightarrow> block_inv b live"
proof (induction rule: block_run.induct)
  case (block_allocate b live sz k stale b' a h)
  then show ?case using block_inv_allocate(2) [OF _ refl] by blast
qed (auto intro: block_inv_new block_inv_free simp del: fun_upd_apply)

lemma block_run_size: "block_run b live \<Longrightarrow> 0 < ab_size b"
proof (induction rule: block_run.induct)
  case (block_allocate b live sz k stale b' a h)
  then show ?case by (auto simp: ab_allocate_def Let_def split: if_splits option.splits)
qed (simp_all add: ab_new_def ab_free_region_def Let_def)

text \<open>A free list without bordering parts that covers an interval is one part.\<close>

lemma list_ok_single:
  assumes "list_ok lo hi fs" "free_bytes fs = {lo..<hi}" "lo < hi"
  shows "fs = [\<lparr>fh_start = lo, fh_size = hi - lo\<rparr>]"
proof -
  have "fs \<noteq> []" using assms(2,3) by auto
  then obtain f gs where fs: "fs = f # gs" by (cases fs) auto
  have sep: "\<forall>g \<in> set gs. fh_end f < fh_start g" and b: "\<forall>g \<in> set fs. 0 < fh_size g \<and> lo \<le> fh_start g \<and> fh_end g \<le> hi"
    using assms(1) by (auto simp: list_ok_def fs)
  have in_f: "x \<in> fh_bytes f" if "x \<in> {lo..<hi}" "x \<le> fh_end f" for x
    using that sep unfolding assms(2) [symmetric] fs by (fastforce simp: free_bytes_def fh_bytes_def)
  have "lo \<in> fh_bytes f" using b assms(3) by (intro in_f) (auto simp: fs fh_end_def)
  then have start: "fh_start f = lo" using b by (auto simp: fs fh_bytes_def)
  have "fh_end f \<in> fh_bytes f" if "fh_end f < hi" using that b by (intro in_f) (auto simp: fs fh_end_def)
  then have stop: "fh_end f = hi" using b by (cases "fh_end f < hi") (auto simp: fs fh_bytes_def)
  have "gs = []"
  proof (rule ccontr)
    assume "gs \<noteq> []"
    then obtain g where g: "g \<in> set gs" using list.set_sel(1) by blast
    then have "fh_end g \<le> hi" "hi < fh_start g" using b sep stop by (auto simp: fs)
    then show False by (simp add: fh_end_def)
  qed
  moreover have "f = \<lparr>fh_start = lo, fh_size = hi - lo\<rparr>" using start stop by (intro fh_eqI) (auto simp: fh_end_def)
  ultimately show ?thesis by (simp add: fs)
qed

subsection \<open>Requests to the allocator\<close>

lemma da_try_allocate_new:
  assumes "\<not> da_flags s numa"
  shows "da_try_allocate stale numa alignment sz (da_allocate_new_block mem numa n s) =
    (case ab_allocate stale alignment sz (ab_new (da_next_id s numa) (of_nat numa) n (mem numa (da_next_id s numa))) of
       (b, None) \<Rightarrow> Some (s\<lparr>da_next_id := (da_next_id s)(numa := da_next_id s numa + 1),
         da_blocks := (da_blocks s)(numa := da_blocks s numa @ [b])\<rparr>, None)
     | (b, Some (a, h)) \<Rightarrow> Some (s\<lparr>da_next_id := (da_next_id s)(numa := da_next_id s numa + 1),
         da_blocks := (da_blocks s)(numa := da_blocks s numa @ [b]), da_headers := (da_headers s)(a \<mapsto> h)\<rparr>, Some (wadd a header_size)))"
  using assms by (simp add: da_try_allocate_def da_allocate_new_block_def da_append_block_def Let_def split: prod.split option.split)

text \<open>A new block serves every request that fits behind the padding and the header.\<close>

lemma ab_allocate_new:
  assumes "alignment = 2 ^ k" "sz + alignment + header_size \<le> n" "memory + n < 2 ^ 64"
  shows "\<exists>b a h. ab_allocate stale alignment sz (ab_new ident numa n memory) = (b, Some (a, h))"
proof -
  let ?b = "ab_new ident numa n memory" and ?f = "\<lparr>fh_start = memory, fh_size = n\<rparr>"
  have "padding alignment sz ?f < alignment" by (simp add: padding_def assms(1))
  then have "fits alignment sz ?f" using assms(2) by (simp add: fits_def)
  moreover have "sz + alignment + header_size < 2 ^ 64" using assms(2,3) by linarith
  ultimately have "find_block alignment sz ?b \<noteq> None"
    using find_block_None [of "ab_free ?b" alignment k sz] assms(1,3) by (simp add: find_block_def ab_new_def fh_end_def)
  then show ?thesis using assms(2) by (auto simp: ab_allocate_def ab_new_def Let_def)
qed

lemma ab_allocate_too_large:
  assumes "alignment = 2 ^ k" "n < sz + header_size" "sz + alignment + header_size < 2 ^ 64" "memory + n < 2 ^ 64"
  shows "ab_allocate stale alignment sz (ab_new ident numa n memory) = (ab_new ident numa n memory, None)"
proof -
  have "find_block alignment sz (ab_new ident numa n memory) = None"
    using find_block_None [of "ab_free (ab_new ident numa n memory)" alignment k sz] assms
    by (simp add: find_block_def ab_new_def fh_end_def fits_def)
  then show ?thesis by (simp add: ab_allocate_def)
qed

subsection \<open>Properties\<close>

text \<open>A concrete use of a block: two allocations, the first one freed again.\<close>

definition demo_block :: allocation_block where
  "demo_block = ab_new 0 0 4096 8192"

definition demo_first :: "allocation_block \<times> (addr \<times> allocated_header) option" where
  "demo_first = ab_allocate (\<lambda>_ _. 0) 64 100 demo_block"

lemma demo_first_eq: "ab_allocate (\<lambda>_ _. 0) (2 ^ 6) 100 demo_block = (fst demo_first, Some (12144, \<lparr>ah_size = 128, ah_unused = 0, ah_numa = 0, ah_block_id = 0\<rparr>))"
  by (simp add: demo_first_def demo_block_def ab_allocate_def find_block_def ab_new_def Let_def header_size_def fh_contract_def)

lemma demo_block_run: "block_run demo_block (\<lambda>_. None)"
  unfolding demo_block_def by (rule block_new) simp_all

lemma demo_first_run: "block_run (fst demo_first) [12144 \<mapsto> \<lparr>ah_size = 128, ah_unused = 0, ah_numa = 0, ah_block_id = 0\<rparr>]"
  by (rule block_allocate [OF demo_block_run _ demo_first_eq]) (simp add: header_size_def)

text \<open>
  C9: Whatever the order of allocations and deallocations, and whatever the read of the removed
  iterator returns, the live allocations (header and padding included) and the free parts of a
  block partition its memory: no two allocations overlap and no byte is lost.
\<close>

theorem block_memory_is_partitioned:
  assumes "block_run b live"
  shows "\<exists>base. ab_memory b = Some base \<and>
    free_bytes (ab_free b) \<union> (\<Union>(a, h) \<in> {(a, h). live a = Some h}. region a h) = {base..<base + ab_size b} \<and>
    (\<forall>a h. live a = Some h \<longrightarrow> region a h \<inter> free_bytes (ab_free b) = {}) \<and>
    (\<forall>a a' h h'. live a = Some h \<longrightarrow> live a' = Some h' \<longrightarrow> a \<noteq> a' \<longrightarrow> region a h \<inter> region a' h' = {})"
  using block_run_inv [OF assms] unfolding block_inv_def by (elim exE conjE) (intro exI conjI; blast)

lemma block_memory_is_partitioned_witness:
  "\<exists>base. ab_memory (fst demo_first) = Some base \<and> free_bytes (ab_free (fst demo_first)) \<union>
     (\<Union>(a, h) \<in> {(a, h). [12144 \<mapsto> \<lparr>ah_size = 128, ah_unused = 0, ah_numa = 0, ah_block_id = 0\<rparr>] a = Some h}. region a h) =
     {base..<base + ab_size (fst demo_first)}"
  using block_memory_is_partitioned [OF demo_first_run] by blast

text \<open>
  C11: A successful allocation returns memory behind a new header that is aligned as requested and
  at least as large as requested; freeing it at once restores the free list exactly. An allocation
  fails only when no free part can hold the request with its header and padding, or when the
  counter of available bytes is below the request.
\<close>

theorem allocation_is_aligned_and_reversible:
  assumes "block_run b live" "sz + 2 ^ k + header_size < 2 ^ 64"
  shows "case ab_allocate stale (2 ^ k) sz b of
      (b', Some (a, h)) \<Rightarrow> live a = None \<and> 2 ^ k dvd a + header_size \<and> sz \<le> ah_size h \<and>
        ab_free (ab_free_region a h b') = ab_free b
    | (b', None) \<Rightarrow> b' = b \<and> (ab_available b < sz \<or> (\<forall>f \<in> set (ab_free b). \<not> fits (2 ^ k) sz f))"
proof -
  have inv: "block_inv b live" by (rule block_run_inv [OF assms(1)])
  obtain b' r where r: "ab_allocate stale (2 ^ k) sz b = (b', r)" by (cases "ab_allocate stale (2 ^ k) sz b")
  show ?thesis
  proof (cases r)
    case None
    have "\<forall>f \<in> set (ab_free b). fh_end f < 2 ^ 64" using inv by (auto simp: block_inv_def list_ok_def)
    from find_block_None [OF this refl assms(2)] have "find_block (2 ^ k) sz b = None \<longleftrightarrow> (\<forall>f \<in> set (ab_free b). \<not> fits (2 ^ k) sz f)"
      by (simp add: find_block_def)
    then show ?thesis using r None by (auto simp: ab_allocate_def Let_def split: if_splits option.splits)
  next
    case (Some ah)
    obtain a h where ah: "ah = (a, h)" by (cases ah)
    from block_inv_allocate [OF inv refl assms(2), of stale b' a h] r Some ah
    show ?thesis by (simp add: ab_free_region_def Let_def)
  qed
qed

lemma allocation_is_aligned_and_reversible_witness:
  "ab_free (ab_free_region 12144 \<lparr>ah_size = 128, ah_unused = 0, ah_numa = 0, ah_block_id = 0\<rparr> (fst demo_first)) = ab_free demo_block"
  using allocation_is_aligned_and_reversible [OF demo_block_run, of 100 6 "\<lambda>_ _. 0"] demo_first_eq by (simp add: header_size_def)

text \<open>
  When everything has been freed the block is one free part again, so that is_free holds and
  the block can be returned: freed regions are always merged with both neighbours.
\<close>

lemma freed_block_is_one_part:
  assumes "block_run b (\<lambda>_. None)"
  shows "\<exists>base. ab_memory b = Some base \<and> ab_free b = [\<lparr>fh_start = base, fh_size = ab_size b\<rparr>] \<and> ab_is_free b"
proof -
  obtain base where inv: "ab_memory b = Some base" "list_ok base (base + ab_size b) (ab_free b)" "free_bytes (ab_free b) = {base..<base + ab_size b}"
    using block_run_inv [OF assms] by (auto simp: block_inv_def)
  have "ab_free b = [\<lparr>fh_start = base, fh_size = ab_size b\<rparr>]"
    using list_ok_single [OF inv(2,3)] block_run_size [OF assms] by simp
  then show ?thesis using inv(1) by (simp add: ab_is_free_def)
qed

lemma default_block_size:
  assumes "sz \<le> 2 ^ 28"
  shows "max (2 ^ 28) (next_multiple sz 64) = 2 ^ 28"
proof (cases "64 < sz \<and> sz mod 64 \<noteq> 0")
  case True
  have "(2 :: nat) ^ 28 mod 64 = 0" by simp
  then have "sz \<noteq> 2 ^ 28" using True by metis
  then have "sz div 64 < 2 ^ 28 div 64" using assms by simp
  then have "sz - sz mod 64 + 64 \<le> 2 ^ 28" by (simp add: minus_mod_eq_mult_div)
  moreover have "next_multiple sz 64 = sz - sz mod 64 + 64"
    using True assms by (simp add: next_multiple_def Let_def)
  ultimately show ?thesis by simp
next
  case False
  then have "next_multiple sz 64 = sz \<or> next_multiple sz 64 = 64" by (auto simp: next_multiple_def Let_def)
  then show ?thesis using assms by auto
qed

text \<open>
  C12: The allocation loop ends: a request that fits with its header and padding into the default
  block size of 2^28 bytes is served after at most one new block.
\<close>

theorem allocate_terminates:
  assumes "da_blocks s numa \<noteq> []" "\<not> da_flags s numa" "sz + 2 ^ k + header_size \<le> 2 ^ 28"
    "mem numa (da_next_id s numa) + 2 ^ 28 < 2 ^ 64"
  shows "\<exists>s' p. da_allocate 1 mem stale numa (2 ^ k) sz s = Some (s', p)"
proof -
  have big: "max (2 ^ 28) (next_multiple sz 64) = 2 ^ 28"
    by (rule default_block_size) (use assms(3) in \<open>simp add: header_size_def\<close>)
  have "da_try_allocate stale numa (2 ^ k) sz s \<noteq> None"
    using assms(1) by (simp add: da_try_allocate_def split: prod.split option.split)
  then obtain s1 r where first: "da_try_allocate stale numa (2 ^ k) sz s = Some (s1, r)" by auto
  show ?thesis
  proof (cases r)
    case None
    then have s1: "da_flags s1 = da_flags s" "da_next_id s1 = da_next_id s"
      using first assms(1) by (auto simp: da_try_allocate_def split: prod.splits option.splits)
    obtain b a h where new: "ab_allocate stale (2 ^ k) sz (ab_new (da_next_id s numa) (of_nat numa) (2 ^ 28) (mem numa (da_next_id s numa))) = (b, Some (a, h))"
      using ab_allocate_new [OF refl assms(3,4)] by blast
    then show ?thesis
      using first None big s1 assms(2) da_try_allocate_new [of s1 numa stale "2 ^ k" sz mem "2 ^ 28"]
      by (simp add: da_allocate_def)
  qed (use first in \<open>simp add: da_allocate_def\<close>)
qed

definition demo_allocator :: dyn_allocator where
  "demo_allocator = da_new (\<lambda>_ ident. 2 ^ 30 * Suc (unat ident)) 0"

lemma allocate_terminates_witness:
  "\<exists>s' p. da_allocate 1 (\<lambda>_ ident. 2 ^ 30 * Suc (unat ident)) (\<lambda>_ _. 0) 0 (2 ^ 6) 20000000 demo_allocator = Some (s', p)"
  by (rule allocate_terminates)
    (simp_all add: demo_allocator_def da_new_def da_initialize_empty_def da_append_block_def Let_def header_size_def)

text \<open>
  C13: The loop does not end for large requests of a multiple of 64 bytes: the new block is as
  large as the request and has no room for the header, so however long the loop runs, it only
  adds blocks.
\<close>

theorem large_request_never_returns:
  assumes "2 ^ 28 \<le> sz" "64 dvd sz" "sz + 2 ^ k + header_size < 2 ^ 64" "\<not> da_flags s numa" "\<forall>ident. mem numa ident + sz < 2 ^ 64"
  shows "da_allocate_loop fuel mem stale numa (2 ^ k) sz (max (2 ^ 28) (next_multiple sz 64)) s = None"
proof -
  have "sz mod 64 = 0" using assms(2) by (simp add: dvd_eq_mod_eq_0)
  then have n: "max (2 ^ 28) (next_multiple sz 64) = sz" using assms(1) by (simp add: next_multiple_def Let_def)
  show ?thesis
    unfolding n using assms(4)
  proof (induction fuel arbitrary: s)
    case (Suc fuel)
    have "ab_allocate stale (2 ^ k) sz (ab_new (da_next_id s numa) (of_nat numa) sz (mem numa (da_next_id s numa))) =
        (ab_new (da_next_id s numa) (of_nat numa) sz (mem numa (da_next_id s numa)), None)"
      by (rule ab_allocate_too_large [OF refl]) (use assms in \<open>simp_all add: header_size_def\<close>)
    then show ?case using Suc da_try_allocate_new [of s numa stale "2 ^ k" sz mem sz] by simp
  qed simp
qed

lemma large_request_never_returns_witness:
  "da_allocate_loop 1000 (\<lambda>_ _. 2 ^ 40) (\<lambda>_ _. 0) 0 (2 ^ 6) (2 ^ 28) (max (2 ^ 28) (next_multiple (2 ^ 28) 64)) demo_allocator = None"
  by (rule large_request_never_returns)
    (simp_all add: demo_allocator_def da_new_def da_initialize_empty_def da_append_block_def Let_def header_size_def)

subsection \<open>Two defects of defragmentation\<close>

text \<open>
  A block that is completely allocated has no free part, so is_free takes it for a free one and
  defragment returns its memory while it is in use.
\<close>

lemma full_block_is_returned:
  assumes "ab_free b = []" "ab_memory b = Some m"
  shows "remove_free_blocks [b] = ([], [(m, ab_size b, ab_numa b)])"
  using assms by (simp add: remove_free_blocks_def ab_is_free_def ab_destroy_def)

lemma full_block_exists:
  "\<exists>b a h. block_run b [a \<mapsto> h] \<and> ab_free b = [] \<and> ab_is_free b"
proof -
  define r where "r = ab_allocate (\<lambda>_ _. 0) (2 ^ 4) 4080 demo_block"
  have r: "r = (fst r, Some (8192, \<lparr>ah_size = 4080, ah_unused = 0, ah_numa = 0, ah_block_id = 0\<rparr>))" "ab_free (fst r) = []"
    by (simp_all add: r_def demo_block_def ab_allocate_def find_block_def ab_new_def Let_def header_size_def remove_at_def)
  from block_allocate [OF demo_block_run _ r(1) [unfolded r_def]]
  have "block_run (fst r) [8192 \<mapsto> \<lparr>ah_size = 4080, ah_unused = 0, ah_numa = 0, ah_block_id = 0\<rparr>]"
    by (simp add: header_size_def r_def)
  then show ?thesis using r(2) by (auto simp: ab_is_free_def)
qed

text \<open>
  The move assignment overwrites the memory pointer of its target: when a free block stands in
  front of one in use, remove_if moves the latter over the former and the memory of the free
  block is never returned.
\<close>

lemma defragment_leaks:
  assumes "ab_is_free b" "\<not> ab_is_free c"
  shows "remove_free_blocks [b, c] = ([c], [])"
  using assms by (simp add: remove_free_blocks_def ab_move_def ab_destroy_def Let_def)

end
