(* ===== verification/FixedAllocator.thy ===== *)
theory FixedAllocator
  imports CoreSet
begin

section \<open>The allocator for tasks\<close>

text \<open>
  src/mx/memory/fixed_size_allocator.h: objects of one fixed size for every core. A core heap keeps
  its free objects in a linked list; when the list is empty it takes a chunk from the processor heap
  of its NUMA region, which buffers 128 chunks and takes the memory for them from the global heap.

  The memory that the global heap returns is an argument of the operations. The objects' \<open>_next\<close>
  fields are a store of links. A core heap is used by its own core only. Here every call of the
  processor heap runs undisturbed by the other cores; theory FixedConcurrent has the interleaving of
  the cores at its atomic counter, its flag and its buffer.

  The lemmas show that the objects handed out by calls one after the other, by whichever core and in
  whichever order, never overlap, also when objects are freed on other cores than they were allocated
  on, and that an allocation succeeds.
\<close>

subsection \<open>Chunks\<close>

record chunk =
  ch_memory :: "addr option"
  ch_allocated :: bool

definition chunk_default :: chunk where
  "chunk_default = \<lparr>ch_memory = None, ch_allocated = True\<rparr>"

definition chunk_size :: nat where
  "chunk_size = 4096 * 4096"

definition chunk_is_allocated :: "chunk \<Rightarrow> bool" where
  "chunk_is_allocated c \<longleftrightarrow> ch_memory c \<noteq> None \<and> ch_allocated c"

subsection \<open>Processor heaps\<close>

record processor_heap =
  ph_numa_node_id :: u8
  ph_free_chunk_buffer :: "chunk list"
  ph_next_free_chunk :: u8
  ph_fill_buffer_flag :: bool
  ph_allocated_chunks :: "chunk list"

definition chunks :: nat where
  "chunks = 128"

definition ph_default :: processor_heap where
  "ph_default = \<lparr>ph_numa_node_id = - 1, ph_free_chunk_buffer = replicate chunks chunk_default, ph_next_free_chunk = 0,
     ph_fill_buffer_flag = False, ph_allocated_chunks = []\<rparr>"

text \<open>The offset i * Chunk::size() is computed in 32 bits; only the first chunk owns the memory.\<close>

definition chunk_at :: "addr \<Rightarrow> nat \<Rightarrow> chunk" where
  "chunk_at memory i = \<lparr>ch_memory = Some (memory + (i * chunk_size) mod 2 ^ 32), ch_allocated = (i = 0)\<rparr>"

definition ph_fill_buffer :: "bool \<Rightarrow> addr \<Rightarrow> processor_heap \<Rightarrow> processor_heap" where
  "ph_fill_buffer is_first memory ph = ph\<lparr>
     ph_allocated_chunks := (if is_first then ph_allocated_chunks ph else ph_allocated_chunks ph @ ph_free_chunk_buffer ph),
     ph_free_chunk_buffer := map (chunk_at memory) [0..<length (ph_free_chunk_buffer ph)],
     ph_next_free_chunk := 0\<rparr>"

definition ph_new :: "u8 \<Rightarrow> addr \<Rightarrow> processor_heap" where
  "ph_new numa memory = ph_fill_buffer True memory (ph_default\<lparr>ph_numa_node_id := numa\<rparr>)"

text \<open>Move assignment: the new value of the target and what is left of the source.\<close>

definition ph_move :: "processor_heap \<Rightarrow> processor_heap \<times> processor_heap" where
  "ph_move other = (other, other\<lparr>ph_numa_node_id := - 1,
     ph_free_chunk_buffer := replicate (length (ph_free_chunk_buffer other)) chunk_default, ph_allocated_chunks := []\<rparr>)"

definition ph_destroy :: "u8 \<Rightarrow> processor_heap \<Rightarrow> (addr \<times> nat \<times> u8) list" where
  "ph_destroy max_node_id ph =
     (if max_node_id < ph_numa_node_id ph then []
      else map (\<lambda>c. (the (ch_memory c), chunk_size, ph_numa_node_id ph))
        (filter chunk_is_allocated (ph_allocated_chunks ph @ ph_free_chunk_buffer ph)))"

text \<open>
  \<open>fuel\<close> bounds the recursion; a heap whose flag another thread holds is waited for.
\<close>

fun ph_allocate :: "nat \<Rightarrow> addr \<Rightarrow> processor_heap \<Rightarrow> (chunk \<times> processor_heap) option" where
  "ph_allocate 0 memory ph = None"
| "ph_allocate (Suc fuel) memory ph =
     (let next_free_chunk = ph_next_free_chunk ph;
          ph1 = ph\<lparr>ph_next_free_chunk := next_free_chunk + 1\<rparr>
      in if unat next_free_chunk < length (ph_free_chunk_buffer ph)
         then Some (ph_free_chunk_buffer ph ! unat next_free_chunk, ph1)
         else ph_allocate fuel memory (if ph_fill_buffer_flag ph1 then ph1 else ph_fill_buffer False memory ph1))"

subsection \<open>Core heaps and the allocator\<close>

record fixed_allocator =
  fa_processor :: "nat \<Rightarrow> processor_heap"
  fa_first :: "nat \<Rightarrow> addr option"
  fa_next :: "addr links"

definition count_objects :: "nat \<Rightarrow> nat" where
  "count_objects sz = chunk_size div sz"

fun link_objects :: "addr \<Rightarrow> nat \<Rightarrow> nat list \<Rightarrow> addr links \<Rightarrow> addr links" where
  "link_objects a sz [] next = next"
| "link_objects a sz (i # is) next = link_objects a sz is (next(a + i * sz := Some (a + (i + 1) * sz)))"

text \<open>The list of the objects of a chunk.\<close>

definition core_link :: "nat \<Rightarrow> addr \<Rightarrow> nat \<Rightarrow> fixed_allocator \<Rightarrow> fixed_allocator" where
  "core_link sz a core s = s\<lparr>
     fa_next := (link_objects a sz [0..<count_objects sz - 1] (fa_next s))(a + (count_objects sz - 1) * sz := None),
     fa_first := (fa_first s)(core := Some a)\<rparr>"

definition core_fill_buffer :: "nat \<Rightarrow> addr \<Rightarrow> nat \<Rightarrow> nat \<Rightarrow> fixed_allocator \<Rightarrow> fixed_allocator option" where
  "core_fill_buffer sz memory node core s = do {
     (c, ph) \<leftarrow> ph_allocate 2 memory (fa_processor s node);
     a \<leftarrow> ch_memory c;
     Some (core_link sz a core (s\<lparr>fa_processor := (fa_processor s)(node := ph)\<rparr>))
   }"

definition core_allocate :: "nat \<Rightarrow> addr \<Rightarrow> nat \<Rightarrow> nat \<Rightarrow> fixed_allocator \<Rightarrow> (addr \<times> fixed_allocator) option" where
  "core_allocate sz memory node core s = do {
     s1 \<leftarrow> (if fa_first s core = None then core_fill_buffer sz memory node core s else Some s);
     p \<leftarrow> fa_first s1 core;
     Some (p, s1\<lparr>fa_first := (fa_first s1)(core := fa_next s1 p)\<rparr>)
   }"

definition core_free :: "nat \<Rightarrow> addr \<Rightarrow> fixed_allocator \<Rightarrow> fixed_allocator" where
  "core_free core p s = s\<lparr>fa_next := (fa_next s)(p := fa_first s core), fa_first := (fa_first s)(core := Some p)\<rparr>"

text \<open>The constructor: the processor heaps of the used NUMA regions, then the core heaps of the core set.\<close>

fun construct_processors :: "(nat \<Rightarrow> addr) \<Rightarrow> core_set \<Rightarrow> nat list \<Rightarrow> fixed_allocator \<Rightarrow> fixed_allocator option" where
  "construct_processors mem cores [] s = Some s"
| "construct_processors mem cores (n # ns) s = do {
     used \<leftarrow> has_core_of_numa_node cores n;
     construct_processors mem cores ns
       (if used then s\<lparr>fa_processor := (fa_processor s)(n := fst (ph_move (ph_new (of_nat n) (mem n))))\<rparr> else s)
   }"

fun construct_cores :: "nat \<Rightarrow> (nat \<Rightarrow> addr) \<Rightarrow> (nat \<Rightarrow> nat) \<Rightarrow> nat list \<Rightarrow> fixed_allocator \<Rightarrow> fixed_allocator option" where
  "construct_cores sz mem node_id [] s = Some s"
| "construct_cores sz mem node_id (c # cs) s = do {
     s' \<leftarrow> core_fill_buffer sz (mem c) (node_id c) c s;
     construct_cores sz mem node_id cs s'
   }"

definition fa_empty :: fixed_allocator where
  "fa_empty = \<lparr>fa_processor = \<lambda>_. ph_default, fa_first = \<lambda>_. None, fa_next = \<lambda>_. None\<rparr>"

definition fixed_allocator_new :: "nat \<Rightarrow> (nat \<Rightarrow> addr) \<Rightarrow> (nat \<Rightarrow> addr) \<Rightarrow> (nat \<Rightarrow> nat) \<Rightarrow> nat \<Rightarrow> core_set \<Rightarrow> fixed_allocator option" where
  "fixed_allocator_new sz mem mem2 node_id max_node_id cores = do {
     s \<leftarrow> construct_processors mem cores [0..<Suc max_node_id] fa_empty;
     construct_cores sz mem2 node_id (take (cs_size cores) (cs_core_identifier cores)) s
   }"

definition fa_allocate :: "nat \<Rightarrow> addr \<Rightarrow> (nat \<Rightarrow> nat) \<Rightarrow> nat \<Rightarrow> fixed_allocator \<Rightarrow> (addr \<times> fixed_allocator) option" where
  "fa_allocate sz memory node_id core s = core_allocate sz memory (node_id core) core s"

definition fa_free :: "nat \<Rightarrow> addr \<Rightarrow> fixed_allocator \<Rightarrow> fixed_allocator" where
  "fa_free core p s = core_free core p s"

subsection \<open>Chunks and objects\<close>

definition area_size :: nat where
  "area_size = chunks * chunk_size"

text \<open>The objects of the chunk at an address, in the order of their list.\<close>

definition objects :: "nat \<Rightarrow> addr \<Rightarrow> addr list" where
  "objects sz a = map (\<lambda>j. a + j * sz) [0..<count_objects sz]"

lemma chunk_at_eq: "i < chunks \<Longrightarrow> ch_memory (chunk_at memory i) = Some (memory + i * chunk_size)"
  by (simp add: chunk_at_def chunk_size_def chunks_def)

lemma link_objects_chain:
  assumes "0 < sz"
  shows "chain ((link_objects a sz [i..<i + n] next)(a + (i + n) * sz := None)) (Some (a + i * sz)) (map (\<lambda>j. a + j * sz) [i..<Suc (i + n)]) None"
proof (induction n arbitrary: i "next")
  case 0
  then show ?case by simp
next
  case (Suc n)
  let ?next = "next(a + i * sz := Some (a + (i + 1) * sz))"
  have keep: "link_objects a sz js nx x = nx x" if "\<forall>j \<in> set js. a + j * sz \<noteq> x" for js nx x
    using that by (induction js arbitrary: nx) auto
  have l: "i + Suc n = Suc i + n" "[i..<Suc i + n] = i # [Suc i..<Suc i + n]" "[i..<Suc (Suc i + n)] = i # [Suc i..<Suc (Suc i + n)]"
    by (simp_all add: upt_conv_Cons del: upt_Suc)
  let ?h = "(link_objects a sz [Suc i..<Suc i + n] ?next)(a + (Suc i + n) * sz := None)"
  have "?h (a + i * sz) = Some (a + (i + 1) * sz)"
    using assms by (simp add: keep add_mult_distrib)
  moreover have "chain ?h (Some (a + Suc i * sz)) (map (\<lambda>j. a + j * sz) [Suc i..<Suc (Suc i + n)]) None"
    by (rule Suc.IH)
  ultimately show ?case unfolding l link_objects.simps list.map chain.simps by (simp del: upt_Suc fun_upd_apply)
qed

lemma objects_chain:
  assumes "0 < sz" "sz \<le> chunk_size"
  shows "chain ((link_objects a sz [0..<count_objects sz - 1] next)(a + (count_objects sz - 1) * sz := None)) (Some a) (objects sz a) None"
proof -
  have "0 < count_objects sz" using assms by (simp add: count_objects_def div_greater_zero_iff)
  then have "Suc (0 + (count_objects sz - 1)) = count_objects sz" by simp
  then show ?thesis
    using link_objects_chain [OF assms(1), of a 0 "count_objects sz - 1" "next"] by (simp add: objects_def)
qed

lemma link_objects_other:
  assumes "x \<notin> set (objects sz a)" "0 < sz" "sz \<le> chunk_size"
  shows "((link_objects a sz [0..<count_objects sz - 1] next)(a + (count_objects sz - 1) * sz := None)) x = next x"
proof -
  have keep: "link_objects a sz js nx x = nx x" if "\<forall>j \<in> set js. a + j * sz \<noteq> x" for js nx
    using that by (induction js arbitrary: nx) auto
  have pos: "0 < count_objects sz" using assms(2,3) by (simp add: count_objects_def div_greater_zero_iff)
  have ne: "a + j * sz \<noteq> x" if "j < count_objects sz" for j using assms(1) that by (auto simp: objects_def)
  have "a + (count_objects sz - 1) * sz \<noteq> x" by (rule ne) (use pos in simp)
  then show ?thesis using ne by (simp add: keep)
qed

lemma objects_distinct: "0 < sz \<Longrightarrow> distinct (objects sz a)"
  by (auto simp: objects_def distinct_map inj_on_def)

text \<open>Where an object is: area, chunk of the area, position in the chunk.\<close>

definition object_at :: "nat \<Rightarrow> addr \<Rightarrow> nat \<Rightarrow> addr \<Rightarrow> bool" where
  "object_at sz A i p \<longleftrightarrow> i < chunks \<and> p \<in> set (objects sz (A + i * chunk_size))"

lemma object_at_bounds:
  assumes "object_at sz A i p"
  shows "A + i * chunk_size \<le> p" "p + sz \<le> A + Suc i * chunk_size" "A \<le> p" "p + sz \<le> A + area_size"
proof -
  obtain j where j: "j < count_objects sz" "p = A + i * chunk_size + j * sz" "i < chunks"
    using assms by (auto simp: object_at_def objects_def)
  have "Suc j * sz \<le> count_objects sz * sz" using j(1) by (intro mult_le_mono1) simp
  also have "\<dots> \<le> chunk_size" by (simp add: count_objects_def)
  finally show stop: "p + sz \<le> A + Suc i * chunk_size" and "A + i * chunk_size \<le> p" "A \<le> p" using j(2) by simp_all
  have "Suc i * chunk_size \<le> area_size" using j(3) unfolding area_size_def by (intro mult_le_mono1) simp
  then show "p + sz \<le> A + area_size" using stop by simp
qed

lemma same_chunk_apart:
  assumes "p \<in> set (objects sz a)" "q \<in> set (objects sz a)" "p \<noteq> q"
  shows "p + sz \<le> q \<or> q + sz \<le> p"
proof -
  obtain i j where "p = a + i * sz" "q = a + j * sz" using assms by (auto simp: objects_def)
  moreover have "i < j \<or> j < i" using assms(3) calculation by (metis linorder_neqE_nat)
  moreover have "i * sz + sz \<le> j * sz" if "i < j" for i j :: nat using mult_le_mono1 [of "Suc i" j sz] that by simp
  ultimately show ?thesis by fastforce
qed

definition areas_ok :: "addr list \<Rightarrow> bool" where
  "areas_ok areas \<longleftrightarrow> (\<forall>A \<in> set areas. \<forall>B \<in> set areas. A \<noteq> B \<longrightarrow> A + area_size \<le> B \<or> B + area_size \<le> A)"

lemma objects_apart:
  assumes "areas_ok areas" "A \<in> set areas" "B \<in> set areas" "object_at sz A i p" "object_at sz B j q" "p \<noteq> q"
  shows "p + sz \<le> q \<or> q + sz \<le> p"
proof -
  note bp = object_at_bounds [OF assms(4)] and bq = object_at_bounds [OF assms(5)]
  consider "A \<noteq> B" | "A = B" "i = j" | "A = B" "i < j" | "A = B" "j < i" by force
  then show ?thesis
  proof cases
    case 1
    then show ?thesis using assms(1-3) bp(3,4) bq(3,4) by (fastforce simp: areas_ok_def)
  next
    case 2
    then show ?thesis using same_chunk_apart assms(4-6) by (auto simp: object_at_def)
  next
    case 3
    then have "Suc i * chunk_size \<le> j * chunk_size" by (intro mult_le_mono1) simp
    then show ?thesis using bp(2) bq(1) 3(1) by linarith
  next
    case 4
    then have "Suc j * chunk_size \<le> i * chunk_size" by (intro mult_le_mono1) simp
    then show ?thesis using bp(1) bq(2) 4(1) by linarith
  qed
qed

subsection \<open>The invariant\<close>

text \<open>
  \<open>base n\<close> is the area that the buffer of the processor heap of region \<open>n\<close> is cut from, \<open>free c\<close> the
  list of free objects of core \<open>c\<close>. Every object that is free or live lies in an area, and in a
  chunk that has left the buffer.
\<close>

definition heap_ok :: "addr \<Rightarrow> processor_heap \<Rightarrow> bool" where
  "heap_ok A ph \<longleftrightarrow> ph_free_chunk_buffer ph = map (chunk_at A) [0..<chunks] \<and> \<not> ph_fill_buffer_flag ph \<and>
     unat (ph_next_free_chunk ph) \<le> chunks"

definition handed_out :: "nat \<Rightarrow> addr list \<Rightarrow> (nat \<Rightarrow> addr option) \<Rightarrow> (nat \<Rightarrow> processor_heap) \<Rightarrow> addr \<Rightarrow> bool" where
  "handed_out sz areas base ph p \<longleftrightarrow> (\<exists>A \<in> set areas. \<exists>i. object_at sz A i p \<and>
     (\<forall>n. base n = Some A \<longrightarrow> i < unat (ph_next_free_chunk (ph n))))"

definition owned :: "(nat \<Rightarrow> addr list) \<Rightarrow> addr set \<Rightarrow> addr set" where
  "owned free live = (\<Union>c. set (free c)) \<union> live"

definition lists_ok :: "addr links \<Rightarrow> (nat \<Rightarrow> addr option) \<Rightarrow> (nat \<Rightarrow> addr list) \<Rightarrow> addr set \<Rightarrow> bool" where
  "lists_ok next first free live \<longleftrightarrow> (\<forall>c. chain next (first c) (free c) None \<and> distinct (free c) \<and> set (free c) \<inter> live = {}) \<and>
     (\<forall>c d. c \<noteq> d \<longrightarrow> set (free c) \<inter> set (free d) = {})"

definition fa_inv :: "nat \<Rightarrow> addr list \<Rightarrow> fixed_allocator \<Rightarrow> addr set \<Rightarrow> (nat \<Rightarrow> addr option) \<Rightarrow> (nat \<Rightarrow> addr list) \<Rightarrow> bool" where
  "fa_inv sz areas s live base free \<longleftrightarrow> areas_ok areas \<and>
     (\<forall>n A. base n = Some A \<longrightarrow> A \<in> set areas \<and> heap_ok A (fa_processor s n)) \<and>
     (\<forall>n m A. base n = Some A \<longrightarrow> base m = Some A \<longrightarrow> n = m) \<and>
     lists_ok (fa_next s) (fa_first s) free live \<and>
     (\<forall>p \<in> owned free live. handed_out sz areas base (fa_processor s) p)"

definition fresh_area :: "addr list \<Rightarrow> addr \<Rightarrow> bool" where
  "fresh_area areas m \<longleftrightarrow> (\<forall>A \<in> set areas. A + area_size \<le> m \<or> m + area_size \<le> A)"

lemma areas_ok_Cons: "areas_ok areas \<Longrightarrow> fresh_area areas m \<Longrightarrow> areas_ok (m # areas)"
  by (auto simp: areas_ok_def fresh_area_def)

text \<open>A chunk from the processor heap: the next one of the buffer, or the first one of new memory.\<close>

definition needs_memory :: "processor_heap \<Rightarrow> bool" where
  "needs_memory ph \<longleftrightarrow> unat (ph_next_free_chunk ph) = chunks"

lemma ph_allocate_ok:
  assumes "heap_ok A ph"
  shows "\<exists>c ph'. ph_allocate 2 memory ph = Some (c, ph') \<and>
    (if needs_memory ph then heap_ok memory ph' \<and> unat (ph_next_free_chunk ph') = 1 \<and> ch_memory c = Some memory
     else heap_ok A ph' \<and> unat (ph_next_free_chunk ph') = Suc (unat (ph_next_free_chunk ph)) \<and>
       ch_memory c = Some (A + unat (ph_next_free_chunk ph) * chunk_size))"
proof (cases "needs_memory ph")
  case True
  then have n: "unat (ph_next_free_chunk ph) = 128" by (simp add: needs_memory_def chunks_def)
  have "length (ph_free_chunk_buffer ph) = 128" "\<not> ph_fill_buffer_flag ph" using assms by (simp_all add: heap_ok_def chunks_def)
  then show ?thesis
    using True n by (simp add: numeral_2_eq_2 Let_def ph_fill_buffer_def heap_ok_def chunks_def chunk_at_def)
next
  case False
  then have n: "unat (ph_next_free_chunk ph) < chunks" using assms by (simp add: needs_memory_def heap_ok_def)
  then have "unat (ph_next_free_chunk ph + 1) = Suc (unat (ph_next_free_chunk ph))"
    by (simp add: unat_word_ariths chunks_def)
  then show ?thesis
    using False n assms chunk_at_eq [OF n, of A] by (simp add: numeral_2_eq_2 Let_def heap_ok_def)
qed

lemma object_place_unique:
  assumes "areas_ok areas" "A \<in> set areas" "B \<in> set areas" "object_at sz A i p" "object_at sz B j p" "0 < sz"
  shows "A = B \<and> i = j"
proof -
  note a = object_at_bounds [OF assms(4)] and b = object_at_bounds [OF assms(5)]
  have AB: "A = B" using assms(1-3,6) a(3,4) b(3,4) by (fastforce simp: areas_ok_def)
  have "\<not> i < j"
  proof
    assume "i < j"
    then have "Suc i * chunk_size \<le> j * chunk_size" by (intro mult_le_mono1) simp
    then show False using a(2) b(1) AB assms(6) by linarith
  qed
  moreover have "\<not> j < i"
  proof
    assume "j < i"
    then have "Suc j * chunk_size \<le> i * chunk_size" by (intro mult_le_mono1) simp
    then show False using a(1) b(2) AB assms(6) by linarith
  qed
  ultimately show ?thesis using AB by simp
qed

lemma fresh_area_new: "fresh_area areas m \<Longrightarrow> m \<notin> set areas"
  by (auto simp: fresh_area_def area_size_def chunks_def chunk_size_def)

lemma handed_out_new_area:
  assumes "handed_out sz areas base ph p" "m \<notin> set areas"
  shows "handed_out sz (m # areas) (base(n \<mapsto> m)) (ph(n := ph')) p"
  using assms unfolding handed_out_def by (auto split: if_splits) metis

lemma handed_out_next:
  assumes "handed_out sz areas base ph p" "unat (ph_next_free_chunk (ph n)) \<le> unat (ph_next_free_chunk ph')"
  shows "handed_out sz areas base (ph(n := ph')) p"
  using assms unfolding handed_out_def by (force intro: less_le_trans)

lemma fa_invD:
  assumes "fa_inv sz areas s live base free"
  shows "areas_ok areas" "\<And>n A. base n = Some A \<Longrightarrow> A \<in> set areas" "\<And>n A. base n = Some A \<Longrightarrow> heap_ok A (fa_processor s n)"
    "\<And>n m A. base n = Some A \<Longrightarrow> base m = Some A \<Longrightarrow> n = m" "lists_ok (fa_next s) (fa_first s) free live"
    "\<And>p. p \<in> owned free live \<Longrightarrow> handed_out sz areas base (fa_processor s) p"
  using assms by (simp_all add: fa_inv_def)

lemma fa_invI:
  assumes "areas_ok areas" "\<And>n A. base n = Some A \<Longrightarrow> A \<in> set areas \<and> heap_ok A (fa_processor s n)"
    "\<And>n m A. base n = Some A \<Longrightarrow> base m = Some A \<Longrightarrow> n = m" "lists_ok (fa_next s) (fa_first s) free live"
    "\<And>p. p \<in> owned free live \<Longrightarrow> handed_out sz areas base (fa_processor s) p"
  shows "fa_inv sz areas s live base free"
  using assms by (simp add: fa_inv_def)

text \<open>A chunk of new memory, for a new or an exhausted processor heap.\<close>

lemma area_step:
  assumes "fa_inv sz areas s live base free" "fresh_area areas m" "heap_ok m ph"
  shows "fa_inv sz (m # areas) (s\<lparr>fa_processor := (fa_processor s)(n := ph)\<rparr>) live (base(n \<mapsto> m)) free"
proof (rule fa_invI)
  note inv = fa_invD [OF assms(1)]
  have m: "m \<notin> set areas" by (rule fresh_area_new [OF assms(2)])
  show "areas_ok (m # areas)" by (rule areas_ok_Cons [OF inv(1) assms(2)])
  show "B \<in> set (m # areas) \<and> heap_ok B (fa_processor (s\<lparr>fa_processor := (fa_processor s)(n := ph)\<rparr>) k)" if "(base(n \<mapsto> m)) k = Some B" for k B
    using that inv(2,3) assms(3) by (cases "k = n") auto
  show "k = l" if "(base(n \<mapsto> m)) k = Some B" "(base(n \<mapsto> m)) l = Some B" for k l B
    using that inv(2,4) m by (cases "k = n"; cases "l = n") auto
  show "lists_ok (fa_next (s\<lparr>fa_processor := (fa_processor s)(n := ph)\<rparr>)) (fa_first (s\<lparr>fa_processor := (fa_processor s)(n := ph)\<rparr>)) free live"
    using inv(5) by simp
  show "handed_out sz (m # areas) (base(n \<mapsto> m)) (fa_processor (s\<lparr>fa_processor := (fa_processor s)(n := ph)\<rparr>)) p" if "p \<in> owned free live" for p
    using handed_out_new_area [OF inv(6) [OF that] m] by simp
qed

text \<open>The objects of a chunk that has not been handed out are new.\<close>

lemma objects_new:
  assumes "\<And>p. p \<in> owned free live \<Longrightarrow> handed_out sz areas base ph p" "areas_ok areas" "A \<in> set areas" "i < chunks" "0 < sz"
    "\<And>j. (\<And>k. base k = Some A \<Longrightarrow> j < unat (ph_next_free_chunk (ph k))) \<Longrightarrow> j \<noteq> i" "p \<in> set (objects sz (A + i * chunk_size))"
  shows "p \<notin> owned free live"
proof
  assume "p \<in> owned free live"
  from assms(1) [OF this] obtain B j where B: "B \<in> set areas" "object_at sz B j p" "\<And>k. base k = Some B \<Longrightarrow> j < unat (ph_next_free_chunk (ph k))"
    by (auto simp: handed_out_def)
  have "object_at sz A i p" using assms(4,7) by (simp add: object_at_def)
  from object_place_unique [OF assms(2,3) B(1) this B(2) assms(5)] show False using assms(6) [of j] B(3) by blast
qed

text \<open>One chunk leaves the processor heap: its objects are new, the rest of the state is as before.\<close>

definition chunk_taken :: "nat \<Rightarrow> nat \<Rightarrow> addr list \<Rightarrow> fixed_allocator \<Rightarrow> addr set \<Rightarrow> (nat \<Rightarrow> addr list) \<Rightarrow> addr list \<Rightarrow> (nat \<Rightarrow> addr option) \<Rightarrow> processor_heap \<Rightarrow> addr \<Rightarrow> bool" where
  "chunk_taken sz n areas s live free areas' base' ph a \<longleftrightarrow>
     fa_inv sz areas' (s\<lparr>fa_processor := (fa_processor s)(n := ph)\<rparr>) live base' free \<and>
     (\<forall>p \<in> set (objects sz a). p \<notin> owned free live \<and> handed_out sz areas' base' ((fa_processor s)(n := ph)) p)"

lemma chunk_from_memory:
  assumes "fa_inv sz areas s live base free" "fresh_area areas m" "heap_ok m ph" "unat (ph_next_free_chunk ph) = 1" "0 < sz"
  shows "chunk_taken sz n areas s live free (m # areas) (base(n \<mapsto> m)) ph m"
proof -
  let ?s = "s\<lparr>fa_processor := (fa_processor s)(n := ph)\<rparr>"
  have inv: "fa_inv sz (m # areas) ?s live (base(n \<mapsto> m)) free" by (rule area_step [OF assms(1-3)])
  note D = fa_invD [OF assms(1)] and D' = fa_invD [OF inv]
  have m: "m \<notin> set areas" by (rule fresh_area_new [OF assms(2)])
  have only: "k = n" if "(base(n \<mapsto> m)) k = Some m" for k by (rule D'(4) [OF that]) simp
  have "handed_out sz (m # areas) (base(n \<mapsto> m)) ((fa_processor s)(n := ph)) p" if "p \<in> set (objects sz m)" for p
    unfolding handed_out_def
  proof (intro bexI [of _ m] exI [of _ 0] conjI allI impI)
    show "object_at sz m 0 p" using that by (simp add: object_at_def chunks_def)
    show "0 < unat (ph_next_free_chunk (((fa_processor s)(n := ph)) k))" if "(base(n \<mapsto> m)) k = Some m" for k
      using only [OF that] assms(4) by simp
  qed simp
  moreover have "p \<notin> owned free live" if p: "p \<in> set (objects sz m)" for p
  proof
    assume "p \<in> owned free live"
    from D(6) [OF this] obtain B j where B: "B \<in> set areas" "object_at sz B j p" unfolding handed_out_def by blast
    have "object_at sz m 0 p" using p by (simp add: object_at_def chunks_def)
    from object_place_unique [OF D'(1) _ _ this B(2) assms(5)] have "m = B" using B(1) by simp
    then show False using B(1) m by simp
  qed
  ultimately show ?thesis using inv by (simp add: chunk_taken_def)
qed

lemma chunk_from_buffer:
  assumes "fa_inv sz areas s live base free" "base n = Some A" "heap_ok A ph" "i = unat (ph_next_free_chunk (fa_processor s n))" "i < chunks"
    "unat (ph_next_free_chunk ph) = Suc i" "0 < sz"
  shows "chunk_taken sz n areas s live free areas base ph (A + i * chunk_size)"
proof -
  let ?s = "s\<lparr>fa_processor := (fa_processor s)(n := ph)\<rparr>"
  note D = fa_invD [OF assms(1)]
  have "fa_inv sz areas ?s live base free"
  proof (rule fa_invI)
    show "B \<in> set areas \<and> heap_ok B (fa_processor ?s k)" if "base k = Some B" for k B
      using that D(2,3) assms(2,3) by (cases "k = n") auto
    show "handed_out sz areas base (fa_processor ?s) p" if "p \<in> owned free live" for p
      using handed_out_next [OF D(6) [OF that], of n ph] assms(4,6) by simp
    show "lists_ok (fa_next ?s) (fa_first ?s) free live" using D(5) by simp
  qed (rule D(1), rule D(4))
  moreover have "handed_out sz areas base ((fa_processor s)(n := ph)) p" if "p \<in> set (objects sz (A + i * chunk_size))" for p
    unfolding handed_out_def
  proof (intro bexI [of _ A] exI [of _ i] conjI allI impI)
    show "object_at sz A i p" using that assms(5) by (simp add: object_at_def)
    show "i < unat (ph_next_free_chunk (((fa_processor s)(n := ph)) k))" if "base k = Some A" for k
      using D(4) [OF that assms(2)] assms(6) by simp
  qed (rule D(2) [OF assms(2)])
  moreover have "p \<notin> owned free live" if "p \<in> set (objects sz (A + i * chunk_size))" for p
    by (rule objects_new [OF D(6) D(1) D(2) [OF assms(2)] assms(5,7) _ that]) (use assms(2,4) in auto)
  ultimately show ?thesis by (simp add: chunk_taken_def)
qed

lemma chunk_step:
  assumes "fa_inv sz areas s live base free" "base n = Some A" "needs_memory (fa_processor s n) \<Longrightarrow> fresh_area areas m" "0 < sz"
  shows "\<exists>c ph a base'. ph_allocate 2 m (fa_processor s n) = Some (c, ph) \<and> ch_memory c = Some a \<and> dom base' = dom base \<and>
    chunk_taken sz n areas s live free (if needs_memory (fa_processor s n) then m # areas else areas) base' ph a"
proof -
  let ?ph = "fa_processor s n"
  have A: "heap_ok A ?ph" by (rule fa_invD(3) [OF assms(1,2)])
  obtain c ph where run: "ph_allocate 2 m ?ph = Some (c, ph)" and res: "if needs_memory ?ph
      then heap_ok m ph \<and> unat (ph_next_free_chunk ph) = 1 \<and> ch_memory c = Some m
      else heap_ok A ph \<and> unat (ph_next_free_chunk ph) = Suc (unat (ph_next_free_chunk ?ph)) \<and>
        ch_memory c = Some (A + unat (ph_next_free_chunk ?ph) * chunk_size)"
    using ph_allocate_ok [OF A, of m] by blast
  show ?thesis
  proof (cases "needs_memory ?ph")
    case True
    then have "chunk_taken sz n areas s live free (m # areas) (base(n \<mapsto> m)) ph m"
      using chunk_from_memory [OF assms(1) assms(3) [OF True] _ _ assms(4)] res by simp
    moreover have "dom (base(n \<mapsto> m)) = dom base" using assms(2) by auto
    ultimately show ?thesis using run res True by (intro exI [of _ c] exI [of _ ph] exI [of _ m] exI [of _ "base(n \<mapsto> m)"]) simp
  next
    case False
    then have "unat (ph_next_free_chunk ?ph) < chunks" using A by (simp add: needs_memory_def heap_ok_def)
    from chunk_from_buffer [OF assms(1,2) _ refl this _ assms(4)] res False
    show ?thesis using run by (intro exI [of _ c] exI [of _ ph] exI [of _ "A + unat (ph_next_free_chunk ?ph) * chunk_size"] exI [of _ base]) simp
  qed
qed

subsection \<open>Operations keep the invariant\<close>

lemma owned_upd: "owned (free(c := xs)) live = (\<Union>d \<in> - {c}. set (free d)) \<union> set xs \<union> live"
  by (auto simp: owned_def split: if_splits)

lemma owned_split: "owned free live = (\<Union>d \<in> - {c}. set (free d)) \<union> set (free c) \<union> live"
  using owned_upd [of free c "free c" live] by simp

lemma lists_okD:
  assumes "lists_ok next first free live"
  shows "chain next (first c) (free c) None" "distinct (free c)" "set (free c) \<inter> live = {}" "c \<noteq> d \<Longrightarrow> set (free c) \<inter> set (free d) = {}"
  using assms by (simp_all add: lists_ok_def)

text \<open>A list of one core replaced by another one, the other lists untouched by the new links.\<close>

lemma lists_ok_upd:
  assumes "lists_ok next first free live" "chain next' p xs None" "distinct xs"
    "\<And>d x. d \<noteq> c \<Longrightarrow> x \<in> set (free d) \<Longrightarrow> next' x = next x \<and> x \<notin> set xs \<and> x \<notin> live'" "set xs \<inter> live' = {}"
  shows "lists_ok next' (first(c := p)) (free(c := xs)) live'"
  unfolding lists_ok_def
proof (intro conjI allI impI)
  fix d
  show "chain next' ((first(c := p)) d) ((free(c := xs)) d) None"
    using lists_okD(1) [OF assms(1), of d] assms(2,4) chain_cong [of "free d" next' "next"] by (cases "d = c") auto
  show "distinct ((free(c := xs)) d)" using lists_okD(2) [OF assms(1), of d] assms(3) by simp
  show "set ((free(c := xs)) d) \<inter> live' = {}" using assms(4,5) by (cases "d = c") auto
next
  fix d e :: nat assume "d \<noteq> e"
  then show "set ((free(c := xs)) d) \<inter> set ((free(c := xs)) e) = {}"
    using lists_okD(4) [OF assms(1), of d e] assms(4) by (cases "d = c"; cases "e = c") auto
qed

text \<open>The lists when a chunk is linked, an object is taken and an object is put back.\<close>

lemma lists_ok_link:
  assumes "lists_ok (fa_next s) (fa_first s) free live" "\<And>p. p \<in> set (objects sz a) \<Longrightarrow> p \<notin> owned free live" "0 < sz" "sz \<le> chunk_size"
  shows "lists_ok (fa_next (core_link sz a c s)) (fa_first (core_link sz a c s)) (free(c := objects sz a)) live"
proof -
  let ?next = "(link_objects a sz [0..<count_objects sz - 1] (fa_next s))(a + (count_objects sz - 1) * sz := None)"
  have "lists_ok ?next ((fa_first s)(c := Some a)) (free(c := objects sz a)) live"
  proof (rule lists_ok_upd [OF assms(1)])
    show "chain ?next (Some a) (objects sz a) None" by (rule objects_chain [OF assms(3,4)])
    show "distinct (objects sz a)" by (rule objects_distinct [OF assms(3)])
    show "?next x = fa_next s x \<and> x \<notin> set (objects sz a) \<and> x \<notin> live" if "d \<noteq> c" "x \<in> set (free d)" for d x
    proof -
      have "x \<notin> set (objects sz a)" using assms(2) [of x] that(2) by (auto simp: owned_def)
      then show ?thesis using link_objects_other [OF _ assms(3,4), of x a "fa_next s"] lists_okD(3) [OF assms(1), of d] that(2) by auto
    qed
    show "set (objects sz a) \<inter> live = {}" using assms(2) by (auto simp: owned_def)
  qed
  then show ?thesis by (simp add: core_link_def)
qed

lemma lists_ok_take:
  assumes "lists_ok next first free live" "first c = Some p"
  shows "\<exists>ps. free c = p # ps \<and> p \<notin> live \<and> lists_ok next (first(c := next p)) (free(c := ps)) (insert p live) \<and>
    owned (free(c := ps)) (insert p live) \<subseteq> owned free live"
proof -
  note L = lists_okD [OF assms(1)]
  obtain ps where ps: "free c = p # ps" "chain next (next p) ps None" using L(1) [of c] assms(2) by (cases "free c") auto
  have "lists_ok next (first(c := next p)) (free(c := ps)) (insert p live)"
  proof (rule lists_ok_upd [OF assms(1) ps(2)])
    show "distinct ps" using L(2) [of c] ps(1) by simp
    show "next x = next x \<and> x \<notin> set ps \<and> x \<notin> insert p live" if "d \<noteq> c" "x \<in> set (free d)" for d x
      using L(4) [OF that(1)] L(3) [of d] that(2) ps(1) by auto
    show "set ps \<inter> insert p live = {}" using L(2,3) [of c] ps(1) by auto
  qed
  moreover have "owned (free(c := ps)) (insert p live) \<subseteq> owned free live" using ps(1) by (auto simp: owned_upd owned_split [of free live c])
  ultimately show ?thesis using ps(1) L(3) [of c] by auto
qed

lemma lists_ok_free:
  assumes "lists_ok next first free live" "p \<in> live"
  shows "lists_ok (next(p := first c)) (first(c := Some p)) (free(c := p # free c)) (live - {p})"
    "owned (free(c := p # free c)) (live - {p}) \<subseteq> owned free live"
proof -
  note L = lists_okD [OF assms(1)]
  have p: "p \<notin> set (free d)" for d using L(3) [of d] assms(2) by auto
  show "lists_ok (next(p := first c)) (first(c := Some p)) (free(c := p # free c)) (live - {p})"
  proof (rule lists_ok_upd [OF assms(1)])
    show "chain (next(p := first c)) (Some p) (p # free c) None" using L(1) [of c] p [of c] by (simp add: chain_simps)
    show "distinct (p # free c)" using L(2) [of c] p by simp
    show "(next(p := first c)) x = next x \<and> x \<notin> set (p # free c) \<and> x \<notin> live - {p}" if "d \<noteq> c" "x \<in> set (free d)" for d x
      using L(4) [OF that(1)] L(3) [of d] that(2) p [of d] by auto
    show "set (p # free c) \<inter> (live - {p}) = {}" using L(3) [of c] by auto
  qed
  show "owned (free(c := p # free c)) (live - {p}) \<subseteq> owned free live"
    using assms(2) by (auto simp: owned_upd owned_split [of free live c])
qed

lemma core_fill_buffer_ok:
  assumes "fa_inv sz areas s live base free" "base n = Some A" "needs_memory (fa_processor s n) \<Longrightarrow> fresh_area areas m"
    "0 < sz" "sz \<le> chunk_size" "free c = []"
  shows "\<exists>s' a base'. core_fill_buffer sz m n c s = Some s' \<and> dom base' = dom base \<and>
    fa_inv sz (if needs_memory (fa_processor s n) then m # areas else areas) s' live base' (free(c := objects sz a)) \<and> fa_first s' c = Some a"
proof -
  define areas' where "areas' = (if needs_memory (fa_processor s n) then m # areas else areas)"
  obtain ch ph a base' where r: "ph_allocate 2 m (fa_processor s n) = Some (ch, ph)" "ch_memory ch = Some a" "dom base' = dom base"
    "chunk_taken sz n areas s live free areas' base' ph a"
    using chunk_step [OF assms(1-4)] unfolding areas'_def by blast
  let ?s1 = "s\<lparr>fa_processor := (fa_processor s)(n := ph)\<rparr>"
  let ?s = "core_link sz a c ?s1"
  have inv: "fa_inv sz areas' ?s1 live base' free"
    and new: "\<And>p. p \<in> set (objects sz a) \<Longrightarrow> p \<notin> owned free live \<and> handed_out sz areas' base' ((fa_processor s)(n := ph)) p"
    using r(4) by (simp_all add: chunk_taken_def)
  note D = fa_invD [OF inv]
  have lists: "lists_ok (fa_next ?s) (fa_first ?s) (free(c := objects sz a)) live"
    by (rule lists_ok_link [OF D(5) _ assms(4,5)]) (use new in blast)
  have "handed_out sz areas' base' ((fa_processor s)(n := ph)) p" if "p \<in> owned (free(c := objects sz a)) live" for p
  proof -
    have "p \<in> set (objects sz a) \<or> p \<in> owned free live" using that by (auto simp: owned_upd owned_split [of free live c])
    then show ?thesis using new [of p] D(6) [of p] by auto
  qed
  then have "fa_inv sz areas' ?s live base' (free(c := objects sz a))"
    using D(1-4) lists by (intro fa_invI) (simp_all add: core_link_def)
  then show ?thesis
    using r(1-3) unfolding areas'_def [symmetric]
    by (intro exI [of _ ?s] exI [of _ a] exI [of _ base']) (simp add: core_fill_buffer_def core_link_def)
qed

lemma take_object_ok:
  assumes "fa_inv sz areas s live base free" "fa_first s c = Some p"
  shows "\<exists>ps. free c = p # ps \<and> p \<notin> live \<and>
    fa_inv sz areas (s\<lparr>fa_first := (fa_first s)(c := fa_next s p)\<rparr>) (insert p live) base (free(c := ps))"
proof -
  note D = fa_invD [OF assms(1)]
  obtain ps where ps: "free c = p # ps" "p \<notin> live" "lists_ok (fa_next s) ((fa_first s)(c := fa_next s p)) (free(c := ps)) (insert p live)"
    "owned (free(c := ps)) (insert p live) \<subseteq> owned free live" using lists_ok_take [OF D(5) assms(2)] by blast
  then have "fa_inv sz areas (s\<lparr>fa_first := (fa_first s)(c := fa_next s p)\<rparr>) (insert p live) base (free(c := ps))"
    using D(1-4,6) by (intro fa_invI) auto
  then show ?thesis using ps(1,2) by blast
qed

lemma core_free_ok:
  assumes "fa_inv sz areas s live base free" "p \<in> live"
  shows "fa_inv sz areas (core_free c p s) (live - {p}) base (free(c := p # free c))"
  using fa_invD [OF assms(1)] lists_ok_free [OF fa_invD(5) [OF assms(1)] assms(2), of c]
  unfolding core_free_def by (intro fa_invI) auto

subsection \<open>Runs of the allocator\<close>

text \<open>
  The construction of processor and core heaps and then any sequence of allocations and frees by
  any cores. Memory is taken from the global heap only when a processor heap is built or exhausted,
  and it is then apart from all memory taken before.
\<close>

definition takes_memory :: "nat \<Rightarrow> nat \<Rightarrow> fixed_allocator \<Rightarrow> bool" where
  "takes_memory n c s \<longleftrightarrow> fa_first s c = None \<and> needs_memory (fa_processor s n)"

inductive fixed_run :: "nat \<Rightarrow> (nat \<Rightarrow> nat) \<Rightarrow> addr list \<Rightarrow> fixed_allocator \<Rightarrow> addr set \<Rightarrow> bool" for sz node_id where
  fixed_empty: "fixed_run sz node_id [] fa_empty {}"
| fixed_processor: "fixed_run sz node_id areas s live \<Longrightarrow> fresh_area areas m \<Longrightarrow>
    fixed_run sz node_id (m # areas) (s\<lparr>fa_processor := (fa_processor s)(n := fst (ph_move (ph_new (of_nat n) m)))\<rparr>) live"
| fixed_core: "fixed_run sz node_id areas s live \<Longrightarrow> fa_first s c = None \<Longrightarrow> (takes_memory (node_id c) c s \<Longrightarrow> fresh_area areas m) \<Longrightarrow>
    core_fill_buffer sz m (node_id c) c s = Some s' \<Longrightarrow> fixed_run sz node_id (if takes_memory (node_id c) c s then m # areas else areas) s' live"
| fixed_allocate: "fixed_run sz node_id areas s live \<Longrightarrow> (takes_memory (node_id c) c s \<Longrightarrow> fresh_area areas m) \<Longrightarrow>
    fa_allocate sz m node_id c s = Some (p, s') \<Longrightarrow>
    fixed_run sz node_id (if takes_memory (node_id c) c s then m # areas else areas) s' (insert p live)"
| fixed_free: "fixed_run sz node_id areas s live \<Longrightarrow> p \<in> live \<Longrightarrow> fixed_run sz node_id areas (fa_free c p s) (live - {p})"

definition built_ok :: "(nat \<Rightarrow> addr option) \<Rightarrow> fixed_allocator \<Rightarrow> bool" where
  "built_ok base s \<longleftrightarrow> (\<forall>n. base n = None \<longrightarrow> fa_processor s n = ph_default)"

lemma ph_default_fails: "fa_processor s n = ph_default \<Longrightarrow> core_fill_buffer sz m n c s = None"
  by (simp add: core_fill_buffer_def numeral_2_eq_2 Let_def ph_default_def chunks_def chunk_default_def)

lemma core_fill_processor: "core_fill_buffer sz m n c s = Some s' \<Longrightarrow> k \<noteq> n \<Longrightarrow> fa_processor s' k = fa_processor s k"
  by (auto simp: core_fill_buffer_def core_link_def bind_eq_Some_conv split: prod.splits)

lemma ph_new_ok: "heap_ok m (fst (ph_move (ph_new x m)))"
  by (simp add: heap_ok_def ph_move_def ph_new_def ph_fill_buffer_def ph_default_def)

lemma fill_step:
  assumes "fa_inv sz areas s live base free" "built_ok base s" "fa_first s c = None" "takes_memory n c s \<Longrightarrow> fresh_area areas m"
    "core_fill_buffer sz m n c s = Some s'" "0 < sz" "sz \<le> chunk_size"
  shows "\<exists>base' free'. fa_inv sz (if takes_memory n c s then m # areas else areas) s' live base' free' \<and> built_ok base' s'"
proof -
  have "base n \<noteq> None" using assms(2,5) ph_default_fails [of s n] by (auto simp: built_ok_def)
  then obtain A where A: "base n = Some A" by blast
  have free: "free c = []" using lists_okD(1) [OF fa_invD(5) [OF assms(1)], of c] assms(3) by (cases "free c") auto
  have tm: "takes_memory n c s = needs_memory (fa_processor s n)" using assms(3) by (simp add: takes_memory_def)
  from core_fill_buffer_ok [OF assms(1) A _ assms(6,7) free, of m] assms(4,5)
  obtain a base' where r: "dom base' = dom base" "fa_inv sz (if takes_memory n c s then m # areas else areas) s' live base' (free(c := objects sz a))"
    unfolding tm by auto
  have "built_ok base' s'"
    unfolding built_ok_def
  proof (intro allI impI)
    fix k assume "base' k = None"
    then have "base k = None" using r(1) by (metis domIff)
    moreover from this have "k \<noteq> n" using A by auto
    ultimately show "fa_processor s' k = ph_default" using core_fill_processor [OF assms(5)] assms(2) by (simp add: built_ok_def)
  qed
  then show ?thesis using r(2) by blast
qed

lemma allocate_step:
  assumes "fa_inv sz areas s live base free" "built_ok base s" "takes_memory (node_id c) c s \<Longrightarrow> fresh_area areas m"
    "fa_allocate sz m node_id c s = Some (p, s')" "0 < sz" "sz \<le> chunk_size"
  shows "p \<notin> live \<and> (\<exists>base' free'. fa_inv sz (if takes_memory (node_id c) c s then m # areas else areas) s' (insert p live) base' free' \<and> built_ok base' s')"
proof -
  obtain s1 where s1: "(if fa_first s c = None then core_fill_buffer sz m (node_id c) c s else Some s) = Some s1"
    "fa_first s1 c = Some p" "s' = s1\<lparr>fa_first := (fa_first s1)(c := fa_next s1 p)\<rparr>"
    using assms(4) by (auto simp: fa_allocate_def core_allocate_def bind_eq_Some_conv)
  have "\<exists>base' free'. fa_inv sz (if takes_memory (node_id c) c s then m # areas else areas) s1 live base' free' \<and> built_ok base' s1"
  proof (cases "fa_first s c = None")
    case True
    then show ?thesis using fill_step [OF assms(1,2) True assms(3) _ assms(5,6)] s1(1) by simp
  next
    case False
    then have "s1 = s" "\<not> takes_memory (node_id c) c s" using s1(1) by (auto simp: takes_memory_def)
    then show ?thesis using assms(1,2) by (intro exI [of _ base] exI [of _ free]) simp
  qed
  then obtain base' free' where r: "fa_inv sz (if takes_memory (node_id c) c s then m # areas else areas) s1 live base' free'" "built_ok base' s1" by blast
  from take_object_ok [OF r(1) s1(2)] obtain ps where "p \<notin> live"
    "fa_inv sz (if takes_memory (node_id c) c s then m # areas else areas) s' (insert p live) base' (free'(c := ps))"
    unfolding s1(3) [symmetric] by blast
  moreover have "built_ok base' s'" using r(2) by (simp add: s1(3) built_ok_def)
  ultimately show ?thesis by blast
qed

lemma fixed_run_inv:
  assumes "fixed_run sz node_id areas s live" "0 < sz" "sz \<le> chunk_size"
  shows "\<exists>base free. fa_inv sz areas s live base free \<and> built_ok base s"
  using assms(1)
proof induction
  case fixed_empty
  have "fa_inv sz [] fa_empty {} (\<lambda>_. None) (\<lambda>_. [])"
    by (simp add: fa_inv_def areas_ok_def lists_ok_def owned_def fa_empty_def)
  moreover have "built_ok (\<lambda>_. None) fa_empty" by (simp add: built_ok_def fa_empty_def)
  ultimately show ?case by blast
next
  case (fixed_processor areas s live m n)
  then obtain base free where IH: "fa_inv sz areas s live base free" "built_ok base s" by blast
  from area_step [OF IH(1) fixed_processor.hyps(2) ph_new_ok]
  have "fa_inv sz (m # areas) (s\<lparr>fa_processor := (fa_processor s)(n := fst (ph_move (ph_new (of_nat n) m)))\<rparr>) live (base(n \<mapsto> m)) free" .
  moreover have "built_ok (base(n \<mapsto> m)) (s\<lparr>fa_processor := (fa_processor s)(n := fst (ph_move (ph_new (of_nat n) m)))\<rparr>)"
    using IH(2) by (auto simp: built_ok_def)
  ultimately show ?case by blast
next
  case (fixed_core areas s live c m s')
  then obtain base free where "fa_inv sz areas s live base free" "built_ok base s" by blast
  from fill_step [OF this fixed_core.hyps(2,3,4) assms(2,3)] show ?case by blast
next
  case (fixed_allocate areas s live c m p s')
  then obtain base free where "fa_inv sz areas s live base free" "built_ok base s" by blast
  from allocate_step [OF this fixed_allocate.hyps(2,3) assms(2,3)] show ?case by blast
next
  case (fixed_free areas s live p c)
  then obtain base free where IH: "fa_inv sz areas s live base free" "built_ok base s" by blast
  from core_free_ok [OF IH(1) fixed_free.hyps(2)] have "fa_inv sz areas (fa_free c p s) (live - {p}) base (free(c := p # free c))"
    by (simp add: fa_free_def)
  moreover have "built_ok base (fa_free c p s)" using IH(2) by (simp add: built_ok_def fa_free_def core_free_def)
  ultimately show ?case by blast
qed

lemma live_apart:
  assumes "fa_inv sz areas s live base free" "p \<in> live" "q \<in> live" "p \<noteq> q"
  shows "p + sz \<le> q \<or> q + sz \<le> p"
proof -
  note D = fa_invD [OF assms(1)]
  have "handed_out sz areas base (fa_processor s) p" "handed_out sz areas base (fa_processor s) q"
    using D(6) assms(2,3) by (simp_all add: owned_def)
  then obtain A i B j where "A \<in> set areas" "object_at sz A i p" "B \<in> set areas" "object_at sz B j q" unfolding handed_out_def by blast
  then show ?thesis using objects_apart [OF D(1) _ _ _ _ assms(4)] by blast
qed

text \<open>
  Calls one after the other: two live objects never overlap, and an allocation by a core whose
  processor heap has been built succeeds, taking a chunk or new memory when the list of the core is
  empty, and returns an object that overlaps no live one.
\<close>

theorem serial_allocation_succeeds:
  assumes "fixed_run sz node_id areas s live" "0 < sz" "sz \<le> chunk_size"
    "fa_processor s (node_id c) \<noteq> ph_default" "takes_memory (node_id c) c s \<Longrightarrow> fresh_area areas m"
  shows "(\<forall>p \<in> live. \<forall>q \<in> live. p \<noteq> q \<longrightarrow> p + sz \<le> q \<or> q + sz \<le> p) \<and>
    (\<exists>p s'. fa_allocate sz m node_id c s = Some (p, s') \<and> (\<forall>q \<in> live. p + sz \<le> q \<or> q + sz \<le> p))"
proof -
  obtain base free where inv: "fa_inv sz areas s live base free" "built_ok base s" using fixed_run_inv [OF assms(1-3)] by blast
  have "\<exists>p s'. fa_allocate sz m node_id c s = Some (p, s')"
  proof (cases "fa_first s c")
    case None
    have free: "free c = []" using lists_okD(1) [OF fa_invD(5) [OF inv(1)], of c] None by (cases "free c") auto
    obtain A where A: "base (node_id c) = Some A" using inv(2) assms(4) by (cases "base (node_id c)") (auto simp: built_ok_def)
    have "needs_memory (fa_processor s (node_id c)) \<Longrightarrow> fresh_area areas m" using assms(5) None by (simp add: takes_memory_def)
    from core_fill_buffer_ok [OF inv(1) A this assms(2,3) free] show ?thesis
      using None by (auto simp: fa_allocate_def core_allocate_def)
  qed (simp add: fa_allocate_def core_allocate_def)
  then obtain p s' where p: "fa_allocate sz m node_id c s = Some (p, s')" by blast
  from allocate_step [OF inv assms(5) p assms(2,3)] obtain base' free' areas' where
    "p \<notin> live" "fa_inv sz areas' s' (insert p live) base' free'" by blast
  then have "\<forall>q \<in> live. p + sz \<le> q \<or> q + sz \<le> p" using live_apart [of sz areas' s' "insert p live" base' free' p] by auto
  then show ?thesis using p live_apart [OF inv(1)] by blast
qed

end
