(* ===== verification/FixedConcurrent.thy ===== *)
theory FixedConcurrent
  imports FixedAllocator
begin

section \<open>The allocator for tasks under concurrency\<close>

text \<open>
  src/mx/memory/fixed_size_allocator.h again, with the cores interleaved: one step is one access to
  the counter, the flag or the buffer of a processor heap, or an operation on the list of free objects
  of a core, which only this core uses. A core (the threads are identified with them) that finds its
  list empty calls ProcessorHeap::allocate of its NUMA region.

  The code lets a core refill the buffer on the grounds of an old value of the counter, and resets the
  counter while other cores use the buffer. With \<open>careful\<close> the steps are restricted to the
  interleavings in which that does no harm: the counter does not run over its 8 bits, and a refill
  starts only while the counter is still beyond the buffer and no core of the region has claimed a chunk
  that it still has to read. The property shows that objects never overlap in these interleavings, and
  in all of them when no two cores share a region; \<open>chunk_handed_out_twice\<close> shows that otherwise two
  cores can get the same chunk.
\<close>

subsection \<open>Steps\<close>

text \<open>
  Where a core is in CoreHeap::fill_buffer: not in it; about to increment the counter; with the value it
  got; waiting for the flag of a refilling core; refilling (the new memory and the number of chunks
  written); done with refilling except for the flag.
\<close>

datatype fill_pc = Ready | Calling | Claimed u8 | Waiting | Filling addr nat | Stored

text \<open>
  \<open>fs_areas\<close> is the memory taken from the global heap, \<open>fs_base\<close> the area that the buffer of a region
  was cut from last, \<open>fs_live\<close> the objects in use.
\<close>

record fixed_state =
  fs_heap :: fixed_allocator
  fs_pc :: "nat \<Rightarrow> fill_pc"
  fs_areas :: "addr list"
  fs_base :: "nat \<Rightarrow> addr option"
  fs_live :: "addr set"

definition fixed_init :: fixed_state where
  "fixed_init = \<lparr>fs_heap = fa_empty, fs_pc = \<lambda>_. Ready, fs_areas = [], fs_base = \<lambda>_. None, fs_live = {}\<rparr>"

definition fs_processor :: "fixed_state \<Rightarrow> nat \<Rightarrow> processor_heap" where
  "fs_processor s n = fa_processor (fs_heap s) n"

definition with_processor :: "nat \<Rightarrow> processor_heap \<Rightarrow> fixed_state \<Rightarrow> fixed_state" where
  "with_processor n ph s = s\<lparr>fs_heap := (fs_heap s)\<lparr>fa_processor := (fa_processor (fs_heap s))(n := ph)\<rparr>\<rparr>"

definition at_pc :: "nat \<Rightarrow> fill_pc \<Rightarrow> fixed_state \<Rightarrow> fixed_state" where
  "at_pc c p s = s\<lparr>fs_pc := (fs_pc s)(c := p)\<rparr>"

text \<open>May core \<open>c\<close> start a refill without doing harm?\<close>

definition refill_is_safe :: "(nat \<Rightarrow> nat) \<Rightarrow> nat \<Rightarrow> fixed_state \<Rightarrow> bool" where
  "refill_is_safe node_id n s \<longleftrightarrow> chunks \<le> unat (ph_next_free_chunk (fs_processor s n)) \<and>
     (\<forall>d k. node_id d = n \<longrightarrow> fs_pc s d = Claimed k \<longrightarrow> chunks \<le> unat k)"

inductive fixed_step :: "nat \<Rightarrow> (nat \<Rightarrow> nat) \<Rightarrow> bool \<Rightarrow> fixed_state \<Rightarrow> fixed_state \<Rightarrow> bool" for sz node_id careful where
  build: "fs_base s n = None \<Longrightarrow> fresh_area (fs_areas s) m \<Longrightarrow> fixed_step sz node_id careful s
    (with_processor n (fst (ph_move (ph_new (of_nat n) m))) s\<lparr>fs_areas := m # fs_areas s, fs_base := (fs_base s)(n \<mapsto> m)\<rparr>)"
| call: "fs_pc s c = Ready \<Longrightarrow> fa_first (fs_heap s) c = None \<Longrightarrow> fs_base s (node_id c) \<noteq> None \<Longrightarrow>
    fixed_step sz node_id careful s (at_pc c Calling s)"
| claim: "fs_pc s c = Calling \<Longrightarrow> ph = fs_processor s (node_id c) \<Longrightarrow> (careful \<longrightarrow> ph_next_free_chunk ph \<noteq> - 1) \<Longrightarrow>
    fixed_step sz node_id careful s (at_pc c (Claimed (ph_next_free_chunk ph))
      (with_processor (node_id c) (ph\<lparr>ph_next_free_chunk := ph_next_free_chunk ph + 1\<rparr>) s))"
| take: "fs_pc s c = Claimed k \<Longrightarrow> ph = fs_processor s (node_id c) \<Longrightarrow> unat k < length (ph_free_chunk_buffer ph) \<Longrightarrow>
    ch_memory (ph_free_chunk_buffer ph ! unat k) = Some a \<Longrightarrow>
    fixed_step sz node_id careful s (at_pc c Ready s\<lparr>fs_heap := core_link sz a c (fs_heap s)\<rparr>)"
| refill: "fs_pc s c = Claimed k \<Longrightarrow> ph = fs_processor s (node_id c) \<Longrightarrow> \<not> unat k < length (ph_free_chunk_buffer ph) \<Longrightarrow>
    \<not> ph_fill_buffer_flag ph \<Longrightarrow> (careful \<longrightarrow> refill_is_safe node_id (node_id c) s) \<Longrightarrow> fresh_area (fs_areas s) m \<Longrightarrow>
    fixed_step sz node_id careful s (at_pc c (Filling m 0)
      (with_processor (node_id c) (ph\<lparr>ph_fill_buffer_flag := True, ph_allocated_chunks := ph_allocated_chunks ph @ ph_free_chunk_buffer ph\<rparr>) s)
      \<lparr>fs_areas := m # fs_areas s\<rparr>)"
| wait: "fs_pc s c = Claimed k \<Longrightarrow> ph = fs_processor s (node_id c) \<Longrightarrow> \<not> unat k < length (ph_free_chunk_buffer ph) \<Longrightarrow>
    ph_fill_buffer_flag ph \<Longrightarrow> fixed_step sz node_id careful s (at_pc c Waiting s)"
| wake: "fs_pc s c = Waiting \<Longrightarrow> \<not> ph_fill_buffer_flag (fs_processor s (node_id c)) \<Longrightarrow>
    fixed_step sz node_id careful s (at_pc c Calling s)"
| overwrite: "fs_pc s c = Filling m i \<Longrightarrow> ph = fs_processor s (node_id c) \<Longrightarrow> i < length (ph_free_chunk_buffer ph) \<Longrightarrow>
    fixed_step sz node_id careful s (at_pc c (Filling m (Suc i))
      (with_processor (node_id c) (ph\<lparr>ph_free_chunk_buffer := (ph_free_chunk_buffer ph)[i := chunk_at m i]\<rparr>) s))"
| reset: "fs_pc s c = Filling m i \<Longrightarrow> ph = fs_processor s (node_id c) \<Longrightarrow> \<not> i < length (ph_free_chunk_buffer ph) \<Longrightarrow>
    fixed_step sz node_id careful s (at_pc c Stored (with_processor (node_id c) (ph\<lparr>ph_next_free_chunk := 0\<rparr>) s)
      \<lparr>fs_base := (fs_base s)(node_id c \<mapsto> m)\<rparr>)"
| release: "fs_pc s c = Stored \<Longrightarrow> ph = fs_processor s (node_id c) \<Longrightarrow>
    fixed_step sz node_id careful s (at_pc c Calling (with_processor (node_id c) (ph\<lparr>ph_fill_buffer_flag := False\<rparr>) s))"
| allocate: "fs_pc s c = Ready \<Longrightarrow> fa_first (fs_heap s) c \<noteq> None \<Longrightarrow> core_allocate sz m (node_id c) c (fs_heap s) = Some (p, h) \<Longrightarrow>
    fixed_step sz node_id careful s (s\<lparr>fs_heap := h, fs_live := insert p (fs_live s)\<rparr>)"
| free: "fs_pc s c = Ready \<Longrightarrow> p \<in> fs_live s \<Longrightarrow>
    fixed_step sz node_id careful s (s\<lparr>fs_heap := core_free c p (fs_heap s), fs_live := fs_live s - {p}\<rparr>)"

definition fixed_reachable :: "nat \<Rightarrow> (nat \<Rightarrow> nat) \<Rightarrow> bool \<Rightarrow> fixed_state \<Rightarrow> bool" where
  "fixed_reachable sz node_id careful s \<longleftrightarrow> (fixed_step sz node_id careful)\<^sup>*\<^sup>* fixed_init s"

subsection \<open>The invariant\<close>

text \<open>The fields after a step; of a processor heap only one changes.\<close>

definition fs_next :: "fixed_state \<Rightarrow> nat \<Rightarrow> nat" where
  "fs_next s n = unat (ph_next_free_chunk (fs_processor s n))"

definition fs_buffer :: "fixed_state \<Rightarrow> nat \<Rightarrow> chunk list" where
  "fs_buffer s n = ph_free_chunk_buffer (fs_processor s n)"

definition fs_flag :: "fixed_state \<Rightarrow> nat \<Rightarrow> bool" where
  "fs_flag s n = ph_fill_buffer_flag (fs_processor s n)"

named_theorems fixed_fields

lemma step_fields [fixed_fields]:
  "fs_processor (with_processor n ph s) = (fs_processor s)(n := ph)"
  "fs_processor (at_pc c p s) = fs_processor s"
  "fs_processor (s\<lparr>fs_areas := A\<rparr>) = fs_processor s"
  "fs_processor (s\<lparr>fs_base := B\<rparr>) = fs_processor s"
  "fs_processor (s\<lparr>fs_live := L\<rparr>) = fs_processor s"
  "fs_processor (s\<lparr>fs_heap := h\<rparr>) = fa_processor h"
  "fa_processor (core_link sz a c h) = fa_processor h"
  "fa_processor (core_free c q h) = fa_processor h"
  "fs_pc (with_processor n ph s) = fs_pc s" "fs_pc (at_pc c p s) = (fs_pc s)(c := p)"
  "fs_areas (with_processor n ph s) = fs_areas s" "fs_areas (at_pc c p s) = fs_areas s"
  "fs_base (with_processor n ph s) = fs_base s" "fs_base (at_pc c p s) = fs_base s"
  "fs_live (with_processor n ph s) = fs_live s" "fs_live (at_pc c p s) = fs_live s"
  "fa_first (fs_heap (with_processor n ph s)) = fa_first (fs_heap s)" "fs_heap (at_pc c p s) = fs_heap s"
  "fa_next (fs_heap (with_processor n ph s)) = fa_next (fs_heap s)"
  by (auto simp: fs_processor_def with_processor_def at_pc_def core_link_def core_free_def fun_eq_iff)

lemma core_allocate_first:
  assumes "core_allocate sz m n c h = Some (p, h')" "fa_first h c \<noteq> None"
  shows "fa_first h c = Some p" "h' = h\<lparr>fa_first := (fa_first h)(c := fa_next h p)\<rparr>"
  using assms by (auto simp: core_allocate_def)

fun filler :: "fill_pc \<Rightarrow> bool" where
  "filler (Filling m i) = True"
| "filler Stored = True"
| "filler _ = False"

text \<open>The new memory of a refilling core, and the chunk that a core has claimed and not read yet.\<close>

fun fill_area :: "fill_pc \<Rightarrow> addr option" where
  "fill_area (Filling m i) = Some m"
| "fill_area _ = None"

fun claim_of :: "fill_pc \<Rightarrow> nat option" where
  "claim_of (Claimed k) = (if unat k < chunks then Some (unat k) else None)"
| "claim_of _ = None"

text \<open>Areas: apart from each other, each used for one buffer or by one refilling core.\<close>

definition areas_inv :: "fixed_state \<Rightarrow> bool" where
  "areas_inv s \<longleftrightarrow> areas_ok (fs_areas s) \<and> (\<forall>n A. fs_base s n = Some A \<longrightarrow> A \<in> set (fs_areas s)) \<and>
     (\<forall>n k A. fs_base s n = Some A \<longrightarrow> fs_base s k = Some A \<longrightarrow> n = k) \<and>
     (\<forall>c m. fill_area (fs_pc s c) = Some m \<longrightarrow> m \<in> set (fs_areas s)) \<and>
     (\<forall>c m n. fill_area (fs_pc s c) = Some m \<longrightarrow> fs_base s n \<noteq> Some m) \<and>
     (\<forall>c d m. fill_area (fs_pc s c) = Some m \<longrightarrow> fill_area (fs_pc s d) = Some m \<longrightarrow> c = d)"

definition built_inv :: "(nat \<Rightarrow> nat) \<Rightarrow> fixed_state \<Rightarrow> bool" where
  "built_inv node_id s \<longleftrightarrow> (\<forall>c. fs_base s (node_id c) = None \<longrightarrow> fs_pc s c = Ready)"

text \<open>The flag: at most one core of a region refills its buffer.\<close>

definition flag_inv :: "(nat \<Rightarrow> nat) \<Rightarrow> fixed_state \<Rightarrow> bool" where
  "flag_inv node_id s \<longleftrightarrow> (\<forall>c. filler (fs_pc s c) \<longrightarrow> fs_flag s (node_id c)) \<and>
     (\<forall>c d. filler (fs_pc s c) \<longrightarrow> filler (fs_pc s d) \<longrightarrow> node_id c = node_id d \<longrightarrow> c = d)"

text \<open>Claims: below the counter, different for different cores, none during a refill.\<close>

definition claims_inv :: "(nat \<Rightarrow> nat) \<Rightarrow> fixed_state \<Rightarrow> bool" where
  "claims_inv node_id s \<longleftrightarrow>
     (\<forall>c k. claim_of (fs_pc s c) = Some k \<longrightarrow> k < fs_next s (node_id c)) \<and>
     (\<forall>c d k. claim_of (fs_pc s c) = Some k \<longrightarrow> claim_of (fs_pc s d) = Some k \<longrightarrow> node_id c = node_id d \<longrightarrow> c = d) \<and>
     (\<forall>c d. fill_area (fs_pc s c) \<noteq> None \<longrightarrow> node_id d = node_id c \<longrightarrow> claim_of (fs_pc s d) = None) \<and>
     (\<forall>c. fill_area (fs_pc s c) \<noteq> None \<longrightarrow> chunks \<le> fs_next s (node_id c))"

definition buffer_inv :: "(nat \<Rightarrow> nat) \<Rightarrow> fixed_state \<Rightarrow> bool" where
  "buffer_inv node_id s \<longleftrightarrow>
     (\<forall>n A. fs_base s n = Some A \<longrightarrow> length (fs_buffer s n) = chunks) \<and>
     (\<forall>n A. fs_base s n = Some A \<longrightarrow> (\<forall>c. node_id c = n \<longrightarrow> fill_area (fs_pc s c) = None) \<longrightarrow> fs_buffer s n = map (chunk_at A) [0..<chunks]) \<and>
     (\<forall>c m i. fs_pc s c = Filling m i \<longrightarrow> i \<le> chunks \<and> take i (fs_buffer s (node_id c)) = map (chunk_at m) [0..<i])"

text \<open>Chunks of an area that no core has read yet.\<close>

definition unread :: "(nat \<Rightarrow> nat) \<Rightarrow> fixed_state \<Rightarrow> addr \<Rightarrow> nat \<Rightarrow> bool" where
  "unread node_id s A i \<longleftrightarrow> (\<exists>n. fs_base s n = Some A \<and> (fs_next s n \<le> i \<or> (\<exists>c. node_id c = n \<and> claim_of (fs_pc s c) = Some i))) \<or>
     (\<exists>c. fill_area (fs_pc s c) = Some A)"

definition objects_inv :: "nat \<Rightarrow> (nat \<Rightarrow> nat) \<Rightarrow> fixed_state \<Rightarrow> bool" where
  "objects_inv sz node_id s \<longleftrightarrow> (\<exists>free. lists_ok (fa_next (fs_heap s)) (fa_first (fs_heap s)) free (fs_live s) \<and>
     (\<forall>p \<in> owned free (fs_live s). \<exists>A \<in> set (fs_areas s). \<exists>i. object_at sz A i p \<and> \<not> unread node_id s A i))"

subsection \<open>Every step keeps the invariant\<close>

lemma fresh_unused:
  assumes "areas_inv s" "fresh_area (fs_areas s) m"
  shows "m \<notin> set (fs_areas s)" "areas_ok (m # fs_areas s)" "fill_area (fs_pc s c) \<noteq> Some m" "fs_base s n \<noteq> Some m"
  using fresh_area_new [OF assms(2)] areas_ok_Cons [OF _ assms(2)] assms(1) unfolding areas_inv_def by blast+

lemma areas_step:
  assumes "fixed_step sz node_id careful s s'" "areas_inv s"
  shows "areas_inv s'"
  using assms(1)
proof cases
  case (build n m)
  then show ?thesis using assms(2) fresh_unused [OF assms(2) build(3)] unfolding areas_inv_def by (auto simp: fixed_fields)
next
  case (refill c k ph m)
  then show ?thesis using assms(2) fresh_unused [OF assms(2) refill(7)] unfolding areas_inv_def by (auto simp: fixed_fields)
next
  case (reset c m i ph)
  then have "fill_area (fs_pc s c) = Some m" by simp
  then show ?thesis using assms(2) reset(1) unfolding areas_inv_def by (auto simp: fixed_fields)
next
  case (overwrite c m i ph)
  then have "fill_area (fs_pc s c) = Some m" by simp
  then show ?thesis using assms(2) overwrite(1) unfolding areas_inv_def by (auto simp: fixed_fields)
qed (use assms(2) in \<open>auto simp: areas_inv_def fixed_fields\<close>)

lemma built_step:
  assumes "fixed_step sz node_id careful s s'" "built_inv node_id s"
  shows "built_inv node_id s'"
  using assms(1) by cases (use assms(2) in \<open>auto simp: built_inv_def fixed_fields\<close>)

lemma flag_step:
  assumes "fixed_step sz node_id careful s s'" "flag_inv node_id s" "built_inv node_id s"
  shows "flag_inv node_id s'"
  using assms(1)
proof cases
  case (build n m)
  have "\<not> filler (fs_pc s c)" if "node_id c = n" for c using assms(3) that build(2) by (simp add: built_inv_def)
  then show ?thesis using assms(2) build(1) by (auto simp: flag_inv_def fixed_fields fs_flag_def)
next
  case (allocate c m p h)
  then show ?thesis using assms(2) core_allocate_first [OF allocate(4,3)] by (auto simp: flag_inv_def fixed_fields fs_flag_def fs_processor_def)
next
  case (refill c k ph m)
  have "\<not> filler (fs_pc s d)" if "node_id d = node_id c" for d
    using assms(2) that refill(3,5) by (auto simp: flag_inv_def fs_flag_def)
  then show ?thesis using assms(2) refill(1) by (auto simp: flag_inv_def fixed_fields fs_flag_def)
next
  case (release c ph)
  then have "filler (fs_pc s c)" by simp
  then have "\<not> filler (fs_pc s d)" if "node_id d = node_id c" "d \<noteq> c" for d
    using assms(2) that unfolding flag_inv_def by blast
  then show ?thesis using assms(2) release(1) by (auto simp: flag_inv_def fixed_fields fs_flag_def)
next
  case (overwrite c m i ph)
  then have "filler (fs_pc s c)" by simp
  then show ?thesis using assms(2) overwrite(1,3) by (auto simp: flag_inv_def fixed_fields fs_flag_def)
next
  case (reset c m i ph)
  then have "filler (fs_pc s c)" by simp
  then show ?thesis using assms(2) reset(1,3) by (auto simp: flag_inv_def fixed_fields fs_flag_def)
qed (use assms(2) in \<open>auto simp: flag_inv_def fixed_fields fs_flag_def fs_processor_def\<close>)

text \<open>In a careful interleaving the counter moves up by claims.\<close>

lemma claim_value:
  assumes "ph_next_free_chunk ph \<noteq> - 1"
  shows "unat (ph_next_free_chunk ph + 1) = Suc (unat (ph_next_free_chunk ph))"
proof -
  have "1 + ph_next_free_chunk ph \<noteq> 0" using assms by (metis add.commute eq_neg_iff_add_eq_0)
  then show ?thesis using unatSuc [of "ph_next_free_chunk ph"] by (simp add: add.commute)
qed

text \<open>A region with a core that refills has no other one that does, and no claims.\<close>

lemma filling_alone:
  assumes "flag_inv node_id s" "fill_area (fs_pc s c) \<noteq> None" "node_id d = node_id c" "d \<noteq> c"
  shows "\<not> filler (fs_pc s d)" "fill_area (fs_pc s d) = None"
proof -
  have "filler (fs_pc s c)" using assms(2) by (cases "fs_pc s c") auto
  then show no: "\<not> filler (fs_pc s d)" using assms(1,3,4) unfolding flag_inv_def by metis
  then show "fill_area (fs_pc s d) = None" by (cases "fs_pc s d") auto
qed

lemma claims_inv_mono:
  assumes "claims_inv node_id s" "\<And>d. claim_of (fs_pc s' d) = None \<or> claim_of (fs_pc s' d) = claim_of (fs_pc s d)"
    "\<And>d. fill_area (fs_pc s' d) = fill_area (fs_pc s d)"
    "\<And>d. fs_pc s d \<noteq> Ready \<Longrightarrow> fs_next s' (node_id d) = fs_next s (node_id d)"
  shows "claims_inv node_id s'"
proof -
  have claim: "claim_of (fs_pc s d) = Some k \<and> fs_next s' (node_id d) = fs_next s (node_id d)" if "claim_of (fs_pc s' d) = Some k" for d k
    using assms(2) [of d] assms(4) [of d] that by (cases "fs_pc s d") auto
  have fill: "fs_next s' (node_id d) = fs_next s (node_id d)" if "fill_area (fs_pc s d) \<noteq> None" for d
    using assms(4) [of d] that by (cases "fs_pc s d") auto
  note D = assms(1) [unfolded claims_inv_def]
  show ?thesis
    unfolding claims_inv_def assms(3)
  proof (intro conjI allI impI)
    show "k < fs_next s' (node_id c)" if "claim_of (fs_pc s' c) = Some k" for c k using D claim [OF that] by simp
    show "c = d" if "claim_of (fs_pc s' c) = Some k" "claim_of (fs_pc s' d) = Some k" "node_id c = node_id d" for c d k
      using D claim [OF that(1)] claim [OF that(2)] that(3) by blast
    show "claim_of (fs_pc s' d) = None" if "fill_area (fs_pc s c) \<noteq> None" "node_id d = node_id c" for c d
    proof -
      have "claim_of (fs_pc s d) = None" using D that by blast
      then show ?thesis using assms(2) [of d] by auto
    qed
    show "chunks \<le> fs_next s' (node_id c)" if "fill_area (fs_pc s c) \<noteq> None" for c using D fill [OF that] that by simp
  qed
qed

lemma claims_invI:
  assumes "\<And>c k. claim_of (fs_pc s c) = Some k \<Longrightarrow> k < fs_next s (node_id c)"
    "\<And>c d k. claim_of (fs_pc s c) = Some k \<Longrightarrow> claim_of (fs_pc s d) = Some k \<Longrightarrow> node_id c = node_id d \<Longrightarrow> c = d"
    "\<And>c d. fill_area (fs_pc s c) \<noteq> None \<Longrightarrow> node_id d = node_id c \<Longrightarrow> claim_of (fs_pc s d) = None"
    "\<And>c. fill_area (fs_pc s c) \<noteq> None \<Longrightarrow> chunks \<le> fs_next s (node_id c)"
  shows "claims_inv node_id s"
  using assms unfolding claims_inv_def by blast

lemma claims_invD:
  assumes "claims_inv node_id s"
  shows "claim_of (fs_pc s c) = Some k \<Longrightarrow> k < fs_next s (node_id c)"
    "claim_of (fs_pc s c) = Some k \<Longrightarrow> claim_of (fs_pc s d) = Some k \<Longrightarrow> node_id c = node_id d \<Longrightarrow> c = d"
    "fill_area (fs_pc s c) \<noteq> None \<Longrightarrow> node_id d = node_id c \<Longrightarrow> claim_of (fs_pc s d) = None"
    "fill_area (fs_pc s c) \<noteq> None \<Longrightarrow> chunks \<le> fs_next s (node_id c)"
  using assms unfolding claims_inv_def by blast+

lemma claims_claim:
  assumes "claims_inv node_id s" "fs_pc s' = (fs_pc s)(c := Claimed w)" "unat w = fs_next s (node_id c)"
    "\<And>n. fs_next s' n = (if n = node_id c then Suc (fs_next s n) else fs_next s n)"
  shows "claims_inv node_id s'"
proof (rule claims_invI)
  note D = claims_invD [OF assms(1)]
  have new: "k = fs_next s (node_id c) \<and> k < chunks" if "claim_of (fs_pc s' c) = Some k" for k
    using that assms(2,3) by (auto split: if_splits)
  have other: "fs_pc s' d = fs_pc s d" if "d \<noteq> c" for d using that assms(2) by simp
  have filling: "d \<noteq> c \<and> fill_area (fs_pc s d) \<noteq> None" if "fill_area (fs_pc s' d) \<noteq> None" for d
    using that assms(2) by (auto split: if_splits)
  show "k < fs_next s' (node_id d)" if "claim_of (fs_pc s' d) = Some k" for d k
    using that new [of k] D(1) [of d k] other [of d] assms(4) by (cases "d = c") (auto simp: less_SucI)
  show "d = e" if "claim_of (fs_pc s' d) = Some k" "claim_of (fs_pc s' e) = Some k" "node_id d = node_id e" for d e k
    using that new [of k] D(1) [of d k] D(1) [of e k] D(2) [of d k e] other [of d] other [of e] by (cases "d = c"; cases "e = c") auto
  show "claim_of (fs_pc s' e) = None" if "fill_area (fs_pc s' d) \<noteq> None" "node_id e = node_id d" for d e
    using filling [OF that(1)] D(3) [of d e] D(4) [of d] that(2) other [of e] new by (cases "e = c"; cases "claim_of (fs_pc s' e)") fastforce+
  show "chunks \<le> fs_next s' (node_id d)" if "fill_area (fs_pc s' d) \<noteq> None" for d
    using filling [OF that] D(4) [of d] assms(4) by (auto simp: le_SucI)
qed

lemma claims_refill:
  assumes "claims_inv node_id s" "fs_pc s' = (fs_pc s)(c := Filling m 0)" "refill_is_safe node_id (node_id c) s" "\<And>n. fs_next s' n = fs_next s n"
  shows "claims_inv node_id s'"
proof (rule claims_invI)
  note D = claims_invD [OF assms(1)]
  have none: "claim_of (fs_pc s d) = None" if "node_id d = node_id c" for d
    using assms(3) that by (cases "fs_pc s d") (auto simp: refill_is_safe_def)
  have claim: "claim_of (fs_pc s d) = Some k" if "claim_of (fs_pc s' d) = Some k" for d k
    using that assms(2) by (auto split: if_splits)
  show "k < fs_next s' (node_id d)" if "claim_of (fs_pc s' d) = Some k" for d k using D(1) [OF claim [OF that]] assms(4) by simp
  show "d = e" if "claim_of (fs_pc s' d) = Some k" "claim_of (fs_pc s' e) = Some k" "node_id d = node_id e" for d e k
    by (rule D(2) [OF claim [OF that(1)] claim [OF that(2)] that(3)])
  show "claim_of (fs_pc s' e) = None" if "fill_area (fs_pc s' d) \<noteq> None" "node_id e = node_id d" for d e
    using that none [of e] D(3) [of d e] assms(2) by (auto split: if_splits)
  show "chunks \<le> fs_next s' (node_id d)" if "fill_area (fs_pc s' d) \<noteq> None" for d
    using that D(4) [of d] assms(2-4) by (auto simp: refill_is_safe_def fs_next_def split: if_splits)
qed

lemma claims_reset:
  assumes "claims_inv node_id s" "flag_inv node_id s" "fill_area (fs_pc s c) \<noteq> None" "fs_pc s' = (fs_pc s)(c := Stored)"
    "\<And>n. n \<noteq> node_id c \<Longrightarrow> fs_next s' n = fs_next s n"
  shows "claims_inv node_id s'"
proof (rule claims_invI)
  note D = claims_invD [OF assms(1)]
  have claim: "claim_of (fs_pc s d) = Some k \<and> node_id d \<noteq> node_id c" if "claim_of (fs_pc s' d) = Some k" for d k
    using that assms(4) D(3) [OF assms(3), of d] by (auto split: if_splits)
  have filling: "fill_area (fs_pc s d) \<noteq> None \<and> node_id d \<noteq> node_id c" if "fill_area (fs_pc s' d) \<noteq> None" for d
    using that assms(4) filling_alone(2) [OF assms(2,3), of d] by (auto split: if_splits)
  show "k < fs_next s' (node_id d)" if "claim_of (fs_pc s' d) = Some k" for d k using D(1) [of d k] claim [OF that] assms(5) by simp
  show "d = e" if "claim_of (fs_pc s' d) = Some k" "claim_of (fs_pc s' e) = Some k" "node_id d = node_id e" for d e k
    using D(2) [of d k e] claim [OF that(1)] claim [OF that(2)] that(3) by blast
  show "claim_of (fs_pc s' e) = None" if "fill_area (fs_pc s' d) \<noteq> None" "node_id e = node_id d" for d e
    using filling [OF that(1)] that(2) D(3) [of d e] assms(4) by (auto split: if_splits)
  show "chunks \<le> fs_next s' (node_id d)" if "fill_area (fs_pc s' d) \<noteq> None" for d
    using filling [OF that] D(4) [of d] assms(5) by simp
qed

lemma claims_step:
  assumes "fixed_step sz node_id True s s'" "claims_inv node_id s" "flag_inv node_id s" "built_inv node_id s"
  shows "claims_inv node_id s'"
  using assms(1)
proof cases
  case (build n m)
  have "fs_pc s c = Ready" if "node_id c = n" for c using assms(4) that build(2) by (simp add: built_inv_def)
  then show ?thesis using build(1) by (intro claims_inv_mono [OF assms(2)]) (auto simp: fixed_fields fs_next_def)
next
  case (allocate c m p h)
  show ?thesis by (rule claims_inv_mono [OF assms(2)])
    (use allocate core_allocate_first [OF allocate(4,3)] in \<open>auto simp: fixed_fields fs_next_def fs_processor_def\<close>)
next
  case (claim c ph)
  show ?thesis by (rule claims_claim [OF assms(2), of s' c])
    (use claim claim_value [of ph] in \<open>auto simp: fixed_fields fs_next_def\<close>)
next
  case (refill c k ph m)
  show ?thesis by (rule claims_refill [OF assms(2), of s' c]) (use refill in \<open>auto simp: fixed_fields fs_next_def\<close>)
next
  case (overwrite c m i ph)
  show ?thesis by (rule claims_inv_mono [OF assms(2)]) (use overwrite in \<open>auto simp: fixed_fields fs_next_def\<close>)
next
  case (reset c m i ph)
  show ?thesis by (rule claims_reset [OF assms(2,3), of c]) (use reset in \<open>auto simp: fixed_fields fs_next_def\<close>)
qed (rule claims_inv_mono [OF assms(2)], auto simp: fixed_fields fs_next_def fs_processor_def)+

lemma buffer_invD:
  assumes "buffer_inv node_id s"
  shows "fs_base s n = Some A \<Longrightarrow> length (fs_buffer s n) = chunks"
    "fs_base s n = Some A \<Longrightarrow> (\<And>c. node_id c = n \<Longrightarrow> fill_area (fs_pc s c) = None) \<Longrightarrow> fs_buffer s n = map (chunk_at A) [0..<chunks]"
    "fs_pc s c = Filling m i \<Longrightarrow> i \<le> chunks \<and> take i (fs_buffer s (node_id c)) = map (chunk_at m) [0..<i]"
  using assms unfolding buffer_inv_def by blast+

lemma buffer_invI:
  assumes "\<And>n A. fs_base s n = Some A \<Longrightarrow> length (fs_buffer s n) = chunks"
    "\<And>n A. fs_base s n = Some A \<Longrightarrow> (\<And>c. node_id c = n \<Longrightarrow> fill_area (fs_pc s c) = None) \<Longrightarrow> fs_buffer s n = map (chunk_at A) [0..<chunks]"
    "\<And>c m i. fs_pc s c = Filling m i \<Longrightarrow> i \<le> chunks \<and> take i (fs_buffer s (node_id c)) = map (chunk_at m) [0..<i]"
  shows "buffer_inv node_id s"
  using assms unfolding buffer_inv_def by blast

lemma fill_area_Some: "fill_area p = Some m \<longleftrightarrow> (\<exists>i. p = Filling m i)"
  by (cases p) auto

lemma buffer_inv_same:
  assumes "buffer_inv node_id s" "\<And>d m i. fs_pc s' d = Filling m i \<longleftrightarrow> fs_pc s d = Filling m i" "fs_base s' = fs_base s"
    "\<And>n. fs_buffer s' n = fs_buffer s n"
  shows "buffer_inv node_id s'"
proof -
  have "fill_area (fs_pc s' d) = Some m \<longleftrightarrow> fill_area (fs_pc s d) = Some m" for d m by (simp only: fill_area_Some assms(2))
  then have "fill_area (fs_pc s' d) = fill_area (fs_pc s d)" for d by (metis not_Some_eq)
  then show ?thesis using assms(1) unfolding buffer_inv_def assms(2-4) by simp
qed

lemma buffer_refill:
  assumes "buffer_inv node_id s" "fs_pc s' = (fs_pc s)(c := Filling m 0)" "fs_base s' = fs_base s" "\<And>n. fs_buffer s' n = fs_buffer s n"
    "fill_area (fs_pc s c) = None"
  shows "buffer_inv node_id s'"
proof (rule buffer_invI)
  note D = buffer_invD [OF assms(1)]
  show "length (fs_buffer s' n) = chunks" if "fs_base s' n = Some A" for n A using D(1) that assms(3,4) by simp
  show "fs_buffer s' n = map (chunk_at A) [0..<chunks]"
    if "fs_base s' n = Some A" "\<And>d. node_id d = n \<Longrightarrow> fill_area (fs_pc s' d) = None" for n A
  proof -
    have "fill_area (fs_pc s d) = None" if "node_id d = n" for d
      using \<open>\<And>d. node_id d = n \<Longrightarrow> fill_area (fs_pc s' d) = None\<close> [OF that] assms(2) by (auto split: if_splits)
    then show ?thesis using D(2) that(1) assms(3,4) by simp
  qed
  show "i \<le> chunks \<and> take i (fs_buffer s' (node_id d)) = map (chunk_at m') [0..<i]" if "fs_pc s' d = Filling m' i" for d m' i
    using that D(3) [of d m' i] assms(2,4) by (auto split: if_splits)
qed

lemma buffer_overwrite:
  assumes "buffer_inv node_id s" "flag_inv node_id s" "fs_pc s c = Filling m i" "fs_pc s' = (fs_pc s)(c := Filling m (Suc i))"
    "fs_base s' = fs_base s" "i < length (fs_buffer s (node_id c))" "fs_base s (node_id c) \<noteq> None"
    "\<And>n. fs_buffer s' n = (if n = node_id c then (fs_buffer s n)[i := chunk_at m i] else fs_buffer s n)"
  shows "buffer_inv node_id s'"
proof (rule buffer_invI)
  note D = buffer_invD [OF assms(1)]
  have i: "i < chunks" using assms(6,7) D(1) by auto
  show "length (fs_buffer s' n) = chunks" if "fs_base s' n = Some A" for n A
    using D(1) [of n A] that assms(5,8) by auto
  show "fs_buffer s' n = map (chunk_at A) [0..<chunks]"
    if base: "fs_base s' n = Some A" and none: "\<And>d. node_id d = n \<Longrightarrow> fill_area (fs_pc s' d) = None" for n A
  proof -
    have "n \<noteq> node_id c" using none [of c] assms(4) by auto
    moreover have "fill_area (fs_pc s d) = None" if "node_id d = n" for d using none [OF that] assms(4) by (auto split: if_splits)
    ultimately show ?thesis using D(2) [of n A] base assms(5,8) by simp
  qed
  show "j \<le> chunks \<and> take j (fs_buffer s' (node_id d)) = map (chunk_at m') [0..<j]" if "fs_pc s' d = Filling m' j" for d m' j
  proof (cases "d = c")
    case True
    then have "m' = m" "j = Suc i" using that assms(4) by simp_all
    then show ?thesis using D(3) [OF assms(3)] assms(6,8) i True by (simp add: take_Suc_conv_app_nth)
  next
    case False
    then have d: "fs_pc s d = Filling m' j" using that assms(4) by simp
    then have "node_id d \<noteq> node_id c" using filling_alone(2) [OF assms(2), of c d] assms(3) False by auto
    then show ?thesis using D(3) [OF d] assms(8) by simp
  qed
qed

lemma buffer_reset:
  assumes "buffer_inv node_id s" "flag_inv node_id s" "fs_pc s c = Filling m i" "fs_pc s' = (fs_pc s)(c := Stored)"
    "fs_base s' = (fs_base s)(node_id c \<mapsto> m)" "\<not> i < length (fs_buffer s (node_id c))" "fs_base s (node_id c) \<noteq> None"
    "\<And>n. fs_buffer s' n = fs_buffer s n"
  shows "buffer_inv node_id s'"
proof (rule buffer_invI)
  note D = buffer_invD [OF assms(1)]
  have len: "length (fs_buffer s (node_id c)) = chunks" using assms(7) D(1) by auto
  then have "i = chunks" using assms(6) D(3) [OF assms(3)] by simp
  then have full: "fs_buffer s (node_id c) = map (chunk_at m) [0..<chunks]" using D(3) [OF assms(3)] len by simp
  show "length (fs_buffer s' n) = chunks" if "fs_base s' n = Some A" for n A
    using that D(1) [of n A] len assms(5,8) by (auto split: if_splits)
  show "fs_buffer s' n = map (chunk_at A) [0..<chunks]"
    if base: "fs_base s' n = Some A" and none: "\<And>d. node_id d = n \<Longrightarrow> fill_area (fs_pc s' d) = None" for n A
  proof (cases "n = node_id c")
    case True
    then show ?thesis using full base assms(5,8) by simp
  next
    case False
    have "fill_area (fs_pc s d) = None" if "node_id d = n" for d using none [OF that] assms(4) False that by (auto split: if_splits)
    then show ?thesis using D(2) [of n A] base assms(5,8) False by simp
  qed
  show "j \<le> chunks \<and> take j (fs_buffer s' (node_id d)) = map (chunk_at m') [0..<j]" if "fs_pc s' d = Filling m' j" for d m' j
    using that D(3) [of d m' j] assms(4,8) by (auto split: if_splits)
qed

lemma buffer_build:
  assumes "buffer_inv node_id s" "built_inv node_id s" "fs_base s n = None" "fs_pc s' = fs_pc s" "fs_base s' = (fs_base s)(n \<mapsto> m)"
    "\<And>k. fs_buffer s' k = (if k = n then map (chunk_at m) [0..<chunks] else fs_buffer s k)"
  shows "buffer_inv node_id s'"
proof (rule buffer_invI)
  note D = buffer_invD [OF assms(1)]
  show "length (fs_buffer s' k) = chunks" if "fs_base s' k = Some A" for k A
    using that D(1) [of k A] assms(5,6) by (auto split: if_splits)
  show "fs_buffer s' k = map (chunk_at A) [0..<chunks]"
    if "fs_base s' k = Some A" "\<And>d. node_id d = k \<Longrightarrow> fill_area (fs_pc s' d) = None" for k A
    using that D(2) [of k A] assms(4-6) by (cases "k = n") auto
  show "j \<le> chunks \<and> take j (fs_buffer s' (node_id d)) = map (chunk_at m') [0..<j]" if "fs_pc s' d = Filling m' j" for d m' j
  proof -
    have "node_id d \<noteq> n" using that assms(2-4) by (auto simp: built_inv_def)
    then show ?thesis using that D(3) [of d m' j] assms(4,6) by simp
  qed
qed

lemma buffer_step:
  assumes "fixed_step sz node_id careful s s'" "buffer_inv node_id s" "flag_inv node_id s" "built_inv node_id s"
  shows "buffer_inv node_id s'"
  using assms(1)
proof cases
  case (build n m)
  show ?thesis by (rule buffer_build [OF assms(2,4) build(2)])
    (use build in \<open>auto simp: fixed_fields fs_buffer_def ph_move_def ph_new_def ph_fill_buffer_def ph_default_def\<close>)
next
  case (allocate c m p h)
  show ?thesis by (rule buffer_inv_same [OF assms(2)])
    (use allocate core_allocate_first [OF allocate(4,3)] in \<open>auto simp: fixed_fields fs_buffer_def fs_processor_def\<close>)
next
  case (refill c k ph m)
  show ?thesis by (rule buffer_refill [OF assms(2), of s' c m]) (use refill in \<open>auto simp: fixed_fields fs_buffer_def\<close>)
next
  case (overwrite c m i ph)
  show ?thesis by (rule buffer_overwrite [OF assms(2,3) overwrite(2)])
    (use overwrite assms(4) in \<open>auto simp: fixed_fields fs_buffer_def built_inv_def\<close>)
next
  case (reset c m i ph)
  show ?thesis by (rule buffer_reset [OF assms(2,3) reset(2)])
    (use reset assms(4) in \<open>auto simp: fixed_fields fs_buffer_def built_inv_def\<close>)
qed (rule buffer_inv_same [OF assms(2)], auto simp: fixed_fields fs_buffer_def fs_processor_def)+

text \<open>Objects: where they are, and that chunks are not given back to be read again.\<close>

lemma objects_keep:
  assumes "objects_inv sz node_id s" "\<And>A i. A \<in> set (fs_areas s) \<Longrightarrow> unread node_id s' A i \<Longrightarrow> unread node_id s A i"
    "set (fs_areas s) \<subseteq> set (fs_areas s')"
    "\<And>free. lists_ok (fa_next (fs_heap s)) (fa_first (fs_heap s)) free (fs_live s) \<Longrightarrow>
       \<exists>free'. lists_ok (fa_next (fs_heap s')) (fa_first (fs_heap s')) free' (fs_live s') \<and> owned free' (fs_live s') \<subseteq> owned free (fs_live s)"
  shows "objects_inv sz node_id s'"
proof -
  obtain free where free: "lists_ok (fa_next (fs_heap s)) (fa_first (fs_heap s)) free (fs_live s)"
    "\<And>p. p \<in> owned free (fs_live s) \<Longrightarrow> \<exists>A \<in> set (fs_areas s). \<exists>i. object_at sz A i p \<and> \<not> unread node_id s A i"
    using assms(1) unfolding objects_inv_def by blast
  obtain free' where free': "lists_ok (fa_next (fs_heap s')) (fa_first (fs_heap s')) free' (fs_live s')"
    "owned free' (fs_live s') \<subseteq> owned free (fs_live s)" using assms(4) [OF free(1)] by blast
  have "\<exists>A \<in> set (fs_areas s'). \<exists>i. object_at sz A i p \<and> \<not> unread node_id s' A i" if "p \<in> owned free' (fs_live s')" for p
    using free(2) [of p] free'(2) that assms(2,3) by blast
  then show ?thesis using free'(1) unfolding objects_inv_def by blast
qed

lemma objects_same:
  assumes "objects_inv sz node_id s" "\<And>A i. A \<in> set (fs_areas s) \<Longrightarrow> unread node_id s' A i \<Longrightarrow> unread node_id s A i"
    "set (fs_areas s) \<subseteq> set (fs_areas s')" "fa_next (fs_heap s') = fa_next (fs_heap s)" "fa_first (fs_heap s') = fa_first (fs_heap s)"
    "fs_live s' = fs_live s"
  shows "objects_inv sz node_id s'"
  by (rule objects_keep [OF assms(1-3)]) (use assms(4-6) in auto)

text \<open>A core reads the chunk that it has claimed.\<close>

lemma objects_take:
  assumes "objects_inv sz node_id s" "areas_inv s" "claims_inv node_id s" "buffer_inv node_id s" "built_inv node_id s"
    "fs_pc s c = Claimed k" "unat k < length (fs_buffer s (node_id c))" "ch_memory (fs_buffer s (node_id c) ! unat k) = Some a"
    "s' = at_pc c Ready s\<lparr>fs_heap := core_link sz a c (fs_heap s)\<rparr>" "0 < sz" "sz \<le> chunk_size"
  shows "objects_inv sz node_id s'"
proof -
  obtain A where A: "fs_base s (node_id c) = Some A" using assms(5,6) unfolding built_inv_def by fastforce
  have k: "unat k < chunks" using assms(7) buffer_invD(1) [OF assms(4) A] by simp
  then have claim: "claim_of (fs_pc s c) = Some (unat k)" using assms(6) by simp
  have "fill_area (fs_pc s d) = None" if "node_id d = node_id c" for d
    using claims_invD(3) [OF assms(3), of d c] claim that by fastforce
  then have "fs_buffer s (node_id c) = map (chunk_at A) [0..<chunks]" by (rule buffer_invD(2) [OF assms(4) A])
  then have a: "a = A + unat k * chunk_size" using assms(8) k chunk_at_eq [OF k, of A] by simp
  have unread: "unread node_id s A (unat k)" using A claim unfolding unread_def by blast
  have less: "unread node_id s B i" if "unread node_id s' B i" for B i
    using that assms(6,9) unfolding unread_def by (auto simp: fixed_fields fs_next_def fs_processor_def split: if_splits)
  have read: "\<not> unread node_id s' A (unat k)"
  proof -
    have "n = node_id c" if "fs_base s n = Some A" for n using assms(2) A that unfolding areas_inv_def by blast
    moreover have "unat k < fs_next s (node_id c)" by (rule claims_invD(1) [OF assms(3) claim])
    moreover have "d = c" if "node_id d = node_id c" "claim_of (fs_pc s d) = Some (unat k)" for d
      using claims_invD(2) [OF assms(3) that(2) claim that(1)] .
    moreover have "fill_area (fs_pc s d) \<noteq> Some A" for d using assms(2) A unfolding areas_inv_def by blast
    ultimately show ?thesis using assms(9) unfolding unread_def by (auto simp: fixed_fields fs_next_def fs_processor_def split: if_splits)
  qed
  obtain free where free: "lists_ok (fa_next (fs_heap s)) (fa_first (fs_heap s)) free (fs_live s)"
    "\<And>p. p \<in> owned free (fs_live s) \<Longrightarrow> \<exists>B \<in> set (fs_areas s). \<exists>i. object_at sz B i p \<and> \<not> unread node_id s B i"
    using assms(1) unfolding objects_inv_def by blast
  have in_A: "object_at sz A (unat k) p" if "p \<in> set (objects sz a)" for p using that a k by (simp add: object_at_def)
  have areas: "areas_ok (fs_areas s)" "A \<in> set (fs_areas s)" using assms(2) A unfolding areas_inv_def by blast+
  have new: "p \<notin> owned free (fs_live s)" if "p \<in> set (objects sz a)" for p
    using free(2) [of p] object_place_unique [OF areas _ in_A [OF that] _ assms(10)] unread by blast
  have "lists_ok (fa_next (fs_heap s')) (fa_first (fs_heap s')) (free(c := objects sz a)) (fs_live s')"
    using lists_ok_link [OF free(1) new assms(10,11), of a c] assms(9) by (simp add: fixed_fields)
  moreover have "\<exists>B \<in> set (fs_areas s'). \<exists>i. object_at sz B i p \<and> \<not> unread node_id s' B i" if p: "p \<in> owned (free(c := objects sz a)) (fs_live s')" for p
  proof (cases "p \<in> set (objects sz a)")
    case True
    then show ?thesis using in_A read areas(2) assms(9) by (auto simp: fixed_fields)
  next
    case False
    then have "p \<in> owned free (fs_live s)" using p assms(9) by (auto simp: fixed_fields owned_upd owned_split [of free _ c])
    then show ?thesis using free(2) [of p] less assms(9) by (auto simp: fixed_fields)
  qed
  ultimately show ?thesis unfolding objects_inv_def by blast
qed

lemma objects_step:
  assumes "fixed_step sz node_id True s s'" "objects_inv sz node_id s" "areas_inv s" "claims_inv node_id s" "buffer_inv node_id s"
    "built_inv node_id s" "0 < sz" "sz \<le> chunk_size"
  shows "objects_inv sz node_id s'"
  using assms(1)
proof cases
  case (build n m)
  show ?thesis by (rule objects_same [OF assms(2)])
    (use build fresh_unused(1) [OF assms(3) build(3)] in \<open>auto simp: unread_def fixed_fields fs_next_def split: if_splits\<close>)
next
  case (claim c ph)
  show ?thesis by (rule objects_same [OF assms(2)])
    (use claim claim_value [of ph] in \<open>auto simp: unread_def fixed_fields fs_next_def split: if_splits\<close>)
next
  case (take c k ph a)
  show ?thesis by (rule objects_take [OF assms(2-6) take(2) _ _ take(1) assms(7,8)]) (use take in \<open>simp_all add: fs_buffer_def\<close>)
next
  case (refill c k ph m)
  show ?thesis by (rule objects_same [OF assms(2)])
    (use refill fresh_unused(1) [OF assms(3) refill(7)] in \<open>auto simp: unread_def fixed_fields fs_next_def split: if_splits\<close>)
next
  case (overwrite c m i ph)
  then have "fill_area (fs_pc s c) = Some m" by simp
  then show ?thesis by (intro objects_same [OF assms(2)])
    (use overwrite(1,3) in \<open>auto simp: unread_def fixed_fields fs_next_def split: if_splits\<close>)
next
  case (reset c m i ph)
  then have "fill_area (fs_pc s c) = Some m" by simp
  then show ?thesis by (intro objects_same [OF assms(2)])
    (use reset(1,3) in \<open>auto simp: unread_def fixed_fields fs_next_def split: if_splits\<close>)
next
  case (release c ph)
  show ?thesis by (rule objects_same [OF assms(2)])
    (use release in \<open>auto simp: unread_def fixed_fields fs_next_def split: if_splits\<close>)
next
  case (allocate c m p h)
  note h = core_allocate_first [OF allocate(4,3)]
  show ?thesis
  proof (rule objects_keep [OF assms(2)])
    fix free assume "lists_ok (fa_next (fs_heap s)) (fa_first (fs_heap s)) free (fs_live s)"
    from lists_ok_take [OF this h(1)]
    show "\<exists>free'. lists_ok (fa_next (fs_heap s')) (fa_first (fs_heap s')) free' (fs_live s') \<and> owned free' (fs_live s') \<subseteq> owned free (fs_live s)"
      using allocate(1) h(2) by (simp del: fun_upd_apply) blast
  qed (use allocate(1) h(2) in \<open>auto simp: unread_def fixed_fields fs_next_def fs_processor_def\<close>)
next
  case (free c p)
  show ?thesis
  proof (rule objects_keep [OF assms(2)])
    fix free assume "lists_ok (fa_next (fs_heap s)) (fa_first (fs_heap s)) free (fs_live s)"
    from lists_ok_free [OF this free(3), of c]
    show "\<exists>free'. lists_ok (fa_next (fs_heap s')) (fa_first (fs_heap s')) free' (fs_live s') \<and> owned free' (fs_live s') \<subseteq> owned free (fs_live s)"
      using free(1) by (simp add: core_free_def del: fun_upd_apply) blast
  qed (use free(1) in \<open>auto simp: unread_def fixed_fields fs_next_def fs_processor_def\<close>)
qed (rule objects_same [OF assms(2)], auto simp: unread_def fixed_fields fs_next_def fs_processor_def split: if_splits)+

subsection \<open>Reachable states\<close>

definition fixed_inv :: "nat \<Rightarrow> (nat \<Rightarrow> nat) \<Rightarrow> fixed_state \<Rightarrow> bool" where
  "fixed_inv sz node_id s \<longleftrightarrow> areas_inv s \<and> built_inv node_id s \<and> flag_inv node_id s \<and> claims_inv node_id s \<and> buffer_inv node_id s \<and>
     (0 < sz \<and> sz \<le> chunk_size \<longrightarrow> objects_inv sz node_id s)"

interpretation fixed_system: step_system "\<lambda>s. s = fixed_init" "fixed_step sz node_id True" "fixed_inv sz node_id"
proof unfold_locales
  show "fixed_inv sz node_id s" if "s = fixed_init" for s
    unfolding that fixed_inv_def fixed_init_def areas_inv_def built_inv_def flag_inv_def claims_inv_def buffer_inv_def objects_inv_def
    by (auto simp: areas_ok_def lists_ok_def owned_def fa_empty_def intro: exI [of _ "\<lambda>_. []"])
  show "fixed_inv sz node_id s'" if "fixed_step sz node_id True s s'" "fixed_inv sz node_id s" for s s'
    using that(2) areas_step [OF that(1)] built_step [OF that(1)] flag_step [OF that(1)] claims_step [OF that(1)] buffer_step [OF that(1)]
      objects_step [OF that(1)] unfolding fixed_inv_def by simp
qed

lemma fixed_reachable_inv: "fixed_reachable sz node_id True s \<Longrightarrow> fixed_inv sz node_id s"
  unfolding fixed_reachable_def by (rule fixed_system.reachable_inv) simp_all

lemma fixed_start: "fixed_reachable sz node_id careful fixed_init"
  by (simp add: fixed_reachable_def)

lemma fixed_next: "fixed_reachable sz node_id careful s \<Longrightarrow> fixed_step sz node_id careful s s' \<Longrightarrow> fixed_reachable sz node_id careful s'"
  by (simp add: fixed_reachable_def)

subsection \<open>One core per region\<close>

text \<open>
  When no two cores share a processor heap, nothing has to be required: the only core of the region
  refills the buffer when it has read all of it, so every interleaving is a careful one.
\<close>

fun sole_ok :: "fill_pc \<Rightarrow> nat \<Rightarrow> bool \<Rightarrow> bool" where
  "sole_ok (Claimed k) n f = (n = Suc (unat k) \<and> unat k \<le> chunks \<and> \<not> f)"
| "sole_ok (Filling m i) n f = (n = Suc chunks \<and> f)"
| "sole_ok Stored n f = (n = 0 \<and> f)"
| "sole_ok Waiting n f = False"
| "sole_ok _ n f = (n \<le> chunks \<and> \<not> f)"

definition sole_inv :: "(nat \<Rightarrow> nat) \<Rightarrow> fixed_state \<Rightarrow> bool" where
  "sole_inv node_id s \<longleftrightarrow> (\<forall>c. fs_base s (node_id c) \<noteq> None \<longrightarrow>
     sole_ok (fs_pc s c) (fs_next s (node_id c)) (fs_flag s (node_id c)) \<and> length (fs_buffer s (node_id c)) = chunks)"

lemma sole_inv_other:
  assumes "sole_inv node_id s" "inj node_id" "\<And>d. d \<noteq> c \<Longrightarrow> fs_pc s' d = fs_pc s d" "\<And>n. n \<noteq> node_id c \<Longrightarrow> fs_processor s' n = fs_processor s n"
    "\<And>n. n \<noteq> node_id c \<Longrightarrow> fs_base s' n = fs_base s n"
    "sole_ok (fs_pc s' c) (fs_next s' (node_id c)) (fs_flag s' (node_id c))" "length (fs_buffer s' (node_id c)) = chunks"
  shows "sole_inv node_id s'"
  unfolding sole_inv_def
proof (intro allI impI)
  fix d assume "fs_base s' (node_id d) \<noteq> None"
  then show "sole_ok (fs_pc s' d) (fs_next s' (node_id d)) (fs_flag s' (node_id d)) \<and> length (fs_buffer s' (node_id d)) = chunks"
    using assms inj_eq [OF assms(2), of d c] by (cases "d = c") (auto simp: sole_inv_def fs_next_def fs_flag_def fs_buffer_def)
qed

lemma sole_at:
  assumes "sole_inv node_id s" "built_inv node_id s" "fs_pc s c \<noteq> Ready"
  shows "sole_ok (fs_pc s c) (fs_next s (node_id c)) (fs_flag s (node_id c))" "length (fs_buffer s (node_id c)) = chunks"
  using assms unfolding sole_inv_def built_inv_def by blast+

lemmas sole_fields = fixed_fields fs_next_def fs_flag_def fs_buffer_def

lemma sole_step_is_careful:
  assumes "fixed_step sz node_id careful s s'" "inj node_id" "sole_inv node_id s" "built_inv node_id s"
  shows "fixed_step sz node_id True s s'"
  using assms(1)
proof cases
  case (claim c ph)
  have "fs_next s (node_id c) \<le> chunks" using sole_at(1) [OF assms(3,4), of c] claim(2) by simp
  then have "ph_next_free_chunk ph \<noteq> - 1"
    using claim(3) by (auto simp: fs_next_def chunks_def unsigned_minus_1_eq_mask mask_eq_exp_minus_1)
  then show ?thesis using claim by (auto intro: fixed_step.claim)
next
  case (refill c k ph m)
  have "fs_next s (node_id c) = Suc (unat k)" "unat k = chunks"
    using sole_at [OF assms(3,4), of c] refill(2,3,4) by (auto simp: fs_buffer_def)
  then have "refill_is_safe node_id (node_id c) s"
    using refill(2) inj_eq [OF assms(2)] by (auto simp: refill_is_safe_def fs_next_def)
  then show ?thesis using refill by (auto intro: fixed_step.refill)
qed (auto intro: fixed_step.intros)

lemma sole_inv_step:
  assumes "fixed_step sz node_id careful s s'" "inj node_id" "sole_inv node_id s" "built_inv node_id s"
  shows "sole_inv node_id s'"
proof -
  note other = sole_inv_other [OF assms(3,2)] and at = sole_at [OF assms(3,4)]
  from sole_step_is_careful [OF assms] show ?thesis
  proof cases
    case (build n m)
    show ?thesis using assms(3,4) build(1,2)
      by (auto simp: sole_inv_def built_inv_def sole_fields ph_move_def ph_new_def ph_fill_buffer_def ph_default_def)
  next
    case (call c)
    then show ?thesis using assms(3) by (intro other [of c]) (auto simp: sole_inv_def sole_fields)
  next
    case (claim c ph)
    then show ?thesis using at [of c] claim_value [of ph] by (intro other [of c]) (auto simp: sole_fields)
  next
    case (take c k ph a)
    then show ?thesis using at [of c] by (intro other [of c]) (auto simp: sole_fields fs_processor_def)
  next
    case (refill c k ph m)
    then show ?thesis using at [of c] by (intro other [of c]) (auto simp: sole_fields)
  next
    case (wait c k ph)
    then show ?thesis using at [of c] by (simp add: fs_flag_def)
  next
    case (wake c)
    then show ?thesis using at [of c] by simp
  next
    case (overwrite c m i ph)
    then show ?thesis using at [of c] by (intro other [of c]) (auto simp: sole_fields)
  next
    case (reset c m i ph)
    then show ?thesis using at [of c] by (intro other [of c]) (auto simp: sole_fields)
  next
    case (release c ph)
    then show ?thesis using at [of c] by (intro other [of c]) (auto simp: sole_fields)
  next
    case (allocate c m p h)
    then show ?thesis using assms(3) core_allocate_first [OF allocate(4,3)] by (simp add: sole_inv_def sole_fields fs_processor_def)
  next
    case (free c p)
    then show ?thesis using assms(3) by (simp add: sole_inv_def sole_fields fs_processor_def core_free_def)
  qed
qed

lemma sole_core_is_careful:
  assumes "fixed_reachable sz node_id careful s" "inj node_id"
  shows "fixed_reachable sz node_id True s"
proof -
  have "fixed_reachable sz node_id True s \<and> sole_inv node_id s \<and> built_inv node_id s"
    using assms(1) unfolding fixed_reachable_def [of _ _ careful]
  proof (induction rule: rtranclp_induct)
    case base
    then show ?case using fixed_start by (simp add: sole_inv_def built_inv_def fixed_init_def)
  next
    case (step s s')
    then show ?case
      using sole_step_is_careful [OF step(2) assms(2)] sole_inv_step [OF step(2) assms(2)] built_step [OF step(2)] fixed_next by blast
  qed
  then show ?thesis by blast
qed

subsection \<open>Properties\<close>

lemma owned_apart:
  assumes "fixed_inv sz node_id s" "0 < sz" "sz \<le> chunk_size" "lists_ok (fa_next (fs_heap s)) (fa_first (fs_heap s)) free (fs_live s)"
    "\<forall>p \<in> owned free (fs_live s). \<exists>A \<in> set (fs_areas s). \<exists>i. object_at sz A i p \<and> \<not> unread node_id s A i"
    "p \<in> owned free (fs_live s)" "q \<in> owned free (fs_live s)" "p \<noteq> q"
  shows "p + sz \<le> q \<or> q + sz \<le> p"
proof -
  obtain A i B j where "A \<in> set (fs_areas s)" "object_at sz A i p" "B \<in> set (fs_areas s)" "object_at sz B j q" using assms(5-7) by blast
  moreover have "areas_ok (fs_areas s)" using assms(1) by (simp add: fixed_inv_def areas_inv_def)
  ultimately show ?thesis using objects_apart assms(8) by blast
qed

text \<open>
  C10: Objects of the task allocator never overlap: in every interleaving when each core has a NUMA
  region of its own; and when cores of a region allocate concurrently from its processor heap, in every
  interleaving of their accesses to its counter, its flag and its buffer in which no refill of the
  buffer does harm: the counter does not run over its 8 bits, and a core starts a refill only while the
  counter is still beyond the buffer and no core of the region has claimed a chunk that it still has to
  read. Then two live objects never overlap,
  no free object overlaps a live one (so the next object a core hands out does not), and the lists of
  two cores share no object, wherever objects are freed. (For cores that share a region the code does
  not enforce these conditions: \<open>chunk_handed_out_twice\<close> below.)
\<close>

theorem fixed_allocations_never_overlap:
  assumes "fixed_reachable sz node_id careful s" "careful \<or> inj node_id" "0 < sz" "sz \<le> chunk_size"
  shows "\<exists>free. (\<forall>c. chain (fa_next (fs_heap s)) (fa_first (fs_heap s) c) (free c) None \<and> distinct (free c) \<and> set (free c) \<inter> fs_live s = {}) \<and>
    (\<forall>c d. c \<noteq> d \<longrightarrow> set (free c) \<inter> set (free d) = {}) \<and>
    (\<forall>p q. p \<in> fs_live s \<union> (\<Union>c. set (free c)) \<and> q \<in> fs_live s \<union> (\<Union>c. set (free c)) \<and> p \<noteq> q \<longrightarrow> p + sz \<le> q \<or> q + sz \<le> p)"
proof -
  have "fixed_reachable sz node_id True s" using assms(1,2) sole_core_is_careful by (cases careful) auto
  then have inv: "fixed_inv sz node_id s" by (rule fixed_reachable_inv)
  then obtain free where free: "lists_ok (fa_next (fs_heap s)) (fa_first (fs_heap s)) free (fs_live s)"
    "\<forall>p \<in> owned free (fs_live s). \<exists>A \<in> set (fs_areas s). \<exists>i. object_at sz A i p \<and> \<not> unread node_id s A i"
    using assms(3,4) unfolding fixed_inv_def objects_inv_def by blast
  have "p + sz \<le> q \<or> q + sz \<le> p" if "p \<in> fs_live s \<union> (\<Union>c. set (free c))" "q \<in> fs_live s \<union> (\<Union>c. set (free c))" "p \<noteq> q" for p q
    by (rule owned_apart [OF inv assms(3,4) free _ _ that(3)]) (use that(1,2) in \<open>auto simp: owned_def\<close>)
  then show ?thesis using free(1) unfolding lists_ok_def by blast
qed

text \<open>
  Concrete schedules, in one NUMA region. \<open>seen\<close>: some state with this counter, flag, buffer, memory, and
  with these positions and first free objects of the cores is reached.
\<close>

definition looks :: "fixed_state \<Rightarrow> u8 \<Rightarrow> bool \<Rightarrow> chunk list \<Rightarrow> addr list \<Rightarrow> (nat \<Rightarrow> fill_pc) \<Rightarrow> (nat \<Rightarrow> addr option) \<Rightarrow> bool" where
  "looks s nxt flag buf areas P F \<longleftrightarrow> ph_next_free_chunk (fs_processor s 0) = nxt \<and> ph_fill_buffer_flag (fs_processor s 0) = flag \<and>
     ph_free_chunk_buffer (fs_processor s 0) = buf \<and> fs_areas s = areas \<and> fs_base s 0 \<noteq> None \<and> fs_pc s = P \<and> fa_first (fs_heap s) = F"

definition seen :: "nat \<Rightarrow> bool \<Rightarrow> u8 \<Rightarrow> bool \<Rightarrow> chunk list \<Rightarrow> addr list \<Rightarrow> (nat \<Rightarrow> fill_pc) \<Rightarrow> (nat \<Rightarrow> addr option) \<Rightarrow> bool" where
  "seen sz careful nxt flag buf areas P F \<longleftrightarrow> (\<exists>s. fixed_reachable sz (\<lambda>_. 0) careful s \<and> looks s nxt flag buf areas P F)"

lemma seen_step:
  assumes "seen sz careful nxt flag buf areas P F"
    "\<And>s. looks s nxt flag buf areas P F \<Longrightarrow> \<exists>s'. fixed_step sz (\<lambda>_. 0) careful s s' \<and> looks s' nxt' flag' buf' areas' P' F'"
  shows "seen sz careful nxt' flag' buf' areas' P' F'"
  using assms fixed_next unfolding seen_def by blast

lemma seen_build: "seen sz careful 0 False (map (chunk_at m) [0..<chunks]) [m] (\<lambda>_. Ready) (\<lambda>_. None)"
  unfolding seen_def
  by (intro exI conjI, rule fixed_next [OF fixed_start build [of fixed_init 0 m]])
    (auto simp: looks_def fixed_init_def fresh_area_def fixed_fields fa_empty_def ph_move_def ph_new_def ph_fill_buffer_def ph_default_def
      with_processor_def fs_processor_def)

lemma seen_call:
  assumes "seen sz careful nxt flag buf areas P F" "P c = Ready" "F c = None"
  shows "seen sz careful nxt flag buf areas (P(c := Calling)) F"
  by (rule seen_step [OF assms(1)], intro exI conjI, rule call [of _ c])
    (use assms(2-) in \<open>simp_all add: looks_def fixed_fields fs_processor_def core_link_def\<close>)

lemma seen_claim:
  assumes "seen sz careful nxt flag buf areas P F" "P c = Calling" "careful \<longrightarrow> nxt \<noteq> - 1"
  shows "seen sz careful (nxt + 1) flag buf areas (P(c := Claimed nxt)) F"
  by (rule seen_step [OF assms(1)], intro exI conjI, rule claim [of _ c, OF _ refl])
    (use assms(2-) in \<open>simp_all add: looks_def fixed_fields fs_processor_def core_link_def\<close>)

lemma seen_take:
  assumes "seen sz careful nxt flag buf areas P F" "P c = Claimed k" "unat k < length buf" "ch_memory (buf ! unat k) = Some a"
  shows "seen sz careful nxt flag buf areas (P(c := Ready)) (F(c := Some a))"
  by (rule seen_step [OF assms(1)], intro exI conjI, rule take [of _ c k, OF _ refl])
    (use assms(2-) in \<open>simp_all add: looks_def fixed_fields fs_processor_def core_link_def\<close>)

text \<open>A chunk of one object, which is handed out at once.\<close>

lemma seen_use:
  assumes "seen chunk_size careful nxt flag buf areas P F" "P c = Claimed k" "unat k < length buf" "ch_memory (buf ! unat k) = Some a"
  shows "seen chunk_size careful nxt flag buf areas (P(c := Ready)) (F(c := None))"
proof -
  obtain s where s: "fixed_reachable chunk_size (\<lambda>_. 0) careful s" "looks s nxt flag buf areas P F" using assms(1) unfolding seen_def by blast
  let ?s = "at_pc c Ready s\<lparr>fs_heap := core_link chunk_size a c (fs_heap s)\<rparr>"
  have r: "fixed_reachable chunk_size (\<lambda>_. 0) careful ?s"
    by (rule fixed_next [OF s(1) take [of s c k, OF _ refl]]) (use s(2) assms(2-4) in \<open>simp_all add: looks_def\<close>)
  have a: "core_allocate chunk_size 0 0 c (fs_heap ?s) = Some (a, (core_link chunk_size a c (fs_heap s))\<lparr>fa_first := (fa_first (fs_heap s))(c := None)\<rparr>)"
    by (simp add: core_allocate_def core_link_def count_objects_def chunk_size_def)
  show ?thesis
    unfolding seen_def
    by (intro exI conjI, rule fixed_next [OF r allocate [OF _ _ a]])
      (use s(2) in \<open>simp_all add: looks_def fixed_fields fs_processor_def core_link_def at_pc_def\<close>)
qed

lemma seen_refill:
  assumes "seen sz False nxt False buf areas P F" "P c = Claimed k" "length buf \<le> unat k" "fresh_area areas m"
  shows "seen sz False nxt True buf (m # areas) (P(c := Filling m 0)) F"
  by (rule seen_step [OF assms(1)], intro exI conjI, rule refill [of _ c k, OF _ refl])
    (use assms(2-) in \<open>simp_all add: looks_def fixed_fields fs_processor_def core_link_def\<close>)

lemma seen_overwrite:
  assumes "seen sz careful nxt flag buf areas P F" "P c = Filling m i" "i < length buf"
  shows "seen sz careful nxt flag (buf[i := chunk_at m i]) areas (P(c := Filling m (Suc i))) F"
  by (rule seen_step [OF assms(1)], intro exI conjI, rule overwrite [of _ c m i, OF _ refl])
    (use assms(2-) in \<open>simp_all add: looks_def fixed_fields fs_processor_def core_link_def\<close>)

lemma seen_reset:
  assumes "seen sz careful nxt flag buf areas P F" "P c = Filling m i" "length buf \<le> i"
  shows "seen sz careful 0 flag buf areas (P(c := Stored)) F"
  by (rule seen_step [OF assms(1)], intro exI conjI, rule reset [of _ c m i, OF _ refl])
    (use assms(2-) in \<open>simp_all add: looks_def fixed_fields fs_processor_def core_link_def\<close>)

lemma seen_release:
  assumes "seen sz careful nxt flag buf areas P F" "P c = Stored"
  shows "seen sz careful nxt False buf areas (P(c := Calling)) F"
  by (rule seen_step [OF assms(1)], intro exI conjI, rule release [of _ c, OF _ refl])
    (use assms(2-) in \<open>simp_all add: looks_def fixed_fields fs_processor_def core_link_def\<close>)

lemma seen_overwrite_all:
  assumes "seen sz careful nxt flag buf areas P F" "P c = Filling m i" "i \<le> length buf"
  shows "seen sz careful nxt flag (take i buf @ map (chunk_at m) [i..<length buf]) areas (P(c := Filling m (length buf))) F"
  using assms
proof (induction "length buf - i" arbitrary: i buf P)
  case 0
  then have "i = length buf" "P(c := Filling m (length buf)) = P" by auto
  then show ?case using "0.prems"(1) by simp
next
  case (Suc n)
  then have i: "i < length buf" by simp
  from Suc.hyps(1) [OF _ seen_overwrite [OF Suc.prems(1,2) i], of "Suc i"] Suc.hyps(2) i
  show ?case by (simp add: take_Suc_conv_app_nth upt_conv_Cons)
qed

text \<open>
  A complete refill, from the claim beyond the buffer to the next attempt. The other cores do nothing.
\<close>

lemma seen_refilled:
  assumes "seen sz False nxt False buf areas P F" "P c = Claimed k" "length buf \<le> unat k" "fresh_area areas m"
  shows "seen sz False 0 False (map (chunk_at m) [0..<length buf]) (m # areas) (P(c := Calling)) F"
proof -
  have "seen sz False nxt True (map (chunk_at m) [0..<length buf]) (m # areas) (P(c := Filling m (length buf))) F"
    using seen_overwrite_all [OF seen_refill [OF assms], of c m 0] by simp
  from seen_release [OF seen_reset [OF this, of c m "length buf"], of c] show ?thesis by simp
qed

text \<open>One core uses up the buffer.\<close>

lemma seen_drained:
  assumes "k \<le> chunks"
  shows "seen chunk_size careful (of_nat k) False (map (chunk_at m) [0..<chunks]) [m] (\<lambda>_. Ready) (\<lambda>_. None)"
  using assms
proof (induction k)
  case 0
  then show ?case using seen_build by simp
next
  case (Suc k)
  have k: "k < chunks" "unat (of_nat k :: u8) = k" using Suc.prems by (simp_all add: chunks_def unat_of_nat)
  have "(of_nat k :: u8) \<noteq> - 1"
  proof
    assume "(of_nat k :: u8) = - 1"
    then have "k = 255" using k(2) by (simp add: unsigned_minus_1_eq_mask mask_eq_exp_minus_1)
    then show False using k(1) by (simp add: chunks_def)
  qed
  then have "seen chunk_size careful (of_nat k + 1) False (map (chunk_at m) [0..<chunks]) [m] ((\<lambda>_. Ready)(0 := Claimed (of_nat k))) (\<lambda>_. None)"
    using seen_claim [OF seen_call [OF Suc.IH, of 0], of 0] k(1) by simp
  from seen_use [OF this, of 0 "of_nat k"] k chunk_at_eq [OF k(1), of m] show ?case by (simp add: add.commute fun_upd_idem)
qed

text \<open>
  The defect: both cores find the buffer used up; the first one refills it; the second one refills it
  again, on the grounds of its old value of the counter. The first core takes a chunk that the second
  one has just written, then the second one resets the counter: the chunk is handed out again.
\<close>

lemma chunk_handed_out_twice:
  "\<exists>s a. fixed_reachable chunk_size (\<lambda>_. 0) False s \<and> fa_first (fs_heap s) 0 = Some a \<and> fa_first (fs_heap s) 1 = Some a"
proof -
  let ?B = "\<lambda>m. map (chunk_at m) [0..<chunks]" and ?N = "\<lambda>_. None" and ?m = "area_size" and ?n = "2 * area_size"
  have n: "of_nat chunks = (128 :: u8)" "chunks \<le> unat (128 :: u8)" "chunks \<le> unat (129 :: u8)" "0 < chunks" by (simp_all add: chunks_def)
  have idle: "(\<lambda>_. Ready)(Suc 0 := p, 0 := Ready) = (\<lambda>_. Ready)(Suc 0 := p)" "(\<lambda>_. Ready)(Suc 0 := Ready) = (\<lambda>_. Ready)" for p by auto
  have fresh: "fresh_area [0] ?m" "fresh_area [?m, 0] ?n" by (simp_all add: fresh_area_def)
  have "seen chunk_size False 128 False (?B 0) [0] (\<lambda>_. Ready) ?N" using seen_drained [of chunks False 0] n by simp
  from seen_claim [OF seen_call [OF seen_claim [OF seen_call [OF this, of 0], of 0], of 1], of 1]
  have "seen chunk_size False 130 False (?B 0) [0] ((\<lambda>_. Ready)(0 := Claimed 128, 1 := Claimed 129)) ?N" by simp
  from seen_refilled [OF this, of 0 128, OF _ _ fresh(1)]
  have "seen chunk_size False 0 False (?B ?m) [?m, 0] ((\<lambda>_. Ready)(0 := Calling, 1 := Claimed 129)) ?N" using n by (simp add: fun_upd_twist)
  from seen_overwrite [OF seen_refill [OF this, of 1 129, OF _ _ fresh(2)], of 1 ?n 0]
  have "seen chunk_size False 0 True ((?B ?m)[0 := chunk_at ?n 0]) [?n, ?m, 0] ((\<lambda>_. Ready)(0 := Calling, 1 := Filling ?n 1)) ?N"
    using n by simp
  from seen_take [OF seen_claim [OF this, of 0], of 0 0 ?n]
  have "seen chunk_size False 1 True ((?B ?m)[0 := chunk_at ?n 0]) [?n, ?m, 0] ((\<lambda>_. Ready)(1 := Filling ?n 1)) (?N(0 := Some ?n))"
    using n by (simp add: chunk_at_def idle)
  moreover have "take 1 ((?B ?m)[0 := chunk_at ?n 0]) @ map (chunk_at ?n) [1..<chunks] = ?B ?n"
    using n(4) by (simp add: upt_conv_Cons take_Suc_conv_app_nth)
  ultimately have "seen chunk_size False 1 True (?B ?n) [?n, ?m, 0] ((\<lambda>_. Ready)(1 := Filling ?n chunks)) (?N(0 := Some ?n))"
    using seen_overwrite_all [of chunk_size False 1 True "(?B ?m)[0 := chunk_at ?n 0]" "[?n, ?m, 0]" "(\<lambda>_. Ready)(1 := Filling ?n 1)"
      "?N(0 := Some ?n)" 1 ?n 1] n(4) by simp
  from seen_claim [OF seen_release [OF seen_reset [OF this, of 1 ?n chunks], of 1], of 1]
  have "seen chunk_size False 1 False (?B ?n) [?n, ?m, 0] ((\<lambda>_. Ready)(1 := Claimed 0)) (?N(0 := Some ?n))" by simp
  from seen_take [OF this, of 1 0 ?n]
  have "seen chunk_size False 1 False (?B ?n) [?n, ?m, 0] (\<lambda>_. Ready) (?N(0 := Some ?n, 1 := Some ?n))"
    using n by (simp add: chunk_at_def idle)
  then show ?thesis unfolding seen_def looks_def by (elim exE conjE) (intro exI conjI, assumption, simp_all)
qed

text \<open>Cores 3 and 5 have taken a chunk each, interleaved.\<close>

lemma fixed_allocations_never_overlap_witness:
  "\<exists>s free. fixed_reachable 64 (\<lambda>_. 0) True s \<and> fa_first (fs_heap s) 3 \<noteq> None \<and> fa_first (fs_heap s) 5 \<noteq> None \<and>
     set (free 3) \<inter> set (free 5) = {} \<and> chain (fa_next (fs_heap s)) (fa_first (fs_heap s) 3) (free (3 :: nat)) None"
proof -
  let ?B = "map (chunk_at 4096) [0..<chunks]" and ?N = "\<lambda>_. None"
  have n: "0 < chunks" "Suc 0 < chunks" by (simp_all add: chunks_def)
  have idle: "(\<lambda>_. Ready)(3 := Ready, 5 := Ready) = (\<lambda>_. Ready)" by auto
  from seen_claim [OF seen_claim [OF seen_call [OF seen_call [OF seen_build [of 64 True 4096], of 3], of 5], of 5], of 3]
  have "seen 64 True 2 False ?B [4096] ((\<lambda>_. Ready)(3 := Claimed 1, 5 := Claimed 0)) ?N" by (simp add: fun_upd_twist)
  from seen_take [OF seen_take [OF this, of 3 1 "4096 + chunk_size"], of 5 0 4096]
  have "seen 64 True 2 False ?B [4096] (\<lambda>_. Ready) (?N(3 := Some (4096 + chunk_size), 5 := Some 4096))"
    using n by (simp add: chunk_at_def chunk_size_def idle fun_upd_twist)
  then obtain s where s: "fixed_reachable 64 (\<lambda>_. 0) True s" "fa_first (fs_heap s) = ?N(3 := Some (4096 + chunk_size), 5 := Some 4096)"
    unfolding seen_def looks_def by blast
  obtain free where free: "\<And>c. chain (fa_next (fs_heap s)) (fa_first (fs_heap s) c) (free c) None"
    "\<And>c d. c \<noteq> d \<Longrightarrow> set (free c) \<inter> set (free d) = {}"
    using fixed_allocations_never_overlap [OF s(1)] by (auto simp: chunk_size_def)
  have "fa_first (fs_heap s) 3 \<noteq> None" "fa_first (fs_heap s) 5 \<noteq> None" using s(2) by simp_all
  then show ?thesis using s(1) free(1) [of 3] free(2) [of 3 5] by (intro exI [of _ s] exI [of _ free] conjI) simp_all
qed

end
