(* ===== verification/GlobalHeapModel.thy ===== *)
theory GlobalHeapModel
  imports Alignment
begin

section \<open>The global heap\<close>

text \<open>
  src/mx/memory/global_heap.h: the interface to the regional heaps of the operating system, one per
  NUMA region. These heaps are not part of the program: \<open>alloc\<close> and \<open>free_at\<close> stand for their
  operations; \<open>free_at st node\<close> is None when the heap of that region throws Invalid_dataspace because
  the memory is not its own. The lemmas are about the loop that looks for the right heap.
\<close>

definition local_allocate :: "(nat \<Rightarrow> nat \<Rightarrow> 's \<Rightarrow> addr \<times> 's) \<Rightarrow> nat \<Rightarrow> nat \<Rightarrow> 's \<Rightarrow> addr \<times> 's" where
  "local_allocate alloc numa_node_id sz st = alloc numa_node_id sz st"

fun local_free_loop :: "nat \<Rightarrow> ('s \<Rightarrow> nat \<Rightarrow> 's option) \<Rightarrow> nat \<Rightarrow> nat \<Rightarrow> nat \<Rightarrow> 's \<Rightarrow> ('s \<times> bool) option" where
  "local_free_loop 0 free_at max_node_id node_id next_try st = None"
| "local_free_loop (Suc fuel) free_at max_node_id node_id next_try st =
     (case free_at st node_id of
        Some st' \<Rightarrow>
          if next_try \<noteq> 0 then local_free_loop fuel free_at max_node_id node_id next_try st' else Some (st', True)
      | None \<Rightarrow>
          (let node_id' = (if node_id = next_try then (next_try + 1) mod (max_node_id + 1) else next_try);
               next_try' = (next_try + 1) mod (max_node_id + 1)
           in if next_try' \<noteq> 0 then local_free_loop fuel free_at max_node_id node_id' next_try' st
              else Some (st, False)))"

text \<open>The state after the loop, and whether the memory goes to std::free at last.\<close>

definition local_free :: "nat \<Rightarrow> ('s \<Rightarrow> nat \<Rightarrow> 's option) \<Rightarrow> nat \<Rightarrow> nat \<Rightarrow> 's \<Rightarrow> ('s \<times> bool) option" where
  "local_free fuel free_at max_node_id node_id st =
     map_option (\<lambda>(st', success). (st', \<not> success)) (local_free_loop fuel free_at max_node_id node_id 0 st)"

definition allocate_cache_line_aligned :: "(nat \<Rightarrow> nat \<Rightarrow> addr option) \<Rightarrow> nat \<Rightarrow> addr option" where
  "allocate_cache_line_aligned memalign sz = memalign 64 (next_multiple sz 64)"

lemma local_free_first_try:
  "free_at st node_id = Some st' \<Longrightarrow> local_free (Suc fuel) free_at max_node_id node_id st = Some (st', False)"
  by (simp add: local_free_def)

text \<open>When no regional heap knows the memory the loop ends after one attempt per region.\<close>

lemma local_free_loop_unknown:
  assumes "\<forall>node. free_at st node = None" "next_try \<le> max_node_id" "max_node_id - next_try < fuel"
  shows "local_free_loop fuel free_at max_node_id node_id next_try st = Some (st, False)"
  using assms(2,3)
proof (induction fuel arbitrary: node_id next_try)
  case (Suc fuel)
  show ?case
  proof (cases "next_try = max_node_id")
    case False
    then have "(next_try + 1) mod (max_node_id + 1) = next_try + 1" using Suc.prems(1) by simp
    then show ?thesis using Suc.prems False assms(1) Suc.IH [of "next_try + 1"] by (simp add: Let_def)
  qed (simp add: assms(1))
qed simp

text \<open>
  After a first attempt that threw, a successful one does not leave the loop: next_try is not 0.
  A heap that accepts the memory again and again keeps the loop running forever.
\<close>

lemma local_free_never_returns:
  assumes "free_at st 0 = None" "\<And>st'. free_at st' 1 = Some st'" "0 < max_node_id"
  shows "local_free fuel free_at max_node_id 0 st = None"
proof -
  have "local_free_loop n free_at max_node_id 1 1 st' = None" for n st'
    by (induction n arbitrary: st') (simp_all add: assms(2) [simplified])
  then show ?thesis using assms(1,3) by (cases fuel) (simp_all add: local_free_def)
qed

end
