(* ===== verification/HashTable.thy ===== *)
theory HashTable
  imports Alignment
begin

section \<open>The hash table of the join\<close>

text \<open>
  src/application/hashjoin_benchmark/inline_hashtable.h, for the key and value types of the join
  (std::uint32_t and std::size_t). Entries follow the header in memory; an entry whose key is the
  largest key is free. Collisions are resolved by linear probing, without a bound on the number of
  slots that are looked at: the loops take fuel, and the lemmas give the fuel that is enough.

  The table refines a map: insert is an update and get a lookup, as long as one slot stays free.
\<close>

record hashtable =
  ht_slots :: u64
  ht_entries :: "(u32 \<times> u64) list"

definition sizeof_hashtable :: nat where
  "sizeof_hashtable = 8"

definition sizeof_entry :: nat where
  "sizeof_entry = 16"

definition entry_default :: "u32 \<times> u64" where
  "entry_default = (- 1, 0)"

definition needed_bytes :: "nat \<Rightarrow> nat option" where
  "needed_bytes slots = do { n \<leftarrow> next_power_of_two slots; Some ((sizeof_hashtable + sizeof_entry * n) mod 2 ^ 64) }"

text \<open>The loop of the constructor counts with 32 bits, so it does not end for 2^32 slots or more.\<close>

definition hashtable_new :: "nat \<Rightarrow> hashtable option" where
  "hashtable_new sz =
     (let slots = ((sz + 2 ^ 64 - sizeof_hashtable) mod 2 ^ 64) div sizeof_entry
      in if slots < 2 ^ 32 then Some \<lparr>ht_slots = of_nat slots, ht_entries = replicate slots entry_default\<rparr> else None)"

definition ht_hash :: "u32 \<Rightarrow> u64" where
  "ht_hash key =
     (let k1 = key XOR drop_bit 16 key;
          k2 = k1 * 0x85ebca6b;
          k3 = k2 XOR drop_bit 13 k2;
          k4 = k3 * 0xc2b2ae35;
          k5 = k4 XOR drop_bit 16 k4
      in ucast k5)"

fun ht_insert_loop :: "nat \<Rightarrow> u32 \<Rightarrow> u64 \<Rightarrow> u64 \<Rightarrow> hashtable \<Rightarrow> hashtable option" where
  "ht_insert_loop 0 key val index t = None"
| "ht_insert_loop (Suc fuel) key val index t =
     (let i = index AND (ht_slots t - 1) in do {
        entry \<leftarrow> arr_get (ht_entries t) (unat i);
        if fst entry \<noteq> key \<and> fst entry \<noteq> - 1 then ht_insert_loop fuel key val (i + 1) t
        else Some (t\<lparr>ht_entries := (ht_entries t)[unat i := (key, val)]\<rparr>)
      })"

definition ht_insert :: "nat \<Rightarrow> u32 \<Rightarrow> u64 \<Rightarrow> hashtable \<Rightarrow> hashtable option" where
  "ht_insert fuel key val t = ht_insert_loop fuel key val (ht_hash key) t"

fun ht_get_loop :: "nat \<Rightarrow> u32 \<Rightarrow> u64 \<Rightarrow> hashtable \<Rightarrow> u64 option" where
  "ht_get_loop 0 key index t = None"
| "ht_get_loop (Suc fuel) key index t =
     (let i = index AND (ht_slots t - 1) in do {
        entry \<leftarrow> arr_get (ht_entries t) (unat i);
        if fst entry = key then Some (snd entry)
        else if fst entry = - 1 then Some (- 1)
        else ht_get_loop fuel key (i + 1) t
      })"

definition ht_get :: "nat \<Rightarrow> u32 \<Rightarrow> hashtable \<Rightarrow> u64 option" where
  "ht_get fuel key t = ht_get_loop fuel key (ht_hash key) t"

subsection \<open>Probe sequences\<close>

definition ht_shape :: "nat \<Rightarrow> hashtable \<Rightarrow> bool" where
  "ht_shape m t \<longleftrightarrow> m < 32 \<and> ht_slots t = 2 ^ m \<and> length (ht_entries t) = 2 ^ m"

definition ht_key :: "hashtable \<Rightarrow> nat \<Rightarrow> u32" where
  "ht_key t i = fst (ht_entries t ! i)"

definition probe :: "nat \<Rightarrow> u32 \<Rightarrow> nat \<Rightarrow> nat" where
  "probe m key j = (unat (ht_hash key) + j) mod 2 ^ m"

lemma unat_and_slots:
  assumes "ht_shape m t"
  shows "unat (w AND (ht_slots t - 1)) = unat w mod 2 ^ m"
proof -
  have "w AND (ht_slots t - 1) = take_bit m w" using assms by (simp add: ht_shape_def take_bit_eq_mask mask_eq_exp_minus_1)
  then have "unat (w AND (ht_slots t - 1)) = take_bit m (unat w)" by (simp only: unsigned_take_bit_eq)
  then show ?thesis by (simp only: take_bit_eq_mod)
qed

text \<open>The next index that is looked at, before it is masked again.\<close>

lemma next_index:
  assumes "ht_shape m t"
  shows "(unat ((w AND (ht_slots t - 1)) + 1) + i) mod 2 ^ m = (unat w + Suc i) mod 2 ^ m"
proof -
  have "unat w mod 2 ^ m < 2 ^ m" by simp
  moreover have "(2 :: nat) ^ m \<le> 2 ^ 32" using assms by (intro power_increasing) (auto simp: ht_shape_def)
  moreover have "(2 :: nat) ^ 32 + 1 < 2 ^ 64" by simp
  ultimately have "unat w mod 2 ^ m + 1 < 2 ^ 64" by linarith
  then have "unat (w AND (ht_slots t - 1)) + 1 < 2 ^ 64" by (simp only: unat_and_slots [OF assms])
  then have "unat ((w AND (ht_slots t - 1)) + 1) = unat w mod 2 ^ m + 1"
    by (simp add: unat_and_slots [OF assms, symmetric] unat_word_ariths)
  then show ?thesis by (simp add: mod_add_left_eq [symmetric] mod_Suc_eq) (metis mod_add_left_eq mod_Suc_eq)
qed

text \<open>
  Both loops stop at the first slot of the probe sequence that holds the key or is free.
\<close>

lemma ht_insert_loop_stops:
  assumes "ht_shape m t" "\<forall>i<d. ht_key t ((unat index + i) mod 2 ^ m) \<notin> {key, - 1}"
    "ht_key t ((unat index + d) mod 2 ^ m) \<in> {key, - 1}" "d < fuel"
  shows "ht_insert_loop fuel key val index t =
    Some (t\<lparr>ht_entries := (ht_entries t)[(unat index + d) mod 2 ^ m := (key, val)]\<rparr>)"
  using assms(2-4)
proof (induction d arbitrary: fuel index)
  case 0
  then obtain f where "fuel = Suc f" by (cases fuel) auto
  then show ?case using 0 assms(1) unat_and_slots [OF assms(1), of index]
    by (auto simp: Let_def ht_key_def arr_get_def ht_shape_def)
next
  case (Suc d)
  then obtain f where f: "fuel = Suc f" by (cases fuel) auto
  let ?w = "(index AND (ht_slots t - 1)) + 1"
  have first: "ht_key t (unat index mod 2 ^ m) \<notin> {key, - 1}" using Suc.prems(1) by (metis add.right_neutral zero_less_Suc)
  have "\<forall>i<d. ht_key t ((unat ?w + i) mod 2 ^ m) \<notin> {key, - 1}"
    using Suc.prems(1) unfolding next_index [OF assms(1)] by (metis Suc_mono)
  moreover have "ht_key t ((unat ?w + d) mod 2 ^ m) \<in> {key, - 1}" using Suc.prems(2) unfolding next_index [OF assms(1)] .
  ultimately have "ht_insert_loop f key val ?w t =
      Some (t\<lparr>ht_entries := (ht_entries t)[(unat index + Suc d) mod 2 ^ m := (key, val)]\<rparr>)"
    using Suc.IH [of ?w f] Suc.prems(3) f unfolding next_index [OF assms(1)] by simp
  then show ?case using f first assms(1) unat_and_slots [OF assms(1), of index]
    by (auto simp: Let_def ht_key_def arr_get_def ht_shape_def)
qed

lemma ht_get_loop_stops:
  assumes "ht_shape m t" "\<forall>i<d. ht_key t ((unat index + i) mod 2 ^ m) \<notin> {key, - 1}"
    "ht_key t ((unat index + d) mod 2 ^ m) \<in> {key, - 1}" "d < fuel"
  shows "ht_get_loop fuel key index t =
    Some (if ht_key t ((unat index + d) mod 2 ^ m) = key then snd (ht_entries t ! ((unat index + d) mod 2 ^ m)) else - 1)"
  using assms(2-4)
proof (induction d arbitrary: fuel index)
  case 0
  then obtain f where "fuel = Suc f" by (cases fuel) auto
  then show ?case using 0 assms(1) unat_and_slots [OF assms(1), of index]
    by (auto simp: Let_def ht_key_def arr_get_def ht_shape_def)
next
  case (Suc d)
  then obtain f where f: "fuel = Suc f" by (cases fuel) auto
  let ?w = "(index AND (ht_slots t - 1)) + 1"
  have first: "ht_key t (unat index mod 2 ^ m) \<notin> {key, - 1}" using Suc.prems(1) by (metis add.right_neutral zero_less_Suc)
  have "\<forall>i<d. ht_key t ((unat ?w + i) mod 2 ^ m) \<notin> {key, - 1}"
    using Suc.prems(1) unfolding next_index [OF assms(1)] by (metis Suc_mono)
  moreover have "ht_key t ((unat ?w + d) mod 2 ^ m) \<in> {key, - 1}" using Suc.prems(2) unfolding next_index [OF assms(1)] .
  ultimately have "ht_get_loop f key ?w t =
      Some (if ht_key t ((unat index + Suc d) mod 2 ^ m) = key then snd (ht_entries t ! ((unat index + Suc d) mod 2 ^ m)) else - 1)"
    using Suc.IH [of ?w f] Suc.prems(3) f unfolding next_index [OF assms(1)] by simp
  then show ?case using f first assms(1) unat_and_slots [OF assms(1), of index]
    by (auto simp: Let_def ht_key_def arr_get_def ht_shape_def)
qed

subsection \<open>Tables as maps\<close>

text \<open>
  Every occupied slot is on the probe sequence of its key, behind occupied slots of other keys.
\<close>

definition ht_inv :: "nat \<Rightarrow> hashtable \<Rightarrow> bool" where
  "ht_inv m t \<longleftrightarrow> ht_shape m t \<and> (\<forall>i < 2 ^ m. ht_key t i \<noteq> - 1 \<longrightarrow>
     (\<exists>d < 2 ^ m. probe m (ht_key t i) d = i \<and> (\<forall>j < d. ht_key t (probe m (ht_key t i) j) \<notin> {ht_key t i, - 1})))"

definition ht_map :: "hashtable \<Rightarrow> u32 \<rightharpoonup> u64" where
  "ht_map t = map_of (filter (\<lambda>e. fst e \<noteq> - 1) (ht_entries t))"

lemma probe_less: "probe m key j < 2 ^ m"
  by (simp add: probe_def)

lemma ht_key_unique:
  assumes "ht_inv m t" "i < 2 ^ m" "i' < 2 ^ m" "ht_key t i = ht_key t i'" "ht_key t i \<noteq> - 1"
  shows "i = i'"
proof -
  obtain d where d: "probe m (ht_key t i) d = i" "\<forall>j < d. ht_key t (probe m (ht_key t i) j) \<notin> {ht_key t i, - 1}"
    using assms by (auto simp: ht_inv_def)
  obtain d' where d': "probe m (ht_key t i) d' = i'" "\<forall>j < d'. ht_key t (probe m (ht_key t i) j) \<notin> {ht_key t i, - 1}"
    using assms unfolding ht_inv_def by (metis (no_types, lifting))
  have "\<not> d < d'" using d'(2) d(1) by auto
  moreover have "\<not> d' < d" using d(2) d'(1) assms(4) by auto
  ultimately show ?thesis using d(1) d'(1) by auto
qed

lemma ht_map_Some:
  assumes "ht_inv m t" "key \<noteq> - 1"
  shows "ht_map t key = Some v \<longleftrightarrow> (\<exists>i < 2 ^ m. ht_entries t ! i = (key, v))"
proof -
  have len: "length (ht_entries t) = 2 ^ m" using assms(1) by (simp add: ht_inv_def ht_shape_def)
  have uniq: "v = v'" if "(key, v) \<in> set (ht_entries t)" "(key, v') \<in> set (ht_entries t)" for v v'
    using ht_key_unique [OF assms(1)] that assms(2) by (auto simp: in_set_conv_nth len ht_key_def) (metis fst_conv snd_conv)
  have "ht_map t key = Some v \<longleftrightarrow> (key, v) \<in> set (ht_entries t)"
  proof
    assume "(key, v) \<in> set (ht_entries t)"
    then have mem: "(key, v) \<in> set (filter (\<lambda>e. fst e \<noteq> - 1) (ht_entries t))" using assms(2) by simp
    then obtain v' where v': "ht_map t key = Some v'" unfolding ht_map_def
      by (metis (no_types, lifting) weak_map_of_SomeI)
    then show "ht_map t key = Some v" using uniq [of v v'] mem by (auto simp: ht_map_def dest!: map_of_SomeD)
  qed (auto simp: ht_map_def dest!: map_of_SomeD)
  then show ?thesis by (auto simp: in_set_conv_nth len)
qed

lemma ht_map_free: "ht_map t (- 1) = None"
  by (auto simp: ht_map_def map_of_eq_None_iff)

lemma ht_map_None:
  assumes "ht_inv m t" "key \<noteq> - 1"
  shows "ht_map t key = None \<longleftrightarrow> (\<forall>i < 2 ^ m. ht_key t i \<noteq> key)"
proof -
  have "ht_map t key = None \<longleftrightarrow> (\<forall>v. ht_map t key \<noteq> Some v)" by (simp add: not_Some_eq)
  also have "\<dots> \<longleftrightarrow> (\<forall>i < 2 ^ m. \<forall>v. ht_entries t ! i \<noteq> (key, v))" by (simp only: ht_map_Some [OF assms]) blast
  also have "\<dots> \<longleftrightarrow> (\<forall>i < 2 ^ m. ht_key t i \<noteq> key)" by (simp add: ht_key_def prod_eq_iff)
  finally show ?thesis .
qed

text \<open>As long as fewer keys are stored than there are slots, one slot is free.\<close>

lemma ht_free_slot:
  assumes "ht_inv m t" "card (dom (ht_map t)) < 2 ^ m"
  shows "\<exists>i < 2 ^ m. ht_key t i = - 1"
proof (rule ccontr)
  assume no: "\<not> ?thesis"
  have "inj_on (ht_key t) {..<2 ^ m}" using ht_key_unique [OF assms(1)] no by (auto intro!: inj_onI)
  then have "card (ht_key t ` {..<2 ^ m}) = 2 ^ m" by (simp add: card_image)
  moreover have "ht_key t ` {..<2 ^ m} \<subseteq> dom (ht_map t)"
    using no ht_map_None [OF assms(1)] by (auto simp: domIff)
  moreover have "finite (dom (ht_map t))" by (simp add: ht_map_def finite_dom_map_of)
  ultimately show False using assms(2) by (metis card_mono not_less)
qed

text \<open>The probe sequence of a key visits every slot.\<close>

lemma probe_surj:
  assumes "i < 2 ^ m"
  shows "\<exists>d < 2 ^ m. probe m key d = i"
proof -
  let ?h = "unat (ht_hash key) mod 2 ^ m" and ?n = "2 ^ m :: nat"
  have h: "?h < ?n" by simp
  have eq: "probe m key d = (?h + d) mod ?n" for d by (simp add: probe_def mod_add_left_eq)
  show ?thesis
  proof (cases "?h \<le> i")
    case True
    then show ?thesis using assms by (intro exI [of _ "i - ?h"]) (simp add: eq)
  next
    case False
    then have "?h + (i + ?n - ?h) = i + ?n" using h by linarith
    then have "(?h + (i + ?n - ?h)) mod ?n = i" using assms by simp
    moreover have "i + ?n - ?h < ?n" using False h by linarith
    ultimately show ?thesis unfolding eq by blast
  qed
qed

text \<open>The first slot that holds the key or is free.\<close>

lemma ht_stop:
  assumes "ht_inv m t" "i < 2 ^ m" "ht_key t i \<in> {key, - 1}"
  shows "\<exists>d < 2 ^ m. (\<forall>j < d. ht_key t (probe m key j) \<notin> {key, - 1}) \<and> ht_key t (probe m key d) \<in> {key, - 1}"
proof -
  obtain d0 where d0: "d0 < 2 ^ m" "ht_key t (probe m key d0) \<in> {key, - 1}" using probe_surj [OF assms(2)] assms(3) by metis
  let ?P = "\<lambda>d. ht_key t (probe m key d) \<in> {key, - 1}"
  have "?P (LEAST d. ?P d)" "(LEAST d. ?P d) \<le> d0" using d0(2) by (rule LeastI, rule Least_le [of ?P])
  moreover have "\<forall>j < (LEAST d. ?P d). \<not> ?P j" using not_less_Least by blast
  ultimately show ?thesis using d0(1) by (meson le_less_trans)
qed

lemma ht_stop_key:
  assumes "ht_inv m t" "key \<noteq> - 1" "\<forall>j < d. ht_key t (probe m key j) \<notin> {key, - 1}" "ht_key t (probe m key d) = - 1"
  shows "ht_map t key = None"
proof -
  have "ht_key t i \<noteq> key" if i: "i < 2 ^ m" for i
  proof
    assume k: "ht_key t i = key"
    then obtain e where e: "probe m key e = i" "\<forall>j < e. ht_key t (probe m key j) \<notin> {key, - 1}"
      using assms(1,2) i by (auto simp: ht_inv_def)
    have "\<not> e < d" using assms(3) e(1) k by auto
    moreover have "\<not> d < e" using e(2) assms(4) by auto
    ultimately show False using e(1) k assms(2,4) by (metis linorder_neqE_nat)
  qed
  then show ?thesis using ht_map_None [OF assms(1,2)] by simp
qed

theorem ht_get_refines:
  assumes "ht_inv m t" "key \<noteq> - 1" "card (dom (ht_map t)) < 2 ^ m" "2 ^ m \<le> fuel"
  shows "ht_get fuel key t = Some (case ht_map t key of Some v \<Rightarrow> v | None \<Rightarrow> - 1)"
proof -
  have shape: "ht_shape m t" using assms(1) by (simp add: ht_inv_def)
  obtain d where d: "d < 2 ^ m" "\<forall>j < d. ht_key t (probe m key j) \<notin> {key, - 1}" "ht_key t (probe m key d) \<in> {key, - 1}"
    using ht_free_slot [OF assms(1,3)] ht_stop [OF assms(1), of _ key] by (metis insertCI)
  have get: "ht_get fuel key t = Some (if ht_key t (probe m key d) = key then snd (ht_entries t ! probe m key d) else - 1)"
    using ht_get_loop_stops [OF shape, of d "ht_hash key" key fuel] d assms(4) by (simp add: ht_get_def probe_def)
  show ?thesis
  proof (cases "ht_key t (probe m key d) = key")
    case True
    then have "ht_map t key = Some (snd (ht_entries t ! probe m key d))"
      using ht_map_Some [OF assms(1,2)] probe_less [of m key d] by (metis ht_key_def prod.collapse)
    then show ?thesis using get True by simp
  next
    case False
    then show ?thesis using get d ht_stop_key [OF assms(1,2) d(2)] by simp
  qed
qed

lemma ht_write_map:
  assumes "ht_inv m t" "ht_inv m t'" "t' = t\<lparr>ht_entries := (ht_entries t)[i := (key, v)]\<rparr>" "i < 2 ^ m" "key \<noteq> - 1"
    "ht_key t i \<in> {key, - 1}" "\<And>j. j < 2 ^ m \<Longrightarrow> j \<noteq> i \<Longrightarrow> ht_key t j \<noteq> key"
  shows "ht_map t' = (ht_map t)(key \<mapsto> v)"
proof
  fix k
  have len: "length (ht_entries t) = 2 ^ m" using assms(1) by (simp add: ht_inv_def ht_shape_def)
  consider "k = - 1" | "k = key" | "k \<noteq> - 1" "k \<noteq> key" by blast
  then show "ht_map t' k = ((ht_map t)(key \<mapsto> v)) k"
  proof cases
    case 2
    have "ht_entries t' ! i = (key, v)" using assms(3,4) len by simp
    then show ?thesis using 2 ht_map_Some [OF assms(2,5)] assms(4) by auto
  next
    case 3
    have "ht_entries t' ! j = (k, w) \<longleftrightarrow> ht_entries t ! j = (k, w)" if "j < 2 ^ m" for j w
      using 3 assms(3,4,6) that len by (cases "j = i") (auto simp: ht_key_def)
    then have "ht_map t' k = Some w \<longleftrightarrow> ht_map t k = Some w" for w
      using ht_map_Some [OF assms(2) 3(1), of w] ht_map_Some [OF assms(1) 3(1), of w] by auto
    then have "ht_map t' k = ht_map t k" by (metis option.exhaust)
    then show ?thesis using 3 by simp
  qed (use assms(5) in \<open>simp add: ht_map_free\<close>)
qed

theorem ht_insert_refines:
  assumes inv: "ht_inv m t" and key: "key \<noteq> - 1" and room: "key \<in> dom (ht_map t) \<or> card (dom (ht_map t)) < 2 ^ m" and fuel: "2 ^ m \<le> fuel"
  shows "\<exists>t'. ht_insert fuel key v t = Some t' \<and> ht_inv m t' \<and> ht_map t' = (ht_map t)(key \<mapsto> v)"
proof -
  have shape: "ht_shape m t" using inv by (simp add: ht_inv_def)
  have "\<exists>i < 2 ^ m. ht_key t i \<in> {key, - 1}"
    using room ht_free_slot [OF inv] ht_map_None [OF inv key] by (auto simp: domIff)
  then obtain d where d: "d < 2 ^ m" "\<forall>j < d. ht_key t (probe m key j) \<notin> {key, - 1}" "ht_key t (probe m key d) \<in> {key, - 1}"
    using ht_stop [OF inv] by metis
  let ?i = "probe m key d" and ?t = "t\<lparr>ht_entries := (ht_entries t)[probe m key d := (key, v)]\<rparr>"
  have len: "length (ht_entries t) = 2 ^ m" using shape by (simp add: ht_shape_def)
  have ins: "ht_insert fuel key v t = Some ?t"
    using ht_insert_loop_stops [OF shape, of d "ht_hash key" key fuel v] d fuel by (simp add: ht_insert_def probe_def)
  have keys: "ht_key ?t i = (if i = ?i then key else ht_key t i)" for i
    using probe_less [of m key d] len by (simp add: ht_key_def nth_list_update)
  have other: "ht_key t i \<noteq> key" if "i < 2 ^ m" "i \<noteq> ?i" for i
  proof (cases "ht_key t ?i = key")
    case True
    then show ?thesis using ht_key_unique [OF inv that(1) probe_less [of m key d]] that(2) key by metis
  next
    case False
    then show ?thesis using ht_stop_key [OF inv key d(2)] d(3) ht_map_None [OF inv key] that(1) by auto
  qed
  have inv': "ht_inv m ?t" unfolding ht_inv_def
  proof (intro conjI allI impI)
    show "ht_shape m ?t" using shape by (simp add: ht_shape_def)
    fix i :: nat assume i: "i < 2 ^ m" "ht_key ?t i \<noteq> - 1"
    show "\<exists>d<2 ^ m. probe m (ht_key ?t i) d = i \<and> (\<forall>j<d. ht_key ?t (probe m (ht_key ?t i) j) \<notin> {ht_key ?t i, - 1})"
    proof (cases "i = ?i")
      case True
      have "probe m key j \<noteq> ?i" if "j < d" for j using d(2,3) that by metis
      then show ?thesis using True d keys by (intro exI [of _ d]) auto
    next
      case False
      then have old: "ht_key t i \<noteq> - 1" "ht_key ?t i = ht_key t i" using i keys by auto
      then obtain e where e: "e < 2 ^ m" "probe m (ht_key t i) e = i" "\<forall>j<e. ht_key t (probe m (ht_key t i) j) \<notin> {ht_key t i, - 1}"
        using inv i(1) unfolding ht_inv_def by metis
      then show ?thesis using old keys other [OF i(1) False] key by (intro exI [of _ e]) auto
    qed
  qed
  have "ht_map ?t = (ht_map t)(key \<mapsto> v)" using ht_write_map [OF inv inv' refl probe_less key d(3) other] .
  then show ?thesis using ins inv' by (intro exI [of _ ?t]) simp
qed

text \<open>The table for a number of slots: a power of two that is large enough.\<close>

lemma hashtable_new_empty:
  assumes "0 < slots" "slots \<le> 2 ^ 31"
  shows "\<exists>m b t. needed_bytes slots = Some b \<and> hashtable_new b = Some t \<and> ht_inv m t \<and> ht_map t = Map.empty \<and>
    ht_slots t = 2 ^ m \<and> slots \<le> 2 ^ m"
proof -
  obtain m where m: "next_power_of_two slots = Some (2 ^ m)" "slots \<le> 2 ^ m" "\<forall>j. slots \<le> 2 ^ j \<longrightarrow> m \<le> j"
    using next_power_of_two_exact [of slots] assms by auto
  have m31: "m \<le> 31" using m(3) assms(2) by simp
  then have le: "(2 :: nat) ^ m \<le> 2 ^ 31" by (intro power_increasing) auto
  let ?b = "8 + 16 * 2 ^ m :: nat"
  have b: "?b < 2 ^ 64" using le by simp
  then have "needed_bytes slots = Some ?b" using m(1) by (simp add: needed_bytes_def sizeof_hashtable_def sizeof_entry_def)
  moreover have "((?b + 2 ^ 64 - sizeof_hashtable) mod 2 ^ 64) div sizeof_entry = 2 ^ m"
    using b by (simp add: sizeof_hashtable_def sizeof_entry_def)
  then have "hashtable_new ?b = Some \<lparr>ht_slots = 2 ^ m, ht_entries = replicate (2 ^ m) entry_default\<rparr>"
    using le by (simp add: hashtable_new_def)
  moreover have "ht_inv m \<lparr>ht_slots = 2 ^ m, ht_entries = replicate (2 ^ m) entry_default\<rparr>"
    using m31 by (simp add: ht_inv_def ht_shape_def ht_key_def entry_default_def)
  moreover have "ht_map \<lparr>ht_slots = 2 ^ m, ht_entries = replicate (2 ^ m) entry_default\<rparr> = Map.empty"
    by (simp add: ht_map_def entry_default_def)
  ultimately show ?thesis using m(2) by (intro exI [of _ m] exI [of _ ?b] exI conjI) (assumption | simp)+
qed

text \<open>
  The key that marks free slots is special: looking it up in a table with a free slot finds the
  value 0 of that slot.
\<close>

lemma ht_get_free_key:
  assumes "ht_inv m t" "i < 2 ^ m" "\<forall>i < 2 ^ m. ht_key t i = - 1 \<longrightarrow> snd (ht_entries t ! i) = 0" "ht_key t i = - 1" "2 ^ m \<le> fuel"
  shows "ht_get fuel (- 1) t = Some 0"
proof -
  have shape: "ht_shape m t" using assms(1) by (simp add: ht_inv_def)
  obtain d where d: "d < 2 ^ m" "\<forall>j < d. ht_key t (probe m (- 1) j) \<notin> {- 1, - 1}" "ht_key t (probe m (- 1) d) \<in> {- 1, - 1}"
    using ht_stop [OF assms(1,2), of "- 1"] assms(4) by auto
  then show ?thesis using ht_get_loop_stops [OF shape, of d "ht_hash (- 1)" "- 1" fuel] assms(3,5) probe_less [of m "- 1" d]
    by (simp add: ht_get_def probe_def)
qed

text \<open>
  A table without a free slot: the insertion of a key that it does not hold looks at the slots
  forever, whatever the number of iterations.
\<close>

lemma ht_full_insert_never_returns:
  assumes "ht_shape m t" "\<forall>i < 2 ^ m. ht_key t i \<notin> {key, - 1}"
  shows "ht_insert fuel key val t = None \<and> (\<forall>i < 2 ^ m. arr_get (ht_entries t) i \<noteq> None)"
proof -
  have "ht_insert_loop fuel key val index t = None" for index
  proof (induction fuel arbitrary: index)
    case (Suc fuel)
    have "ht_key t (unat index mod 2 ^ m) \<notin> {key, - 1}" using assms(2) by simp
    then show ?case using Suc assms(1) unat_and_slots [OF assms(1), of index]
      by (simp add: Let_def ht_key_def arr_get_def ht_shape_def)
  qed simp
  then show ?thesis using assms(1) by (simp add: ht_insert_def arr_get_def ht_shape_def)
qed

end
