(* ===== verification/UtilVector.thy ===== *)
theory UtilVector
  imports MxPrelude
begin

section \<open>The vector of the runtime\<close>

text \<open>
  src/mx/util/vector.h. The memory of a vector is a list of cells, \<open>None\<close> for a cell that was not
  written since its allocation; a null pointer is \<open>None\<close> as well. An operation that leaves the
  memory has no result. The global heap that provides and takes back the cells is not part of the
  state; operations that give cells back return their number.

  The lemmas show that a vector with capacity represents a list, which the operations that add
  elements extend, whatever growing that takes; a vector of capacity 0 never grows, and one that is assigned to
  itself loses its elements.
\<close>

record 'a mxvec =
  vec_numa_node_id :: u8
  vec_data :: "'a option list option"
  vec_current_index :: nat
  vec_capacity :: nat

definition vec_allocate :: "nat \<Rightarrow> 'a option list" where
  "vec_allocate n = replicate n None"

definition vec_reserve :: "nat \<Rightarrow> 'a mxvec \<Rightarrow> 'a mxvec option" where
  "vec_reserve n v =
     (let v' = v\<lparr>vec_data := Some (vec_allocate n), vec_capacity := n\<rparr>
      in case vec_data v of
        None \<Rightarrow> Some v'
      | Some old \<Rightarrow>
          if vec_current_index v = 0 then Some v'
          else do {
            cells \<leftarrow> arr_copy old 0 (vec_allocate n) 0 (vec_current_index v);
            Some (v'\<lparr>vec_data := Some cells\<rparr>)
          })"

definition vec_reserve_at :: "u8 \<Rightarrow> nat \<Rightarrow> 'a mxvec \<Rightarrow> 'a mxvec option" where
  "vec_reserve_at numa n v = vec_reserve n (v\<lparr>vec_numa_node_id := numa\<rparr>)"

definition vec_new :: "u8 \<Rightarrow> nat \<Rightarrow> 'a mxvec option" where
  "vec_new numa n = vec_reserve n \<lparr>vec_numa_node_id = numa, vec_data = None, vec_current_index = 0, vec_capacity = 0\<rparr>"

text \<open>The default constructor reserves 16 elements in region 0.\<close>

definition vec_default :: "'a mxvec option" where
  "vec_default = vec_new 0 16"

text \<open>The copy constructor.\<close>

definition vec_copy :: "'a mxvec \<Rightarrow> 'a mxvec option" where
  "vec_copy other = do {
     old \<leftarrow> vec_data other;
     cells \<leftarrow> arr_copy old 0 (vec_allocate (vec_capacity other)) 0 (vec_current_index other);
     Some (other\<lparr>vec_data := Some cells\<rparr>)
   }"

text \<open>The move constructor: the new vector and what is left of the source.\<close>

definition vec_move :: "'a mxvec \<Rightarrow> 'a mxvec \<times> 'a mxvec" where
  "vec_move other = (other, other\<lparr>vec_data := None, vec_current_index := 0, vec_capacity := 0\<rparr>)"

text \<open>What is given back to the heap: the number of cells. The destructor leaves a null pointer.\<close>

definition vec_release :: "'a mxvec \<Rightarrow> nat option" where
  "vec_release v = map_option (\<lambda>_. vec_capacity v) (vec_data v)"

definition vec_destroy :: "'a mxvec \<Rightarrow> nat option \<times> 'a mxvec" where
  "vec_destroy v = (vec_release v, v\<lparr>vec_data := None\<rparr>)"

text \<open>
  Copy assignment from another vector, and from the vector itself: its cells are released first, and what is copied
  are the cells that were just allocated.
\<close>

definition vec_assign :: "'a mxvec \<Rightarrow> 'a mxvec \<Rightarrow> (nat option \<times> 'a mxvec) option" where
  "vec_assign other v = map_option (Pair (vec_release v)) (vec_copy other)"

definition vec_assign_self :: "'a mxvec \<Rightarrow> nat option \<times> 'a mxvec" where
  "vec_assign_self v = (vec_release v, v\<lparr>vec_data := Some (vec_allocate (vec_capacity v))\<rparr>)"

definition vec_move_assign :: "'a mxvec \<Rightarrow> 'a mxvec \<Rightarrow> nat option \<times> 'a mxvec \<times> 'a mxvec" where
  "vec_move_assign other v = (vec_release v, vec_move other)"

definition vec_grow_if_needed :: "'a mxvec \<Rightarrow> 'a mxvec option" where
  "vec_grow_if_needed v =
     (if vec_capacity v \<le> vec_current_index v then vec_reserve ((vec_capacity v * 2) mod 2 ^ 64) v else Some v)"

definition vec_emplace_back :: "'a \<Rightarrow> 'a mxvec \<Rightarrow> 'a mxvec option" where
  "vec_emplace_back x v = do {
     v1 \<leftarrow> vec_grow_if_needed v;
     old \<leftarrow> vec_data v1;
     cells \<leftarrow> arr_set old (vec_current_index v1) (Some x);
     Some (v1\<lparr>vec_data := Some cells, vec_current_index := vec_current_index v1 + 1\<rparr>)
   }"

definition vec_at :: "'a mxvec \<Rightarrow> nat \<Rightarrow> 'a option" where
  "vec_at v i = do { cells \<leftarrow> vec_data v; cell \<leftarrow> arr_get cells i; cell }"

text \<open>The elements from begin() to end().\<close>

definition vec_elements :: "'a mxvec \<Rightarrow> 'a list option" where
  "vec_elements v = those (map (vec_at v) [0..<vec_current_index v])"

definition vec_last :: "'a mxvec \<Rightarrow> 'a option" where
  "vec_last v = (if vec_current_index v = 0 then None else vec_at v (vec_current_index v - 1))"

definition vec_size :: "'a mxvec \<Rightarrow> nat" where
  "vec_size v = vec_current_index v"

definition vec_empty :: "'a mxvec \<Rightarrow> bool" where
  "vec_empty v \<longleftrightarrow> vec_current_index v = 0"

definition vec_clear :: "'a mxvec \<Rightarrow> 'a mxvec" where
  "vec_clear v = v\<lparr>vec_current_index := 0\<rparr>"

subsection \<open>Vectors represent lists\<close>

definition vec_rep :: "'a mxvec \<Rightarrow> 'a list \<Rightarrow> bool" where
  "vec_rep v xs \<longleftrightarrow> (\<exists>cells. vec_data v = Some cells \<and> length cells = vec_capacity v \<and>
     vec_current_index v = length xs \<and> length xs \<le> vec_capacity v \<and> take (length xs) cells = map Some xs)"

lemma vec_rep_unique: "vec_rep v xs \<Longrightarrow> vec_rep v ys \<Longrightarrow> xs = ys"
  by (auto simp: vec_rep_def)

lemma vec_rep_size: "vec_rep v xs \<Longrightarrow> vec_size v = length xs"
  by (auto simp: vec_rep_def vec_size_def)

lemma vec_rep_at:
  assumes "vec_rep v xs" "i < length xs"
  shows "vec_at v i = Some (xs ! i)"
proof -
  obtain cells where c: "vec_data v = Some cells" "length cells = vec_capacity v" "length xs \<le> vec_capacity v" "take (length xs) cells = map Some xs"
    using assms(1) by (auto simp: vec_rep_def)
  have "cells ! i = take (length xs) cells ! i" using assms(2) by simp
  then show ?thesis using c assms(2) by (simp add: vec_at_def arr_get_def)
qed

lemma vec_reserve_rep:
  assumes "vec_rep v xs" "length xs \<le> n"
  shows "\<exists>v'. vec_reserve n v = Some v' \<and> vec_rep v' xs \<and> vec_capacity v' = n"
  using assms by (auto simp: vec_reserve_def vec_rep_def Let_def vec_allocate_def arr_copy_def)

lemma vec_new_rep: "\<exists>v. vec_new numa n = Some v \<and> vec_rep v [] \<and> vec_capacity v = n"
  by (simp add: vec_new_def vec_reserve_def vec_rep_def vec_allocate_def)

lemma vec_default_reserved:
  "\<exists>v. (vec_default \<bind> vec_reserve_at numa n) = Some v \<and> vec_rep v [] \<and> vec_capacity v = n"
  by (simp add: vec_default_def vec_new_def vec_reserve_at_def vec_reserve_def vec_rep_def vec_allocate_def)

lemma vec_emplace_back_rep:
  assumes "vec_rep v xs" "0 < vec_capacity v" "vec_capacity v < 2 ^ 63"
  shows "\<exists>v'. vec_emplace_back x v = Some v' \<and> vec_rep v' (xs @ [x]) \<and> vec_capacity v \<le> vec_capacity v' \<and>
    vec_capacity v' \<le> max (vec_capacity v) (2 * length xs)"
proof -
  have "\<exists>v1. vec_grow_if_needed v = Some v1 \<and> vec_rep v1 xs \<and> length xs < vec_capacity v1 \<and> vec_capacity v \<le> vec_capacity v1 \<and>
    vec_capacity v1 \<le> max (vec_capacity v) (2 * length xs)"
  proof (cases "vec_capacity v \<le> vec_current_index v")
    case True
    then have n: "vec_capacity v = length xs" using assms(1) by (auto simp: vec_rep_def)
    have "(vec_capacity v * 2) mod 2 ^ 64 = vec_capacity v * 2" using assms(3) by simp
    then show ?thesis using vec_reserve_rep [OF assms(1), of "vec_capacity v * 2"] True n assms(2)
      by (auto simp: vec_grow_if_needed_def)
  next
    case False
    then show ?thesis using assms(1) by (auto simp: vec_grow_if_needed_def vec_rep_def)
  qed
  then obtain v1 where v1: "vec_grow_if_needed v = Some v1" "vec_rep v1 xs" "length xs < vec_capacity v1"
    "vec_capacity v \<le> vec_capacity v1" "vec_capacity v1 \<le> max (vec_capacity v) (2 * length xs)" by blast
  then show ?thesis
    by (auto simp: vec_emplace_back_def vec_rep_def arr_set_def take_Suc_conv_app_nth)
qed

lemma vec_empty_never_grows:
  "vec_rep v [] \<Longrightarrow> vec_capacity v = 0 \<Longrightarrow> vec_emplace_back x v = None"
  by (auto simp: vec_emplace_back_def vec_grow_if_needed_def vec_reserve_def vec_rep_def vec_allocate_def arr_set_def Let_def)

lemma vec_copy_rep: "vec_rep v xs \<Longrightarrow> \<exists>v'. vec_copy v = Some v' \<and> vec_rep v' xs"
  by (auto simp: vec_copy_def vec_rep_def vec_allocate_def arr_copy_def)

lemma vec_clear_rep: "vec_rep v xs \<Longrightarrow> vec_rep (vec_clear v) []"
  by (auto simp: vec_clear_def vec_rep_def)

lemma those_all_Some: "those (map Some xs) = Some xs"
  by (induction xs) simp_all

lemma vec_elements_rep:
  assumes "vec_rep v xs"
  shows "vec_elements v = Some xs"
proof -
  have "vec_current_index v = length xs" using assms by (auto simp: vec_rep_def)
  then have "map (vec_at v) [0..<vec_current_index v] = map Some xs"
    using vec_rep_at [OF assms] by (intro nth_equalityI) simp_all
  then show ?thesis by (simp add: vec_elements_def those_all_Some)
qed

lemma vec_last_rep: "vec_rep v xs \<Longrightarrow> vec_last v = (if xs = [] then None else Some (last xs))"
  using vec_rep_at [of v xs "length xs - 1"] vec_rep_size [of v xs] by (auto simp: vec_last_def vec_size_def last_conv_nth)

text \<open>An assignment gives back the old cells and leaves the elements of the source.\<close>

lemma vec_assign_rep:
  assumes "vec_rep v xs" "vec_rep other ys"
  shows "\<exists>v'. vec_assign other v = Some (Some (vec_capacity v), v') \<and> vec_rep v' ys"
    and "\<exists>v' other'. vec_move_assign other v = (Some (vec_capacity v), v', other') \<and> vec_rep v' ys \<and> vec_data other' = None"
  using assms vec_copy_rep [OF assms(2)] by (auto simp: vec_assign_def vec_move_assign_def vec_move_def vec_release_def vec_rep_def)

lemma vec_assign_self_loses_elements: "vec_rep v xs \<Longrightarrow> i < length xs \<Longrightarrow> vec_at (snd (vec_assign_self v)) i = None"
  by (auto simp: vec_assign_self_def vec_rep_def vec_at_def vec_allocate_def arr_get_def)

end
