(* ===== verification/HashJoin.thy ===== *)
theory HashJoin
  imports HashTable UtilVector "HOL-Library.Multiset"
begin

section \<open>The parallel hash join\<close>

text \<open>
  src/application/hashjoin_benchmark. The keys of both relations are cut into one chunk per core. A
  partition task per chunk distributes the keys by their hash over the channels, in batches; a build
  task inserts a batch into the hash table of its channel, a probe task looks a batch up there and
  stores the matches in the result set of its channel. Behind its batches every partition task sends
  one notification to every channel. The listener counts them: the last notification of the build
  phase spawns the partition tasks of the probe phase, the last one of the probe phase spawns the
  merge task, which counts the output.

  A state has one queue per pair of spawning and executing channel. A step executes the first task
  of one of them, so the runs cover every order in which the channels may execute the tasks: the
  scheduler only promises to keep the order of the tasks that one channel sends to another. Tasks
  are executed atomically; a partition task whose batches are executed while it still runs gives
  the same states, since it reads nothing that other tasks write.

  The template parameter of PartitionTask and NotificationTask is a value of \<open>join_kind\<close>. The hash
  function std::hash of the library, which distributes the keys, is a parameter.
\<close>

subsection \<open>Tasks\<close>

datatype join_kind = BuildKind | ProbeKind

type_synonym row = "u64 \<times> u32"

datatype join_task = Partition join_kind "u32 list" | Batch join_kind "row list" | Notification join_kind | Merge

record listener =
  ls_pending_local :: "u32 list"
  ls_pending_global :: u32

record join_state =
  js_count_cores :: nat
  js_batch_size :: nat
  js_tables :: "hashtable list"
  js_results :: "(u64 \<times> u64) mxvec list"
  js_listener :: "join_kind \<Rightarrow> listener"
  js_probe_tasks :: "join_task list"
  js_queues :: "nat \<Rightarrow> nat \<Rightarrow> join_task list"
  js_count_output_tuples :: u64
  js_stopped :: bool

definition listener_new :: "nat \<Rightarrow> listener" where
  "listener_new count_cores =
     \<lparr>ls_pending_local = replicate count_cores (of_nat count_cores) @ replicate (128 - count_cores) 0,
      ls_pending_global = of_nat count_cores\<rparr>"

definition join_spawn :: "nat \<Rightarrow> nat \<times> join_task \<Rightarrow> join_state \<Rightarrow> join_state" where
  "join_spawn channel x s =
     s\<lparr>js_queues := (js_queues s)(channel := (js_queues s channel)(fst x := js_queues s channel (fst x) @ [snd x]))\<rparr>"

text \<open>
  BuildTask::execute and ProbeTask::execute. A loop of the hash table that has visited every slot
  visits the same slots again, so the number of slots is the fuel.
\<close>

fun build_execute :: "row list \<Rightarrow> hashtable \<Rightarrow> hashtable option" where
  "build_execute [] t = Some t"
| "build_execute (row # rows) t = do {
     t' \<leftarrow> ht_insert (length (ht_entries t)) (snd row) (fst row) t;
     build_execute rows t'
   }"

fun probe_execute :: "row list \<Rightarrow> hashtable \<Rightarrow> (u64 \<times> u64) mxvec \<Rightarrow> (u64 \<times> u64) mxvec option" where
  "probe_execute [] t res = Some res"
| "probe_execute (row # rows) t res = do {
     x \<leftarrow> ht_get (length (ht_entries t)) (snd row) t;
     res' \<leftarrow> (if x \<noteq> - 1 then vec_emplace_back (fst row, x) res else Some res);
     probe_execute rows t res'
   }"

definition partition_hash :: "(u32 \<Rightarrow> u64) \<Rightarrow> u32 \<Rightarrow> u16" where
  "partition_hash std_hash key = ucast (std_hash key)"

definition partition_target :: "(u32 \<Rightarrow> u64) \<Rightarrow> nat \<Rightarrow> u32 \<Rightarrow> nat" where
  "partition_target std_hash count_cores key = unat (partition_hash std_hash key) mod count_cores"

text \<open>The loop over the keys: the tasks that are filled, and the spawned ones with their channels.\<close>

fun partition_loop :: "(u32 \<Rightarrow> nat) \<Rightarrow> join_kind \<Rightarrow> nat \<Rightarrow> u64 \<Rightarrow> nat \<Rightarrow> u32 list \<Rightarrow>
    (nat \<Rightarrow> row list) \<Rightarrow> (nat \<times> join_task) list \<Rightarrow> (nat \<Rightarrow> row list) \<times> (nat \<times> join_task) list" where
  "partition_loop target kind batch_size offset i [] filling out = (filling, out)"
| "partition_loop target kind batch_size offset i (key # keys) filling out =
     (let c = target key;
          rows = filling c @ [(offset + of_nat i, key)]
      in if length rows = batch_size
         then partition_loop target kind batch_size offset (Suc i) keys (filling(c := [])) (out @ [(c, Batch kind rows)])
         else partition_loop target kind batch_size offset (Suc i) keys (filling(c := rows)) out)"

definition partition_execute :: "(u32 \<Rightarrow> u64) \<Rightarrow> join_kind \<Rightarrow> nat \<Rightarrow> u32 list \<Rightarrow> join_state \<Rightarrow> (nat \<times> join_task) list" where
  "partition_execute std_hash kind channel keys s =
     (let offset = of_nat channel * of_nat (length keys);
          (filling, out) = partition_loop (partition_target std_hash (js_count_cores s)) kind (js_batch_size s) offset 0 keys (\<lambda>_. []) []
      in out @ concat (map (\<lambda>c. [(c, Batch kind (filling c)), (c, Notification kind)]) [0..<js_count_cores s]))"

text \<open>What the listener's notificator does when all notifications have arrived.\<close>

fun notificator :: "join_kind \<Rightarrow> nat \<Rightarrow> join_state \<Rightarrow> join_state" where
  "notificator BuildKind channel s = fold (join_spawn channel) (zip [0..<js_count_cores s] (js_probe_tasks s)) s"
| "notificator ProbeKind channel s = join_spawn channel (channel, Merge) s"

definition notification_execute :: "join_kind \<Rightarrow> nat \<Rightarrow> join_state \<Rightarrow> join_state option" where
  "notification_execute kind channel s = do {
     pending \<leftarrow> arr_get (ls_pending_local (js_listener s kind)) channel;
     (let l = (js_listener s kind)\<lparr>ls_pending_local := (ls_pending_local (js_listener s kind))[channel := pending - 1]\<rparr>
      in if pending - 1 = 0
         then (let l' = l\<lparr>ls_pending_global := ls_pending_global l - 1\<rparr>;
                   s' = s\<lparr>js_listener := (js_listener s)(kind := l')\<rparr>
               in Some (if ls_pending_global l' = 0 then notificator kind channel s' else s'))
         else Some (s\<lparr>js_listener := (js_listener s)(kind := l)\<rparr>))
   }"

definition merge_execute :: "join_state \<Rightarrow> join_state" where
  "merge_execute s =
     s\<lparr>js_count_output_tuples := fold (\<lambda>v n. n + of_nat (vec_size v)) (js_results s) (js_count_output_tuples s), js_stopped := True\<rparr>"

fun join_execute :: "(u32 \<Rightarrow> u64) \<Rightarrow> nat \<Rightarrow> join_task \<Rightarrow> join_state \<Rightarrow> join_state option" where
  "join_execute std_hash channel (Partition kind keys) s =
     Some (fold (join_spawn channel) (partition_execute std_hash kind channel keys s) s)"
| "join_execute std_hash channel (Batch BuildKind rows) s = do {
     t \<leftarrow> arr_get (js_tables s) channel;
     t' \<leftarrow> build_execute rows t;
     Some (s\<lparr>js_tables := (js_tables s)[channel := t']\<rparr>)
   }"
| "join_execute std_hash channel (Batch ProbeKind rows) s = do {
     t \<leftarrow> arr_get (js_tables s) channel;
     res \<leftarrow> arr_get (js_results s) channel;
     res' \<leftarrow> probe_execute rows t res;
     Some (s\<lparr>js_results := (js_results s)[channel := res']\<rparr>)
   }"
| "join_execute std_hash channel (Notification kind) s = notification_execute kind channel s"
| "join_execute std_hash channel Merge s = Some (merge_execute s)"

subsection \<open>The start of a run\<close>

definition tuples_per_core :: "nat \<Rightarrow> nat \<Rightarrow> nat" where
  "tuples_per_core count_join_keys count_cores =
     (let cache_lines = ((count_join_keys * 4) mod 2 ^ 64) div 64;
          cache_lines_per_core = cache_lines div count_cores
      in cache_lines_per_core * (64 div 4))"

text \<open>The keys of a core: the last core takes what is left.\<close>

definition core_keys :: "u32 list \<Rightarrow> nat \<Rightarrow> nat \<Rightarrow> u32 list" where
  "core_keys keys count_cores i =
     (let per_core = tuples_per_core (length keys) count_cores;
          count = (if i < count_cores - 1 then per_core else length keys - (count_cores - 1) * per_core)
      in take count (drop (i * per_core) keys))"

definition merge_task_new :: "(nat \<Rightarrow> u8) \<Rightarrow> nat \<Rightarrow> nat \<Rightarrow> (u64 \<times> u64) mxvec list option" where
  "merge_task_new numa_node_id count_cores output_per_core =
     those (map (\<lambda>c. vec_default \<bind> vec_reserve_at (numa_node_id c) output_per_core) [0..<count_cores])"

definition needed_keys :: "nat \<Rightarrow> nat" where
  "needed_keys per_core = per_core * 3 div 2"

definition join_start :: "(nat \<Rightarrow> u8) \<Rightarrow> nat \<Rightarrow> nat \<Rightarrow> u32 list \<Rightarrow> u32 list \<Rightarrow> join_state option" where
  "join_start numa_node_id count_cores batch_size left right = do {
     results \<leftarrow> merge_task_new numa_node_id count_cores (tuples_per_core (length right) count_cores);
     bytes \<leftarrow> needed_bytes (needed_keys (tuples_per_core (length left) count_cores));
     table \<leftarrow> hashtable_new bytes;
     (let s = \<lparr>js_count_cores = count_cores, js_batch_size = batch_size, js_tables = replicate count_cores table,
          js_results = results, js_listener = \<lambda>_. listener_new count_cores,
          js_probe_tasks = map (\<lambda>i. Partition ProbeKind (core_keys right count_cores i)) [0..<count_cores],
          js_queues = \<lambda>_ _. [], js_count_output_tuples = 0, js_stopped = False\<rparr>
      in Some (fold (join_spawn 0) (map (\<lambda>i. (i, Partition BuildKind (core_keys left count_cores i))) [0..<count_cores]) s))
   }"

subsection \<open>Runs\<close>

definition join_pop :: "nat \<Rightarrow> nat \<Rightarrow> join_state \<Rightarrow> join_state" where
  "join_pop p c s = s\<lparr>js_queues := (js_queues s)(p := (js_queues s p)(c := tl (js_queues s p c)))\<rparr>"

inductive join_run :: "(u32 \<Rightarrow> u64) \<Rightarrow> join_state \<Rightarrow> nat \<Rightarrow> join_state \<Rightarrow> bool" for std_hash s0 where
  join_run_start: "join_run std_hash s0 0 s0"
| join_run_step: "join_run std_hash s0 k s \<Longrightarrow> p < js_count_cores s \<Longrightarrow> c < js_count_cores s \<Longrightarrow> js_queues s p c = task # rest \<Longrightarrow>
    join_execute std_hash c task (join_pop p c s) = Some s' \<Longrightarrow> join_run std_hash s0 (Suc k) s'"

subsection \<open>Spawning\<close>

text \<open>The tasks of a list of spawns for one channel.\<close>

definition spawns_at :: "nat \<Rightarrow> (nat \<times> join_task) list \<Rightarrow> join_task list" where
  "spawns_at c xs = map snd (filter (\<lambda>x. fst x = c) xs)"

lemma spawns_at_simps [simp]:
  "spawns_at c [] = []" "spawns_at c (xs @ ys) = spawns_at c xs @ spawns_at c ys"
  "spawns_at c (x # xs) = (if fst x = c then [snd x] else []) @ spawns_at c xs"
  by (auto simp: spawns_at_def)

lemma join_spawn_queues:
  "js_queues (fold (join_spawn p) xs s) q c = js_queues s q c @ (if q = p then spawns_at c xs else [])"
  by (induction xs arbitrary: s) (auto simp: join_spawn_def)

lemma join_spawn_rest:
  "js_count_cores (fold (join_spawn p) xs s) = js_count_cores s" "js_batch_size (fold (join_spawn p) xs s) = js_batch_size s"
  "js_tables (fold (join_spawn p) xs s) = js_tables s" "js_results (fold (join_spawn p) xs s) = js_results s"
  "js_listener (fold (join_spawn p) xs s) = js_listener s" "js_probe_tasks (fold (join_spawn p) xs s) = js_probe_tasks s"
  "js_count_output_tuples (fold (join_spawn p) xs s) = js_count_output_tuples s" "js_stopped (fold (join_spawn p) xs s) = js_stopped s"
  by (induction xs arbitrary: s) (simp_all add: join_spawn_def)

text \<open>All waiting tasks with the channel that executes them.\<close>

definition bag :: "join_state \<Rightarrow> (nat \<times> join_task) multiset" where
  "bag s = (\<Sum>p<js_count_cores s. \<Sum>c<js_count_cores s. image_mset (Pair c) (mset (js_queues s p c)))"

lemma sum_upd_lessThan:
  fixes f :: "nat \<Rightarrow> 'a::comm_monoid_add"
  assumes "i < n" "\<And>j. j \<noteq> i \<Longrightarrow> g j = f j" "g i = x + f i"
  shows "(\<Sum>j<n. g j) = x + (\<Sum>j<n. f j)"
proof -
  have "(\<Sum>j<n. g j) = g i + (\<Sum>j\<in>{..<n} - {i}. g j)" using assms(1) by (simp add: sum.remove)
  also have "(\<Sum>j\<in>{..<n} - {i}. g j) = (\<Sum>j\<in>{..<n} - {i}. f j)" using assms(2) by (intro sum.cong) auto
  also have "g i + \<dots> = x + (f i + (\<Sum>j\<in>{..<n} - {i}. f j))" using assms(3) by (simp add: add.assoc)
  also have "f i + (\<Sum>j\<in>{..<n} - {i}. f j) = (\<Sum>j<n. f j)" using assms(1) by (simp add: sum.remove)
  finally show ?thesis .
qed

lemma bag_upd:
  assumes "p < js_count_cores s" "c < js_count_cores s" "js_count_cores s' = js_count_cores s"
    "\<And>q d. (q, d) \<noteq> (p, c) \<Longrightarrow> js_queues s' q d = js_queues s q d" "mset (js_queues s' p c) = M + mset (js_queues s p c)"
  shows "bag s' = image_mset (Pair c) M + bag s"
proof -
  have "(\<Sum>d<js_count_cores s. image_mset (Pair d) (mset (js_queues s' p d))) =
      image_mset (Pair c) M + (\<Sum>d<js_count_cores s. image_mset (Pair d) (mset (js_queues s p d)))"
    using assms(4) by (intro sum_upd_lessThan [OF assms(2)]) (auto simp: assms(5))
  moreover have "(\<Sum>d<js_count_cores s. image_mset (Pair d) (mset (js_queues s' q d))) =
      (\<Sum>d<js_count_cores s. image_mset (Pair d) (mset (js_queues s q d)))" if "q \<noteq> p" for q
    using assms(4) that by simp
  ultimately show ?thesis unfolding bag_def assms(3)
    using sum_upd_lessThan [OF assms(1), where f = "\<lambda>q. \<Sum>d<js_count_cores s. image_mset (Pair d) (mset (js_queues s q d))"
      and g = "\<lambda>q. \<Sum>d<js_count_cores s. image_mset (Pair d) (mset (js_queues s' q d))"] by blast
qed

lemma bag_pop:
  assumes "p < js_count_cores s" "c < js_count_cores s" "js_queues s p c = task # rest"
  shows "bag s = add_mset (c, task) (bag (join_pop p c s))"
proof -
  have "bag s = image_mset (Pair c) {#task#} + bag (join_pop p c s)"
  proof (rule bag_upd)
    show "js_queues s q d = js_queues (join_pop p c s) q d" if "(q, d) \<noteq> (p, c)" for q d using that by (auto simp: join_pop_def)
    show "mset (js_queues s p c) = {#task#} + mset (js_queues (join_pop p c s) p c)" using assms(3) by (simp add: join_pop_def)
  qed (use assms in \<open>simp_all add: join_pop_def\<close>)
  then show ?thesis by simp
qed

lemma bag_spawns:
  assumes "p < js_count_cores s" "\<And>x. x \<in> set xs \<Longrightarrow> fst x < js_count_cores s"
  shows "bag (fold (join_spawn p) xs s) = mset xs + bag s"
  using assms
proof (induction xs arbitrary: s)
  case (Cons x xs)
  have "bag (join_spawn p x s) = image_mset (Pair (fst x)) {#snd x#} + bag s"
  proof (rule bag_upd)
    show "js_queues (join_spawn p x s) q d = js_queues s q d" if "(q, d) \<noteq> (p, fst x)" for q d using that by (auto simp: join_spawn_def)
  qed (use Cons.prems in \<open>simp_all add: join_spawn_def\<close>)
  then have "bag (join_spawn p x s) = add_mset x (bag s)" by simp
  moreover have "js_count_cores (join_spawn p x s) = js_count_cores s" by (simp add: join_spawn_def)
  ultimately show ?case using Cons.IH [of "join_spawn p x s"] Cons.prems by simp
qed simp

lemma bag_queue: "p < js_count_cores s \<Longrightarrow> c < js_count_cores s \<Longrightarrow> task \<in> set (js_queues s p c) \<Longrightarrow> (c, task) \<in># bag s"
  by (auto simp: bag_def set_mset_sum)

lemma bag_member: "(c, task) \<in># bag s \<Longrightarrow> c < js_count_cores s \<and> (\<exists>p < js_count_cores s. task \<in> set (js_queues s p c))"
  by (auto simp: bag_def set_mset_sum)

subsection \<open>What a partition task spawns\<close>

fun numbered :: "u64 \<Rightarrow> nat \<Rightarrow> u32 list \<Rightarrow> row list" where
  "numbered offset i [] = []"
| "numbered offset i (key # keys) = (offset + of_nat i, key) # numbered offset (Suc i) keys"

definition rows_at :: "(u32 \<Rightarrow> nat) \<Rightarrow> nat \<Rightarrow> row list \<Rightarrow> row list" where
  "rows_at target c rows = filter (\<lambda>r. target (snd r) = c) rows"

lemma numbered_keys [simp]: "map snd (numbered offset i keys) = keys"
  by (induction keys arbitrary: i) auto

lemma rows_at_simps [simp]:
  "rows_at target c [] = []" "rows_at target c (xs @ ys) = rows_at target c xs @ rows_at target c ys"
  "rows_at target c (x # xs) = (if target (snd x) = c then [x] else []) @ rows_at target c xs"
  by (auto simp: rows_at_def)

lemma partition_loop_spawns:
  assumes "partition_loop target kind batch offset i keys filling out = (filling', out')"
  shows "\<exists>bs. spawns_at c out' = spawns_at c out @ map (Batch kind) bs \<and>
    concat bs @ filling' c = filling c @ rows_at target c (numbered offset i keys)"
  using assms
proof (induction keys arbitrary: i filling out)
  case (Cons key keys)
  let ?rows = "filling (target key) @ [(offset + of_nat i, key)]"
  show ?case
  proof (cases "length ?rows = batch")
    case True
    then have "partition_loop target kind batch offset (Suc i) keys (filling(target key := [])) (out @ [(target key, Batch kind ?rows)]) = (filling', out')"
      using Cons.prems by (simp add: Let_def del: fun_upd_apply)
    from Cons.IH [OF this] obtain bs where bs: "spawns_at c out' = spawns_at c (out @ [(target key, Batch kind ?rows)]) @ map (Batch kind) bs"
      "concat bs @ filling' c = (filling(target key := [])) c @ rows_at target c (numbered offset (Suc i) keys)"
      by (elim exE conjE) (rule that; assumption)
    show ?thesis
    proof (cases "target key = c")
      case c: True
      then show ?thesis using bs by (intro exI [of _ "?rows # bs"]) auto
    next
      case False
      then show ?thesis using bs by (intro exI [of _ bs]) auto
    qed
  next
    case False
    then have "partition_loop target kind batch offset (Suc i) keys (filling(target key := ?rows)) out = (filling', out')"
      using Cons.prems by (simp add: Let_def del: fun_upd_apply)
    from Cons.IH [OF this] show ?thesis by auto
  qed
qed (auto intro: exI [of _ "[]"])

lemma partition_loop_targets:
  "partition_loop target kind batch offset i keys filling out = (filling', out') \<Longrightarrow>
    \<forall>key. target key < n \<Longrightarrow> \<forall>x \<in> set out. fst x < n \<Longrightarrow> \<forall>x \<in> set out'. fst x < n"
proof (induction keys arbitrary: i filling out)
  case (Cons key keys)
  let ?rows = "filling (target key) @ [(offset + of_nat i, key)]"
  show ?case
  proof (cases "length ?rows = batch")
    case True
    then have "partition_loop target kind batch offset (Suc i) keys (filling(target key := [])) (out @ [(target key, Batch kind ?rows)]) = (filling', out')"
      using Cons.prems by (simp add: Let_def del: fun_upd_apply)
    then show ?thesis using Cons.prems(2) by (rule Cons.IH) (use Cons.prems in auto)
  next
    case False
    then have "partition_loop target kind batch offset (Suc i) keys (filling(target key := ?rows)) out = (filling', out')"
      using Cons.prems by (simp add: Let_def del: fun_upd_apply)
    then show ?thesis using Cons.prems(2,3) by (rule Cons.IH)
  qed
qed auto

lemma partition_loop_length:
  "partition_loop target kind batch offset i keys filling out = (filling', out') \<Longrightarrow> length out' \<le> length out + length keys"
proof (induction keys arbitrary: i filling out)
  case (Cons key keys)
  then show ?case by (fastforce simp: Let_def split: if_splits)
qed auto

lemma spawns_at_rest:
  assumes "c < n"
  shows "spawns_at c (concat (map (\<lambda>c. [(c, Batch kind (filling c)), (c, Notification kind)]) [0..<n])) =
    [Batch kind (filling c), Notification kind]"
  using assms by (induction n) (auto simp: spawns_at_def less_Suc_eq filter_empty_conv)

lemma partition_target_less: "0 < n \<Longrightarrow> partition_target std_hash n key < n"
  by (simp add: partition_target_def)

lemma partition_execute_spawns:
  assumes "0 < js_count_cores s" "c < js_count_cores s"
  shows "\<exists>bs. spawns_at c (partition_execute std_hash kind p keys s) = map (Batch kind) bs @ [Notification kind] \<and>
    concat bs = rows_at (partition_target std_hash (js_count_cores s)) c (numbered (of_nat p * of_nat (length keys)) 0 keys)"
proof -
  let ?t = "partition_target std_hash (js_count_cores s)" and ?o = "of_nat p * of_nat (length keys)"
  obtain filling out where l: "partition_loop ?t kind (js_batch_size s) ?o 0 keys (\<lambda>_. []) [] = (filling, out)" by fastforce
  then obtain bs where "spawns_at c out = map (Batch kind) bs" "concat bs @ filling c = rows_at ?t c (numbered ?o 0 keys)"
    using partition_loop_spawns [OF l, of c] by auto
  then show ?thesis using l spawns_at_rest [OF assms(2)]
    by (intro exI [of _ "bs @ [filling c]"]) (simp add: partition_execute_def)
qed

lemma partition_execute_targets:
  assumes "0 < js_count_cores s" "x \<in> set (partition_execute std_hash kind p keys s)"
  shows "fst x < js_count_cores s"
proof -
  let ?t = "partition_target std_hash (js_count_cores s)" and ?o = "of_nat p * of_nat (length keys)"
  obtain filling out where l: "partition_loop ?t kind (js_batch_size s) ?o 0 keys (\<lambda>_. []) [] = (filling, out)" by fastforce
  have "\<forall>x \<in> set out. fst x < js_count_cores s"
    using partition_loop_targets [OF l] partition_target_less [OF assms(1)] by simp
  then show ?thesis using assms(2) l by (auto simp: partition_execute_def)
qed

lemma partition_execute_length: "length (partition_execute std_hash kind p keys s) \<le> length keys + 2 * js_count_cores s"
proof -
  let ?t = "partition_target std_hash (js_count_cores s)" and ?o = "of_nat p * of_nat (length keys)"
  obtain filling out where l: "partition_loop ?t kind (js_batch_size s) ?o 0 keys (\<lambda>_. []) [] = (filling, out)" by fastforce
  have "length (concat (map (\<lambda>c. [(c, Batch kind (filling c)), (c, Notification kind)]) [0..<n])) = 2 * n" for n
    by (induction n) auto
  then show ?thesis using l partition_loop_length [OF l] by (simp add: partition_execute_def)
qed

subsection \<open>What waits\<close>

text \<open>The rows of a kind that wait for a channel, the notifications it will still get, and a bound on the tasks to come.\<close>

fun rows_of :: "(u32 \<Rightarrow> nat) \<Rightarrow> join_kind \<Rightarrow> nat \<Rightarrow> nat \<times> join_task \<Rightarrow> row multiset" where
  "rows_of target k c (d, Batch k' rows) = (if k' = k \<and> d = c then mset rows else {#})"
| "rows_of target k c (d, Partition k' keys) =
     (if k' = k then mset (rows_at target c (numbered (of_nat d * of_nat (length keys)) 0 keys)) else {#})"
| "rows_of target k c (d, Notification k') = {#}"
| "rows_of target k c (d, Merge) = {#}"

fun note_of :: "join_kind \<Rightarrow> nat \<Rightarrow> nat \<times> join_task \<Rightarrow> nat" where
  "note_of k c (d, Notification k') = (if k' = k \<and> d = c then 1 else 0)"
| "note_of k c (d, Partition k' keys) = (if k' = k then 1 else 0)"
| "note_of k c (d, Batch k' rows) = 0"
| "note_of k c (d, Merge) = 0"

fun weight :: "nat \<Rightarrow> nat \<times> join_task \<Rightarrow> nat" where
  "weight n (d, Partition k keys) = Suc (length keys + 2 * n)"
| "weight n (d, _) = 1"

definition pend :: "(u32 \<Rightarrow> nat) \<Rightarrow> join_kind \<Rightarrow> nat \<Rightarrow> (nat \<times> join_task) multiset \<Rightarrow> row multiset" where
  "pend target k c B = (\<Sum>x\<in>#B. rows_of target k c x)"

definition notifs :: "join_kind \<Rightarrow> nat \<Rightarrow> (nat \<times> join_task) multiset \<Rightarrow> nat" where
  "notifs k c B = (\<Sum>x\<in>#B. note_of k c x)"

definition total_weight :: "nat \<Rightarrow> (nat \<times> join_task) multiset \<Rightarrow> nat" where
  "total_weight n B = (\<Sum>x\<in>#B. weight n x)"

lemma waiting_simps [simp]:
  "pend target k c {#} = {#}" "pend target k c (add_mset x B) = rows_of target k c x + pend target k c B"
  "pend target k c (A + B) = pend target k c A + pend target k c B"
  "notifs k c {#} = 0" "notifs k c (add_mset x B) = note_of k c x + notifs k c B" "notifs k c (A + B) = notifs k c A + notifs k c B"
  "total_weight n {#} = 0" "total_weight n (add_mset x B) = weight n x + total_weight n B"
  "total_weight n (A + B) = total_weight n A + total_weight n B"
  by (simp_all add: pend_def notifs_def total_weight_def)

fun task_kind :: "join_task \<Rightarrow> join_kind option" where
  "task_kind (Partition k keys) = Some k"
| "task_kind (Batch k rows) = Some k"
| "task_kind (Notification k) = Some k"
| "task_kind Merge = None"

text \<open>Behind every batch of a queue is a notification.\<close>

fun ended :: "join_kind \<Rightarrow> join_task list \<Rightarrow> bool" where
  "ended k [] = True"
| "ended k (x # xs) = ((\<forall>rows. x = Batch k rows \<longrightarrow> Notification k \<in> set xs) \<and> ended k xs)"

lemma ended_append: "ended k xs \<Longrightarrow> ended k ys \<Longrightarrow> ended k (xs @ ys)"
  by (induction xs) auto

lemma ended_batches: "ended k' (map (Batch k) bs @ [Notification k])"
  by (induction bs) auto

lemma ended_batch: "ended k xs \<Longrightarrow> Batch k rows \<in> set xs \<Longrightarrow> Notification k \<in> set xs"
  by (induction xs) auto

lemma ended_no_batch: "(\<And>rows. Batch k rows \<notin> set xs) \<Longrightarrow> ended k xs"
  by (induction xs) auto

lemma waiting_spawns:
  assumes "\<forall>x \<in> set xs. (\<exists>rows. snd x = Batch k rows) \<or> snd x = Notification k"
  shows "pend target k' c (mset xs) = (\<Sum>t\<in>#mset (spawns_at c xs). rows_of target k' c (c, t))"
    "notifs k' c (mset xs) = (\<Sum>t\<in>#mset (spawns_at c xs). note_of k' c (c, t))"
    "total_weight n (mset xs) = length xs"
  using assms by (induction xs) (fastforce simp: pend_def notifs_def total_weight_def)+

lemma spawned_batches:
  assumes "spawns_at c xs = map (Batch k) bs @ [Notification k]"
  shows "(\<Sum>t\<in>#mset (spawns_at c xs). rows_of target k' c (c, t)) = (if k = k' then mset (concat bs) else {#})"
    "(\<Sum>t\<in>#mset (spawns_at c xs). note_of k' c (c, t)) = (if k = k' then 1 else 0)"
  unfolding assms by (induction bs) auto

text \<open>A partition task is worth what it spawns.\<close>

lemma partition_execute_kind:
  assumes "0 < js_count_cores s" "x \<in> set (partition_execute std_hash k p keys s)"
  shows "(\<exists>rows. snd x = Batch k rows) \<or> snd x = Notification k"
proof -
  have "snd x \<in> set (spawns_at (fst x) (partition_execute std_hash k p keys s))" using assms(2) by (auto simp: spawns_at_def)
  then show ?thesis using partition_execute_spawns [OF assms(1) partition_execute_targets [OF assms], of std_hash k p keys] by auto
qed

lemma partition_execute_waiting:
  assumes "0 < js_count_cores s" "c < js_count_cores s" and B_def: "B = mset (partition_execute std_hash k p keys s)"
  shows "pend (partition_target std_hash (js_count_cores s)) k' c B = rows_of (partition_target std_hash (js_count_cores s)) k' c (p, Partition k keys)"
    "notifs k' c B = note_of k' c (p, Partition k keys)" "total_weight (js_count_cores s) B < weight (js_count_cores s) (p, Partition k keys)"
proof -
  have "\<forall>x \<in> set (partition_execute std_hash k p keys s). (\<exists>rows. snd x = Batch k rows) \<or> snd x = Notification k"
    using partition_execute_kind [OF assms(1)] by blast
  note sp = waiting_spawns [OF this]
  obtain bs where bs: "spawns_at c (partition_execute std_hash k p keys s) = map (Batch k) bs @ [Notification k]"
    "concat bs = rows_at (partition_target std_hash (js_count_cores s)) c (numbered (of_nat p * of_nat (length keys)) 0 keys)"
    using partition_execute_spawns [OF assms(1,2)] by blast
  show "pend (partition_target std_hash (js_count_cores s)) k' c B = rows_of (partition_target std_hash (js_count_cores s)) k' c (p, Partition k keys)"
    unfolding B_def sp(1) spawned_batches(1) [OF bs(1)] by (simp add: bs(2))
  show "notifs k' c B = note_of k' c (p, Partition k keys)" unfolding B_def sp(2) spawned_batches(2) [OF bs(1)] by simp
  show "total_weight (js_count_cores s) B < weight (js_count_cores s) (p, Partition k keys)"
    unfolding B_def sp(3) using partition_execute_length [of std_hash k p keys s] by simp
qed

subsection \<open>The accounts of a phase\<close>

text \<open>
  In the phase of a kind only tasks of this kind wait; the listener counts the notifications to
  come, and the channels that still wait for one.
\<close>

definition queues_ok :: "nat \<Rightarrow> join_kind \<Rightarrow> join_state \<Rightarrow> bool" where
  "queues_ok n k s \<longleftrightarrow> js_count_cores s = n \<and> (\<forall>x \<in># bag s. task_kind (snd x) = Some k) \<and>
     (\<forall>p < n. \<forall>c < n. ended k (js_queues s p c))"

definition counts_ok :: "nat \<Rightarrow> join_kind \<Rightarrow> join_state \<Rightarrow> bool" where
  "counts_ok n k s \<longleftrightarrow> queues_ok n k s \<and> length (ls_pending_local (js_listener s k)) = 128 \<and>
     (\<forall>c < n. ls_pending_local (js_listener s k) ! c = of_nat (notifs k c (bag s)) \<and> notifs k c (bag s) \<le> n) \<and>
     ls_pending_global (js_listener s k) = of_nat (card {c. c < n \<and> notifs k c (bag s) \<noteq> 0}) \<and>
     (\<exists>c < n. notifs k c (bag s) \<noteq> 0)"

lemma bag_fields [simp]:
  "bag (s\<lparr>js_tables := x\<rparr>) = bag s" "bag (s\<lparr>js_results := y\<rparr>) = bag s" "bag (s\<lparr>js_listener := z\<rparr>) = bag s"
  "bag (s\<lparr>js_count_output_tuples := u, js_stopped := v\<rparr>) = bag s"
  by (simp_all add: bag_def)

lemma join_pop_simps [simp]:
  "js_count_cores (join_pop p c s) = js_count_cores s" "js_batch_size (join_pop p c s) = js_batch_size s" "js_tables (join_pop p c s) = js_tables s"
  "js_results (join_pop p c s) = js_results s" "js_listener (join_pop p c s) = js_listener s"
  "js_probe_tasks (join_pop p c s) = js_probe_tasks s" "js_count_output_tuples (join_pop p c s) = js_count_output_tuples s"
  "js_stopped (join_pop p c s) = js_stopped s"
  by (simp_all add: join_pop_def)

lemma counts_ok_cong:
  assumes "counts_ok n k s" "js_count_cores s' = js_count_cores s" "js_queues s' = js_queues s" "js_listener s' k = js_listener s k"
  shows "counts_ok n k s'"
proof -
  have "bag s' = bag s" using assms(2,3) by (simp add: bag_def)
  then show ?thesis using assms by (simp add: counts_ok_def queues_ok_def)
qed

lemma ended_tl: "ended k xs \<Longrightarrow> ended k (tl xs)"
  by (cases xs) auto

lemma queues_ok_pop:
  assumes "queues_ok n k s" "p < n" "c < n" "js_queues s p c = task # rest"
  shows "queues_ok n k (join_pop p c s)"
proof -
  have n: "js_count_cores s = n" using assms(1) by (simp add: queues_ok_def)
  have "bag s = add_mset (c, task) (bag (join_pop p c s))" using bag_pop [of p s c] assms n by simp
  moreover have "ended k (js_queues (join_pop p c s) q d)" if "q < n" "d < n" for q d
    using assms(1) that ended_tl [of k "js_queues s q d"] by (auto simp: queues_ok_def join_pop_def)
  ultimately show ?thesis using assms(1) n by (auto simp: queues_ok_def)
qed

lemma notifs_member: "x \<in># B \<Longrightarrow> note_of k c x \<le> notifs k c B"
  by (auto dest: multi_member_split)

lemma no_notifs_no_tasks:
  assumes "queues_ok n k s" "\<And>c. c < n \<Longrightarrow> notifs k c (bag s) = 0"
  shows "bag s = {#}"
proof (rule ccontr)
  assume "bag s \<noteq> {#}"
  then obtain c task where x: "(c, task) \<in># bag s" by (metis multiset_nonemptyE surj_pair)
  then have c: "c < n" and kind: "task_kind task = Some k" using bag_member [OF x] assms(1) by (auto simp: queues_ok_def)
  obtain p where p: "p < n" "task \<in> set (js_queues s p c)" using bag_member [OF x] assms(1) by (auto simp: queues_ok_def)
  have nt: "note_of k c (c, t) = 0" if "(c, t) \<in># bag s" for t using notifs_member [OF that, of k c] assms(2) [OF c] by simp
  show False
  proof (cases task)
    case (Batch k' rows)
    then have "Notification k \<in> set (js_queues s p c)"
      using ended_batch [of k "js_queues s p c" rows] assms(1) p c kind by (auto simp: queues_ok_def)
    then have "(c, Notification k) \<in># bag s" using bag_queue [of p s c] p(1) c assms(1) by (simp add: queues_ok_def)
    then show False using nt [of "Notification k"] by simp
  qed (use nt [OF x] kind in auto)
qed

lemma partition_step:
  assumes "counts_ok n k s" "0 < n" "p < n" "c < n" "js_queues s p c = Partition k keys # rest"
    "s' = fold (join_spawn c) (partition_execute std_hash k c keys (join_pop p c s)) (join_pop p c s)"
  shows "counts_ok n k s'" "d < n \<Longrightarrow> pend (partition_target std_hash n) k d (bag s') = pend (partition_target std_hash n) k d (bag s)"
    "total_weight n (bag s') < total_weight n (bag s)"
proof -
  let ?s1 = "join_pop p c s" and ?xs = "partition_execute std_hash k c keys (join_pop p c s)"
  have n: "js_count_cores s = n" and q: "queues_ok n k s" using assms(1) by (simp_all add: counts_ok_def queues_ok_def)
  have n1: "0 < js_count_cores ?s1" "js_count_cores ?s1 = n" using n assms(2) by simp_all
  have b: "bag s = add_mset (c, Partition k keys) (bag ?s1)" using bag_pop [of p s c] assms n by simp
  have b': "bag s' = mset ?xs + bag ?s1" unfolding assms(6)
    by (rule bag_spawns) (use n1 assms(4) partition_execute_targets [OF n1(1)] in simp_all)
  note w = partition_execute_waiting [OF n1(1) _ refl, where std_hash = std_hash and k = k and p = c and keys = keys, unfolded n1(2)]
  show "d < n \<Longrightarrow> pend (partition_target std_hash n) k d (bag s') = pend (partition_target std_hash n) k d (bag s)"
    unfolding b b' by (simp add: w(1))
  show "total_weight n (bag s') < total_weight n (bag s)" unfolding b b' using w(3) [OF assms(4)] by simp
  have notifs: "notifs k d (bag s') = notifs k d (bag s)" if "d < n" for d unfolding b b' using that by (simp add: w(2))
  have ended: "ended k (js_queues s' q d)" if "q < n" "d < n" for q d
  proof -
    have "ended k (js_queues ?s1 q d)" using queues_ok_pop [OF q assms(3-5)] that by (simp add: queues_ok_def)
    moreover have "ended k (spawns_at d ?xs)"
      using partition_execute_spawns [OF n1(1), of d std_hash k c keys] that n by (auto simp: ended_batches)
    ultimately show ?thesis unfolding assms(6) by (simp add: join_spawn_queues ended_append)
  qed
  have "task_kind (snd x) = Some k" if "x \<in># bag s'" for x
    using that q partition_execute_kind [OF n1(1), of x std_hash k c keys] unfolding b' b queues_ok_def by auto
  then have "queues_ok n k s'" using ended n unfolding assms(6) by (simp add: queues_ok_def join_spawn_rest)
  moreover have "{d. d < n \<and> notifs k d (bag s') \<noteq> 0} = {d. d < n \<and> notifs k d (bag s) \<noteq> 0}" using notifs by auto
  moreover have "js_listener s' = js_listener s" unfolding assms(6) by (simp add: join_spawn_rest)
  ultimately show "counts_ok n k s'" using assms(1) notifs unfolding counts_ok_def by auto
qed

lemma batch_step:
  assumes "counts_ok n k s" "p < n" "c < n" "js_queues s p c = Batch k rows # rest"
  shows "counts_ok n k (join_pop p c s)" "bag s = add_mset (c, Batch k rows) (bag (join_pop p c s))"
proof -
  have n: "js_count_cores s = n" and q: "queues_ok n k s" using assms(1) by (simp_all add: counts_ok_def queues_ok_def)
  show b: "bag s = add_mset (c, Batch k rows) (bag (join_pop p c s))" using bag_pop [of p s c] assms n by simp
  then show "counts_ok n k (join_pop p c s)" using assms(1) queues_ok_pop [OF q assms(2-4)] by (simp add: counts_ok_def)
qed

lemma of_nat_pred: "0 < x \<Longrightarrow> (of_nat x :: 'a::len word) - 1 = of_nat (x - 1)"
  by (cases x) auto

lemma of_nat_u32_zero: "x \<le> 128 \<Longrightarrow> (of_nat x :: u32) = 0 \<longleftrightarrow> x = 0"
  by (auto simp: word_of_nat_eq_0_iff dest: dvd_imp_le)

lemma waiting_channels_pop:
  assumes "A = add_mset (c, Notification k) B"
  shows "{d. d < n \<and> notifs k d B \<noteq> 0} =
    (if notifs k c B = 0 then {d. d < n \<and> notifs k d A \<noteq> 0} - {c} else {d. d < n \<and> notifs k d A \<noteq> 0})"
proof (rule set_eqI)
  fix d show "d \<in> {d. d < n \<and> notifs k d B \<noteq> 0} \<longleftrightarrow>
    d \<in> (if notifs k c B = 0 then {d. d < n \<and> notifs k d A \<noteq> 0} - {c} else {d. d < n \<and> notifs k d A \<noteq> 0})"
    by (cases "d = c") (simp_all add: assms)
qed

definition waiting_channels :: "nat \<Rightarrow> join_kind \<Rightarrow> (nat \<times> join_task) multiset \<Rightarrow> nat set" where
  "waiting_channels n k B = {d. d < n \<and> notifs k d B \<noteq> 0}"

lemma counts_ok_alt:
  "counts_ok n k s \<longleftrightarrow> queues_ok n k s \<and> length (ls_pending_local (js_listener s k)) = 128 \<and>
     (\<forall>c < n. ls_pending_local (js_listener s k) ! c = of_nat (notifs k c (bag s)) \<and> notifs k c (bag s) \<le> n) \<and>
     ls_pending_global (js_listener s k) = of_nat (card (waiting_channels n k (bag s))) \<and> waiting_channels n k (bag s) \<noteq> {}"
  unfolding counts_ok_def waiting_channels_def by blast

lemma finite_waiting_channels: "finite (waiting_channels n k B)"
  by (simp add: waiting_channels_def)

lemma card_waiting_channels: "card (waiting_channels n k B) \<le> n"
  using card_mono [of "{..<n}" "waiting_channels n k B"] by (auto simp: waiting_channels_def)

text \<open>The accounts after a notification, when the listener has counted it.\<close>

lemma counts_after_notification:
  assumes "counts_ok n k s" "n \<le> 128" "p < n" "c < n" "js_queues s p c = Notification k # rest"
    and B: "B = bag (join_pop p c s)" and s2: "s2 = (join_pop p c s)\<lparr>js_listener := (js_listener s)(k := l)\<rparr>"
    and l: "ls_pending_local l = (ls_pending_local (js_listener s k))[c := of_nat (notifs k c B)]"
      "ls_pending_global l = of_nat (card (waiting_channels n k B))"
  shows "if card (waiting_channels n k B) = 0 then bag s2 = {#} else counts_ok n k s2"
proof -
  have n: "js_count_cores s = n" and q: "queues_ok n k s" using assms(1) by (simp_all add: counts_ok_def queues_ok_def)
  have b: "bag s = add_mset (c, Notification k) B" using bag_pop [of p s c] assms(3-5) n B by simp
  have q2: "queues_ok n k s2" using queues_ok_pop [OF q assms(3-5)] by (simp add: queues_ok_def s2)
  have b2: "bag s2 = B" and l2: "js_listener s2 k = l" by (simp_all add: s2 B)
  have le: "notifs k d B \<le> notifs k d (bag s)" for d unfolding b by simp
  have "ls_pending_local l ! d = of_nat (notifs k d B) \<and> notifs k d B \<le> n" if "d < n" for d
    using assms(1,2,4) that le [of d] unfolding l(1) counts_ok_def b by (cases "d = c") auto
  moreover have "length (ls_pending_local l) = 128" using assms(1) by (simp add: l counts_ok_def)
  moreover have "bag s2 = {#}" if "waiting_channels n k B = {}"
    using that no_notifs_no_tasks [OF q2] b2 by (auto simp: waiting_channels_def)
  ultimately show ?thesis using q2 l(2) by (auto simp: counts_ok_alt b2 l2 finite_waiting_channels)
qed

text \<open>A notification goes on with the phase, or it is the last one and nothing waits any more.\<close>

lemma notification_step:
  assumes "counts_ok n k s" "n \<le> 128" "p < n" "c < n" "js_queues s p c = Notification k # rest"
  shows "\<exists>l s2. s2 = (join_pop p c s)\<lparr>js_listener := (js_listener s)(k := l)\<rparr> \<and>
    (notification_execute k c (join_pop p c s) = Some s2 \<and> counts_ok n k s2 \<or>
     notification_execute k c (join_pop p c s) = Some (notificator k c s2) \<and> bag s2 = {#})"
proof -
  define s1 B L where "s1 = join_pop p c s" and "B = bag (join_pop p c s)" and "L = js_listener s k"
  define l where "l = L\<lparr>ls_pending_local := (ls_pending_local L)[c := of_nat (notifs k c B)]\<rparr>"
  have b: "bag s = add_mset (c, Notification k) B" using bag_pop [of p s c] assms(1,3-5) by (simp add: counts_ok_def queues_ok_def B_def)
  have c: "ls_pending_local L ! c = of_nat (notifs k c (bag s))" "notifs k c (bag s) \<le> n"
    using assms(1,4) by (simp_all add: counts_ok_alt L_def)
  have L: "length (ls_pending_local L) = 128" "ls_pending_local L ! c = of_nat (Suc (notifs k c B))" "notifs k c B \<le> 128"
    "ls_pending_global L = of_nat (card (waiting_channels n k (bag s)))" "js_listener s1 k = L" "js_listener s1 = js_listener s"
    using assms(1,2) c by (simp_all add: counts_ok_alt L_def s1_def) (simp_all add: b)
  have get: "arr_get (ls_pending_local L) c = Some (of_nat (Suc (notifs k c B)))" using L(1,2) assms(2,4) by (simp add: arr_get_def)
  note after = counts_after_notification [OF assms B_def refl, folded L_def]
  show ?thesis
  proof (cases "notifs k c B = 0")
    case False
    then have "waiting_channels n k B = waiting_channels n k (bag s)"
      using waiting_channels_pop [OF b, of n] by (simp add: waiting_channels_def)
    then have glob: "ls_pending_global l = of_nat (card (waiting_channels n k B))" "waiting_channels n k B \<noteq> {}"
      using L(4) assms(1) by (simp_all add: l_def counts_ok_alt)
    have "notification_execute k c s1 = Some (s1\<lparr>js_listener := (js_listener s)(k := l)\<rparr>)"
      using get False of_nat_u32_zero [OF L(3)] L(5,6) by (simp add: notification_execute_def l_def)
    moreover have "card (waiting_channels n k B) \<noteq> 0" using glob(2) by (simp add: waiting_channels_def)
    then have "counts_ok n k (s1\<lparr>js_listener := (js_listener s)(k := l)\<rparr>)"
      using after [of l] glob(1) by (simp add: l_def s1_def)
    ultimately show ?thesis unfolding s1_def by (intro exI conjI disjI1) (rule refl, assumption+)
  next
    case True
    define l' where "l' = l\<lparr>ls_pending_global := ls_pending_global L - 1\<rparr>"
    have "waiting_channels n k B = waiting_channels n k (bag s) - {c}"
      unfolding waiting_channels_def using waiting_channels_pop [OF b, of n] True by (simp only: if_True simp_thms)
    moreover have "c \<in> waiting_channels n k (bag s)" using assms(4) by (simp add: waiting_channels_def b)
    ultimately have "card (waiting_channels n k (bag s)) = Suc (card (waiting_channels n k B))"
      using card_Suc_Diff1 [of "waiting_channels n k (bag s)" c] by (simp add: finite_waiting_channels)
    then have glob: "ls_pending_global l' = of_nat (card (waiting_channels n k B))" using L(4) by (simp add: l'_def)
    have "notification_execute k c s1 = Some (if ls_pending_global l' = 0 then notificator k c (s1\<lparr>js_listener := (js_listener s)(k := l')\<rparr>)
        else s1\<lparr>js_listener := (js_listener s)(k := l')\<rparr>)"
      using get True L(5,6) by (simp add: notification_execute_def l_def l'_def)
    moreover have "ls_pending_global l' = 0 \<longleftrightarrow> card (waiting_channels n k B) = 0"
      unfolding glob using of_nat_u32_zero card_waiting_channels assms(2) by (meson order_trans)
    moreover have "if card (waiting_channels n k B) = 0 then bag (s1\<lparr>js_listener := (js_listener s)(k := l')\<rparr>) = {#}
        else counts_ok n k (s1\<lparr>js_listener := (js_listener s)(k := l')\<rparr>)"
      unfolding s1_def by (rule after) (simp_all add: glob, simp add: l'_def l_def)
    ultimately show ?thesis unfolding s1_def
      by (intro exI [of _ l'] exI [of _ "(join_pop p c s)\<lparr>js_listener := (js_listener s)(k := l')\<rparr>"] conjI refl)
        (simp split: if_splits)
  qed
qed

subsection \<open>The chunks\<close>

lemma tuples_per_core_le: "0 < n \<Longrightarrow> tuples_per_core num n * n \<le> num"
proof -
  have "tuples_per_core num n * n = 16 * (num * 4 mod 2 ^ 64 div 64 div n * n)" by (simp add: tuples_per_core_def Let_def)
  also have "\<dots> \<le> 16 * (num * 4 mod 2 ^ 64 div 64)" by (intro mult_left_mono div_times_less_eq_dividend) simp
  also have "\<dots> \<le> 16 * (num * 4 div 64)" by (intro mult_left_mono div_le_mono) simp_all
  also have "\<dots> \<le> num" by simp
  finally show ?thesis .
qed

lemma core_keys_concat:
  assumes "0 < n"
  shows "concat (map (core_keys keys n) [0..<n]) = keys"
proof -
  let ?p = "tuples_per_core (length keys) n"
  have take: "concat (map (core_keys keys n) [0..<j]) = take (j * ?p) keys" if "j \<le> n - 1" for j
    using that
  proof (induction j)
    case (Suc j)
    then have "core_keys keys n j = take ?p (drop (j * ?p) keys)" by (simp add: core_keys_def Let_def)
    moreover have "Suc j * ?p = j * ?p + ?p" by simp
    ultimately show ?case using Suc by (simp only: upt_Suc_append le0 map_append concat_append take_add list.map concat.simps append_Nil2)
  qed simp
  obtain m where n: "n = Suc m" using assms by (cases n) auto
  then have "concat (map (core_keys keys n) [0..<n]) = take (m * ?p) keys @ core_keys keys n m" using take [of m] by simp
  also have "core_keys keys n m = drop (m * ?p) keys" using n by (simp add: core_keys_def Let_def)
  finally show ?thesis by simp
qed

text \<open>The rows of a relation, numbered as the partition tasks number them.\<close>

definition core_rows :: "u32 list \<Rightarrow> nat \<Rightarrow> nat \<Rightarrow> row list" where
  "core_rows keys n i = numbered (of_nat i * of_nat (length (core_keys keys n i))) 0 (core_keys keys n i)"

definition all_rows :: "u32 list \<Rightarrow> nat \<Rightarrow> row list" where
  "all_rows keys n = concat (map (core_rows keys n) [0..<n])"

lemma all_rows_keys: "0 < n \<Longrightarrow> map snd (all_rows keys n) = keys"
  by (simp add: all_rows_def map_concat o_def core_rows_def core_keys_concat)

definition partitions :: "join_kind \<Rightarrow> u32 list \<Rightarrow> nat \<Rightarrow> (nat \<times> join_task) list" where
  "partitions k keys n = map (\<lambda>i. (i, Partition k (core_keys keys n i))) [0..<n]"

lemma partitions_waiting:
  assumes "0 < n"
  shows "pend target k c (mset (partitions k keys n)) = mset (rows_at target c (all_rows keys n))"
    "notifs k c (mset (partitions k keys n)) = n"
    "total_weight n (mset (partitions k keys n)) = n + length keys + 2 * n * n"
proof -
  have l: "(\<Sum>i\<leftarrow>[0..<n]. length (core_keys keys n i)) = length keys"
    using arg_cong [OF core_keys_concat [OF assms, of keys], of length] by (simp add: length_concat o_def)
  have "pend target k c (mset (map (\<lambda>i. (i, Partition k (core_keys keys n i))) is)) = mset (rows_at target c (concat (map (core_rows keys n) is)))"
    "notifs k c (mset (map (\<lambda>i. (i, Partition k (core_keys keys n i))) is)) = length is"
    "total_weight n (mset (map (\<lambda>i. (i, Partition k (core_keys keys n i))) is)) = length is + (\<Sum>i\<leftarrow>is. length (core_keys keys n i)) + 2 * n * length is" for "is"
    by (induction "is") (simp_all add: core_rows_def)
  from this [of "[0..<n]"] show "pend target k c (mset (partitions k keys n)) = mset (rows_at target c (all_rows keys n))"
    "notifs k c (mset (partitions k keys n)) = n"
    "total_weight n (mset (partitions k keys n)) = n + length keys + 2 * n * n"
    by (simp_all add: partitions_def all_rows_def l)
qed

lemma phase_start:
  assumes "bag s = mset (partitions k keys n)" "js_count_cores s = n" "0 < n" "n \<le> 128" "js_listener s k = listener_new n"
  shows "counts_ok n k s"
proof -
  note w = partitions_waiting [OF assms(3), where k = k and keys = keys]
  have "ended k (js_queues s p c)" if "p < n" "c < n" for p c
  proof (rule ended_no_batch)
    show "Batch k rows \<notin> set (js_queues s p c)" for rows
      using bag_queue [of p s c "Batch k rows"] that assms(1,2) by (auto simp: partitions_def)
  qed
  then have "queues_ok n k s" using assms(1,2) by (auto simp: queues_ok_def partitions_def)
  moreover have "waiting_channels n k (bag s) = {..<n}" using assms(3) w(2) by (auto simp: waiting_channels_def assms(1))
  ultimately show ?thesis using assms(3-5) w(2) by (auto simp: counts_ok_alt assms(1) listener_new_def nth_append)
qed

subsection \<open>Building and probing\<close>

text \<open>
  A table that refines a map as long as it has room, and a client that inserts a list of rows.
\<close>

locale map_table =
  fixes rep :: "'t \<Rightarrow> ('k \<rightharpoonup> 'v) \<Rightarrow> bool"
    and room :: "'t \<Rightarrow> nat"
    and ok_key :: "'k \<Rightarrow> bool"
    and ins :: "'k \<Rightarrow> 'v \<Rightarrow> 't \<Rightarrow> 't option"
    and get :: "'k \<Rightarrow> 't \<Rightarrow> 'v option"
    and none :: 'v
  assumes ins_rep: "rep t m \<Longrightarrow> ok_key k \<Longrightarrow> card (dom m) < room t \<Longrightarrow> \<exists>t'. ins k v t = Some t' \<and> rep t' (m(k \<mapsto> v)) \<and> room t' = room t"
    and get_rep: "rep t m \<Longrightarrow> ok_key k \<Longrightarrow> card (dom m) < room t \<Longrightarrow> get k t = Some (case m k of Some v \<Rightarrow> v | None \<Rightarrow> none)"
    and finite_rep: "rep t m \<Longrightarrow> finite (dom m)"

locale map_table_build = map_table +
  fixes build :: "('v \<times> 'k) list \<Rightarrow> 't \<Rightarrow> 't option"
  assumes build_Nil: "build [] t = Some t"
    and build_Cons: "build (r # rs) t = ins (snd r) (fst r) t \<bind> build rs"
begin

lemma build_rep:
  assumes "rep t m" "\<forall>r \<in> set rs. ok_key (snd r)" "card (dom m) + length rs \<le> room t"
  shows "\<exists>t'. build rs t = Some t' \<and> rep t' (fold (\<lambda>r m. m(snd r \<mapsto> fst r)) rs m) \<and> room t' = room t"
  using assms
proof (induction rs arbitrary: t m)
  case (Cons r rs)
  then obtain t' where t': "ins (snd r) (fst r) t = Some t'" "rep t' (m(snd r \<mapsto> fst r))" "room t' = room t"
    using ins_rep [of t m "snd r" "fst r"] by auto
  have "card (dom (m(snd r \<mapsto> fst r))) \<le> Suc (card (dom m))" by (simp add: card_insert_if finite_rep [OF Cons.prems(1)])
  then have "card (dom (m(snd r \<mapsto> fst r))) + length rs \<le> room t'" using Cons.prems(3) t'(3) by simp
  from Cons.IH [OF t'(2) _ this] show ?case using Cons.prems(2) t'(1,3) by (simp add: build_Cons del: fun_upd_apply)
qed (simp add: build_Nil)

end

interpretation join_table: map_table_build "\<lambda>t m. (\<exists>e. ht_inv e t) \<and> ht_map t = m" "\<lambda>t. length (ht_entries t)" "\<lambda>k. k \<noteq> - 1"
  "\<lambda>k v t. ht_insert (length (ht_entries t)) k v t" "\<lambda>k t. ht_get (length (ht_entries t)) k t" "- 1" build_execute
proof
  fix t :: hashtable and k :: u32 and v :: u64 and m :: "u32 \<rightharpoonup> u64"
  assume rep: "(\<exists>e. ht_inv e t) \<and> ht_map t = m" and "k \<noteq> - 1" "card (dom m) < length (ht_entries t)"
  then obtain e where e: "ht_inv e t" by blast
  moreover have "length (ht_entries t') = 2 ^ e" if "ht_inv e t'" for t' using that by (simp add: ht_inv_def ht_shape_def)
  ultimately show "\<exists>t'. ht_insert (length (ht_entries t)) k v t = Some t' \<and> ((\<exists>e. ht_inv e t') \<and> ht_map t' = m(k \<mapsto> v)) \<and>
      length (ht_entries t') = length (ht_entries t)"
    using ht_insert_refines [OF e \<open>k \<noteq> - 1\<close>, of "length (ht_entries t)" v] \<open>card (dom m) < _\<close> rep by auto
  show "ht_get (length (ht_entries t)) k t = Some (case m k of Some v \<Rightarrow> v | None \<Rightarrow> - 1)"
    using ht_get_refines [OF e \<open>k \<noteq> - 1\<close>] \<open>card (dom m) < _\<close> rep e by (simp add: ht_inv_def ht_shape_def)
qed (auto simp: ht_map_def finite_dom_map_of)

text \<open>The entries of a map that a list of rows with different keys is inserted into.\<close>

lemma fold_insert_graph:
  assumes "distinct (map snd rs)" "\<And>r. r \<in> set rs \<Longrightarrow> m (snd r) = None"
  shows "fold (\<lambda>r m. m(snd r \<mapsto> fst r)) rs m key = Some v \<longleftrightarrow> m key = Some v \<or> (v, key) \<in> set rs"
  using assms
proof (induction rs arbitrary: m)
  case (Cons r rs)
  have "fold (\<lambda>r m. m(snd r \<mapsto> fst r)) rs (m(snd r \<mapsto> fst r)) key = Some v \<longleftrightarrow> (m(snd r \<mapsto> fst r)) key = Some v \<or> (v, key) \<in> set rs"
    using Cons.prems by (intro Cons.IH) (auto simp: image_iff)
  moreover have "(m(snd r \<mapsto> fst r)) key = Some v \<longleftrightarrow> m key = Some v \<or> (v, key) = r"
    using Cons.prems(2) [of r] by (cases r) auto
  ultimately show ?case by (auto simp del: fun_upd_apply)
qed simp

text \<open>A table holds a multiset of rows.\<close>

definition table_holds :: "hashtable \<Rightarrow> row multiset \<Rightarrow> bool" where
  "table_holds t D \<longleftrightarrow> (\<exists>e. ht_inv e t) \<and> (\<forall>key v. ht_map t key = Some v \<longleftrightarrow> (v, key) \<in># D)"

lemma table_holds_dom: "table_holds t D \<Longrightarrow> card (dom (ht_map t)) \<le> size D"
proof -
  assume "table_holds t D"
  moreover obtain xs where xs: "mset xs = D" using ex_mset by blast
  ultimately have "dom (ht_map t) = set (map snd xs)" by (force simp: table_holds_def dom_def)
  then show ?thesis using card_length [of "map snd xs"] xs by (metis length_map size_mset)
qed

lemma build_execute_holds:
  assumes "table_holds t D" "distinct (map snd rs)" "set (map snd rs) \<inter> set_mset (image_mset snd D) = {}"
    "- 1 \<notin> snd ` set rs" "size D + length rs \<le> length (ht_entries t)"
  shows "\<exists>t'. build_execute rs t = Some t' \<and> table_holds t' (D + mset rs) \<and> length (ht_entries t') = length (ht_entries t)"
proof -
  have "\<exists>t'. build_execute rs t = Some t' \<and> ((\<exists>e. ht_inv e t') \<and> ht_map t' = fold (\<lambda>r m. m(snd r \<mapsto> fst r)) rs (ht_map t)) \<and>
      length (ht_entries t') = length (ht_entries t)"
  proof (rule join_table.build_rep)
    show "(\<exists>e. ht_inv e t) \<and> ht_map t = ht_map t" using assms(1) by (simp add: table_holds_def)
    show "\<forall>r \<in> set rs. snd r \<noteq> - 1" using assms(4) by force
    show "card (dom (ht_map t)) + length rs \<le> length (ht_entries t)" using table_holds_dom [OF assms(1)] assms(5) by simp
  qed
  then obtain t' where t': "build_execute rs t = Some t'" "\<exists>e. ht_inv e t'"
    "ht_map t' = fold (\<lambda>r m. m(snd r \<mapsto> fst r)) rs (ht_map t)" "length (ht_entries t') = length (ht_entries t)" by blast
  have "ht_map t (snd r) = None" if "r \<in> set rs" for r
  proof (rule ccontr)
    assume "ht_map t (snd r) \<noteq> None"
    then obtain v where "(v, snd r) \<in># D" using assms(1) by (auto simp: table_holds_def)
    then have "snd r \<in># image_mset snd D" by (metis image_eqI set_image_mset snd_conv)
    then show False using assms(3) that by auto
  qed
  then have "ht_map t' key = Some v \<longleftrightarrow> (v, key) \<in># D + mset rs" for key v
    unfolding t'(3) using fold_insert_graph [OF assms(2), of "ht_map t" key v] assms(1) by (auto simp: table_holds_def)
  then show ?thesis using t' by (auto simp: table_holds_def)
qed

text \<open>The matches of rows with a table.\<close>

definition match_of :: "(u32 \<rightharpoonup> u64) \<Rightarrow> row \<Rightarrow> (u64 \<times> u64) multiset" where
  "match_of M r = (case M (snd r) of None \<Rightarrow> {#} | Some l \<Rightarrow> {#(fst r, l)#})"

lemma probe_execute_matches:
  assumes "table_holds t D" "size D < length (ht_entries t)" "- 1 \<notin> snd ` set rs" "- 1 \<notin># image_mset fst D"
    "vec_rep res xs" "0 < vec_capacity res" "vec_capacity res \<le> C" "2 * (length xs + length rs) \<le> C" "C < 2 ^ 63"
  shows "\<exists>res' ys. probe_execute rs t res = Some res' \<and> vec_rep res' (xs @ ys) \<and> mset ys = (\<Sum>r\<in>#mset rs. match_of (ht_map t) r) \<and>
    0 < vec_capacity res' \<and> vec_capacity res' \<le> C \<and> length ys \<le> length rs"
  using assms(3,5-8)
proof (induction rs arbitrary: res xs)
  case (Cons r rs)
  have "card (dom (ht_map t)) < length (ht_entries t)" using table_holds_dom [OF assms(1)] assms(2) by simp
  then have get: "ht_get (length (ht_entries t)) (snd r) t = Some (case ht_map t (snd r) of Some v \<Rightarrow> v | None \<Rightarrow> - 1)"
    using join_table.get_rep [of t "ht_map t" "snd r"] assms(1) Cons.prems(1) by (auto simp: table_holds_def)
  show ?case
  proof (cases "ht_map t (snd r)")
    case None
    then have "probe_execute (r # rs) t res = probe_execute rs t res" "match_of (ht_map t) r = {#}"
      using get by (simp_all add: match_of_def)
    then show ?thesis using Cons.IH [OF _ Cons.prems(2-4)] Cons.prems by (auto intro: le_SucI)
  next
    case (Some l)
    then have "(l, snd r) \<in># D" using assms(1) by (simp add: table_holds_def)
    then have l: "l \<noteq> - 1" using assms(4) by force
    obtain res1 where res1: "vec_emplace_back (fst r, l) res = Some res1" "vec_rep res1 (xs @ [(fst r, l)])"
      "vec_capacity res \<le> vec_capacity res1" "vec_capacity res1 \<le> max (vec_capacity res) (2 * length xs)"
      using vec_emplace_back_rep [OF Cons.prems(2,3), of "(fst r, l)"] Cons.prems(4) assms(9) by auto
    have "probe_execute (r # rs) t res = probe_execute rs t res1" using get Some l res1(1) by simp
    moreover have "vec_capacity res1 \<le> C" "0 < vec_capacity res1" "2 * (length (xs @ [(fst r, l)]) + length rs) \<le> C"
      using res1(3,4) Cons.prems by auto
    then obtain res' ys where "probe_execute rs t res1 = Some res'" "vec_rep res' ((xs @ [(fst r, l)]) @ ys)"
      "mset ys = (\<Sum>r\<in>#mset rs. match_of (ht_map t) r)" "0 < vec_capacity res'" "vec_capacity res' \<le> C" "length ys \<le> length rs"
      using Cons.IH [of res1 "xs @ [(fst r, l)]"] res1(2) Cons.prems(1) by auto
    ultimately show ?thesis using Some by (intro exI [of _ res'] exI [of _ "(fst r, l) # ys"]) (simp add: match_of_def)
  qed
qed simp

subsection \<open>The invariant\<close>

text \<open>
  The keys of the left relation differ from each other and from the key of free slots, and every
  table has more slots than rows.
\<close>

definition join_setting :: "nat \<Rightarrow> (u32 \<Rightarrow> nat) \<Rightarrow> row list \<Rightarrow> row list \<Rightarrow> nat \<Rightarrow> nat \<Rightarrow> bool" where
  "join_setting n target L R e C \<longleftrightarrow> 0 < n \<and> n \<le> 128 \<and> distinct (map snd L) \<and> - 1 \<notin> snd ` set L \<and> - 1 \<notin> snd ` set R \<and>
     - 1 \<notin> fst ` set L \<and> (\<forall>c < n. length (rows_at target c L) < 2 ^ e) \<and> 2 * length R \<le> C \<and> C < 2 ^ 63"

definition tables_ok :: "nat \<Rightarrow> (u32 \<Rightarrow> nat) \<Rightarrow> row list \<Rightarrow> nat \<Rightarrow> join_state \<Rightarrow> bool" where
  "tables_ok n target L e s \<longleftrightarrow> length (js_tables s) = n \<and> (\<forall>c < n. length (ht_entries (js_tables s ! c)) = 2 ^ e \<and>
     (\<exists>D. table_holds (js_tables s ! c) D \<and> D + pend target BuildKind c (bag s) = mset (rows_at target c L)))"

definition row_map :: "row list \<Rightarrow> u32 \<rightharpoonup> u64" where
  "row_map L = map_of (map (\<lambda>r. (snd r, fst r)) L)"

definition results_ok :: "nat \<Rightarrow> (u32 \<Rightarrow> nat) \<Rightarrow> row list \<Rightarrow> row list \<Rightarrow> nat \<Rightarrow> join_state \<Rightarrow> bool" where
  "results_ok n target L R C s \<longleftrightarrow> length (js_results s) = n \<and> (\<forall>c < n. 0 < vec_capacity (js_results s ! c) \<and> vec_capacity (js_results s ! c) \<le> C \<and>
     (\<exists>xs D. vec_rep (js_results s ! c) xs \<and> D + pend target ProbeKind c (bag s) = mset (rows_at target c R) \<and>
       mset xs = (\<Sum>r\<in>#D. match_of (row_map L) r) \<and> length xs \<le> size D))"

lemma row_map_Some: "distinct (map snd L) \<Longrightarrow> row_map L key = Some v \<longleftrightarrow> (v, key) \<in> set L"
  by (auto simp: row_map_def map_of_eq_Some_iff o_def image_iff split: prod.splits) force+

lemma rows_part:
  assumes "D + mset rows + P = mset (rows_at target c L)" "distinct (map snd L)"
  shows "distinct (map snd rows)" "set (map snd rows) \<inter> set_mset (image_mset snd D) = {}" "set rows \<subseteq> set L" "size D + length rows \<le> length (rows_at target c L)"
    "\<And>r. r \<in> set rows \<Longrightarrow> target (snd r) = c"
proof -
  obtain ds ps where l: "mset ds = D" "mset ps = P" by (metis ex_mset)
  then have m: "mset (ds @ rows @ ps) = mset (rows_at target c L)" using assms(1) by (simp add: add.assoc)
  have "distinct (map snd (rows_at target c L))" using assms(2) by (simp add: rows_at_def distinct_map_filter)
  moreover have "mset (map snd (ds @ rows @ ps)) = mset (map snd (rows_at target c L))" using m by (metis mset_map)
  ultimately have d: "distinct (map snd (ds @ rows @ ps))" by (metis mset_eq_imp_distinct_iff)
  show "distinct (map snd rows)" using d by simp
  show "set (map snd rows) \<inter> set_mset (image_mset snd D) = {}" using d unfolding l(1) [symmetric] by auto
  have mem: "r \<in> set (rows_at target c L)" if "r \<in> set rows" for r using m that by (metis UnCI set_append mset_eq_setD)
  then show "set rows \<subseteq> set L" "\<And>r. r \<in> set rows \<Longrightarrow> target (snd r) = c" by (auto simp: rows_at_def)
  show "size D + length rows \<le> length (rows_at target c L)" using arg_cong [OF assms(1), of size] by simp
qed

lemma build_step:
  assumes set: "join_setting n target L R e C" and "counts_ok n BuildKind s" "tables_ok n target L e s" "p < n" "c < n"
    "js_queues s p c = Batch BuildKind rows # rest"
  shows "\<exists>t'. join_execute std_hash c (Batch BuildKind rows) (join_pop p c s) = Some ((join_pop p c s)\<lparr>js_tables := (js_tables s)[c := t']\<rparr>) \<and>
    tables_ok n target L e ((join_pop p c s)\<lparr>js_tables := (js_tables s)[c := t']\<rparr>)"
proof -
  note b = batch_step [OF assms(2,4-6)]
  let ?t = "js_tables s ! c" and ?B = "bag (join_pop p c s)"
  obtain D where D: "table_holds ?t D" "D + mset rows + pend target BuildKind c ?B = mset (rows_at target c L)"
    and len: "length (ht_entries ?t) = 2 ^ e" "length (js_tables s) = n"
    using assms(3,5) b(2) by (auto simp: tables_ok_def add.assoc)
  have dist: "distinct (map snd L)" and no: "- 1 \<notin> snd ` set L" and room: "length (rows_at target c L) < 2 ^ e" using set assms(5) by (auto simp: join_setting_def)
  note part = rows_part [OF D(2) dist]
  have nk: "- 1 \<notin> snd ` set rows" using part(3) no by auto
  have sz: "size D + length rows \<le> length (ht_entries ?t)" using part(4) room len(1) by simp
  obtain t' where t': "build_execute rows ?t = Some t'" "table_holds t' (D + mset rows)" "length (ht_entries t') = length (ht_entries ?t)"
    using build_execute_holds [OF D(1) part(1,2) nk sz] by blast
  have "\<exists>D'. table_holds ((js_tables s)[c := t'] ! d) D' \<and> D' + pend target BuildKind d ?B = mset (rows_at target d L)" if "d < n" for d
  proof (cases "d = c")
    case True
    then show ?thesis using t'(2) D(2) assms(5) len(2) by auto
  next
    case False
    then have "pend target BuildKind d ?B = pend target BuildKind d (bag s)" using b(2) by simp
    then show ?thesis using assms(3) that False by (simp add: tables_ok_def)
  qed
  moreover have "length (ht_entries ((js_tables s)[c := t'] ! d)) = 2 ^ e" if "d < n" for d
    using assms(3) that t'(3) by (cases "d = c") (auto simp: tables_ok_def)
  ultimately have "tables_ok n target L e ((join_pop p c s)\<lparr>js_tables := (js_tables s)[c := t']\<rparr>)" using len(2) by (simp add: tables_ok_def)
  then show ?thesis using t'(1) assms(5) len(2) by (intro exI [of _ t']) (simp add: arr_get_def)
qed

text \<open>When no build task waits any more, the tables hold all rows of the left relation.\<close>

lemma tables_complete:
  assumes "tables_ok n target L e s" "c < n" "pend target BuildKind c (bag s) = {#}"
  shows "table_holds (js_tables s ! c) (mset (rows_at target c L))"
  using assms by (auto simp: tables_ok_def)

lemma match_of_table:
  assumes "table_holds t (mset (rows_at target c L))" "distinct (map snd L)" "target (snd r) = c"
  shows "match_of (ht_map t) r = match_of (row_map L) r"
proof -
  have "ht_map t (snd r) = Some v \<longleftrightarrow> row_map L (snd r) = Some v" for v
    using assms row_map_Some [OF assms(2), of "snd r" v] by (auto simp: table_holds_def rows_at_def)
  then have "ht_map t (snd r) = row_map L (snd r)" by (metis option.exhaust)
  then show ?thesis by (simp add: match_of_def)
qed

lemma probe_step:
  assumes set: "join_setting n target L R e C" and "counts_ok n ProbeKind s" "tables_ok n target L e s" "results_ok n target L R C s"
    "p < n" "c < n" "js_queues s p c = Batch ProbeKind rows # rest" "pend target BuildKind c (bag s) = {#}"
  shows "\<exists>v. join_execute std_hash c (Batch ProbeKind rows) (join_pop p c s) = Some ((join_pop p c s)\<lparr>js_results := (js_results s)[c := v]\<rparr>) \<and>
    results_ok n target L R C ((join_pop p c s)\<lparr>js_results := (js_results s)[c := v]\<rparr>)"
proof -
  note b = batch_step [OF assms(2,5-7)]
  let ?t = "js_tables s ! c" and ?v = "js_results s ! c" and ?B = "bag (join_pop p c s)"
  have S: "distinct (map snd L)" "- 1 \<notin> snd ` set R" "- 1 \<notin> fst ` set L" "length (rows_at target c L) < 2 ^ e" "2 * length R \<le> C" "C < 2 ^ 63"
    using set assms(6) by (auto simp: join_setting_def)
  have t: "table_holds ?t (mset (rows_at target c L))" "length (ht_entries ?t) = 2 ^ e" "length (js_tables s) = n"
    using tables_complete [OF assms(3,6,8)] assms(3,6) by (auto simp: tables_ok_def)
  obtain xs D where D: "vec_rep ?v xs" "D + mset rows + pend target ProbeKind c ?B = mset (rows_at target c R)"
      "mset xs = (\<Sum>r\<in>#D. match_of (row_map L) r)" "length xs \<le> size D"
    and cap: "0 < vec_capacity ?v" "vec_capacity ?v \<le> C" "length (js_results s) = n"
    using assms(4,6) b(2) by (auto simp: results_ok_def add.assoc)
  have rows: "r \<in> set R \<and> target (snd r) = c" if "r \<in> set rows" for r
    using that arg_cong [OF D(2), of set_mset] by (auto simp: rows_at_def)
  have "length (rows_at target c R) \<le> length R" by (simp add: rows_at_def)
  then have len: "size D + length rows \<le> length R" using arg_cong [OF D(2), of size] by simp
  have "\<exists>v ys. probe_execute rows ?t ?v = Some v \<and> vec_rep v (xs @ ys) \<and> mset ys = (\<Sum>r\<in>#mset rows. match_of (ht_map ?t) r) \<and>
      0 < vec_capacity v \<and> vec_capacity v \<le> C \<and> length ys \<le> length rows"
  proof (rule probe_execute_matches [OF t(1) _ _ _ D(1) cap(1,2) _ S(6)])
    show "size (mset (rows_at target c L)) < length (ht_entries ?t)" using S(4) t(2) by simp
    show "- 1 \<notin> snd ` set rows" using S(2) rows by force
    show "- 1 \<notin># image_mset fst (mset (rows_at target c L))" using S(3) by (auto simp: rows_at_def)
    show "2 * (length xs + length rows) \<le> C" using S(5) len D(4) by simp
  qed
  then obtain v ys where v: "probe_execute rows ?t ?v = Some v" "vec_rep v (xs @ ys)" "mset ys = (\<Sum>r\<in>#mset rows. match_of (ht_map ?t) r)"
    "0 < vec_capacity v" "vec_capacity v \<le> C" "length ys \<le> length rows" by blast
  have "(\<Sum>r\<in>#mset rows. match_of (ht_map ?t) r) = (\<Sum>r\<in>#mset rows. match_of (row_map L) r)"
    using match_of_table [OF t(1) S(1)] rows by (intro arg_cong [of _ _ sum_mset] image_mset_cong) auto
  then have ys: "mset (xs @ ys) = (\<Sum>r\<in>#D + mset rows. match_of (row_map L) r)" using D(3) v(3) by simp
  have "\<exists>xs D. vec_rep ((js_results s)[c := v] ! d) xs \<and> D + pend target ProbeKind d ?B = mset (rows_at target d R) \<and>
      mset xs = (\<Sum>r\<in>#D. match_of (row_map L) r) \<and> length xs \<le> size D" if "d < n" for d
  proof (cases "d = c")
    case True
    then show ?thesis using v(2,6) D(2,4) ys assms(6) cap(3) by (intro exI [of _ "xs @ ys"] exI [of _ "D + mset rows"]) auto
  next
    case False
    then have "pend target ProbeKind d ?B = pend target ProbeKind d (bag s)" using b(2) by simp
    then show ?thesis using assms(4) that False by (simp add: results_ok_def)
  qed
  moreover have "0 < vec_capacity ((js_results s)[c := v] ! d) \<and> vec_capacity ((js_results s)[c := v] ! d) \<le> C" if "d < n" for d
    using assms(4) that v(4,5) cap(3) by (cases "d = c") (auto simp: results_ok_def)
  ultimately have "results_ok n target L R C ((join_pop p c s)\<lparr>js_results := (js_results s)[c := v]\<rparr>)" using cap(3) by (simp add: results_ok_def)
  then show ?thesis using v(1) assms(6) t(3) cap(3) by (intro exI [of _ v]) (simp add: arr_get_def)
qed

lemma tables_ok_cong:
  assumes "tables_ok n target L e s" "js_tables s' = js_tables s" "\<And>c. c < n \<Longrightarrow> pend target BuildKind c (bag s') = pend target BuildKind c (bag s)"
  shows "tables_ok n target L e s'"
  using assms by (simp add: tables_ok_def)

lemma results_ok_cong:
  assumes "results_ok n target L R C s" "js_results s' = js_results s" "\<And>c. c < n \<Longrightarrow> pend target ProbeKind c (bag s') = pend target ProbeKind c (bag s)"
  shows "results_ok n target L R C s'"
  using assms by (simp add: results_ok_def)

lemma pend_other_kind: "(\<And>x. x \<in># B \<Longrightarrow> task_kind (snd x) = Some k) \<Longrightarrow> k \<noteq> k' \<Longrightarrow> pend target k' c B = {#}"
proof (induction B)
  case (add x B)
  then have "rows_of target k' c x = {#}" by (cases "(target, k', c, x)" rule: rows_of.cases) fastforce+
  then show ?case using add by simp
qed simp

text \<open>The four phases of a run after \<open>k\<close> of at most \<open>K\<close> steps.\<close>

definition build_phase :: "nat \<Rightarrow> (u32 \<Rightarrow> nat) \<Rightarrow> row list \<Rightarrow> nat \<Rightarrow> nat \<Rightarrow> u32 list \<Rightarrow> nat \<Rightarrow> nat \<Rightarrow> join_state \<Rightarrow> bool" where
  "build_phase n target L e C right K k s \<longleftrightarrow> \<not> js_stopped s \<and> js_count_output_tuples s = 0 \<and> counts_ok n BuildKind s \<and> tables_ok n target L e s \<and>
     length (js_results s) = n \<and> (\<forall>c < n. vec_rep (js_results s ! c) [] \<and> 0 < vec_capacity (js_results s ! c) \<and> vec_capacity (js_results s ! c) \<le> C) \<and>
     js_listener s ProbeKind = listener_new n \<and> js_probe_tasks s = map snd (partitions ProbeKind right n) \<and>
     k + total_weight n (bag s) + (n + length right + 2 * n * n) + 1 \<le> K"

definition probe_phase :: "nat \<Rightarrow> (u32 \<Rightarrow> nat) \<Rightarrow> row list \<Rightarrow> row list \<Rightarrow> nat \<Rightarrow> nat \<Rightarrow> nat \<Rightarrow> nat \<Rightarrow> join_state \<Rightarrow> bool" where
  "probe_phase n target L R e C K k s \<longleftrightarrow> \<not> js_stopped s \<and> js_count_output_tuples s = 0 \<and> counts_ok n ProbeKind s \<and> tables_ok n target L e s \<and>
     results_ok n target L R C s \<and> k + total_weight n (bag s) + 1 \<le> K"

definition merge_phase :: "nat \<Rightarrow> (u32 \<Rightarrow> nat) \<Rightarrow> row list \<Rightarrow> row list \<Rightarrow> nat \<Rightarrow> nat \<Rightarrow> nat \<Rightarrow> join_state \<Rightarrow> bool" where
  "merge_phase n target L R C K k s \<longleftrightarrow> \<not> js_stopped s \<and> js_count_output_tuples s = 0 \<and> js_count_cores s = n \<and> (\<exists>c < n. bag s = {#(c, Merge)#}) \<and>
     results_ok n target L R C s \<and> k + 1 \<le> K"

definition done_phase :: "nat \<Rightarrow> (u32 \<Rightarrow> nat) \<Rightarrow> row list \<Rightarrow> row list \<Rightarrow> nat \<Rightarrow> nat \<Rightarrow> nat \<Rightarrow> join_state \<Rightarrow> bool" where
  "done_phase n target L R C K k s \<longleftrightarrow> js_stopped s \<and> js_count_cores s = n \<and> bag s = {#} \<and> results_ok n target L R C s \<and>
     js_count_output_tuples s = of_nat (\<Sum>v\<leftarrow>js_results s. vec_size v) \<and> k \<le> K"

lemma build_phase_partition:
  assumes "build_phase n target L e C right K k s" "0 < n" "target = partition_target std_hash n" "p < n" "c < n" "js_queues s p c = Partition BuildKind keys # rest"
  shows "\<exists>s'. join_execute std_hash c (Partition BuildKind keys) (join_pop p c s) = Some s' \<and> build_phase n target L e C right K (Suc k) s'"
proof -
  let ?s = "fold (join_spawn c) (partition_execute std_hash BuildKind c keys (join_pop p c s)) (join_pop p c s)"
  have "counts_ok n BuildKind s" using assms(1) by (simp add: build_phase_def)
  note step = partition_step [OF this assms(2,4-6) refl, where std_hash = std_hash]
  have "tables_ok n target L e s" using assms(1) by (simp add: build_phase_def)
  then have "tables_ok n target L e ?s" by (rule tables_ok_cong) (simp_all add: join_spawn_rest step(2) assms(3))
  then have "build_phase n target L e C right K (Suc k) ?s" using assms(1) step(1,3) by (simp add: build_phase_def join_spawn_rest)
  then show ?thesis by simp
qed

lemma probe_phase_partition:
  assumes "probe_phase n target L R e C K k s" "0 < n" "target = partition_target std_hash n" "p < n" "c < n" "js_queues s p c = Partition ProbeKind keys # rest"
  shows "\<exists>s'. join_execute std_hash c (Partition ProbeKind keys) (join_pop p c s) = Some s' \<and> probe_phase n target L R e C K (Suc k) s'"
proof -
  let ?s = "fold (join_spawn c) (partition_execute std_hash ProbeKind c keys (join_pop p c s)) (join_pop p c s)"
  have c: "counts_ok n ProbeKind s" using assms(1) by (simp add: probe_phase_def)
  note step = partition_step [OF c assms(2,4-6) refl, where std_hash = std_hash]
  have no: "pend target BuildKind d (bag s') = {#}" if "counts_ok n ProbeKind s'" for d s'
    using that pend_other_kind [of "bag s'" ProbeKind BuildKind] by (auto simp: counts_ok_def queues_ok_def)
  have ok: "tables_ok n target L e s" "results_ok n target L R C s" using assms(1) by (simp_all add: probe_phase_def)
  have "tables_ok n target L e ?s" by (rule tables_ok_cong [OF ok(1)]) (simp_all add: join_spawn_rest no c step(1))
  moreover have "results_ok n target L R C ?s" by (rule results_ok_cong [OF ok(2)]) (simp_all add: join_spawn_rest step(2) assms(3))
  ultimately have "probe_phase n target L R e C K (Suc k) ?s" using assms(1) step(1,3) by (simp add: probe_phase_def join_spawn_rest)
  then show ?thesis by simp
qed

lemma build_phase_batch:
  assumes set: "join_setting n target L R e C" and "build_phase n target L e C right K k s" "p < n" "c < n" "js_queues s p c = Batch BuildKind rows # rest"
  shows "\<exists>s'. join_execute std_hash c (Batch BuildKind rows) (join_pop p c s) = Some s' \<and> build_phase n target L e C right K (Suc k) s'"
proof -
  have ok: "counts_ok n BuildKind s" "tables_ok n target L e s" using assms(2) by (simp_all add: build_phase_def)
  note b = batch_step [OF ok(1) assms(3-5)]
  obtain t' where t': "join_execute std_hash c (Batch BuildKind rows) (join_pop p c s) = Some ((join_pop p c s)\<lparr>js_tables := (js_tables s)[c := t']\<rparr>)"
    "tables_ok n target L e ((join_pop p c s)\<lparr>js_tables := (js_tables s)[c := t']\<rparr>)"
    using build_step [OF set ok assms(3-5)] by blast
  have "counts_ok n BuildKind ((join_pop p c s)\<lparr>js_tables := (js_tables s)[c := t']\<rparr>)" by (rule counts_ok_cong [OF b(1)]) simp_all
  moreover have "total_weight n (bag s) = Suc (total_weight n (bag (join_pop p c s)))" using b(2) by simp
  ultimately have "build_phase n target L e C right K (Suc k) ((join_pop p c s)\<lparr>js_tables := (js_tables s)[c := t']\<rparr>)"
    using assms(2) t'(2) by (simp add: build_phase_def)
  then show ?thesis using t'(1) by blast
qed

lemma probe_phase_batch:
  assumes set: "join_setting n target L R e C" and "probe_phase n target L R e C K k s" "p < n" "c < n" "js_queues s p c = Batch ProbeKind rows # rest"
  shows "\<exists>s'. join_execute std_hash c (Batch ProbeKind rows) (join_pop p c s) = Some s' \<and> probe_phase n target L R e C K (Suc k) s'"
proof -
  have ok: "counts_ok n ProbeKind s" "tables_ok n target L e s" "results_ok n target L R C s" using assms(2) by (simp_all add: probe_phase_def)
  note b = batch_step [OF ok(1) assms(3-5)]
  have no: "pend target BuildKind d (bag s) = {#}" for d
    using ok(1) pend_other_kind [of "bag s" ProbeKind BuildKind] by (auto simp: counts_ok_def queues_ok_def)
  obtain v where v: "join_execute std_hash c (Batch ProbeKind rows) (join_pop p c s) = Some ((join_pop p c s)\<lparr>js_results := (js_results s)[c := v]\<rparr>)"
    "results_ok n target L R C ((join_pop p c s)\<lparr>js_results := (js_results s)[c := v]\<rparr>)"
    using probe_step [OF set ok assms(3-5) no] by blast
  have "counts_ok n ProbeKind ((join_pop p c s)\<lparr>js_results := (js_results s)[c := v]\<rparr>)" by (rule counts_ok_cong [OF b(1)]) simp_all
  moreover have "tables_ok n target L e ((join_pop p c s)\<lparr>js_results := (js_results s)[c := v]\<rparr>)"
    by (rule tables_ok_cong [OF ok(2)]) (simp_all add: b(2))
  moreover have "total_weight n (bag s) = Suc (total_weight n (bag (join_pop p c s)))" using b(2) by simp
  ultimately have "probe_phase n target L R e C K (Suc k) ((join_pop p c s)\<lparr>js_results := (js_results s)[c := v]\<rparr>)"
    using assms(2) v(2) by (simp add: probe_phase_def)
  then show ?thesis using v(1) by blast
qed

text \<open>The last notification of the build phase starts the probe phase.\<close>

lemma zip_partitions: "zip [0..<n] (map snd (partitions k keys n)) = partitions k keys n"
  by (simp add: partitions_def zip_map2 zip_same_conv_map)

lemma probe_phase_start:
  assumes "0 < n" "n \<le> 128" "build_phase n target L e C right K k s" "c < n" "R = all_rows right n"
    and s2: "s2 = (join_pop p c s)\<lparr>js_listener := (js_listener s)(BuildKind := l)\<rparr>" "bag s2 = {#}" "bag s = add_mset (c, Notification BuildKind) (bag (join_pop p c s))"
  shows "probe_phase n target L R e C K (Suc k) (notificator BuildKind c s2)"
proof -
  let ?s = "notificator BuildKind c s2"
  note B = assms(3) [unfolded build_phase_def]
  have n: "js_count_cores s = n" using B by (simp add: counts_ok_def queues_ok_def)
  have eq: "?s = fold (join_spawn c) (partitions ProbeKind right n) s2" using B n zip_partitions [of n ProbeKind right] by (simp add: s2(1))
  have "bag ?s = mset (partitions ProbeKind right n) + bag s2" unfolding eq
    by (rule bag_spawns) (use n assms(4) in \<open>auto simp: s2(1) partitions_def\<close>)
  then have bag: "bag ?s = mset (partitions ProbeKind right n)" using s2(2) by simp
  have empty: "bag (join_pop p c s) = {#}" using s2(1,2) by simp
  have fields: "js_count_cores ?s = n" "js_listener ?s ProbeKind = listener_new n" "js_tables ?s = js_tables s" "js_results ?s = js_results s"
    "js_stopped ?s = js_stopped s" "js_count_output_tuples ?s = js_count_output_tuples s"
    unfolding eq join_spawn_rest using B n by (simp_all add: s2(1))
  have "counts_ok n ProbeKind ?s" using phase_start [OF bag fields(1) assms(1,2) fields(2)] .
  moreover have no: "pend target BuildKind d (bag ?s) = {#}" for d unfolding bag
    by (rule pend_other_kind [where k = ProbeKind]) (auto simp: partitions_def)
  have "tables_ok n target L e ?s" by (rule tables_ok_cong [of n target L e s]) (use B in \<open>simp_all add: fields no s2(3) empty del: notificator.simps\<close>)
  moreover have "results_ok n target L R C ?s"
    unfolding results_ok_def fields bag partitions_waiting(1) [OF assms(1)] assms(5)
    using B by (auto intro!: exI [of _ "[]"] exI [of _ "{#}"])
  moreover have "total_weight n (bag ?s) = n + length right + 2 * n * n" unfolding bag partitions_waiting(3) [OF assms(1)] ..
  moreover have "total_weight n (bag s) = 1" using s2(3) empty by simp
  ultimately show ?thesis using B by (simp add: probe_phase_def fields del: notificator.simps)
qed

lemma build_phase_notification:
  assumes "0 < n" "n \<le> 128" "build_phase n target L e C right K k s" "p < n" "c < n" "js_queues s p c = Notification BuildKind # rest" "R = all_rows right n"
  shows "\<exists>s'. join_execute std_hash c (Notification BuildKind) (join_pop p c s) = Some s' \<and>
    (build_phase n target L e C right K (Suc k) s' \<or> probe_phase n target L R e C K (Suc k) s')"
proof -
  note B = assms(3) [unfolded build_phase_def]
  have ok: "counts_ok n BuildKind s" "tables_ok n target L e s" using B by simp_all
  have b: "bag s = add_mset (c, Notification BuildKind) (bag (join_pop p c s))"
    using bag_pop [of p s c] assms(4-6) ok(1) by (simp add: counts_ok_def queues_ok_def)
  obtain l s2 where s2: "s2 = (join_pop p c s)\<lparr>js_listener := (js_listener s)(BuildKind := l)\<rparr>"
    and cases: "notification_execute BuildKind c (join_pop p c s) = Some s2 \<and> counts_ok n BuildKind s2 \<or>
      notification_execute BuildKind c (join_pop p c s) = Some (notificator BuildKind c s2) \<and> bag s2 = {#}"
    using notification_step [OF ok(1) assms(2,4-6)] by blast
  from cases show ?thesis
  proof
    assume s: "notification_execute BuildKind c (join_pop p c s) = Some s2 \<and> counts_ok n BuildKind s2"
    have "tables_ok n target L e s2" by (rule tables_ok_cong [OF ok(2)]) (simp_all add: s2 b)
    then have "build_phase n target L e C right K (Suc k) s2" using B s b by (simp add: build_phase_def s2)
    then show ?thesis using s by (intro exI [of _ s2]) simp
  next
    assume s: "notification_execute BuildKind c (join_pop p c s) = Some (notificator BuildKind c s2) \<and> bag s2 = {#}"
    then have "probe_phase n target L R e C K (Suc k) (notificator BuildKind c s2)"
      using probe_phase_start [OF assms(1-3,5,7) s2 _ b] by blast
    then show ?thesis using s by (intro exI [of _ "notificator BuildKind c s2"]) (simp del: notificator.simps)
  qed
qed

lemma probe_phase_notification:
  assumes "n \<le> 128" "probe_phase n target L R e C K k s" "p < n" "c < n" "js_queues s p c = Notification ProbeKind # rest"
  shows "\<exists>s'. join_execute std_hash c (Notification ProbeKind) (join_pop p c s) = Some s' \<and>
    (probe_phase n target L R e C K (Suc k) s' \<or> merge_phase n target L R C K (Suc k) s')"
proof -
  note B = assms(2) [unfolded probe_phase_def]
  have ok: "counts_ok n ProbeKind s" "tables_ok n target L e s" "results_ok n target L R C s" using B by simp_all
  have n: "js_count_cores s = n" using ok(1) by (simp add: counts_ok_def queues_ok_def)
  have b: "bag s = add_mset (c, Notification ProbeKind) (bag (join_pop p c s))" using bag_pop [of p s c] assms(3-5) n by simp
  obtain l s2 where s2: "s2 = (join_pop p c s)\<lparr>js_listener := (js_listener s)(ProbeKind := l)\<rparr>"
    and cases: "notification_execute ProbeKind c (join_pop p c s) = Some s2 \<and> counts_ok n ProbeKind s2 \<or>
      notification_execute ProbeKind c (join_pop p c s) = Some (notificator ProbeKind c s2) \<and> bag s2 = {#}"
    using notification_step [OF ok(1) assms(1,3-5)] by blast
  have r2: "results_ok n target L R C s2" by (rule results_ok_cong [OF ok(3)]) (simp_all add: s2 b)
  from cases show ?thesis
  proof
    assume s: "notification_execute ProbeKind c (join_pop p c s) = Some s2 \<and> counts_ok n ProbeKind s2"
    have "tables_ok n target L e s2" by (rule tables_ok_cong [OF ok(2)]) (simp_all add: s2 b)
    then have "probe_phase n target L R e C K (Suc k) s2" using B s b r2 by (simp add: probe_phase_def s2)
    then show ?thesis using s by (intro exI [of _ s2]) simp
  next
    assume s: "notification_execute ProbeKind c (join_pop p c s) = Some (notificator ProbeKind c s2) \<and> bag s2 = {#}"
    let ?s = "fold (join_spawn c) [(c, Merge)] s2"
    have eq: "notificator ProbeKind c s2 = ?s" by simp
    have "bag ?s = mset [(c, Merge)] + bag s2" by (rule bag_spawns) (use n assms(4) in \<open>simp_all add: s2\<close>)
    then have bag: "bag ?s = {#(c, Merge)#}" using s by simp
    have "results_ok n target L R C ?s" by (rule results_ok_cong [OF r2]) (simp_all only: join_spawn_rest bag, simp_all add: s)
    then have "merge_phase n target L R C K (Suc k) ?s"
      using B n bag assms(4) b unfolding merge_phase_def join_spawn_rest by (auto simp: s2)
    then show ?thesis using s unfolding eq by (intro exI [of _ ?s]) simp
  qed
qed

lemma merge_phase_step:
  assumes "merge_phase n target L R C K k s" "p < n" "c < n" "js_queues s p c = task # rest"
  shows "\<exists>s'. join_execute std_hash c task (join_pop p c s) = Some s' \<and> done_phase n target L R C K (Suc k) s'"
proof -
  note B = assms(1) [unfolded merge_phase_def]
  have b: "bag s = add_mset (c, task) (bag (join_pop p c s))" using bag_pop [of p s c] assms(2-4) B by simp
  then have task: "task = Merge" and empty: "bag (join_pop p c s) = {#}" using B by (auto simp: add_mset_eq_single)
  let ?s = "merge_execute (join_pop p c s)"
  have fold: "fold (\<lambda>v m. m + of_nat (vec_size v)) vs x = x + of_nat (\<Sum>v\<leftarrow>vs. vec_size v)" for vs and x :: u64
    by (induction vs arbitrary: x) (simp_all add: add.assoc)
  have bag: "bag ?s = {#}" using empty by (simp add: merge_execute_def)
  have "results_ok n target L R C ?s"
    by (rule results_ok_cong [of n target L R C s]) (use B bag b empty task in \<open>simp_all add: merge_execute_def\<close>)
  then have "done_phase n target L R C K (Suc k) ?s" using B bag by (simp add: done_phase_def merge_execute_def fold)
  then show ?thesis using task by simp
qed

definition join_inv :: "nat \<Rightarrow> (u32 \<Rightarrow> nat) \<Rightarrow> row list \<Rightarrow> row list \<Rightarrow> nat \<Rightarrow> nat \<Rightarrow> u32 list \<Rightarrow> nat \<Rightarrow> nat \<Rightarrow> join_state \<Rightarrow> bool" where
  "join_inv n target L R e C right K k s \<longleftrightarrow> build_phase n target L e C right K k s \<or> probe_phase n target L R e C K k s \<or>
     merge_phase n target L R C K k s \<or> done_phase n target L R C K k s"

lemma join_inv_cores: "join_inv n target L R e C right K k s \<Longrightarrow> js_count_cores s = n"
  by (auto simp: join_inv_def build_phase_def probe_phase_def merge_phase_def done_phase_def counts_ok_def queues_ok_def)

text \<open>No task fails, and every task keeps the invariant.\<close>

lemma join_inv_step:
  assumes set: "join_setting n target L R e C" and "target = partition_target std_hash n" "R = all_rows right n"
    "join_inv n target L R e C right K k s" "p < n" "c < n" "js_queues s p c = task # rest"
  shows "\<exists>s'. join_execute std_hash c task (join_pop p c s) = Some s' \<and> join_inv n target L R e C right K (Suc k) s'"
proof -
  have n: "0 < n" "n \<le> 128" using set by (simp_all add: join_setting_def)
  have cores: "js_count_cores s = n" using join_inv_cores [OF assms(4)] .
  have x: "(c, task) \<in># bag s" using bag_queue [of p s c task] assms(5-7) cores by simp
  from assms(4) consider "build_phase n target L e C right K k s" | "probe_phase n target L R e C K k s"
    | "merge_phase n target L R C K k s" | "done_phase n target L R C K k s" by (auto simp: join_inv_def)
  then show ?thesis
  proof cases
    case 1
    then have "task_kind task = Some BuildKind" using x by (auto simp: build_phase_def counts_ok_def queues_ok_def)
    then consider keys where "task = Partition BuildKind keys" | rows where "task = Batch BuildKind rows" | "task = Notification BuildKind"
      by (cases task) auto
    then show ?thesis unfolding join_inv_def
      using build_phase_partition [OF 1 n(1) assms(2,5,6)] build_phase_batch [OF set 1 assms(5,6)] build_phase_notification [OF n 1 assms(5,6) _ assms(3)] assms(7)
      by cases (metis (full_types))+
  next
    case 2
    then have "task_kind task = Some ProbeKind" using x by (auto simp: probe_phase_def counts_ok_def queues_ok_def)
    then consider keys where "task = Partition ProbeKind keys" | rows where "task = Batch ProbeKind rows" | "task = Notification ProbeKind"
      by (cases task) auto
    then show ?thesis unfolding join_inv_def
      using probe_phase_partition [OF 2 n(1) assms(2,5,6)] probe_phase_batch [OF set 2 assms(5,6)] probe_phase_notification [OF n(2) 2 assms(5,6)] assms(7)
      by cases (metis (full_types))+
  next
    case 3
    then show ?thesis unfolding join_inv_def using merge_phase_step [OF 3 assms(5-7)] by metis
  next
    case 4
    then show ?thesis using x by (simp add: done_phase_def)
  qed
qed

subsection \<open>The first state\<close>

lemma those_map_Some: "(\<And>x. x \<in> set xs \<Longrightarrow> f x = Some (g x)) \<Longrightarrow> those (map f xs) = Some (map g xs)"
  by (induction xs) auto

lemma merge_task_new_empty:
  "\<exists>vs. merge_task_new numa n output = Some vs \<and> length vs = n \<and> (\<forall>c < n. vec_rep (vs ! c) [] \<and> vec_capacity (vs ! c) = output)"
proof -
  have "\<forall>c. \<exists>v :: (u64 \<times> u64) mxvec. (vec_default \<bind> vec_reserve_at (numa c) output) = Some v \<and> vec_rep v [] \<and> vec_capacity v = output"
    using vec_default_reserved by blast
  then obtain g :: "nat \<Rightarrow> (u64 \<times> u64) mxvec" where
    g: "(vec_default \<bind> vec_reserve_at (numa c) output) = Some (g c)" "vec_rep (g c) []" "vec_capacity (g c) = output" for c by metis
  then have "merge_task_new numa n output = Some (map g [0..<n])" unfolding merge_task_new_def by (intro those_map_Some) simp
  then show ?thesis using g by auto
qed

lemma of_nat_not_max: "x < 2 ^ 64 - 1 \<Longrightarrow> (of_nat x :: u64) \<noteq> - 1"
proof
  assume x: "x < 2 ^ 64 - 1" "(of_nat x :: u64) = - 1"
  then have "(of_nat (Suc x) :: u64) = 0" by simp
  then have "2 ^ 64 dvd Suc x" by (simp only: word_of_nat_eq_0_iff) simp
  then show False using x(1) by (auto dest: dvd_imp_le)
qed

lemma numbered_fst: "r \<in> set (numbered offset i keys) \<Longrightarrow> \<exists>j < i + length keys. fst r = offset + of_nat j"
proof (induction keys arbitrary: i)
  case (Cons key keys)
  then show ?case using Cons.IH [of "Suc i"] by (auto intro: exI [of _ i])
qed simp

lemma length_core_keys: "length (core_keys keys n i) \<le> length keys"
  by (simp add: core_keys_def Let_def)

lemma all_rows_not_max:
  assumes "n \<le> 128" "length keys < 2 ^ 30"
  shows "- 1 \<notin> fst ` set (all_rows keys n)"
proof
  assume "- 1 \<in> fst ` set (all_rows keys n)"
  then obtain i j where ij: "i < n" "j < length (core_keys keys n i)" "- 1 = of_nat i * of_nat (length (core_keys keys n i)) + (of_nat j :: u64)"
    by (auto simp: all_rows_def core_rows_def dest!: numbered_fst)
  let ?l = "length (core_keys keys n i)"
  have "i * ?l + j < 128 * 2 ^ 30 + 2 ^ 30"
    using ij(1,2) assms length_core_keys [of keys n i] by (intro add_le_less_mono mult_mono) auto
  then have "(of_nat (i * ?l + j) :: u64) \<noteq> - 1" by (intro of_nat_not_max) simp
  then show False using ij(3) by simp
qed

lemma tuples_per_core_bound: "0 < n \<Longrightarrow> tuples_per_core num n \<le> num"
  using tuples_per_core_le [of n num] by (cases n) auto

lemma length_rows_at: "length (rows_at target c R) = length (filter (\<lambda>key. target key = c) (map snd R))"
  by (simp add: rows_at_def filter_map o_def)

lemma join_start_setting:
  assumes "0 < n" "n \<le> 128" "distinct left" "- 1 \<notin> set left" "- 1 \<notin> set right" "length left < 2 ^ 30"
    "\<forall>c < n. length (filter (\<lambda>key. target key = c) left) < 2 ^ e" "2 * length right \<le> C" "C < 2 ^ 63"
  shows "join_setting n target (all_rows left n) (all_rows right n) e C"
proof -
  have keys: "map snd (all_rows left n) = left" "map snd (all_rows right n) = right" using all_rows_keys [OF assms(1)] by simp_all
  have "length (all_rows right n) = length right" using arg_cong [OF keys(2), of length] by simp
  moreover have "- 1 \<notin> snd ` set (all_rows left n)" using arg_cong [OF keys(1), of set] assms(4) by simp
  moreover have "- 1 \<notin> snd ` set (all_rows right n)" using arg_cong [OF keys(2), of set] assms(5) by simp
  moreover have "\<forall>c < n. length (rows_at target c (all_rows left n)) < 2 ^ e" using assms(7) by (simp add: length_rows_at keys)
  ultimately show ?thesis unfolding join_setting_def using assms all_rows_not_max [OF assms(2,6)] by (simp add: keys)
qed

lemma join_start_phase:
  assumes "0 < n" "n \<le> 128" "ht_inv e t" "ht_map t = Map.empty" "length vs = n" "\<forall>c < n. vec_rep (vs ! c) [] \<and> vec_capacity (vs ! c) = out" "0 < out" "out \<le> C"
    and s: "s = \<lparr>js_count_cores = n, js_batch_size = batch, js_tables = replicate n t, js_results = vs, js_listener = \<lambda>_. listener_new n,
      js_probe_tasks = map snd (partitions ProbeKind right n), js_queues = \<lambda>_ _. [], js_count_output_tuples = 0, js_stopped = False\<rparr>"
  shows "build_phase n target (all_rows left n) e C right (length left + length right + 2 * n + 4 * n * n + 1) 0 (fold (join_spawn 0) (partitions BuildKind left n) s)"
proof -
  let ?s0 = "fold (join_spawn 0) (partitions BuildKind left n) s"
  have "bag s = {#}" by (simp add: bag_def s)
  moreover have "bag ?s0 = mset (partitions BuildKind left n) + bag s" by (rule bag_spawns) (use assms(1) in \<open>auto simp: partitions_def s\<close>)
  ultimately have bag: "bag ?s0 = mset (partitions BuildKind left n)" by simp
  have "counts_ok n BuildKind ?s0" by (rule phase_start [OF bag _ assms(1,2)]) (simp_all add: join_spawn_rest s)
  moreover have t: "table_holds t {#}" "length (ht_entries t) = 2 ^ e" using assms(3,4) by (auto simp: table_holds_def ht_inv_def ht_shape_def)
  have "tables_ok n target (all_rows left n) e ?s0"
    unfolding tables_ok_def bag partitions_waiting(1) [OF assms(1)] join_spawn_rest using t by (auto simp: s intro!: exI [of _ "{#}"])
  ultimately show ?thesis
    unfolding build_phase_def bag partitions_waiting(3) [OF assms(1)] join_spawn_rest using assms(5-8) by (auto simp: s)
qed

lemma join_start_inv:
  assumes "0 < n" "n \<le> 128" "distinct left" "- 1 \<notin> set left" "- 1 \<notin> set right" "length left < 2 ^ 30" "length right < 2 ^ 30"
    "0 < tuples_per_core (length right) n"
    "\<forall>c < n. length (filter (\<lambda>key. target key = c) left) < needed_keys (tuples_per_core (length left) n)"
  shows "\<exists>s0 e C. join_start numa n batch left right = Some s0 \<and> join_setting n target (all_rows left n) (all_rows right n) e C \<and>
    join_inv n target (all_rows left n) (all_rows right n) e C right (length left + length right + 2 * n + 4 * n * n + 1) 0 s0"
proof -
  let ?K = "needed_keys (tuples_per_core (length left) n)" and ?out = "tuples_per_core (length right) n"
  have K: "0 < ?K" "?K \<le> 2 ^ 31" using assms(1,6,9) tuples_per_core_bound [OF assms(1), of "length left"] by (auto simp: needed_keys_def)
  obtain e b t where t: "needed_bytes ?K = Some b" "hashtable_new b = Some t" "ht_inv e t" "ht_map t = Map.empty" "?K \<le> 2 ^ e"
    using hashtable_new_empty [OF K] by blast
  obtain vs where vs: "merge_task_new numa n ?out = Some vs" "length vs = n" "\<forall>c < n. vec_rep (vs ! c) [] \<and> vec_capacity (vs ! c) = ?out"
    using merge_task_new_empty by blast
  define C where "C = max ?out (2 * length right)"
  have C: "2 * length right \<le> C" "C < 2 ^ 63" "?out \<le> C" using tuples_per_core_bound [OF assms(1), of "length right"] assms(7) by (auto simp: C_def)
  have room: "\<forall>c < n. length (filter (\<lambda>key. target key = c) left) < 2 ^ e" using assms(9) t(5) order_less_le_trans by blast
  have set: "join_setting n target (all_rows left n) (all_rows right n) e C" by (rule join_start_setting [OF assms(1-6) room C(1,2)])
  obtain s0 where start: "join_start numa n batch left right = Some s0"
    and phase: "build_phase n target (all_rows left n) e C right (length left + length right + 2 * n + 4 * n * n + 1) 0 s0"
    using join_start_phase [OF assms(1,2) t(3,4) vs(2,3) assms(8) C(3) refl, where batch = batch and right = right and target = target and left = left] vs(1) t(1,2)
    by (simp add: join_start_def partitions_def o_def)
  from phase have "join_inv n target (all_rows left n) (all_rows right n) e C right (length left + length right + 2 * n + 4 * n * n + 1) 0 s0"
    unfolding join_inv_def by (rule disjI1)
  then show ?thesis using start set by (intro exI conjI)
qed

subsection \<open>The output\<close>

lemma size_matches: "size (\<Sum>r\<in>#mset rows. match_of M r) = length (filter (\<lambda>r. snd r \<in> dom M) rows)"
  by (induction rows) (auto simp: match_of_def split: option.splits)

lemma length_filter_rows_at:
  assumes "\<And>key. target key < n"
  shows "(\<Sum>c<n. length (filter P (rows_at target c R))) = length (filter P R)"
proof (induction R)
  case (Cons r R)
  have "(\<Sum>c<n. length (filter P (rows_at target c (r # R)))) = (\<Sum>c<n. (if c = target (snd r) \<and> P r then 1 else 0) + length (filter P (rows_at target c R)))"
    by (intro sum.cong) auto
  also have "\<dots> = (if P r then 1 else 0) + length (filter P R)"
    using assms [of "snd r"] Cons.IH by (cases "P r") (simp_all add: sum.distrib)
  finally show ?case by simp
qed simp

text \<open>The number of pairs of equal keys.\<close>

definition matching_pairs :: "u32 list \<Rightarrow> u32 list \<Rightarrow> (nat \<times> nat) set" where
  "matching_pairs left right = {(i, j). i < length left \<and> j < length right \<and> left ! i = right ! j}"

lemma card_matching_pairs:
  assumes "distinct left"
  shows "card (matching_pairs left right) = length (filter (\<lambda>key. key \<in> set left) right)"
proof -
  have inj: "inj_on snd (matching_pairs left right)"
    using nth_eq_iff_index_eq [OF assms] by (fastforce simp: matching_pairs_def inj_on_def)
  have "snd ` matching_pairs left right = {j. j < length right \<and> right ! j \<in> set left}"
    by (force simp: matching_pairs_def in_set_conv_nth image_iff)
  then show ?thesis using card_image [OF inj] by (simp add: length_filter_conv_card)
qed

lemma results_complete:
  assumes "results_ok n target L R C s" "bag s = {#}" "c < n" "distinct (map snd L)"
  shows "\<exists>xs. vec_rep (js_results s ! c) xs \<and> mset xs = (\<Sum>r\<in>#mset (rows_at target c R). match_of (row_map L) r) \<and>
    set xs = {(r, l). \<exists>key. (r, key) \<in> set R \<and> (l, key) \<in> set L \<and> target key = c}"
proof -
  obtain xs where xs: "vec_rep (js_results s ! c) xs" "mset xs = (\<Sum>r\<in>#mset (rows_at target c R). match_of (row_map L) r)"
    using assms(1-3) by (auto simp: results_ok_def)
  have "set xs = (\<Union>r\<in>set (rows_at target c R). set_mset (match_of (row_map L) r))" using arg_cong [OF xs(2), of set_mset] by simp
  also have "\<dots> = {(r, l). \<exists>key. (r, key) \<in> set R \<and> (l, key) \<in> set L \<and> target key = c}"
    using row_map_Some [OF assms(4)] by (force simp: match_of_def rows_at_def split: option.splits)
  finally show ?thesis using xs by blast
qed

lemma join_output:
  assumes "0 < n" "distinct left" "done_phase n target (all_rows left n) (all_rows right n) C K k s" "\<And>key. target key < n"
  shows "js_count_output_tuples s = of_nat (card (matching_pairs left right))"
proof -
  let ?L = "all_rows left n" and ?R = "all_rows right n"
  note D = assms(3) [unfolded done_phase_def]
  have keys: "map snd ?L = left" "map snd ?R = right" using all_rows_keys [OF assms(1)] by simp_all
  have dom: "dom (row_map ?L) = set left" using arg_cong [OF keys(1), of set] by (simp add: row_map_def dom_map_of_conv_image_fst image_image)
  have len: "length (js_results s) = n" using D by (simp add: results_ok_def)
  have "vec_size (js_results s ! c) = length (filter (\<lambda>r. snd r \<in> set left) (rows_at target c ?R))" if c: "c < n" for c
  proof -
    obtain xs where "vec_rep (js_results s ! c) xs" "mset xs = (\<Sum>r\<in>#mset (rows_at target c ?R). match_of (row_map ?L) r)"
      using results_complete [of n target ?L ?R C s c] D c assms(2) keys(1) by auto
    then have "vec_size (js_results s ! c) = size (\<Sum>r\<in>#mset (rows_at target c ?R). match_of (row_map ?L) r)" by (metis size_mset vec_rep_size)
    then show ?thesis unfolding size_matches dom .
  qed
  then have "(\<Sum>v\<leftarrow>js_results s. vec_size v) = (\<Sum>c<n. length (filter (\<lambda>r. snd r \<in> set left) (rows_at target c ?R)))"
    using len by (simp add: sum_list_sum_nth atLeast0LessThan)
  also have "\<dots> = length (filter (\<lambda>r. snd r \<in> set left) ?R)" by (rule length_filter_rows_at) (rule assms(4))
  also have "\<dots> = length (filter (\<lambda>key. key \<in> set left) (map snd ?R))" by (simp add: filter_map o_def)
  also have "\<dots> = card (matching_pairs left right)" using card_matching_pairs [OF assms(2)] by (simp add: keys(2))
  finally show ?thesis using D by simp
qed

lemma join_inv_run:
  assumes "join_run std_hash s0 k s" "join_setting n target L R e C" "target = partition_target std_hash n" "R = all_rows right n"
    "join_inv n target L R e C right K 0 s0"
  shows "join_inv n target L R e C right K k s"
  using assms(1)
proof induction
  case (join_run_step k s p c task rest s')
  then have "p < n" "c < n" using join_inv_cores by auto
  then show ?case using join_inv_step [OF assms(2-4) join_run_step.IH _ _ join_run_step.hyps(4)] join_run_step.hyps(5) by auto
qed (rule assms(5))

lemma join_inv_progress:
  assumes "join_inv n target L R e C right K k s" "\<not> js_stopped s"
  shows "\<exists>p < n. \<exists>c < n. js_queues s p c \<noteq> []"
proof -
  have "bag s \<noteq> {#}"
    using assms by (auto simp: join_inv_def build_phase_def probe_phase_def merge_phase_def done_phase_def counts_ok_def)
  then obtain c task where "(c, task) \<in># bag s" by (metis multiset_nonemptyE surj_pair)
  then show ?thesis using bag_member [of c task s] join_inv_cores [OF assms(1)] by fastforce
qed

lemma join_inv_bound: "join_inv n target L R e C right K k s \<Longrightarrow> k \<le> K"
  by (auto simp: join_inv_def build_phase_def probe_phase_def merge_phase_def done_phase_def)

lemma join_inv_stopped: "join_inv n target L R e C right K k s \<Longrightarrow> js_stopped s \<Longrightarrow> done_phase n target L R C K k s"
  by (auto simp: join_inv_def build_phase_def probe_phase_def merge_phase_def)

text \<open>
  C14: The parallel hash join is correct for keys that its hash tables can hold, in every order in which
  the channels execute their tasks: the join starts, no task fails, it ends after at most
  |left| + |right| + 2n + 4n^2 + 1 tasks, before the end a task waits, and at the end the merge
  task has counted the pairs of equal keys, and the result set of each channel holds the matches of
  the keys that hash to it. Required are up to 128 cores, keys below 2^32 - 1 of which those of the
  left relation differ, fewer than 2^30 keys, at least 16 right keys per core, and room in the hash
  tables: fewer keys of the left relation hash to a channel than one and a half times the number of
  keys per core. Without that room a table may fill up, and the insertion into a full table does
  not return (\<open>ht_full_insert_never_returns\<close>).
\<close>

theorem hash_join_counts_the_matches:
  assumes "0 < n" "n \<le> 128" "distinct left" "- 1 \<notin> set left" "- 1 \<notin> set right" "length left < 2 ^ 30" "length right < 2 ^ 30"
    "0 < tuples_per_core (length right) n"
    "\<forall>c < n. length (filter (\<lambda>key. partition_target std_hash n key = c) left) < needed_keys (tuples_per_core (length left) n)"
  shows "\<exists>s0. join_start numa n batch left right = Some s0 \<and> (\<forall>k s. join_run std_hash s0 k s \<longrightarrow>
    k \<le> length left + length right + 2 * n + 4 * n * n + 1 \<and>
    (\<forall>p < n. \<forall>c < n. \<forall>task rest. js_queues s p c = task # rest \<longrightarrow> join_execute std_hash c task (join_pop p c s) \<noteq> None) \<and>
    (if js_stopped s
     then js_count_output_tuples s = of_nat (card (matching_pairs left right)) \<and>
       (\<forall>c < n. \<exists>xs. vec_rep (js_results s ! c) xs \<and> set xs = {(r, l). \<exists>key. (r, key) \<in> set (all_rows right n) \<and>
          (l, key) \<in> set (all_rows left n) \<and> partition_target std_hash n key = c})
     else (\<exists>p < n. \<exists>c < n. js_queues s p c \<noteq> [])))"
proof -
  let ?t = "partition_target std_hash n" and ?L = "all_rows left n" and ?R = "all_rows right n"
  obtain s0 e C where s0: "join_start numa n batch left right = Some s0" and set: "join_setting n ?t ?L ?R e C"
    and inv0: "join_inv n ?t ?L ?R e C right (length left + length right + 2 * n + 4 * n * n + 1) 0 s0"
    using join_start_inv [OF assms] by blast
  show ?thesis
  proof (intro exI [of _ s0] conjI allI impI, rule s0)
    fix k s assume run: "join_run std_hash s0 k s"
    note inv = join_inv_run [OF run set refl refl inv0]
    show "k \<le> length left + length right + 2 * n + 4 * n * n + 1" by (rule join_inv_bound [OF inv])
    show "join_execute std_hash c task (join_pop p c s) \<noteq> None" if "p < n" "c < n" "js_queues s p c = task # rest" for p c task rest
      using join_inv_step [OF set refl refl inv that] by auto
    have dist: "distinct (map snd ?L)" using assms(3) by (simp add: all_rows_keys [OF assms(1)])
    show "if js_stopped s
      then js_count_output_tuples s = of_nat (card (matching_pairs left right)) \<and>
        (\<forall>c < n. \<exists>xs. vec_rep (js_results s ! c) xs \<and> set xs = {(r, l). \<exists>key. (r, key) \<in> set ?R \<and> (l, key) \<in> set ?L \<and> ?t key = c})
      else (\<exists>p < n. \<exists>c < n. js_queues s p c \<noteq> [])"
    proof (cases "js_stopped s")
      case True
      note D = join_inv_stopped [OF inv True]
      have "\<exists>xs. vec_rep (js_results s ! c) xs \<and> set xs = {(r, l). \<exists>key. (r, key) \<in> set ?R \<and> (l, key) \<in> set ?L \<and> ?t key = c}" if "c < n" for c
        using results_complete [of n ?t ?L ?R C s c] D that dist by (auto simp: done_phase_def)
      then show ?thesis using True join_output [OF assms(1,3) D partition_target_less [OF assms(1)]] by simp
    next
      case False
      then show ?thesis using join_inv_progress [OF inv False] by simp
    qed
  qed
qed

text \<open>Two cores join 32 keys with themselves; the keys are distributed by their lowest bit.\<close>

definition join_demo_keys :: "u32 list" where
  "join_demo_keys = map of_nat [0..<32]"

theorem hash_join_counts_the_matches_witness:
  "\<exists>s0. join_start (\<lambda>_. 0) 2 4 join_demo_keys join_demo_keys = Some s0 \<and> \<not> js_stopped s0 \<and> (\<exists>p < 2. \<exists>c < 2. js_queues s0 p c \<noteq> [])"
proof -
  have keys: "length join_demo_keys = 32" "distinct join_demo_keys" "- 1 \<notin> set join_demo_keys"
    by (simp_all add: join_demo_keys_def upt_rec)
  have "\<forall>c < 2. length (filter (\<lambda>key. partition_target ucast 2 key = c) join_demo_keys) < needed_keys (tuples_per_core 32 2)"
    by (simp add: less_2_cases_iff join_demo_keys_def upt_rec partition_target_def partition_hash_def needed_keys_def tuples_per_core_def)
  then obtain s0 where s0: "join_start (\<lambda>_. 0) 2 4 join_demo_keys join_demo_keys = Some s0"
    and run: "\<forall>k s. join_run ucast s0 k s \<longrightarrow> (if js_stopped s
       then js_count_output_tuples s = of_nat (card (matching_pairs join_demo_keys join_demo_keys)) \<and>
         (\<forall>c < 2. \<exists>xs. vec_rep (js_results s ! c) xs \<and> set xs = {(r, l). \<exists>key. (r, key) \<in> set (all_rows join_demo_keys 2) \<and>
            (l, key) \<in> set (all_rows join_demo_keys 2) \<and> partition_target ucast 2 key = c})
       else (\<exists>p < 2. \<exists>c < 2. js_queues s p c \<noteq> []))"
    using hash_join_counts_the_matches [of 2 join_demo_keys join_demo_keys ucast "\<lambda>_. 0" 4] keys by (auto simp: tuples_per_core_def)
  have "\<not> js_stopped s0" using s0 by (auto simp: join_start_def Let_def join_spawn_rest split: bind_splits)
  then show ?thesis using s0 run join_run_start [of ucast s0] by auto
qed

subsection \<open>The sizes of the chunks\<close>

lemma tuples_per_core_rest:
  assumes "0 < n" "num * 4 < 2 ^ 64"
  shows "num < tuples_per_core num n * n + 16 * n"
proof -
  let ?l = "num div 16"
  have "tuples_per_core num n = ?l div n * 16" using assms(2) by (simp add: tuples_per_core_def Let_def)
  moreover have "num < 16 * Suc ?l" by simp
  moreover have "Suc ?l \<le> ?l div n * n + n" using mod_less_divisor [OF assms(1), of ?l] div_mult_mod_eq [of ?l n] by linarith
  then have "16 * Suc ?l \<le> 16 * (?l div n * n + n)" by (rule mult_left_mono) simp
  ultimately show ?thesis by (simp add: algebra_simps)
qed

text \<open>
  C15: Benchmark::start cuts the keys into chunks that follow each other without gap or overlap; all
  chunks but the last have the same size, full cache lines of 16 keys, and the last one has at most
  16 keys per core more. No chunk index leaves the keys.
\<close>

theorem chunks_are_bounded:
  assumes "0 < n" "length keys * 4 < 2 ^ 64"
  shows "concat (map (core_keys keys n) [0..<n]) = keys \<and> 16 dvd tuples_per_core (length keys) n \<and>
    (\<forall>i < n - 1. length (core_keys keys n i) = tuples_per_core (length keys) n) \<and>
    tuples_per_core (length keys) n \<le> length (core_keys keys n (n - 1)) \<and>
    length (core_keys keys n (n - 1)) < tuples_per_core (length keys) n + 16 * n \<and>
    (\<forall>i < n. i * tuples_per_core (length keys) n \<le> length keys)"
proof -
  let ?p = "tuples_per_core (length keys) n"
  obtain m where n: "n = Suc m" using assms(1) by (cases n) auto
  have all: "?p * n \<le> length keys" by (rule tuples_per_core_le [OF assms(1)])
  have pos: "i * ?p + ?p \<le> length keys" if "i < n" for i
  proof -
    have "Suc i * ?p \<le> n * ?p" using that by (intro mult_right_mono) simp_all
    then show ?thesis using all by (simp add: mult.commute)
  qed
  have "length (core_keys keys n (n - 1)) = length keys - m * ?p" using n by (simp add: core_keys_def Let_def)
  moreover have "m * ?p + ?p \<le> length keys" using pos [of m] n by simp
  moreover have "length keys < m * ?p + ?p + 16 * n" using tuples_per_core_rest [OF assms] n by (simp add: algebra_simps)
  moreover have "length (core_keys keys n i) = ?p" if i: "i < n - 1" for i
  proof -
    have "i * ?p + ?p \<le> length keys" using i by (intro pos) simp
    then show ?thesis using i by (simp add: core_keys_def Let_def)
  qed
  moreover have "16 dvd ?p" by (simp add: tuples_per_core_def Let_def)
  moreover have "i * ?p \<le> length keys" if "i < n" for i using pos [OF that] by simp
  ultimately show ?thesis using core_keys_concat [OF assms(1)] by auto
qed

theorem chunks_are_bounded_witness:
  "concat (map (core_keys (replicate 40 7) 2) [0..<2]) = replicate 40 (7 :: u32) \<and> tuples_per_core 40 2 = 16 \<and> length (core_keys (replicate 40 7) 2 1) < 48"
  using chunks_are_bounded [of 2 "replicate 40 (7 :: u32)"] by (simp add: tuples_per_core_def)

text \<open>
  The partition task of the last core numbers its rows from its own number of keys on, not from the
  number of keys of the other cores: with 40 keys on two cores, the key with index 16 gets row 24.
\<close>

lemma last_core_misnumbers_rows:
  "core_keys (map of_nat [0..<40]) 2 1 = map of_nat [16..<40] \<and> hd (core_rows (map of_nat [0..<40]) 2 1) = (24, 16)"
  by (simp add: core_rows_def core_keys_def tuples_per_core_def upt_rec)

end
