(* ===== verification/MpscConcurrent.thy ===== *)
theory MpscConcurrent
  imports LinkedQueues
begin

section \<open>MPSCQueue with concurrent producers\<close>

text \<open>
  src/mx/util/mpsc_queue.h again, now with any number of producers and one consumer that run at the
  same time. A step is one access to a shared variable: the exchange of the head and the write of
  the predecessor's next pointer are two steps of a producer, so that the chain of items may have
  gaps; pop_front is up to six steps of the consumer. A producer only pushes an item that is not
  in the queue and that no other thread is about to push.

  Two history variables record the order in which items were exchanged into the head and the order
  in which the consumer got them. The lemmas show that the second is always a prefix of the first:
  the queue is first-in-first-out, and items are neither lost nor taken twice; and that a queue in
  which no operation is under way represents the remaining items, so that the results about the
  operations on their own (theory LinkedQueues) apply.
\<close>

datatype 'a producer = P_Idle | P_Exchange 'a | P_Link 'a 'a

text \<open>Where the consumer is: the positions after the first one belong to pop_front.\<close>

datatype 'a consumer = C_Idle | C_Next 'a | C_Head 'a | C_Clear 'a | C_Exchange 'a | C_Link 'a 'a | C_Last 'a

record 'a mp_state =
  mp_links :: "'a links"
  mp_queue :: "'a mpsc_queue"
  mp_producer :: "nat \<Rightarrow> 'a producer"
  mp_consumer :: "'a consumer"
  mp_pushed :: "'a list"
  mp_popped :: "'a list"

definition mp_init :: "'a \<Rightarrow> 'a links \<Rightarrow> 'a mp_state" where
  "mp_init stub h = (let (h', q) = mpsc_new stub h in
     \<lparr>mp_links = h', mp_queue = q, mp_producer = \<lambda>_. P_Idle, mp_consumer = C_Idle, mp_pushed = [], mp_popped = []\<rparr>)"

definition mp_waiting :: "'a mp_state \<Rightarrow> 'a list" where
  "mp_waiting s = drop (length (mp_popped s)) (mp_pushed s)"

fun in_hand :: "'a producer \<Rightarrow> 'a option" where
  "in_hand P_Idle = None"
| "in_hand (P_Exchange x) = Some x"
| "in_hand (P_Link prev x) = Some x"

definition take_item :: "'a \<Rightarrow> 'a \<Rightarrow> 'a mp_state \<Rightarrow> 'a mp_state" where
  "take_item item next s =
     s\<lparr>mp_queue := (mp_queue s)\<lparr>mq_tail := next\<rparr>, mp_consumer := C_Idle, mp_popped := mp_popped s @ [item]\<rparr>"

inductive mp_step :: "'a mp_state \<Rightarrow> 'a mp_state \<Rightarrow> bool" where
  producer_clear: "mp_producer s p = P_Idle \<Longrightarrow> x \<noteq> mq_end (mp_queue s) \<Longrightarrow> x \<notin> set (mp_waiting s) \<Longrightarrow>
    (\<And>q. in_hand (mp_producer s q) \<noteq> Some x) \<Longrightarrow>
    mp_step s (s\<lparr>mp_links := (mp_links s)(x := None), mp_producer := (mp_producer s)(p := P_Exchange x)\<rparr>)"
| producer_exchange: "mp_producer s p = P_Exchange x \<Longrightarrow>
    mp_step s (s\<lparr>mp_queue := (mp_queue s)\<lparr>mq_head := x\<rparr>, mp_producer := (mp_producer s)(p := P_Link (mq_head (mp_queue s)) x),
      mp_pushed := mp_pushed s @ [x]\<rparr>)"
| producer_link: "mp_producer s p = P_Link prev x \<Longrightarrow>
    mp_step s (s\<lparr>mp_links := (mp_links s)(prev := Some x), mp_producer := (mp_producer s)(p := P_Idle)\<rparr>)"
| pop_empty: "mp_consumer s = C_Idle \<Longrightarrow> mq_tail (mp_queue s) = mq_end (mp_queue s) \<Longrightarrow> mp_links s (mq_tail (mp_queue s)) = None \<Longrightarrow>
    mp_step s s"
| pop_skip_stub: "mp_consumer s = C_Idle \<Longrightarrow> mq_tail (mp_queue s) = mq_end (mp_queue s) \<Longrightarrow> mp_links s (mq_tail (mp_queue s)) = Some n \<Longrightarrow>
    mp_step s (s\<lparr>mp_queue := (mp_queue s)\<lparr>mq_tail := n\<rparr>, mp_consumer := C_Next n\<rparr>)"
| pop_first: "mp_consumer s = C_Idle \<Longrightarrow> mq_tail (mp_queue s) \<noteq> mq_end (mp_queue s) \<Longrightarrow> mp_links s (mq_tail (mp_queue s)) = Some n \<Longrightarrow>
    mp_step s (take_item (mq_tail (mp_queue s)) n s)"
| pop_no_next: "mp_consumer s = C_Idle \<Longrightarrow> mq_tail (mp_queue s) \<noteq> mq_end (mp_queue s) \<Longrightarrow> mp_links s (mq_tail (mp_queue s)) = None \<Longrightarrow>
    mp_step s (s\<lparr>mp_consumer := C_Head (mq_tail (mp_queue s))\<rparr>)"
| pop_behind_stub: "mp_consumer s = C_Next t \<Longrightarrow> mp_links s t = Some n \<Longrightarrow> mp_step s (take_item t n s)"
| pop_behind_stub_none: "mp_consumer s = C_Next t \<Longrightarrow> mp_links s t = None \<Longrightarrow> mp_step s (s\<lparr>mp_consumer := C_Head t\<rparr>)"
| pop_not_head: "mp_consumer s = C_Head t \<Longrightarrow> mq_head (mp_queue s) \<noteq> t \<Longrightarrow> mp_step s (s\<lparr>mp_consumer := C_Idle\<rparr>)"
| pop_head: "mp_consumer s = C_Head t \<Longrightarrow> mq_head (mp_queue s) = t \<Longrightarrow> mp_step s (s\<lparr>mp_consumer := C_Clear t\<rparr>)"
| pop_clear_stub: "mp_consumer s = C_Clear t \<Longrightarrow>
    mp_step s (s\<lparr>mp_links := (mp_links s)(mq_end (mp_queue s) := None), mp_consumer := C_Exchange t\<rparr>)"
| pop_exchange_stub: "mp_consumer s = C_Exchange t \<Longrightarrow>
    mp_step s (s\<lparr>mp_queue := (mp_queue s)\<lparr>mq_head := mq_end (mp_queue s)\<rparr>, mp_consumer := C_Link t (mq_head (mp_queue s))\<rparr>)"
| pop_link_stub: "mp_consumer s = C_Link t prev \<Longrightarrow>
    mp_step s (s\<lparr>mp_links := (mp_links s)(prev := Some (mq_end (mp_queue s))), mp_consumer := C_Last t\<rparr>)"
| pop_last: "mp_consumer s = C_Last t \<Longrightarrow> mp_links s t = Some n \<Longrightarrow> mp_step s (take_item t n s)"
| pop_last_none: "mp_consumer s = C_Last t \<Longrightarrow> mp_links s t = None \<Longrightarrow> mp_step s (s\<lparr>mp_consumer := C_Idle\<rparr>)"

subsection \<open>Chains with gaps\<close>

text \<open>
  \<open>joined h L cs\<close>: every item points to the next one of the list, or the link between the two is one
  of the links \<open>L\<close> that are still to be written.
\<close>

fun joined :: "'a links \<Rightarrow> ('a \<times> 'a) set \<Rightarrow> 'a list \<Rightarrow> bool" where
  "joined h L [] = True"
| "joined h L [x] = (h x = None)"
| "joined h L (x # y # zs) = ((h x = Some y \<or> h x = None \<and> (x, y) \<in> L) \<and> joined h L (y # zs))"

definition adjacent :: "'a list \<Rightarrow> 'a \<Rightarrow> 'a \<Rightarrow> bool" where
  "adjacent cs x y \<longleftrightarrow> (\<exists>us vs. cs = us @ x # y # vs)"

lemma joined_last: "joined h L cs \<Longrightarrow> cs \<noteq> [] \<Longrightarrow> h (last cs) = None"
  by (induction h L cs rule: joined.induct) auto

lemma joined_cong: "joined h L cs \<Longrightarrow> (\<And>x. x \<in> set cs \<Longrightarrow> h' x = h x) \<Longrightarrow> (\<And>x y. (x, y) \<in> L \<Longrightarrow> x \<in> set cs \<Longrightarrow> (x, y) \<in> L') \<Longrightarrow> joined h' L' cs"
  by (induction h L cs rule: joined.induct) auto

lemma joined_snoc:
  assumes "joined h L cs" "cs \<noteq> []" "h z = None"
  shows "joined h (insert (last cs, z) L) (cs @ [z])"
  using assms by (induction h L cs rule: joined.induct) auto

lemma joined_link:
  assumes "joined h L cs" "distinct cs" "adjacent cs x y"
  shows "joined (h(x := Some y)) (L - {(x, y)}) cs"
  using assms
proof (induction h L cs rule: joined.induct)
  case (2 h L a)
  then show ?case by (auto simp: adjacent_def Cons_eq_append_conv)
next
  case (3 h L a b zs)
  show ?case
  proof (cases "a = x")
    case True
    then have "y = b" using 3(3,4) by (auto simp: adjacent_def Cons_eq_append_conv)
    moreover have "joined (h(x := Some y)) (L - {(x, y)}) (b # zs)"
      by (rule joined_cong [of h L]) (use 3 True in auto)
    ultimately show ?thesis using True by (simp del: fun_upd_apply) simp
  next
    case False
    then have "adjacent (b # zs) x y" using 3(4) by (auto simp: adjacent_def Cons_eq_append_conv)
    then show ?thesis using 3 False by auto
  qed
qed simp

lemma joined_tail: "joined h L (x # cs) \<Longrightarrow> h x = Some y \<Longrightarrow> \<exists>zs. cs = y # zs \<and> joined h L cs"
  by (cases cs) auto

lemma adjacent_snoc: "adjacent (cs @ [z]) x y \<longleftrightarrow> adjacent cs x y \<or> cs \<noteq> [] \<and> x = last cs \<and> y = z"
proof
  assume "adjacent (cs @ [z]) x y"
  then obtain us vs where e: "cs @ [z] = us @ x # y # vs" by (auto simp: adjacent_def)
  show "adjacent cs x y \<or> cs \<noteq> [] \<and> x = last cs \<and> y = z"
  proof (cases vs rule: rev_cases)
    case Nil
    then have "cs = us @ [x]" "y = z" using e by auto
    then show ?thesis by simp
  next
    case (snoc ws w)
    then have "cs = us @ x # y # ws" using e by auto
    then show ?thesis by (auto simp: adjacent_def)
  qed
next
  assume "adjacent cs x y \<or> cs \<noteq> [] \<and> x = last cs \<and> y = z"
  then show "adjacent (cs @ [z]) x y"
  proof
    assume "adjacent cs x y"
    then obtain us vs where "cs @ [z] = us @ x # y # (vs @ [z])" by (auto simp: adjacent_def)
    then show ?thesis unfolding adjacent_def by blast
  next
    assume a: "cs \<noteq> [] \<and> x = last cs \<and> y = z"
    then have "cs @ [z] = butlast cs @ x # y # []" by simp
    then show ?thesis unfolding adjacent_def by blast
  qed
qed

lemma adjacent_tl: "adjacent (a # cs) x y \<Longrightarrow> x \<noteq> a \<Longrightarrow> adjacent cs x y"
  by (auto simp: adjacent_def Cons_eq_append_conv)

lemma adjacent_unique:
  assumes "distinct cs" "adjacent cs x y" "adjacent cs x' y"
  shows "x = x'"
proof -
  obtain us vs where e: "cs = (us @ [x]) @ y # vs" using assms(2) by (auto simp: adjacent_def)
  obtain us' vs' where e': "cs = (us' @ [x']) @ y # vs'" using assms(3) by (auto simp: adjacent_def)
  have "y \<notin> set (us @ [x])" "y \<notin> set vs" using assms(1) e by auto
  then have "us @ [x] = us' @ [x']" using e e' append_Cons_eq_iff [of y "us @ [x]" vs "us' @ [x']" vs'] by metis
  then show ?thesis by simp
qed

lemma adjacent_unique_right:
  assumes "distinct cs" "adjacent cs x y" "adjacent cs x y'"
  shows "y = y'"
proof -
  obtain us vs where e: "cs = us @ x # y # vs" using assms(2) by (auto simp: adjacent_def)
  obtain us' vs' where e': "cs = us' @ x # y' # vs'" using assms(3) by (auto simp: adjacent_def)
  have "x \<notin> set us" "x \<notin> set (y # vs)" using assms(1) e by auto
  then have "y # vs = y' # vs'" using e e' append_Cons_eq_iff [of x us "y # vs" us' "y' # vs'"] by metis
  then show ?thesis by simp
qed

lemma adjacent_set: "adjacent cs x y \<Longrightarrow> x \<in> set cs \<and> y \<in> set cs"
  by (auto simp: adjacent_def)

subsection \<open>The invariant\<close>

text \<open>The links that are still to be written.\<close>

definition pending_links :: "'a mp_state \<Rightarrow> ('a \<times> 'a) set" where
  "pending_links s = {(x, y). (\<exists>p. mp_producer s p = P_Link x y) \<or> (\<exists>t. mp_consumer s = C_Link t x \<and> y = mq_end (mp_queue s))}"

text \<open>Where the consumer is, the tail is known, and sometimes that the stub is not in the queue.\<close>

fun consumer_ok :: "'a consumer \<Rightarrow> 'a \<Rightarrow> 'a \<Rightarrow> 'a links \<Rightarrow> 'a list \<Rightarrow> bool" where
  "consumer_ok C_Idle tail stub h cs \<longleftrightarrow> True"
| "consumer_ok (C_Next t) tail stub h cs \<longleftrightarrow> t = tail \<and> t \<noteq> stub"
| "consumer_ok (C_Head t) tail stub h cs \<longleftrightarrow> t = tail \<and> t \<noteq> stub"
| "consumer_ok (C_Clear t) tail stub h cs \<longleftrightarrow> t = tail \<and> t \<noteq> stub \<and> stub \<notin> set cs"
| "consumer_ok (C_Exchange t) tail stub h cs \<longleftrightarrow> t = tail \<and> t \<noteq> stub \<and> stub \<notin> set cs \<and> h stub = None"
| "consumer_ok (C_Link t prev) tail stub h cs \<longleftrightarrow> t = tail \<and> t \<noteq> stub"
| "consumer_ok (C_Last t) tail stub h cs \<longleftrightarrow> t = tail \<and> t \<noteq> stub"

definition mp_inv :: "'a mp_state \<Rightarrow> 'a list \<Rightarrow> bool" where
  "mp_inv s cs \<longleftrightarrow> cs \<noteq> [] \<and> distinct cs \<and> hd cs = mq_tail (mp_queue s) \<and> last cs = mq_head (mp_queue s) \<and>
     joined (mp_links s) (pending_links s) cs \<and>
     (\<forall>x y. (x, y) \<in> pending_links s \<longrightarrow> mp_links s x = None \<and> adjacent cs x y) \<and>
     (\<forall>p x. mp_producer s p = P_Exchange x \<longrightarrow> x \<notin> set cs \<and> mp_links s x = None) \<and>
     (\<forall>p x. in_hand (mp_producer s p) = Some x \<longrightarrow> x \<noteq> mq_end (mp_queue s)) \<and>
     (\<forall>p q x. in_hand (mp_producer s p) = Some x \<longrightarrow> in_hand (mp_producer s q) = Some x \<longrightarrow> p = q) \<and>
     consumer_ok (mp_consumer s) (mq_tail (mp_queue s)) (mq_end (mp_queue s)) (mp_links s) cs \<and>
     mp_pushed s = mp_popped s @ filter (\<lambda>c. c \<noteq> mq_end (mp_queue s)) cs"

lemma mp_invD:
  assumes "mp_inv s cs"
  shows "cs \<noteq> []" "distinct cs" "hd cs = mq_tail (mp_queue s)" "last cs = mq_head (mp_queue s)" "joined (mp_links s) (pending_links s) cs"
    "(x, y) \<in> pending_links s \<Longrightarrow> mp_links s x = None" "(x, y) \<in> pending_links s \<Longrightarrow> adjacent cs x y"
    "mp_producer s p = P_Exchange x \<Longrightarrow> x \<notin> set cs" "mp_producer s p = P_Exchange x \<Longrightarrow> mp_links s x = None"
    "in_hand (mp_producer s p) = Some x \<Longrightarrow> x \<noteq> mq_end (mp_queue s)"
    "in_hand (mp_producer s p) = Some x \<Longrightarrow> in_hand (mp_producer s q) = Some x \<Longrightarrow> p = q"
    "consumer_ok (mp_consumer s) (mq_tail (mp_queue s)) (mq_end (mp_queue s)) (mp_links s) cs"
    "mp_pushed s = mp_popped s @ filter (\<lambda>c. c \<noteq> mq_end (mp_queue s)) cs"
  using assms by (auto simp: mp_inv_def)

lemma mp_waiting_eq: "mp_inv s cs \<Longrightarrow> mp_waiting s = filter (\<lambda>c. c \<noteq> mq_end (mp_queue s)) cs"
  by (simp add: mp_waiting_def mp_inv_def)

text \<open>The consumer takes the first item, or skips the stub, once its link is there.\<close>

lemma mp_inv_advance:
  assumes inv: "mp_inv s cs" and n: "mp_links s (mq_tail (mp_queue s)) = Some n" and cons: "\<And>t x. mp_consumer s \<noteq> C_Link t x" "\<And>t x. c \<noteq> C_Link t x"
    and popped: "popped = mp_popped s @ filter (\<lambda>c. c \<noteq> mq_end (mp_queue s)) [mq_tail (mp_queue s)]"
    and c: "\<And>ds. cs = mq_tail (mp_queue s) # ds \<Longrightarrow> consumer_ok c n (mq_end (mp_queue s)) (mp_links s) ds"
  shows "mp_inv (s\<lparr>mp_queue := (mp_queue s)\<lparr>mq_tail := n\<rparr>, mp_consumer := c, mp_popped := popped\<rparr>) (tl cs)"
proof -
  note I = mp_invD [OF inv]
  obtain ds where cs: "cs = mq_tail (mp_queue s) # ds" using I(1,3) by (cases cs) auto
  obtain zs where ds: "ds = n # zs" and j: "joined (mp_links s) (pending_links s) ds" using joined_tail I(5) n cs by metis
  have L: "pending_links (s\<lparr>mp_queue := (mp_queue s)\<lparr>mq_tail := n\<rparr>, mp_consumer := c, mp_popped := popped\<rparr>) = pending_links s"
    using cons by (auto simp: pending_links_def)
  have adj: "adjacent ds x y" if "(x, y) \<in> pending_links s" for x y
    using I(7) [OF that] I(6) [OF that] n cs adjacent_tl by (metis option.distinct(1))
  show ?thesis unfolding mp_inv_def L
    using I(2,4,8-11) j adj I(6) c [OF cs] I(13) popped cs ds by (auto split: if_splits)
qed

lemma ex_upd: "f p \<noteq> w \<Longrightarrow> (\<exists>q. (f(p := v)) q = w) \<longleftrightarrow> v = w \<or> (\<exists>q. f q = w)"
  by (metis fun_upd_apply)

lemma mp_inv_clear:
  assumes inv: "mp_inv s cs" and p: "mp_producer s p = P_Idle" "x \<noteq> mq_end (mp_queue s)" "x \<notin> set (mp_waiting s)" "\<And>q. in_hand (mp_producer s q) \<noteq> Some x"
  shows "mp_inv (s\<lparr>mp_links := (mp_links s)(x := None), mp_producer := (mp_producer s)(p := P_Exchange x)\<rparr>) cs"
proof -
  let ?s = "s\<lparr>mp_links := (mp_links s)(x := None), mp_producer := (mp_producer s)(p := P_Exchange x)\<rparr>"
  note I = mp_invD [OF inv]
  have x: "x \<notin> set cs" using p(2,3) mp_waiting_eq [OF inv] by auto
  have L: "pending_links ?s = pending_links s" using p(1) by (simp add: pending_links_def ex_upd del: fun_upd_apply)
  have "joined ((mp_links s)(x := None)) (pending_links s) cs" by (rule joined_cong [OF I(5)]) (use x in auto)
  moreover have "consumer_ok (mp_consumer s) (mq_tail (mp_queue s)) (mq_end (mp_queue s)) ((mp_links s)(x := None)) cs"
    using I(12) p(2) by (cases "mp_consumer s") auto
  moreover have "in_hand (mp_producer s q) = Some y \<Longrightarrow> y \<noteq> x" for q y using p(4) by auto
  ultimately show ?thesis unfolding mp_inv_def L using I(1-4,6-11,13) x p(1,2) by (auto split: if_splits)
qed

lemma mp_inv_exchange:
  assumes inv: "mp_inv s cs" and p: "mp_producer s p = P_Exchange x"
  shows "mp_inv (s\<lparr>mp_queue := (mp_queue s)\<lparr>mq_head := x\<rparr>, mp_producer := (mp_producer s)(p := P_Link (mq_head (mp_queue s)) x),
    mp_pushed := mp_pushed s @ [x]\<rparr>) (cs @ [x])"
proof -
  let ?s = "s\<lparr>mp_queue := (mp_queue s)\<lparr>mq_head := x\<rparr>, mp_producer := (mp_producer s)(p := P_Link (mq_head (mp_queue s)) x), mp_pushed := mp_pushed s @ [x]\<rparr>"
  note I = mp_invD [OF inv]
  have x: "x \<notin> set cs" "mp_links s x = None" "x \<noteq> mq_end (mp_queue s)" using I(8-10) [of p x] p by auto
  have L: "pending_links ?s = insert (last cs, x) (pending_links s)" using p I(4) by (auto simp: pending_links_def ex_upd simp del: fun_upd_apply)
  have "joined (mp_links s) (insert (last cs, x) (pending_links s)) (cs @ [x])" by (rule joined_snoc [OF I(5,1) x(2)])
  moreover have "mp_links s (last cs) = None" using joined_last [OF I(5,1)] .
  moreover have "consumer_ok (mp_consumer s) (mq_tail (mp_queue s)) (mq_end (mp_queue s)) (mp_links s) (cs @ [x])"
    using I(12) x(3) by (cases "mp_consumer s") auto
  moreover have other: "in_hand (mp_producer s q) = Some x \<Longrightarrow> q = p" for q using I(11) [of q x p] p by simp
  have "mp_producer s q = P_Exchange y \<Longrightarrow> q \<noteq> p \<Longrightarrow> y \<noteq> x" for q y using other by fastforce
  ultimately show ?thesis unfolding mp_inv_def L adjacent_snoc
    using I x p other by (auto split: if_splits)
qed

lemma mp_inv_link:
  assumes inv: "mp_inv s cs" and p: "mp_producer s p = P_Link prev x"
  shows "mp_inv (s\<lparr>mp_links := (mp_links s)(prev := Some x), mp_producer := (mp_producer s)(p := P_Idle)\<rparr>) cs"
proof -
  let ?s = "s\<lparr>mp_links := (mp_links s)(prev := Some x), mp_producer := (mp_producer s)(p := P_Idle)\<rparr>"
  note I = mp_invD [OF inv]
  have pend: "(prev, x) \<in> pending_links s" using p by (auto simp: pending_links_def)
  have adj: "adjacent cs prev x" and x: "x \<noteq> mq_end (mp_queue s)" using I(7) [OF pend] I(10) [of p x] p by auto
  have other: "mp_producer s q = P_Link a x \<Longrightarrow> q = p" for q a using I(11) [of q x p] p by simp
  have "(\<exists>q. ((mp_producer s)(p := P_Idle)) q = P_Link a b) \<longleftrightarrow> (\<exists>q. mp_producer s q = P_Link a b) \<and> (a, b) \<noteq> (prev, x)" for a b
  proof
    assume "\<exists>q. ((mp_producer s)(p := P_Idle)) q = P_Link a b"
    then obtain q where "q \<noteq> p" "mp_producer s q = P_Link a b" by (auto split: if_splits)
    then show "(\<exists>q. mp_producer s q = P_Link a b) \<and> (a, b) \<noteq> (prev, x)" using other by auto
  next
    assume a: "(\<exists>q. mp_producer s q = P_Link a b) \<and> (a, b) \<noteq> (prev, x)"
    then obtain q where q: "mp_producer s q = P_Link a b" by blast
    then have "q \<noteq> p" using a p by auto
    with q show "\<exists>q. ((mp_producer s)(p := P_Idle)) q = P_Link a b" by auto
  qed
  then have L: "pending_links ?s = pending_links s - {(prev, x)}"
    using x by (auto simp: pending_links_def simp del: fun_upd_apply)
  have "joined ((mp_links s)(prev := Some x)) (pending_links s - {(prev, x)}) cs" by (rule joined_link [OF I(5,2) adj])
  moreover have "a \<noteq> prev" if "(a, b) \<in> pending_links s - {(prev, x)}" for a b
    using that I(7) [of a b] adjacent_unique_right [OF I(2) adj] by auto
  moreover have "prev \<in> set cs" using adjacent_set [OF adj] by simp
  then have "consumer_ok (mp_consumer s) (mq_tail (mp_queue s)) (mq_end (mp_queue s)) ((mp_links s)(prev := Some x)) cs"
    using I(12) by (cases "mp_consumer s") auto
  ultimately show ?thesis unfolding mp_inv_def L using I adjacent_set [OF adj] by (auto split: if_splits)
qed

lemma mp_inv_clear_stub:
  assumes inv: "mp_inv s cs" and c: "mp_consumer s = C_Clear t"
  shows "mp_inv (s\<lparr>mp_links := (mp_links s)(mq_end (mp_queue s) := None), mp_consumer := C_Exchange t\<rparr>) cs"
proof -
  let ?s = "s\<lparr>mp_links := (mp_links s)(mq_end (mp_queue s) := None), mp_consumer := C_Exchange t\<rparr>"
  note I = mp_invD [OF inv]
  have stub: "mq_end (mp_queue s) \<notin> set cs" "t = mq_tail (mp_queue s)" "t \<noteq> mq_end (mp_queue s)" using I(12) c by auto
  have L: "pending_links ?s = pending_links s" using c by (simp add: pending_links_def)
  have "joined ((mp_links s)(mq_end (mp_queue s) := None)) (pending_links s) cs" by (rule joined_cong [OF I(5)]) (use stub in auto)
  then show ?thesis unfolding mp_inv_def L using I stub by auto
qed

lemma mp_inv_exchange_stub:
  assumes inv: "mp_inv s cs" and c: "mp_consumer s = C_Exchange t"
  shows "mp_inv (s\<lparr>mp_queue := (mp_queue s)\<lparr>mq_head := mq_end (mp_queue s)\<rparr>, mp_consumer := C_Link t (mq_head (mp_queue s))\<rparr>) (cs @ [mq_end (mp_queue s)])"
proof -
  let ?e = "mq_end (mp_queue s)"
  let ?s = "s\<lparr>mp_queue := (mp_queue s)\<lparr>mq_head := mq_end (mp_queue s)\<rparr>, mp_consumer := C_Link t (mq_head (mp_queue s))\<rparr>"
  note I = mp_invD [OF inv]
  have stub: "?e \<notin> set cs" "t = mq_tail (mp_queue s)" "t \<noteq> ?e" "mp_links s ?e = None" using I(12) c by auto
  have L: "pending_links ?s = insert (last cs, ?e) (pending_links s)" using c I(4) by (auto simp: pending_links_def)
  have "joined (mp_links s) (insert (last cs, ?e) (pending_links s)) (cs @ [?e])" by (rule joined_snoc [OF I(5,1) stub(4)])
  moreover have "mp_links s (last cs) = None" using joined_last [OF I(5,1)] .
  moreover have "mp_producer s q = P_Exchange y \<Longrightarrow> y \<noteq> ?e" for q y using I(10) [of q y] by simp
  ultimately show ?thesis unfolding mp_inv_def L adjacent_snoc using I stub by auto
qed

lemma mp_inv_link_stub:
  assumes inv: "mp_inv s cs" and c: "mp_consumer s = C_Link t prev"
  shows "mp_inv (s\<lparr>mp_links := (mp_links s)(prev := Some (mq_end (mp_queue s))), mp_consumer := C_Last t\<rparr>) cs"
proof -
  let ?e = "mq_end (mp_queue s)"
  let ?s = "s\<lparr>mp_links := (mp_links s)(prev := Some (mq_end (mp_queue s))), mp_consumer := C_Last t\<rparr>"
  note I = mp_invD [OF inv]
  have pend: "(prev, ?e) \<in> pending_links s" using c by (auto simp: pending_links_def)
  have adj: "adjacent cs prev ?e" using I(7) [OF pend] .
  have "mp_producer s q \<noteq> P_Link a ?e" for q a using I(10) [of q ?e] by auto
  then have L: "pending_links ?s = pending_links s - {(prev, ?e)}" using c by (auto simp: pending_links_def)
  have "joined ((mp_links s)(prev := Some ?e)) (pending_links s - {(prev, ?e)}) cs" by (rule joined_link [OF I(5,2) adj])
  moreover have "a \<noteq> prev" if "(a, b) \<in> pending_links s - {(prev, ?e)}" for a b
    using that I(7) [of a b] adjacent_unique_right [OF I(2) adj] by auto
  ultimately show ?thesis unfolding mp_inv_def L using I c adjacent_set [OF adj] by auto
qed

lemma mp_inv_position:
  assumes "mp_inv s cs" "\<And>t x. mp_consumer s \<noteq> C_Link t x" "\<And>t x. c \<noteq> C_Link t x"
    "consumer_ok c (mq_tail (mp_queue s)) (mq_end (mp_queue s)) (mp_links s) cs"
  shows "mp_inv (s\<lparr>mp_consumer := c\<rparr>) cs"
proof -
  have "pending_links (s\<lparr>mp_consumer := c\<rparr>) = pending_links s" using assms(2,3) by (auto simp: pending_links_def)
  then show ?thesis using assms(1,4) by (simp add: mp_inv_def)
qed

lemma mp_inv_take:
  assumes "mp_inv s cs" "mp_links s t = Some n" "\<And>t x. mp_consumer s \<noteq> C_Link t x" "t = mq_tail (mp_queue s)" "t \<noteq> mq_end (mp_queue s)"
  shows "mp_inv (take_item t n s) (tl cs)"
  using mp_inv_advance [of s cs n C_Idle "mp_popped s @ [t]"] assms by (simp add: take_item_def)

lemma mp_inv_skip:
  assumes inv: "mp_inv s cs" and c: "mp_consumer s = C_Idle" and tail: "mq_tail (mp_queue s) = mq_end (mp_queue s)" "mp_links s (mq_tail (mp_queue s)) = Some n"
  shows "mp_inv (s\<lparr>mp_queue := (mp_queue s)\<lparr>mq_tail := n\<rparr>, mp_consumer := C_Next n\<rparr>) (tl cs)"
proof -
  note I = mp_invD [OF inv]
  have "consumer_ok (C_Next n) n (mq_end (mp_queue s)) (mp_links s) ds" if ds: "cs = mq_tail (mp_queue s) # ds" for ds
    using joined_tail [of "mp_links s" "pending_links s" "mq_tail (mp_queue s)" ds n] I(2,5) tail ds by auto
  then have "mp_inv (s\<lparr>mp_queue := (mp_queue s)\<lparr>mq_tail := n\<rparr>, mp_consumer := C_Next n, mp_popped := mp_popped s\<rparr>) (tl cs)"
    by (intro mp_inv_advance [OF inv tail(2)]) (use c tail(1) in auto)
  then show ?thesis by simp
qed

lemma mp_inv_alone:
  assumes inv: "mp_inv s cs" and c: "mp_consumer s = C_Head t" "mq_head (mp_queue s) = t"
  shows "mp_inv (s\<lparr>mp_consumer := C_Clear t\<rparr>) cs"
proof -
  note I = mp_invD [OF inv]
  have t: "t = mq_tail (mp_queue s)" "t \<noteq> mq_end (mp_queue s)" using I(12) c(1) by auto
  obtain ds where cs: "cs = t # ds" using I(1,3) t by (cases cs) auto
  have "ds = []" using I(2,4) c(2) cs by (cases ds rule: rev_cases) auto
  then show ?thesis by (intro mp_inv_position [OF inv]) (use c t cs in auto)
qed

lemma mp_step_inv: "mp_step s s' \<Longrightarrow> mp_inv s cs \<Longrightarrow> \<exists>cs'. mp_inv s' cs'"
proof (induction rule: mp_step.induct)
  case (producer_clear s p x)
  show ?case by (rule exI, rule mp_inv_clear [OF producer_clear.prems producer_clear.hyps])
next
  case (producer_exchange s p x)
  show ?case by (rule exI, rule mp_inv_exchange [OF producer_exchange.prems producer_exchange.hyps])
next
  case (producer_link s p prev x)
  show ?case by (rule exI, rule mp_inv_link [OF producer_link.prems producer_link.hyps])
next
  case (pop_skip_stub s n)
  show ?case by (rule exI, rule mp_inv_skip [OF pop_skip_stub.prems pop_skip_stub.hyps])
next
  case (pop_first s n)
  show ?case by (rule exI, rule mp_inv_take [OF pop_first.prems]) (use pop_first.hyps in simp_all)
next
  case (pop_no_next s)
  show ?case by (rule exI, rule mp_inv_position [OF pop_no_next.prems]) (use pop_no_next.hyps in simp_all)
next
  case (pop_behind_stub s t n)
  show ?case by (rule exI, rule mp_inv_take [OF pop_behind_stub.prems]) (use pop_behind_stub.hyps mp_invD(12) [OF pop_behind_stub.prems] in auto)
next
  case (pop_behind_stub_none s t)
  show ?case by (rule exI, rule mp_inv_position [OF pop_behind_stub_none.prems]) (use pop_behind_stub_none.hyps mp_invD(12) [OF pop_behind_stub_none.prems] in auto)
next
  case (pop_not_head s t)
  show ?case by (rule exI, rule mp_inv_position [OF pop_not_head.prems]) (use pop_not_head.hyps in simp_all)
next
  case (pop_head s t)
  show ?case by (rule exI, rule mp_inv_alone [OF pop_head.prems pop_head.hyps])
next
  case (pop_clear_stub s t)
  show ?case by (rule exI, rule mp_inv_clear_stub [OF pop_clear_stub.prems pop_clear_stub.hyps])
next
  case (pop_exchange_stub s t)
  show ?case by (rule exI, rule mp_inv_exchange_stub [OF pop_exchange_stub.prems pop_exchange_stub.hyps])
next
  case (pop_link_stub s t prev)
  show ?case by (rule exI, rule mp_inv_link_stub [OF pop_link_stub.prems pop_link_stub.hyps])
next
  case (pop_last s t n)
  show ?case by (rule exI, rule mp_inv_take [OF pop_last.prems]) (use pop_last.hyps mp_invD(12) [OF pop_last.prems] in auto)
next
  case (pop_last_none s t)
  show ?case by (rule exI, rule mp_inv_position [OF pop_last_none.prems]) (use pop_last_none.hyps in simp_all)
qed (rule exI)

lemma mp_init_inv: "mp_inv (mp_init stub h) [stub]"
  by (simp add: mp_init_def mpsc_new_def mp_inv_def pending_links_def)

interpretation mp_system: step_system "\<lambda>s. \<exists>stub h. s = mp_init stub h" mp_step "\<lambda>s. \<exists>cs. mp_inv s cs"
  by unfold_locales (blast intro: mp_init_inv mp_step_inv)+

lemma mp_reachable_inv: "mp_step\<^sup>*\<^sup>* (mp_init stub h) s \<Longrightarrow> \<exists>cs. mp_inv s cs"
  by (rule mp_system.reachable_inv) blast+

lemma joined_chain: "joined h {} cs \<Longrightarrow> cs \<noteq> [] \<Longrightarrow> chain h (Some (hd cs)) cs None"
  by (induction h "{} :: ('a \<times> 'a) set" cs rule: joined.induct) auto

text \<open>
  C22: The MPSC queue is a first-in-first-out queue for any number of concurrent producers and one
  consumer, whatever the interleaving of their accesses: what the consumer has got is a prefix of
  the items in the order of their exchanges, and when no producer is between its exchange and its
  link and the consumer is not within pop_front, the queue holds exactly the remaining items.
\<close>

theorem mpsc_interleaving_is_fifo:
  assumes "mp_step\<^sup>*\<^sup>* (mp_init stub h) s"
  shows "mp_pushed s = mp_popped s @ mp_waiting s \<and>
    ((\<forall>p prev x. mp_producer s p \<noteq> P_Link prev x) \<and> mp_consumer s = C_Idle \<longrightarrow> mpsc_rep (mp_links s) (mp_queue s) (mp_waiting s))"
proof -
  obtain cs where inv: "mp_inv s cs" using mp_reachable_inv [OF assms] by blast
  note I = mp_invD [OF inv]
  have "mpsc_rep (mp_links s) (mp_queue s) (mp_waiting s)" if "\<forall>p prev x. mp_producer s p \<noteq> P_Link prev x" "mp_consumer s = C_Idle"
  proof -
    have "pending_links s = {}" using that by (auto simp: pending_links_def)
    then have "mpsc_chain (mp_links s) (mp_queue s) cs" using I(1-5) joined_chain [of "mp_links s" cs] by (simp add: mpsc_chain_def)
    then show ?thesis using mp_waiting_eq [OF inv] by (auto simp: mpsc_rep_def)
  qed
  then show ?thesis using I(13) mp_waiting_eq [OF inv] by auto
qed

text \<open>Two producers exchange their items before the first of them links its item.\<close>

definition mp_demo :: "nat links \<Rightarrow> nat \<Rightarrow> (nat \<Rightarrow> nat producer) \<Rightarrow> nat list \<Rightarrow> nat mp_state" where
  "mp_demo h head producers pushed = \<lparr>mp_links = h, mp_queue = \<lparr>mq_head = head, mq_tail = 0, mq_end = 0\<rparr>, mp_producer = producers,
     mp_consumer = C_Idle, mp_pushed = pushed, mp_popped = []\<rparr>"

lemma mp_demo_run:
  "mp_step\<^sup>*\<^sup>* (mp_init 0 (\<lambda>_. None)) (mp_demo ((\<lambda>_. None)(5 := Some 7, 0 := Some 5)) 7 (\<lambda>_. P_Idle) [5, 7])"
proof -
  have s0: "mp_init 0 (\<lambda>_. None) = mp_demo (\<lambda>_. None) 0 (\<lambda>_. P_Idle) []"
    by (simp add: mp_demo_def mp_init_def mpsc_new_def fun_eq_iff)
  have s1: "mp_step (mp_demo (\<lambda>_. None) 0 (\<lambda>_. P_Idle) []) (mp_demo (\<lambda>_. None) 0 ((\<lambda>_. P_Idle)(1 := P_Exchange 5)) [])"
    using producer_clear [of "mp_demo (\<lambda>_. None) 0 (\<lambda>_. P_Idle) []" 1 5] by (simp add: mp_demo_def mp_waiting_def)
  have s2: "mp_step (mp_demo (\<lambda>_. None) 0 ((\<lambda>_. P_Idle)(1 := P_Exchange 5)) []) (mp_demo (\<lambda>_. None) 0 ((\<lambda>_. P_Idle)(1 := P_Exchange 5, 2 := P_Exchange 7)) [])"
    using producer_clear [of "mp_demo (\<lambda>_. None) 0 ((\<lambda>_. P_Idle)(1 := P_Exchange 5)) []" 2 7] by (simp add: mp_demo_def mp_waiting_def)
  have s3: "mp_step (mp_demo (\<lambda>_. None) 0 ((\<lambda>_. P_Idle)(1 := P_Exchange 5, 2 := P_Exchange 7)) [])
      (mp_demo (\<lambda>_. None) 5 ((\<lambda>_. P_Idle)(2 := P_Exchange 7, 1 := P_Link 0 5)) [5])"
    using producer_exchange [of "mp_demo (\<lambda>_. None) 0 ((\<lambda>_. P_Idle)(1 := P_Exchange 5, 2 := P_Exchange 7)) []" 1 5]
    by (simp add: mp_demo_def fun_upd_twist [of 1 2])
  have s4: "mp_step (mp_demo (\<lambda>_. None) 5 ((\<lambda>_. P_Idle)(2 := P_Exchange 7, 1 := P_Link 0 5)) [5])
      (mp_demo (\<lambda>_. None) 7 ((\<lambda>_. P_Idle)(1 := P_Link 0 5, 2 := P_Link 5 7)) [5, 7])"
    using producer_exchange [of "mp_demo (\<lambda>_. None) 5 ((\<lambda>_. P_Idle)(2 := P_Exchange 7, 1 := P_Link 0 5)) [5]" 2 7]
    by (simp add: mp_demo_def fun_upd_twist [of 2 1])
  have s5: "mp_step (mp_demo (\<lambda>_. None) 7 ((\<lambda>_. P_Idle)(1 := P_Link 0 5, 2 := P_Link 5 7)) [5, 7])
      (mp_demo ((\<lambda>_. None)(5 := Some 7)) 7 ((\<lambda>_. P_Idle)(1 := P_Link 0 5)) [5, 7])"
    using producer_link [of "mp_demo (\<lambda>_. None) 7 ((\<lambda>_. P_Idle)(1 := P_Link 0 5, 2 := P_Link 5 7)) [5, 7]" 2 5 7]
    by (simp add: mp_demo_def fun_upd_idem)
  have s6: "mp_step (mp_demo ((\<lambda>_. None)(5 := Some 7)) 7 ((\<lambda>_. P_Idle)(1 := P_Link 0 5)) [5, 7])
      (mp_demo ((\<lambda>_. None)(5 := Some 7, 0 := Some 5)) 7 (\<lambda>_. P_Idle) [5, 7])"
    using producer_link [of "mp_demo ((\<lambda>_. None)(5 := Some 7)) 7 ((\<lambda>_. P_Idle)(1 := P_Link 0 5)) [5, 7]" 1 0 5]
    by (simp add: mp_demo_def fun_upd_idem)
  show ?thesis unfolding s0 using s1 s2 s3 s4 s5 s6 by (meson converse_rtranclp_into_rtranclp rtranclp.rtrancl_refl)
qed

theorem mpsc_interleaving_is_fifo_witness:
  "\<exists>s. mp_step\<^sup>*\<^sup>* (mp_init (0 :: nat) (\<lambda>_. None)) s \<and> mp_waiting s = [5, 7] \<and> mpsc_rep (mp_links s) (mp_queue s) [5, 7]"
  using mpsc_interleaving_is_fifo [OF mp_demo_run] mp_demo_run by (intro exI conjI) (auto simp: mp_demo_def mp_waiting_def)

end
