(* ===== verification/BoundMpmc.thy ===== *)
theory BoundMpmc
  imports MxPrelude
begin

section \<open>The bounded queue for many producers and consumers\<close>

text \<open>
  src/mx/util/bound_mpmc_queue.h. Every slot has a sequence number that says for which position of the
  head or the tail it is ready. A push claims the position of the head by compare-and-exchange, writes the
  slot and publishes it with the next sequence number; a pop does the same at the tail and hands the
  slot to the push of the next round.

  A step is one access of one thread to a shared variable, so that all interleavings of any number of
  threads are covered; compare_exchange_weak may fail without a reason. Two history variables record
  the pushed items in the order of their positions and what the pops have read. Positions and sequence
  numbers are 64 bit words; the results hold as long as fewer than 2^63 - capacity items were pushed.

  The lemmas show that position \<open>p\<close> of the tail reads the item of position \<open>p\<close> of the head, once; that a
  push or pop that gives up met a slot that was not ready; and that a queue of capacity 1 loses items.
\<close>

subsection \<open>The queue and its threads\<close>

datatype 'a pop_mode = TryPop | PopFront | PopFrontOr 'a

datatype 'a bq_pc = BIdle
  | PushLoad bool 'a | PushCheck bool 'a u64 | PushCas bool 'a u64 | PushWrite 'a u64 | PushPublish u64
  | PopLoad "'a pop_mode" | PopCheck "'a pop_mode" u64 | PopCas "'a pop_mode" u64 | PopRead u64 | PopPublish u64 'a

datatype 'a bq_result = NoResult | PushResult bool | PopResult "'a option"

record 'a bq_state =
  bq_capacity :: u32
  bq_sequence :: "nat \<Rightarrow> u64"
  bq_data :: "nat \<Rightarrow> 'a"
  bq_head :: u64
  bq_tail :: u64
  bq_pc :: "nat \<Rightarrow> 'a bq_pc"
  bq_result :: "nat \<Rightarrow> 'a bq_result"
  bq_pushed :: "'a list"
  bq_popped :: "(nat \<times> 'a) list"

definition bq_new :: "u16 \<Rightarrow> 'a \<Rightarrow> 'a bq_state" where
  "bq_new capacity zero = \<lparr>bq_capacity = ucast capacity,
     bq_sequence = \<lambda>i. if i < unat capacity then of_nat i else 0, bq_data = \<lambda>_. zero, bq_head = 0, bq_tail = 0,
     bq_pc = \<lambda>_. BIdle, bq_result = \<lambda>_. NoResult, bq_pushed = [], bq_popped = []\<rparr>"

definition bq_slot :: "'a bq_state \<Rightarrow> u64 \<Rightarrow> nat" where
  "bq_slot s pos = unat pos mod unat (bq_capacity s)"

datatype verdict = Claim | Fail | Retry

definition bq_verdict :: "u64 \<Rightarrow> u64 \<Rightarrow> verdict" where
  "bq_verdict sequence expected =
     (let difference = sint (sequence - expected)
      in if difference = 0 then Claim else if difference < 0 then Fail else Retry)"

text \<open>What a thread does after a check; \<open>block\<close> distinguishes push_back from try_push_back.\<close>

fun push_continue :: "bool \<Rightarrow> 'a \<Rightarrow> u64 \<Rightarrow> verdict \<Rightarrow> 'a bq_pc \<times> 'a bq_result" where
  "push_continue block x pos Claim = (PushCas block x pos, NoResult)"
| "push_continue block x pos Retry = (PushLoad block x, NoResult)"
| "push_continue block x pos Fail = (if block then (PushLoad block x, NoResult) else (BIdle, PushResult False))"

fun pop_continue :: "'a pop_mode \<Rightarrow> u64 \<Rightarrow> verdict \<Rightarrow> 'a bq_pc \<times> 'a bq_result" where
  "pop_continue mode pos Claim = (PopCas mode pos, NoResult)"
| "pop_continue mode pos Retry = (PopLoad mode, NoResult)"
| "pop_continue mode pos Fail = (case mode of
      TryPop \<Rightarrow> (BIdle, PopResult None)
    | PopFront \<Rightarrow> (PopLoad mode, NoResult)
    | PopFrontOr default_value \<Rightarrow> (BIdle, PopResult (Some default_value)))"

definition bq_goto :: "nat \<Rightarrow> 'a bq_pc \<Rightarrow> 'a bq_result \<Rightarrow> 'a bq_state \<Rightarrow> 'a bq_state" where
  "bq_goto t p r s = s\<lparr>bq_pc := (bq_pc s)(t := p), bq_result := (bq_result s)(t := r)\<rparr>"

inductive bq_step :: "'a bq_state \<Rightarrow> 'a bq_state \<Rightarrow> bool" where
  push_call: "bq_pc s t = BIdle \<Longrightarrow> bq_step s (bq_goto t (PushLoad block x) NoResult s)"
| push_load: "bq_pc s t = PushLoad block x \<Longrightarrow> bq_step s (bq_goto t (PushCheck block x (bq_head s)) NoResult s)"
| push_check: "bq_pc s t = PushCheck block x pos \<Longrightarrow>
    push_continue block x pos (bq_verdict (bq_sequence s (bq_slot s pos)) pos) = (p, r) \<Longrightarrow> bq_step s (bq_goto t p r s)"
| push_claim: "bq_pc s t = PushCas block x pos \<Longrightarrow> bq_head s = pos \<Longrightarrow>
    bq_step s (bq_goto t (PushWrite x pos) NoResult (s\<lparr>bq_head := pos + 1, bq_pushed := bq_pushed s @ [x]\<rparr>))"
| push_lost: "bq_pc s t = PushCas block x pos \<Longrightarrow> bq_step s (bq_goto t (PushCheck block x (bq_head s)) NoResult s)"
| push_write: "bq_pc s t = PushWrite x pos \<Longrightarrow>
    bq_step s (bq_goto t (PushPublish pos) NoResult (s\<lparr>bq_data := (bq_data s)(bq_slot s pos := x)\<rparr>))"
| push_publish: "bq_pc s t = PushPublish pos \<Longrightarrow>
    bq_step s (bq_goto t BIdle (PushResult True) (s\<lparr>bq_sequence := (bq_sequence s)(bq_slot s pos := pos + 1)\<rparr>))"
| pop_call: "bq_pc s t = BIdle \<Longrightarrow> bq_step s (bq_goto t (PopLoad mode) NoResult s)"
| pop_load: "bq_pc s t = PopLoad mode \<Longrightarrow> bq_step s (bq_goto t (PopCheck mode (bq_tail s)) NoResult s)"
| pop_check: "bq_pc s t = PopCheck mode pos \<Longrightarrow>
    pop_continue mode pos (bq_verdict (bq_sequence s (bq_slot s pos)) (pos + 1)) = (p, r) \<Longrightarrow> bq_step s (bq_goto t p r s)"
| pop_claim: "bq_pc s t = PopCas mode pos \<Longrightarrow> bq_tail s = pos \<Longrightarrow>
    bq_step s (bq_goto t (PopRead pos) NoResult (s\<lparr>bq_tail := pos + 1\<rparr>))"
| pop_lost: "bq_pc s t = PopCas mode pos \<Longrightarrow> bq_step s (bq_goto t (PopCheck mode (bq_tail s)) NoResult s)"
| pop_read: "bq_pc s t = PopRead pos \<Longrightarrow>
    bq_step s (bq_goto t (PopPublish pos (bq_data s (bq_slot s pos))) NoResult
      (s\<lparr>bq_popped := bq_popped s @ [(unat pos, bq_data s (bq_slot s pos))]\<rparr>))"
| pop_publish: "bq_pc s t = PopPublish pos x \<Longrightarrow>
    bq_step s (bq_goto t BIdle (PopResult (Some x))
      (s\<lparr>bq_sequence := (bq_sequence s)(bq_slot s pos := pos + ucast (bq_capacity s))\<rparr>))"

inductive_cases bq_stepE: "bq_step s s'"

subsection \<open>The invariant\<close>

fun push_pos :: "'a bq_pc \<Rightarrow> nat option" where
  "push_pos (PushWrite x pos) = Some (unat pos)"
| "push_pos (PushPublish pos) = Some (unat pos)"
| "push_pos _ = None"

fun pop_pos :: "'a bq_pc \<Rightarrow> nat option" where
  "pop_pos (PopRead pos) = Some (unat pos)"
| "pop_pos (PopPublish pos x) = Some (unat pos)"
| "pop_pos _ = None"

text \<open>
  A slot is free for position \<open>p\<close> (its sequence number is \<open>p\<close>), or full with the item of position \<open>p\<close> (its
  sequence number is \<open>p + 1\<close>). \<open>P\<close> and \<open>Q\<close> are the positions of the pushes and pops that have claimed a
  position but not released their slot yet.
\<close>

definition slot_free :: "nat \<Rightarrow> nat \<Rightarrow> nat \<Rightarrow> nat set \<Rightarrow> nat \<Rightarrow> nat \<Rightarrow> bool" where
  "slot_free n H T P i p \<longleftrightarrow> p mod n = i \<and> T \<le> p \<and> p < T + n \<and> H \<le> p + n \<and> (p < H \<longrightarrow> p \<in> P)"

definition slot_full :: "nat \<Rightarrow> nat \<Rightarrow> nat \<Rightarrow> nat set \<Rightarrow> nat \<Rightarrow> nat \<Rightarrow> bool" where
  "slot_full n H T Q i p \<longleftrightarrow> p mod n = i \<and> p < H \<and> p < T + n \<and> H \<le> p + n \<and> T \<le> p + n \<and> (p < T \<longrightarrow> p \<in> Q)"

fun pc_ok :: "nat \<Rightarrow> nat \<Rightarrow> nat \<Rightarrow> (nat \<Rightarrow> nat) \<Rightarrow> (nat \<Rightarrow> 'a) \<Rightarrow> 'a list \<Rightarrow> 'a bq_pc \<Rightarrow> bool" where
  "pc_ok n H T sq d xs (PushCheck b x pos) = (unat pos \<le> H)"
| "pc_ok n H T sq d xs (PushCas b x pos) = (unat pos \<le> H \<and> (unat pos < H \<or> sq (unat pos mod n) = unat pos))"
| "pc_ok n H T sq d xs (PushWrite x pos) = (unat pos < H \<and> sq (unat pos mod n) = unat pos \<and> xs ! unat pos = x)"
| "pc_ok n H T sq d xs (PushPublish pos) =
     (unat pos < H \<and> sq (unat pos mod n) = unat pos \<and> d (unat pos mod n) = xs ! unat pos)"
| "pc_ok n H T sq d xs (PopCheck m pos) = (unat pos \<le> T)"
| "pc_ok n H T sq d xs (PopCas m pos) = (unat pos \<le> T \<and> (unat pos < T \<or> sq (unat pos mod n) = unat pos + 1))"
| "pc_ok n H T sq d xs (PopRead pos) = (unat pos < T \<and> sq (unat pos mod n) = unat pos + 1)"
| "pc_ok n H T sq d xs (PopPublish pos x) = (unat pos < T \<and> sq (unat pos mod n) = unat pos + 1 \<and> x = xs ! unat pos)"
| "pc_ok n H T sq d xs _ = True"

fun read_pos :: "'a bq_pc \<Rightarrow> nat option" where
  "read_pos (PopRead pos) = Some (unat pos)"
| "read_pos _ = None"

text \<open>The positions that threads own, and that no two threads own the same.\<close>

definition positions :: "('p \<Rightarrow> nat option) \<Rightarrow> (nat \<Rightarrow> 'p) \<Rightarrow> nat set" where
  "positions g f = {p. \<exists>t. g (f t) = Some p}"

definition single :: "('p \<Rightarrow> nat option) \<Rightarrow> (nat \<Rightarrow> 'p) \<Rightarrow> bool" where
  "single g f \<longleftrightarrow> (\<forall>t u p. g (f t) = Some p \<longrightarrow> g (f u) = Some p \<longrightarrow> t = u)"

definition bq_slots :: "nat \<Rightarrow> nat \<Rightarrow> nat \<Rightarrow> (nat \<Rightarrow> nat) \<Rightarrow> (nat \<Rightarrow> 'a) \<Rightarrow> 'a list \<Rightarrow> nat set \<Rightarrow> nat set \<Rightarrow> bool" where
  "bq_slots n H T sq d xs P Q \<longleftrightarrow> (\<forall>i < n. slot_free n H T P i (sq i) \<or>
     (\<exists>p. sq i = p + 1 \<and> slot_full n H T Q i p \<and> d i = xs ! p))"

definition bq_reads :: "nat \<Rightarrow> 'a list \<Rightarrow> (nat \<times> 'a) list \<Rightarrow> nat set \<Rightarrow> bool" where
  "bq_reads T xs ys R \<longleftrightarrow> distinct (map fst ys) \<and> (\<forall>(p, x) \<in> set ys. x = xs ! p) \<and>
     fst ` set ys \<union> R = {..<T} \<and> fst ` set ys \<inter> R = {}"

definition bq_core :: "nat \<Rightarrow> nat \<Rightarrow> nat \<Rightarrow> (nat \<Rightarrow> nat) \<Rightarrow> (nat \<Rightarrow> 'a) \<Rightarrow> 'a list \<Rightarrow> (nat \<times> 'a) list \<Rightarrow> (nat \<Rightarrow> 'a bq_pc) \<Rightarrow> bool" where
  "bq_core n H T sq d xs ys f \<longleftrightarrow> H = length xs \<and> T \<le> H \<and>
     bq_slots n H T sq d xs (positions push_pos f) (positions pop_pos f) \<and> (\<forall>t. pc_ok n H T sq d xs (f t)) \<and>
     single push_pos f \<and> single pop_pos f \<and> bq_reads T xs ys (positions read_pos f)"

definition bq_inv :: "'a bq_state \<Rightarrow> bool" where
  "bq_inv s \<longleftrightarrow> (length (bq_pushed s) + unat (bq_capacity s) < 2 ^ 63 \<and> 2 \<le> unat (bq_capacity s) \<longrightarrow>
     bq_core (unat (bq_capacity s)) (unat (bq_head s)) (unat (bq_tail s)) (\<lambda>i. unat (bq_sequence s i)) (bq_data s)
       (bq_pushed s) (bq_popped s) (bq_pc s))"

subsection \<open>Ownership of positions\<close>

lemma positions_upd: "single g f \<Longrightarrow> positions g (f(t := q)) = positions g f - set_option (g (f t)) \<union> set_option (g q)"
  unfolding positions_def single_def by (auto split: if_splits)

lemma single_upd:
  assumes "single g f" "\<And>p. g q = Some p \<Longrightarrow> p \<notin> positions g f \<or> g (f t) = Some p"
  shows "single g (f(t := q))"
  unfolding single_def
proof (intro allI impI)
  fix u v p
  assume "g ((f(t := q)) u) = Some p" "g ((f(t := q)) v) = Some p"
  then show "u = v"
    using assms unfolding single_def positions_def by (cases "u = t"; cases "v = t") (simp_all, blast+)
qed

lemma single_read_pos: "single pop_pos f \<Longrightarrow> single read_pos f"
proof -
  have "read_pos p = Some i \<Longrightarrow> pop_pos p = Some i" for p :: "'a bq_pc" and i by (cases p) simp_all
  then show "single pop_pos f \<Longrightarrow> single read_pos f" unfolding single_def by blast
qed

lemma phases_differ: "2 \<le> n \<Longrightarrow> (p + 1) mod n \<noteq> p mod (n :: nat)"
  by (auto simp: mod_Suc split: if_splits)

lemma pc_ok_push: "pc_ok n H T sq d xs q \<Longrightarrow> H = length xs \<Longrightarrow> T \<le> H \<Longrightarrow> pc_ok n (H + 1) T sq d (xs @ [x]) q"
  by (cases q) (auto simp: nth_append)

lemma pc_ok_pop: "pc_ok n H T sq d xs q \<Longrightarrow> pc_ok n H (T + 1) sq d xs q"
  by (cases q) auto

lemma pc_ok_owned: "pc_ok n H T sq d xs q \<Longrightarrow> (push_pos q = Some p \<longrightarrow> p < H) \<and> (pop_pos q = Some p \<longrightarrow> p < T)"
  by (cases q) auto

lemma positionsI: "g (f t) = Some p \<Longrightarrow> p \<in> positions g f"
  by (auto simp: positions_def)

lemma positions_keep: "g (f t) = g q \<Longrightarrow> positions g (f(t := q)) = positions g f"
  unfolding positions_def by (rule Collect_cong) (metis fun_upd_apply)

lemma bq_coreD:
  assumes "bq_core n H T sq d xs ys f"
  shows "H = length xs" "T \<le> H" "bq_slots n H T sq d xs (positions push_pos f) (positions pop_pos f)" "pc_ok n H T sq d xs (f u)"
    "single push_pos f" "single pop_pos f" "single read_pos f" "bq_reads T xs ys (positions read_pos f)"
    "p \<in> positions push_pos f \<Longrightarrow> p < H" "p \<in> positions pop_pos f \<Longrightarrow> p < T"
  using assms pc_ok_owned single_read_pos unfolding bq_core_def positions_def by blast+

subsection \<open>The steps keep the invariant\<close>

lemma core_move:
  assumes "bq_core n H T sq d xs ys f" "push_pos (f t) = None" "pop_pos (f t) = None" "push_pos q = None" "pop_pos q = None"
    "pc_ok n H T sq d xs q"
  shows "bq_core n H T sq d xs ys (f(t := q))"
proof -
  have r: "read_pos p = None" if "pop_pos p = None" for p :: "'a bq_pc" using that by (cases p) simp_all
  have "single push_pos (f(t := q))" "single pop_pos (f(t := q))"
    using assms by (auto simp: bq_core_def intro!: single_upd)
  moreover have "positions push_pos (f(t := q)) = positions push_pos f" "positions pop_pos (f(t := q)) = positions pop_pos f"
    "positions read_pos (f(t := q)) = positions read_pos f"
    using assms(2-5) r by (auto intro!: positions_keep)
  ultimately show ?thesis using bq_coreD [OF assms(1)] assms(6) by (simp add: bq_core_def)
qed

lemma bq_reads_append:
  assumes "bq_reads T xs ys R" "T \<le> length xs"
  shows "bq_reads T (xs @ zs) ys R"
proof -
  have "p < length xs" if "(p, x) \<in> set ys" for p x
  proof -
    have "p \<in> fst ` set ys" using that by force
    then have "p \<in> {..<T}" using assms(1) unfolding bq_reads_def by blast
    then show ?thesis using assms(2) by simp
  qed
  then have "x = (xs @ zs) ! p \<longleftrightarrow> x = xs ! p" if "(p, x) \<in> set ys" for p x using that by (simp add: nth_append)
  then show ?thesis using assms(1) unfolding bq_reads_def by (simp add: Ball_def split_paired_all)
qed

lemma core_claim_push:
  assumes "bq_core n H T sq d xs ys f" "2 \<le> n" "f t = PushCas b x pos" "unat pos = H"
  shows "bq_core n (H + 1) T sq d (xs @ [x]) ys (f(t := PushWrite x pos))"
proof -
  let ?f = "f(t := PushWrite x pos)" and ?P = "positions push_pos f" and ?Q = "positions pop_pos f"
  note c = bq_coreD [OF assms(1)]
  have sq: "sq (H mod n) = H" using c(4) [of t] assms(3,4) by simp
  have ow: "positions push_pos ?f = insert H ?P" "positions pop_pos ?f = ?Q" "positions read_pos ?f = positions read_pos f"
    using positions_upd [OF c(5), of t "PushWrite x pos"] assms(3,4) by (auto intro!: positions_keep)
  have "slot_free n (H + 1) T (insert H ?P) i (sq i) \<or>
      (\<exists>p. sq i = p + 1 \<and> slot_full n (H + 1) T ?Q i p \<and> d i = (xs @ [x]) ! p)" if i: "i < n" for i
  proof (cases "slot_free n H T ?P i (sq i)")
    case True
    then have "H \<noteq> sq i + n" using sq assms(2) by (auto simp: slot_free_def)
    with True show ?thesis by (auto simp: slot_free_def)
  next
    case False
    then obtain p where p: "sq i = p + 1" "slot_full n H T ?Q i p" "d i = xs ! p"
      using c(3) i by (auto simp: bq_slots_def)
    then have "H \<noteq> p + n" using sq assms(2) by (auto simp: slot_full_def)
    with p show ?thesis using c(1) by (auto simp: slot_full_def nth_append)
  qed
  then have "bq_slots n (H + 1) T sq d (xs @ [x]) (insert H ?P) ?Q" by (simp add: bq_slots_def)
  moreover have "pc_ok n (H + 1) T sq d (xs @ [x]) (?f u)" for u
    using pc_ok_push [OF c(4) c(1,2)] sq assms(4) c(1) by simp
  moreover have "single push_pos ?f" by (rule single_upd [OF c(5)]) (use c(9) [of H] assms(4) in auto)
  moreover have "single pop_pos ?f" by (rule single_upd [OF c(6)]) simp
  moreover have "bq_reads T (xs @ [x]) ys (positions read_pos f)"
    using bq_reads_append [OF c(8)] c(1,2) by simp
  ultimately show ?thesis using c(1,2) ow by (simp add: bq_core_def)
qed

lemma core_write:
  assumes "bq_core n H T sq d xs ys f" "2 \<le> n" "f t = PushWrite x pos"
  shows "bq_core n H T sq (d(unat pos mod n := x)) xs ys (f(t := PushPublish pos))"
proof -
  let ?f = "f(t := PushPublish pos)" and ?P = "positions push_pos f" and ?Q = "positions pop_pos f" and ?i = "unat pos mod n"
  note c = bq_coreD [OF assms(1)]
  have own: "unat pos < H" "sq ?i = unat pos" "xs ! unat pos = x" using c(4) [of t] assms(3) by simp_all
  have ow: "positions push_pos ?f = ?P" "positions pop_pos ?f = ?Q" "positions read_pos ?f = positions read_pos f"
    using assms(3) by (auto intro!: positions_keep)
  have "p mod n \<noteq> ?i" if "sq ?i = p + 1" for p using that own(2) phases_differ [OF assms(2), of p] by auto
  then have "bq_slots n H T sq (d(?i := x)) xs ?P ?Q"
    using c(3) unfolding bq_slots_def slot_full_def by (metis fun_upd_other)
  moreover have "pc_ok n H T sq (d(?i := x)) xs (?f u)" for u
  proof (cases "u = t")
    case False
    have "unat pos' \<noteq> unat pos" if "f u = PushPublish pos'" for pos'
      using c(5) False that assms(3) unfolding single_def by (metis push_pos.simps(1,2))
    then show ?thesis using c(4) [of u] own(2) False by (cases "f u") auto
  qed (use own in simp)
  moreover have "single push_pos ?f" "single pop_pos ?f"
    using c(5,6) assms(3) by (auto intro!: single_upd)
  ultimately show ?thesis using c(1,2,8) ow by (simp add: bq_core_def)
qed

text \<open>Publishing a slot: what the other threads rely on.\<close>

lemma pc_ok_sequence:
  assumes "pc_ok n H T sq d xs q"
    "\<And>b x pos. q = PushCas b x pos \<Longrightarrow> unat pos mod n = i \<Longrightarrow> unat pos < H" "\<And>p. push_pos q = Some p \<Longrightarrow> p mod n \<noteq> i"
    "\<And>m pos. q = PopCas m pos \<Longrightarrow> unat pos mod n = i \<Longrightarrow> unat pos < T" "\<And>p. pop_pos q = Some p \<Longrightarrow> p mod n \<noteq> i"
  shows "pc_ok n H T (sq(i := v)) d xs q"
  using assms by (cases q) simp_all

lemma pc_ok_phases:
  assumes "pc_ok n H T sq d xs q" "2 \<le> n"
  shows "push_pos q = Some p \<Longrightarrow> sq (p mod n) = p" "pop_pos q = Some p \<Longrightarrow> sq (p mod n) = p + 1"
  using assms(1) by (cases q; simp)+

lemma slot_phase:
  assumes "2 \<le> (n :: nat)" "p mod n = q mod n" "sq (p mod n) = p" "sq (q mod n) = q + 1"
  shows False
  using assms phases_differ [OF assms(1), of q] by simp

lemma single_other: "single g f \<Longrightarrow> g (f t) = Some p \<Longrightarrow> u \<noteq> t \<Longrightarrow> g (f u) \<noteq> Some p"
  unfolding single_def by blast

lemma pc_ok_publish_push:
  assumes "bq_core n H T sq d xs ys f" "2 \<le> n" "f t = PushPublish pos" "u \<noteq> t"
  shows "pc_ok n H T (sq(unat pos mod n := v)) d xs (f u)"
proof (rule pc_ok_sequence [OF bq_coreD(4) [OF assms(1)]])
  note ok = bq_coreD(4) [OF assms(1)]
  have own: "unat pos < H" "sq (unat pos mod n) = unat pos" using ok [of t] assms(3) by simp_all
  then have same: "p = unat pos" if "sq (p mod n) = p" "p mod n = unat pos mod n" for p using that by metis
  have other: "push_pos (f u) \<noteq> Some (unat pos)"
    by (rule single_other [OF bq_coreD(5) [OF assms(1)]]) (use assms(3,4) in simp_all)
  show "unat pos' < H" if "f u = PushCas b x pos'" "unat pos' mod n = unat pos mod n" for b x pos'
    using ok [of u] that(1) same [OF _ that(2)] own(1) by (metis pc_ok.simps(2))
  show "p mod n \<noteq> unat pos mod n" if "push_pos (f u) = Some p" for p
    using pc_ok_phases(1) [OF ok assms(2) that] same that other by metis
  show "unat pos' < T" if "f u = PopCas m pos'" "unat pos' mod n = unat pos mod n" for m pos'
    using ok [of u] slot_phase [OF assms(2) that(2) [symmetric], of sq] own(2) that(1) by (metis pc_ok.simps(6))
  show "p mod n \<noteq> unat pos mod n" if "pop_pos (f u) = Some p" for p
    using pc_ok_phases(2) [OF ok assms(2) that] slot_phase [OF assms(2), of "unat pos" p sq] own(2) by metis
qed

lemma pc_ok_publish_pop:
  assumes "bq_core n H T sq d xs ys f" "2 \<le> n" "f t = PopPublish pos x" "u \<noteq> t"
  shows "pc_ok n H T (sq(unat pos mod n := v)) d xs (f u)"
proof (rule pc_ok_sequence [OF bq_coreD(4) [OF assms(1)]])
  note ok = bq_coreD(4) [OF assms(1)]
  have own: "unat pos < T" "sq (unat pos mod n) = unat pos + 1" using ok [of t] assms(3) by simp_all
  then have same: "p = unat pos" if "sq (p mod n) = p + 1" "p mod n = unat pos mod n" for p using that by (metis add_right_cancel)
  have other: "pop_pos (f u) \<noteq> Some (unat pos)"
    by (rule single_other [OF bq_coreD(6) [OF assms(1)]]) (use assms(3,4) in simp_all)
  show "unat pos' < H" if "f u = PushCas b x pos'" "unat pos' mod n = unat pos mod n" for b x pos'
    using ok [of u] slot_phase [OF assms(2) that(2), of sq] own(2) that(1) by (metis pc_ok.simps(2))
  show "p mod n \<noteq> unat pos mod n" if "push_pos (f u) = Some p" for p
    using pc_ok_phases(1) [OF ok assms(2) that] slot_phase [OF assms(2), of p "unat pos" sq] own(2) by metis
  show "unat pos' < T" if "f u = PopCas m pos'" "unat pos' mod n = unat pos mod n" for m pos'
    using ok [of u] that(1) same [OF _ that(2)] own(1) by (metis pc_ok.simps(6))
  show "p mod n \<noteq> unat pos mod n" if "pop_pos (f u) = Some p" for p
    using pc_ok_phases(2) [OF ok assms(2) that] same that other by metis
qed

lemma slots_cases:
  assumes "bq_slots n H T sq d xs P Q" "i < n"
  obtains (free) "slot_free n H T P i (sq i)" | (full) p where "sq i = p + 1" "slot_full n H T Q i p" "d i = xs ! p"
  using assms unfolding bq_slots_def by blast

lemma slot_free_full: "slot_free n H T P i p \<Longrightarrow> p < H \<Longrightarrow> slot_full n H T Q i p"
  by (simp add: slot_free_def slot_full_def)

lemma slot_full_free: "slot_full n H T Q i p \<Longrightarrow> p < T \<Longrightarrow> slot_free n H T P i (p + n)"
  by (simp add: slot_free_def slot_full_def)

lemma slot_free_other: "slot_free n H T P i q \<Longrightarrow> i \<noteq> p mod n \<Longrightarrow> slot_free n H T (P - {p}) i q"
  unfolding slot_free_def by blast

lemma slot_full_other: "slot_full n H T Q i q \<Longrightarrow> i \<noteq> p mod n \<Longrightarrow> slot_full n H T (Q - {p}) i q"
  unfolding slot_full_def by blast

lemma slot_mod: "slot_free n H T P i p \<Longrightarrow> p mod n = i" "slot_full n H T Q i p \<Longrightarrow> p mod n = i"
  by (simp_all add: slot_free_def slot_full_def)

lemma slots_publish_push:
  assumes "bq_slots n H T sq d xs P Q" "2 \<le> n" "p < H" "sq (p mod n) = p" "d (p mod n) = xs ! p"
  shows "bq_slots n H T (sq(p mod n := p + 1)) d xs (P - {p}) Q"
  unfolding bq_slots_def
proof (intro allI impI)
  fix i
  assume i: "i < n"
  let ?goal = "slot_free n H T (P - {p}) i ((sq(p mod n := p + 1)) i) \<or>
      (\<exists>q. (sq(p mod n := p + 1)) i = q + 1 \<and> slot_full n H T Q i q \<and> d i = xs ! q)"
  show ?goal
  proof (cases "i = p mod n")
    case True
    have "slot_free n H T P i p"
    proof (cases rule: slots_cases [OF assms(1) i])
      case 1
      then show ?thesis using True assms(4) by metis
    next
      case (2 q)
      then show ?thesis using slot_phase [OF assms(2), of p q sq] slot_mod(2) True assms(4) by metis
    qed
    then show ?thesis using slot_free_full assms(3,5) True by (metis fun_upd_same)
  next
    case False
    show ?thesis
      by (cases rule: slots_cases [OF assms(1) i]) (use False slot_free_other [OF _ False] in auto)
  qed
qed

lemma slots_publish_pop:
  assumes "bq_slots n H T sq d xs P Q" "2 \<le> n" "p < T" "sq (p mod n) = p + 1"
  shows "bq_slots n H T (sq(p mod n := p + n)) d xs P (Q - {p})"
  unfolding bq_slots_def
proof (intro allI impI)
  fix i
  assume i: "i < n"
  let ?goal = "slot_free n H T P i ((sq(p mod n := p + n)) i) \<or>
      (\<exists>q. (sq(p mod n := p + n)) i = q + 1 \<and> slot_full n H T (Q - {p}) i q \<and> d i = xs ! q)"
  show ?goal
  proof (cases "i = p mod n")
    case True
    have "slot_full n H T Q i p"
    proof (cases rule: slots_cases [OF assms(1) i])
      case 1
      then show ?thesis using slot_phase [OF assms(2), of "sq i" p sq] slot_mod(1) True assms(4) by metis
    next
      case (2 q)
      then show ?thesis using True assms(4) by (metis add_right_cancel)
    qed
    then show ?thesis using slot_full_free assms(3) True by (metis fun_upd_same)
  next
    case False
    show ?thesis
      by (cases rule: slots_cases [OF assms(1) i]) (use False slot_full_other [OF _ False] in auto)
  qed
qed

lemma core_publish_push:
  assumes "bq_core n H T sq d xs ys f" "2 \<le> n" "f t = PushPublish pos"
  shows "bq_core n H T (sq(unat pos mod n := unat pos + 1)) d xs ys (f(t := BIdle))"
proof -
  let ?f = "f(t := BIdle)"
  note c = bq_coreD [OF assms(1)]
  have own: "unat pos < H" "sq (unat pos mod n) = unat pos" "d (unat pos mod n) = xs ! unat pos"
    using c(4) [of t] assms(3) by simp_all
  have ow: "positions push_pos ?f = positions push_pos f - {unat pos}" using positions_upd [OF c(5), of t BIdle] assms(3) by simp
  have ow2: "positions pop_pos ?f = positions pop_pos f" "positions read_pos ?f = positions read_pos f"
    by (rule positions_keep, simp add: assms(3))+
  have "pc_ok n H T (sq(unat pos mod n := unat pos + 1)) d xs (?f u)" for u
    using pc_ok_publish_push [OF assms, of u] by simp
  moreover have "single push_pos ?f" "single pop_pos ?f" by (rule single_upd [OF c(5)] single_upd [OF c(6)]; simp)+
  ultimately show ?thesis using c(1,2,8) ow ow2 slots_publish_push [OF c(3) assms(2) own] by (simp add: bq_core_def)
qed

lemma core_publish_pop:
  assumes "bq_core n H T sq d xs ys f" "2 \<le> n" "f t = PopPublish pos x"
  shows "bq_core n H T (sq(unat pos mod n := unat pos + n)) d xs ys (f(t := BIdle))"
proof -
  let ?f = "f(t := BIdle)"
  note c = bq_coreD [OF assms(1)]
  have own: "unat pos < T" "sq (unat pos mod n) = unat pos + 1" using c(4) [of t] assms(3) by simp_all
  have ow: "positions pop_pos ?f = positions pop_pos f - {unat pos}" using positions_upd [OF c(6), of t BIdle] assms(3) by simp
  have ow2: "positions push_pos ?f = positions push_pos f" "positions read_pos ?f = positions read_pos f"
    by (rule positions_keep, simp add: assms(3))+
  have "pc_ok n H T (sq(unat pos mod n := unat pos + n)) d xs (?f u)" for u
    using pc_ok_publish_pop [OF assms, of u] by simp
  moreover have "single push_pos ?f" "single pop_pos ?f" by (rule single_upd [OF c(5)] single_upd [OF c(6)]; simp)+
  ultimately show ?thesis using c(1,2,8) ow ow2 slots_publish_pop [OF c(3) assms(2) own] by (simp add: bq_core_def)
qed

lemma slots_claim_pop:
  assumes "bq_slots n H T sq d xs P Q" "2 \<le> n" "sq (T mod n) = T + 1"
  shows "bq_slots n H (T + 1) sq d xs P (insert T Q)" "T < H"
proof -
  have t: "T mod n < n" using assms(2) by simp
  have full: "slot_full n H T Q (T mod n) T"
  proof (cases rule: slots_cases [OF assms(1) t])
    case 1
    then show ?thesis using slot_phase [OF assms(2), of "sq (T mod n)" T sq] slot_mod(1) assms(3) by metis
  next
    case (2 q)
    then show ?thesis using assms(3) by (metis add_right_cancel)
  qed
  then show "T < H" by (simp add: slot_full_def)
  show "bq_slots n H (T + 1) sq d xs P (insert T Q)"
    unfolding bq_slots_def
  proof (intro allI impI)
    fix i
    assume i: "i < n"
    show "slot_free n H (T + 1) P i (sq i) \<or> (\<exists>p. sq i = p + 1 \<and> slot_full n H (T + 1) (insert T Q) i p \<and> d i = xs ! p)"
    proof (cases rule: slots_cases [OF assms(1) i])
      case 1
      then have "sq i \<noteq> T" using slot_mod(1) assms(3) by (metis n_not_Suc_n Suc_eq_plus1)
      with 1 show ?thesis by (simp add: slot_free_def)
    next
      case (2 p)
      then have "T \<noteq> p + n" using slot_mod(2) assms(2,3) by (metis mod_add_self2 add_left_cancel add.right_neutral not_numeral_le_zero add.commute add.assoc)
      with 2 show ?thesis by (auto simp: slot_full_def)
    qed
  qed
qed

lemma core_claim_pop:
  assumes "bq_core n H T sq d xs ys f" "2 \<le> n" "f t = PopCas m pos" "unat pos = T"
  shows "bq_core n H (T + 1) sq d xs ys (f(t := PopRead pos))"
proof -
  let ?f = "f(t := PopRead pos)"
  note c = bq_coreD [OF assms(1)]
  have sq: "sq (T mod n) = T + 1" using c(4) [of t] assms(3,4) by simp
  note slots = slots_claim_pop [OF c(3) assms(2) sq]
  have ow: "positions push_pos ?f = positions push_pos f" by (rule positions_keep) (simp add: assms(3))
  have ow2: "positions pop_pos ?f = insert T (positions pop_pos f)" using positions_upd [OF c(6), of t "PopRead pos"] assms(3,4) by simp
  have ow3: "positions read_pos ?f = insert T (positions read_pos f)" using positions_upd [OF c(7), of t "PopRead pos"] assms(3,4) by simp
  have "pc_ok n H (T + 1) sq d xs (?f u)" for u
    using pc_ok_pop [OF c(4)] sq assms(4) by simp
  moreover have "single push_pos ?f" by (rule single_upd [OF c(5)]) simp
  moreover have "single pop_pos ?f" by (rule single_upd [OF c(6)]) (use c(10) [of T] assms(4) in auto)
  moreover have "bq_reads (T + 1) xs ys (insert T (positions read_pos f))"
  proof -
    have r: "fst ` set ys \<union> positions read_pos f = {..<T}" "fst ` set ys \<inter> positions read_pos f = {}"
      using c(8) by (simp_all add: bq_reads_def)
    then have "T \<notin> fst ` set ys" by blast
    then have "fst ` set ys \<union> insert T (positions read_pos f) = {..<T + 1}" "fst ` set ys \<inter> insert T (positions read_pos f) = {}"
      using r by auto
    then show ?thesis using c(8) unfolding bq_reads_def by blast
  qed
  ultimately show ?thesis using c(1) slots ow ow2 ow3 by (simp add: bq_core_def)
qed

lemma core_read:
  assumes "bq_core n H T sq d xs ys f" "2 \<le> n" "f t = PopRead pos"
  shows "bq_core n H T sq d xs (ys @ [(unat pos, d (unat pos mod n))]) (f(t := PopPublish pos (d (unat pos mod n))))"
proof -
  let ?i = "unat pos mod n" and ?f = "f(t := PopPublish pos (d (unat pos mod n)))"
  note c = bq_coreD [OF assms(1)]
  have own: "unat pos < T" "sq ?i = unat pos + 1" using c(4) [of t] assms(3) by simp_all
  have i: "?i < n" using assms(2) by simp
  have d: "d ?i = xs ! unat pos"
  proof (cases rule: slots_cases [OF c(3) i])
    case 1
    then show ?thesis using slot_phase [OF assms(2), of "sq ?i" "unat pos" sq] slot_mod(1) own(2) by metis
  next
    case (2 q)
    then show ?thesis using own(2) by (metis add_right_cancel)
  qed
  have ow: "positions push_pos ?f = positions push_pos f" "positions pop_pos ?f = positions pop_pos f"
    by (rule positions_keep, simp add: assms(3))+
  have ow2: "positions read_pos ?f = positions read_pos f - {unat pos}" using positions_upd [OF c(7), of t "PopPublish pos (d ?i)"] assms(3) by simp
  have "pc_ok n H T sq d xs (?f u)" for u using c(4) own d by simp
  moreover have "single push_pos ?f" by (rule single_upd [OF c(5)]) simp
  moreover have "single pop_pos ?f" by (rule single_upd [OF c(6)]) (use assms(3) in simp)
  moreover have "bq_reads T xs (ys @ [(unat pos, d ?i)]) (positions read_pos f - {unat pos})"
  proof -
    have "unat pos \<in> positions read_pos f" by (rule positionsI [of _ _ t]) (simp add: assms(3))
    then show ?thesis using c(8) d own(1) unfolding bq_reads_def by auto
  qed
  ultimately show ?thesis using c(1,2,3) ow ow2 by (simp add: bq_core_def)
qed

subsection \<open>Positions as words\<close>

abbreviation bq_view :: "'a bq_state \<Rightarrow> (nat \<Rightarrow> 'a bq_pc) \<Rightarrow> bool" where
  "bq_view s f \<equiv> bq_core (unat (bq_capacity s)) (unat (bq_head s)) (unat (bq_tail s)) (\<lambda>i. unat (bq_sequence s i)) (bq_data s)
     (bq_pushed s) (bq_popped s) f"

lemma bq_invI:
  assumes "length xs + unat c < 2 ^ 63 \<Longrightarrow> 2 \<le> unat c \<Longrightarrow> bq_core (unat c) (unat h) (unat l) (\<lambda>i. unat (sq i)) d xs ys f"
    "bq_pushed s = xs" "bq_capacity s = c" "bq_head s = h" "bq_tail s = l" "bq_sequence s = sq" "bq_data s = d"
    "bq_popped s = ys" "bq_pc s = f"
  shows "bq_inv s"
  using assms by (simp add: bq_inv_def)

lemma bq_invD: "bq_inv s \<Longrightarrow> length (bq_pushed s) + unat (bq_capacity s) < 2 ^ 63 \<Longrightarrow> 2 \<le> unat (bq_capacity s) \<Longrightarrow> bq_view s (bq_pc s)"
  by (simp add: bq_inv_def)

lemma unat_pos_add: "unat (pos :: u64) + n < 2 ^ 64 \<Longrightarrow> unat w = n \<Longrightarrow> unat (pos + w) = unat pos + n"
  by (simp add: unat_word_ariths)

lemma unat_pos_Suc: "unat (pos :: u64) < 2 ^ 63 \<Longrightarrow> unat (pos + 1) = unat pos + 1"
  by (rule unat_pos_add) simp_all

lemma unat_fun_upd: "(\<lambda>i. unat ((f(j := w)) i)) = (\<lambda>i. unat (f i))(j := unat w)"
  by auto

lemma unat_capacity: "unat (ucast (c :: u32) :: u64) = unat c"
  by (simp add: unsigned_ucast_eq unsigned_take_bit_eq take_bit_nat_eq_self_iff) (rule less_trans [OF unsigned_less], simp)

lemma bq_goto_fields:
  "bq_capacity (bq_goto t p r s) = bq_capacity s" "bq_head (bq_goto t p r s) = bq_head s" "bq_tail (bq_goto t p r s) = bq_tail s"
  "bq_sequence (bq_goto t p r s) = bq_sequence s" "bq_data (bq_goto t p r s) = bq_data s" "bq_pushed (bq_goto t p r s) = bq_pushed s"
  "bq_popped (bq_goto t p r s) = bq_popped s" "bq_pc (bq_goto t p r s) = (bq_pc s)(t := p)"
  by (simp_all add: bq_goto_def)

lemma inv_move:
  assumes "bq_inv s" "push_pos (bq_pc s t) = None" "pop_pos (bq_pc s t) = None" "push_pos q = None" "pop_pos q = None"
    "bq_view s (bq_pc s) \<Longrightarrow> length (bq_pushed s) + unat (bq_capacity s) < 2 ^ 63 \<Longrightarrow>
       pc_ok (unat (bq_capacity s)) (unat (bq_head s)) (unat (bq_tail s)) (\<lambda>i. unat (bq_sequence s i)) (bq_data s) (bq_pushed s) q"
  shows "bq_inv (bq_goto t q r s)"
  by (rule bq_invI) (use bq_invD [OF assms(1)] assms(2-6) in \<open>simp_all add: bq_goto_fields core_move\<close>)

lemma verdict_Claim: "bq_verdict sequence expected = Claim \<Longrightarrow> sequence = expected"
  by (simp add: bq_verdict_def Let_def signed_eq_0_iff split: if_splits)

lemma push_continue_cases:
  "push_continue block x pos v = (p, r) \<Longrightarrow> p = PushLoad block x \<or> p = BIdle \<or> v = Claim \<and> p = PushCas block x pos"
  by (cases v) (auto split: if_splits)

lemma pop_continue_cases:
  "pop_continue mode pos v = (p, r) \<Longrightarrow> p = PopLoad mode \<or> p = BIdle \<or> v = Claim \<and> p = PopCas mode pos"
  by (cases v) (auto split: pop_mode.splits)

lemma core_bounds:
  assumes "bq_view s f" "length (bq_pushed s) + unat (bq_capacity s) < 2 ^ 63"
  shows "unat (bq_head s) < 2 ^ 63" "unat (bq_tail s) \<le> unat (bq_head s)"
    "unat (bq_head s) + unat (bq_capacity s) < 2 ^ 63"
  using bq_coreD(1,2) [OF assms(1)] assms(2) by simp_all

lemma inv_push_check:
  assumes "bq_inv s" "bq_pc s t = PushCheck block x pos"
    "push_continue block x pos (bq_verdict (bq_sequence s (bq_slot s pos)) pos) = (p, r)"
  shows "bq_inv (bq_goto t p r s)"
proof (rule inv_move [OF assms(1)])
  note p = push_continue_cases [OF assms(3)]
  show "push_pos p = None" "pop_pos p = None" using p by auto
  assume v: "bq_view s (bq_pc s)"
  have "unat pos \<le> unat (bq_head s)" using bq_coreD(4) [OF v, of t] assms(2) by simp
  then show "pc_ok (unat (bq_capacity s)) (unat (bq_head s)) (unat (bq_tail s)) (\<lambda>i. unat (bq_sequence s i)) (bq_data s) (bq_pushed s) p"
    using p verdict_Claim [of "bq_sequence s (bq_slot s pos)" pos] by (auto simp: bq_slot_def)
qed (use assms(2) in simp_all)

lemma inv_pop_check:
  assumes "bq_inv s" "bq_pc s t = PopCheck mode pos"
    "pop_continue mode pos (bq_verdict (bq_sequence s (bq_slot s pos)) (pos + 1)) = (p, r)"
  shows "bq_inv (bq_goto t p r s)"
proof (rule inv_move [OF assms(1)])
  note p = pop_continue_cases [OF assms(3)]
  show "push_pos p = None" "pop_pos p = None" using p by auto
  assume v: "bq_view s (bq_pc s)" and len: "length (bq_pushed s) + unat (bq_capacity s) < 2 ^ 63"
  have le: "unat pos \<le> unat (bq_tail s)" using bq_coreD(4) [OF v, of t] assms(2) by simp
  then have "unat (pos + 1) = unat pos + 1" using core_bounds [OF v len] by (intro unat_pos_Suc) simp
  then show "pc_ok (unat (bq_capacity s)) (unat (bq_head s)) (unat (bq_tail s)) (\<lambda>i. unat (bq_sequence s i)) (bq_data s) (bq_pushed s) p"
    using p verdict_Claim [of "bq_sequence s (bq_slot s pos)" "pos + 1"] le by (auto simp: bq_slot_def)
qed (use assms(2) in simp_all)

lemma inv_push_claim:
  assumes "bq_inv s" "bq_pc s t = PushCas block x pos" "bq_head s = pos"
  shows "bq_inv (bq_goto t (PushWrite x pos) NoResult (s\<lparr>bq_head := pos + 1, bq_pushed := bq_pushed s @ [x]\<rparr>))"
proof (rule bq_invI)
  assume len: "length (bq_pushed s @ [x]) + unat (bq_capacity s) < 2 ^ 63" and n: "2 \<le> unat (bq_capacity s)"
  then have v: "bq_view s (bq_pc s)" using bq_invD [OF assms(1)] by simp
  have "unat (pos + 1) = unat (bq_head s) + 1"
    using core_bounds(1) [OF v] len assms(3) unat_pos_Suc by simp
  then show "bq_core (unat (bq_capacity s)) (unat (pos + 1)) (unat (bq_tail s)) (\<lambda>i. unat (bq_sequence s i)) (bq_data s)
      (bq_pushed s @ [x]) (bq_popped s) ((bq_pc s)(t := PushWrite x pos))"
    using core_claim_push [OF v n assms(2)] assms(3) by simp
qed (simp_all add: bq_goto_fields)

lemma inv_push_publish:
  assumes "bq_inv s" "bq_pc s t = PushPublish pos"
  shows "bq_inv (bq_goto t BIdle r (s\<lparr>bq_sequence := (bq_sequence s)(bq_slot s pos := pos + 1)\<rparr>))"
proof (rule bq_invI)
  assume len: "length (bq_pushed s) + unat (bq_capacity s) < 2 ^ 63" and n: "2 \<le> unat (bq_capacity s)"
  have v: "bq_view s (bq_pc s)" by (rule bq_invD [OF assms(1) len n])
  have "unat pos < unat (bq_head s)" using bq_coreD(4) [OF v, of t] assms(2) by simp
  then have "unat (pos + 1) = unat pos + 1" using core_bounds(1) [OF v len] by (intro unat_pos_Suc) simp
  then show "bq_core (unat (bq_capacity s)) (unat (bq_head s)) (unat (bq_tail s))
      (\<lambda>i. unat (((bq_sequence s)(bq_slot s pos := pos + 1)) i)) (bq_data s) (bq_pushed s) (bq_popped s) ((bq_pc s)(t := BIdle))"
    using core_publish_push [OF v n assms(2)] by (simp add: unat_fun_upd bq_slot_def del: fun_upd_apply)
qed (simp_all add: bq_goto_fields fun_upd_def)

lemma inv_pop_claim:
  assumes "bq_inv s" "bq_pc s t = PopCas mode pos" "bq_tail s = pos"
  shows "bq_inv (bq_goto t (PopRead pos) r (s\<lparr>bq_tail := pos + 1\<rparr>))"
proof (rule bq_invI)
  assume len: "length (bq_pushed s) + unat (bq_capacity s) < 2 ^ 63" and n: "2 \<le> unat (bq_capacity s)"
  have v: "bq_view s (bq_pc s)" by (rule bq_invD [OF assms(1) len n])
  have "unat (pos + 1) = unat (bq_tail s) + 1" using core_bounds(1,2) [OF v len] assms(3) unat_pos_Suc by simp
  then show "bq_core (unat (bq_capacity s)) (unat (bq_head s)) (unat (pos + 1)) (\<lambda>i. unat (bq_sequence s i)) (bq_data s)
      (bq_pushed s) (bq_popped s) ((bq_pc s)(t := PopRead pos))"
    using core_claim_pop [OF v n assms(2)] assms(3) by simp
qed (simp_all add: bq_goto_fields)

lemma inv_pop_publish:
  assumes "bq_inv s" "bq_pc s t = PopPublish pos x"
  shows "bq_inv (bq_goto t BIdle r (s\<lparr>bq_sequence := (bq_sequence s)(bq_slot s pos := pos + ucast (bq_capacity s))\<rparr>))"
proof (rule bq_invI)
  assume len: "length (bq_pushed s) + unat (bq_capacity s) < 2 ^ 63" and n: "2 \<le> unat (bq_capacity s)"
  have v: "bq_view s (bq_pc s)" by (rule bq_invD [OF assms(1) len n])
  have "unat pos < unat (bq_tail s)" using bq_coreD(4) [OF v, of t] assms(2) by simp
  then have "unat (pos + ucast (bq_capacity s)) = unat pos + unat (bq_capacity s)"
    using core_bounds [OF v len] by (intro unat_pos_add unat_capacity) simp
  then show "bq_core (unat (bq_capacity s)) (unat (bq_head s)) (unat (bq_tail s))
      (\<lambda>i. unat (((bq_sequence s)(bq_slot s pos := pos + ucast (bq_capacity s))) i)) (bq_data s) (bq_pushed s) (bq_popped s)
      ((bq_pc s)(t := BIdle))"
    using core_publish_pop [OF v n assms(2)] by (simp add: unat_fun_upd bq_slot_def del: fun_upd_apply)
qed (simp_all add: bq_goto_fields fun_upd_def)

lemma bq_step_inv: "bq_step s s' \<Longrightarrow> bq_inv s \<Longrightarrow> bq_inv s'"
proof (induction rule: bq_step.induct)
  case (push_write s t x pos)
  show ?case
    by (rule bq_invI, rule core_write [OF bq_invD [OF push_write.prems] _ push_write.hyps])
      (simp_all add: bq_goto_fields bq_slot_def)
next
  case (pop_read s t pos)
  show ?case
    by (rule bq_invI, rule core_read [OF bq_invD [OF pop_read.prems] _ pop_read.hyps])
      (simp_all add: bq_goto_fields bq_slot_def)
next
  case (push_check s t block x pos p r)
  then show ?case by (intro inv_push_check)
next
  case (pop_check s t mode pos p r)
  then show ?case by (intro inv_pop_check)
qed (blast intro: inv_push_claim inv_push_publish inv_pop_claim inv_pop_publish | erule inv_move; simp)+

lemma bq_new_inv: "bq_inv (bq_new capacity zero)"
proof (rule bq_invI)
  let ?n = "unat (ucast capacity :: u32)"
  have n: "?n = unat capacity"
    by (simp add: unsigned_ucast_eq unsigned_take_bit_eq take_bit_nat_eq_self_iff) (rule less_trans [OF unsigned_less], simp)
  have sq: "unat (if i < unat capacity then of_nat i else 0 :: u64) = i" if "i < unat capacity" for i
  proof -
    have "i < 2 ^ 64" by (rule less_trans [OF that less_trans [OF unsigned_less]]) simp
    then show ?thesis using that by (simp add: unat_of_nat)
  qed
  show "bq_core ?n (unat (0 :: u64)) (unat (0 :: u64)) (\<lambda>i. unat (if i < unat capacity then of_nat i else 0 :: u64)) (\<lambda>_. zero) [] [] (\<lambda>_. BIdle)"
    using sq unfolding n by (simp add: bq_core_def bq_slots_def slot_free_def single_def bq_reads_def positions_def)
qed (simp_all add: bq_new_def)

interpretation bq_system: step_system "\<lambda>s. \<exists>capacity zero. s = bq_new capacity zero" bq_step bq_inv
  by unfold_locales (blast intro: bq_new_inv bq_step_inv)+

lemma bq_reachable_core:
  assumes "bq_step\<^sup>*\<^sup>* (bq_new capacity zero) s" "2 \<le> unat capacity" "length (bq_pushed s) + unat capacity < 2 ^ 63"
  shows "bq_view s (bq_pc s)" "unat (bq_capacity s) = unat capacity"
proof -
  have "bq_capacity s = ucast capacity" using assms(1)
    by (induction rule: rtranclp_induct) (auto simp: bq_new_def bq_goto_def elim!: bq_stepE)
  then show c: "unat (bq_capacity s) = unat capacity"
    by (simp add: unsigned_ucast_eq unsigned_take_bit_eq take_bit_nat_eq_self_iff) (rule less_trans [OF unsigned_less], simp)
  have "bq_inv s" by (rule bq_system.reachable_inv [OF _ assms(1)]) blast
  then show "bq_view s (bq_pc s)" using bq_invD assms(2,3) c by metis
qed

subsection \<open>Operations that are not interrupted\<close>

lemma bq_goto_goto: "bq_goto t p r (bq_goto t p' r' s) = bq_goto t p r s"
  by (simp add: bq_goto_def)

lemma steps_6:
  assumes "step s s1" "step s1 s2" "step s2 s3" "step s3 s4" "step s4 s5" "step s5 s6"
  shows "step\<^sup>*\<^sup>* s s6"
  using assms by (meson converse_rtranclp_into_rtranclp rtranclp.rtrancl_refl)

lemma push_alone:
  assumes "bq_pc s t = BIdle" "bq_sequence s (bq_slot s (bq_head s)) = bq_head s"
  shows "bq_step\<^sup>*\<^sup>* s (bq_goto t BIdle (PushResult True)
    (s\<lparr>bq_head := bq_head s + 1, bq_pushed := bq_pushed s @ [x], bq_data := (bq_data s)(bq_slot s (bq_head s) := x),
       bq_sequence := (bq_sequence s)(bq_slot s (bq_head s) := bq_head s + 1)\<rparr>))"
proof -
  let ?pos = "bq_head s"
  let ?claimed = "s\<lparr>bq_head := ?pos + 1, bq_pushed := bq_pushed s @ [x]\<rparr>"
  let ?written = "?claimed\<lparr>bq_data := (bq_data s)(bq_slot s ?pos := x)\<rparr>"
  have 1: "bq_step s (bq_goto t (PushLoad False x) NoResult s)" by (rule push_call [OF assms(1)])
  have 2: "bq_step (bq_goto t (PushLoad False x) NoResult s) (bq_goto t (PushCheck False x ?pos) NoResult s)"
    using push_load [of "bq_goto t (PushLoad False x) NoResult s" t False x] by (simp add: bq_goto_goto bq_goto_fields)
  have 3: "bq_step (bq_goto t (PushCheck False x ?pos) NoResult s) (bq_goto t (PushCas False x ?pos) NoResult s)"
    using push_check [of "bq_goto t (PushCheck False x ?pos) NoResult s" t False x ?pos] assms(2)
    by (simp add: bq_goto_goto bq_goto_fields bq_slot_def bq_verdict_def)
  have 4: "bq_step (bq_goto t (PushCas False x ?pos) NoResult s) (bq_goto t (PushWrite x ?pos) NoResult ?claimed)"
    using push_claim [of "bq_goto t (PushCas False x ?pos) NoResult s" t False x ?pos] by (simp add: bq_goto_def)
  have 5: "bq_step (bq_goto t (PushWrite x ?pos) NoResult ?claimed) (bq_goto t (PushPublish ?pos) NoResult ?written)"
    using push_write [of "bq_goto t (PushWrite x ?pos) NoResult ?claimed" t x ?pos] by (simp add: bq_goto_def bq_slot_def)
  have 6: "bq_step (bq_goto t (PushPublish ?pos) NoResult ?written) (bq_goto t BIdle (PushResult True)
      (?written\<lparr>bq_sequence := (bq_sequence s)(bq_slot s ?pos := ?pos + 1)\<rparr>))"
    using push_publish [of "bq_goto t (PushPublish ?pos) NoResult ?written" t ?pos] by (simp add: bq_goto_def bq_slot_def)
  show ?thesis by (rule steps_6 [where step = bq_step, OF 1 2 3 4 5 6])
qed

text \<open>In a queue of capacity 1 the second push overwrites the first item: both succeed and one item is lost.\<close>

lemma capacity_one_loses_items:
  assumes "x \<noteq> y" "x \<noteq> zero"
  shows "\<exists>s. bq_step\<^sup>*\<^sup>* (bq_new 1 zero) s \<and> (\<forall>t. bq_pc s t = BIdle) \<and> bq_pushed s = [x, y] \<and> bq_popped s = [] \<and>
     bq_result s 0 = PushResult True \<and> (\<forall>i. bq_data s i \<noteq> x)"
proof -
  let ?s0 = "bq_new 1 zero"
  let ?s1 = "bq_goto 0 BIdle (PushResult True) (?s0\<lparr>bq_head := bq_head ?s0 + 1, bq_pushed := bq_pushed ?s0 @ [x],
    bq_data := (bq_data ?s0)(bq_slot ?s0 (bq_head ?s0) := x), bq_sequence := (bq_sequence ?s0)(bq_slot ?s0 (bq_head ?s0) := bq_head ?s0 + 1)\<rparr>)"
  let ?s2 = "bq_goto 0 BIdle (PushResult True) (?s1\<lparr>bq_head := bq_head ?s1 + 1, bq_pushed := bq_pushed ?s1 @ [y],
    bq_data := (bq_data ?s1)(bq_slot ?s1 (bq_head ?s1) := y), bq_sequence := (bq_sequence ?s1)(bq_slot ?s1 (bq_head ?s1) := bq_head ?s1 + 1)\<rparr>)"
  have 1: "bq_step\<^sup>*\<^sup>* ?s0 ?s1" by (rule push_alone) (simp_all add: bq_new_def bq_slot_def)
  have 2: "bq_step\<^sup>*\<^sup>* ?s1 ?s2" by (rule push_alone) (simp_all add: bq_new_def bq_slot_def bq_goto_def)
  have "bq_step\<^sup>*\<^sup>* ?s0 ?s2" by (rule rtranclp_trans [OF 1 2])
  then show ?thesis using assms by (intro exI [of _ ?s2]) (simp add: bq_new_def bq_slot_def bq_goto_def)
qed

subsection \<open>Properties\<close>

lemma mod_window: "p mod n = q mod n \<Longrightarrow> t \<le> p \<Longrightarrow> p < t + n \<Longrightarrow> t \<le> q \<Longrightarrow> q < t + n \<Longrightarrow> p = (q :: nat)"
proof (induction p q rule: linorder_wlog)
  case (le p q)
  then have "n dvd q - p" by (metis mod_eq_dvd_iff_nat)
  moreover have "q - p < n" using le by simp
  ultimately show ?case using le(1) by (auto dest: dvd_imp_le)
next
  case (sym p q)
  then show ?case by simp
qed

lemma slots_window:
  assumes "bq_slots n H T sq d xs P Q" "2 \<le> n" "T \<le> H"
  shows "H \<le> T + n"
proof -
  have t: "T mod n < n" using assms(2) by simp
  show ?thesis
  proof (cases rule: slots_cases [OF assms(1) t])
    case 1
    then show ?thesis using mod_window [of "sq (T mod n)" n T T] assms(2) by (simp add: slot_free_def)
  next
    case (2 q)
    then have q: "q mod n = T mod n" "q < T + n" "H \<le> q + n" by (simp_all add: slot_full_def)
    show ?thesis
    proof (cases "q < T")
      case False
      then show ?thesis using mod_window [of q n T T] q assms(2) by simp
    qed (use q in simp)
  qed
qed

lemma verdict_Fail:
  assumes "bq_verdict a b = Fail" "unat a < 2 ^ 63"
  shows "unat a < unat b"
proof (rule ccontr)
  assume "\<not> unat a < unat b"
  then have "unat (a - b) < 2 ^ 63" using assms(2) by (simp add: unat_sub_if_size word_le_nat_alt)
  then have "\<not> bit (unat (a - b)) 63" by (simp add: bit_iff_odd)
  then have "\<not> bit (a - b) 63" by (simp add: bit_unsigned_iff)
  moreover have "sint (a - b) < 0" using assms(1) by (auto simp: bq_verdict_def Let_def split: if_splits)
  then have "bit (a - b) 63" using bit_last_iff [of "a - b"] by simp
  ultimately show False by simp
qed

lemma slots_behind:
  assumes "bq_slots n H T sq d xs P Q" "2 \<le> n" "p \<le> H" "sq (p mod n) < p"
  shows "p = H \<and> n \<le> p \<and> (H - n \<in> P \<or> H - n \<in> Q \<or> T + n \<le> H)"
proof -
  have next_round: "q + n \<le> p" if "q mod n = p mod n" "q < p" for q
  proof -
    have "n dvd p - q" using that by (metis mod_eq_dvd_iff_nat less_imp_le)
    then have "n \<le> p - q" using that(2) by (intro dvd_imp_le) simp_all
    then show ?thesis using that(2) by simp
  qed
  have i: "p mod n < n" using assms(2) by simp
  show ?thesis
  proof (cases rule: slots_cases [OF assms(1) i])
    case 1
    then have "H = sq (p mod n) + n" "p = H" "sq (p mod n) \<in> P"
      using next_round [of "sq (p mod n)"] assms(2-4) by (auto simp: slot_free_def)
    then show ?thesis by (metis add_diff_cancel_right' le_add2)
  next
    case (2 q)
    then have q: "H \<le> q + n" "q mod n = p mod n" "q < T \<longrightarrow> q \<in> Q" by (simp_all add: slot_full_def)
    have "q < p" using 2(1) assms(4) by simp
    then have "q + n \<le> p" by (rule next_round [OF q(2)])
    then have "H = q + n" "p = H" using q(1) assms(3) by simp_all
    with q(3) show ?thesis by (cases "q < T") simp_all
  qed
qed

text \<open>
  A push that gives up found the queue full: the slot of its position is not released yet because all slots
  are taken, or because an operation that has claimed it is still under way.
\<close>

lemma push_gives_up_when_full:
  assumes "bq_step\<^sup>*\<^sup>* (bq_new capacity zero) s" "2 \<le> unat capacity" "length (bq_pushed s) + unat capacity < 2 ^ 63"
    "bq_pc s t = PushCheck block x pos" "bq_verdict (bq_sequence s (bq_slot s pos)) pos = Fail"
  shows "pos = bq_head s \<and> (unat (bq_head s) = unat (bq_tail s) + unat capacity \<or>
    (\<exists>u. push_pos (bq_pc s u) = Some (unat (bq_head s) - unat capacity) \<or> pop_pos (bq_pc s u) = Some (unat (bq_head s) - unat capacity)))"
proof -
  note v = bq_reachable_core [OF assms(1-3)]
  note c = bq_coreD [OF v(1) [unfolded v(2)]]
  let ?i = "unat pos mod unat capacity"
  have pos: "unat pos \<le> unat (bq_head s)" using c(4) [of t] assms(4) by simp
  have i: "?i < unat capacity" using assms(2) by simp
  have "unat (bq_sequence s ?i) < 2 ^ 63"
    by (cases rule: slots_cases [OF c(3) i]) (use c(1,2) assms(3) in \<open>auto simp: slot_free_def slot_full_def\<close>)
  then have "unat (bq_sequence s ?i) < unat pos"
    using verdict_Fail assms(5) by (simp add: bq_slot_def v(2))
  from slots_behind [OF c(3) assms(2) pos this] slots_window [OF c(3) assms(2) c(2)]
  show ?thesis by (auto simp: positions_def word_unat_eq_iff)
qed

text \<open>Between two operations the slots between tail and head hold the items that wait.\<close>

lemma slots_idle:
  assumes "bq_slots n H T sq d xs {} {}" "2 \<le> n" "T \<le> p" "p < H" "H \<le> T + n"
  shows "d (p mod n) = xs ! p"
proof -
  have i: "p mod n < n" using assms(2) by simp
  show ?thesis
  proof (cases rule: slots_cases [OF assms(1) i])
    case 1
    then show ?thesis using mod_window [of "sq (p mod n)" n p T] assms(3-5) by (simp add: slot_free_def)
  next
    case (2 q)
    then show ?thesis using mod_window [of q n p T] assms(3-5) by (simp add: slot_full_def)
  qed
qed

text \<open>
  C23: The bounded queue is first-in-first-out for any number of concurrent producers and consumers, in every
  interleaving of their memory accesses: the pop that takes position \<open>p\<close> of the tail gets the item that was
  pushed at position \<open>p\<close> of the head, no position is read twice, and never more items than the capacity
  are between head and tail. When no operation is under way, every taken position has been read and the slots
  hold exactly the remaining items. This holds for capacities of at least 2, for fewer than
  2^63 - capacity pushes.
\<close>

theorem bound_mpmc_is_fifo:
  assumes "bq_step\<^sup>*\<^sup>* (bq_new capacity zero) s" "2 \<le> unat capacity" "length (bq_pushed s) + unat capacity < 2 ^ 63"
  shows "unat (bq_head s) = length (bq_pushed s) \<and> unat (bq_tail s) \<le> unat (bq_head s) \<and>
    unat (bq_head s) \<le> unat (bq_tail s) + unat capacity \<and>
    distinct (map fst (bq_popped s)) \<and> (\<forall>(p, x) \<in> set (bq_popped s). p < unat (bq_tail s) \<and> x = bq_pushed s ! p) \<and>
    ((\<forall>t. bq_pc s t = BIdle) \<longrightarrow> fst ` set (bq_popped s) = {..<unat (bq_tail s)} \<and>
       (\<forall>p. unat (bq_tail s) \<le> p \<longrightarrow> p < unat (bq_head s) \<longrightarrow> bq_data s (p mod unat capacity) = bq_pushed s ! p))"
proof -
  note v = bq_reachable_core [OF assms]
  note c = bq_coreD [OF v(1)[unfolded v(2)]]
  have window: "unat (bq_head s) \<le> unat (bq_tail s) + unat capacity" by (rule slots_window [OF c(3) assms(2) c(2)])
  have reads: "distinct (map fst (bq_popped s))" "\<forall>(p, x) \<in> set (bq_popped s). x = bq_pushed s ! p"
    "fst ` set (bq_popped s) \<union> positions read_pos (bq_pc s) = {..<unat (bq_tail s)}"
    using c(8) by (simp_all add: bq_reads_def)
  then have "p < unat (bq_tail s)" if "(p, x) \<in> set (bq_popped s)" for p x using that by force
  moreover have "fst ` set (bq_popped s) = {..<unat (bq_tail s)} \<and>
      (\<forall>p. unat (bq_tail s) \<le> p \<longrightarrow> p < unat (bq_head s) \<longrightarrow> bq_data s (p mod unat capacity) = bq_pushed s ! p)"
    if "\<forall>t. bq_pc s t = BIdle"
  proof -
    have "positions g (bq_pc s) = {}" if "g (BIdle :: 'a bq_pc) = None" for g
      using \<open>\<forall>t. bq_pc s t = BIdle\<close> that by (simp add: positions_def)
    then show ?thesis using slots_idle [of "unat capacity" _ _ _ _ "bq_pushed s"] c(3) assms(2) window reads(3) by auto
  qed
  ultimately show ?thesis using c(1,2) window reads(1,2) by auto
qed

theorem bound_mpmc_is_fifo_witness:
  "\<exists>s. bq_step\<^sup>*\<^sup>* (bq_new 2 (0 :: nat)) s \<and> bq_pushed s = [7] \<and> (\<forall>t. bq_pc s t = BIdle) \<and> bq_data s 0 = 7"
proof -
  let ?s0 = "bq_new 2 (0 :: nat)"
  let ?s1 = "bq_goto 5 BIdle (PushResult True) (?s0\<lparr>bq_head := bq_head ?s0 + 1, bq_pushed := bq_pushed ?s0 @ [7],
    bq_data := (bq_data ?s0)(bq_slot ?s0 (bq_head ?s0) := 7), bq_sequence := (bq_sequence ?s0)(bq_slot ?s0 (bq_head ?s0) := bq_head ?s0 + 1)\<rparr>)"
  have 1: "bq_step\<^sup>*\<^sup>* ?s0 ?s1" by (rule push_alone) (simp_all add: bq_new_def bq_slot_def)
  have 2: "bq_pushed ?s1 = [7]" "\<forall>t. bq_pc ?s1 t = BIdle" "unat (bq_tail ?s1) = 0" "unat (bq_head ?s1) = 1"
    by (simp_all add: bq_new_def bq_goto_def)
  have "bq_data ?s1 (0 mod unat (2 :: u16)) = bq_pushed ?s1 ! 0"
    using bound_mpmc_is_fifo [OF 1] 2 by simp
  then show ?thesis using 1 2 by (intro exI [of _ ?s1]) simp
qed

end
