(* ===== verification/RuntimeModel.thy ===== *)
theory RuntimeModel
  imports SchedulerModel EpochReclamation DynamicAllocator FixedAllocator
begin

section \<open>The resource builder and the runtime\<close>

text \<open>
  src/mx/resource/builder.h and builder.cpp, src/mx/tasking/runtime.h: the builder assigns a new
  resource to a channel, by its hint or in turn, and packs channel and synchronization primitive
  into the pointer; the runtime owns scheduler, builder and allocators and hands requests on to
  them. The scheduler's epoch manager is a field of the runtime here, and the next pointers of
  tasks and of garbage are two stores of links.

  Memory that the global heap returns is an argument: \<open>mem\<close> for the blocks of the resource allocator,
  \<open>memory\<close> for the chunks of the task allocator; \<open>max_node\<close> and \<open>node_of\<close> describe the machine.

  The lemmas show that a resource that was built can be the target of a task: its pointer names an
  existing channel and the primitive that its hint asks for; that resources without hint are spread
  evenly over the channels; and when a runtime may be initialized again.
\<close>

datatype runtime_error = SchedulerError sched_error | OutOfMemory | NullRuntime

subsection \<open>Builder\<close>

definition builder_channel :: "hint \<Rightarrow> u16 \<Rightarrow> scheduler \<Rightarrow> sched_error + (nat \<times> u16)" where
  "builder_channel hint rr s =
     (let count_channels = sch_count_channels s;
          channel_id = unat rr mod count_channels
      in if count_channels > 2 \<and> hint_isolation_level hint = Exclusive
         then (case sched_has_excessive channel_id s of
             Inl e \<Rightarrow> Inl e
           | Inr excessive \<Rightarrow> Inr (if excessive then (unat (rr + 1) mod count_channels, rr + 2) else (channel_id, rr + 1)))
         else Inr (channel_id, rr + 1))"

definition builder_schedule :: "hint \<Rightarrow> u16 \<Rightarrow> scheduler \<Rightarrow> sched_error + ((u16 \<times> u8) \<times> u16 \<times> scheduler)" where
  "builder_schedule hint rr s =
     (if has_channel_id hint
      then (case sched_predict_usage (unat (hint_channel_id hint)) (hint_access_frequency hint) s of
          Inl e \<Rightarrow> Inl e
        | Inr s' \<Rightarrow> (case sched_numa_node_id (unat (hint_channel_id hint)) s' of
            None \<Rightarrow> Inl OutOfRange
          | Some numa \<Rightarrow> Inr ((hint_channel_id hint, numa), rr, s')))
      else (case builder_channel hint rr s of
          Inl e \<Rightarrow> Inl e
        | Inr (channel_id, rr') \<Rightarrow> (case sched_predict_usage channel_id (hint_access_frequency hint) s of
            Inl e \<Rightarrow> Inl e
          | Inr s' \<Rightarrow> (case (if has_numa_node_id hint then Some (hint_numa_node_id hint) else sched_numa_node_id channel_id s') of
              None \<Rightarrow> Inl OutOfRange
            | Some numa \<Rightarrow> Inr ((of_nat channel_id, numa), rr', s')))))"

definition builder_build :: "nat \<Rightarrow> (nat \<Rightarrow> u32 \<Rightarrow> addr) \<Rightarrow> (free_header list \<Rightarrow> nat \<Rightarrow> nat) \<Rightarrow> nat \<Rightarrow> hint \<Rightarrow> u16 \<Rightarrow> scheduler \<Rightarrow>
    dyn_allocator \<Rightarrow> runtime_error + (resource_ptr \<times> u16 \<times> scheduler \<times> dyn_allocator)" where
  "builder_build fuel mem stale sz hint rr s a =
     (let synchronization_method = isolation_level_to_synchronization_primitive hint
      in case builder_schedule hint rr s of
          Inl e \<Rightarrow> Inl (SchedulerError e)
        | Inr ((channel_id, numa), rr', s') \<Rightarrow>
            (case da_allocate fuel mem stale (unat numa) 64 sz a of
              None \<Rightarrow> Inl OutOfMemory
            | Some (a', p) \<Rightarrow> Inr (tagged_ptr_new (of_nat p) (information_new channel_id synchronization_method), rr', s', a')))"

text \<open>A resource from an existing object.\<close>

definition builder_build_from :: "u64 \<Rightarrow> hint \<Rightarrow> u16 \<Rightarrow> scheduler \<Rightarrow> sched_error + (resource_ptr \<times> u16 \<times> scheduler)" where
  "builder_build_from object hint rr s =
     (let synchronization_method = isolation_level_to_synchronization_primitive hint
      in case builder_schedule hint rr s of
          Inl e \<Rightarrow> Inl e
        | Inr ((channel_id, _), rr', s') \<Rightarrow> Inr (tagged_ptr_new object (information_new channel_id synchronization_method), rr', s'))"

subsection \<open>Runtime\<close>

datatype task_allocator = SystemTaskAllocator | FixedTaskAllocator fixed_allocator

record runtime =
  rt_scheduler :: "scheduler option"
  rt_epoch_manager :: epoch_manager
  rt_task_allocator :: "task_allocator option"
  rt_resource_allocator :: "dyn_allocator option"
  rt_resource_builder :: "u16 option"
  rt_task_links :: "addr links"
  rt_garbage_links :: "addr links"
  rt_remove_epoch :: "addr \<Rightarrow> u32"

text \<open>The constructor of the epoch manager: one queue for all garbage and one per channel; \<open>stub\<close> gives the addresses of their stubs.\<close>

definition epoch_manager_new :: "nat \<Rightarrow> (nat \<Rightarrow> addr) \<Rightarrow> addr links \<Rightarrow> addr links \<times> epoch_manager" where
  "epoch_manager_new count_channels stub h =
     (fold (\<lambda>i g. fst (mpsc_new (stub i) g)) [0..<129] h,
      \<lparr>em_count_channels = count_channels, em_global = 0, em_locals = replicate 128 max_epoch,
       em_garbage = snd (mpsc_new (stub 0) h),
       em_local_garbage = map (\<lambda>i. snd (mpsc_new (stub i) h)) [1..<129]\<rparr>)"

definition init_resource_allocator :: "(nat \<Rightarrow> u32 \<Rightarrow> addr) \<Rightarrow> nat \<Rightarrow> dyn_allocator option \<Rightarrow> dyn_allocator" where
  "init_resource_allocator mem max_node a =
     (case a of
        None \<Rightarrow> da_new mem max_node
      | Some a \<Rightarrow> if da_is_free max_node a then da_initialize_empty mem max_node (da_release_allocated_memory max_node a)
                  else da_defragment mem max_node a)"

definition init_task_allocator :: "bool \<Rightarrow> (nat \<Rightarrow> addr) \<Rightarrow> (nat \<Rightarrow> addr) \<Rightarrow> (nat \<Rightarrow> nat) \<Rightarrow> nat \<Rightarrow> core_set \<Rightarrow> task_allocator option" where
  "init_task_allocator use_system_allocator memory memory2 node_of max_node cores =
     (if use_system_allocator then Some SystemTaskAllocator
      else map_option FixedTaskAllocator (fixed_allocator_new 64 memory memory2 node_of max_node cores))"

text \<open>
  The result of init and the runtime. \<open>stub\<close> gives the addresses of the stubs of the queues, \<open>garbage_stub\<close>
  the ones of the garbage queues.
\<close>

definition runtime_init :: "bool \<Rightarrow> (nat \<Rightarrow> u32 \<Rightarrow> addr) \<Rightarrow> (nat \<Rightarrow> addr) \<Rightarrow> (nat \<Rightarrow> addr) \<Rightarrow> (nat \<Rightarrow> nat) \<Rightarrow> nat \<Rightarrow> (nat \<Rightarrow> nat \<Rightarrow> nat \<Rightarrow> addr) \<Rightarrow> (nat \<Rightarrow> addr) \<Rightarrow>
    core_set \<Rightarrow> u16 \<Rightarrow> runtime \<Rightarrow> (bool \<times> runtime) option" where
  "runtime_init use_system_allocator mem memory memory2 node_of max_node stub garbage_stub cores distance r =
     (if (case rt_scheduler r of None \<Rightarrow> False | Some s \<Rightarrow> sch_is_running s) then Some (False, r)
      else (let a = init_resource_allocator mem max_node (rt_resource_allocator r) in do {
        ta \<leftarrow> init_task_allocator use_system_allocator memory memory2 node_of max_node cores;
        (let need_new_scheduler = (case rt_scheduler r of None \<Rightarrow> True | Some s \<Rightarrow> \<not> core_set_eq (sch_core_set s) cores);
             r1 = r\<lparr>rt_resource_allocator := Some a, rt_task_allocator := Some ta\<rparr>;
             r2 = (if need_new_scheduler
                   then (let (h, s) = scheduler_new node_of stub cores distance (rt_task_links r);
                             (g, m) = epoch_manager_new (cs_size cores) garbage_stub (rt_garbage_links r)
                         in r1\<lparr>rt_scheduler := Some s, rt_task_links := h, rt_garbage_links := g, rt_epoch_manager := m\<rparr>)
                   else r1\<lparr>rt_scheduler := map_option sched_reset_statistic (rt_scheduler r),
                           rt_epoch_manager := epoch_reset (da_is_free max_node a) (rt_epoch_manager r)\<rparr>);
             r3 = (if rt_resource_builder r = None \<or> need_new_scheduler then r2\<lparr>rt_resource_builder := Some 0\<rparr> else r2)
         in Some (True, r3))
      }))"

definition runtime_spawn :: "bool \<Rightarrow> addr \<Rightarrow> task \<Rightarrow> u16 \<Rightarrow> runtime \<Rightarrow> runtime_error + runtime" where
  "runtime_spawn statistics a t current r =
     (case rt_scheduler r of
        None \<Rightarrow> Inl NullRuntime
      | Some s \<Rightarrow> (case schedule_from statistics a t current (rt_task_links r) s of
          Inl e \<Rightarrow> Inl (SchedulerError e)
        | Inr (h, s') \<Rightarrow> Inr (r\<lparr>rt_task_links := h, rt_scheduler := Some s'\<rparr>)))"

definition runtime_spawn_external :: "bool \<Rightarrow> addr \<Rightarrow> task \<Rightarrow> runtime \<Rightarrow> runtime_error + runtime" where
  "runtime_spawn_external statistics a t r =
     (case rt_scheduler r of
        None \<Rightarrow> Inl NullRuntime
      | Some s \<Rightarrow> (case schedule_external statistics a t (rt_task_links r) s of
          Inl e \<Rightarrow> Inl (SchedulerError e)
        | Inr (h, s') \<Rightarrow> Inr (r\<lparr>rt_task_links := h, rt_scheduler := Some s'\<rparr>)))"

definition runtime_stop :: "runtime \<Rightarrow> runtime" where
  "runtime_stop r = r\<lparr>rt_scheduler := map_option sched_interrupt (rt_scheduler r)\<rparr>"

text \<open>The memory for a new task; \<open>malloc\<close> is what the system's allocator returns.\<close>

definition runtime_new_task :: "addr \<Rightarrow> addr \<Rightarrow> (nat \<Rightarrow> nat) \<Rightarrow> nat \<Rightarrow> runtime \<Rightarrow> runtime_error + (addr \<times> runtime)" where
  "runtime_new_task malloc memory node_of core r =
     (case rt_task_allocator r of
        None \<Rightarrow> Inl NullRuntime
      | Some SystemTaskAllocator \<Rightarrow> Inr (malloc, r)
      | Some (FixedTaskAllocator fa) \<Rightarrow> (case fa_allocate 64 memory node_of core fa of
          None \<Rightarrow> Inl OutOfMemory
        | Some (p, fa') \<Rightarrow> Inr (p, r\<lparr>rt_task_allocator := Some (FixedTaskAllocator fa')\<rparr>)))"

definition runtime_delete_task :: "nat \<Rightarrow> addr \<Rightarrow> runtime \<Rightarrow> runtime_error + runtime" where
  "runtime_delete_task core p r =
     (case rt_task_allocator r of
        None \<Rightarrow> Inl NullRuntime
      | Some SystemTaskAllocator \<Rightarrow> Inr r
      | Some (FixedTaskAllocator fa) \<Rightarrow> Inr (r\<lparr>rt_task_allocator := Some (FixedTaskAllocator (fa_free core p fa))\<rparr>))"

definition runtime_new_resource :: "nat \<Rightarrow> (nat \<Rightarrow> u32 \<Rightarrow> addr) \<Rightarrow> (free_header list \<Rightarrow> nat \<Rightarrow> nat) \<Rightarrow> nat \<Rightarrow> hint \<Rightarrow> runtime \<Rightarrow>
    runtime_error + (resource_ptr \<times> runtime)" where
  "runtime_new_resource fuel mem stale sz hint r =
     (case (rt_resource_builder r, rt_scheduler r, rt_resource_allocator r) of
        (Some rr, Some s, Some a) \<Rightarrow> (case builder_build fuel mem stale sz hint rr s a of
            Inl e \<Rightarrow> Inl e
          | Inr (p, rr', s', a') \<Rightarrow> Inr (p, r\<lparr>rt_resource_builder := Some rr', rt_scheduler := Some s', rt_resource_allocator := Some a'\<rparr>))
      | _ \<Rightarrow> Inl NullRuntime)"

definition runtime_to_resource :: "u64 \<Rightarrow> hint \<Rightarrow> runtime \<Rightarrow> runtime_error + (resource_ptr \<times> runtime)" where
  "runtime_to_resource object hint r =
     (case (rt_resource_builder r, rt_scheduler r) of
        (Some rr, Some s) \<Rightarrow> (case builder_build_from object hint rr s of
            Inl e \<Rightarrow> Inl (SchedulerError e)
          | Inr (p, rr', s') \<Rightarrow> Inr (p, r\<lparr>rt_resource_builder := Some rr', rt_scheduler := Some s'\<rparr>))
      | _ \<Rightarrow> Inl NullRuntime)"

text \<open>Builder::destroy: optimistic resources go to the garbage collection, others are freed at once.\<close>

definition runtime_delete_resource :: "bool \<Rightarrow> resource_ptr \<Rightarrow> runtime \<Rightarrow> runtime_error + runtime" where
  "runtime_delete_resource local_gc p r =
     (if \<not> ptr_bool p then Inr r
      else if (case resource_primitive p of None \<Rightarrow> False | Some prim \<Rightarrow> is_optimistic prim)
      then (let (g, epochs, m) = add_to_garbage_collection local_gc (unat (ptr_get p)) (unat (resource_channel_id p))
                (rt_garbage_links r) (rt_remove_epoch r) (rt_epoch_manager r)
            in Inr (r\<lparr>rt_garbage_links := g, rt_remove_epoch := epochs, rt_epoch_manager := m\<rparr>))
      else (case rt_resource_allocator r of
          None \<Rightarrow> Inl NullRuntime
        | Some a \<Rightarrow> (case da_free (unat (ptr_get p)) a of
            None \<Rightarrow> Inl OutOfMemory
          | Some a' \<Rightarrow> Inr (r\<lparr>rt_resource_allocator := Some a'\<rparr>))))"

definition runtime_modify_predicted_usage :: "resource_ptr \<Rightarrow> access_frequency \<Rightarrow> access_frequency \<Rightarrow> runtime \<Rightarrow> runtime_error + runtime" where
  "runtime_modify_predicted_usage p old new r =
     (case rt_scheduler r of
        None \<Rightarrow> Inl NullRuntime
      | Some s \<Rightarrow> (case sched_modify_predicted_usage (unat (resource_channel_id p)) old new s of
          Inl e \<Rightarrow> Inl (SchedulerError e)
        | Inr s' \<Rightarrow> Inr (r\<lparr>rt_scheduler := Some s'\<rparr>)))"

subsection \<open>Usage predictions leave the waiting tasks alone\<close>

lemma worker_at_shape:
  "sched_shape s \<Longrightarrow> i < sch_count_channels s \<Longrightarrow> worker_at s i = Inr (the (sch_worker s ! i))"
  by (auto simp: sched_shape_def worker_at_def arr_get_def)

lemma numa_at_shape:
  "sched_shape s \<Longrightarrow> i < sch_count_channels s \<Longrightarrow> sched_numa_node_id i s = Some (sch_numa_node_map s ! i)"
  by (auto simp: sched_shape_def sched_numa_node_id_def arr_get_def)

text \<open>The scheduler after \<open>predict_usage\<close> for channel \<open>i\<close>.\<close>

definition predicted :: "nat \<Rightarrow> access_frequency \<Rightarrow> scheduler \<Rightarrow> scheduler" where
  "predicted i f s = set_channel i (the (sch_worker s ! i)) (predict_usage f (chan s i)) s"

lemma sched_predict_usage_eq:
  "sched_shape s \<Longrightarrow> i < sch_count_channels s \<Longrightarrow> sched_predict_usage i f s = Inr (predicted i f s)"
  by (simp add: sched_predict_usage_def worker_at_shape predicted_def chan_def)

lemma predicted_fields [simp]:
  "sch_count_channels (predicted i f s) = sch_count_channels s"
  "sch_numa_node_map (predicted i f s) = sch_numa_node_map s"
  by (simp_all add: predicted_def set_channel_def)

lemma predicted_chan:
  "i < length (sch_worker s) \<Longrightarrow> chan (predicted i f s) j = (if j = i then predict_usage f (chan s i) else chan s j)"
  by (auto simp: predicted_def set_channel_def chan_def nth_list_update)

lemma predicted_shape: "sched_shape s \<Longrightarrow> sched_shape (predicted i f s)"
  by (cases "i < length (sch_worker s)") (auto simp: sched_shape_def predicted_def set_channel_def nth_list_update)

lemma q_owns_predict_usage [simp]: "q_owns (predict_usage f c) cont k = q_owns c cont k"
  by (cases k) (simp_all add: q_owns_def predict_usage_def)

lemma channel_rep_predict_usage [simp]: "channel_rep h (predict_usage f c) cont buf = channel_rep h c cont buf"
proof -
  have "q_holds h (predict_usage f c) k xs = q_holds h c k xs" for k xs
    by (cases k) (simp_all add: predict_usage_def)
  then show ?thesis
    by (simp add: channel_rep_def channel_queues_def channel_shape_def) (simp add: predict_usage_def)
qed

lemma sched_rep_predicted:
  assumes "sched_rep h s conts bufs" "i < sch_count_channels s"
  shows "sched_rep h (predicted i f s) conts bufs"
proof -
  note chan = predicted_chan [OF sched_repD(3) [OF assms]]
  have "q_owns (chan (predicted i f s) j) c k = q_owns (chan s j) c k"
    "channel_rep h (chan (predicted i f s) j) c b = channel_rep h (chan s j) c b" for j c k b
    by (simp_all add: chan)
  with assms(1) predicted_shape show ?thesis by (simp add: sched_rep_def)
qed

lemma sched_fresh_predicted:
  assumes "i < length (sch_worker s)"
  shows "sched_fresh (predicted i f s) conts a = sched_fresh s conts a"
proof -
  have "task_fresh (chan (predicted i f s) j) c a = task_fresh (chan s j) c a" for j c
    by (simp add: predicted_chan [OF assms] task_fresh_def)
  then show ?thesis by (simp add: sched_fresh_def)
qed

subsection \<open>The channel of a new resource\<close>

lemma builder_channel_cases:
  assumes "sched_shape s" "0 < sch_count_channels s"
  obtains c rr' where "builder_channel hint rr s = Inr (c, rr')" "c < sch_count_channels s"
    "c = unat rr mod sch_count_channels s \<and> rr' = rr + 1 \<or>
     c = unat (rr + 1) mod sch_count_channels s \<and> rr' = rr + 2 \<and> 2 < sch_count_channels s \<and>
       hint_isolation_level hint = Exclusive \<and>
       has_excessive_usage_prediction (chan s (unat rr mod sch_count_channels s))"
proof -
  let ?n = "sch_count_channels s"
  have "unat rr mod ?n < ?n" "unat (rr + 1) mod ?n < ?n" using assms(2) by simp_all
  moreover have "sched_has_excessive (unat rr mod ?n) s = Inr (has_excessive_usage_prediction (chan s (unat rr mod ?n)))"
    using worker_at_shape [OF assms(1) calculation(1)] by (simp add: sched_has_excessive_def chan_def)
  ultimately show thesis
    by (cases "2 < ?n \<and> hint_isolation_level hint = Exclusive \<and> has_excessive_usage_prediction (chan s (unat rr mod ?n))")
      (rule that, auto simp: builder_channel_def Let_def)+
qed

lemma builder_schedule_ok:
  assumes "sched_shape s" "0 < sch_count_channels s"
    "has_channel_id hint \<longrightarrow> unat (hint_channel_id hint) < sch_count_channels s"
  obtains ch numa rr' where
    "builder_schedule hint rr s = Inr ((ch, numa), rr', predicted (unat ch) (hint_access_frequency hint) s)"
    "unat ch < sch_count_channels s" "ch < 4096"
    "has_channel_id hint \<longrightarrow> ch = hint_channel_id hint \<and> rr' = rr"
    "numa = (if \<not> has_channel_id hint \<and> has_numa_node_id hint then hint_numa_node_id hint
       else sch_numa_node_map s ! unat ch)"
proof -
  let ?n = "sch_count_channels s" and ?f = "hint_access_frequency hint"
  have n: "?n \<le> 128" using assms(1) by (simp add: sched_shape_def)
  have small: "ch < (4096 :: u16)" if "unat ch < ?n" for ch
    using that n by (simp add: word_less_nat_alt)
  show thesis
  proof (cases "has_channel_id hint")
    case True
    with assms(3) have c: "unat (hint_channel_id hint) < ?n" by simp
    show thesis
      by (rule that [of "hint_channel_id hint" "sch_numa_node_map s ! unat (hint_channel_id hint)" rr])
        (use True c small [OF c] sched_predict_usage_eq [OF assms(1) c] numa_at_shape [OF predicted_shape [OF assms(1)]]
          in \<open>simp_all add: builder_schedule_def\<close>)
  next
    case False
    obtain c rr' where b: "builder_channel hint rr s = Inr (c, rr')" and c: "c < ?n"
      by (rule builder_channel_cases [OF assms(1,2)])
    have u: "unat (of_nat c :: u16) = c" using c n by (simp add: unat_of_nat)
    show thesis
      by (rule that [of "of_nat c" "if has_numa_node_id hint then hint_numa_node_id hint else sch_numa_node_map s ! c" rr'])
        (use False b c u small [of "of_nat c"] sched_predict_usage_eq [OF assms(1) c]
          numa_at_shape [OF predicted_shape [OF assms(1)]] in \<open>simp_all add: builder_schedule_def\<close>)
  qed
qed

lemmas resource_of_new = resource_channel_id_def information_channel_id_def information_new_def tagged_ptr_new_def
  resource_primitive_def information_primitive_def primitive_roundtrip

lemma built_ptr:
  "ch < 4096 \<Longrightarrow> resource_channel_id (tagged_ptr_new object (information_new ch prim)) = ch"
  "resource_primitive (tagged_ptr_new object (information_new ch prim)) = Some prim"
  using channel_roundtrip [of ch] by (simp_all add: resource_of_new)

text \<open>
  C21: A resource that is built from an object is assigned to an existing
  channel (the one of its hint, when there is one), carries the primitive that its hint asks for, and the
  next task that is spawned on it from any worker is queued exactly once: on the channel of the resource when
  the primitive synchronizes it by scheduling, on that channel or the spawning one otherwise. Building
  itself moves no waiting task.
\<close>

theorem built_resource_routes_its_tasks:
  assumes "sched_rep (rt_task_links r) s conts bufs" "rt_scheduler r = Some s" "rt_resource_builder r = Some rr"
    "0 < sch_count_channels s" "has_channel_id hint \<longrightarrow> unat (hint_channel_id hint) < sch_count_channels s"
    "sched_fresh s conts a" "unat current < sch_count_channels s" "object < 2 ^ 48"
  shows "\<exists>p r1 r2 s2 i k. runtime_to_resource object hint r = Inr (p, r1) \<and>
    ptr_get p = object \<and> resource_primitive p = Some (isolation_level_to_synchronization_primitive hint) \<and>
    (has_channel_id hint \<longrightarrow> resource_channel_id p = hint_channel_id hint) \<and>
    runtime_spawn statistics a (annotate_resource p sz t) current r1 = Inr r2 \<and> rt_scheduler r2 = Some s2 \<and>
    i < sch_count_channels s \<and> valid_qid k \<and>
    sched_rep (rt_task_links r2) s2 (conts(i := (conts i)(k := conts i k @ [a]))) bufs \<and>
    (i = unat (resource_channel_id p) \<or>
     i = unat current \<and> \<not> serialized_at_resource (isolation_level_to_synchronization_primitive hint) (task_is_readonly t))"
proof -
  let ?prim = "isolation_level_to_synchronization_primitive hint"
  have shape: "sched_shape s" using assms(1) by (simp add: sched_rep_def)
  obtain ch numa rr' where b: "builder_schedule hint rr s = Inr ((ch, numa), rr', predicted (unat ch) (hint_access_frequency hint) s)"
    and ch: "unat ch < sch_count_channels s" "ch < 4096" "has_channel_id hint \<longrightarrow> ch = hint_channel_id hint \<and> rr' = rr"
    by (rule builder_schedule_ok [OF shape assms(4,5)])
  define p where "p = tagged_ptr_new object (information_new ch ?prim)"
  let ?s = "predicted (unat ch) (hint_access_frequency hint) s"
  let ?r = "r\<lparr>rt_resource_builder := Some rr', rt_scheduler := Some ?s\<rparr>"
  let ?t = "annotate_resource p sz t"
  note p = built_ptr(1) [OF ch(2), of object ?prim, folded p_def] built_ptr(2) [of object ch ?prim, folded p_def]
  have t: "task_target ?t = TargetResource p sz" "task_is_readonly ?t = task_is_readonly t"
    by (simp_all add: annotate_resource_def)
  have built: "runtime_to_resource object hint r = Inr (p, ?r)"
    using assms(2,3) b by (simp add: runtime_to_resource_def builder_build_from_def p_def Let_def)
  have fresh: "sched_fresh ?s conts a"
    using assms(6) sched_fresh_predicted [OF sched_repD(3) [OF assms(1) ch(1)]] by simp
  have target: "valid_target ?s (task_target ?t)" using ch(1) by (simp add: t p)
  obtain h' s' i k where f: "schedule_from statistics a ?t current (rt_task_links r) ?s = Inr (h', s')"
      "i < sch_count_channels s" "valid_qid k" "sched_rep h' s' (conts(i := (conts i)(k := conts i k @ [a]))) bufs"
      "allowed_channel (task_target ?t) (task_is_readonly ?t) current i"
    using schedule_from_rep [OF sched_rep_predicted [OF assms(1) ch(1)] fresh _ target, of current statistics] assms(7) by auto
  have spawned: "runtime_spawn statistics a ?t current ?r = Inr (?r\<lparr>rt_task_links := h', rt_scheduler := Some s'\<rparr>)"
    using f(1) by (simp add: runtime_spawn_def)
  have "ptr_get p = object" using ptr_get_new [OF assms(8)] by (simp add: p_def)
  with built spawned f(2-5) ch(3) show ?thesis
    by (intro exI [of _ p] exI [of _ ?r] exI [of _ "?r\<lparr>rt_task_links := h', rt_scheduler := Some s'\<rparr>"] exI [of _ s'] exI [of _ i] exI [of _ k])
      (simp add: t p)
qed

definition demo_runtime :: runtime where
  "demo_runtime = \<lparr>rt_scheduler = Some (snd demo_scheduler), rt_epoch_manager = snd (epoch_manager_new 2 id (\<lambda>_. None)),
     rt_task_allocator = None, rt_resource_allocator = None, rt_resource_builder = Some 0,
     rt_task_links = fst demo_scheduler, rt_garbage_links = fst (epoch_manager_new 2 id (\<lambda>_. None)), rt_remove_epoch = \<lambda>_. 0\<rparr>"

theorem built_resource_routes_its_tasks_witness:
  "\<exists>p r1 r2 s2 k. runtime_to_resource 4096 (hint_channel_isolation_protocol 1 Exclusive ProtocolQueue) demo_runtime = Inr (p, r1) \<and>
    resource_primitive p = Some ScheduleAll \<and>
    runtime_spawn False 1000 (annotate_resource p 64 task_default) 0 r1 = Inr r2 \<and> rt_scheduler r2 = Some s2 \<and>
    sched_rep (rt_task_links r2) s2 ((\<lambda>_ _. [])(1 := (\<lambda>_. [])(k := [1000]))) (\<lambda>_. [])"
proof -
  let ?hint = "hint_channel_isolation_protocol 1 Exclusive ProtocolQueue"
  have hint: "hint_channel_id ?hint = 1" "has_channel_id ?hint" "isolation_level_to_synchronization_primitive ?hint = ScheduleAll"
    by (simp_all add: hint_channel_isolation_protocol_def has_channel_id_def isolation_level_to_synchronization_primitive_def)
  have "sched_fresh (snd demo_scheduler) (\<lambda>_ _. []) 1000"
    by (rule built_upto_fresh [OF demo_scheduler_built(1)]) (simp add: demo_scheduler_built(2))
  from built_resource_routes_its_tasks [OF _ _ _ _ _ this, of demo_runtime "\<lambda>_. []" 0 ?hint 0 4096 False 64 task_default]
  show ?thesis
    using built_upto_rep [OF demo_scheduler_built(1)]
    by (auto simp: demo_runtime_def hint demo_scheduler_built(2) serialized_at_resource_def)
qed

text \<open>A resource in new memory: the same pointer, or the allocator's failure.\<close>

lemma runtime_new_resource_cases:
  assumes "sched_shape s" "0 < sch_count_channels s"
    "has_channel_id hint \<longrightarrow> unat (hint_channel_id hint) < sch_count_channels s"
    "rt_scheduler r = Some s" "rt_resource_builder r = Some rr" "rt_resource_allocator r = Some al"
  shows "\<exists>ch (numa :: u8). unat ch < sch_count_channels s \<and>
    (case da_allocate fuel mem stale (unat numa) 64 sz al of
       None \<Rightarrow> runtime_new_resource fuel mem stale sz hint r = Inl OutOfMemory
     | Some (al', q) \<Rightarrow> \<exists>p r'. runtime_new_resource fuel mem stale sz hint r = Inr (p, r') \<and>
         rt_resource_allocator r' = Some al' \<and> (q < 2 ^ 48 \<longrightarrow> unat (ptr_get p) = q) \<and>
         resource_channel_id p = ch \<and> resource_primitive p = Some (isolation_level_to_synchronization_primitive hint))"
proof -
  let ?prim = "isolation_level_to_synchronization_primitive hint"
  obtain ch numa rr' where b: "builder_schedule hint rr s = Inr ((ch, numa), rr', predicted (unat ch) (hint_access_frequency hint) s)"
    and ch: "unat ch < sch_count_channels s" "ch < 4096"
    by (rule builder_schedule_ok [OF assms(1-3)])
  have q: "unat (ptr_get (tagged_ptr_new (of_nat q :: u64) (information_new ch ?prim))) = q" if "q < 2 ^ 48" for q
  proof -
    have u: "unat (of_nat q :: u64) = q" using that by (simp add: unat_of_nat)
    then have "(of_nat q :: u64) < 2 ^ 48" using that by (simp add: word_less_nat_alt)
    then show ?thesis using u by (simp add: ptr_get_new)
  qed
  show ?thesis
    by (rule exI [of _ ch], rule exI [of _ numa])
      (use b ch q built_ptr(1) [OF ch(2)] built_ptr(2) in \<open>simp add: runtime_new_resource_def builder_build_def assms Let_def split: option.split prod.split\<close>)
qed

subsection \<open>Round robin\<close>

fun schedule_all :: "hint list \<Rightarrow> u16 \<Rightarrow> scheduler \<Rightarrow> sched_error + u16 list" where
  "schedule_all [] rr s = Inr []"
| "schedule_all (hint # hints) rr s = (case builder_schedule hint rr s of
       Inl e \<Rightarrow> Inl e
     | Inr ((ch, _), rr', s') \<Rightarrow> map_sum id ((#) ch) (schedule_all hints rr' s'))"

lemma schedule_all_round_robin:
  assumes "sched_shape s" "0 < sch_count_channels s" "unat rr + length hints \<le> 65535"
    "\<forall>hint \<in> set hints. \<not> has_channel_id hint \<and> hint_isolation_level hint \<noteq> Exclusive"
  shows "schedule_all hints rr s = Inr (map (\<lambda>k. of_nat ((unat rr + k) mod sch_count_channels s)) [0..<length hints])"
  using assms
proof (induction hints arbitrary: rr s)
  case (Cons hint hints)
  let ?n = "sch_count_channels s" and ?c = "unat rr mod sch_count_channels s"
  let ?s = "predicted ?c (hint_access_frequency hint) s"
  have c: "?c < ?n" using Cons.prems(2) by simp
  have "builder_schedule hint rr s = Inr ((of_nat ?c, if has_numa_node_id hint then hint_numa_node_id hint else sch_numa_node_map s ! ?c), rr + 1, ?s)"
    using Cons.prems(1,4) c sched_predict_usage_eq [OF Cons.prems(1) c] numa_at_shape [OF predicted_shape [OF Cons.prems(1)]]
    by (simp add: builder_schedule_def builder_channel_def Let_def)
  moreover have rr: "unat (rr + 1) = unat rr + 1" using Cons.prems(3) by (simp add: unat_word_ariths)
  moreover have "schedule_all hints (rr + 1) ?s = Inr (map (\<lambda>k. of_nat ((unat (rr + 1) + k) mod ?n)) [0..<length hints])"
    using Cons.IH [OF predicted_shape [OF Cons.prems(1)], where rr = "rr + 1"] Cons.prems(2-4) rr by simp
  ultimately show ?case by (simp add: map_upt_Suc del: upt_Suc)
qed simp

lemma count_list_mset: "count_list xs x = count (mset xs) x"
  by (induction xs) auto

lemma round_robin_count:
  assumes "c < (n :: nat)"
  shows "count_list (map (\<lambda>k. (a + k) mod n) [0..<m * n]) c = m"
proof (induction m arbitrary: a)
  case (Suc m)
  have "map (\<lambda>k. (a + k) mod n) [0..<n] = rotate a [0..<n]"
    using assms by (intro nth_equalityI) (simp_all add: nth_rotate)
  then have first: "count_list (map (\<lambda>k. (a + k) mod n) [0..<n]) c = 1"
    using assms distinct_count_atmost_1 [of "rotate a [0..<n]"] by (simp add: count_list_mset)
  have "[0..<Suc m * n] = [0..<n] @ map (\<lambda>k. k + n) [0..<m * n]"
    by (simp add: map_add_upt upt_add_eq_append [of 0 n "m * n"] add.commute)
  then have "map (\<lambda>k. (a + k) mod n) [0..<Suc m * n] =
      map (\<lambda>k. (a + k) mod n) [0..<n] @ map (\<lambda>k. (a + k) mod n) [0..<m * n]"
    by (simp add: comp_def add.assoc [symmetric])
  with first Suc.IH [of a] show ?case by simp
qed simp

text \<open>
  Resources whose hints leave the channel to the builder and ask for no exclusive isolation are spread evenly:
  after a multiple of the number of channels every channel got the same number of them, as long as the
  16 bit counter does not wrap.
\<close>

lemma round_robin_is_even:
  assumes "sched_shape s" "unat rr + length hints \<le> 65535" "length hints = m * sch_count_channels s"
    "\<forall>hint \<in> set hints. \<not> has_channel_id hint \<and> hint_isolation_level hint \<noteq> Exclusive" "c < sch_count_channels s"
  shows "\<exists>channels. schedule_all hints rr s = Inr channels \<and> count_list channels (of_nat c) = m"
proof -
  let ?n = "sch_count_channels s"
  have n: "?n \<le> 128" using assms(1) by (simp add: sched_shape_def)
  have inj: "inj_on (of_nat :: nat \<Rightarrow> u16) {..<?n}"
    using n by (intro inj_onI) (simp add: word_unat_eq_iff unat_of_nat)
  have "count_list (map (of_nat :: nat \<Rightarrow> u16) xs) (of_nat c) = count_list xs c" if "set xs \<subseteq> {..<?n}" for xs
    using that assms(5) by (induction xs) (auto dest: inj_onD [OF inj])
  moreover have "set (map (\<lambda>k. (unat rr + k) mod ?n) [0..<m * ?n]) \<subseteq> {..<?n}" using assms(5) by auto
  ultimately
  have "count_list (map (\<lambda>k. of_nat ((unat rr + k) mod ?n) :: u16) [0..<m * ?n]) (of_nat c) = m"
    using round_robin_count [OF assms(5), of "unat rr" m] by (fastforce simp: comp_def)
  then show ?thesis
    using schedule_all_round_robin [OF assms(1) _ assms(2,4)] assms(3,5) by simp
qed

subsection \<open>Initialization\<close>

lemma sched_construct_fields:
  "sched_construct node_of stub distance cores i h s = (h', s') \<Longrightarrow>
   sch_core_set s' = sch_core_set s \<and> sch_is_running s' = sch_is_running s"
  by (induction cores arbitrary: i h s) (auto simp: Let_def split: prod.splits)

text \<open>
  A running runtime refuses to be initialized and stays as it is. Otherwise the runtime afterwards runs on
  the requested cores, does not run yet and has all its parts, so that no later call meets a null pointer.
\<close>

lemma runtime_init_cases:
  assumes "runtime_init use_system_allocator mem memory memory2 node_of max_node stub garbage_stub cores distance r = Some (ok, r')"
  shows "if rt_scheduler r \<noteq> None \<and> sch_is_running (the (rt_scheduler r)) then \<not> ok \<and> r' = r
    else ok \<and> (\<exists>s. rt_scheduler r' = Some s \<and> core_set_eq (sch_core_set s) cores \<and> \<not> sch_is_running s) \<and>
      rt_task_allocator r' \<noteq> None \<and> rt_resource_allocator r' \<noteq> None \<and> rt_resource_builder r' \<noteq> None"
proof (cases "rt_scheduler r \<noteq> None \<and> sch_is_running (the (rt_scheduler r))")
  case False
  then obtain ta where "init_task_allocator use_system_allocator memory memory2 node_of max_node cores = Some ta"
    using assms by (auto simp: runtime_init_def Let_def split: option.splits bind_splits if_splits)
  moreover obtain h s where s: "scheduler_new node_of stub cores distance (rt_task_links r) = (h, s)" by fastforce
  moreover have "sch_core_set s = cores \<and> \<not> sch_is_running s"
    using sched_construct_fields [OF s [unfolded scheduler_new_def]] by simp
  ultimately show ?thesis
    using assms False
    by (auto simp: runtime_init_def Let_def core_set_eq_def sched_reset_statistic_def split: option.splits prod.splits if_splits)
qed (use assms in \<open>auto simp: runtime_init_def split: option.splits\<close>)

subsection \<open>Deletion\<close>

text \<open>
  The memory of an optimistic resource stays allocated when it is deleted: readers may still be there. It is
  put to the garbage, stamped with the global epoch. All other resources return to the allocator at once.
\<close>

lemma runtime_delete_resource_optimistic:
  assumes "ptr_bool p" "resource_primitive p = Some prim" "is_optimistic prim"
  shows "\<exists>r'. runtime_delete_resource local_gc p r = Inr r' \<and> rt_resource_allocator r' = rt_resource_allocator r \<and>
    rt_scheduler r' = rt_scheduler r \<and> rt_remove_epoch r' (unat (ptr_get p)) = em_global (rt_epoch_manager r)"
  using assms by (simp add: runtime_delete_resource_def add_to_garbage_collection_def Let_def split: prod.split)

end
