(* ===== verification/ResourceAccess.thy ===== *)
theory ResourceAccess
  imports WorkerModel
begin

section \<open>Concurrent accesses to one resource\<close>

text \<open>
  How the execution contexts of the workers (worker.cpp) and the latches of a resource
  (resource_interface.h) fit together. The locale \<open>latch\<close> is what a worker relies on: who holds a latch
  exclusively is alone. The spinlock, the reader/writer lock and the writers' side of the optimistic
  lock provide it. A resource has one latch of each kind; its state is changed by the steps of the
  threads at its latches, in any order.

  The result joins scheduling, contexts and latches: two tasks of which one writes the resource are
  never both inside of their contexts on two channels, except for optimistic readers, and those do
  not pass their validation.
\<close>

subsection \<open>The contract of a latch\<close>

datatype access_mode = SharedAccess | ExclusiveAccess

locale latch =
  fixes reach :: "'s \<Rightarrow> bool" and holds :: "'s \<Rightarrow> access_mode \<Rightarrow> nat \<Rightarrow> bool"
  assumes exclusive: "reach s \<Longrightarrow> holds s ExclusiveAccess t \<Longrightarrow> holds s m u \<Longrightarrow> t = u"
begin

lemma shared_unless_same: "reach s \<Longrightarrow> holds s m t \<Longrightarrow> holds s m' u \<Longrightarrow> t \<noteq> u \<Longrightarrow> m = SharedAccess \<and> m' = SharedAccess"
  using exclusive by (cases m; cases m') blast+

lemma one_writer_or_readers:
  assumes "reach s"
  shows "(\<exists>t. \<forall>m u. holds s m u \<longrightarrow> u = t) \<or> (\<forall>m u. holds s m u \<longrightarrow> m = SharedAccess)"
proof (cases "\<exists>t. holds s ExclusiveAccess t")
  case False
  then have "m = SharedAccess" if "holds s m u" for m u using that by (cases m) auto
  then show ?thesis by blast
qed (use exclusive [OF assms] in blast)

end

interpretation spin_latch: latch spin_reachable "\<lambda>s m t. m = ExclusiveAccess \<and> spin_pc s t = SpinHeld"
  by unfold_locales (use spin_reachable_inv in \<open>auto simp: spin_inv_def\<close>)

fun rw_holding :: "access_mode \<Rightarrow> rw_pc" where
  "rw_holding SharedAccess = RwShared"
| "rw_holding ExclusiveAccess = RwWrite"

interpretation rw_latch: latch "\<lambda>s. \<exists>N < 2 ^ 30. rw_reachable N s" "\<lambda>s m t. rw_pc s t = rw_holding m"
proof unfold_locales
  fix s t m u
  assume "\<exists>N < 2 ^ 30. rw_reachable N s" and t: "rw_pc s t = rw_holding ExclusiveAccess" and u: "rw_pc s u = rw_holding m"
  then obtain N where "rw_inv N (rw_pc s) (rw_bits s)" using rw_reachable_inv by blast
  from rw_inv_exclusive [OF this, of t u] t u show "t = u" by (cases m) auto
qed

interpretation version_latch: latch "\<lambda>s. \<exists>single m. ol_steps single ol_init m s" "\<lambda>s m t. m = ExclusiveAccess \<and> ol_pc s t = OWriting"
proof unfold_locales
  fix s t m u
  assume "\<exists>single m. ol_steps single ol_init m s"
  then have "ol_inv s" using ol_steps_inv ol_init_inv by blast
  moreover assume "ExclusiveAccess = ExclusiveAccess \<and> ol_pc s t = OWriting" "m = ExclusiveAccess \<and> ol_pc s u = OWriting"
  ultimately show "t = u" by (simp add: ol_inv_def)
qed

subsection \<open>A resource and the threads at its latches\<close>

record resource_state =
  rs_exclusive :: spin_state
  rs_rw :: rw_state
  rs_version :: ol_state

definition resource_new :: resource_state where
  "resource_new = \<lparr>rs_exclusive = spin_init, rs_rw = rw_init, rs_version = ol_init\<rparr>"

text \<open>The number counts the changes of the version, as in \<open>ol_step\<close>.\<close>

inductive access_run :: "nat \<Rightarrow> bool \<Rightarrow> resource_state \<Rightarrow> nat \<Rightarrow> resource_state \<Rightarrow> bool" for N single where
  no_access: "access_run N single s 0 s"
| at_exclusive: "access_run N single s n s' \<Longrightarrow> spin_step (rs_exclusive s') l \<Longrightarrow> access_run N single s n (s'\<lparr>rs_exclusive := l\<rparr>)"
| at_rw: "access_run N single s n s' \<Longrightarrow> rw_step N (rs_rw s') l \<Longrightarrow> access_run N single s n (s'\<lparr>rs_rw := l\<rparr>)"
| at_version: "access_run N single s n s' \<Longrightarrow> ol_step single (rs_version s') k l \<Longrightarrow>
    access_run N single s (n + k) (s'\<lparr>rs_version := l\<rparr>)"

text \<open>The thread is between acquiring and releasing, or between reading and validating.\<close>

fun inside :: "resource_state \<Rightarrow> exec_context \<Rightarrow> nat \<Rightarrow> bool" where
  "inside s Plain t = True"
| "inside s (Latched SyncExclusive) t = (spin_pc (rs_exclusive s) t = SpinHeld)"
| "inside s (Latched SharedRead) t = (rw_pc (rs_rw s) t = RwShared)"
| "inside s (Latched SharedWrite) t = (rw_pc (rs_rw s) t = RwWrite)"
| "inside s (Latched SyncOptimistic) t = (ol_pc (rs_version s) t = OWriting)"
| "inside s (Latched SyncOLFIT) t = (ol_pc (rs_version s) t = OWriting)"
| "inside s OptimisticRead t = (\<exists>v. ol_pc (rs_version s) t = OReading v)"

fun_cases excludeE: "exclude c c'" and detectedE: "detected c c'"

lemma access_run_parts:
  "access_run N single s n s' \<Longrightarrow> spin_step\<^sup>*\<^sup>* (rs_exclusive s) (rs_exclusive s') \<and>
     (rw_step N)\<^sup>*\<^sup>* (rs_rw s) (rs_rw s') \<and> ol_steps single (rs_version s) n (rs_version s')"
  by (induction rule: access_run.induct) (auto intro: ol_none ol_more rtranclp.rtrancl_into_rtrancl)

lemma access_run_latches:
  assumes "access_run N single resource_new n s"
  shows "spin_reachable (rs_exclusive s)" "rw_reachable N (rs_rw s)" "ol_steps single ol_init n (rs_version s)"
  using access_run_parts [OF assms] by (simp_all add: resource_new_def spin_reachable_def rw_reachable_def)

text \<open>Contexts that exclude each other are never both active, whatever the threads do.\<close>

lemma excluded_contexts:
  assumes "access_run N single resource_new n s" "N < 2 ^ 30" "exclude c c'" "inside s c t" "inside s c' u"
  shows "t = u"
proof -
  note r = access_run_latches [OF assms(1)]
  have rw: "\<exists>N < 2 ^ 30. rw_reachable N (rs_rw s)" using r(2) assms(2) by blast
  have ol: "\<exists>single m. ol_steps single ol_init m (rs_version s)" using r(3) by blast
  from assms(3) consider "c = Latched SyncExclusive" "c' = Latched SyncExclusive"
    | "c = Latched SharedWrite" "c' = Latched SharedWrite \<or> c' = Latched SharedRead"
    | "c = Latched SharedRead" "c' = Latched SharedWrite" | "c = Latched SyncOLFIT" "c' = Latched SyncOLFIT"
    by (elim excludeE) auto
  then show ?thesis
  proof cases
    case 1
    with assms(4,5) show ?thesis using spin_latch.exclusive [OF r(1)] by auto
  next
    case 2
    with assms(4,5) show ?thesis
      using rw_latch.exclusive [OF rw, of t u ExclusiveAccess] rw_latch.exclusive [OF rw, of t u SharedAccess] by auto
  next
    case 3
    with assms(4,5) show ?thesis using rw_latch.exclusive [OF rw, of u t SharedAccess] by simp
  next
    case 4
    with assms(4,5) show ?thesis using version_latch.exclusive [OF ol] by auto
  qed
qed

text \<open>
  A reader that read the version before a writer was inside does not pass its validation, unless the
  version has changed 2^31 times in between.
\<close>

lemma reader_meets_no_writer:
  assumes "access_run N single resource_new m s0" "\<not> ol_is_locked (ol_version (rs_version s0))" "v = ol_version (rs_version s0)"
    "access_run N single s0 n s" "ol_pc (rs_version s) t = OWriting" "access_run N single s k s'" "n + k < 2 ^ 31"
  shows "\<not> ol_is_valid v (ol_version (rs_version s'))"
proof
  assume "ol_is_valid v (ol_version (rs_version s'))"
  moreover have "ol_version (rs_version s) = v + of_nat (2 * n)"
    using access_run_parts [OF assms(4)] ol_steps_version assms(3) by blast
  moreover have "ol_version (rs_version s') = ol_version (rs_version s) + of_nat (2 * k)"
    using access_run_parts [OF assms(6)] ol_steps_version by blast
  ultimately have "(of_nat (2 * (n + k)) :: u32) = 0" by (simp add: ol_is_valid_def algebra_simps)
  then have "2 ^ LENGTH(32) dvd 2 * (n + k)" unfolding word_of_nat_eq_0_iff .
  then have "2 * (n + k) = 0" using assms(7) by (auto dest!: dvd_imp_le)
  then have "ol_version (rs_version s) = v" using \<open>ol_version (rs_version s) = v + of_nat (2 * n)\<close> by simp
  moreover have "ol_inv (rs_version s)"
    using access_run_latches(3) [OF assms(1)] access_run_parts [OF assms(4)] ol_steps_inv ol_init_inv by blast
  ultimately show False using ol_inv_locked [of "rs_version s"] assms(2,3,5) by auto
qed

lemma detected_cases: "detected c c' \<Longrightarrow> c' = OptimisticRead \<and> (inside s c t \<longrightarrow> ol_pc (rs_version s) t = OWriting)"
  by (elim detectedE) auto

text \<open>
  C31: Two tasks on one resource with a synchronizing primitive, one of them writing it, never access it at
  the same time from two channels, in any interleaving of the threads at the latches of the
  resource. The only exception is an optimistic reader; when it overlaps with the writer, its validation
  fails, however long the writer takes, unless the version changes 2^31 times during the read.
  A thread is named by its channel.
\<close>

theorem conflicting_tasks_never_overlap:
  assumes "task_target writer = TargetResource r wsize" "task_target other = TargetResource r osize"
    "\<not> task_is_readonly writer" "resource_primitive r = Some prim" "prim \<noteq> PrimitiveNone"
    "allowed_channel (task_target writer) False wspawn (unat ch1)"
    "allowed_channel (task_target other) (task_is_readonly other) ospawn (unat ch2)"
    "task_context writer ch1 = Some c1" "task_context other ch2 = Some c2"
    "access_run N single resource_new m s" "N < 2 ^ 30" "inside s c1 (unat ch1)" "inside s c2 (unat ch2)"
  shows "ch1 = ch2 \<or> c2 = OptimisticRead \<and>
    (\<forall>m0 s0 n k s'. access_run N single resource_new m0 s0 \<longrightarrow> \<not> ol_is_locked (ol_version (rs_version s0)) \<longrightarrow>
       access_run N single s0 n s \<longrightarrow> access_run N single s k s' \<longrightarrow> n + k < 2 ^ 31 \<longrightarrow>
       \<not> ol_is_valid (ol_version (rs_version s0)) (ol_version (rs_version s')))"
proof -
  consider "ch1 = ch2" | "exclude c1 c2" | "detected c1 c2"
    using conflicting_accesses_are_synchronized [OF assms(1-9)] by blast
  then show ?thesis
  proof cases
    case 2
    then show ?thesis using excluded_contexts [OF assms(10,11) 2 assms(12,13)] by (simp add: word_unat_eq_iff)
  next
    case 3
    then have "c2 = OptimisticRead" "ol_pc (rs_version s) (unat ch1) = OWriting"
      using detected_cases [OF 3, of s "unat ch1"] assms(12) by simp_all
    then show ?thesis using reader_meets_no_writer [OF _ _ refl _ _ _] by blast
  qed simp
qed

text \<open>An optimistic reader on channel 0 reads the version, then a writer on channel 1 locks.\<close>

definition demo_read :: resource_state where
  "demo_read = resource_new\<lparr>rs_version := ol_init\<lparr>ol_pc := (ol_pc ol_init)(0 := OReading 4)\<rparr>\<rparr>"

definition demo_access :: resource_state where
  "demo_access = demo_read\<lparr>rs_version := \<lparr>ol_version = 6, ol_pc = (ol_pc (rs_version demo_read))(1 := OWriting)\<rparr>\<rparr>"

lemma demo_read_run: "access_run 2 True resource_new 0 demo_read"
proof -
  let ?call = "ol_init\<lparr>ol_pc := (ol_pc ol_init)(0 := OReadSpin)\<rparr>"
  have "ol_step True ol_init 0 ?call" by (rule ol_step.read_call) (simp add: ol_init_def)
  then have "access_run 2 True resource_new (0 + 0) (resource_new\<lparr>rs_version := ?call\<rparr>)"
    by (intro at_version no_access) (simp add: resource_new_def)
  moreover have "ol_step True ?call 0 (?call\<lparr>ol_pc := (ol_pc ?call)(0 := if ol_is_locked (ol_version ?call) then OReadSpin else OReading (ol_version ?call))\<rparr>)"
    by (rule ol_step.read_version) simp
  then have "ol_step True (rs_version (resource_new\<lparr>rs_version := ?call\<rparr>)) 0 (rs_version demo_read)"
    by (simp add: ol_init_def ol_init_version_def ol_is_locked_iff demo_read_def resource_new_def)
  ultimately have "access_run 2 True resource_new (0 + 0 + 0) (resource_new\<lparr>rs_version := ?call, rs_version := rs_version demo_read\<rparr>)"
    by (rule at_version)
  then show ?thesis by (simp add: demo_read_def)
qed

lemma demo_access_step: "access_run 2 True demo_read 1 demo_access"
proof -
  have "ol_step True (rs_version demo_read) 1
      \<lparr>ol_version = ol_lock_single (ol_version (rs_version demo_read)), ol_pc = (ol_pc (rs_version demo_read))(1 := OWriting)\<rparr>"
    by (rule ol_step.single_lock) (auto simp: demo_read_def ol_init_def resource_new_def)
  from at_version [OF no_access this, of 2] show ?thesis
    by (simp add: demo_access_def demo_read_def ol_init_def ol_init_version_def ol_lock_single_def resource_new_def)
qed

lemma access_run_trans: "access_run N single s' m s'' \<Longrightarrow> access_run N single s n s' \<Longrightarrow> access_run N single s (n + m) s''"
  by (induction rule: access_run.induct) (auto intro: access_run.intros simp: add.assoc [symmetric])

theorem conflicting_tasks_never_overlap_witness:
  "inside demo_access (Latched SyncOptimistic) 1 \<and> inside demo_access OptimisticRead 0 \<and>
   \<not> ol_is_valid (ol_version (rs_version demo_read)) (ol_version (rs_version demo_access))"
proof -
  let ?r = "tagged_ptr_new 4096 (information_new 1 ScheduleWriter)"
  let ?reader = "set_readonly True (annotate_resource ?r 64 task_default)"
  let ?writer = "annotate_resource ?r 64 task_default"
  have r: "resource_channel_id ?r = 1" "resource_primitive ?r = Some ScheduleWriter"
    by (simp_all add: resource_channel_id_def tagged_ptr_new_def information_channel_id_def
        information_new_def resource_primitive_def information_primitive_def primitive_of_code_def arr_get_def)
  have ctx: "task_context ?writer 1 = Some (Latched SyncOptimistic)" "task_context ?reader 0 = Some OptimisticRead"
    by (simp_all add: task_context_def annotate_resource_def set_readonly_def task_default_def r context_optimistic_def)
  have in_ctx: "inside demo_access (Latched SyncOptimistic) 1" "inside demo_access OptimisticRead 0"
    by (simp_all add: demo_access_def demo_read_def)
  have unlocked: "\<not> ol_is_locked (ol_version (rs_version demo_read))"
    by (simp add: demo_read_def ol_init_def ol_init_version_def ol_is_locked_iff)
  have run: "access_run 2 True resource_new (0 + 1) demo_access" by (rule access_run_trans [OF demo_access_step demo_read_run])
  have "(1 :: u16) = 0 \<or> OptimisticRead = OptimisticRead \<and>
    (\<forall>m0 s0 n k s'. access_run 2 True resource_new m0 s0 \<longrightarrow> \<not> ol_is_locked (ol_version (rs_version s0)) \<longrightarrow>
       access_run 2 True s0 n demo_access \<longrightarrow> access_run 2 True demo_access k s' \<longrightarrow> n + k < 2 ^ 31 \<longrightarrow>
       \<not> ol_is_valid (ol_version (rs_version s0)) (ol_version (rs_version s')))"
    by (rule conflicting_tasks_never_overlap [where writer = ?writer and other = ?reader and r = ?r and wsize = 64 and
        osize = 64 and prim = ScheduleWriter and wspawn = 0 and ospawn = 0, OF _ _ _ _ _ _ _ ctx run])
      (use in_ctx r in \<open>simp_all add: annotate_resource_def set_readonly_def task_default_def serialized_at_resource_def\<close>)
  from this demo_read_run unlocked demo_access_step no_access [of 2 True demo_access]
  have "\<not> ol_is_valid (ol_version (rs_version demo_read)) (ol_version (rs_version demo_access))" by fastforce
  with in_ctx show ?thesis by simp
qed

end
