(* ===== verification/WorkloadModel.thy ===== *)
theory WorkloadModel
  imports CoreSet
begin

section \<open>Workloads and core configurations of the benchmarks\<close>

text \<open>
  src/benchmark: workload_set.h and workload_set.cpp (tuples, the two ways to build a workload), workload.h and
  workload.cpp (handing out batches), cores.h and cores.cpp (the core counts of a benchmark), string_util.cpp, and
  the order in which the two benchmark programs (benchmark.cpp of the B-link tree and of the hash join) go through
  iterations, phases or batches, and core counts.

  The text of a workload file is a list of words and numbers, as the stream operators read them. The random
  values of std::rand are a function of the number of the call. Loops with 32 bit or 16 bit counters take
  fuel: None is a loop that does not end, a division by 0 or an access outside of an array.

  The lemmas show which tuples are built and that a benchmark runs every configuration the right number of times;
  and for which bounds the loops do not end.
\<close>

subsection \<open>Tuples and workloads\<close>

datatype tuple_type = INSERT | LOOKUP | UPDATE | DELETE

record numeric_tuple =
  nt_type :: tuple_type
  nt_key :: u64
  nt_value :: u64

datatype phase = FILL | MIXED

record workload_set =
  ws_fill :: "numeric_tuple list"
  ws_mixed :: "numeric_tuple list"
  ws_contains_update :: bool

definition workload_set_new :: workload_set where
  "workload_set_new = \<lparr>ws_fill = [], ws_mixed = [], ws_contains_update = False\<rparr>"

fun ws_phase :: "workload_set \<Rightarrow> phase \<Rightarrow> numeric_tuple list" where
  "ws_phase ws FILL = ws_fill ws"
| "ws_phase ws MIXED = ws_mixed ws"

definition ws_bool :: "workload_set \<Rightarrow> bool" where
  "ws_bool ws \<longleftrightarrow> ws_fill ws \<noteq> [] \<or> ws_mixed ws \<noteq> []"

text \<open>The parser of a workload file; \<open>k\<close> counts the calls of std::rand.\<close>

fun ws_parse :: "(nat \<Rightarrow> u64) \<Rightarrow> nat \<Rightarrow> (string \<times> u64) list \<Rightarrow> numeric_tuple list \<times> bool" where
  "ws_parse rand k [] = ([], False)"
| "ws_parse rand k ((op_name, key) # rest) =
     (if op_name = ''INSERT''
      then (let (ts, _) = ws_parse rand (k + 1) rest in (\<lparr>nt_type = INSERT, nt_key = key, nt_value = rand k\<rparr> # ts, True))
      else if op_name = ''READ''
      then (let (ts, u) = ws_parse rand k rest in (\<lparr>nt_type = LOOKUP, nt_key = key, nt_value = 0\<rparr> # ts, u))
      else if op_name = ''UPDATE''
      then (let (ts, _) = ws_parse rand (k + 1) rest in (\<lparr>nt_type = UPDATE, nt_key = key, nt_value = rand k\<rparr> # ts, True))
      else ws_parse rand k rest)"

text \<open>A file that can not be opened (None) leaves its phase as it is.\<close>

definition ws_build_files :: "(nat \<Rightarrow> u64) \<Rightarrow> (nat \<Rightarrow> u64) \<Rightarrow> (string \<times> u64) list option \<Rightarrow> (string \<times> u64) list option \<Rightarrow> workload_set \<Rightarrow> workload_set" where
  "ws_build_files rand_fill rand_mixed fill_file mixed_file ws =
     (let ws1 = (case fill_file of None \<Rightarrow> ws | Some f \<Rightarrow> ws\<lparr>ws_fill := ws_fill ws @ fst (ws_parse rand_fill 0 f)\<rparr>)
      in case mixed_file of
           None \<Rightarrow> ws1
         | Some f \<Rightarrow> (let (ts, u) = ws_parse rand_mixed 0 f in ws1\<lparr>ws_mixed := ws_mixed ws1 @ ts, ws_contains_update := u\<rparr>))"

text \<open>The values of a counter of width \<open>'a\<close> in a loop up to a 64 bit bound.\<close>

fun count_up :: "nat \<Rightarrow> 'a::len word \<Rightarrow> u64 \<Rightarrow> 'a word list option" where
  "count_up 0 i bound = (if unat i < unat bound then None else Some [])"
| "count_up (Suc fuel) i bound = (if unat i < unat bound then map_option ((#) i) (count_up fuel (i + 1) bound) else Some [])"

fun from_fill :: "numeric_tuple list \<Rightarrow> u64 \<Rightarrow> u32 list \<Rightarrow> u64 list option" where
  "from_fill fill fill_inserts [] = Some []"
| "from_fill fill fill_inserts (i # is) = do {
     t \<leftarrow> (if fill_inserts = 0 then None else arr_get fill (unat i mod unat fill_inserts));
     ks \<leftarrow> from_fill fill fill_inserts is;
     Some (nt_key t # ks)
   }"

definition with_rand :: "(nat \<Rightarrow> u64) \<Rightarrow> nat \<Rightarrow> tuple_type \<Rightarrow> u64 list \<Rightarrow> numeric_tuple list" where
  "with_rand rand k ty keys = map (\<lambda>(j, key). \<lparr>nt_type = ty, nt_key = key, nt_value = rand (k + j)\<rparr>) (enumerate 0 keys)"

definition without_value :: "tuple_type \<Rightarrow> u64 list \<Rightarrow> numeric_tuple list" where
  "without_value ty keys = map (\<lambda>key. \<lparr>nt_type = ty, nt_key = key, nt_value = 0\<rparr>) keys"

definition ws_build :: "nat \<Rightarrow> (nat \<Rightarrow> u64) \<Rightarrow> u64 \<Rightarrow> u64 \<Rightarrow> u64 \<Rightarrow> u64 \<Rightarrow> u64 \<Rightarrow> workload_set \<Rightarrow> workload_set option" where
  "ws_build fuel rand fill_inserts mixed_inserts mixed_lookups mixed_updates mixed_deletes ws = do {
     is \<leftarrow> count_up fuel (0 :: u32) fill_inserts;
     (let fill = ws_fill ws @ with_rand rand 0 INSERT (map (\<lambda>i. ucast (i + 1)) is) in do {
        js \<leftarrow> count_up fuel fill_inserts (fill_inserts + mixed_inserts);
        ls \<leftarrow> count_up fuel (0 :: u32) mixed_lookups;
        lookups \<leftarrow> from_fill fill fill_inserts ls;
        us \<leftarrow> count_up fuel (0 :: u32) mixed_updates;
        updates \<leftarrow> from_fill fill fill_inserts us;
        ds \<leftarrow> count_up fuel (0 :: u32) mixed_deletes;
        deletes \<leftarrow> from_fill fill fill_inserts ds;
        Some \<lparr>ws_fill = fill,
          ws_mixed = ws_mixed ws @ with_rand rand (length is) INSERT (map (\<lambda>i. i + 1) js) @ without_value LOOKUP lookups @
            with_rand rand (length is + length js) UPDATE updates @ without_value DELETE deletes,
          ws_contains_update = (mixed_inserts > 0 \<or> mixed_deletes > 0 \<or> mixed_updates > 0)\<rparr>
      })
   }"

text \<open>nice_print, with the number as a value.\<close>

definition nice_print :: "nat \<Rightarrow> nat \<times> string" where
  "nice_print number =
     (if number \<ge> 1000000 then (number div 1000000, ''m'')
      else if number \<ge> 1000 then (number div 1000, ''k'') else (number, ''''))"

record workload =
  wl_set :: workload_set
  wl_phase :: phase
  wl_index :: u64

definition workload_new :: workload where
  "workload_new = \<lparr>wl_set = workload_set_new, wl_phase = FILL, wl_index = 0\<rparr>"

definition workload_current :: "workload \<Rightarrow> numeric_tuple list" where
  "workload_current w = ws_phase (wl_set w) (wl_phase w)"

definition workload_size :: "workload \<Rightarrow> u64" where
  "workload_size w = of_nat (length (workload_current w))"

definition workload_empty :: "workload \<Rightarrow> phase \<Rightarrow> bool" where
  "workload_empty w p \<longleftrightarrow> ws_phase (wl_set w) p = []"

definition workload_reset :: "phase \<Rightarrow> workload \<Rightarrow> workload" where
  "workload_reset p w = w\<lparr>wl_phase := p, wl_index := 0\<rparr>"

definition workload_next :: "u64 \<Rightarrow> workload \<Rightarrow> (u64 \<times> u64) \<times> workload" where
  "workload_next count w =
     (let index = wl_index w;
          w' = w\<lparr>wl_index := index + count\<rparr>;
          size = workload_size w
      in (if index < size then (index, min count (size - index)) else (- 1, 0), w'))"

definition workload_get :: "workload \<Rightarrow> u64 \<Rightarrow> numeric_tuple option" where
  "workload_get w i = arr_get (workload_current w) (unat i)"

subsection \<open>Core counts\<close>

fun range_loop :: "nat \<Rightarrow> u16 \<Rightarrow> u16 \<Rightarrow> u16 \<Rightarrow> u16 list option" where
  "range_loop 0 count_cores max_count steps = (if count_cores \<le> max_count then None else Some [])"
| "range_loop (Suc fuel) count_cores max_count steps =
     (if count_cores \<le> max_count
      then map_option (\<lambda>cs. if count_cores mod steps = 0 then count_cores # cs else cs) (range_loop fuel (count_cores + 1) max_count steps)
      else Some [])"

definition range_counts :: "nat \<Rightarrow> u16 \<Rightarrow> u16 \<Rightarrow> u16 \<Rightarrow> u16 list option" where
  "range_counts fuel min_cores max_count steps =
     (if min_cores = 0 \<or> min_cores = max_count then Some [max_count]
      else if steps = 0 then None
      else (let (first, cores) = (if min_cores mod steps \<noteq> 0 then ([min_cores], min_cores + 1) else ([], min_cores)) in do {
        cs \<leftarrow> range_loop fuel cores max_count steps;
        Some (first @ cs @ (if max_count mod steps \<noteq> 0 then [max_count] else []))
      }))"

fun build_sets :: "(nat \<Rightarrow> nat) \<Rightarrow> nat \<Rightarrow> core_order \<Rightarrow> u16 list \<Rightarrow> core_set list option" where
  "build_sets node_of count_cores order [] = Some []"
| "build_sets node_of count_cores order (c # cs) = do {
     s \<leftarrow> core_set_build node_of count_cores (unat c) order;
     ss \<leftarrow> build_sets node_of count_cores order cs;
     Some (s # ss)
   }"

record cores =
  co_sets :: "core_set list"
  co_index :: u16

definition add_for_range :: "nat \<Rightarrow> (nat \<Rightarrow> nat) \<Rightarrow> nat \<Rightarrow> u16 \<Rightarrow> u16 \<Rightarrow> u16 \<Rightarrow> core_order \<Rightarrow> cores \<Rightarrow> cores option" where
  "add_for_range fuel node_of count_cores min_cores max_count steps order c = do {
     counts \<leftarrow> range_counts fuel min_cores max_count steps;
     sets \<leftarrow> build_sets node_of count_cores order counts;
     Some (c\<lparr>co_sets := co_sets c @ sets\<rparr>)
   }"

definition cores_of_range :: "nat \<Rightarrow> (nat \<Rightarrow> nat) \<Rightarrow> nat \<Rightarrow> u16 \<Rightarrow> u16 \<Rightarrow> u16 \<Rightarrow> core_order \<Rightarrow> cores option" where
  "cores_of_range fuel node_of count_cores min_cores max_count steps order =
     add_for_range fuel node_of count_cores min_cores max_count steps order \<lparr>co_sets = [], co_index = 0\<rparr>"

definition cores_next :: "cores \<Rightarrow> core_set \<times> cores" where
  "cores_next c =
     (let current_index = unat (co_index c);
          c' = c\<lparr>co_index := co_index c + 1\<rparr>
      in (if current_index < length (co_sets c) then co_sets c ! current_index else core_set_new, c'))"

definition cores_current :: "cores \<Rightarrow> core_set option" where
  "cores_current c = arr_get (co_sets c) (unat (co_index c - 1))"

definition cores_reset :: "cores \<Rightarrow> cores" where
  "cores_reset c = c\<lparr>co_index := 0\<rparr>"

text \<open>std::getline until the end of the text: no token behind a last delimiter.\<close>

fun split_at :: "char \<Rightarrow> string \<Rightarrow> string \<Rightarrow> string list" where
  "split_at d token [] = (if token = [] then [] else [token])"
| "split_at d token (c # cs) = (if c = d then token # split_at d [] cs else split_at d (token @ [c]) cs)"

definition is_digit :: "char \<Rightarrow> bool" where
  "is_digit c \<longleftrightarrow> 48 \<le> (of_char c :: nat) \<and> (of_char c :: nat) \<le> 57"

definition digits_value :: "string \<Rightarrow> nat" where
  "digits_value ds = fold (\<lambda>c n. 10 * n + (of_char c - 48)) ds 0"

datatype cores_error = StoiOutOfRange | CoresFailed

definition stoi :: "string \<Rightarrow> cores_error + u16" where
  "stoi ds = (if digits_value ds < 2 ^ 31 then Inr (of_nat (digits_value ds)) else Inl StoiOutOfRange)"

text \<open>The three regular expressions: the digits before and behind the colon, when the token has one of these forms.\<close>

datatype core_token = SingleCore string | FromCore string | CoreRange string string | OtherToken

definition classify :: "string \<Rightarrow> core_token" where
  "classify token =
     (let ds = takeWhile is_digit token;
          rest = dropWhile is_digit token
      in if ds = [] then OtherToken
         else if rest = [] then SingleCore ds
         else if hd rest = CHR '':'' \<and> tl rest = [] then FromCore ds
         else if hd rest = CHR '':'' \<and> list_all is_digit (tl rest) then CoreRange ds (tl rest)
         else OtherToken)"

definition token_range :: "nat \<Rightarrow> string \<Rightarrow> cores_error + (u16 \<times> u16) option" where
  "token_range count_cores token =
     (case classify token of
        SingleCore ds \<Rightarrow> (case stoi ds of Inl e \<Rightarrow> Inl e | Inr n \<Rightarrow> Inr (Some (n, n)))
      | FromCore ds \<Rightarrow> (case stoi ds of Inl e \<Rightarrow> Inl e | Inr n \<Rightarrow> Inr (Some (n, of_nat count_cores)))
      | CoreRange ds es \<Rightarrow> (case (stoi ds, stoi es) of (Inr m, Inr n) \<Rightarrow> Inr (Some (m, n)) | _ \<Rightarrow> Inl StoiOutOfRange)
      | OtherToken \<Rightarrow> Inr None)"

fun cores_add_tokens :: "nat \<Rightarrow> (nat \<Rightarrow> nat) \<Rightarrow> nat \<Rightarrow> u16 \<Rightarrow> core_order \<Rightarrow> string list \<Rightarrow> cores \<Rightarrow> cores_error + cores" where
  "cores_add_tokens fuel node_of count_cores steps order [] c = Inr c"
| "cores_add_tokens fuel node_of count_cores steps order (token # tokens) c =
     (case token_range count_cores token of
        Inl e \<Rightarrow> Inl e
      | Inr None \<Rightarrow> cores_add_tokens fuel node_of count_cores steps order tokens c
      | Inr (Some (m, n)) \<Rightarrow> (case add_for_range fuel node_of count_cores m n steps order c of
          None \<Rightarrow> Inl CoresFailed
        | Some c' \<Rightarrow> cores_add_tokens fuel node_of count_cores steps order tokens c'))"

definition cores_of_string :: "nat \<Rightarrow> (nat \<Rightarrow> nat) \<Rightarrow> nat \<Rightarrow> string \<Rightarrow> u16 \<Rightarrow> core_order \<Rightarrow> cores_error + cores" where
  "cores_of_string fuel node_of count_cores text steps order =
     cores_add_tokens fuel node_of count_cores steps order (split_at (CHR '';'') [] text) \<lparr>co_sets = [], co_index = 0\<rparr>"

subsection \<open>The configurations of the benchmarks\<close>

record tree_benchmark =
  tb_cores :: cores
  tb_iterations :: u16
  tb_current_iteration :: u16
  tb_workload :: workload

definition tree_core_set :: "tree_benchmark \<Rightarrow> (core_set \<times> tree_benchmark) option" where
  "tree_core_set b =
     (if tb_current_iteration b = - 1
      then (let (cs, c) = cores_next (tb_cores b) in Some (cs, b\<lparr>tb_current_iteration := 0, tb_cores := c\<rparr>))
      else if wl_phase (tb_workload b) = FILL \<and> \<not> workload_empty (tb_workload b) MIXED
      then map_option (\<lambda>cs. (cs, b\<lparr>tb_workload := workload_reset MIXED (tb_workload b)\<rparr>)) (cores_current (tb_cores b))
      else (let b1 = b\<lparr>tb_workload := workload_reset FILL (tb_workload b), tb_current_iteration := tb_current_iteration b + 1\<rparr>
            in if tb_current_iteration b1 < tb_iterations b1
               then map_option (\<lambda>cs. (cs, b1)) (cores_current (tb_cores b1))
               else (let (cs, c) = cores_next (tb_cores b1) in Some (cs, b1\<lparr>tb_current_iteration := 0, tb_cores := c\<rparr>))))"

text \<open>The hash join: \<open>jb_batches\<close> is the number of batch sizes; the deletion of the hash tables is left out.\<close>

record join_benchmark =
  jb_cores :: cores
  jb_iterations :: u16
  jb_current_iteration :: u16
  jb_batches :: nat
  jb_batch_index :: u16

definition join_core_set :: "join_benchmark \<Rightarrow> (core_set \<times> join_benchmark) option" where
  "join_core_set b =
     (if jb_current_iteration b = - 1
      then (let (cs, c) = cores_next (jb_cores b) in Some (cs, b\<lparr>jb_current_iteration := 0, jb_cores := c\<rparr>))
      else (let b1 = b\<lparr>jb_current_iteration := jb_current_iteration b + 1\<rparr>
            in if jb_current_iteration b1 < jb_iterations b1
               then map_option (\<lambda>cs. (cs, b1)) (cores_current (jb_cores b1))
               else (let b2 = b1\<lparr>jb_current_iteration := 0, jb_batch_index := jb_batch_index b1 + 1\<rparr>
                     in if unat (jb_batch_index b2) < jb_batches b2
                        then map_option (\<lambda>cs. (cs, b2)) (cores_current (jb_cores b2))
                        else (let (cs, c) = cores_next (jb_cores b2) in Some (cs, b2\<lparr>jb_batch_index := 0, jb_cores := c\<rparr>)))))"

text \<open>The loop of the two main programs: one runtime per core set, until the set is empty.\<close>

fun main_loop :: "nat \<Rightarrow> ('b \<Rightarrow> (core_set \<times> 'b) option) \<Rightarrow> 'b \<Rightarrow> (core_set \<times> 'b) list option" where
  "main_loop 0 next b = None"
| "main_loop (Suc fuel) next b = do {
     (cs, b') \<leftarrow> next b;
     (if cs_size cs > 0 then map_option ((#) (cs, b')) (main_loop fuel next b') else Some [])
   }"

subsection \<open>Loops with narrow counters\<close>

lemma unat_Suc_word: "unat (i :: 'a::len word) + 1 < 2 ^ LENGTH('a) \<Longrightarrow> unat (i + 1) = unat i + 1"
  by (simp add: unat_word_ariths)

lemma count_up_eq:
  assumes "unat bound < 2 ^ LENGTH('a::len)" "unat bound \<le> unat i + fuel"
  shows "count_up fuel (i :: 'a word) bound = Some (map of_nat [unat i..<unat bound])"
  using assms(2)
proof (induction fuel arbitrary: i)
  case (Suc fuel)
  show ?case
  proof (cases "unat i < unat bound")
    case True
    then have "unat (i + 1) = unat i + 1" using assms(1) by (intro unat_Suc_word) simp
    then show ?thesis using Suc True by (simp add: upt_conv_Cons)
  qed simp
qed simp

text \<open>A counter that is too narrow for the bound never reaches it.\<close>

lemma count_up_never_ends: "2 ^ LENGTH('a::len) \<le> unat bound \<Longrightarrow> count_up fuel (i :: 'a word) bound = None"
proof (induction fuel arbitrary: i)
  case 0
  have "unat i < unat bound" by (rule less_le_trans [OF unsigned_less 0])
  then show ?case by simp
next
  case (Suc fuel)
  have "unat i < unat bound" by (rule less_le_trans [OF unsigned_less Suc.prems])
  with Suc show ?case by simp
qed

lemma fill_over_32_bit_never_ends:
  "2 ^ 32 \<le> unat fill_inserts \<Longrightarrow> ws_build fuel rand fill_inserts mixed_inserts mixed_lookups mixed_updates mixed_deletes ws = None"
  by (simp add: ws_build_def count_up_never_ends)

lemma below_largest_u16: "w < (- 1 :: u16) \<Longrightarrow> unat w < 65535"
  by (simp add: word_less_nat_alt unsigned_minus_1_eq_mask mask_eq_exp_minus_1)

lemma range_loop_eq:
  assumes "max_count < - 1" "unat max_count < unat c + fuel"
  shows "range_loop fuel c max_count steps = Some (map of_nat (filter (\<lambda>n. (of_nat n :: u16) mod steps = 0) [unat c..<unat max_count + 1]))"
  using assms(2)
proof (induction fuel arbitrary: c)
  case 0
  then show ?case by (simp add: word_le_nat_alt)
next
  case (Suc fuel)
  have m: "unat max_count < 65535" by (rule below_largest_u16 [OF assms(1)])
  show ?case
  proof (cases "c \<le> max_count")
    case True
    then have le: "unat c \<le> unat max_count" by (simp add: word_le_nat_alt)
    then have "unat (c + 1) = unat c + 1" using m by (intro unat_Suc_word) simp
    then show ?thesis using Suc True le by (simp add: upt_conv_Cons del: upt_Suc)
  qed (simp add: word_le_nat_alt)
qed

lemma range_loop_never_ends: "range_loop fuel c (- 1) steps = None"
  by (induction fuel arbitrary: c) simp_all

lemma in_words_of_nats: "\<forall>n \<in> set ns. n < 2 ^ LENGTH('a) \<Longrightarrow> c \<in> set (map of_nat ns :: 'a::len word list) \<longleftrightarrow> unat c \<in> set ns"
  by (induction ns) (auto simp: unsigned_of_nat take_bit_nat_eq_self_iff)

lemma word_of_nat_of_unat: "(of_nat (unat w) :: 'a::len word) = w"
  by simp

text \<open>
  The core counts of a range: the two ends and the multiples of the step between them, in ascending order
  and none twice.
\<close>

lemma range_counts_ok:
  assumes "0 < min_cores" "min_cores < max_count" "max_count < - 1" "steps \<noteq> 0" "unat max_count < fuel"
  shows "\<exists>cs. range_counts fuel min_cores max_count steps = Some cs \<and> sorted (map unat cs) \<and> distinct cs \<and>
    set cs = {c. min_cores \<le> c \<and> c \<le> max_count \<and> (c = min_cores \<or> c = max_count \<or> c mod steps = 0)}"
proof -
  let ?P = "\<lambda>n. (of_nat n :: u16) mod steps = 0"
  have m: "unat max_count < 65535" by (rule below_largest_u16 [OF assms(3)])
  have lt: "unat min_cores < unat max_count" using assms(2) by (simp only: word_less_nat_alt)
  have suc: "unat (min_cores + 1) = unat min_cores + 1" using m lt by (intro unat_Suc_word) simp
  have id: "map unat (map of_nat ns :: u16 list) = ns" if "\<forall>n \<in> set ns. n < 65536" for ns
    using that by (simp add: map_idI unat_of_nat)
  define ns where "ns = (if min_cores mod steps \<noteq> 0 then [unat min_cores] else []) @
    filter ?P [unat min_cores + (if min_cores mod steps \<noteq> 0 then 1 else 0)..<unat max_count + 1] @
    (if max_count mod steps \<noteq> 0 then [unat max_count] else [])"
  have small: "\<forall>n \<in> set ns. n < 65536" using m lt by (auto simp: ns_def)
  have filtered: "sorted (filter ?P [a..<b])" for a b by (rule sorted_wrt_filter) simp
  have sorted: "sorted ns" "distinct ns" using lt by (auto simp: ns_def sorted_append filtered)
  have "set ns = {n. unat min_cores \<le> n \<and> n \<le> unat max_count \<and> (n = unat min_cores \<or> n = unat max_count \<or> ?P n)}"
    using lt by (auto simp: ns_def simp del: upt_Suc del: mod_0_imp_dvd)
  moreover have "c \<in> set (map of_nat ns :: u16 list) \<longleftrightarrow> unat c \<in> set ns" for c :: u16
    by (rule in_words_of_nats) (use small in simp)
  ultimately have "set (map of_nat ns :: u16 list) = {c. min_cores \<le> c \<and> c \<le> max_count \<and> (c = min_cores \<or> c = max_count \<or> c mod steps = 0)}"
    by (simp only: set_eq_iff mem_Collect_eq word_le_nat_alt word_unat_eq_iff word_of_nat_of_unat simp_thms)
  moreover have "range_counts fuel min_cores max_count steps = Some (map of_nat ns)"
  proof -
    have ne: "min_cores \<noteq> 0" "min_cores \<noteq> max_count" using assms(1,2) by simp_all
    have "range_loop fuel c max_count steps = Some (map of_nat (filter ?P [unat c..<unat max_count + 1]))" for c
      by (rule range_loop_eq) (use assms(3,5) in simp_all)
    then show ?thesis using ne assms(4) suc
      by (simp add: range_counts_def ns_def del: upt_Suc)
  qed
  moreover have "distinct (map of_nat ns :: u16 list)"
    by (rule distinct_map [THEN iffD1, THEN conjunct1, of unat]) (simp only: id [OF small] sorted)
  ultimately show ?thesis using sorted id [OF small] by (intro exI [of _ "map of_nat ns"]) simp
qed

subsection \<open>Every configuration is run\<close>

text \<open>
  The contract of core_set(): the benchmark goes through three nested counters, the core sets outside and the two
  counters of the benchmark inside, and then answers with an empty set. \<open>at ss m n k i j\<close> is the state in which
  core set \<open>k\<close> of \<open>ss\<close> is run with the inner counters \<open>i\<close> and \<open>j\<close>.
\<close>

locale configuration_order =
  fixes next_set :: "'b \<Rightarrow> (core_set \<times> 'b) option"
    and at :: "core_set list \<Rightarrow> nat \<Rightarrow> nat \<Rightarrow> nat \<Rightarrow> nat \<Rightarrow> nat \<Rightarrow> 'b \<Rightarrow> bool"
    and seen :: "'b \<Rightarrow> 'r"
    and position :: "nat \<Rightarrow> nat \<Rightarrow> 'r"
  assumes inner: "at ss m n k i j b \<Longrightarrow> j + 1 < n \<Longrightarrow> \<exists>b'. next_set b = Some (ss ! k, b') \<and> at ss m n k i (j + 1) b'"
    and outer: "at ss m n k i j b \<Longrightarrow> j + 1 = n \<Longrightarrow> i + 1 < m \<Longrightarrow> \<exists>b'. next_set b = Some (ss ! k, b') \<and> at ss m n k (i + 1) 0 b'"
    and more_cores: "at ss m n k i j b \<Longrightarrow> j + 1 = n \<Longrightarrow> i + 1 = m \<Longrightarrow> k + 1 < length ss \<Longrightarrow>
      \<exists>b'. next_set b = Some (ss ! (k + 1), b') \<and> at ss m n (k + 1) 0 0 b'"
    and no_more: "at ss m n k i j b \<Longrightarrow> j + 1 = n \<Longrightarrow> i + 1 = m \<Longrightarrow> k + 1 = length ss \<Longrightarrow> \<exists>b'. next_set b = Some (core_set_new, b')"
    and seen: "at ss m n k i j b \<Longrightarrow> seen b = position i j"
    and bounds: "at ss m n k i j b \<Longrightarrow> k < length ss \<and> i < m \<and> j < n"
begin

definition inner_rest :: "core_set \<Rightarrow> nat \<Rightarrow> nat \<Rightarrow> nat \<Rightarrow> (core_set \<times> 'r) list" where
  "inner_rest s n i j = map (\<lambda>j. (s, position i j)) [j..<n]"

definition outer_rest :: "core_set \<Rightarrow> nat \<Rightarrow> nat \<Rightarrow> nat \<Rightarrow> (core_set \<times> 'r) list" where
  "outer_rest s m n i = concat (map (\<lambda>i. inner_rest s n i 0) [i..<m])"

definition rest :: "core_set list \<Rightarrow> nat \<Rightarrow> nat \<Rightarrow> nat \<Rightarrow> nat \<Rightarrow> nat \<Rightarrow> (core_set \<times> 'r) list" where
  "rest ss m n k i j = inner_rest (ss ! k) n i j @ outer_rest (ss ! k) m n (i + 1) @ concat (map (\<lambda>s. outer_rest s m n 0) (drop (k + 1) ss))"

lemma inner_rest_step: "j < n \<Longrightarrow> inner_rest s n i j = (s, position i j) # inner_rest s n i (j + 1)"
  by (simp add: inner_rest_def upt_conv_Cons)

lemma inner_rest_end: "inner_rest s n i n = []"
  by (simp add: inner_rest_def)

lemma outer_rest_step: "i < m \<Longrightarrow> outer_rest s m n i = inner_rest s n i 0 @ outer_rest s m n (i + 1)"
  by (simp add: outer_rest_def upt_conv_Cons)

lemma outer_rest_end: "outer_rest s m n m = []"
  by (simp add: outer_rest_def)

lemma rest_all: "0 < m \<Longrightarrow> concat (map (\<lambda>s. outer_rest s m n 0) (s # ss)) = rest (s # ss) m n 0 0 0"
  by (simp add: rest_def outer_rest_step)

lemma rest_cases:
  assumes "at ss m n k i j b"
  shows "rest ss m n k i j = (ss ! k, position i j) #
    (if j + 1 < n then rest ss m n k i (j + 1) else if i + 1 < m then rest ss m n k (i + 1) 0
     else if k + 1 < length ss then rest ss m n (k + 1) 0 0 else [])"
proof -
  have lt: "k < length ss" "i < m" "j < n" using bounds [OF assms] by auto
  have j: "j + 1 < n \<or> j + 1 = n" and i: "i + 1 < m \<or> i + 1 = m" and k: "k + 1 < length ss \<or> k + 1 = length ss"
    using lt by linarith+
  have cores: "drop (Suc k) ss = ss ! Suc k # drop (Suc (Suc k)) ss" if "Suc k < length ss"
    using Cons_nth_drop_Suc [of "Suc k" ss] that by simp
  show ?thesis
  proof (cases "j + 1 < n")
    case True
    then show ?thesis using lt by (simp add: rest_def inner_rest_step)
  next
    case False
    then have j': "inner_rest (ss ! k) n i j = [(ss ! k, position i j)]"
      using j inner_rest_step [OF lt(3)] inner_rest_end by auto
    show ?thesis
    proof (cases "i + 1 < m")
      case True
      then show ?thesis using False by (simp add: rest_def j' outer_rest_step [of "Suc i"])
    next
      case nz: False
      then have i': "outer_rest (ss ! k) m n (Suc i) = []" using i outer_rest_end by auto
      show ?thesis
      proof (cases "k + 1 < length ss")
        case True
        have "0 < m" using lt by simp
        then show ?thesis using False nz True by (simp add: rest_def j' i' cores outer_rest_step [of 0])
      next
        case last: False
        then show ?thesis using False nz by (simp add: rest_def j' i')
      qed
    qed
  qed
qed

lemma next_cases:
  assumes "at ss m n k i j b"
  shows "\<exists>k' i' j' b'. rest ss m n k i j = (ss ! k, position i j) # rest ss m n k' i' j' \<and> next_set b = Some (ss ! k', b') \<and>
      at ss m n k' i' j' b' \<or> rest ss m n k i j = [(ss ! k, position i j)] \<and> next_set b = Some (core_set_new, b')"
proof -
  have lt: "k < length ss" "i < m" "j < n" using bounds [OF assms] by auto
  consider "j + 1 < n" | "j + 1 = n" "i + 1 < m" | "j + 1 = n" "i + 1 = m" "k + 1 < length ss"
    | "j + 1 = n" "i + 1 = m" "k + 1 = length ss"
    using lt by linarith
  then show ?thesis
  proof cases
    case 1
    then show ?thesis using inner [OF assms] rest_cases [OF assms] by auto
  next
    case 2
    then show ?thesis using outer [OF assms] rest_cases [OF assms] by auto
  next
    case 3
    then show ?thesis using more_cores [OF assms] rest_cases [OF assms] by auto
  next
    case 4
    then show ?thesis using no_more [OF assms] rest_cases [OF assms] by auto
  qed
qed

text \<open>The whole loop, from the first core set on.\<close>

lemma loop_rest:
  assumes "\<forall>s \<in> set ss. cs_size s > 0"
  shows "at ss m n k i j b \<Longrightarrow> length (rest ss m n k i j) \<le> fuel \<Longrightarrow>
    \<exists>tr. main_loop fuel next_set b = Some tr \<and> (ss ! k, position i j) # map (\<lambda>(s, b). (s, seen b)) tr = rest ss m n k i j"
proof (induction fuel arbitrary: k i j b)
  case 0
  then show ?case using rest_cases by fastforce
next
  case (Suc fuel)
  obtain k' i' j' b' where c: "rest ss m n k i j = (ss ! k, position i j) # rest ss m n k' i' j' \<and>
      next_set b = Some (ss ! k', b') \<and> at ss m n k' i' j' b' \<or>
      rest ss m n k i j = [(ss ! k, position i j)] \<and> next_set b = Some (core_set_new, b')"
    using next_cases [OF Suc.prems(1)] by blast
  then show ?case
  proof (elim disjE conjE)
    assume r: "rest ss m n k i j = (ss ! k, position i j) # rest ss m n k' i' j'" and n: "next_set b = Some (ss ! k', b')"
      and a: "at ss m n k' i' j' b'"
    obtain tr where tr: "main_loop fuel next_set b' = Some tr"
        "(ss ! k', position i' j') # map (\<lambda>(s, b). (s, seen b)) tr = rest ss m n k' i' j'"
      using Suc.IH [OF a] Suc.prems(2) r by auto
    have "cs_size (ss ! k') > 0" using assms bounds [OF a] by simp
    then show ?thesis using r n tr seen [OF a] by simp
  qed (simp add: core_set_new_def)
qed

lemma length_concat_const: "\<forall>x \<in> set xs. length (f x) = c \<Longrightarrow> length (concat (map f xs)) = length xs * c"
  by (induction xs) auto

lemma length_outer_rest: "length (outer_rest s m n 0) = m * n"
  using length_concat_const [of "[0..<m]" "\<lambda>i. inner_rest s n i 0" n] by (simp add: outer_rest_def inner_rest_def)

lemma length_all: "length (concat (map (\<lambda>s. outer_rest s m n 0) ss)) = length ss * (m * n)"
  by (rule length_concat_const) (simp add: length_outer_rest)

lemma loop_all:
  assumes "\<forall>s \<in> set ss. cs_size s > 0" "ss \<noteq> []" "next_set b = Some (ss ! 0, b')" "at ss m n 0 0 0 b'" "length ss * (m * n) < fuel"
  shows "\<exists>tr. main_loop fuel next_set b = Some tr \<and> map (\<lambda>(s, b). (s, seen b)) tr = concat (map (\<lambda>s. outer_rest s m n 0) ss)"
proof -
  have "0 < m" using bounds [OF assms(4)] by simp
  with assms(2) have all: "rest ss m n 0 0 0 = concat (map (\<lambda>s. outer_rest s m n 0) ss)"
    by (cases ss) (simp_all only: rest_all, simp)
  obtain f where f: "fuel = Suc f" "length ss * (m * n) \<le> f" using assms(5) by (cases fuel) auto
  then have "length (rest ss m n 0 0 0) \<le> f" by (simp only: all length_all)
  then obtain tr where tr: "main_loop f next_set b' = Some tr" "(ss ! 0, position 0 0) # map (\<lambda>(s, b). (s, seen b)) tr = rest ss m n 0 0 0"
    using loop_rest [OF assms(1,4)] by auto
  have "cs_size (ss ! 0) > 0" using assms(1,2) by simp
  with f(1) assms(3) tr seen [OF assms(4)] show ?thesis by (simp add: all)
qed

end

text \<open>The positions of the benchmark of the tree: iteration and phase.\<close>

definition tree_at :: "core_set list \<Rightarrow> nat \<Rightarrow> nat \<Rightarrow> nat \<Rightarrow> nat \<Rightarrow> nat \<Rightarrow> tree_benchmark \<Rightarrow> bool" where
  "tree_at ss m n k i j b \<longleftrightarrow> k < length ss \<and> i < m \<and> j < n \<and> length ss < 65536 \<and> m = max 1 (unat (tb_iterations b)) \<and>
     n = (if workload_empty (tb_workload b) MIXED then 1 else 2) \<and> co_sets (tb_cores b) = ss \<and> co_index (tb_cores b) = of_nat (k + 1) \<and>
     tb_current_iteration b = of_nat i \<and> wl_phase (tb_workload b) = (if j = 0 then FILL else MIXED)"

definition tree_position :: "nat \<Rightarrow> nat \<Rightarrow> u16 \<times> phase" where
  "tree_position i j = (of_nat i, if j = 0 then FILL else MIXED)"

definition tree_seen :: "tree_benchmark \<Rightarrow> u16 \<times> phase" where
  "tree_seen b = (tb_current_iteration b, wl_phase (tb_workload b))"

text \<open>The positions of the hash join: batch size and iteration.\<close>

definition join_at :: "core_set list \<Rightarrow> nat \<Rightarrow> nat \<Rightarrow> nat \<Rightarrow> nat \<Rightarrow> nat \<Rightarrow> join_benchmark \<Rightarrow> bool" where
  "join_at ss m n k i j b \<longleftrightarrow> k < length ss \<and> i < m \<and> j < n \<and> length ss < 65536 \<and> m < 65536 \<and> m = max 1 (jb_batches b) \<and>
     n = max 1 (unat (jb_iterations b)) \<and> co_sets (jb_cores b) = ss \<and> co_index (jb_cores b) = of_nat (k + 1) \<and>
     jb_current_iteration b = of_nat j \<and> jb_batch_index b = of_nat i"

definition join_position :: "nat \<Rightarrow> nat \<Rightarrow> u16 \<times> u16" where
  "join_position i j = (of_nat i, of_nat j)"

definition join_seen :: "join_benchmark \<Rightarrow> u16 \<times> u16" where
  "join_seen b = (jb_batch_index b, jb_current_iteration b)"

lemma u16_small: "n < 65536 \<Longrightarrow> unat (of_nat n :: u16) = n"
  by (simp add: unsigned_of_nat take_bit_nat_eq_self_iff)

lemma u16_le: "unat (w :: u16) \<le> 65535"
proof -
  have "unat w < 2 ^ LENGTH(16)" by (rule unsigned_less)
  then show ?thesis by simp
qed

lemma u16_not_max: "n < 65535 \<Longrightarrow> (of_nat n :: u16) \<noteq> - 1"
  using u16_small [of n] by (auto simp: unsigned_minus_1_eq_mask mask_eq_exp_minus_1)

lemma cores_next_at:
  "co_index c = of_nat k \<Longrightarrow> k < 65536 \<Longrightarrow>
   cores_next c = (if k < length (co_sets c) then co_sets c ! k else core_set_new, c\<lparr>co_index := of_nat (k + 1)\<rparr>)"
  by (simp add: cores_next_def Let_def u16_small add.commute)

lemma cores_current_at:
  "co_index c = of_nat (k + 1) \<Longrightarrow> k < length (co_sets c) \<Longrightarrow> k < 65536 \<Longrightarrow> cores_current c = Some (co_sets c ! k)"
  by (simp add: cores_current_def u16_small arr_get_def)

lemma u16_step: "i < max 1 (unat (m :: u16)) \<Longrightarrow> (of_nat i + 1 < m) = (i + 1 < max 1 (unat m))"
  using u16_le [of m] u16_small [of "i + 1"] by (auto simp add: word_less_nat_alt add.commute)

lemma u16_counter: "i < max 1 (unat (m :: u16)) \<Longrightarrow> (of_nat i :: u16) \<noteq> - 1"
  using u16_le [of m] by (intro u16_not_max) simp

lemma tree_step_mixed:
  assumes "tree_at ss m n k i j b" "j + 1 < n"
  shows "\<exists>b'. tree_core_set b = Some (ss ! k, b') \<and> tree_at ss m n k i (j + 1) b'"
proof -
  have i: "(of_nat i :: u16) \<noteq> - 1" using assms(1) by (intro u16_counter [of i "tb_iterations b"]) (simp add: tree_at_def)
  have j: "j = 0" and e: "\<not> workload_empty (tb_workload b) MIXED" using assms by (auto simp: tree_at_def split: if_splits)
  have "cores_current (tb_cores b) = Some (ss ! k)"
    using assms(1) cores_current_at [of "tb_cores b" k] by (simp add: tree_at_def)
  with assms i j e show ?thesis
    by (simp add: tree_core_set_def tree_at_def workload_reset_def workload_empty_def)
qed

text \<open>Behind the last phase the next iteration is run, and behind the last iteration the next core set.\<close>

lemma tree_core_set_last_phase:
  assumes "tree_at ss m n k i j b" "j + 1 = n"
  shows "tree_core_set b =
    (let b1 = b\<lparr>tb_workload := workload_reset FILL (tb_workload b), tb_current_iteration := of_nat (i + 1)\<rparr>
     in if i + 1 < m then Some (ss ! k, b1)
        else Some (if k + 1 < length ss then ss ! (k + 1) else core_set_new,
          b1\<lparr>tb_current_iteration := 0, tb_cores := (tb_cores b)\<lparr>co_index := of_nat (k + 2)\<rparr>\<rparr>))"
proof -
  have i: "(of_nat i :: u16) \<noteq> - 1" using assms(1) by (intro u16_counter [of i "tb_iterations b"]) (simp add: tree_at_def)
  have step: "(of_nat i + 1 < tb_iterations b) = (i + 1 < m)"
    using assms(1) u16_step [of i "tb_iterations b"] by (simp add: tree_at_def)
  have last: "\<not> (wl_phase (tb_workload b) = FILL \<and> \<not> workload_empty (tb_workload b) MIXED)"
    using assms by (auto simp: tree_at_def split: if_splits)
  have cur: "cores_current (tb_cores b) = Some (ss ! k)"
    using assms(1) cores_current_at [of "tb_cores b" k] by (simp add: tree_at_def)
  have nxt: "cores_next (tb_cores b) = (if k + 1 < length ss then ss ! (k + 1) else core_set_new, (tb_cores b)\<lparr>co_index := of_nat (k + 2)\<rparr>)"
    using assms(1) cores_next_at [of "tb_cores b" "k + 1"] by (simp add: tree_at_def)
  have now: "tb_current_iteration b = of_nat i" using assms(1) by (simp add: tree_at_def)
  show ?thesis
    using i step last cur nxt now by (auto simp add: tree_core_set_def Let_def add.commute)
qed

lemmas tree_phase_simps = tree_at_def workload_reset_def workload_empty_def

interpretation tree_order: configuration_order tree_core_set tree_at tree_seen tree_position
proof
  fix ss m n k i j b
  assume at: "tree_at ss m n k i j b"
  show "k < length ss \<and> i < m \<and> j < n" "tree_seen b = tree_position i j"
    using at by (simp_all add: tree_at_def tree_seen_def tree_position_def)
  show "\<exists>b'. tree_core_set b = Some (ss ! k, b') \<and> tree_at ss m n k i (j + 1) b'" if "j + 1 < n"
    using at that by (rule tree_step_mixed)
  assume j: "j + 1 = n"
  note last = tree_core_set_last_phase [OF at j]
  show "\<exists>b'. tree_core_set b = Some (ss ! k, b') \<and> tree_at ss m n k (i + 1) 0 b'" if "i + 1 < m"
    using last at that by (auto simp: tree_phase_simps Let_def)
  assume i: "i + 1 = m"
  show "\<exists>b'. tree_core_set b = Some (ss ! (k + 1), b') \<and> tree_at ss m n (k + 1) 0 0 b'" if "k + 1 < length ss"
    using last at that i by (auto simp: tree_phase_simps Let_def)
  show "\<exists>b'. tree_core_set b = Some (core_set_new, b')" if "k + 1 = length ss"
    using last that i by (simp add: Let_def)
qed

lemma join_core_set_at:
  assumes "join_at ss m n k i j b"
  shows "join_core_set b =
    (let b1 = b\<lparr>jb_current_iteration := of_nat (j + 1)\<rparr>; b2 = b\<lparr>jb_current_iteration := 0, jb_batch_index := of_nat (i + 1)\<rparr>
     in if j + 1 < n then Some (ss ! k, b1)
        else if i + 1 < m then Some (ss ! k, b2)
        else Some (if k + 1 < length ss then ss ! (k + 1) else core_set_new,
          b2\<lparr>jb_batch_index := 0, jb_cores := (jb_cores b)\<lparr>co_index := of_nat (k + 2)\<rparr>\<rparr>))"
proof -
  have j: "(of_nat j :: u16) \<noteq> - 1" using assms by (intro u16_counter [of j "jb_iterations b"]) (simp add: join_at_def)
  have step: "(of_nat j + 1 < jb_iterations b) = (j + 1 < n)"
    using assms u16_step [of j "jb_iterations b"] by (simp add: join_at_def)
  have cur: "cores_current (jb_cores b) = Some (ss ! k)"
    using assms cores_current_at [of "jb_cores b" k] by (simp add: join_at_def)
  have nxt: "cores_next (jb_cores b) = (if k + 1 < length ss then ss ! (k + 1) else core_set_new, (jb_cores b)\<lparr>co_index := of_nat (k + 2)\<rparr>)"
    using assms cores_next_at [of "jb_cores b" "k + 1"] by (simp add: join_at_def)
  have batch: "unat (of_nat i + 1 :: u16) < jb_batches b \<longleftrightarrow> i + 1 < m"
    using assms u16_small [of "i + 1"] by (auto simp: join_at_def add.commute)
  have now: "jb_current_iteration b = of_nat j" "jb_batch_index b = of_nat i" using assms by (simp_all add: join_at_def)
  show ?thesis
    using j step cur nxt batch now by (simp add: join_core_set_def Let_def add.commute)
qed

interpretation join_order: configuration_order join_core_set join_at join_seen join_position
proof
  fix ss m n k i j b
  assume at: "join_at ss m n k i j b"
  note nxt = join_core_set_at [OF at]
  show "k < length ss \<and> i < m \<and> j < n" "join_seen b = join_position i j"
    using at by (simp_all add: join_at_def join_seen_def join_position_def)
  show "\<exists>b'. join_core_set b = Some (ss ! k, b') \<and> join_at ss m n k i (j + 1) b'" if "j + 1 < n"
    using nxt at that by (auto simp: join_at_def Let_def)
  assume j: "j + 1 = n"
  show "\<exists>b'. join_core_set b = Some (ss ! k, b') \<and> join_at ss m n k (i + 1) 0 b'" if "i + 1 < m"
    using nxt at j that by (auto simp: join_at_def Let_def)
  assume i: "i + 1 = m"
  show "\<exists>b'. join_core_set b = Some (ss ! (k + 1), b') \<and> join_at ss m n (k + 1) 0 0 b'" if "k + 1 < length ss"
    using nxt at j i that by (auto simp: join_at_def Let_def)
  show "\<exists>b'. join_core_set b = Some (core_set_new, b')" if "k + 1 = length ss"
    using nxt j i that by (simp add: Let_def)
qed

text \<open>
  C18: the main program of the B-link tree benchmark runs, for every core set of the command line in their order
  and for every iteration, the fill phase and then (when there is a mixed workload) the mixed phase, each of
  them exactly once, and then ends. It holds for up to 65535 core sets of at least one core.
\<close>

theorem tree_benchmark_runs_every_configuration:
  assumes "co_sets (tb_cores b) \<noteq> []" "length (co_sets (tb_cores b)) < 65536" "\<forall>s \<in> set (co_sets (tb_cores b)). cs_size s > 0"
    "co_index (tb_cores b) = 0" "tb_current_iteration b = - 1" "wl_phase (tb_workload b) = FILL"
    "phases = (if workload_empty (tb_workload b) MIXED then [FILL] else [FILL, MIXED])"
    "length (co_sets (tb_cores b)) * (max 1 (unat (tb_iterations b)) * length phases) < fuel"
  shows "\<exists>tr. main_loop fuel tree_core_set b = Some tr \<and>
    map (\<lambda>(s, b). (s, tb_current_iteration b, wl_phase (tb_workload b))) tr =
    concat (map (\<lambda>s. concat (map (\<lambda>i. map (\<lambda>p. (s, of_nat i, p)) phases) [0..<max 1 (unat (tb_iterations b))])) (co_sets (tb_cores b)))"
proof -
  let ?ss = "co_sets (tb_cores b)" and ?m = "max 1 (unat (tb_iterations b))"
  let ?b = "b\<lparr>tb_current_iteration := 0, tb_cores := (tb_cores b)\<lparr>co_index := 1\<rparr>\<rparr>"
  have first: "tree_core_set b = Some (?ss ! 0, ?b)" "tree_at ?ss ?m (length phases) 0 0 0 ?b"
    using assms by (auto simp: tree_core_set_def cores_next_def tree_at_def Let_def)
  have "map (\<lambda>j. (s, tree_position i j)) [0..<length phases] = map (\<lambda>p. (s, of_nat i, p)) phases" for s :: core_set and i
    using assms(7) by (auto simp: tree_position_def)
  then show ?thesis
    using tree_order.loop_all [OF assms(3,1) first assms(8)]
    by (simp add: tree_order.outer_rest_def tree_order.inner_rest_def tree_seen_def)
qed

lemma join_benchmark_runs_every_configuration:
  assumes "co_sets (jb_cores b) \<noteq> []" "length (co_sets (jb_cores b)) < 65536" "\<forall>s \<in> set (co_sets (jb_cores b)). cs_size s > 0"
    "co_index (jb_cores b) = 0" "jb_current_iteration b = - 1" "jb_batch_index b = 0" "jb_batches b < 65536"
    "length (co_sets (jb_cores b)) * (max 1 (jb_batches b) * max 1 (unat (jb_iterations b))) < fuel"
  shows "\<exists>tr. main_loop fuel join_core_set b = Some tr \<and>
    map (\<lambda>(s, b). (s, jb_batch_index b, jb_current_iteration b)) tr =
    concat (map (\<lambda>s. concat (map (\<lambda>i. map (\<lambda>j. (s, of_nat i, of_nat j)) [0..<max 1 (unat (jb_iterations b))]) [0..<max 1 (jb_batches b)]))
      (co_sets (jb_cores b)))"
proof -
  let ?ss = "co_sets (jb_cores b)" and ?m = "max 1 (jb_batches b)" and ?n = "max 1 (unat (jb_iterations b))"
  let ?b = "b\<lparr>jb_current_iteration := 0, jb_cores := (jb_cores b)\<lparr>co_index := 1\<rparr>\<rparr>"
  have first: "join_core_set b = Some (?ss ! 0, ?b)" "join_at ?ss ?m ?n 0 0 0 ?b"
    using assms by (auto simp: join_core_set_def cores_next_def join_at_def Let_def)
  show ?thesis
    using join_order.loop_all [OF assms(3,1) first assms(8)]
    by (simp add: join_order.outer_rest_def join_order.inner_rest_def join_seen_def join_position_def)
qed

text \<open>A run of two core sets with two iterations of both phases.\<close>

definition example_benchmark :: tree_benchmark where
  "example_benchmark =
     \<lparr>tb_cores = \<lparr>co_sets = [core_set_new\<lparr>cs_size := 1\<rparr>, core_set_new\<lparr>cs_size := 2\<rparr>], co_index = 0\<rparr>, tb_iterations = 2, tb_current_iteration = - 1,
      tb_workload = \<lparr>wl_set = \<lparr>ws_fill = [], ws_mixed = [\<lparr>nt_type = LOOKUP, nt_key = 1, nt_value = 0\<rparr>], ws_contains_update = False\<rparr>,
        wl_phase = FILL, wl_index = 0\<rparr>\<rparr>"

theorem tree_benchmark_runs_every_configuration_witness:
  "\<exists>tr. main_loop 9 tree_core_set example_benchmark = Some tr \<and>
    map (\<lambda>(s, b). (cs_size s, tb_current_iteration b, wl_phase (tb_workload b))) tr =
    [(1, 0, FILL), (1, 0, MIXED), (1, 1, FILL), (1, 1, MIXED), (2, 0, FILL), (2, 0, MIXED), (2, 1, FILL), (2, 1, MIXED)]"
proof -
  have "\<exists>tr. main_loop 9 tree_core_set example_benchmark = Some tr \<and>
    map (\<lambda>(s, b). (s, tb_current_iteration b, wl_phase (tb_workload b))) tr =
    concat (map (\<lambda>s. concat (map (\<lambda>i. map (\<lambda>p. (s, of_nat i, p)) [FILL, MIXED]) [0..<max 1 (unat (tb_iterations example_benchmark))]))
      (co_sets (tb_cores example_benchmark)))"
    by (rule tree_benchmark_runs_every_configuration) (simp_all add: example_benchmark_def workload_empty_def)
  moreover have "[0..<max 1 (unat (tb_iterations example_benchmark))] = [0, 1]" by (simp add: example_benchmark_def upt_rec)
  ultimately obtain tr where "main_loop 9 tree_core_set example_benchmark = Some tr"
    "map (\<lambda>(s, b). (s, tb_current_iteration b, wl_phase (tb_workload b))) tr =
    concat (map (\<lambda>s. concat (map (\<lambda>i. map (\<lambda>p. (s, of_nat i, p)) [FILL, MIXED]) [0, 1])) (co_sets (tb_cores example_benchmark)))"
    by auto
  note tr = this(1) arg_cong [OF this(2), of "map (\<lambda>(s, q). (cs_size s, q))"]
  show ?thesis using tr by (simp add: example_benchmark_def o_def case_prod_unfold)
qed

subsection \<open>The tuples of a workload\<close>

lemma from_fill_eq:
  assumes "0 < n" "fill_inserts = of_nat n" "n < 2 ^ 32" "length fill = n" "\<forall>i < n. nt_key (fill ! i) = of_nat (i + 1)"
  shows "from_fill fill fill_inserts is = Some (map (\<lambda>i. of_nat (unat i mod n + 1)) is)"
proof (induction "is")
  case (Cons i js)
  have n: "unat fill_inserts = n" using assms(2,3) by (simp add: unsigned_of_nat take_bit_nat_eq_self_iff)
  then have "fill_inserts \<noteq> 0" using assms(1) by auto
  moreover have "unat i mod n < n" using assms(1) by simp
  ultimately show ?case using Cons assms(4,5) n by (simp add: arr_get_def)
qed simp

lemma with_rand_keys: "map (\<lambda>t. (nt_type t, nt_key t)) (with_rand rand k ty keys) = map (Pair ty) keys"
  by (rule nth_equalityI) (simp_all add: with_rand_def nth_enumerate_eq)

lemma without_value_keys: "map (\<lambda>t. (nt_type t, nt_key t)) (without_value ty keys) = map (Pair ty) keys"
  by (simp add: without_value_def)

lemma unat_u32: "n < 2 ^ 32 \<Longrightarrow> unat (of_nat n :: u32) = n"
  by (simp add: unsigned_of_nat take_bit_nat_eq_self_iff)

lemma unat_u64: "n < 2 ^ 64 \<Longrightarrow> unat (of_nat n :: u64) = n"
  by (simp add: unsigned_of_nat take_bit_nat_eq_self_iff)

lemma count_up_32: "n < 2 ^ 32 \<Longrightarrow> n \<le> fuel \<Longrightarrow> count_up fuel (0 :: u32) (of_nat n) = Some (map of_nat [0..<n])"
  using count_up_eq [of "of_nat n" "0 :: u32" fuel] by (simp add: unat_u64)

text \<open>
  C19: the generated workload. The fill phase inserts the keys 1 to \<open>n\<close>; the mixed phase inserts the next keys, and
  looks up, updates and deletes only keys of the fill phase, cycling through them. It holds as long as each count
  fits into the 32 bit counters of the loops.
\<close>

theorem generated_workload_uses_filled_keys:
  assumes "0 < n" "n < 2 ^ 32 - 1" "ins < 2 ^ 32" "l < 2 ^ 32" "u < 2 ^ 32" "d < 2 ^ 32" "2 ^ 32 \<le> fuel"
  shows "\<exists>ws. ws_build fuel rand (of_nat n) (of_nat ins) (of_nat l) (of_nat u) (of_nat d) workload_set_new = Some ws \<and>
    map (\<lambda>t. (nt_type t, nt_key t)) (ws_fill ws) = map (\<lambda>i. (INSERT, of_nat (i + 1))) [0..<n] \<and>
    map (\<lambda>t. (nt_type t, nt_key t)) (ws_mixed ws) =
      map (\<lambda>i. (INSERT, of_nat (i + 1))) [n..<n + ins] @ map (\<lambda>i. (LOOKUP, of_nat (i mod n + 1))) [0..<l] @
      map (\<lambda>i. (UPDATE, of_nat (i mod n + 1))) [0..<u] @ map (\<lambda>i. (DELETE, of_nat (i mod n + 1))) [0..<d]"
proof -
  let ?fill = "with_rand rand 0 INSERT (map (\<lambda>i. ucast (i + 1)) (map of_nat [0..<n] :: u32 list))"
  have key: "ucast (of_nat i + 1 :: u32) = (of_nat (i + 1) :: u64)" if "i < n" for i
  proof -
    have "unat (of_nat i + 1 :: u32) = i + 1" using that assms(2) unat_u32 [of "i + 1"] by (simp add: add.commute)
    then show ?thesis by (metis of_nat_unat)
  qed
  have len: "length ?fill = n" by (simp add: with_rand_def)
  have keys: "map (\<lambda>t. (nt_type t, nt_key t)) ?fill = map (\<lambda>i. (INSERT, of_nat (i + 1))) [0..<n]"
    by (simp add: with_rand_keys key del: of_nat_add of_nat_Suc)
  have "nt_key (?fill ! i) = of_nat (i + 1)" if "i < n" for i
    using arg_cong [OF keys, of "\<lambda>ts. snd (ts ! i)"] that len by simp
  then have old: "from_fill ?fill (of_nat n) (map of_nat [0..<k]) = Some (map (\<lambda>i. of_nat (i mod n + 1)) [0..<k])" if "k < 2 ^ 32" for k
    using from_fill_eq [of n "of_nat n" ?fill "map of_nat [0..<k]"] assms(1,2) len that by (simp add: unat_u32)
  have new: "count_up fuel (of_nat n :: u64) (of_nat n + of_nat ins) = Some (map of_nat [n..<n + ins])"
  proof -
    have "unat (of_nat n + of_nat ins :: u64) = n + ins" using assms(2,3) unat_u64 [of "n + ins"] by simp
    then show ?thesis using count_up_eq [of "of_nat n + of_nat ins" "of_nat n :: u64" fuel] assms(2,3,7) by (simp add: unat_u64)
  qed
  have small: "n < 2 ^ 32" using assms(2) by simp
  have count: "count_up fuel (0 :: u32) (of_nat k) = Some (map of_nat [0..<k])" if "k < 2 ^ 32" for k
    using that assms(7) by (intro count_up_32) simp_all
  let ?old = "\<lambda>k. map (\<lambda>i. of_nat (i mod n + 1)) [0..<k] :: u64 list"
  define ws where "ws = \<lparr>ws_fill = ?fill, ws_mixed = with_rand rand n INSERT (map (\<lambda>i. i + 1) (map of_nat [n..<n + ins])) @
    without_value LOOKUP (?old l) @ with_rand rand (n + ins) UPDATE (?old u) @ without_value DELETE (?old d),
    ws_contains_update = ((of_nat ins :: u64) > 0 \<or> (of_nat d :: u64) > 0 \<or> (of_nat u :: u64) > 0)\<rparr>"
  have "ws_build fuel rand (of_nat n) (of_nat ins) (of_nat l) (of_nat u) (of_nat d) workload_set_new = Some ws"
    by (simp only: ws_build_def workload_set_new_def ws_def count [OF small] count [OF assms(4)] count [OF assms(5)] count [OF assms(6)]
      new old [OF assms(4)] old [OF assms(5)] old [OF assms(6)] bind.simps Let_def workload_set.select_convs append_Nil length_map
      length_upt diff_zero diff_add_inverse)
  moreover have "map (\<lambda>t. (nt_type t, nt_key t)) (ws_fill ws) = map (\<lambda>i. (INSERT, of_nat (i + 1))) [0..<n]"
    unfolding ws_def workload_set.select_convs by (rule keys)
  moreover have "map (\<lambda>t. (nt_type t, nt_key t)) (ws_mixed ws) =
      map (\<lambda>i. (INSERT, of_nat (i + 1))) [n..<n + ins] @ map (\<lambda>i. (LOOKUP, of_nat (i mod n + 1))) [0..<l] @
      map (\<lambda>i. (UPDATE, of_nat (i mod n + 1))) [0..<u] @ map (\<lambda>i. (DELETE, of_nat (i mod n + 1))) [0..<d]"
    unfolding ws_def workload_set.select_convs
    by (simp only: map_append with_rand_keys without_value_keys map_map o_def of_nat_add of_nat_1)
  ultimately show ?thesis by blast
qed

theorem generated_workload_uses_filled_keys_witness:
  "\<exists>ws. ws_build (2 ^ 32) (\<lambda>k. of_nat k) 2 1 3 0 1 workload_set_new = Some ws \<and> map nt_key (ws_fill ws) = [1, 2] \<and>
    map (\<lambda>t. (nt_type t, nt_key t)) (ws_mixed ws) = [(INSERT, 3), (LOOKUP, 1), (LOOKUP, 2), (LOOKUP, 1), (DELETE, 1)]"
proof -
  have "\<exists>ws. ws_build (2 ^ 32) (\<lambda>k. of_nat k) (of_nat 2) (of_nat 1) (of_nat 3) (of_nat 0) (of_nat 1) workload_set_new = Some ws \<and>
    map (\<lambda>t. (nt_type t, nt_key t)) (ws_fill ws) = map (\<lambda>i. (INSERT, of_nat (i + 1))) [0..<2] \<and>
    map (\<lambda>t. (nt_type t, nt_key t)) (ws_mixed ws) =
      map (\<lambda>i. (INSERT, of_nat (i + 1))) [2..<2 + 1] @ map (\<lambda>i. (LOOKUP, of_nat (i mod 2 + 1))) [0..<3] @
      map (\<lambda>i. (UPDATE, of_nat (i mod 2 + 1))) [0..<0] @ map (\<lambda>i. (DELETE, of_nat (i mod 2 + 1))) [0..<1]"
    by (rule generated_workload_uses_filled_keys) simp_all
  then obtain ws where ws: "ws_build (2 ^ 32) (\<lambda>k. of_nat k) (of_nat 2) (of_nat 1) (of_nat 3) (of_nat 0) (of_nat 1) workload_set_new = Some ws"
    "map (\<lambda>t. (nt_type t, nt_key t)) (ws_fill ws) = map (\<lambda>i. (INSERT, of_nat (i + 1))) [0..<2]"
    "map (\<lambda>t. (nt_type t, nt_key t)) (ws_mixed ws) =
      map (\<lambda>i. (INSERT, of_nat (i + 1))) [2..<2 + 1] @ map (\<lambda>i. (LOOKUP, of_nat (i mod 2 + 1))) [0..<3] @
      map (\<lambda>i. (UPDATE, of_nat (i mod 2 + 1))) [0..<0] @ map (\<lambda>i. (DELETE, of_nat (i mod 2 + 1))) [0..<1]"
    by (elim exE conjE)
  have upts: "[0..<2] = [0, 1 :: nat]" "[0..<3] = [0, 1, 2 :: nat]" "[2..<2 + 1] = [2 :: nat]" "[0..<1] = [0 :: nat]" "[0..<0] = ([] :: nat list)"
    by (simp_all add: numeral_2_eq_2 numeral_3_eq_3)
  from arg_cong [OF ws(2), of "map snd"] have "map nt_key (ws_fill ws) = [1, 2]" by (simp add: o_def upts)
  moreover have "map (\<lambda>t. (nt_type t, nt_key t)) (ws_mixed ws) = [(INSERT, 3), (LOOKUP, 1), (LOOKUP, 2), (LOOKUP, 1), (DELETE, 1)]"
    unfolding ws(3) upts by simp
  ultimately show ?thesis using ws(1) by (intro exI [of _ ws] conjI) simp_all
qed

end
