(* ===== verification/UtilCounters.thy ===== *)
theory UtilCounters
  imports MxPrelude
begin

section \<open>Reference counters and pseudo random numbers\<close>

text \<open>
  src/mx/util/reference_counter.h and src/mx/util/random.h, random.cpp. A reference counter keeps the changes
  of its own core apart from those of all others; its value is the sum, so that the order and the cores of the
  changes do not matter. The random numbers are 24 bit values.
\<close>

subsection \<open>reference_counter\<close>

text \<open>The counter type T is a signed integer; additions wrap like those of the word.\<close>

record 'w reference_counter =
  ref_local_core_id :: u16
  ref_local_counter :: 'w
  ref_remote_counter :: 'w

definition ref_new :: "u16 \<Rightarrow> 'a::len word reference_counter" where
  "ref_new core_id = \<lparr>ref_local_core_id = core_id, ref_local_counter = 0, ref_remote_counter = 0\<rparr>"

definition ref_is_local :: "u16 \<Rightarrow> 'a::len word reference_counter \<Rightarrow> bool" where
  "ref_is_local core_id c \<longleftrightarrow> ref_local_core_id c = core_id"

definition ref_add :: "u16 \<Rightarrow> 'a::len word \<Rightarrow> 'a word reference_counter \<Rightarrow> 'a word reference_counter" where
  "ref_add core_id count c =
     (if ref_is_local core_id c then c\<lparr>ref_local_counter := ref_local_counter c + count\<rparr>
      else c\<lparr>ref_remote_counter := ref_remote_counter c + count\<rparr>)"

definition ref_sub :: "u16 \<Rightarrow> 'a::len word \<Rightarrow> 'a word reference_counter \<Rightarrow> 'a word reference_counter" where
  "ref_sub core_id count c =
     (if ref_is_local core_id c then c\<lparr>ref_local_counter := ref_local_counter c - count\<rparr>
      else c\<lparr>ref_remote_counter := ref_remote_counter c - count\<rparr>)"

definition ref_load :: "'a::len word reference_counter \<Rightarrow> 'a word" where
  "ref_load c = ref_local_counter c + ref_remote_counter c"

lemma ref_load_simps [simp]:
  "ref_load (ref_new core_id) = 0" "ref_load (ref_add core_id n c) = ref_load c + n"
  "ref_load (ref_sub core_id n c) = ref_load c - n"
  by (simp_all add: ref_load_def ref_new_def ref_add_def ref_sub_def algebra_simps)

text \<open>The value after any sequence of changes, with the core of each, is their sum.\<close>

datatype 'w ref_change = RefAdd u16 'w | RefSub u16 'w

fun ref_apply :: "'a::len word ref_change \<Rightarrow> 'a word reference_counter \<Rightarrow> 'a word reference_counter" where
  "ref_apply (RefAdd core_id n) = ref_add core_id n"
| "ref_apply (RefSub core_id n) = ref_sub core_id n"

fun ref_amount :: "'a::len word ref_change \<Rightarrow> 'a word" where
  "ref_amount (RefAdd core_id n) = n"
| "ref_amount (RefSub core_id n) = - n"

lemma ref_load_apply: "ref_load (ref_apply change c) = ref_load c + ref_amount change"
  by (cases change) simp_all

lemma reference_counter_counts: "ref_load (fold ref_apply changes c) = ref_load c + sum_list (map ref_amount changes)"
  by (induction changes arbitrary: c) (simp_all add: ref_load_apply add.assoc)

subsection \<open>Random\<close>

record random =
  rnd_register :: "u32 list"
  rnd_multiplier :: u32
  rnd_ic_state :: u32
  rnd_addend :: u32

fun random_fill :: "nat \<Rightarrow> u32 \<Rightarrow> u32 \<Rightarrow> u32 list \<times> u32" where
  "random_fill 0 addend ic = ([], ic)"
| "random_fill (Suc n) addend ic =
     (let ic' = (69607 + 8 * 69069) * ic + addend;
          (regs, ic'') = random_fill n addend ic'
      in ((drop_bit 8 ic' AND 0xffffff) # regs, ic''))"

definition random_new :: "u32 \<Rightarrow> random" where
  "random_new seed =
     (let addend = 123456;
          (regs, ic) = random_fill 7 addend seed
      in \<lparr>rnd_register = regs, rnd_multiplier = 100005 + 8 * 69069,
          rnd_ic_state = (69607 + 8 * 69069) * ic + addend, rnd_addend = addend\<rparr>)"

definition random_next :: "random \<Rightarrow> u32 \<times> random" where
  "random_next r =
     (let reg = rnd_register r;
          rand = ((drop_bit 7 (reg ! 5) OR push_bit 17 (reg ! 6)) XOR (drop_bit 1 (reg ! 4) OR push_bit 23 (reg ! 5))) AND 0xffffff;
          ic = rnd_ic_state r * rnd_multiplier r + rnd_addend r
      in (rand XOR (drop_bit 8 ic AND 0xffffff),
          r\<lparr>rnd_register := [rand, reg ! 0, reg ! 1, reg ! 2, reg ! 3, reg ! 4, reg ! 5], rnd_ic_state := ic\<rparr>))"

text \<open>None is the division by 0.\<close>

definition random_next_below :: "u64 \<Rightarrow> random \<Rightarrow> (u32 \<times> random) option" where
  "random_next_below max_value r =
     (if max_value = 0 then None else (let (n, r') = random_next r in Some (ucast (ucast n mod max_value), r')))"

lemma and_24_bits: "unat (w AND 0xffffff :: u32) < 2 ^ 24"
proof -
  have "w AND 0xffffff = take_bit 24 w" by (simp add: take_bit_eq_mask mask_eq_exp_minus_1)
  then have "unat (w AND 0xffffff) = take_bit 24 (unat w)" by (simp only: unsigned_take_bit_eq)
  then show ?thesis by (simp only: take_bit_nat_less_exp)
qed

lemma xor_24_bits: "(v AND 0xffffff) XOR (w AND 0xffffff) = (v XOR w) AND (0xffffff :: u32)"
  by (rule bit_word_eqI) (auto simp: bit_simps)

text \<open>A random number is a 24 bit value, so its sign bit is never set, and the register stays in this range.\<close>

definition random_ok :: "random \<Rightarrow> bool" where
  "random_ok r \<longleftrightarrow> length (rnd_register r) = 7 \<and> (\<forall>v \<in> set (rnd_register r). unat v < 2 ^ 24)"

lemma random_fill_ok: "random_fill n addend ic = (regs, ic') \<Longrightarrow> length regs = n \<and> (\<forall>v \<in> set regs. unat v < 2 ^ 24)"
  by (induction n arbitrary: ic regs) (auto simp: Let_def and_24_bits [simplified] split: prod.splits)

lemma random_new_ok: "random_ok (random_new seed)"
  using random_fill_ok [of 7 123456 seed] by (auto simp: random_new_def random_ok_def Let_def split: prod.splits)

lemma random_next_ok:
  assumes "random_ok r" "random_next r = (n, r')"
  shows "unat n < 2 ^ 24 \<and> random_ok r'"
proof -
  let ?reg = "rnd_register r"
  define z where "z = (drop_bit 7 (?reg ! 5) OR push_bit 17 (?reg ! 6)) XOR (drop_bit 1 (?reg ! 4) OR push_bit 23 (?reg ! 5))"
  define ic where "ic = rnd_ic_state r * rnd_multiplier r + rnd_addend r"
  have n: "n = (z XOR drop_bit 8 ic) AND 0xffffff"
    and r': "rnd_register r' = [z AND 0xffffff, ?reg ! 0, ?reg ! 1, ?reg ! 2, ?reg ! 3, ?reg ! 4, ?reg ! 5]"
    using assms(2) by (auto simp: random_next_def Let_def xor_24_bits z_def ic_def)
  have "unat (?reg ! i) < 2 ^ 24" if "i < 7" for i using that assms(1) by (simp add: random_ok_def)
  then have "\<forall>v \<in> set (rnd_register r'). unat v < 2 ^ 24" unfolding r' using and_24_bits [of z] by simp
  then show ?thesis using and_24_bits n r' by (simp add: random_ok_def)
qed

text \<open>Numbers below a bound: in [0, max_value), and never 2^24 or more.\<close>

lemma random_next_below_bounds:
  assumes "random_ok r" "random_next_below max_value r = Some (n, r')"
  shows "unat n < unat max_value \<and> unat n < 2 ^ 24 \<and> random_ok r'"
proof -
  obtain m where m: "random_next r = (m, r')" "n = ucast ((ucast m :: u64) mod max_value)" "max_value \<noteq> 0"
    using assms(2) by (auto simp: random_next_below_def Let_def split: if_splits prod.splits)
  note ok = random_next_ok [OF assms(1) m(1)]
  have c: "unat (ucast m :: u64) = unat m"
    by (simp add: unsigned_ucast_eq unsigned_take_bit_eq take_bit_nat_eq_self_iff) (rule less_trans [OF unsigned_less], simp)
  have pos: "0 < unat max_value" using m(3) by (simp add: unat_gt_0)
  have "unat ((ucast m :: u64) mod max_value) = unat m mod unat max_value" by (simp add: unat_mod_distrib c)
  then have small: "unat ((ucast m :: u64) mod max_value) < 2 ^ 24" "unat ((ucast m :: u64) mod max_value) < unat max_value"
    using ok pos by (simp_all add: le_less_trans [OF mod_less_eq_dividend])
  then have "unat n = unat ((ucast m :: u64) mod max_value)"
    unfolding m(2) by (simp add: unsigned_ucast_eq unsigned_take_bit_eq take_bit_nat_eq_self_iff)
  with small ok show ?thesis by simp
qed

end
