(* ===== verification/RequestScheduler.thy ===== *)
theory RequestScheduler
  imports WorkloadModel UtilCounters BLinkTasks "HOL-Library.Multiset"
begin

section \<open>The request schedulers of the B-link tree benchmark\<close>

text \<open>
  src/application/blinktree_benchmark: request_scheduler.h, config.h and the start and the end of a phase in
  benchmark.cpp. One scheduler task per core takes batches of requests from the shared workload and spawns a tree
  task for each request, as long as not too many of its requests are pending; the tree tasks report to the
  container of their scheduler.

  A run of a phase is a step relation. A scheduler reads the counter of finished requests in one step and does the
  rest of its work, with that value, in another one, so that requests may finish in between. The history variables
  \<open>be_done\<close> (the requests that finished) and \<open>be_calls\<close> (the calls of Workload::next) only record what happened.

  The lemmas show that every request of the workload is done exactly once, that the number of pending requests is
  bounded, that the phase is over only when all requests are done, and that a phase that is not over can always
  go on.
\<close>

subsection \<open>RequestIndex\<close>

record request_index =
  ri_index :: u64
  ri_count :: u64

definition make_finished :: request_index where
  "make_finished = \<lparr>ri_index = - 1, ri_count = 0\<rparr>"

definition make_no_new :: request_index where
  "make_no_new = \<lparr>ri_index = 0, ri_count = 0\<rparr>"

definition ri_of_pair :: "u64 \<times> u64 \<Rightarrow> request_index" where
  "ri_of_pair index_and_count = \<lparr>ri_index = fst index_and_count, ri_count = snd index_and_count\<rparr>"

definition is_finished :: "request_index \<Rightarrow> bool" where
  "is_finished r \<longleftrightarrow> ri_index r = - 1"

definition has_new :: "request_index \<Rightarrow> bool" where
  "has_new r \<longleftrightarrow> ri_count r > 0"

definition ri_advance :: "u64 \<Rightarrow> request_index \<Rightarrow> request_index" where
  "ri_advance n r = \<lparr>ri_index = ri_index r + n, ri_count = ri_count r - n\<rparr>"

subsection \<open>RequestContainer\<close>

definition batch_size :: u64 where
  "batch_size = 500"

definition max_parallel_requests :: u64 where
  "max_parallel_requests = 1500"

record request_container =
  rc_finished_requests :: "u64 reference_counter"
  rc_scheduled_requests :: u64
  rc_local_buffer :: request_index
  rc_max_pending_requests :: u64

definition container_new :: "u16 \<Rightarrow> u64 \<Rightarrow> workload \<Rightarrow> request_container \<times> workload" where
  "container_new core_id max_open_requests w =
     (let (batch, w') = workload_next batch_size w
      in (\<lparr>rc_finished_requests = ref_new core_id, rc_scheduled_requests = 0, rc_local_buffer = ri_of_pair batch,
           rc_max_pending_requests = max_open_requests\<rparr>, w'))"

text \<open>next(), for the value of the counter of finished requests that was read at its start.\<close>

definition container_refill :: "request_container \<Rightarrow> workload \<Rightarrow> request_container \<times> workload" where
  "container_refill rc w =
     (if has_new (rc_local_buffer rc) then (rc, w)
      else (let (batch, w') = workload_next batch_size w in (rc\<lparr>rc_local_buffer := ri_of_pair batch\<rparr>, w')))"

definition container_next :: "u64 \<Rightarrow> request_container \<Rightarrow> workload \<Rightarrow> request_index \<times> request_container \<times> workload" where
  "container_next finished_requests rc w =
     (let pending_requests = rc_scheduled_requests rc - finished_requests
      in if rc_max_pending_requests rc \<le> pending_requests then (make_no_new, rc, w)
         else (let (rc1, w1) = container_refill rc w
               in if has_new (rc_local_buffer rc1)
                  then (let free_requests = rc_max_pending_requests rc1 - pending_requests;
                            new_requests = min free_requests (ri_count (rc_local_buffer rc1))
                        in (\<lparr>ri_index = ri_index (rc_local_buffer rc1), ri_count = new_requests\<rparr>,
                            rc1\<lparr>rc_scheduled_requests := rc_scheduled_requests rc1 + new_requests,
                              rc_local_buffer := ri_advance new_requests (rc_local_buffer rc1)\<rparr>, w1))
                  else (if pending_requests > 0 then make_no_new else make_finished, rc1, w1)))"

text \<open>inserted, updated, removed, found and missing all count one finished request.\<close>

definition task_finished :: "u16 \<Rightarrow> request_container \<Rightarrow> request_container" where
  "task_finished core_id rc = rc\<lparr>rc_finished_requests := ref_add core_id 1 (rc_finished_requests rc)\<rparr>"

subsection \<open>RequestSchedulerTask\<close>

text \<open>
  The task of a tuple; \<open>old\<close> is the uninitialized value of a new lookup. A tuple that is deleted has no task, and the null pointer is dereferenced: None.
\<close>

definition request_task :: "u64 \<Rightarrow> u64 tree \<Rightarrow> numeric_tuple \<Rightarrow> u64 btask option" where
  "request_task old tree tuple =
     (case nt_type tuple of
        INSERT \<Rightarrow> Some (insert_value_task (nt_key tuple) (nt_value tuple) (bt_root tree) (bt_height tree > 1))
      | LOOKUP \<Rightarrow> Some \<lparr>b_op = Lookup old, b_key = nt_key tuple, b_annotated = Some (bt_root tree), b_readonly = True\<rparr>
      | UPDATE \<Rightarrow> Some \<lparr>b_op = Update (nt_value tuple), b_key = nt_key tuple, b_annotated = Some (bt_root tree),
            b_readonly = (bt_height tree > 1)\<rparr>
      | DELETE \<Rightarrow> None)"

fun request_tasks :: "u64 \<Rightarrow> u64 tree \<Rightarrow> workload \<Rightarrow> u64 list \<Rightarrow> (u64 \<times> u64 btask) list option" where
  "request_tasks old tree w [] = Some []"
| "request_tasks old tree w (i # is) = do {
     tuple \<leftarrow> workload_get w i;
     task \<leftarrow> request_task old tree tuple;
     tasks \<leftarrow> request_tasks old tree w is;
     Some ((i, task) # tasks)
   }"

datatype scheduler_result = Succeed "(u64 \<times> u64 btask) list" | Remove

definition scheduler_execute :: "u64 \<Rightarrow> u64 tree \<Rightarrow> u64 \<Rightarrow> request_container \<Rightarrow> workload \<Rightarrow> (scheduler_result \<times> request_container \<times> workload) option" where
  "scheduler_execute old tree finished_requests rc w =
     (let (next_requests, rc', w') = container_next finished_requests rc w
      in if has_new next_requests then do {
           is \<leftarrow> count_up (unat (ri_count next_requests)) (ri_index next_requests) (ri_index next_requests + ri_count next_requests);
           tasks \<leftarrow> request_tasks old tree w' is;
           Some (Succeed tasks, rc', w')
         }
         else if is_finished next_requests then Some (Remove, rc', w')
         else Some (Succeed [], rc', w'))"

subsection \<open>A phase of the benchmark\<close>

text \<open>
  A scheduler is its container and the counter it has read, or None when it is deleted. A request that runs is the number
  of its scheduler, its index in the workload and its task.
\<close>

record bench =
  be_workload :: workload
  be_schedulers :: "(request_container \<times> u64 option) option list"
  be_running :: "(nat \<times> u64 \<times> u64 btask) list"
  be_open_requests :: u16
  be_stopped :: bool
  be_done :: "u64 list"
  be_calls :: nat

fun create_schedulers :: "nat \<Rightarrow> nat \<Rightarrow> nat \<Rightarrow> workload \<Rightarrow> (request_container \<times> u64 option) option list \<times> workload" where
  "create_schedulers core_count core_index 0 w = ([], w)"
| "create_schedulers core_count core_index (Suc n) w =
     (let (rc, w1) = container_new (of_nat core_index) (max_parallel_requests div of_nat core_count) w;
          (rest, w2) = create_schedulers core_count (core_index + 1) n w1
      in (Some (rc, None) # rest, w2))"

definition bench_start :: "nat \<Rightarrow> workload \<Rightarrow> bench" where
  "bench_start core_count w =
     (let (schedulers, w') = create_schedulers core_count 0 core_count w
      in \<lparr>be_workload = w', be_schedulers = schedulers, be_running = [], be_open_requests = of_nat (length schedulers),
          be_stopped = False, be_done = [], be_calls = core_count\<rparr>)"

definition requests_finished :: "bench \<Rightarrow> bench" where
  "requests_finished s =
     (let open_requests = be_open_requests s - 1
      in s\<lparr>be_open_requests := open_requests, be_stopped := (be_stopped s \<or> open_requests = 0)\<rparr>)"

definition load_step :: "nat \<Rightarrow> bench \<Rightarrow> bench option" where
  "load_step c s = (case arr_get (be_schedulers s) c of
     Some (Some (rc, _)) \<Rightarrow> Some (s\<lparr>be_schedulers := (be_schedulers s)[c := Some (rc, Some (ref_load (rc_finished_requests rc)))]\<rparr>)
   | _ \<Rightarrow> None)"

definition execute_step :: "u64 \<Rightarrow> u64 tree \<Rightarrow> nat \<Rightarrow> bench \<Rightarrow> bench option" where
  "execute_step old tree c s = (case arr_get (be_schedulers s) c of
     Some (Some (rc, Some finished)) \<Rightarrow> do {
       (result, rc', w') \<leftarrow> scheduler_execute old tree finished rc (be_workload s);
       (let s' = s\<lparr>be_workload := w', be_calls := be_calls s + (if wl_index w' = wl_index (be_workload s) then 0 else 1)\<rparr>
        in case result of
             Succeed tasks \<Rightarrow> Some (s'\<lparr>be_schedulers := (be_schedulers s)[c := Some (rc', None)],
               be_running := be_running s @ map (Pair c) tasks\<rparr>)
           | Remove \<Rightarrow> Some ((requests_finished s')\<lparr>be_schedulers := (be_schedulers s)[c := None]\<rparr>))
     }
   | _ \<Rightarrow> None)"

text \<open>The callback of a request that is done, on any core; a callback on a deleted container fails: None.\<close>

definition finish_step :: "u16 \<Rightarrow> nat \<Rightarrow> bench \<Rightarrow> bench option" where
  "finish_step core_id j s = do {
     (c, i, task) \<leftarrow> arr_get (be_running s) j;
     slot \<leftarrow> arr_get (be_schedulers s) c;
     (rc, loaded) \<leftarrow> slot;
     Some (s\<lparr>be_schedulers := (be_schedulers s)[c := Some (task_finished core_id rc, loaded)],
       be_running := take j (be_running s) @ drop (Suc j) (be_running s), be_done := be_done s @ [i]\<rparr>)
   }"

inductive bench_step :: "bench \<Rightarrow> bench \<Rightarrow> bool" where
  bench_load: "load_step c s = Some s' \<Longrightarrow> bench_step s s'"
| bench_execute: "execute_step old tree c s = Some s' \<Longrightarrow> bench_step s s'"
| bench_finish: "finish_step core_id j s = Some s' \<Longrightarrow> bench_step s s'"

inductive_cases bench_stepE: "bench_step s s'"

definition bench_reachable :: "nat \<Rightarrow> workload \<Rightarrow> bench \<Rightarrow> bool" where
  "bench_reachable core_count w s \<longleftrightarrow> bench_step\<^sup>*\<^sup>* (bench_start core_count w) s"

subsection \<open>Batches\<close>

definition buffer :: "request_index \<Rightarrow> nat list" where
  "buffer r = [unat (ri_index r)..<unat (ri_index r) + unat (ri_count r)]"

definition batch :: "nat \<Rightarrow> nat \<Rightarrow> nat list" where
  "batch N k = [min N (500 * k)..<min N (500 * (k + 1))]"

definition in_workload :: "nat \<Rightarrow> request_index \<Rightarrow> bool" where
  "in_workload N r \<longleftrightarrow> ri_count r = 0 \<or> unat (ri_index r) + unat (ri_count r) \<le> N"

text \<open>The batches of the calls of Workload::next, one behind the other, are the whole workload.\<close>

lemma upt_join: "a \<le> b \<Longrightarrow> [0..<a] @ [a..<b] = [0..<b]"
  using upt_add_eq_append [of 0 a "b - a"] by simp

lemma batches: "[0..<min N (500 * k)] @ batch N k = [0..<min N (500 * (k + 1))]"
  unfolding batch_def by (rule upt_join) auto

lemma batch_empty: "batch N k = [] \<Longrightarrow> N \<le> 500 * k"
  by (auto simp: batch_def)

lemma u64_le: "unat (w :: u64) < 2 ^ 64"
proof -
  have "unat w < 2 ^ LENGTH(64)" by (rule unsigned_less)
  then show ?thesis by simp
qed

lemma has_new_buffer: "has_new r \<longleftrightarrow> buffer r \<noteq> []"
  by (auto simp: has_new_def buffer_def word_less_nat_alt)

lemma workload_next_batch:
  assumes "wl_index w = of_nat (500 * k)" "500 * k < 2 ^ 64" "length (workload_current w) = N" "N < 2 ^ 64"
  obtains r where "workload_next batch_size w = (r, w\<lparr>wl_index := of_nat (500 * (k + 1))\<rparr>)"
    "buffer (ri_of_pair r) = batch N k" "in_workload N (ri_of_pair r)"
proof -
  have i: "unat (wl_index w) = 500 * k" and n: "unat (workload_size w) = N"
    using assms unat_u64 by (simp_all only: workload_size_def)
  have w: "w\<lparr>wl_index := wl_index w + batch_size\<rparr> = w\<lparr>wl_index := of_nat (500 * (k + 1))\<rparr>"
    using assms(1) by (simp add: batch_size_def)
  show thesis
  proof (cases "wl_index w < workload_size w")
    case True
    then have lt: "500 * k < N" using i n by (simp add: word_less_nat_alt)
    have d: "unat (workload_size w - wl_index w) = N - 500 * k"
      using i n lt by (simp add: unat_sub_if_size)
    have c: "unat (min batch_size (workload_size w - wl_index w)) = min 500 (N - 500 * k)"
      using d by (simp add: min_def word_le_nat_alt batch_size_def)
    have "500 * k + min 500 (N - 500 * k) = min N (500 + 500 * k)" using lt by linarith
    then show thesis
      by (intro that [of "(wl_index w, min batch_size (workload_size w - wl_index w))"])
        (use True w lt i c in \<open>auto simp: workload_next_def Let_def buffer_def batch_def in_workload_def ri_of_pair_def\<close>)
  next
    case False
    then have "N \<le> 500 * k" using i n by (simp add: word_less_nat_alt)
    then show thesis
      by (intro that [of "(- 1, 0)"])
        (use False w in \<open>auto simp: workload_next_def Let_def buffer_def batch_def in_workload_def ri_of_pair_def\<close>)
  qed
qed

text \<open>The refill of the local buffer: \<open>k'\<close> calls were made behind it, and \<open>B\<close> is in the buffer.\<close>

definition refilled :: "nat \<Rightarrow> nat \<Rightarrow> nat \<Rightarrow> nat list \<Rightarrow> nat list \<Rightarrow> workload \<Rightarrow> workload \<Rightarrow> bool" where
  "refilled N k k' B B' w w' \<longleftrightarrow> (B \<noteq> [] \<and> k' = k \<and> B' = B \<and> w' = w) \<or>
     (B = [] \<and> k' = k + 1 \<and> B' = batch N k \<and> w' = w\<lparr>wl_index := of_nat (500 * (k + 1))\<rparr>)"

lemma container_refill_ok:
  assumes "wl_index w = of_nat (500 * k)" "500 * k < 2 ^ 64" "length (workload_current w) = N" "N < 2 ^ 64" "in_workload N (rc_local_buffer rc)"
  obtains r w' k' B where "container_refill rc w = (rc\<lparr>rc_local_buffer := r\<rparr>, w')" "refilled N k k' (buffer (rc_local_buffer rc)) B w w'"
    "buffer r = B" "in_workload N r"
proof (cases "has_new (rc_local_buffer rc)")
  case True
  show thesis
    by (rule that [of "rc_local_buffer rc" w k])
      (use True assms(5) in \<open>simp_all add: container_refill_def refilled_def has_new_buffer\<close>)
next
  case False
  obtain r where r: "workload_next batch_size w = (r, w\<lparr>wl_index := of_nat (500 * (k + 1))\<rparr>)"
    "buffer (ri_of_pair r) = batch N k" "in_workload N (ri_of_pair r)"
    using workload_next_batch [OF assms(1-4)] by blast
  show thesis
    by (rule that [of "ri_of_pair r" "w\<lparr>wl_index := of_nat (500 * (k + 1))\<rparr>" "k + 1" "batch N k"])
      (use False r in \<open>simp_all add: container_refill_def refilled_def has_new_buffer\<close>)
qed

lemma buffer_advance:
  assumes "unat n \<le> unat (ri_count r)" "in_workload N r" "N < 2 ^ 64"
  shows "buffer \<lparr>ri_index = ri_index r, ri_count = n\<rparr> = take (unat n) (buffer r)"
    "buffer (ri_advance n r) = drop (unat n) (buffer r)" "in_workload N (ri_advance n r)"
    "in_workload N \<lparr>ri_index = ri_index r, ri_count = n\<rparr>"
proof -
  have c: "unat (ri_count r - n) = unat (ri_count r) - unat n" using assms(1) by (simp add: unat_sub_if_size)
  show "buffer \<lparr>ri_index = ri_index r, ri_count = n\<rparr> = take (unat n) (buffer r)"
    using assms(1) by (simp add: buffer_def min_def)
  have i: "unat (ri_index r + n) = unat (ri_index r) + unat n \<or> ri_count r = 0"
    using assms by (auto simp: in_workload_def unat_word_ariths)
  show "in_workload N \<lparr>ri_index = ri_index r, ri_count = n\<rparr>" using assms(1,2) by (auto simp: in_workload_def unat_eq_zero)
  show "buffer (ri_advance n r) = drop (unat n) (buffer r)" "in_workload N (ri_advance n r)"
    using i c assms(1,2) by (auto simp: in_workload_def ri_advance_def buffer_def unat_eq_zero)
qed

text \<open>
  The three answers of next(), with \<open>p\<close> requests pending as the scheduler sees them: too many of them, a part of
  the local buffer, or nothing at the end of the workload.
\<close>

lemma container_next_cases:
  assumes "wl_index w = of_nat (500 * k)" "500 * k < 2 ^ 64" "length (workload_current w) = N" "N < 2 ^ 64" "in_workload N (rc_local_buffer rc)"
    "rc_scheduled_requests rc - f = of_nat p" "p \<le> unat (rc_max_pending_requests rc)"
  obtains
    (full) "container_next f rc w = (make_no_new, rc, w)" "p = unat (rc_max_pending_requests rc)"
  | (new_ones) next_requests r w' k' B n where
      "container_next f rc w = (next_requests, rc\<lparr>rc_scheduled_requests := rc_scheduled_requests rc + of_nat n, rc_local_buffer := r\<rparr>, w')"
      "refilled N k k' (buffer (rc_local_buffer rc)) B w w'" "0 < n" "n \<le> length B" "p + n \<le> unat (rc_max_pending_requests rc)"
      "buffer next_requests = take n B" "buffer r = drop n B" "in_workload N next_requests" "in_workload N r"
  | (end_of_workload) r w' where
      "container_next f rc w = (if p > 0 then make_no_new else make_finished, rc\<lparr>rc_local_buffer := r\<rparr>, w')"
      "refilled N k (k + 1) (buffer (rc_local_buffer rc)) [] w w'" "buffer r = []" "in_workload N r" "N \<le> 500 * k" "p < unat (rc_max_pending_requests rc)"
proof -
  let ?max = "rc_max_pending_requests rc"
  have p: "unat (of_nat p :: u64) = p" using assms(7) u64_le [of ?max] by (intro unat_u64) simp
  obtain r w' k' B where r: "container_refill rc w = (rc\<lparr>rc_local_buffer := r\<rparr>, w')"
    "refilled N k k' (buffer (rc_local_buffer rc)) B w w'" "buffer r = B" "in_workload N r"
    using container_refill_ok [OF assms(1-5)] by blast
  show thesis
  proof (cases "?max \<le> of_nat p")
    case True
    then have "p = unat ?max" using assms(7) p by (simp add: word_le_nat_alt)
    with True show thesis using assms(6) by (intro full) (simp_all add: container_next_def)
  next
    case less: False
    then have lt: "p < unat ?max" using p by (simp add: word_le_nat_alt)
    have free: "unat (?max - of_nat p) = unat ?max - p" using p lt by (simp add: unat_sub_if_size)
    show thesis
    proof (cases "has_new r")
      case True
      define m where "m = min (?max - of_nat p) (ri_count r)"
      have um: "unat m = min (unat ?max - p) (unat (ri_count r))" using free by (simp add: m_def min_def word_le_nat_alt)
      have len: "length B = unat (ri_count r)" using r(3) by (auto simp: buffer_def)
      have "container_next f rc w = (\<lparr>ri_index = ri_index r, ri_count = m\<rparr>,
          rc\<lparr>rc_scheduled_requests := rc_scheduled_requests rc + of_nat (unat m), rc_local_buffer := ri_advance m r\<rparr>, w')"
        using less True r(1) assms(6) by (simp add: container_next_def Let_def m_def)
      then show thesis
      proof (rule new_ones [OF _ r(2)])
        have "B \<noteq> []" using True r(3) by (simp add: has_new_buffer)
        then have "0 < length B" by simp
        then show "0 < unat m" using um lt len by simp
        show "unat m \<le> length B" "p + unat m \<le> unat ?max" using um lt len by auto
      qed (use buffer_advance [OF _ r(4) assms(4), of m] um r(3) in simp_all)
    next
      case False
      then have B: "B = []" using r(3) by (simp add: has_new_buffer)
      with r(2) have "k' = k + 1" "batch N k = []" by (auto simp: refilled_def)
      moreover have "container_next f rc w = (if p > 0 then make_no_new else make_finished, rc\<lparr>rc_local_buffer := r\<rparr>, w')"
        using False less r(1) assms(6) p by (auto simp: container_next_def Let_def word_less_nat_alt)
      ultimately show thesis using r B lt by (intro end_of_workload [of r w']) (auto dest: batch_empty)
    qed
  qed
qed

subsection \<open>The execution of a scheduler\<close>

definition task_of :: "workload \<Rightarrow> u64 \<Rightarrow> u64 btask \<Rightarrow> bool" where
  "task_of w i task \<longleftrightarrow> (\<exists>tuple old tree. workload_get w i = Some tuple \<and> request_task old tree tuple = Some task)"

lemma request_tasks_ok: "request_tasks old tree w is = Some tasks \<Longrightarrow> map fst tasks = is \<and> (\<forall>(i, task) \<in> set tasks. task_of w i task)"
proof (induction "is" arbitrary: tasks)
  case (Cons i js)
  then obtain tuple task rest where *: "workload_get w i = Some tuple" "request_task old tree tuple = Some task"
    "request_tasks old tree w js = Some rest" "tasks = (i, task) # rest"
    by (auto simp: bind_eq_Some_conv)
  then have "task_of w i task" unfolding task_of_def by blast
  then show ?case using Cons.IH [OF *(3)] *(4) by simp
qed simp

lemma count_up_buffer:
  assumes "in_workload N r" "N < 2 ^ 64"
  shows "count_up (unat (ri_count r)) (ri_index r) (ri_index r + ri_count r) = Some (map of_nat (buffer r))"
proof (cases "ri_count r = 0")
  case False
  then have "unat (ri_index r + ri_count r) = unat (ri_index r) + unat (ri_count r)"
    using assms u64_le by (auto simp: in_workload_def unat_word_ariths)
  moreover have "unat (ri_index r + ri_count r) < 2 ^ 64" by (rule u64_le)
  ultimately show ?thesis using count_up_eq [of "ri_index r + ri_count r" "ri_index r" "unat (ri_count r)"] by (simp add: buffer_def)
qed (simp add: buffer_def)

text \<open>The buffer is kept, or filled by one more call of Workload::next.\<close>

definition advanced :: "nat \<Rightarrow> nat \<Rightarrow> nat \<Rightarrow> nat list \<Rightarrow> nat list \<Rightarrow> workload \<Rightarrow> workload \<Rightarrow> bool" where
  "advanced N k k' B B' w w' \<longleftrightarrow> (k' = k \<and> B' = B \<and> w' = w) \<or>
     (B = [] \<and> k' = k + 1 \<and> B' = batch N k \<and> w' = w\<lparr>wl_index := of_nat (500 * (k + 1))\<rparr>)"

lemma refilled_advanced: "refilled N k k' B B' w w' \<Longrightarrow> advanced N k k' B B' w w'"
  by (auto simp: refilled_def advanced_def)

lemma advanced_mset: "advanced N k k' B B' w w' \<Longrightarrow> mset [0..<min N (500 * k)] + mset B' = mset [0..<min N (500 * k')] + mset B"
  by (simp only: batches mset_append [symmetric] advanced_def, elim disjE conjE) (simp_all only: append_Nil2 batches)

lemma advanced_workload:
  "advanced N k k' B B' w w' \<Longrightarrow> workload_current w' = workload_current w \<and> (wl_index w = of_nat (500 * k) \<longrightarrow> wl_index w' = of_nat (500 * k') \<and>
    k' = k + (if wl_index w' = wl_index w then 0 else 1))"
  by (auto simp: advanced_def workload_current_def)

lemma scheduler_execute_cases:
  assumes "scheduler_execute old tree f rc w = Some (result, rc', w')"
    "wl_index w = of_nat (500 * k)" "500 * k < 2 ^ 64" "length (workload_current w) = N" "N < 2 ^ 64" "in_workload N (rc_local_buffer rc)"
    "rc_scheduled_requests rc - f = of_nat p" "p \<le> unat (rc_max_pending_requests rc)"
  obtains
    (spawned) tasks r k' B where
      "result = Succeed tasks" "rc' = rc\<lparr>rc_scheduled_requests := rc_scheduled_requests rc + of_nat (length tasks), rc_local_buffer := r\<rparr>"
      "advanced N k k' (buffer (rc_local_buffer rc)) B w w'" "p + length tasks \<le> unat (rc_max_pending_requests rc)" "in_workload N r"
      "map (unat \<circ> fst) tasks @ buffer r = B" "\<forall>(i, task) \<in> set tasks. task_of w i task"
  | (removed) "result = Remove" "p = 0" "buffer (rc_local_buffer rc) = []" "N \<le> 500 * k"
      "advanced N k (k + 1) (buffer (rc_local_buffer rc)) [] w w'"
  using assms(2-8)
proof (cases rule: container_next_cases)
  case full
  then show thesis
    using assms(1,6,8) by (intro spawned [of "[]" "rc_local_buffer rc" k])
      (auto simp: scheduler_execute_def make_no_new_def has_new_def is_finished_def advanced_def)
next
  case (new_ones next_requests r w1 k' B n)
  have "has_new next_requests" using new_ones(3,4,6) by (auto simp: has_new_buffer)
  then obtain tasks where tasks: "request_tasks old tree w1 (map of_nat (buffer next_requests)) = Some tasks" "result = Succeed tasks" "w' = w1"
    "rc' = rc\<lparr>rc_scheduled_requests := rc_scheduled_requests rc + of_nat n, rc_local_buffer := r\<rparr>"
    using assms(1) new_ones(1) count_up_buffer [OF new_ones(8) assms(5)]
    by (auto simp: scheduler_execute_def bind_eq_Some_conv)
  note ok = request_tasks_ok [OF tasks(1)]
  have small: "\<forall>i \<in> set (buffer next_requests). i < 2 ^ 64" using new_ones(8) assms(5) by (auto simp: in_workload_def buffer_def)
  have "map (unat \<circ> fst) tasks = map unat (map fst tasks)" by simp
  also have "\<dots> = map unat (map of_nat (buffer next_requests) :: u64 list)" using ok by simp
  also have "\<dots> = take n B" using small new_ones(6) by (auto simp: unat_u64 intro!: map_idI)
  finally have idx: "map (unat \<circ> fst) tasks = take n B" .
  then have len: "length tasks = n" using new_ones(4) by (metis length_map length_take min.absorb2)
  show thesis
  proof (rule spawned [OF tasks(2), of r k' B])
    show "advanced N k k' (buffer (rc_local_buffer rc)) B w w'" using refilled_advanced [OF new_ones(2)] tasks(3) by simp
    then have "workload_current w' = workload_current w" using advanced_workload by blast
    then show "\<forall>(i, task) \<in> set tasks. task_of w i task" using ok tasks(3) by (simp add: task_of_def workload_get_def)
  qed (use tasks len new_ones idx in simp_all)
next
  case (end_of_workload r w1)
  note adv = refilled_advanced [OF end_of_workload(2)]
  show thesis
  proof (cases "p = 0")
    case True
    then have "result = Remove" "w' = w1" using assms(1) end_of_workload(1) by (auto simp: scheduler_execute_def make_finished_def has_new_def is_finished_def)
    then show thesis using True adv end_of_workload by (intro removed) (auto simp: advanced_def)
  next
    case False
    then have "result = Succeed []" "w' = w1" "rc' = rc\<lparr>rc_local_buffer := r\<rparr>"
      using assms(1) end_of_workload(1) by (auto simp: scheduler_execute_def make_no_new_def has_new_def is_finished_def)
    then show thesis using adv end_of_workload assms(8) by (intro spawned [of "[]" r "k + 1" "[]"]) auto
  qed
qed

subsection \<open>The invariant of a phase\<close>

definition slot_buffer :: "(request_container \<times> u64 option) option \<Rightarrow> nat list" where
  "slot_buffer slot = (case slot of None \<Rightarrow> [] | Some (rc, _) \<Rightarrow> buffer (rc_local_buffer rc))"

text \<open>A scheduler with \<open>m\<close> requests that run, when \<open>k\<close> calls of Workload::next were made; it may have read an old counter.\<close>

definition slot_ok :: "nat \<Rightarrow> u64 \<Rightarrow> nat \<Rightarrow> nat \<Rightarrow> (request_container \<times> u64 option) option \<Rightarrow> bool" where
  "slot_ok N lim k m slot = (case slot of
     None \<Rightarrow> m = 0 \<and> N \<le> 500 * k
   | Some (rc, loaded) \<Rightarrow> in_workload N (rc_local_buffer rc) \<and> rc_max_pending_requests rc = lim \<and> m \<le> unat lim \<and>
       rc_scheduled_requests rc - ref_load (rc_finished_requests rc) = of_nat m \<and>
       (\<forall>f. loaded = Some f \<longrightarrow> (\<exists>p. m \<le> p \<and> p \<le> unat lim \<and> rc_scheduled_requests rc - f = of_nat p)))"

definition pending :: "bench \<Rightarrow> nat \<Rightarrow> nat" where
  "pending s c = length (filter (\<lambda>r. fst r = c) (be_running s))"

definition alive :: "bench \<Rightarrow> nat" where
  "alive s = length (filter (\<lambda>slot. slot \<noteq> None) (be_schedulers s))"

definition requests :: "bench \<Rightarrow> nat multiset" where
  "requests s = mset (map unat (be_done s)) + mset (map (unat \<circ> fst \<circ> snd) (be_running s)) + mset (concat (map slot_buffer (be_schedulers s)))"

definition bench_core :: "nat \<Rightarrow> numeric_tuple list \<Rightarrow> bench \<Rightarrow> bool" where
  "bench_core n ts s \<longleftrightarrow> length (be_schedulers s) = n \<and>
     (\<forall>c < n. slot_ok (length ts) (max_parallel_requests div of_nat n) (be_calls s) (pending s c) (be_schedulers s ! c)) \<and>
     (\<forall>(c, i, task) \<in> set (be_running s). c < n \<and> task_of (be_workload s) i task) \<and>
     requests s = mset [0..<min (length ts) (500 * be_calls s)] \<and> wl_index (be_workload s) = of_nat (500 * be_calls s) \<and>
     be_open_requests s = of_nat (alive s) \<and> (be_stopped s \<longleftrightarrow> alive s = 0)"

text \<open>The index of the workload is a 64 bit counter: the invariant holds until it wraps around.\<close>

definition bench_inv :: "nat \<Rightarrow> numeric_tuple list \<Rightarrow> bench \<Rightarrow> bool" where
  "bench_inv n ts s \<longleftrightarrow> 0 < n \<and> n < 65536 \<and> length ts < 2 ^ 64 \<and> workload_current (be_workload s) = ts \<and>
     (500 * be_calls s < 2 ^ 64 \<longrightarrow> bench_core n ts s)"

lemma slot_ok_mono: "slot_ok N lim k m slot \<Longrightarrow> k \<le> k' \<Longrightarrow> slot_ok N lim k' m slot"
  by (auto simp: slot_ok_def split: option.splits)

lemma slot_ok_load: "slot_ok N lim k m (Some (rc, loaded)) \<Longrightarrow> slot_ok N lim k m (Some (rc, Some (ref_load (rc_finished_requests rc))))"
  unfolding slot_ok_def by (simp del: diff_eq_eq) blast

lemma slot_ok_finish:
  assumes "slot_ok N lim k (Suc m) (Some (rc, loaded))"
  shows "slot_ok N lim k m (Some (task_finished core_id rc, loaded))"
proof -
  have "rc_scheduled_requests rc - (ref_load (rc_finished_requests rc) + 1) = of_nat m"
    using assms by (simp add: slot_ok_def diff_diff_eq [symmetric] del: diff_eq_eq)
  moreover have "\<exists>p. m \<le> p \<and> p \<le> unat lim \<and> rc_scheduled_requests rc - f = of_nat p" if "loaded = Some f" for f
    using assms that unfolding slot_ok_def by (auto dest: Suc_leD)
  ultimately show ?thesis using assms by (simp add: slot_ok_def task_finished_def)
qed

lemma core_slot:
  "bench_core n ts s \<Longrightarrow> c < n \<Longrightarrow> slot_ok (length ts) (max_parallel_requests div of_nat n) (be_calls s) (pending s c) (be_schedulers s ! c)"
  by (simp add: bench_core_def)

lemma concat_update_mset:
  "c < length xs \<Longrightarrow> mset (concat (map f (xs[c := x]))) + mset (f (xs ! c)) = mset (concat (map f xs)) + mset (f x)"
proof (induction xs arbitrary: c)
  case (Cons y ys)
  then show ?case by (cases c) (auto simp: ac_simps)
qed simp

lemma filter_update:
  "c < length xs \<Longrightarrow> length (filter P (xs[c := x])) + (if P (xs ! c) then 1 else 0) = length (filter P xs) + (if P x then 1 else 0)"
proof (induction xs arbitrary: c)
  case (Cons y ys)
  show ?case
  proof (cases c)
    case (Suc d)
    then show ?thesis using Cons.IH [of d] Cons.prems by (cases "P y") auto
  qed auto
qed simp

lemmas alive_update = filter_update [of _ _ "\<lambda>slot. slot \<noteq> None"]

lemma load_step_inv:
  assumes "load_step c s = Some s'" "bench_inv n ts s"
  shows "bench_inv n ts s'"
proof -
  obtain rc l where c: "c < length (be_schedulers s)" "be_schedulers s ! c = Some (rc, l)"
    and s': "s' = s\<lparr>be_schedulers := (be_schedulers s)[c := Some (rc, Some (ref_load (rc_finished_requests rc)))]\<rparr>"
    using assms(1) by (auto simp: load_step_def arr_get_def split: option.splits if_splits)
  have "bench_core n ts s'" if core: "bench_core n ts s"
  proof -
    have "requests s' = requests s" "alive s' = alive s"
      using c concat_update_mset [of c "be_schedulers s" slot_buffer "be_schedulers s' ! c"] alive_update [of c "be_schedulers s" "be_schedulers s' ! c"]
      by (auto simp: s' requests_def alive_def slot_buffer_def)
    moreover have "slot_ok (length ts) (max_parallel_requests div of_nat n) (be_calls s) (pending s d) (be_schedulers s' ! d)" if "d < n" for d
      using core_slot [OF core that] slot_ok_load c by (cases "d = c") (auto simp: s')
    ultimately show ?thesis using core by (simp add: bench_core_def s' pending_def)
  qed
  then show ?thesis using assms(2) by (auto simp: bench_inv_def s')
qed

lemma finish_step_inv:
  assumes "finish_step core_id j s = Some s'" "bench_inv n ts s"
  shows "bench_inv n ts s'"
proof -
  obtain c i task rc l where j: "j < length (be_running s)" "be_running s ! j = (c, i, task)"
    and c: "c < length (be_schedulers s)" "be_schedulers s ! c = Some (rc, l)"
    and s': "s' = s\<lparr>be_schedulers := (be_schedulers s)[c := Some (task_finished core_id rc, l)],
      be_running := take j (be_running s) @ drop (Suc j) (be_running s), be_done := be_done s @ [i]\<rparr>"
    using assms(1) by (auto simp: finish_step_def arr_get_def bind_eq_Some_conv split: if_splits)
  have running: "be_running s = take j (be_running s) @ (c, i, task) # drop (Suc j) (be_running s)"
    using id_take_nth_drop [OF j(1)] j(2) by simp
  have pending: "pending s d = pending s' d + (if d = c then 1 else 0)" for d
    by (subst pending_def, subst running) (auto simp: pending_def s')
  have "bench_core n ts s'" if core: "bench_core n ts s"
  proof -
    have "mset (map (unat \<circ> fst \<circ> snd) (be_running s)) = add_mset (unat i) (mset (map (unat \<circ> fst \<circ> snd) (be_running s')))"
      by (subst running) (simp add: s')
    then have "requests s' = requests s" "alive s' = alive s"
      using c concat_update_mset [of c "be_schedulers s" slot_buffer "be_schedulers s' ! c"] alive_update [of c "be_schedulers s" "be_schedulers s' ! c"]
      by (auto simp: s' requests_def alive_def slot_buffer_def task_finished_def)
    moreover have "slot_ok (length ts) (max_parallel_requests div of_nat n) (be_calls s) (pending s' d) (be_schedulers s' ! d)" if "d < n" for d
    proof (cases "d = c")
      case True
      have "slot_ok (length ts) (max_parallel_requests div of_nat n) (be_calls s) (Suc (pending s' c)) (Some (rc, l))"
        using core_slot [OF core that] c pending [of c] True by simp
      then show ?thesis using True c slot_ok_finish by (simp add: s')
    next
      case False
      then show ?thesis using core_slot [OF core that] c pending [of d] by (simp add: s')
    qed
    moreover have "set (be_running s') \<subseteq> set (be_running s)" by (auto simp: s' dest: in_set_takeD in_set_dropD)
    ultimately show ?thesis using core by (simp add: bench_core_def s' subset_iff) fast
  qed
  then show ?thesis using assms(2) by (auto simp: bench_inv_def s')
qed

lemma slot_ok_spawn:
  assumes "slot_ok N lim k m (Some (rc, Some f))" "rc_scheduled_requests rc - f = of_nat p" "m \<le> p" "p + n \<le> unat lim" "in_workload N r"
  shows "slot_ok N lim k (m + n) (Some (rc\<lparr>rc_scheduled_requests := rc_scheduled_requests rc + of_nat n, rc_local_buffer := r\<rparr>, None))"
  using assms by (simp add: slot_ok_def algebra_simps)

text \<open>A scheduler that goes on: it spawns the first requests of its buffer, maybe after a refill.\<close>

lemma spawn_core:
  assumes core: "bench_core n ts s" and c: "c < n" "be_schedulers s ! c = Some (rc, Some f)"
    and p: "rc_scheduled_requests rc - f = of_nat p" "pending s c \<le> p" "p + length tasks \<le> unat (rc_max_pending_requests rc)"
    and adv: "advanced (length ts) (be_calls s) k' (buffer (rc_local_buffer rc)) B (be_workload s) w'"
    and r: "in_workload (length ts) r" "map (unat \<circ> fst) tasks @ buffer r = B" "\<forall>(i, task) \<in> set tasks. task_of (be_workload s) i task"
    and s': "s' = s\<lparr>be_workload := w', be_calls := k', be_schedulers := (be_schedulers s)[c := Some (rc\<lparr>rc_scheduled_requests :=
      rc_scheduled_requests rc + of_nat (length tasks), rc_local_buffer := r\<rparr>, None)], be_running := be_running s @ map (Pair c) tasks\<rparr>"
  shows "bench_core n ts s'"
proof -
  have len: "c < length (be_schedulers s)" using core c by (simp add: bench_core_def)
  have k: "be_calls s \<le> k'" using adv by (auto simp: advanced_def)
  have w: "workload_current w' = workload_current (be_workload s)" "wl_index w' = of_nat (500 * k')"
    using advanced_workload [OF adv] core unfolding bench_core_def by blast+
  have "filter (\<lambda>r. fst r = d) (map (Pair c) tasks) = (if d = c then map (Pair c) tasks else [])" for d
    by (auto simp: filter_map o_def)
  then have pending: "pending s' d = pending s d + (if d = c then length tasks else 0)" for d
    by (simp add: pending_def s')
  have alive: "alive s' = alive s"
    using c len alive_update [of c "be_schedulers s" "be_schedulers s' ! c"] by (simp add: s' alive_def)
  have "requests s' + mset (buffer (rc_local_buffer rc)) = requests s + mset (map (unat \<circ> fst) tasks) + mset (buffer r)"
    using c len concat_update_mset [of c "be_schedulers s" slot_buffer "be_schedulers s' ! c"]
    by (simp add: s' requests_def slot_buffer_def o_def)
  also have "\<dots> = mset [0..<min (length ts) (500 * be_calls s)] + mset B"
  proof -
    have "requests s = mset [0..<min (length ts) (500 * be_calls s)]" using core by (simp only: bench_core_def)
    then show ?thesis by (simp only: r(2) [symmetric] mset_append add.assoc)
  qed
  finally have requests: "requests s' = mset [0..<min (length ts) (500 * k')]"
    by (simp only: advanced_mset [OF adv] add_right_cancel)
  have slots: "slot_ok (length ts) (max_parallel_requests div of_nat n) k' (pending s' d) (be_schedulers s' ! d)" if "d < n" for d
  proof (rule slot_ok_mono [OF _ k], cases "d = c")
    case True
    have ok: "slot_ok (length ts) (max_parallel_requests div of_nat n) (be_calls s) (pending s c) (Some (rc, Some f))"
      using core_slot [OF core c(1)] c(2) by simp
    then have "rc_max_pending_requests rc = max_parallel_requests div of_nat n" by (simp add: slot_ok_def)
    with slot_ok_spawn [OF ok p(1,2) _ r(1)] p(3) True len
    show "slot_ok (length ts) (max_parallel_requests div of_nat n) (be_calls s) (pending s' d) (be_schedulers s' ! d)"
      by (simp add: pending) (simp add: s')
  next
    case False
    then show "slot_ok (length ts) (max_parallel_requests div of_nat n) (be_calls s) (pending s' d) (be_schedulers s' ! d)"
      using core_slot [OF core that] by (simp add: pending) (simp add: s')
  qed
  have "task_of w' = task_of (be_workload s)" using w(1) by (simp add: task_of_def workload_get_def fun_eq_iff)
  then have running: "\<forall>(c, i, task) \<in> set (be_running s'). c < n \<and> task_of w' i task"
    using core c(1) r(3) by (auto simp: bench_core_def s')
  have s's: "length (be_schedulers s') = n" "be_calls s' = k'" "be_workload s' = w'" "be_stopped s' = be_stopped s" "be_open_requests s' = be_open_requests s"
    using core by (simp_all add: bench_core_def s')
  show ?thesis
    unfolding bench_core_def s's alive using core slots running requests w(2) by (simp add: bench_core_def)
qed

text \<open>A scheduler that is finished: it has nothing in its buffer and no request of it runs.\<close>

lemma remove_core:
  assumes core: "bench_core n ts s" and n: "n < 65536" and c: "c < n" "be_schedulers s ! c = Some (rc, Some f)" "pending s c = 0"
    and last: "buffer (rc_local_buffer rc) = []" "length ts \<le> 500 * be_calls s"
    and adv: "advanced (length ts) (be_calls s) k' (buffer (rc_local_buffer rc)) [] (be_workload s) w'"
    and s': "s' = (requests_finished (s\<lparr>be_workload := w', be_calls := k'\<rparr>))\<lparr>be_schedulers := (be_schedulers s)[c := None]\<rparr>"
  shows "bench_core n ts s'"
proof -
  have len: "c < length (be_schedulers s)" using core c by (simp add: bench_core_def)
  have k: "be_calls s \<le> k'" using adv by (auto simp: advanced_def)
  have w: "workload_current w' = workload_current (be_workload s)" "wl_index w' = of_nat (500 * k')"
    using advanced_workload [OF adv] core unfolding bench_core_def by blast+
  have fields: "be_schedulers s' = (be_schedulers s)[c := None]" "be_running s' = be_running s" "be_done s' = be_done s" "be_calls s' = k'"
    "be_workload s' = w'" "be_open_requests s' = be_open_requests s - 1"
    "be_stopped s' = (be_stopped s \<or> be_open_requests s - 1 = 0)"
    by (simp_all add: s' requests_finished_def Let_def)
  have alive: "alive s = Suc (alive s')"
    using c len alive_update [of c "be_schedulers s" None] by (simp add: fields alive_def)
  have "alive s \<le> n" using core by (auto simp: alive_def bench_core_def)
  then have small: "alive s' < 65536" using alive n by simp
  have "be_open_requests s - 1 = of_nat (alive s')" using core alive by (simp add: bench_core_def)
  moreover from this have "be_open_requests s - 1 = 0 \<longleftrightarrow> alive s' = 0"
    using u16_small [OF small] by (simp add: word_unat_eq_iff del: of_nat_eq_0_iff)
  moreover have "\<not> be_stopped s" using core alive by (simp add: bench_core_def)
  ultimately have stop: "be_open_requests s' = of_nat (alive s')" "be_stopped s' \<longleftrightarrow> alive s' = 0" by (simp_all add: fields)
  have "requests s' = requests s"
    using c len last(1) concat_update_mset [of c "be_schedulers s" slot_buffer None] by (simp add: requests_def slot_buffer_def fields)
  moreover have "requests s = mset [0..<min (length ts) (500 * be_calls s)]" using core by (simp only: bench_core_def)
  ultimately have requests: "requests s' = mset [0..<min (length ts) (500 * k')]"
    using last(2) k by (simp add: min_def)
  have pending: "pending s' = pending s" by (simp add: pending_def fields fun_eq_iff)
  have slots: "slot_ok (length ts) (max_parallel_requests div of_nat n) k' (pending s' d) (be_schedulers s' ! d)" if "d < n" for d
  proof (rule slot_ok_mono [OF _ k])
    show "slot_ok (length ts) (max_parallel_requests div of_nat n) (be_calls s) (pending s' d) (be_schedulers s' ! d)"
      using core_slot [OF core that] c(3) last(2) len by (cases "d = c") (simp_all add: pending fields slot_ok_def)
  qed
  have "task_of w' = task_of (be_workload s)" using w(1) by (simp add: task_of_def workload_get_def fun_eq_iff)
  then have running: "\<forall>(c, i, task) \<in> set (be_running s'). c < n \<and> task_of w' i task"
    using core by (simp add: bench_core_def fields)
  have "length (be_schedulers s') = n" using core by (simp add: bench_core_def fields)
  then show ?thesis
    using slots running requests w(2) stop unfolding bench_core_def fields(4,5) by blast
qed

lemma workload_next_current: "workload_next n w = (r, w') \<Longrightarrow> workload_current w' = workload_current w"
  by (auto simp: workload_next_def workload_current_def Let_def)

lemma container_next_current: "container_next f rc w = (r, rc', w') \<Longrightarrow> workload_current w' = workload_current w"
  by (auto simp: container_next_def container_refill_def Let_def split: if_splits prod.splits dest: workload_next_current)

lemma scheduler_execute_current: "scheduler_execute old tree f rc w = Some (result, rc', w') \<Longrightarrow> workload_current w' = workload_current w"
  by (auto simp: scheduler_execute_def bind_eq_Some_conv split: if_splits prod.splits dest: container_next_current)

lemma execute_step_inv:
  assumes "execute_step old tree c s = Some s'" "bench_inv n ts s"
  shows "bench_inv n ts s'"
proof -
  obtain rc f result rc' w' where c: "c < length (be_schedulers s)" "be_schedulers s ! c = Some (rc, Some f)"
    and ex: "scheduler_execute old tree f rc (be_workload s) = Some (result, rc', w')"
    and s': "Some s' = (let s' = s\<lparr>be_workload := w', be_calls := be_calls s + (if wl_index w' = wl_index (be_workload s) then 0 else 1)\<rparr>
      in case result of
           Succeed tasks \<Rightarrow> Some (s'\<lparr>be_schedulers := (be_schedulers s)[c := Some (rc', None)], be_running := be_running s @ map (Pair c) tasks\<rparr>)
         | Remove \<Rightarrow> Some ((requests_finished s')\<lparr>be_schedulers := (be_schedulers s)[c := None]\<rparr>))"
    using assms(1) by (auto simp: execute_step_def arr_get_def bind_eq_Some_conv split: option.splits if_splits)
  have ts: "workload_current (be_workload s) = ts" "length ts < 2 ^ 64" "n < 65536" using assms(2) by (simp_all add: bench_inv_def)
  have "be_workload s' = w'" and calls: "be_calls s \<le> be_calls s'"
    using s' by (auto simp: Let_def requests_finished_def split: scheduler_result.splits)
  then have cur: "workload_current (be_workload s') = ts" using scheduler_execute_current [OF ex] ts(1) by simp
  have "bench_core n ts s'" if small: "500 * be_calls s < 2 ^ 64"
  proof -
    have core: "bench_core n ts s" using assms(2) small by (simp add: bench_inv_def)
    then have cn: "c < n" and idx: "wl_index (be_workload s) = of_nat (500 * be_calls s)" using c by (simp_all add: bench_core_def)
    have ok: "slot_ok (length ts) (max_parallel_requests div of_nat n) (be_calls s) (pending s c) (Some (rc, Some f))"
      using core_slot [OF core cn] c by simp
    then obtain p where p: "pending s c \<le> p" "p \<le> unat (rc_max_pending_requests rc)" "rc_scheduled_requests rc - f = of_nat p"
      and buf: "in_workload (length ts) (rc_local_buffer rc)"
      by (auto simp: slot_ok_def simp del: diff_eq_eq)
    have len: "length (workload_current (be_workload s)) = length ts" using ts by simp
    from ex idx small len ts(2) buf p(3,2) show ?thesis
    proof (cases rule: scheduler_execute_cases)
      case (spawned tasks r k' B)
      have k': "k' = be_calls s + (if wl_index w' = wl_index (be_workload s) then 0 else 1)"
        using advanced_workload [OF spawned(3)] idx by blast
      show ?thesis
        using spawn_core [OF core cn c(2) p(3,1) spawned(4,3,5,6,7)] s' spawned(1,2) by (simp add: Let_def k')
    next
      case removed
      have k': "be_calls s + 1 = be_calls s + (if wl_index w' = wl_index (be_workload s) then 0 else 1)"
        using advanced_workload [OF removed(5)] idx by blast
      have "pending s c = 0" using p(1) removed(2) by simp
      then show ?thesis
        using remove_core [OF core ts(3) cn c(2) _ removed(3,4,5)] s' removed(1) by (simp add: Let_def k' [symmetric])
    qed
  qed
  then show ?thesis using assms(2) calls cur by (simp add: bench_inv_def)
qed

subsection \<open>The start of a phase\<close>

definition new_slot :: "nat \<Rightarrow> u64 \<Rightarrow> (request_container \<times> u64 option) option \<Rightarrow> bool" where
  "new_slot N lim slot \<longleftrightarrow> (\<exists>rc. slot = Some (rc, None) \<and> in_workload N (rc_local_buffer rc) \<and> rc_max_pending_requests rc = lim \<and>
     rc_scheduled_requests rc = 0 \<and> ref_load (rc_finished_requests rc) = 0)"

lemma new_slot_ok: "new_slot N lim slot \<Longrightarrow> slot_ok N lim k 0 slot \<and> slot \<noteq> None"
  by (auto simp: new_slot_def slot_ok_def)

lemma create_schedulers_ok:
  assumes "wl_index w = of_nat (500 * k)" "500 * (k + n) < 2 ^ 64" "length (workload_current w) = N" "N < 2 ^ 64"
    "create_schedulers core_count core_index n w = (slots, w')"
  shows "length slots = n \<and> wl_index w' = of_nat (500 * (k + n)) \<and>
    [0..<min N (500 * k)] @ concat (map slot_buffer slots) = [0..<min N (500 * (k + n))] \<and>
    (\<forall>slot \<in> set slots. new_slot N (max_parallel_requests div of_nat core_count) slot)"
  using assms
proof (induction n arbitrary: core_index k w slots w')
  case (Suc n)
  have "500 * k < 2 ^ 64" using Suc.prems(2) by simp
  then obtain r where r: "workload_next batch_size w = (r, w\<lparr>wl_index := of_nat (500 * (k + 1))\<rparr>)"
    "buffer (ri_of_pair r) = batch N k" "in_workload N (ri_of_pair r)"
    using workload_next_batch [OF Suc.prems(1) _ Suc.prems(3,4)] by blast
  let ?w = "w\<lparr>wl_index := of_nat (500 * (k + 1))\<rparr>"
  obtain rest w2 where rest: "create_schedulers core_count (core_index + 1) n ?w = (rest, w2)"
    by (cases "create_schedulers core_count (core_index + 1) n ?w") auto
  define rc where "rc = \<lparr>rc_finished_requests = ref_new (of_nat core_index), rc_scheduled_requests = 0, rc_local_buffer = ri_of_pair r,
    rc_max_pending_requests = max_parallel_requests div of_nat core_count\<rparr>"
  have eq: "slots = Some (rc, None) # rest" "w' = w2"
    using Suc.prems(5) r(1) rest by (simp_all add: container_new_def rc_def)
  have "length (workload_current ?w) = N" using Suc.prems(3) by (simp add: workload_current_def)
  then have ih: "length rest = n \<and> wl_index w2 = of_nat (500 * (k + 1 + n)) \<and>
    [0..<min N (500 * (k + 1))] @ concat (map slot_buffer rest) = [0..<min N (500 * (k + 1 + n))] \<and>
    (\<forall>slot \<in> set rest. new_slot N (max_parallel_requests div of_nat core_count) slot)"
    using Suc.prems(2,4) by (intro Suc.IH [OF _ _ _ _ rest]) simp_all
  have "[0..<min N (500 * k)] @ concat (map slot_buffer slots) = ([0..<min N (500 * k)] @ batch N k) @ concat (map slot_buffer rest)"
    using r(2) by (simp add: eq slot_buffer_def rc_def)
  also have "\<dots> = [0..<min N (500 * (k + Suc n))]"
    using ih by (simp only: batches) simp
  finally show ?case using ih r(3) by (simp add: eq new_slot_def rc_def)
qed simp

lemma create_schedulers_current: "create_schedulers core_count core_index n w = (slots, w') \<Longrightarrow> workload_current w' = workload_current w"
  by (induction n arbitrary: core_index w slots)
    (auto simp: container_new_def Let_def split: prod.splits dest: workload_next_current)

lemma bench_start_inv:
  assumes "0 < n" "n < 65536" "wl_index w = 0" "length (workload_current w) < 2 ^ 64"
  shows "bench_inv n (workload_current w) (bench_start n w)"
proof -
  let ?N = "length (workload_current w)"
  obtain slots w' where cr: "create_schedulers n 0 n w = (slots, w')" by (cases "create_schedulers n 0 n w") auto
  have small: "500 * (0 + n) < (2 :: nat) ^ 64" using assms(2) by simp
  have ok: "length slots = n" "wl_index w' = of_nat (500 * n)" "concat (map slot_buffer slots) = [0..<min ?N (500 * n)]"
    "\<forall>slot \<in> set slots. new_slot ?N (max_parallel_requests div of_nat n) slot"
    using create_schedulers_ok [OF _ small _ assms(4) cr] assms(3) by simp_all
  have "filter (\<lambda>slot. slot \<noteq> None) slots = slots" using ok(4) new_slot_ok by (intro filter_True) blast
  moreover have "workload_current w' = workload_current w" by (rule create_schedulers_current [OF cr])
  ultimately show ?thesis
    using ok assms new_slot_ok
    by (simp add: bench_inv_def bench_core_def bench_start_def cr pending_def alive_def requests_def all_set_conv_all_nth)
qed

definition bench_initial :: "nat \<Rightarrow> numeric_tuple list \<Rightarrow> bench \<Rightarrow> bool" where
  "bench_initial n ts s \<longleftrightarrow> (\<exists>w. s = bench_start n w \<and> 0 < n \<and> n < 65536 \<and> wl_index w = 0 \<and> workload_current w = ts \<and> length ts < 2 ^ 64)"

interpretation bench_system: step_system "bench_initial n ts" bench_step "bench_inv n ts" for n ts
proof
  show "bench_inv n ts s" if "bench_initial n ts s" for s
    using that bench_start_inv by (auto simp: bench_initial_def)
  show "bench_inv n ts s'" if "bench_step s s'" "bench_inv n ts s" for s s'
    using that by (elim bench_stepE) (blast intro: load_step_inv execute_step_inv finish_step_inv)+
qed

lemma bench_reachable_core:
  assumes "bench_reachable n w s" "0 < n" "n < 65536" "wl_index w = 0" "length (workload_current w) < 2 ^ 64" "500 * be_calls s < 2 ^ 64"
  shows "bench_core n (workload_current w) s" "workload_current (be_workload s) = workload_current w"
proof -
  have "bench_initial n (workload_current w) (bench_start n w)" using assms by (auto simp: bench_initial_def)
  then have "bench_inv n (workload_current w) s"
    using assms(1) unfolding bench_reachable_def by (rule bench_system.reachable_inv)
  then show "bench_core n (workload_current w) s" "workload_current (be_workload s) = workload_current w"
    using assms(6) by (simp_all add: bench_inv_def)
qed

subsection \<open>What a phase guarantees\<close>

lemma sum_pending: "\<forall>r \<in> set rs. fst r < (n :: nat) \<Longrightarrow> (\<Sum>c < n. length (filter (\<lambda>r. fst r = c) rs)) = length rs"
proof (induction rs)
  case (Cons r rs)
  have "(\<Sum>c < n. length (filter (\<lambda>x. fst x = c) (r # rs))) = (\<Sum>c < n. (if fst r = c then 1 else 0) + length (filter (\<lambda>x. fst x = c) rs))"
    by (rule sum.cong) auto
  moreover have "(\<Sum>c < n. if fst r = c then 1 else 0) = (\<Sum>c \<in> {fst r}. 1 :: nat)"
    using Cons.prems by (intro sum.mono_neutral_cong_right) auto
  ultimately show ?case using Cons by (simp add: sum.distrib)
qed simp

lemma slot_pending: "slot_ok N lim k m slot \<Longrightarrow> m \<le> unat lim"
  by (auto simp: slot_ok_def split: option.splits)

lemma limit_total:
  assumes "0 < n" "n < 65536"
  shows "n * unat (max_parallel_requests div of_nat n) \<le> 1500"
proof -
  have "unat (of_nat n :: u64) = n" using assms(2) by (intro unat_u64) simp
  then have "unat (max_parallel_requests div of_nat n) = 1500 div n" by (simp add: max_parallel_requests_def unat_div)
  then show ?thesis by simp
qed

text \<open>
  C16: in every state of a phase, the requests that are done or run are requests of the workload, none of them twice;
  each one that runs has the task of its tuple; and no more than 1500 of them run in the whole system. When the phase
  is stopped, nothing runs any more and every request of the workload was done, exactly once. It holds for every
  interleaving of the schedulers and the requests, until the 64 bit index of the workload wraps around.
\<close>

theorem phase_does_every_request_once:
  assumes "bench_reachable n w s" "0 < n" "n < 65536" "wl_index w = 0" "length (workload_current w) < 2 ^ 64" "500 * be_calls s < 2 ^ 64"
  shows "distinct (map unat (be_done s) @ map (unat \<circ> fst \<circ> snd) (be_running s)) \<and>
    (\<forall>(c, i, task) \<in> set (be_running s). c < n \<and> task_of (be_workload s) i task) \<and> length (be_running s) \<le> 1500 \<and>
    (be_stopped s \<longrightarrow> be_running s = [] \<and> mset (map unat (be_done s)) = mset [0..<length (workload_current w)])"
proof (intro conjI)
  let ?N = "length (workload_current w)"
  note core = bench_reachable_core(1) [OF assms]
  have req: "requests s = mset [0..<min ?N (500 * be_calls s)]" using core by (simp only: bench_core_def)
  then have "mset ((map unat (be_done s) @ map (unat \<circ> fst \<circ> snd) (be_running s)) @ concat (map slot_buffer (be_schedulers s))) =
    mset [0..<min ?N (500 * be_calls s)]"
    by (simp only: requests_def mset_append)
  then have "distinct ((map unat (be_done s) @ map (unat \<circ> fst \<circ> snd) (be_running s)) @ concat (map slot_buffer (be_schedulers s)))"
    by (metis distinct_upt mset_eq_imp_distinct_iff)
  then show "distinct (map unat (be_done s) @ map (unat \<circ> fst \<circ> snd) (be_running s))" by (simp only: distinct_append)
  show running: "\<forall>(c, i, task) \<in> set (be_running s). c < n \<and> task_of (be_workload s) i task" using core by (simp add: bench_core_def)
  have "length (be_running s) = (\<Sum>c < n. pending s c)"
    using sum_pending [of "be_running s" n] running by (auto simp: pending_def case_prod_unfold)
  also have "\<dots> \<le> n * unat (max_parallel_requests div of_nat n)"
    using sum_bounded_above [of "{..<n}" "pending s" "unat (max_parallel_requests div of_nat n)"] slot_pending [OF core_slot [OF core]] by simp
  also have "\<dots> \<le> 1500" by (rule limit_total [OF assms(2,3)])
  finally show "length (be_running s) \<le> 1500" .
  show "be_stopped s \<longrightarrow> be_running s = [] \<and> mset (map unat (be_done s)) = mset [0..<?N]"
  proof
    assume "be_stopped s"
    then have "filter (\<lambda>slot. slot \<noteq> None) (be_schedulers s) = []" using core by (simp add: bench_core_def alive_def)
    moreover have "be_schedulers s ! c \<in> set (be_schedulers s)" if "c < n" for c using that core by (simp add: bench_core_def)
    ultimately have none: "be_schedulers s ! c = None" if "c < n" for c using that unfolding filter_empty_conv by blast
    have slot: "pending s c = 0 \<and> ?N \<le> 500 * be_calls s" if "c < n" for c
      using core_slot [OF core that] none [OF that] by (simp add: slot_ok_def)
    have run: "be_running s = []" using \<open>length (be_running s) = (\<Sum>c < n. pending s c)\<close> slot by simp
    have buffers: "concat (map slot_buffer (be_schedulers s)) = []"
      using none core by (auto simp: slot_buffer_def bench_core_def in_set_conv_nth)
    have "requests s = mset (map unat (be_done s))"
      by (simp only: requests_def run buffers list.map mset.simps add.right_neutral)
    then show "be_running s = [] \<and> mset (map unat (be_done s)) = mset [0..<?N]"
      using run req slot [OF assms(2)] by (simp add: min_def)
  qed
qed

subsection \<open>A phase goes on\<close>

definition no_deletes :: "workload \<Rightarrow> bool" where
  "no_deletes w \<longleftrightarrow> (\<forall>t \<in> set (workload_current w). nt_type t \<noteq> DELETE)"

lemma request_task_total: "nt_type tuple \<noteq> DELETE \<longleftrightarrow> (\<exists>task. request_task old tree tuple = Some task)"
  by (cases "nt_type tuple") (simp_all add: request_task_def)

lemma request_tasks_total:
  "no_deletes w \<Longrightarrow> \<forall>i \<in> set is. unat i < length (workload_current w) \<Longrightarrow> \<exists>tasks. request_tasks old tree w is = Some tasks \<and> length tasks = length is"
proof (induction "is")
  case (Cons i js)
  then have "nt_type (workload_current w ! unat i) \<noteq> DELETE" by (simp add: no_deletes_def)
  then obtain task where "request_task old tree (workload_current w ! unat i) = Some task" using request_task_total by blast
  then show ?case using Cons by (auto simp: workload_get_def arr_get_def)
qed simp

lemma no_deletes_refilled: "refilled N k k' B B' w w' \<Longrightarrow> no_deletes w' = no_deletes w \<and> workload_current w' = workload_current w"
  by (auto simp: refilled_def no_deletes_def workload_current_def)

text \<open>A scheduler without pending requests spawns a request or is finished.\<close>

lemma scheduler_progress:
  assumes "wl_index w = of_nat (500 * k)" "500 * k < 2 ^ 64" "length (workload_current w) = N" "N < 2 ^ 64" "in_workload N (rc_local_buffer rc)"
    "rc_scheduled_requests rc - f = of_nat 0" "0 < unat (rc_max_pending_requests rc)" "no_deletes w"
  shows "\<exists>result rc' w'. scheduler_execute old tree f rc w = Some (result, rc', w') \<and> result \<noteq> Succeed []"
  using assms(1-6) le0
proof (cases rule: container_next_cases)
  case full
  then show ?thesis using assms(7) by simp
next
  case (new_ones next_requests r w' k' B n)
  have "has_new next_requests" using new_ones(3,4,6) by (auto simp: has_new_buffer)
  moreover have "\<forall>i \<in> set (map of_nat (buffer next_requests) :: u64 list). unat i < length (workload_current w')"
    using new_ones(8) assms(3,4) no_deletes_refilled [OF new_ones(2)] by (auto simp: in_workload_def buffer_def unat_u64)
  then obtain tasks where "request_tasks old tree w' (map of_nat (buffer next_requests)) = Some tasks" "length tasks = length (buffer next_requests)"
    using request_tasks_total assms(8) no_deletes_refilled [OF new_ones(2)] by (metis length_map)
  ultimately show ?thesis
    using new_ones(1) count_up_buffer [OF new_ones(8) assms(4)] by (auto simp: scheduler_execute_def has_new_buffer)
next
  case (end_of_workload r w')
  then show ?thesis by (simp add: scheduler_execute_def make_finished_def has_new_def is_finished_def)
qed

lemma limit_positive:
  assumes "0 < n" "n \<le> 1500"
  shows "0 < unat (max_parallel_requests div of_nat n)"
proof -
  have "unat (of_nat n :: u64) = n" using assms(2) by (intro unat_u64) simp
  then have "unat (max_parallel_requests div of_nat n) = 1500 div n" by (simp add: max_parallel_requests_def unat_div)
  then show ?thesis using assms by (simp add: div_greater_zero_iff)
qed

text \<open>
  C17: a phase that is not over can go on. A request that runs can report to its scheduler, whose container still exists;
  and when no request runs, any scheduler that is left spawns at least one request or is finished as soon as it is
  executed. It holds for up to 1500 cores and workloads without deletions.
\<close>

theorem phase_goes_on:
  assumes "bench_reachable n w s" "0 < n" "n \<le> 1500" "wl_index w = 0" "length (workload_current w) < 2 ^ 64" "500 * be_calls s < 2 ^ 64"
    "no_deletes w" "\<not> be_stopped s"
  shows "(\<forall>j < length (be_running s). \<exists>s'. finish_step core_id j s = Some s') \<and>
    (be_running s = [] \<longrightarrow> (\<exists>c s1 s2. load_step c s = Some s1 \<and> execute_step old tree c s1 = Some s2 \<and>
      (be_running s2 \<noteq> [] \<or> be_open_requests s2 = be_open_requests s - 1)))"
proof (intro conjI allI impI)
  let ?N = "length (workload_current w)"
  have n: "n < 65536" using assms(3) by simp
  note core = bench_reachable_core(1) [OF assms(1,2) n assms(4-6)] and cur = bench_reachable_core(2) [OF assms(1,2) n assms(4-6)]
  show "\<exists>s'. finish_step core_id j s = Some s'" if j: "j < length (be_running s)" for j
  proof -
    obtain c i task where r: "be_running s ! j = (c, i, task)" by (cases "be_running s ! j") auto
    then have mem: "(c, i, task) \<in> set (be_running s)" using j nth_mem by metis
    then have c: "c < n" using core by (auto simp: bench_core_def)
    have "pending s c \<noteq> 0" using mem by (force simp: pending_def filter_empty_conv)
    then obtain rc l where "be_schedulers s ! c = Some (rc, l)"
      using core_slot [OF core c] by (auto simp: slot_ok_def split: option.splits)
    then show ?thesis using j r c core by (simp add: finish_step_def arr_get_def bench_core_def)
  qed
  assume none: "be_running s = []"
  have "alive s \<noteq> 0" using core assms(8) by (simp add: bench_core_def)
  then obtain slot where "slot \<in> set (be_schedulers s)" "slot \<noteq> None" by (auto simp: alive_def filter_empty_conv)
  then obtain c rc l where c: "c < n" "be_schedulers s ! c = Some (rc, l)" using core by (auto simp: in_set_conv_nth bench_core_def)
  let ?f = "ref_load (rc_finished_requests rc)"
  have ok: "slot_ok ?N (max_parallel_requests div of_nat n) (be_calls s) 0 (Some (rc, l))"
    using core_slot [OF core c(1)] c(2) none by (simp add: pending_def)
  have "\<exists>result rc' w'. scheduler_execute old tree ?f rc (be_workload s) = Some (result, rc', w') \<and> result \<noteq> Succeed []"
  proof (rule scheduler_progress [OF _ assms(6) _ assms(5)])
    show "wl_index (be_workload s) = of_nat (500 * be_calls s)" using core by (simp only: bench_core_def)
    show "length (workload_current (be_workload s)) = ?N" "no_deletes (be_workload s)" using cur assms(7) by (simp_all add: no_deletes_def)
    show "in_workload ?N (rc_local_buffer rc)" "rc_scheduled_requests rc - ?f = of_nat 0" "0 < unat (rc_max_pending_requests rc)"
      using ok limit_positive [OF assms(2,3)] by (auto simp: slot_ok_def)
  qed
  then obtain result rc' w' where ex: "scheduler_execute old tree ?f rc (be_workload s) = Some (result, rc', w')" "result \<noteq> Succeed []" by blast
  let ?s1 = "s\<lparr>be_schedulers := (be_schedulers s)[c := Some (rc, Some ?f)]\<rparr>"
  have len: "c < length (be_schedulers s)" using core c by (simp add: bench_core_def)
  have "load_step c s = Some ?s1" using c len by (simp add: load_step_def arr_get_def)
  moreover have "\<exists>s2. execute_step old tree c ?s1 = Some s2 \<and> (be_running s2 \<noteq> [] \<or> be_open_requests s2 = be_open_requests s - 1)"
    using len ex by (cases result) (auto simp: execute_step_def arr_get_def requests_finished_def Let_def)
  ultimately show "\<exists>c s1 s2. load_step c s = Some s1 \<and> execute_step old tree c s1 = Some s2 \<and>
      (be_running s2 \<noteq> [] \<or> be_open_requests s2 = be_open_requests s - 1)" by blast
qed

text \<open>A deletion in the workload dereferences a null pointer, and with more than 1500 cores nothing is ever spawned.\<close>

lemma deletion_is_not_scheduled:
  assumes "i \<in> set is" "workload_get w i = Some t" "nt_type t = DELETE"
  shows "request_tasks old tree w is = None"
proof (cases "request_tasks old tree w is")
  case (Some tasks)
  note ok = request_tasks_ok [OF Some]
  then obtain task where "(i, task) \<in> set tasks" using assms(1) by auto
  with ok have "task_of w i task" by auto
  then have "nt_type t \<noteq> DELETE" using assms(2) request_task_total by (auto simp: task_of_def)
  with assms(3) show ?thesis by simp
qed

lemma too_many_cores_never_spawn:
  assumes "1500 < n" "n < 65536" "rc_max_pending_requests rc = max_parallel_requests div of_nat n"
  shows "scheduler_execute old tree f rc w = Some (Succeed [], rc, w)"
proof -
  have "unat (of_nat n :: u64) = n" using assms(2) by (intro unat_u64) simp
  then have "unat (max_parallel_requests div of_nat n) = 0" using assms(1) by (simp add: max_parallel_requests_def unat_div)
  then have "rc_max_pending_requests rc = 0" using assms(3) by (simp add: unat_eq_zero)
  then show ?thesis by (simp add: scheduler_execute_def container_next_def make_no_new_def has_new_def is_finished_def)
qed

text \<open>A run of a phase with one request on one core.\<close>

definition example_tree :: "u64 tree" where
  "example_tree = \<lparr>bt_height = 1, bt_isolation_level = Exclusive, bt_protocol = ProtocolQueue, bt_root = 0, bt_nodes = (\<lambda>_. None)\<rparr>"

definition example_workload :: workload where
  "example_workload =
     \<lparr>wl_set = \<lparr>ws_fill = [\<lparr>nt_type = INSERT, nt_key = 7, nt_value = 8\<rparr>], ws_mixed = [], ws_contains_update = False\<rparr>, wl_phase = FILL, wl_index = 0\<rparr>"

definition example_phase :: "bench option" where
  "example_phase = do {
     s1 \<leftarrow> load_step 0 (bench_start 1 example_workload);
     s2 \<leftarrow> execute_step 0 example_tree 0 s1;
     s3 \<leftarrow> finish_step 0 0 s2;
     s4 \<leftarrow> load_step 0 s3;
     execute_step 0 example_tree 0 s4
   }"

lemma example_phase_reachable:
  assumes "example_phase = Some s"
  shows "bench_reachable 1 example_workload s"
proof -
  obtain s1 s2 s3 s4 where "bench_step (bench_start 1 example_workload) s1" "bench_step s1 s2" "bench_step s2 s3" "bench_step s3 s4" "bench_step s4 s"
    using assms unfolding example_phase_def bind_eq_Some_conv by (metis bench_load bench_execute bench_finish)
  then show ?thesis unfolding bench_reachable_def by (metis converse_rtranclp_into_rtranclp rtranclp.rtrancl_refl)
qed

lemma example_phase_runs: "map_option (\<lambda>s. (be_stopped s, be_calls s)) example_phase = Some (True, 2)"
  by (simp add: example_phase_def bench_start_def create_schedulers.simps container_new_def example_workload_def
    load_step_def execute_step_def finish_step_def scheduler_execute_def container_next_def container_refill_def
    workload_next_def workload_size_def workload_current_def workload_get_def arr_get_def ri_of_pair_def ri_advance_def has_new_def is_finished_def
    make_finished_def make_no_new_def request_task_def task_finished_def requests_finished_def batch_size_def max_parallel_requests_def Let_def)

lemma example_phase_ok: "wl_index example_workload = 0" "length (workload_current example_workload) = 1" "no_deletes example_workload"
  by (simp_all add: example_workload_def workload_current_def no_deletes_def)

theorem phase_does_every_request_once_witness:
  "\<exists>s. example_phase = Some s \<and> be_stopped s \<and> be_running s = [] \<and> mset (map unat (be_done s)) = {#0#}"
proof -
  obtain s where s: "example_phase = Some s" "be_stopped s" "be_calls s = 2" using example_phase_runs by auto
  have "be_running s = [] \<and> mset (map unat (be_done s)) = mset [0..<length (workload_current example_workload)]"
    using phase_does_every_request_once [OF example_phase_reachable [OF s(1)]] s(2,3) example_phase_ok by simp
  then show ?thesis using s(1,2) example_phase_ok(2) by (intro exI [of _ s]) simp
qed

theorem phase_goes_on_witness:
  "\<exists>c s1 s2. load_step c (bench_start 1 example_workload) = Some s1 \<and> execute_step 0 example_tree c s1 = Some s2 \<and>
    (be_running s2 \<noteq> [] \<or> be_open_requests s2 = be_open_requests (bench_start 1 example_workload) - 1)"
proof -
  have s: "bench_reachable 1 example_workload (bench_start 1 example_workload)" by (simp add: bench_reachable_def)
  have "be_running (bench_start 1 example_workload) = []" "be_calls (bench_start 1 example_workload) = 1" "\<not> be_stopped (bench_start 1 example_workload)"
    by (simp_all add: bench_start_def case_prod_unfold Let_def)
  then show ?thesis using phase_goes_on [OF s, of 0 0 example_tree] example_phase_ok by simp
qed

end
