(* ===== verification/ProfilerModel.thy ===== *)
theory ProfilerModel
  imports SchedulerModel
begin

section \<open>The idle profiler\<close>

text \<open>
  src/mx/tasking/profiling/profiling_task.h and profiling_task.cpp, and Scheduler::profile. A profiling task of low priority
  on every channel runs when nothing else is there; it fills the channel until there is a task, and
  records how long that took. At the end the recorded ranges are written relative to the start.

  Time stamps are arguments. While a profiling task waits, other threads stop the scheduler and append tasks to the queues of the
  channel: \<open>running i\<close> is the flag and \<open>arrive i\<close> what happened to links and channel in round \<open>i\<close> of its loop. The
  output is a list of entries instead of text.

  The lemmas show that the loop ends as soon as the scheduler is stopped or a task has arrived, and that the ranges that
  are written lie between 0 and the end.
\<close>

subsection \<open>Idle ranges and the profiling task\<close>

record idle_range =
  ir_start :: u64
  ir_end :: u64

definition ticks_per_unit :: u64 where
  "ticks_per_unit = 2000000"

definition idle_nanoseconds :: "idle_range \<Rightarrow> u64" where
  "idle_nanoseconds r = (ir_end r - ir_start r) div ticks_per_unit"

definition idle_normalize :: "u64 \<Rightarrow> idle_range \<Rightarrow> u64 \<times> u64" where
  "idle_normalize global_start r = ((ir_start r - global_start) div ticks_per_unit, (ir_end r - global_start) div ticks_per_unit)"

fun idle_loop :: "nat \<Rightarrow> (nat \<Rightarrow> bool) \<Rightarrow> (nat \<Rightarrow> addr links \<times> channel \<Rightarrow> addr links \<times> channel) \<Rightarrow> (addr \<Rightarrow> task) \<Rightarrow> nat \<Rightarrow>
    addr links \<Rightarrow> channel \<Rightarrow> (nat \<times> addr links \<times> channel) option" where
  "idle_loop 0 running arrive tasks i h c = None"
| "idle_loop (Suc fuel) running arrive tasks i h c =
     (let (h1, c1) = arrive i (h, c)
      in if running i \<and> channel_empty c1
         then do {
           (n, h2, c2) \<leftarrow> channel_fill tasks h1 c1;
           idle_loop fuel running arrive tasks (i + 1) h2 c2
         }
         else Some (i, h1, c1))"

definition profiling_execute :: "nat \<Rightarrow> (nat \<Rightarrow> bool) \<Rightarrow> (nat \<Rightarrow> addr links \<times> channel \<Rightarrow> addr links \<times> channel) \<Rightarrow> (addr \<Rightarrow> task) \<Rightarrow>
    u64 \<Rightarrow> u64 \<Rightarrow> addr \<Rightarrow> idle_range list \<Rightarrow> addr links \<Rightarrow> channel \<Rightarrow> (task_result \<times> idle_range list \<times> addr links \<times> channel) option" where
  "profiling_execute fuel running arrive tasks start_time end_time this idle_ranges h c = do {
     (i, h', c') \<leftarrow> idle_loop fuel running arrive tasks 0 h c;
     (let range = \<lparr>ir_start = start_time, ir_end = end_time\<rparr>;
          idle_ranges' = (if idle_nanoseconds range > 10 then idle_ranges @ [range] else idle_ranges)
      in Some (if running (i + 1) then make_succeed this else make_null, idle_ranges', h', c'))
   }"

subsection \<open>The profiler\<close>

text \<open>A profiling task is its address, its channel and its ranges; the tasks of an earlier profile are deleted.\<close>

record profiler =
  pr_output_file :: "string option"
  pr_start :: u64
  pr_tasks :: "(addr \<times> u16 \<times> idle_range list) list"

definition profiler_new :: profiler where
  "profiler_new = \<lparr>pr_output_file = None, pr_start = 0, pr_tasks = []\<rparr>"

definition profiler_profile :: "string \<Rightarrow> u64 \<Rightarrow> profiler \<Rightarrow> addr list \<times> profiler" where
  "profiler_profile output_file now p =
     (map fst (pr_tasks p), p\<lparr>pr_tasks := [], pr_output_file := Some output_file, pr_start := now\<rparr>)"

definition profiling_task_new :: "u16 \<Rightarrow> task" where
  "profiling_task_new channel_id = annotate_priority PriorityLow (annotate_channel channel_id task_default)"

definition profiler_add :: "bool \<Rightarrow> addr \<Rightarrow> channel \<Rightarrow> addr links \<Rightarrow> scheduler \<Rightarrow> profiler \<Rightarrow> sched_error + addr links \<times> scheduler \<times> profiler" where
  "profiler_add statistics a c h s p =
     (case schedule_external statistics a (profiling_task_new (ch_id c)) h s of
        Inl e \<Rightarrow> Inl e
      | Inr (h', s') \<Rightarrow> Inr (h', s', p\<lparr>pr_tasks := pr_tasks p @ [(a, ch_id c, [])]\<rparr>))"

text \<open>Scheduler::profile; \<open>alloc i\<close> is the address of the task for channel \<open>i\<close>.\<close>

fun profile_channels :: "bool \<Rightarrow> (nat \<Rightarrow> addr) \<Rightarrow> nat list \<Rightarrow> addr links \<Rightarrow> scheduler \<Rightarrow> profiler \<Rightarrow> sched_error + addr links \<times> scheduler \<times> profiler" where
  "profile_channels statistics alloc [] h s p = Inr (h, s, p)"
| "profile_channels statistics alloc (i # is) h s p =
     (case worker_at s i of
        Inl e \<Rightarrow> Inl e
      | Inr w \<Rightarrow> (case profiler_add statistics (alloc i) (w_channel w) h s p of
          Inl e \<Rightarrow> Inl e
        | Inr (h', s', p') \<Rightarrow> profile_channels statistics alloc is h' s' p'))"

definition sched_profile :: "bool \<Rightarrow> (nat \<Rightarrow> addr) \<Rightarrow> string \<Rightarrow> u64 \<Rightarrow> addr links \<Rightarrow> scheduler \<Rightarrow> profiler \<Rightarrow> sched_error + addr links \<times> scheduler \<times> profiler" where
  "sched_profile statistics alloc output_file now h s p =
     profile_channels statistics alloc [0..<sch_count_channels s] h s (snd (profiler_profile output_file now p))"

datatype profile_entry = ChannelRanges u16 "(u64 \<times> u64) list" | EndTime u64

definition profiler_stop :: "u64 \<Rightarrow> profiler \<Rightarrow> (string \<times> profile_entry list) option \<times> profiler" where
  "profiler_stop now p =
     (let end_relative = (now - pr_start p) div ticks_per_unit;
          entries = map (\<lambda>(a, ch, ranges). ChannelRanges ch (map (idle_normalize (pr_start p)) ranges))
            (filter (\<lambda>(a, ch, ranges). ranges \<noteq> []) (pr_tasks p)) @ [EndTime end_relative]
      in (map_option (\<lambda>file. (file, entries)) (pr_output_file p), p\<lparr>pr_output_file := None\<rparr>))"

text \<open>Scheduler::interrupt stops the workers and then the profiler.\<close>

definition sched_interrupt_profiler :: "u64 \<Rightarrow> scheduler \<Rightarrow> profiler \<Rightarrow> (string \<times> profile_entry list) option \<times> scheduler \<times> profiler" where
  "sched_interrupt_profiler now s p = (let (out, p') = profiler_stop now p in (out, sched_interrupt s, p'))"

subsection \<open>The loop ends\<close>

text \<open>Other threads keep the queues of a channel intact and do not touch its buffer.\<close>

definition arrivals :: "(nat \<Rightarrow> addr links \<times> channel \<Rightarrow> addr links \<times> channel) \<Rightarrow> bool" where
  "arrivals arrive \<longleftrightarrow> (\<forall>i h c cont buf h' c'. channel_rep h c cont buf \<longrightarrow> arrive i (h, c) = (h', c') \<longrightarrow> (\<exists>cont'. channel_rep h' c' cont' buf))"

lemma channel_empty_rep: "channel_rep h c cont buf \<Longrightarrow> channel_empty c \<longleftrightarrow> buf = []"
  by (simp add: channel_rep_def channel_empty_def tb_empty_rep)

lemma idle_loop_ends:
  assumes "arrivals arrive" "\<not> running (i + k)"
  shows "channel_rep h c cont buf \<Longrightarrow> k < fuel \<Longrightarrow> \<exists>j h' c' cont' buf'. idle_loop fuel running arrive tasks i h c = Some (j, h', c') \<and>
    j \<le> i + k \<and> channel_rep h' c' cont' buf' \<and> (running j \<longrightarrow> buf' \<noteq> [])"
  using assms(2)
proof (induction fuel arbitrary: i k h c cont buf)
  case (Suc fuel)
  obtain h1 c1 where arrive: "arrive i (h, c) = (h1, c1)" by (cases "arrive i (h, c)") auto
  then obtain cont1 where r1: "channel_rep h1 c1 cont1 buf" using assms(1) Suc.prems(1) unfolding arrivals_def by blast
  show ?case
  proof (cases "running i \<and> buf = []")
    case True
    then obtain k' where k: "k = Suc k'" using Suc.prems(3) by (cases k) auto
    obtain n h2 c2 cont2 buf2 where f: "channel_fill tasks h1 c1 = Some (n, h2, c2)" "channel_rep h2 c2 cont2 buf2"
      using channel_fill_rep [OF r1, of tasks] True by auto
    obtain j h' c' cont' buf' where "idle_loop fuel running arrive tasks (i + 1) h2 c2 = Some (j, h', c')" "j \<le> i + 1 + k'"
        "channel_rep h' c' cont' buf'" "running j \<longrightarrow> buf' \<noteq> []"
      using Suc.IH [OF f(2), of k' "i + 1"] Suc.prems(2,3) k by auto
    then show ?thesis using True arrive f(1) channel_empty_rep [OF r1] k by auto
  next
    case False
    then show ?thesis using arrive r1 channel_empty_rep [OF r1] by auto
  qed
qed simp

text \<open>A task that waits in a queue of the channel ends the loop in the next round: it is in the buffer then.\<close>

lemma idle_loop_gives_way:
  assumes "arrivals arrive" "arrive i (h, c) = (h1, c1)" "channel_rep h1 c1 cont []"
    "backlog c1 PriorityNormal cont @ backlog c1 PriorityLow cont \<noteq> []" "running i" "1 < fuel"
  shows "\<exists>h' c' cont' buf'. idle_loop fuel running arrive tasks i h c = Some (i + 1, h', c') \<and> channel_rep h' c' cont' buf' \<and> buf' \<noteq> []"
proof -
  obtain f where f: "fuel = Suc (Suc f)" using assms(6) by (cases fuel; cases "fuel - 1") auto
  obtain h2 c2 cont2 where fill: "channel_fill tasks h1 c1 = Some (length (filled_buffer c1 cont []), h2, c2)"
      "channel_rep h2 c2 cont2 (filled_buffer c1 cont [])"
    using channel_fill_rep [OF assms(3), of tasks] by auto
  have ne: "filled_buffer c1 cont [] \<noteq> []" using assms(4) by (auto simp: filled_buffer_def)
  obtain h3 c3 where arrive: "arrive (i + 1) (h2, c2) = (h3, c3)" by (cases "arrive (i + 1) (h2, c2)") auto
  then obtain cont3 where r3: "channel_rep h3 c3 cont3 (filled_buffer c1 cont [])" using assms(1) fill(2) unfolding arrivals_def by blast
  have "idle_loop fuel running arrive tasks i h c = Some (i + 1, h3, c3)"
    using f assms(2,5) fill(1) arrive channel_empty_rep [OF assms(3)] channel_empty_rep [OF r3] ne by simp
  then show ?thesis using r3 ne by blast
qed

subsection \<open>What is written\<close>

text \<open>Ranges that were recorded between start and end are written in order and below the end.\<close>

lemma idle_normalize_bounds:
  assumes "s \<le> ir_start r" "ir_start r \<le> ir_end r" "ir_end r \<le> now" "idle_normalize s r = (a, b)"
  shows "a \<le> b \<and> b \<le> (now - s) div ticks_per_unit"
proof -
  have "unat (ir_start r - s) = unat (ir_start r) - unat s" "unat (ir_end r - s) = unat (ir_end r) - unat s" "unat (now - s) = unat now - unat s"
    using assms(1-3) by (simp_all add: word_le_nat_alt unat_sub_if_size)
  then show ?thesis
    using assms by (auto simp: idle_normalize_def word_le_nat_alt unat_div intro!: div_le_mono diff_le_mono)
qed

lemma profiler_stop_writes_every_range:
  assumes "pr_output_file p = Some file" "profiler_stop now p = (out, p')"
  shows "\<exists>entries. out = Some (file, entries @ [EndTime ((now - pr_start p) div ticks_per_unit)]) \<and>
    concat (map (\<lambda>e. case e of ChannelRanges ch rs \<Rightarrow> map (Pair ch) rs | EndTime t \<Rightarrow> []) entries) =
    concat (map (\<lambda>(a, ch, rs). map (Pair ch) (map (idle_normalize (pr_start p)) rs)) (pr_tasks p)) \<and> pr_output_file p' = None"
proof -
  have "concat (map (\<lambda>e. case e of ChannelRanges ch rs \<Rightarrow> map (Pair ch) rs | EndTime t \<Rightarrow> [])
      (map (\<lambda>(a, ch, ranges). ChannelRanges ch (map f ranges)) (filter (\<lambda>(a, ch, ranges). ranges \<noteq> []) ts))) =
    concat (map (\<lambda>(a, ch, rs). map (Pair ch) (map f rs)) ts)" for f :: "idle_range \<Rightarrow> u64 \<times> u64" and ts :: "(addr \<times> u16 \<times> idle_range list) list"
    by (induction ts) auto
  then show ?thesis using assms by (auto simp: profiler_stop_def Let_def)
qed

end
