(* ===== verification/Spec2Isabelle.thy ===== *)
theory Spec2Isabelle
  imports WorkerModel BLinkCheck DynamicAllocator FixedConcurrent GlobalHeapModel HashJoin MpscConcurrent BoundMpmc RuntimeModel ResourceAccess
    RequestScheduler ProfilerModel
begin

text \<open>
  MxTasking: a verification library for the task runtime (src/mx), the B-link tree (src/db) and the benchmark programs
  (src/application, src/benchmark). Paths below are relative to src/src of the repository.

  \<^bold>\<open>The program.\<close> An application cuts its work into small tasks and annotates each task with the resource, the channel
  or the NUMA region it belongs to. The runtime hands a spawned task to the scheduler, which appends it to one of the
  queues of a channel; the worker thread of the channel moves tasks from the queues into the task buffer, prefetches
  what they will read, and executes them one after the other in a context that depends on the resource: under a latch,
  optimistically under a version lock, or without synchronization, when all accesses are scheduled to one channel.
  Removed resources are reclaimed by epochs; tasks, resources and tables live in memory of the runtime's own allocators. The B-link
  tree and the hash join are built on these tasks; the benchmark programs drive both.

  \<^bold>\<open>Common ground.\<close>
  \<^item> \<open>MxPrelude\<close>: names of the integer types, arrays whose accesses fail outside (None), block moves, std::lower_bound,
    linked chains, and the locale \<open>step_system\<close>: a step relation with an invariant that holds in every reachable state.

  \<^bold>\<open>Queues and buffers.\<close>
  \<^item> \<open>LinkedQueues\<close> (mx/util/queue.h, mpsc_queue.h): both queues as operations on a link store, with the contract
    \<open>linked_source\<close> and its extension \<open>linked_queue\<close>, interpreted for Queue (\<open>spsc\<close>) and MPSCQueue (\<open>mpsc\<close>); both
    refine a FIFO list.
  \<^item> \<open>MpscConcurrent\<close>: the accesses of concurrent producers and the consumer of an MPSCQueue as steps; what is popped
    is a prefix of what was pushed, in every interleaving (\<open>mp_system\<close>).
  \<^item> \<open>BoundMpmc\<close> (bound_mpmc_queue.h): the bounded queue for many producers and consumers; the pop at a position gets the item
    pushed at that position (\<open>bq_system\<close>), until 2^63 - capacity items were pushed.
  \<^item> \<open>TaskBuf\<close> (mx/tasking/task_buffer.h): the ring buffer refines a bounded list; filling it is proved once for every
    \<open>linked_source\<close> (locale \<open>task_source\<close>) and used for both kinds of queues.
  \<^item> \<open>UtilVector\<close>, \<open>CoreSet\<close>, \<open>UtilCounters\<close> (mx/util/vector.h, core_set.h and core_set.cpp, reference_counter.h, random.h and
    random.cpp): growth, assignment and moves of the vector, the order of the cores of a set, the value of a counter over any sequence of changes, the
    range of the random numbers.

  \<^bold>\<open>Tasks, scheduling, execution.\<close>
  \<^item> \<open>ResourcePtr\<close> (mx/resource/resource.h, mx/memory/tagged_ptr.h, mx/synchronization/synchronization.h and
    primitive_matrix.h): bit fields of a resource pointer and their round trip; the primitive that is chosen for a hint
    synchronizes what its isolation level asks for.
  \<^item> \<open>Tasks\<close> (mx/tasking/task.h, task_stack.h, prefetch_slot.h, mx/system/cache.h): annotations, saving and restoring a
    task byte by byte, the cache lines a prefetch touches.
  \<^item> \<open>ChannelModel\<close> (channel.h, channel_occupancy.h, load.h): the queues of a channel by priority and NUMA region; filling
    the buffer takes tasks in the documented order and loses none; predictions of the usage are counted.
  \<^item> \<open>SchedulerModel\<close> (scheduler.h and scheduler.cpp, profiling/statistic.h): construction, the choice of the queue for
    a task, its errors, the statistics.
  \<^item> \<open>ProfilerModel\<close> (profiling/profiling_task.h and profiling_task.cpp): the idle profiler; its task gives way as soon as another
    task has arrived, and what it writes lies within the profiled time.
  \<^item> \<open>WorkerModel\<close> (worker.h and worker.cpp): an iteration of the worker, the execution contexts, the loop of the
    optimistic reads. What a task does is a parameter.
  \<^item> \<open>RuntimeModel\<close> (mx/resource/builder.h and builder.cpp, mx/tasking/runtime.h): init, tasks, resources; a resource is assigned to
    a channel of the machine and its tasks are queued where its primitive demands.

  \<^bold>\<open>Synchronization and memory.\<close>
  \<^item> \<open>Latches\<close> (mx/synchronization/spinlock.h, optimistic_lock.h), \<open>RwLatch\<close> (rw_spinlock.h): one atomic operation of one
    thread per step; mutual exclusion, readers beside writers, consistency of validated reads (\<open>spin_system\<close>, \<open>rw_system\<close>).
  \<^item> \<open>ResourceAccess\<close> (mx/resource/resource_interface.h, worker.cpp): the contract \<open>latch\<close>, interpreted for the three locks, and
    the contexts of the worker on top of them: conflicting tasks are never inside their contexts at the same time.
  \<^item> \<open>EpochReclamation\<close> (mx/memory/reclamation): the operations of the epoch manager, and the interleaving of workers, the
    references of their tasks and the collector (\<open>ep_system\<close>): a resource is freed only after every worker has entered a later epoch than that of its
    deletion. Lemmas show the limits: references carried over an enter, the start, and UpdateEpochOnRead.
  \<^item> \<open>Alignment\<close>, \<open>DynamicAllocator\<close>, \<open>FixedAllocator\<close>, \<open>GlobalHeapModel\<close> (mx/memory): live and free memory partition a block,
    allocations are aligned, disjoint and reversible; when the loop of an allocation ends and when it does not. These are calls
    one after the other.
  \<^item> \<open>FixedConcurrent\<close> (mx/memory/fixed_size_allocator.h): the cores interleaved at a processor heap (\<open>fixed_system\<close>). Objects do
    not overlap when each core has its own region, nor as long as no core refills a buffer on the grounds of an old counter value;
    otherwise two cores can get the same chunk.

  \<^bold>\<open>The B-link tree\<close> (db/index/blinktree).
  \<^item> \<open>BLinkNode\<close> (node.h) and \<open>BLinkTree\<close> (b_link_tree.h): the operations on nodes, splits and new roots;
    \<open>BLinkInv\<close> the structural invariant; \<open>BLinkTasks\<close> the four tasks (insert_value_task.h, insert_separator_task.h, lookup_task.h,
    update_task.h), one execution per step.
  \<^item> \<open>BLinkIndex\<close>: all interleavings of insertions of any keys. The invariant holds in every reachable state, no execution fails
    except for an insertion of the largest key, which never inserts, the tree refines a map from keys to values, lookups and updates
    find their key within a bounded number of executions.
  \<^item> \<open>BLinkCheck\<close> (node_iterator.h, node_statistics.h, node_consistency_checker.h): the iteration visits every node once, the
    check has no false alarms.

  \<^bold>\<open>The benchmark programs.\<close>
  \<^item> \<open>HashTable\<close>, \<open>HashJoin\<close> (application/hashjoin_benchmark): the table refines a map (locale \<open>map_table\<close> and its extension
    \<open>map_table_build\<close>, interpreted as \<open>join_table\<close>); the join counts the matches in
    every order of the tasks, for keys that the tables have room for; inserting into a full table never returns.
  \<^item> \<open>WorkloadModel\<close> (benchmark/workload_set.h, workload.h, cores.h and their .cpp files, string_util.cpp, core_set() of both benchmark.cpp): the generated
    tuples, core counts, and the order of the configurations. The contract \<open>configuration_order\<close> of core_set() is
    interpreted for both programs (\<open>tree_order\<close>, \<open>join_order\<close>): every configuration is run once, then the loop of main ends.
  \<^item> \<open>RequestScheduler\<close> (application/blinktree_benchmark/request_scheduler.h, config.h, start and requests_finished of
    benchmark.cpp): every interleaving of schedulers and requests (\<open>bench_system\<close>) does each request exactly
    once, with a bounded number of them pending, and a phase that is not over can go on.

  \<^bold>\<open>Conventions.\<close> A read or write outside of an array, a null or dangling pointer and a division by 0 are None or a
  value of an error type, so that a lemma that gives a result shows their absence. Integers have the width of
  the code, as words or as natural numbers with the wrap-around written out. Atomic operations are sequentially
  consistent; a step of a concurrent component is one access to shared memory, a step of the tree, the join and the
  phases is one execution of a task, which is what the execution contexts give. Objects are named by their addresses.

  \<^bold>\<open>Fuel and bounds.\<close> Loops that may not end take fuel, and None is a loop that has not ended. For each of them a lemma
  gives the fuel that is enough or shows that none is: the loop of Allocator::allocate needs at most one
  new block, or never returns for very large requests; the hash table needs one slot more than its length; the iteration over a tree one step per node;
  the main loops one round per configuration; the loops of the workload and of the core lists one round per value, unless
  the counter is too narrow for the bound. Counters that wrap around limit what holds: 2^30 threads at the reader/writer lock, 2^30
  writes during an optimistic read, 2^63 - capacity items in the bounded queue, 2^64 / 500 calls of Workload::next in a phase.

  \<^bold>\<open>Parameters.\<close> Memory of the operating system, the topology of the machine, the code of a task, the contents of
  uninitialized memory and the values of std::rand are arguments of the definitions, without assumptions beyond those
  written in the lemmas (memory is aligned and does not overlap other memory).

  \<^bold>\<open>Not modelled.\<close> Starting, pinning and joining threads, the topology and environment queries, cpuid and the builtins
  (mx/system/thread.h, topology.h, environment.h, cpuid.h, builtin.h) are calls of the operating system or of the processor. The
  chronometer and the performance counters (benchmark/chronometer.h, perf.h) measure time and print it. The command lines and file readers (main.cpp, tpch_table_reader), the output of results and of the tree as JSON and std::shuffle
  are input, output and library calls. lib/json.hpp and lib/argparse.hpp are third-party code; test/ holds unit tests; hello_world is an example.
  aligned_t and maybe_atomic wrap a value without behaviour of their own. The memory orders of the atomic operations are not distinguished. A task of
  the worker model returns its successor and changes the state of the application, but spawns no further tasks while it is executed. The collection of local garbage
  queues is modelled as an operation, not interleaved.
\<close>

end
